(* ===== verification/Prelude.thy ===== *)
theory Prelude
  imports Main "HOL-Library.Word"
begin

text \<open>
  Shared vocabulary of the development: the machine types of the target
  (an 8-bit AVR: \<open>int\<close> and \<open>unsigned short\<close> have 16 bits,
  \<open>char\<close> 8, \<open>long\<close> 32, and \<open>clock_time_t\<close> is
  \<open>unsigned short\<close>, see \<open>platform/avr-atmega256rfr2/contiki-conf.h\<close>),
  pointers as addresses with \<open>NULL = 0\<close>, C truth values, the theorem
  collections that the component theories fill, and lemmas on lists, maps and
  words that several components use.
\<close>

unbundle bit_operations_syntax

section \<open>Machine types\<close>

type_synonym u8 = "8 word"
type_synonym u16 = "16 word"
type_synonym u32 = "32 word"
type_synonym clock_time = "16 word"
type_synonym ptr = nat

abbreviation (input) NULL :: ptr where
  "NULL \<equiv> 0"

section \<open>Collections\<close>

named_theorems chain_simps \<open>equations of pointer chains\<close>
named_theorems wf_intros \<open>preservation of well-formedness\<close>

section \<open>Lists\<close>

lemma remove1_not_in: "x \<notin> set xs \<Longrightarrow> remove1 x xs = xs"
  by (induction xs) auto

lemma remove1_snoc_distinct: "x \<notin> set xs \<Longrightarrow> remove1 x (xs @ x # ys) = xs @ ys"
  by (simp add: remove1_append)

lemma length_remove1_le: "length (remove1 x xs) \<le> length xs"
  by (simp add: length_remove1)

lemma butlast_remove1_last: "distinct xs \<Longrightarrow> xs \<noteq> [] \<Longrightarrow> remove1 (last xs) xs = butlast xs"
proof (induction xs)
  case (Cons x xs)
  then show ?case by (cases xs) auto
qed simp

section \<open>Words\<close>

lemma unat_less_u8: "unat (x :: u8) < 256"
  using unsigned_less [of x, where ?'a = nat] by simp

lemma unat_less_u16: "unat (x :: u16) < 65536"
  using unsigned_less [of x, where ?'a = nat] by simp

lemma unat_ucast_u8_u16 [simp]: "unat (ucast (x :: u8) :: u16) = unat x"
  using unat_less_u8 [of x] by (simp add: unsigned_ucast_eq take_bit_nat_eq_self)

lemma unat_ucast_u16_u8: "unat (ucast (x :: u16) :: u8) = unat x mod 256"
  by (simp add: unsigned_ucast_eq take_bit_nat_def)

lemma word_eq_mask:
  fixes m :: "'a::len word"
  assumes "unat m = 2 ^ k - 1"
  shows "m = mask k"
proof -
  have "m = of_nat (unat m)" by simp
  also have "\<dots> = of_nat (2 ^ k - 1)" using assms by (simp only:)
  finally have "m = of_nat (2 ^ k - 1)" .
  then show ?thesis by (simp add: of_nat_diff mask_eq_exp_minus_1)
qed

lemma unat_and_mask:
  fixes w :: "'a::len word"
  assumes "unat m = 2 ^ k - 1"
  shows "unat (w AND m) = unat w mod 2 ^ k"
proof -
  have "w AND m = take_bit k w" using word_eq_mask [OF assms] by (simp add: take_bit_eq_mask)
  then show ?thesis by (simp add: unsigned_take_bit_eq take_bit_nat_def)
qed

lemma xor_cancel_right: "(x :: 'a::len word) XOR z = y XOR z \<Longrightarrow> x = y"
proof -
  assume "x XOR z = y XOR z"
  then have "(x XOR z) XOR z = (y XOR z) XOR z" by (rule arg_cong)
  then show "x = y" by (simp add: xor.assoc)
qed

lemma xor_cancel_left: "z XOR x = z XOR y \<Longrightarrow> (x :: 'a::len word) = y"
  using xor_cancel_right [of x z y] by (simp add: xor.commute)

lemma xor_zero_eq: "(x :: 'a::len word) XOR y = 0 \<Longrightarrow> x = y"
  using xor_cancel_right [of x y y] by simp

lemma bit_u16_high [simp]: "16 \<le> n \<Longrightarrow> \<not> bit (w :: u16) n"
  using bit_imp_le_length [of w n] by auto

lemma bit_u8_high [simp]: "8 \<le> n \<Longrightarrow> \<not> bit (w :: u8) n"
  using bit_imp_le_length [of w n] by auto

lemma below_8: "i < 8 \<Longrightarrow> i \<in> {0, 1, 2, 3, 4, 5, 6, 7 :: nat}"
  by (auto simp: eval_nat_numeral less_Suc_eq)

lemma and_mask_small:
  fixes w :: "'a::len word"
  assumes "unat m = 2 ^ k - 1" "unat w < 2 ^ k"
  shows "w AND m = w"
  using unat_and_mask [OF assms(1), of w] assms(2) by (simp add: word_unat_eq_iff)

lemma small_bits:
  fixes w :: "'a::len word"
  assumes "unat w < 2 ^ k" "k \<le> i"
  shows "\<not> bit w i"
proof -
  have "unat w < 2 ^ i" using assms power_increasing [of k i "2::nat"] by linarith
  then have "\<not> bit (unat w) i" unfolding bit_iff_odd by simp
  then show ?thesis by (simp add: bit_unsigned_iff)
qed

lemma below_16: "i < 16 \<Longrightarrow> i \<in> {0, 1, 2, 3, 4, 5, 6, 7, 8, 9, 10, 11, 12, 13, 14, 15 :: nat}"
  by (auto simp: eval_nat_numeral less_Suc_eq)

text \<open>A 16-bit value and its two bytes.\<close>

lemma u16_bytes_sum:
  "ucast (ucast (w AND 0xff) :: u8) + push_bit 8 (ucast (ucast (drop_bit 8 w AND 0xff) :: u8)) = (w :: u16)"
proof -
  have m: "unat (w AND 0xff) = unat w mod 256" for w :: u16 using unat_and_mask [of "0xff :: u16" 8 w] by simp
  have "unat (drop_bit 8 w) = unat w div 256" by (simp add: drop_bit_eq_div unat_div)
  then have h: "unat (drop_bit 8 w AND 0xff) = unat w div 256" using unat_less_u16 [of w] by (simp add: m)
  have "unat (push_bit 8 (ucast (ucast (drop_bit 8 w AND 0xff) :: u8)) :: u16) = unat w div 256 * 256"
    using unat_less_u16 [of w] by (simp add: h push_bit_eq_mult unat_ucast_u16_u8 unat_word_ariths)
  then show ?thesis using unat_less_u16 [of w]
    by (simp add: word_unat_eq_iff unat_word_ariths m unat_ucast_u16_u8)
qed

end
