(* ===== verification/LinkedList.thy ===== *)
theory LinkedList
  imports Prelude "HOL-Library.Monad_Syntax"
begin

text \<open>
  The intrusive linked lists of \<open>core/lib/list.c\<close>. A list is a cell that
  holds the pointer to its first element (\<open>list_t\<close>, here a handle), and the
  elements are chained through their \<open>next\<close> fields; both live in an explicit
  store. Loops over the chain do not end on a cyclic list, so they are
  \<^theory_text>\<open>partial_function (option)\<close>s; the lemmas show that on a chain that
  represents a HOL list every operation returns and implements the operation of
  the same name on HOL lists, and changes no other list.
\<close>

section \<open>The store\<close>

record list_heap =
  lhd :: "nat \<Rightarrow> ptr"
  lnext :: "ptr \<Rightarrow> ptr"

definition set_head :: "nat \<Rightarrow> ptr \<Rightarrow> list_heap \<Rightarrow> list_heap" where
  "set_head l p h = h\<lparr>lhd := (lhd h)(l := p)\<rparr>"

definition set_next :: "ptr \<Rightarrow> ptr \<Rightarrow> list_heap \<Rightarrow> list_heap" where
  "set_next p q h = h\<lparr>lnext := (lnext h)(p := q)\<rparr>"

lemma set_head_sel [simp]:
  "lhd (set_head l p h) = (lhd h)(l := p)" "lnext (set_head l p h) = lnext h"
  by (simp_all add: set_head_def)

lemma set_next_sel [simp]:
  "lhd (set_next p q h) = lhd h" "lnext (set_next p q h) = (lnext h)(p := q)"
  by (simp_all add: set_next_def)

section \<open>The operations of list.c\<close>

definition list_init :: "list_heap \<Rightarrow> nat \<Rightarrow> list_heap" where
  "list_init h l = set_head l NULL h"

definition list_head :: "list_heap \<Rightarrow> nat \<Rightarrow> ptr" where
  "list_head h l = lhd h l"

definition list_copy :: "list_heap \<Rightarrow> nat \<Rightarrow> nat \<Rightarrow> list_heap" where
  "list_copy h dest src = set_head dest (lhd h src) h"

partial_function (option) tail_loop :: "(ptr \<Rightarrow> ptr) \<Rightarrow> ptr \<Rightarrow> ptr option" where
  "tail_loop nx l = (if nx l \<noteq> NULL then tail_loop nx (nx l) else Some l)"

definition list_tail :: "list_heap \<Rightarrow> nat \<Rightarrow> ptr option" where
  "list_tail h l = (if lhd h l = NULL then Some NULL else tail_loop (lnext h) (lhd h l))"

partial_function (option) remove_loop ::
    "list_heap \<Rightarrow> nat \<Rightarrow> ptr \<Rightarrow> ptr \<Rightarrow> ptr \<Rightarrow> list_heap option" where
  "remove_loop h list item l r =
     (if l = NULL then Some h
      else if l = item then
        (let h1 = (if r = NULL then set_head list (lnext h l) h
                   else set_next r (lnext h l) h)
         in Some (set_next l NULL h1))
      else remove_loop h list item (lnext h l) l)"

definition list_remove :: "list_heap \<Rightarrow> nat \<Rightarrow> ptr \<Rightarrow> list_heap option" where
  "list_remove h list item =
     (if lhd h list = NULL then Some h else remove_loop h list item (lhd h list) NULL)"

definition list_add :: "list_heap \<Rightarrow> nat \<Rightarrow> ptr \<Rightarrow> list_heap option" where
  "list_add h list item = do {
     h1 \<leftarrow> list_remove h list item;
     let h2 = set_next item NULL h1;
     l \<leftarrow> list_tail h2 list;
     Some (if l = NULL then set_head list item h2 else set_next l item h2)
   }"

definition list_push :: "list_heap \<Rightarrow> nat \<Rightarrow> ptr \<Rightarrow> list_heap option" where
  "list_push h list item = do {
     h1 \<leftarrow> list_remove h list item;
     let h2 = set_next item (lhd h1 list) h1;
     Some (set_head list item h2)
   }"

partial_function (option) chop_loop :: "(ptr \<Rightarrow> ptr) \<Rightarrow> ptr \<Rightarrow> ptr option" where
  "chop_loop nx l = (if nx (nx l) \<noteq> NULL then chop_loop nx (nx l) else Some l)"

definition list_chop :: "list_heap \<Rightarrow> nat \<Rightarrow> (ptr \<times> list_heap) option" where
  "list_chop h list =
     (if lhd h list = NULL then Some (NULL, h)
      else if lnext h (lhd h list) = NULL then Some (lhd h list, set_head list NULL h)
      else do {
        l \<leftarrow> chop_loop (lnext h) (lhd h list);
        let r = lnext h l;
        Some (r, set_next l NULL h)
      })"

definition list_pop :: "list_heap \<Rightarrow> nat \<Rightarrow> ptr \<times> list_heap" where
  "list_pop h list =
     (let l = lhd h list
      in (l, if lhd h list \<noteq> NULL then set_head list (lnext h (lhd h list)) h else h))"

partial_function (option) length_loop :: "(ptr \<Rightarrow> ptr) \<Rightarrow> ptr \<Rightarrow> u16 \<Rightarrow> u16 option" where
  "length_loop nx l n = (if l \<noteq> NULL then length_loop nx (nx l) (n + 1) else Some n)"

definition list_length :: "list_heap \<Rightarrow> nat \<Rightarrow> u16 option" where
  "list_length h list = length_loop (lnext h) (lhd h list) 0"

definition list_insert :: "list_heap \<Rightarrow> nat \<Rightarrow> ptr \<Rightarrow> ptr \<Rightarrow> list_heap option" where
  "list_insert h list previtem newitem =
     (if previtem = NULL then list_push h list newitem
      else Some (set_next previtem newitem (set_next newitem (lnext h previtem) h)))"

definition list_item_next :: "list_heap \<Rightarrow> ptr \<Rightarrow> ptr" where
  "list_item_next h item = (if item = NULL then NULL else lnext h item)"


section \<open>Chains and the lists they represent\<close>

fun lseg :: "(ptr \<Rightarrow> ptr) \<Rightarrow> ptr \<Rightarrow> ptr list \<Rightarrow> ptr \<Rightarrow> bool" where
  "lseg nx p [] q \<longleftrightarrow> p = q"
| "lseg nx p (x # xs) q \<longleftrightarrow> p = x \<and> x \<noteq> NULL \<and> lseg nx (nx x) xs q"

abbreviation lchain :: "(ptr \<Rightarrow> ptr) \<Rightarrow> ptr \<Rightarrow> ptr list \<Rightarrow> bool" where
  "lchain nx p xs \<equiv> lseg nx p xs NULL"

definition is_list :: "list_heap \<Rightarrow> nat \<Rightarrow> ptr list \<Rightarrow> bool" where
  "is_list h l xs \<longleftrightarrow> lchain (lnext h) (lhd h l) xs"

definition same_outside :: "nat \<Rightarrow> ptr set \<Rightarrow> list_heap \<Rightarrow> list_heap \<Rightarrow> bool" where
  "same_outside l A h h' \<longleftrightarrow>
     (\<forall>l'. l' \<noteq> l \<longrightarrow> lhd h' l' = lhd h l') \<and> (\<forall>p. p \<notin> A \<longrightarrow> lnext h' p = lnext h p)"

lemma lseg_append [chain_simps]:
  "lseg nx p (xs @ ys) q \<longleftrightarrow> (\<exists>r. lseg nx p xs r \<and> lseg nx r ys q)"
  by (induction xs arbitrary: p) auto

lemma lseg_upd [chain_simps]: "x \<notin> set xs \<Longrightarrow> lseg (nx(x := v)) p xs q = lseg nx p xs q"
  by (induction xs arbitrary: p) auto

lemma lseg_cong: "(\<And>x. x \<in> set xs \<Longrightarrow> nx' x = nx x) \<Longrightarrow> lseg nx' p xs q = lseg nx p xs q"
  by (induction xs arbitrary: p) auto

lemma lseg_not_null: "lseg nx p xs q \<Longrightarrow> NULL \<notin> set xs"
  by (induction xs arbitrary: p) auto

lemma lchain_null [simp]: "lchain nx NULL xs \<longleftrightarrow> xs = []"
  by (cases xs) auto

lemma lchain_nonnull: "p \<noteq> NULL \<Longrightarrow> lchain nx p xs \<longleftrightarrow> (\<exists>ys. xs = p # ys \<and> lchain nx (nx p) ys)"
  by (cases xs) auto

lemma lchain_unique: "lchain nx p xs \<Longrightarrow> lchain nx p ys \<Longrightarrow> xs = ys"
proof (induction xs arbitrary: p ys)
  case (Cons x xs)
  then show ?case by (cases ys) auto
qed simp

lemma lchain_distinct: "lchain nx p xs \<Longrightarrow> distinct xs"
proof (induction xs arbitrary: p)
  case (Cons x xs)
  have "x \<notin> set xs"
  proof
    assume "x \<in> set xs"
    then obtain us vs where xs: "xs = us @ x # vs" by (meson split_list)
    with Cons.prems have "lchain nx x (x # vs)" "lchain nx x (x # xs)"
      by (auto simp: chain_simps)
    then have "x # vs = x # xs" by (rule lchain_unique)
    with xs show False by simp
  qed
  with Cons show ?case by auto
qed simp

lemma is_list_distinct: "is_list h l xs \<Longrightarrow> distinct xs"
  unfolding is_list_def by (rule lchain_distinct)

lemma is_list_not_null: "is_list h l xs \<Longrightarrow> NULL \<notin> set xs"
  unfolding is_list_def by (rule lseg_not_null)

lemma is_list_unique: "is_list h l xs \<Longrightarrow> is_list h l ys \<Longrightarrow> xs = ys"
  unfolding is_list_def by (rule lchain_unique)

lemma is_list_other:
  assumes "is_list h l' ys" "same_outside l A h h'" "l' \<noteq> l" "set ys \<inter> A = {}"
  shows "is_list h' l' ys"
proof -
  have "lseg (lnext h') (lhd h' l') ys NULL = lseg (lnext h) (lhd h l') ys NULL"
    using assms by (subst lseg_cong [of ys _ "lnext h"]) (auto simp: same_outside_def)
  with assms(1) show ?thesis by (simp add: is_list_def)
qed

lemma same_outside_refl [simp]: "same_outside l A h h"
  by (simp add: same_outside_def)

lemma same_outside_trans:
  "same_outside l A h1 h2 \<Longrightarrow> same_outside l B h2 h3 \<Longrightarrow> same_outside l (A \<union> B) h1 h3"
  by (auto simp: same_outside_def)

lemma same_outside_mono: "same_outside l A h h' \<Longrightarrow> A \<subseteq> B \<Longrightarrow> same_outside l B h h'"
  by (auto simp: same_outside_def)

section \<open>Every operation implements its list counterpart\<close>

lemma tail_loop_chain:
  "lchain nx p xs \<Longrightarrow> xs \<noteq> [] \<Longrightarrow> tail_loop nx p = Some (last xs)"
proof (induction xs arbitrary: p)
  case (Cons x xs)
  then show ?case
    by (cases xs) (auto simp: tail_loop.simps [of nx x])
qed simp

lemma list_tail_is_list:
  "is_list h l xs \<Longrightarrow> list_tail h l = Some (if xs = [] then NULL else last xs)"
  using tail_loop_chain [of "lnext h" "lhd h l" xs]
  by (cases xs) (auto simp: is_list_def list_tail_def)

lemma list_head_is_list:
  "is_list h l xs \<Longrightarrow> list_head h l = (case xs of [] \<Rightarrow> NULL | x # _ \<Rightarrow> x)"
  by (cases xs) (auto simp: is_list_def list_head_def)

lemma length_loop_chain: "lchain nx p xs \<Longrightarrow> length_loop nx p n = Some (n + of_nat (length xs))"
proof (induction xs arbitrary: p n)
  case Nil
  then show ?case by (simp add: length_loop.simps)
next
  case (Cons x xs)
  then show ?case by (simp add: length_loop.simps [of nx x] add.assoc)
qed

lemma list_length_is_list: "is_list h l xs \<Longrightarrow> list_length h l = Some (of_nat (length xs))"
  by (simp add: is_list_def list_length_def length_loop_chain)

lemma remove_loop_chain:
  assumes "lseg (lnext h) (lhd h l) xs p" "lchain (lnext h) p ys" "item \<notin> set xs"
    and "r = (if xs = [] then NULL else last xs)"
  shows "\<exists>h'. remove_loop h l item p r = Some h' \<and> is_list h' l (xs @ remove1 item ys)
    \<and> same_outside l (set (xs @ ys)) h h' \<and> (item \<in> set ys \<longrightarrow> lnext h' item = NULL)"
  using assms
proof (induction ys arbitrary: xs p r)
  case Nil
  then show ?case by (simp add: remove_loop.simps is_list_def)
next
  case (Cons y ys)
  have p: "p = y" "y \<noteq> NULL" and ys: "lchain (lnext h) (lnext h y) ys" using Cons.prems(2) by auto
  have whole: "lchain (lnext h) (lhd h l) (xs @ y # ys)"
    using Cons.prems(1,2) unfolding lseg_append by blast
  then have dist: "distinct (xs @ y # ys)" by (rule lchain_distinct)
  show ?case
  proof (cases "y = item")
    case False
    have "lseg (lnext h) (lhd h l) (xs @ [y]) (lnext h y)"
      using Cons.prems(1) p by (auto simp: lseg_append)
    then have "\<exists>h'. remove_loop h l item (lnext h y) y = Some h'
        \<and> is_list h' l ((xs @ [y]) @ remove1 item ys)
        \<and> same_outside l (set ((xs @ [y]) @ ys)) h h' \<and> (item \<in> set ys \<longrightarrow> lnext h' item = NULL)"
      using ys Cons.prems(3) False by (intro Cons.IH) auto
    with p False show ?thesis by (auto simp: remove_loop.simps [of h l item y])
  next
    case True
    show ?thesis
    proof (cases "xs = []")
      case True
      with p \<open>y = item\<close> ys dist Cons.prems(4) show ?thesis
        by (simp add: remove_loop.simps [of h l item item] is_list_def chain_simps
            same_outside_def)
    next
      case False
      then obtain zs where xs: "xs = zs @ [r]" using Cons.prems(4)
        by (metis append_butlast_last_id)
      have "r \<noteq> NULL" using lseg_not_null [OF Cons.prems(1)] xs by auto
      with p \<open>y = item\<close> ys dist xs Cons.prems(1) show ?thesis
        by (auto simp: remove_loop.simps [of h l item item] is_list_def chain_simps
            same_outside_def)
    qed
  qed
qed

lemma list_remove_is_list:
  assumes "is_list h l xs"
  shows "\<exists>h'. list_remove h l item = Some h' \<and> is_list h' l (remove1 item xs)
    \<and> same_outside l (set xs) h h' \<and> (item \<in> set xs \<longrightarrow> lnext h' item = NULL)"
proof (cases "lhd h l = NULL")
  case True
  with assms show ?thesis by (simp add: is_list_def list_remove_def)
next
  case False
  then show ?thesis
    using remove_loop_chain [of h l "[]" "lhd h l" xs item NULL] assms
    by (simp add: is_list_def list_remove_def)
qed

lemma is_list_set_next:
  "is_list h l xs \<Longrightarrow> item \<notin> set xs \<Longrightarrow> is_list (set_next item v h) l xs"
  by (simp add: is_list_def lseg_upd)

lemma list_add_is_list:
  assumes "is_list h l xs" "item \<noteq> NULL"
  shows "\<exists>h'. list_add h l item = Some h' \<and> is_list h' l (remove1 item xs @ [item])
    \<and> same_outside l (insert item (set xs)) h h'"
proof -
  obtain h1 where h1: "list_remove h l item = Some h1" "is_list h1 l (remove1 item xs)"
    "same_outside l (set xs) h h1"
    using list_remove_is_list [OF assms(1), of item] by blast
  let ?ys = "remove1 item xs" and ?h2 = "set_next item NULL h1"
  have ni: "item \<notin> set ?ys" using is_list_distinct [OF assms(1)] by simp
  then have h2: "is_list ?h2 l ?ys" using h1(2) by (rule is_list_set_next [rotated])
  have s2: "same_outside l (insert item (set xs)) h ?h2"
    using h1(3) by (auto simp: same_outside_def)
  show ?thesis
  proof (cases "?ys = []")
    case True
    then have "list_add h l item = Some (set_head l item ?h2)"
      using h1(1) list_tail_is_list [OF h2] by (simp add: list_add_def)
    then show ?thesis using True assms(2) s2 by (auto simp: is_list_def same_outside_def)
  next
    case False
    then obtain zs z where ys: "?ys = zs @ [z]" by (metis append_butlast_last_id)
    then have z: "z \<noteq> NULL" using is_list_not_null [OF h2] by (metis in_set_conv_decomp)
    have "list_add h l item = Some (set_next z item ?h2)"
      using h1(1) list_tail_is_list [OF h2] ys z by (simp add: list_add_def)
    moreover have "is_list (set_next z item ?h2) l (?ys @ [item])"
      using h2 ni assms(2) is_list_distinct [OF h2] unfolding ys is_list_def
      by (auto simp: chain_simps)
    moreover have "same_outside l (insert item (set xs)) h (set_next z item ?h2)"
      using s2 ys by (auto simp: same_outside_def) (metis in_set_conv_decomp notin_set_remove1)
    ultimately show ?thesis by blast
  qed
qed

lemma list_push_is_list:
  assumes "is_list h l xs" "item \<noteq> NULL"
  shows "\<exists>h'. list_push h l item = Some h' \<and> is_list h' l (item # remove1 item xs)
    \<and> same_outside l (insert item (set xs)) h h'"
proof -
  obtain h1 where h1: "list_remove h l item = Some h1" "is_list h1 l (remove1 item xs)"
    "same_outside l (set xs) h h1"
    using list_remove_is_list [OF assms(1), of item] by blast
  have "item \<notin> set (remove1 item xs)" using is_list_distinct [OF assms(1)] by simp
  with h1 assms(2) show ?thesis
    by (auto simp: list_push_def is_list_def lseg_upd same_outside_def)
qed

lemma list_pop_is_list:
  assumes "is_list h l xs"
  shows "fst (list_pop h l) = (case xs of [] \<Rightarrow> NULL | x # _ \<Rightarrow> x)
    \<and> is_list (snd (list_pop h l)) l (tl xs) \<and> same_outside l {} h (snd (list_pop h l))"
  using assms by (cases xs) (auto simp: is_list_def list_pop_def same_outside_def)

lemma chop_loop_chain:
  "lchain nx p (xs @ [y, z]) \<Longrightarrow> chop_loop nx p = Some y"
proof (induction xs arbitrary: p)
  case Nil
  then show ?case by (simp add: chop_loop.simps)
next
  case (Cons x xs)
  then have "nx (nx x) \<noteq> NULL" by (cases xs; cases "tl xs"; auto)
  with Cons show ?case by (auto simp: chop_loop.simps [of nx x])
qed

lemma list_chop_is_list:
  assumes "is_list h l xs"
  shows "\<exists>r h'. list_chop h l = Some (r, h') \<and> r = (if xs = [] then NULL else last xs)
    \<and> is_list h' l (butlast xs) \<and> same_outside l (set xs) h h'"
proof (cases xs rule: rev_cases)
  case Nil
  with assms show ?thesis by (simp add: is_list_def list_chop_def)
next
  case (snoc ys z)
  show ?thesis
  proof (cases ys rule: rev_cases)
    case Nil
    with assms snoc show ?thesis
      by (auto simp: is_list_def list_chop_def same_outside_def)
  next
    case (snoc us y)
    with \<open>xs = ys @ [z]\<close> have xs: "xs = us @ [y, z]" by simp
    have c: "lchain (lnext h) (lhd h l) (us @ [y, z])" using assms xs by (simp add: is_list_def)
    then have "chop_loop (lnext h) (lhd h l) = Some y" by (rule chop_loop_chain)
    moreover have "lhd h l \<noteq> NULL" "lnext h (lhd h l) \<noteq> NULL" "lnext h y = z" "z \<noteq> NULL"
      using c by (cases us; cases "tl us"; auto simp: lseg_append)+
    moreover have "butlast xs = us @ [y]" using xs by (simp add: butlast_append)
    ultimately show ?thesis
      using c xs lchain_distinct [OF c]
      by (auto simp: list_chop_def is_list_def same_outside_def chain_simps)
  qed
qed

lemma list_insert_after_is_list:
  assumes "is_list h l (xs @ p # ys)" "item \<noteq> NULL" "item \<notin> set (xs @ p # ys)"
  shows "\<exists>h'. list_insert h l p item = Some h' \<and> is_list h' l (xs @ p # item # ys)
    \<and> same_outside l {p, item} h h'"
  using assms is_list_distinct [OF assms(1)] is_list_not_null [OF assms(1)]
  by (auto simp: list_insert_def is_list_def same_outside_def chain_simps)

section \<open>The interface that the other modules use\<close>

text \<open>
  The lists of HOL on which the clients of \<open>list.c\<close> are modelled, with the
  two insertions of the code: \<open>list_add\<close> appends and \<open>list_push\<close>
  prepends, both after removing the item.
\<close>

definition ladd :: "ptr \<Rightarrow> ptr list \<Rightarrow> ptr list" where
  "ladd x xs = remove1 x xs @ [x]"

definition lpush :: "ptr \<Rightarrow> ptr list \<Rightarrow> ptr list" where
  "lpush x xs = x # remove1 x xs"

lemma set_ladd [simp]: "set (ladd x xs) = insert x (set xs)"
  by (induction xs) (auto simp: ladd_def)

lemma set_lpush [simp]: "set (lpush x xs) = insert x (set xs)"
  by (induction xs) (auto simp: lpush_def)

lemma distinct_ladd [wf_intros]: "distinct xs \<Longrightarrow> distinct (ladd x xs)"
  by (simp add: ladd_def distinct_remove1)

lemma distinct_lpush [wf_intros]: "distinct xs \<Longrightarrow> distinct (lpush x xs)"
  by (simp add: lpush_def distinct_remove1)

lemma ladd_fresh [simp]: "x \<notin> set xs \<Longrightarrow> ladd x xs = xs @ [x]"
  by (simp add: ladd_def remove1_not_in)

lemma lpush_fresh [simp]: "x \<notin> set xs \<Longrightarrow> lpush x xs = x # xs"
  by (simp add: lpush_def remove1_not_in)

text \<open>The calls a module makes to fill a list, item by item.\<close>

fun add_all :: "('h \<Rightarrow> 'l \<Rightarrow> ptr \<Rightarrow> 'h option) \<Rightarrow> 'h \<Rightarrow> 'l \<Rightarrow> ptr list \<Rightarrow> 'h option" where
  "add_all f h l [] = Some h"
| "add_all f h l (x # xs) = do { h' \<leftarrow> f h l x; add_all f h' l xs }"

locale list_store =
  fixes rep :: "'h \<Rightarrow> 'l \<Rightarrow> ptr list \<Rightarrow> bool"
    and add :: "'h \<Rightarrow> 'l \<Rightarrow> ptr \<Rightarrow> 'h option"
    and push :: "'h \<Rightarrow> 'l \<Rightarrow> ptr \<Rightarrow> 'h option"
    and remove :: "'h \<Rightarrow> 'l \<Rightarrow> ptr \<Rightarrow> 'h option"
  assumes rep_distinct: "rep h l xs \<Longrightarrow> distinct xs"
    and rep_unique: "rep h l xs \<Longrightarrow> rep h l ys \<Longrightarrow> xs = ys"
    and add_rep: "rep h l xs \<Longrightarrow> x \<noteq> NULL \<Longrightarrow> \<exists>h'. add h l x = Some h' \<and> rep h' l (ladd x xs)"
    and push_rep: "rep h l xs \<Longrightarrow> x \<noteq> NULL \<Longrightarrow> \<exists>h'. push h l x = Some h' \<and> rep h' l (lpush x xs)"
    and remove_rep: "rep h l xs \<Longrightarrow> \<exists>h'. remove h l x = Some h' \<and> rep h' l (remove1 x xs)"
begin

lemma add_all_rep:
  "rep h l xs \<Longrightarrow> NULL \<notin> set ys \<Longrightarrow> distinct (xs @ ys)
    \<Longrightarrow> \<exists>h'. add_all add h l ys = Some h' \<and> rep h' l (xs @ ys)"
proof (induction ys arbitrary: h xs)
  case (Cons y ys)
  then obtain h1 where "add h l y = Some h1" "rep h1 l (xs @ [y])"
    using add_rep [of h l xs y] by auto
  with Cons.IH [of h1 "xs @ [y]"] Cons.prems show ?case by auto
qed simp

lemma remove_idem:
  assumes "rep h l xs"
  shows "\<exists>h1 h2. remove h l x = Some h1 \<and> remove h1 l x = Some h2 \<and> rep h2 l (remove1 x xs)"
proof -
  obtain h1 where h1: "remove h l x = Some h1" "rep h1 l (remove1 x xs)"
    using remove_rep [OF assms, of x] by blast
  moreover have "remove1 x (remove1 x xs) = remove1 x xs"
    using rep_distinct [OF assms] by (simp add: remove1_not_in)
  ultimately show ?thesis using remove_rep [OF h1(2), of x] by auto
qed

lemma move_to_front:
  assumes "rep h l xs" "x \<noteq> NULL"
  shows "\<exists>h1 h2. remove h l x = Some h1 \<and> push h1 l x = Some h2 \<and> rep h2 l (lpush x xs)"
proof -
  obtain h1 where h1: "remove h l x = Some h1" "rep h1 l (remove1 x xs)"
    using remove_rep [OF assms(1), of x] by blast
  moreover have "lpush x (remove1 x xs) = lpush x xs"
    using rep_distinct [OF assms(1)] by (simp add: lpush_def remove1_not_in)
  ultimately show ?thesis using push_rep [OF h1(2) assms(2)] by auto
qed

end

interpretation clist: list_store is_list list_add list_push list_remove
proof unfold_locales
  show "\<exists>h'. list_add h l x = Some h' \<and> is_list h' l (ladd x xs)"
    if "is_list h l xs" "x \<noteq> NULL" for h l xs x
    using list_add_is_list [OF that] by (auto simp: ladd_def)
  show "\<exists>h'. list_push h l x = Some h' \<and> is_list h' l (lpush x xs)"
    if "is_list h l xs" "x \<noteq> NULL" for h l xs x
    using list_push_is_list [OF that] by (auto simp: lpush_def)
  show "\<exists>h'. list_remove h l x = Some h' \<and> is_list h' l (remove1 x xs)"
    if "is_list h l xs" for h l xs x
    using list_remove_is_list [OF that] by auto
qed (auto intro: is_list_distinct is_list_unique)

section \<open>Any sequence of operations\<close>

datatype list_op = Add ptr | Push ptr | Remove ptr | Chop | Pop | Tail

fun op_items :: "list_op \<Rightarrow> ptr set" where
  "op_items (Add x) = {x}"
| "op_items (Push x) = {x}"
| "op_items _ = {}"

text \<open>A call, with the pointer it returns if it returns one.\<close>

fun op_run :: "list_heap \<Rightarrow> nat \<Rightarrow> list_op \<Rightarrow> (ptr list \<times> list_heap) option" where
  "op_run h l (Add x) = do { h \<leftarrow> list_add h l x; Some ([], h) }"
| "op_run h l (Push x) = do { h \<leftarrow> list_push h l x; Some ([], h) }"
| "op_run h l (Remove x) = do { h \<leftarrow> list_remove h l x; Some ([], h) }"
| "op_run h l Chop = do { (r, h) \<leftarrow> list_chop h l; Some ([r], h) }"
| "op_run h l Pop = (case list_pop h l of (r, h) \<Rightarrow> Some ([r], h))"
| "op_run h l Tail = do { r \<leftarrow> list_tail h l; Some ([r], h) }"

fun ops_run :: "list_heap \<Rightarrow> nat \<Rightarrow> list_op list \<Rightarrow> (ptr list \<times> list_heap) option" where
  "ops_run h l [] = Some ([], h)"
| "ops_run h l (c # cs) = do { (r, h) \<leftarrow> op_run h l c; (rs, h) \<leftarrow> ops_run h l cs; Some (r @ rs, h) }"

fun op_spec :: "list_op \<Rightarrow> ptr list \<Rightarrow> ptr list" where
  "op_spec (Add x) xs = ladd x xs"
| "op_spec (Push x) xs = lpush x xs"
| "op_spec (Remove x) xs = remove1 x xs"
| "op_spec Chop xs = butlast xs"
| "op_spec Pop xs = tl xs"
| "op_spec Tail xs = xs"

fun op_result :: "list_op \<Rightarrow> ptr list \<Rightarrow> ptr list" where
  "op_result Chop xs = [if xs = [] then NULL else last xs]"
| "op_result Pop xs = [if xs = [] then NULL else hd xs]"
| "op_result Tail xs = [if xs = [] then NULL else last xs]"
| "op_result _ xs = []"

fun op_results :: "list_op list \<Rightarrow> ptr list \<Rightarrow> ptr list" where
  "op_results [] xs = []"
| "op_results (c # cs) xs = op_result c xs @ op_results cs (op_spec c xs)"

lemma op_run_is_list:
  assumes "is_list h l xs" "NULL \<notin> op_items c"
  shows "\<exists>h'. op_run h l c = Some (op_result c xs, h') \<and> is_list h' l (op_spec c xs)
    \<and> same_outside l (set xs \<union> op_items c) h h'"
proof (cases c)
  case (Add x)
  with list_add_is_list [OF assms(1), of x] assms(2) show ?thesis by (auto simp: ladd_def)
next
  case (Push x)
  with list_push_is_list [OF assms(1), of x] assms(2) show ?thesis by (auto simp: lpush_def)
next
  case (Remove x)
  with list_remove_is_list [OF assms(1), of x] show ?thesis by auto
next
  case Chop
  with list_chop_is_list [OF assms(1)] show ?thesis by auto
next
  case Pop
  with list_pop_is_list [OF assms(1)] show ?thesis
    by (auto simp: case_prod_unfold intro: same_outside_mono [of l "{}"] split: list.splits)
next
  case Tail
  with list_tail_is_list [OF assms(1)] assms(1) show ?thesis by (auto simp: same_outside_def)
qed

lemma set_op_spec: "set (op_spec c xs) \<subseteq> set xs \<union> op_items c"
proof (cases c)
  case Pop
  then show ?thesis by (cases xs) auto
qed (auto dest: in_set_butlastD set_remove1_subset [THEN subsetD])

lemma ops_run_is_list:
  assumes "is_list h l xs" "\<forall>c \<in> set cs. NULL \<notin> op_items c"
  shows "\<exists>h'. ops_run h l cs = Some (op_results cs xs, h') \<and> is_list h' l (fold op_spec cs xs)
    \<and> same_outside l (set xs \<union> (\<Union>c \<in> set cs. op_items c)) h h'"
  using assms
proof (induction cs arbitrary: h xs)
  case (Cons c cs)
  obtain h1 where h1: "op_run h l c = Some (op_result c xs, h1)" "is_list h1 l (op_spec c xs)"
    "same_outside l (set xs \<union> op_items c) h h1"
    using op_run_is_list [OF Cons.prems(1), of c] Cons.prems(2) by auto
  obtain h2 where h2: "ops_run h1 l cs = Some (op_results cs (op_spec c xs), h2)" "is_list h2 l (fold op_spec cs (op_spec c xs))"
    "same_outside l (set (op_spec c xs) \<union> (\<Union>c \<in> set cs. op_items c)) h1 h2"
    using Cons.IH [OF h1(2)] Cons.prems(2) by auto
  have "same_outside l (set xs \<union> (\<Union>d \<in> set (c # cs). op_items d)) h h2"
    using same_outside_trans [OF h1(3) h2(3)] set_op_spec [of c xs]
    by (auto elim!: same_outside_mono)
  with h1 h2 show ?case by auto
qed simp

text \<open>
  C1. Any sequence of calls of \<open>list_add\<close>, \<open>list_push\<close>, \<open>list_remove\<close>, \<open>list_chop\<close>,
  \<open>list_pop\<close> and \<open>list_tail\<close> on a well-formed list returns (no loop diverges), with the items
  that the same operations return on a HOL list; leaves the pointer structure representing the result of
  these operations; changes no other list head and no next field but those of items that are or come
  on the list; and so keeps every list that shares no element with it.
\<close>

theorem list_calls_refine:
  assumes "is_list h l xs" and "\<forall>c \<in> set cs. NULL \<notin> op_items c"
  shows "\<exists>h'. ops_run h l cs = Some (op_results cs xs, h') \<and> is_list h' l (fold op_spec cs xs) \<and>
    (\<forall>l'. l' \<noteq> l \<longrightarrow> lhd h' l' = lhd h l') \<and>
    (\<forall>p. p \<notin> set xs \<union> (\<Union>c \<in> set cs. op_items c) \<longrightarrow> lnext h' p = lnext h p) \<and>
    (\<forall>l' ys. l' \<noteq> l \<and> is_list h l' ys \<and> set ys \<inter> (set xs \<union> (\<Union>c \<in> set cs. op_items c)) = {}
       \<longrightarrow> is_list h' l' ys)"
proof -
  obtain h' where h': "ops_run h l cs = Some (op_results cs xs, h')" "is_list h' l (fold op_spec cs xs)"
    and same: "same_outside l (set xs \<union> (\<Union>c \<in> set cs. op_items c)) h h'"
    using ops_run_is_list [OF assms] by blast
  then show ?thesis using is_list_other [OF _ same] same by (simp add: same_outside_def)
qed

definition empty_heap :: list_heap where
  "empty_heap = \<lparr>lhd = (\<lambda>_. NULL), lnext = (\<lambda>_. NULL)\<rparr>"

lemma is_list_empty_heap [simp]: "is_list empty_heap l []"
  by (simp add: is_list_def empty_heap_def)

theorem list_calls_refine_witness:
  "is_list empty_heap 0 [] \<and>
   (\<exists>h'. ops_run empty_heap 0 [Add 5, Push 7, Add 9, Push 9, Remove 5, Tail, Chop, Pop, Chop] = Some ([7, 7, 9, NULL], h') \<and> is_list h' 0 [])"
proof -
  let ?cs = "[Add 5, Push 7, Add 9, Push 9, Remove 5, Tail, Chop, Pop, Chop]"
  have spec: "fold op_spec ?cs [] = []" "op_results ?cs [] = [7, 7, 9, NULL]" by (simp_all add: ladd_def lpush_def)
  have "\<forall>c \<in> set ?cs. NULL \<notin> op_items c" by simp
  then obtain h' where "ops_run empty_heap 0 ?cs = Some (op_results ?cs [], h')" "is_list h' 0 (fold op_spec ?cs [])"
    using list_calls_refine [of empty_heap 0 "[]" ?cs] by (auto simp del: ops_run.simps op_results.simps)
  then show ?thesis unfolding spec by (auto simp del: ops_run.simps)
qed

end
