(* ===== verification/Memb.thy ===== *)
theory Memb
  imports Prelude
begin

text \<open>
  The block allocator of \<open>core/lib/memb.c\<close>: \<open>num\<close> blocks of
  \<open>size\<close> bytes behind one base pointer, with one reference count per block.
  The pool is the C structure with the two arrays it points at. A pointer is an
  address; the address of block \<open>i\<close> is \<open>mem + i * size\<close>, computed in
  16 bits as on the target. The locale \<open>block_pool\<close> is the contract the
  clients rely on; it is interpreted on \<open>memb_alloc\<close> and \<open>memb_free\<close>.
\<close>

section \<open>The pool and its operations\<close>

record memb =
  msize :: u16
  mnum :: u16
  mcount :: "u8 list"
  mmem :: ptr
  mbytes :: "u8 list"

definition memb_init :: "memb \<Rightarrow> memb" where
  "memb_init m = m\<lparr>mcount := replicate (unat (mnum m)) 0 @ drop (unat (mnum m)) (mcount m),
     mbytes := replicate (unat (msize m * mnum m)) 0 @ drop (unat (msize m * mnum m)) (mbytes m)\<rparr>"

definition block_ptr :: "memb \<Rightarrow> nat \<Rightarrow> ptr" where
  "block_ptr m i = mmem m + unat (of_nat i * msize m)"

function memb_alloc_from :: "memb \<Rightarrow> nat \<Rightarrow> ptr \<times> memb" where
  "memb_alloc_from m i =
     (if i < unat (mnum m) then
        if mcount m ! i = 0
        then (block_ptr m i, m\<lparr>mcount := (mcount m)[i := mcount m ! i + 1]\<rparr>)
        else memb_alloc_from m (Suc i)
      else (NULL, m))"
  by pat_completeness auto
termination
  by (relation "measure (\<lambda>(m, i). unat (mnum m) - i)") auto

declare memb_alloc_from.simps [simp del]

definition memb_alloc :: "memb \<Rightarrow> ptr \<times> memb" where
  "memb_alloc m = memb_alloc_from m 0"

function memb_free_from :: "memb \<Rightarrow> ptr \<Rightarrow> nat \<Rightarrow> ptr \<Rightarrow> u8 \<times> memb" where
  "memb_free_from m p i p2 =
     (if i < unat (mnum m) then
        if p2 = p then
          (let m' = (if 0 <s mcount m ! i then m\<lparr>mcount := (mcount m)[i := mcount m ! i - 1]\<rparr> else m)
           in (mcount m' ! i, m'))
        else memb_free_from m p (Suc i) (p2 + unat (msize m))
      else (- 1, m))"
  by pat_completeness auto
termination
  by (relation "measure (\<lambda>(m, p, i, p2). unat (mnum m) - i)") auto

declare memb_free_from.simps [simp del]

definition memb_free :: "memb \<Rightarrow> ptr \<Rightarrow> u8 \<times> memb" where
  "memb_free m p = memb_free_from m p 0 (mmem m)"

definition memb_inmemb :: "memb \<Rightarrow> ptr \<Rightarrow> bool" where
  "memb_inmemb m p \<longleftrightarrow> mmem m \<le> p \<and> p < mmem m + unat (mnum m * msize m)"

fun count_free :: "u8 list \<Rightarrow> u16 \<Rightarrow> u16" where
  "count_free [] n = n"
| "count_free (c # cs) n = count_free cs (if c = 0 then n + 1 else n)"

definition memb_numfree :: "memb \<Rightarrow> u16" where
  "memb_numfree m = count_free (take (unat (mnum m)) (mcount m)) 0"

section \<open>Well-formed pools\<close>

text \<open>
  \<open>MEMB(name, structure, num)\<close> declares such a pool: the arrays have the
  declared sizes, the base is not \<open>NULL\<close>, a block has a positive size and the
  whole block fits the 16-bit address space. The counts are 0 or 1 because only
  \<open>memb_alloc\<close> raises them, and only from 0.
\<close>

definition memb_wf :: "memb \<Rightarrow> bool" where
  "memb_wf m \<longleftrightarrow> length (mcount m) = unat (mnum m) \<and> mmem m > 0 \<and> msize m \<noteq> 0
     \<and> unat (mnum m) * unat (msize m) < 65536 \<and> set (mcount m) \<subseteq> {0, 1}"

definition memb_live :: "memb \<Rightarrow> ptr set" where
  "memb_live m = {block_ptr m i |i. i < unat (mnum m) \<and> mcount m ! i \<noteq> 0}"

definition memb_blocks :: "memb \<Rightarrow> ptr set" where
  "memb_blocks m = block_ptr m ` {..<unat (mnum m)}"

lemma block_ptr_eq:
  assumes "memb_wf m" "i \<le> unat (mnum m)"
  shows "block_ptr m i = mmem m + i * unat (msize m)"
proof -
  have "i * unat (msize m) \<le> unat (mnum m) * unat (msize m)" using assms(2) by (rule mult_le_mono1)
  also have "\<dots> < 65536" using assms(1) by (simp add: memb_wf_def)
  finally have b: "i * unat (msize m) < 65536" .
  have "msize m \<noteq> 0" using assms(1) by (simp add: memb_wf_def)
  then have "unat (msize m) \<ge> 1" by (simp add: unat_gt_0 Suc_leI)
  then have "i < 65536" using b mult_le_mono2 [of 1 "unat (msize m)" i] by linarith
  then have "unat (of_nat i :: u16) = i" by (simp add: unat_of_nat take_bit_nat_eq_self)
  then show ?thesis using b by (simp add: block_ptr_def unat_word_ariths)
qed

lemma block_ptr_inj:
  assumes "memb_wf m" "i \<le> unat (mnum m)" "j \<le> unat (mnum m)" "block_ptr m i = block_ptr m j"
  shows "i = j"
  using assms by (simp add: block_ptr_eq memb_wf_def unat_eq_0)

lemma block_ptr_not_null: "memb_wf m \<Longrightarrow> block_ptr m i \<noteq> NULL"
  by (simp add: block_ptr_def memb_wf_def)

lemma block_ptr_count [simp]: "block_ptr (m\<lparr>mcount := c\<rparr>) i = block_ptr m i"
  by (simp add: block_ptr_def)

lemma memb_blocks_count [simp]: "memb_blocks (m\<lparr>mcount := c\<rparr>) = memb_blocks m"
  by (auto simp: memb_blocks_def)

lemma memb_live_blocks: "memb_live m \<subseteq> memb_blocks m"
  by (auto simp: memb_live_def memb_blocks_def)

lemma memb_init_wf: "memb_wf m \<Longrightarrow> memb_wf (memb_init m) \<and> memb_live (memb_init m) = {}"
  by (auto simp: memb_wf_def memb_init_def memb_live_def)

lemma memb_alloc_from_result:
  assumes "i \<le> unat (mnum m)" "\<forall>j < i. mcount m ! j \<noteq> 0"
  shows "(\<exists>k < unat (mnum m). mcount m ! k = 0 \<and> (\<forall>j < k. mcount m ! j \<noteq> 0)
            \<and> memb_alloc_from m i = (block_ptr m k, m\<lparr>mcount := (mcount m)[k := 1]\<rparr>))
       \<or> ((\<forall>j < unat (mnum m). mcount m ! j \<noteq> 0) \<and> memb_alloc_from m i = (NULL, m))"
  using assms
proof (induction m i rule: memb_alloc_from.induct)
  case (1 m i)
  show ?case
  proof (cases "i < unat (mnum m) \<and> mcount m ! i \<noteq> 0")
    case True
    then have "\<forall>j < Suc i. mcount m ! j \<noteq> 0" using "1.prems"(2) by (auto simp: less_Suc_eq)
    with True "1.IH" show ?thesis by (simp add: memb_alloc_from.simps [of m i])
  next
    case False
    with "1.prems" show ?thesis by (auto simp: memb_alloc_from.simps [of m i])
  qed
qed

lemma memb_alloc_cases:
  obtains (block) k where "k < unat (mnum m)" "mcount m ! k = 0" "\<forall>j < k. mcount m ! j \<noteq> 0"
      "memb_alloc m = (block_ptr m k, m\<lparr>mcount := (mcount m)[k := 1]\<rparr>)"
    | (full) "\<forall>j < unat (mnum m). mcount m ! j \<noteq> 0" "memb_alloc m = (NULL, m)"
  using memb_alloc_from_result [of 0 m] unfolding memb_alloc_def by auto

lemma memb_free_from_at:
  assumes "memb_wf m" "k < unat (mnum m)" "i \<le> k"
  shows "memb_free_from m (block_ptr m k) i (block_ptr m i) =
    (0, m\<lparr>mcount := (mcount m)[k := 0]\<rparr>)"
  using assms(3)
proof (induction "k - i" arbitrary: i)
  case 0
  then have i: "i = k" by simp
  have k: "k < length (mcount m)" using assms(1,2) by (simp add: memb_wf_def)
  then have "mcount m ! k \<in> {0, 1}" using assms(1) nth_mem unfolding memb_wf_def by blast
  then have "mcount m ! k = 0 \<or> mcount m ! k = 1" by auto
  moreover have "m\<lparr>mcount := (mcount m)[k := 0]\<rparr> = m" if "mcount m ! k = 0"
    using list_update_id [of "mcount m" k] unfolding that by simp
  ultimately show ?case using assms(2) i k
    by (auto simp: memb_free_from.simps [of m "block_ptr m k" k] Let_def word_sless_alt)
next
  case (Suc d)
  then have "i < k" by simp
  then have "block_ptr m i \<noteq> block_ptr m k" "block_ptr m i + unat (msize m) = block_ptr m (Suc i)"
    using assms(1,2) block_ptr_inj [of m i k] by (auto simp: block_ptr_eq)
  with Suc.hyps(1) [of "Suc i"] Suc.hyps(2) \<open>i < k\<close> assms(2) show ?case
    by (simp add: memb_free_from.simps [of m "block_ptr m k" i])
qed

lemma memb_free_block:
  assumes "memb_wf m" "k < unat (mnum m)"
  shows "memb_free m (block_ptr m k) = (0, m\<lparr>mcount := (mcount m)[k := 0]\<rparr>)"
  using memb_free_from_at [OF assms, of 0] by (simp add: memb_free_def block_ptr_def)

lemma memb_free_from_other:
  assumes "memb_wf m" "\<forall>k < unat (mnum m). p \<noteq> block_ptr m k" "i \<le> unat (mnum m)"
  shows "memb_free_from m p i (block_ptr m i) = (- 1, m)"
  using assms(3)
proof (induction "unat (mnum m) - i" arbitrary: i)
  case 0
  then show ?case by (simp add: memb_free_from.simps)
next
  case (Suc d)
  then have "i < unat (mnum m)" by simp
  then have "block_ptr m i \<noteq> p" "block_ptr m i + unat (msize m) = block_ptr m (Suc i)"
    using assms(1,2) by (auto simp: block_ptr_eq)
  with Suc.hyps(1) [of "Suc i"] Suc.hyps(2) \<open>i < unat (mnum m)\<close> show ?case
    by (simp add: memb_free_from.simps [of m p i])
qed

lemma memb_free_foreign:
  assumes "memb_wf m" "p \<notin> memb_blocks m"
  shows "memb_free m p = (- 1, m)"
  using memb_free_from_other [OF assms(1), of p 0] assms(2)
  by (auto simp: memb_free_def block_ptr_def memb_blocks_def)

lemma memb_wf_upd:
  "memb_wf m \<Longrightarrow> v \<in> {0, 1} \<Longrightarrow> memb_wf (m\<lparr>mcount := (mcount m)[k := v]\<rparr>)"
  using set_update_subset_insert [of "mcount m" k v] by (fastforce simp: memb_wf_def)

lemma memb_live_alloc:
  assumes "memb_wf m" "k < unat (mnum m)"
  shows "memb_live (m\<lparr>mcount := (mcount m)[k := 1]\<rparr>) = insert (block_ptr m k) (memb_live m)"
proof -
  have "length (mcount m) = unat (mnum m)" using assms(1) by (simp add: memb_wf_def)
  then show ?thesis using assms(2) by (auto simp: memb_live_def nth_list_update)
qed

lemma memb_live_free:
  assumes "memb_wf m" "k < unat (mnum m)"
  shows "memb_live (m\<lparr>mcount := (mcount m)[k := 0]\<rparr>) = memb_live m - {block_ptr m k}"
proof -
  have "length (mcount m) = unat (mnum m)" using assms(1) by (simp add: memb_wf_def)
  moreover have "block_ptr m i = block_ptr m k \<longleftrightarrow> i = k" if "i < unat (mnum m)" for i
    using block_ptr_inj [OF assms(1), of i k] that assms(2) by auto
  ultimately show ?thesis using assms(2)
    by (simp add: memb_live_def nth_list_update set_eq_iff) (metis (no_types, lifting))
qed

lemma block_live_iff:
  "memb_wf m \<Longrightarrow> k < unat (mnum m) \<Longrightarrow> block_ptr m k \<in> memb_live m \<longleftrightarrow> mcount m ! k \<noteq> 0"
  by (auto simp: memb_live_def dest: block_ptr_inj [rotated 3])

section \<open>The contract of a block pool\<close>

text \<open>\<open>n\<close> allocations in a row.\<close>

fun alloc_n :: "('p \<Rightarrow> ptr \<times> 'p) \<Rightarrow> nat \<Rightarrow> 'p \<Rightarrow> ptr list \<times> 'p" where
  "alloc_n f 0 p = ([], p)"
| "alloc_n f (Suc n) p =
     (let (b, p1) = f p; (bs, p2) = alloc_n f n p1 in (b # bs, p2))"

locale block_pool =
  fixes alloc :: "'p \<Rightarrow> ptr \<times> 'p"
    and free :: "'p \<Rightarrow> ptr \<Rightarrow> 'r \<times> 'p"
    and live :: "'p \<Rightarrow> ptr set"
    and blocks :: "'p \<Rightarrow> ptr set"
    and inv :: "'p \<Rightarrow> bool"
  assumes finite_blocks: "finite (blocks p)"
    and live_blocks: "live p \<subseteq> blocks p"
    and null_block: "inv p \<Longrightarrow> NULL \<notin> blocks p"
    and alloc_full: "inv p \<Longrightarrow> live p = blocks p \<Longrightarrow> alloc p = (NULL, p)"
    and alloc_ok: "inv p \<Longrightarrow> live p \<noteq> blocks p \<Longrightarrow> alloc p = (b, p') \<Longrightarrow>
      b \<in> blocks p - live p \<and> live p' = insert b (live p) \<and> blocks p' = blocks p \<and> inv p'"
    and free_ok: "inv p \<Longrightarrow> free p b = (r, p') \<Longrightarrow>
      live p' = live p - {b} \<and> blocks p' = blocks p \<and> inv p'"
begin

lemma alloc_null_iff: "inv p \<Longrightarrow> fst (alloc p) = NULL \<longleftrightarrow> live p = blocks p"
  using alloc_full [of p] alloc_ok [of p "fst (alloc p)" "snd (alloc p)"] null_block [of p]
  by (cases "live p = blocks p") auto

lemma alloc_cases:
  assumes "inv p"
  obtains (full) "alloc p = (NULL, p)" "live p = blocks p"
    | (block) b p' where "alloc p = (b, p')" "b \<noteq> NULL" "b \<in> blocks p" "b \<notin> live p"
        "live p' = insert b (live p)" "blocks p' = blocks p" "inv p'"
  using assms alloc_full [of p] alloc_ok [of p "fst (alloc p)" "snd (alloc p)"] null_block [of p]
  by (cases "live p = blocks p"; cases "alloc p") auto

lemma alloc_inv: "inv p \<Longrightarrow> inv (snd (alloc p))"
  by (cases rule: alloc_cases [of p]) auto

lemma free_inv: "inv p \<Longrightarrow> inv (snd (free p b))"
  using free_ok [of p b "fst (free p b)" "snd (free p b)"] by simp

lemma alloc_then_free:
  assumes "inv p" "alloc p = (b, p1)" "b \<noteq> NULL" "free p1 b = (r, p2)"
  shows "live p2 = live p"
proof -
  have "inv p1 \<and> b \<notin> live p \<and> live p1 = insert b (live p)"
    using assms by (cases rule: alloc_cases [OF assms(1)]) auto
  then show ?thesis using free_ok [OF _ assms(4)] by auto
qed

lemma alloc_n_fresh:
  "inv p \<Longrightarrow> n \<le> card (blocks p - live p) \<Longrightarrow> alloc_n alloc n p = (bs, p') \<Longrightarrow>
     distinct bs \<and> length bs = n \<and> set bs \<subseteq> blocks p - live p \<and> live p' = live p \<union> set bs
     \<and> blocks p' = blocks p \<and> inv p'"
proof (induction n arbitrary: p bs p')
  case (Suc n)
  have "live p \<noteq> blocks p" using Suc.prems(2) by (intro notI) simp
  obtain b p1 where a: "alloc p = (b, p1)" by (cases "alloc p")
  have b: "alloc p = (b, p1)" "b \<in> blocks p" "b \<notin> live p"
    "live p1 = insert b (live p)" "blocks p1 = blocks p" "inv p1"
    using alloc_ok [OF Suc.prems(1) \<open>live p \<noteq> blocks p\<close> a] a by blast+
  obtain cs where cs: "alloc_n alloc n p1 = (cs, p')" "bs = b # cs"
    using Suc.prems(3) b(1) by (simp split: prod.splits)
  have "blocks p1 - live p1 = (blocks p - live p) - {b}" using b(4,5) by auto
  then have "card (blocks p1 - live p1) = card (blocks p - live p) - 1"
    using b(2,3) by (simp add: card_Diff_singleton)
  then have le: "n \<le> card (blocks p1 - live p1)" using Suc.prems(2) by simp
  have ih: "distinct cs" "length cs = n" "set cs \<subseteq> blocks p1 - live p1"
    "live p' = live p1 \<union> set cs" "blocks p' = blocks p1" "inv p'"
    using Suc.IH [OF b(6) le cs(1)] by blast+
  have "b \<notin> set cs" "set cs \<subseteq> blocks p - live p" using ih(3) b(4,5) by blast+
  then show ?case using ih b(2-5) cs(2) by simp
qed simp

end

lemma memb_alloc_full: "memb_wf m \<Longrightarrow> memb_live m = memb_blocks m \<Longrightarrow> memb_alloc m = (NULL, m)"
proof (cases rule: memb_alloc_cases [of m])
  case (block k)
  assume "memb_wf m" "memb_live m = memb_blocks m"
  then show ?thesis using block(1,2) block_live_iff [of m k] by (auto simp: memb_blocks_def)
qed

lemma memb_alloc_ok:
  assumes "memb_wf m" "memb_live m \<noteq> memb_blocks m" "memb_alloc m = (b, m')"
  shows "b \<in> memb_blocks m - memb_live m \<and> memb_live m' = insert b (memb_live m)
    \<and> memb_blocks m' = memb_blocks m \<and> memb_wf m'"
proof (cases rule: memb_alloc_cases [of m])
  case (block k)
  then show ?thesis
    using assms(1,3) memb_live_alloc [of m k] block_live_iff [of m k] memb_wf_upd [of m 1 k]
    by (auto simp: memb_blocks_def)
next
  case full
  then show ?thesis using assms(2) by (auto simp: memb_live_def memb_blocks_def)
qed

lemma memb_free_ok:
  assumes "memb_wf m" "memb_free m p = (r, m')"
  shows "memb_live m' = memb_live m - {p} \<and> memb_blocks m' = memb_blocks m \<and> memb_wf m'"
proof (cases "p \<in> memb_blocks m")
  case True
  then obtain k where k: "k < unat (mnum m)" "p = block_ptr m k" by (auto simp: memb_blocks_def)
  then have "m' = m\<lparr>mcount := (mcount m)[k := 0]\<rparr>"
    using assms(2) memb_free_block [OF assms(1) k(1)] by simp
  then show ?thesis
    using memb_live_free [OF assms(1) k(1)] memb_wf_upd [OF assms(1), of 0 k] k(2) by simp
next
  case False
  then have "m' = m" "p \<notin> memb_live m"
    using assms memb_free_foreign [of m p] memb_live_blocks [of m] by auto
  then show ?thesis using assms(1) by simp
qed

interpretation mb: block_pool memb_alloc memb_free memb_live memb_blocks memb_wf
proof unfold_locales
  show "finite (memb_blocks m)" for m by (simp add: memb_blocks_def)
  show "memb_live m \<subseteq> memb_blocks m" for m by (rule memb_live_blocks)
  show "NULL \<notin> memb_blocks m" if "memb_wf m" for m
    using that block_ptr_not_null [of m] by (metis imageE memb_blocks_def)
  show "memb_alloc m = (NULL, m)" if "memb_wf m" "memb_live m = memb_blocks m" for m
    using that by (rule memb_alloc_full)
  show "b \<in> memb_blocks m - memb_live m \<and> memb_live m' = insert b (memb_live m)
    \<and> memb_blocks m' = memb_blocks m \<and> memb_wf m'"
    if "memb_wf m" "memb_live m \<noteq> memb_blocks m" "memb_alloc m = (b, m')" for m b m'
    using that by (rule memb_alloc_ok)
  show "memb_live m' = memb_live m - {b} \<and> memb_blocks m' = memb_blocks m \<and> memb_wf m'"
    if "memb_wf m" "memb_free m b = (r, m')" for m b r m'
    using that by (rule memb_free_ok)
qed

section \<open>Histories of a pool\<close>

datatype pool_op = Alloc | Free ptr

fun pool_step :: "memb \<times> ptr list \<Rightarrow> pool_op \<Rightarrow> memb \<times> ptr list" where
  "pool_step (m, held) Alloc =
     (let (b, m') = memb_alloc m in (m', if b = NULL then held else b # held))"
| "pool_step (m, held) (Free p) = (snd (memb_free m p), remove1 p held)"

definition pool_inv :: "memb \<times> ptr list \<Rightarrow> bool" where
  "pool_inv s \<longleftrightarrow> memb_wf (fst s) \<and> distinct (snd s) \<and> set (snd s) = memb_live (fst s)"

lemma pool_step_inv: "pool_inv s \<Longrightarrow> pool_inv (pool_step s c)"
proof (cases s; cases c)
  fix m held
  assume inv: "pool_inv s" and s: "s = (m, held)"
  then have wf: "memb_wf m" "distinct held" "set held = memb_live m" by (auto simp: pool_inv_def)
  show ?thesis if "c = Alloc"
    using wf that s by (cases rule: mb.alloc_cases [OF wf(1)]) (simp_all add: pool_inv_def)
  show ?thesis if "c = Free p" for p
    using wf that s mb.free_ok [of m p "fst (memb_free m p)" "snd (memb_free m p)"]
    by (auto simp: pool_inv_def distinct_remove1)
qed

lemma pool_run_inv: "pool_inv s \<Longrightarrow> pool_inv (foldl pool_step s cs)"
proof (induction cs arbitrary: s)
  case (Cons c cs)
  from Cons.IH [OF pool_step_inv [OF Cons.prems]] show ?case by simp
qed simp

lemma count_free_eq: "count_free cs n = n + of_nat (length (filter (\<lambda>c. c = 0) cs))"
  by (induction cs arbitrary: n) auto

lemma memb_numfree_live:
  assumes "memb_wf m"
  shows "memb_numfree m = of_nat (unat (mnum m) - card (memb_live m))"
proof -
  let ?n = "unat (mnum m)"
  have len: "length (mcount m) = ?n" using assms by (simp add: memb_wf_def)
  have "memb_live m = block_ptr m ` {i. i < ?n \<and> mcount m ! i \<noteq> 0}" by (auto simp: memb_live_def)
  moreover have "inj_on (block_ptr m) {i. i < ?n \<and> mcount m ! i \<noteq> 0}"
    using block_ptr_inj [OF assms] by (auto intro!: inj_onI)
  ultimately have "card (memb_live m) = card {i. i < ?n \<and> mcount m ! i \<noteq> 0}"
    by (simp add: card_image)
  also have "\<dots> = length (filter (\<lambda>c. c \<noteq> 0) (mcount m))"
    using len by (simp add: length_filter_conv_card)
  finally have "length (filter (\<lambda>c. c = 0) (mcount m)) = ?n - card (memb_live m)"
    using sum_length_filter_compl [of "\<lambda>c. c = 0" "mcount m"] len by simp
  then show ?thesis using len by (simp add: memb_numfree_def count_free_eq)
qed

text \<open>
  C2. After any sequence of allocations and frees (of any pointers) on a freshly
  declared pool, the blocks handed out and not freed are pairwise different, are never
  \<open>NULL\<close>, lie in the pool, and \<open>memb_numfree\<close> counts the others; so no
  block is ever handed out twice.
\<close>

theorem memb_history_no_alias:
  assumes "memb_wf m" and "foldl pool_step (memb_init m, []) cs = (m', held)"
  shows "distinct held \<and> NULL \<notin> set held \<and> set held \<subseteq> memb_blocks m' \<and>
    memb_numfree m' = of_nat (unat (mnum m') - length held) \<and>
    (fst (memb_alloc m') = NULL \<longleftrightarrow> length held = card (memb_blocks m'))"
proof -
  have "pool_inv (m', held)"
    using pool_run_inv [of "(memb_init m, [])" cs] memb_init_wf [OF assms(1)] assms(2)
    by (simp add: pool_inv_def)
  then have wf: "memb_wf m'" "distinct held" "set held = memb_live m'" by (auto simp: pool_inv_def)
  moreover have "card (memb_live m') = card (memb_blocks m') \<longleftrightarrow> memb_live m' = memb_blocks m'"
    using card_subset_eq [OF mb.finite_blocks mb.live_blocks, of m'] by auto
  ultimately show ?thesis
    using mb.null_block [of m'] mb.live_blocks [of m'] mb.alloc_null_iff [of m']
      memb_numfree_live [of m'] distinct_card [of held]
    by auto
qed

definition pool3 :: memb where
  "pool3 = \<lparr>msize = 16, mnum = 3, mcount = [0, 0, 0], mmem = 1000, mbytes = replicate 48 0\<rparr>"

theorem memb_history_no_alias_witness:
  "memb_wf pool3 \<and>
   snd (foldl pool_step (memb_init pool3, []) [Alloc, Alloc, Free 1000, Alloc, Alloc, Alloc]) = [1032, 1000, 1016]
   \<and> distinct (snd (foldl pool_step (memb_init pool3, []) [Alloc, Alloc, Free 1000, Alloc, Alloc, Alloc]))"
proof -
  let ?r = "foldl pool_step (memb_init pool3, []) [Alloc, Alloc, Free 1000, Alloc, Alloc, Alloc]"
  have wf: "memb_wf pool3" by (simp add: memb_wf_def pool3_def)
  have "distinct (snd ?r)"
    using memb_history_no_alias [OF wf, of "[Alloc, Alloc, Free 1000, Alloc, Alloc, Alloc]" "fst ?r" "snd ?r"]
    by (simp del: foldl.simps)
  moreover have "snd ?r = [1032, 1000, 1016]" by code_simp
  ultimately show ?thesis using wf by blast
qed

end
