(* ===== verification/Mmem.thy ===== *)
theory Mmem
  imports LinkedList
begin

text \<open>
  The managed memory of \<open>core/lib/mmem.c\<close>: blocks of any size in one array of \<open>MMEM_SIZE\<close> bytes, reached through handles
  (\<open>struct mmem\<close>) on a list in the order of the blocks. Freeing a block moves the later ones down and
  corrects the pointers in their handles, so that the free memory stays in one piece. A pointer into the array is
  its index. The module implements an abstract list of handles with their contents.
\<close>

section \<open>mmem.c\<close>

abbreviation (input) MMEM_SIZE :: nat where "MMEM_SIZE \<equiv> 4096"

record mmem_sys =
  mm_heap :: list_heap
  mm_size :: "ptr \<Rightarrow> u16"
  mm_ptr :: "ptr \<Rightarrow> nat"
  avail_memory :: u16
  memory :: "u8 list"
  inited :: bool

definition mmemlist :: nat where "mmemlist = 0"

definition mmem_alloc :: "mmem_sys \<Rightarrow> ptr \<Rightarrow> u16 \<Rightarrow> (bool \<times> mmem_sys) option" where
  "mmem_alloc s m n =
     (if avail_memory s < n then Some (False, s)
      else do {
        h \<leftarrow> list_add (mm_heap s) mmemlist m;
        let s = s\<lparr>mm_heap := h\<rparr>;
        let s = s\<lparr>mm_ptr := (mm_ptr s)(m := MMEM_SIZE - unat (avail_memory s))\<rparr>;
        let s = s\<lparr>mm_size := (mm_size s)(m := n)\<rparr>;
        Some (True, s\<lparr>avail_memory := avail_memory s - n\<rparr>)
      })"

definition memmove :: "u8 list \<Rightarrow> nat \<Rightarrow> nat \<Rightarrow> nat \<Rightarrow> u8 list" where
  "memmove m dst src n = take dst m @ take n (drop src m) @ drop (dst + n) m"

partial_function (option) shift_loop :: "(ptr \<Rightarrow> ptr) \<Rightarrow> nat \<Rightarrow> (ptr \<Rightarrow> nat) \<Rightarrow> ptr \<Rightarrow> (ptr \<Rightarrow> nat) option" where
  "shift_loop nx d f n = (if n \<noteq> NULL then shift_loop nx d (f(n := f n - d)) (nx n) else Some f)"

definition mmem_free :: "mmem_sys \<Rightarrow> ptr \<Rightarrow> mmem_sys option" where
  "mmem_free s m =
     do {
       s \<leftarrow> (if lnext (mm_heap s) m \<noteq> NULL then do {
               let nxt = lnext (mm_heap s) m;
               let s = s\<lparr>memory := memmove (memory s) (mm_ptr s m) (mm_ptr s nxt) (MMEM_SIZE - unat (avail_memory s) - mm_ptr s nxt)\<rparr>;
               f \<leftarrow> shift_loop (lnext (mm_heap s)) (unat (mm_size s m)) (mm_ptr s) nxt;
               Some (s\<lparr>mm_ptr := f\<rparr>)
             } else Some s);
       let s = s\<lparr>avail_memory := avail_memory s + mm_size s m\<rparr>;
       h \<leftarrow> list_remove (mm_heap s) mmemlist m;
       Some (s\<lparr>mm_heap := h\<rparr>)
     }"

definition mmem_init :: "mmem_sys \<Rightarrow> mmem_sys" where
  "mmem_init s =
     (if inited s then s
      else s\<lparr>mm_heap := list_init (mm_heap s) mmemlist, avail_memory := of_nat MMEM_SIZE, inited := True\<rparr>)"

text \<open>What a client does through \<open>MMEM_PTR(m)\<close>.\<close>

definition mmem_write :: "mmem_sys \<Rightarrow> ptr \<Rightarrow> u8 list \<Rightarrow> mmem_sys" where
  "mmem_write s m bs = s\<lparr>memory := take (mm_ptr s m) (memory s) @ bs @ drop (mm_ptr s m + length bs) (memory s)\<rparr>"

definition mmem_read :: "mmem_sys \<Rightarrow> ptr \<Rightarrow> u8 list" where
  "mmem_read s m = take (unat (mm_size s m)) (drop (mm_ptr s m) (memory s))"

section \<open>Blocks and their contents\<close>

fun ptrs :: "(ptr \<Rightarrow> nat) \<Rightarrow> (ptr \<Rightarrow> u16) \<Rightarrow> nat \<Rightarrow> (ptr \<times> u8 list) list \<Rightarrow> bool" where
  "ptrs f sz p [] \<longleftrightarrow> True"
| "ptrs f sz p ((h, bs) # xs) \<longleftrightarrow> f h = p \<and> unat (sz h) = length bs \<and> ptrs f sz (p + length bs) xs"

definition bytes :: "(ptr \<times> u8 list) list \<Rightarrow> u8 list" where
  "bytes xs = concat (map snd xs)"

lemma bytes_simps [simp]:
  "bytes [] = []" "bytes ((h, bs) # xs) = bs @ bytes xs" "bytes (xs @ ys) = bytes xs @ bytes ys"
  by (simp_all add: bytes_def)

text \<open>The blocks fill the array from the bottom, in list order, without a gap.\<close>

definition mmem_rep :: "mmem_sys \<Rightarrow> (ptr \<times> u8 list) list \<Rightarrow> bool" where
  "mmem_rep s xs \<longleftrightarrow> is_list (mm_heap s) mmemlist (map fst xs) \<and> ptrs (mm_ptr s) (mm_size s) 0 xs \<and>
     length (memory s) = MMEM_SIZE \<and> (\<exists>rest. memory s = bytes xs @ rest \<and> length rest = unat (avail_memory s))"

lemma ptrs_append: "ptrs f sz p (xs @ ys) \<longleftrightarrow> ptrs f sz p xs \<and> ptrs f sz (p + length (bytes xs)) ys"
  by (induction f sz p xs rule: ptrs.induct) (auto simp: add.assoc)

lemma ptrs_cong: "(\<And>h. h \<in> fst ` set xs \<Longrightarrow> f h = g h \<and> sz h = tz h) \<Longrightarrow> ptrs f sz p xs = ptrs g tz p xs"
  by (induction f sz p xs rule: ptrs.induct) auto

lemma ptrs_shift: "ptrs f sz (p + d) xs \<Longrightarrow> ptrs (\<lambda>h. f h - d) sz p xs"
proof (induction xs arbitrary: p)
  case (Cons x xs)
  obtain h bs where x: "x = (h, bs)" by fastforce
  then have "ptrs f sz (p + length bs + d) xs" using Cons.prems by (simp add: ac_simps)
  from Cons.IH [OF this] show ?case using Cons.prems x by simp
qed simp

lemma shift_loop_chain:
  "lchain nx n hs \<Longrightarrow> shift_loop nx d f n = Some (\<lambda>h. if h \<in> set hs then f h - d else f h)"
proof (induction hs arbitrary: n f)
  case Nil
  then show ?case by (subst shift_loop.simps) (simp add: fun_eq_iff)
next
  case (Cons h hs)
  then have n: "n = h" "h \<noteq> NULL" "lchain nx (nx h) hs" by simp_all
  have "h \<notin> set hs" using lchain_distinct [OF Cons.prems] by simp
  then have e: "(\<lambda>x. if x \<in> set hs then (f(h := f h - d)) x - d else (f(h := f h - d)) x) = (\<lambda>x. if x \<in> set (h # hs) then f x - d else f x)"
    by (auto simp: fun_eq_iff)
  show ?case using n(2) Cons.IH [OF n(3), of "f(h := f h - d)"] unfolding e n(1) by (subst shift_loop.simps) (simp del: fun_upd_apply)
qed

lemma alloc_rep:
  assumes rep: "mmem_rep s xs" and m: "m \<noteq> NULL" "m \<notin> fst ` set xs" and n: "unat n + length (bytes xs) \<le> MMEM_SIZE"
  shows "\<exists>s' bs. mmem_alloc s m n = Some (True, s') \<and> length bs = unat n \<and> mmem_rep s' (xs @ [(m, bs)])"
proof -
  obtain rest where r: "memory s = bytes xs @ rest" "length rest = unat (avail_memory s)" "length (memory s) = 4096"
    using rep by (auto simp: mmem_rep_def)
  have l: "is_list (mm_heap s) mmemlist (map fst xs)" using rep by (simp add: mmem_rep_def)
  have av: "unat (avail_memory s) = 4096 - length (bytes xs)" using r by simp
  obtain h where h: "list_add (mm_heap s) mmemlist m = Some h" "is_list h mmemlist (map fst xs @ [m])"
    using list_add_is_list [OF l m(1)] m(2) by (auto simp: remove1_not_in)
  define s' where "s' = s\<lparr>mm_heap := h, mm_ptr := (mm_ptr s)(m := 4096 - unat (avail_memory s)),
     mm_size := (mm_size s)(m := n), avail_memory := avail_memory s - n\<rparr>"
  have "\<not> avail_memory s < n" using av n by (simp add: word_less_nat_alt)
  then have "mmem_alloc s m n = Some (True, s')" using h(1) by (simp add: mmem_alloc_def s'_def)
  moreover have "mmem_rep s' (xs @ [(m, take (unat n) rest)])"
  proof -
    have "ptrs (mm_ptr s') (mm_size s') 0 xs = ptrs (mm_ptr s) (mm_size s) 0 xs"
      using m(2) by (intro ptrs_cong) (auto simp: s'_def)
    moreover have "mm_ptr s' m = length (bytes xs)" "unat (mm_size s' m) = unat n" using av n by (simp_all add: s'_def)
    moreover have "unat (avail_memory s') = length (drop (unat n) rest)"
      using av n r(2) by (simp add: s'_def unat_sub_if')
    ultimately show ?thesis using rep h(2) r n av
      by (auto simp: mmem_rep_def ptrs_append s'_def intro!: exI [of _ "drop (unat n) rest"])
  qed
  ultimately show ?thesis using r(2) av n by (intro exI [of _ s'] exI [of _ "take (unat n) rest"]) simp
qed

lemma alloc_refused:
  assumes "mmem_rep s xs" "MMEM_SIZE < unat n + length (bytes xs)"
  shows "mmem_alloc s m n = Some (False, s)"
proof -
  have "unat (avail_memory s) + length (bytes xs) = 4096" using assms(1) by (auto simp: mmem_rep_def)
  then have "avail_memory s < n" using assms(2) by (simp add: word_less_nat_alt)
  then show ?thesis by (simp add: mmem_alloc_def)
qed

lemma write_rep:
  assumes "mmem_rep s (xs @ (m, old) # ys)" "length bs = length old"
  shows "mmem_rep (mmem_write s m bs) (xs @ (m, bs) # ys)"
proof -
  have p: "mm_ptr s m = length (bytes xs)" using assms(1) by (simp add: mmem_rep_def ptrs_append)
  obtain rest where r: "memory s = bytes xs @ old @ bytes ys @ rest" "length rest = unat (avail_memory s)" "length (memory s) = 4096"
    using assms(1) by (auto simp: mmem_rep_def)
  have "memory (mmem_write s m bs) = bytes xs @ bs @ bytes ys @ rest" using assms(2) by (simp add: mmem_write_def p r(1))
  then show ?thesis using assms r by (auto simp: mmem_rep_def ptrs_append mmem_write_def)
qed

lemma read_rep:
  assumes "mmem_rep s (xs @ (m, bs) # ys)"
  shows "mmem_read s m = bs"
  using assms by (auto simp: mmem_rep_def ptrs_append mmem_read_def)

lemma mmem_free_rep:
  assumes rep: "mmem_rep s (xs @ (m, bs) # ys)"
  shows "\<exists>s'. mmem_free s m = Some s' \<and> mmem_rep s' (xs @ ys)"
proof -
  have l: "is_list (mm_heap s) mmemlist (map fst xs @ m # map fst ys)" using rep by (simp add: mmem_rep_def)
  have p: "mm_ptr s m = length (bytes xs)" "unat (mm_size s m) = length bs" and ps: "ptrs (mm_ptr s) (mm_size s) 0 xs"
    and py: "ptrs (mm_ptr s) (mm_size s) (length (bytes xs) + length bs) ys"
    using rep by (simp_all add: mmem_rep_def ptrs_append)
  obtain rest where r: "memory s = bytes xs @ bs @ bytes ys @ rest" "length rest = unat (avail_memory s)" "length (memory s) = 4096"
    using rep by (auto simp: mmem_rep_def)
  have d: "distinct (map fst xs @ m # map fst ys)" using is_list_distinct [OF l] .
  have ch: "lchain (lnext (mm_heap s)) (lnext (mm_heap s) m) (map fst ys)" using l by (simp add: is_list_def lseg_append)
  obtain h where h: "list_remove (mm_heap s) mmemlist m = Some h" "is_list h mmemlist (map fst xs @ map fst ys)"
    using list_remove_is_list [OF l, of m] d by (auto simp: remove1_append)
  define f where "f = (\<lambda>x. if x \<in> set (map fst ys) then mm_ptr s x - length bs else mm_ptr s x)"
  define mem where "mem = (if ys = [] then memory s else memmove (memory s) (length (bytes xs)) (length (bytes xs) + length bs) (length (bytes ys)))"
  define s' where "s' = s\<lparr>memory := mem, mm_ptr := f, avail_memory := avail_memory s + mm_size s m, mm_heap := h\<rparr>"
  have "mmem_free s m = Some s'"
  proof (cases ys)
    case Nil
    then have "lnext (mm_heap s) m = NULL" using ch by simp
    moreover have "f = mm_ptr s" using Nil by (simp add: f_def)
    ultimately show ?thesis using h(1) Nil by (simp add: mmem_free_def s'_def mem_def)
  next
    case (Cons y zs)
    obtain k b where y: "y = (k, b)" by fastforce
    then have k: "lnext (mm_heap s) m = k" "k \<noteq> NULL" using ch Cons by simp_all
    have pk: "mm_ptr s k = length (bytes xs) + length bs" using py Cons y by simp
    have e: "4096 - unat (avail_memory s) - (length (bytes xs) + length bs) = length (bytes ys)" using r by simp
    have "shift_loop (lnext (mm_heap s)) (length bs) (mm_ptr s) k = Some f"
      using shift_loop_chain [OF ch] k(1) by (simp add: f_def)
    then show ?thesis using h(1) k pk e p Cons by (simp add: mmem_free_def s'_def mem_def)
  qed
  moreover have "mmem_rep s' (xs @ ys)"
  proof -
    have "ptrs f (mm_size s) 0 xs = ptrs (mm_ptr s) (mm_size s) 0 xs"
      using d by (intro ptrs_cong) (auto simp: f_def)
    moreover have "ptrs f (mm_size s) (length (bytes xs)) ys = ptrs (\<lambda>x. mm_ptr s x - length bs) (mm_size s) (length (bytes xs)) ys"
      by (intro ptrs_cong) (auto simp: f_def)
    moreover have "\<exists>rest'. mem = bytes xs @ bytes ys @ rest' \<and> length rest' = length bs + length rest"
      using r(1) by (cases ys) (auto simp: mem_def memmove_def)
    moreover have "unat (avail_memory s + mm_size s m) = length bs + length rest"
      using r p(2) by (simp add: unat_word_ariths)
    moreover have "length mem = 4096" using r(1,3) by (auto simp: mem_def memmove_def)
    ultimately show ?thesis using ps ptrs_shift [OF py] h(2) by (simp add: mmem_rep_def s'_def ptrs_append)
  qed
  ultimately show ?thesis by blast
qed

section \<open>Histories of calls\<close>

text \<open>A client stores bytes in a new block, overwrites the contents of a block, or releases it.\<close>

datatype mmem_op = Store ptr "u8 list" | Write ptr "u8 list" | Release ptr

definition mmem_op :: "mmem_op \<Rightarrow> mmem_sys \<Rightarrow> (bool \<times> mmem_sys) option" where
  "mmem_op c s =
     (case c of
        Store m bs \<Rightarrow> do {
          (ok, s) \<leftarrow> mmem_alloc s m (of_nat (length bs));
          Some (ok, if ok then mmem_write s m bs else s)
        }
      | Write m bs \<Rightarrow> Some (True, mmem_write s m bs)
      | Release m \<Rightarrow> map_option (Pair True) (mmem_free s m))"

fun mmem_ops :: "mmem_op list \<Rightarrow> mmem_sys \<Rightarrow> (bool list \<times> mmem_sys) option" where
  "mmem_ops [] s = Some ([], s)"
| "mmem_ops (c # cs) s = do { (ok, s) \<leftarrow> mmem_op c s; (oks, s) \<leftarrow> mmem_ops cs s; Some (ok # oks, s) }"

text \<open>
  The specification: contents by handle, and a store fails only when the bytes do not fit into what is left in total. A call against
  the contract (a handle in use, not in use, or contents of another length) has no result.
\<close>

definition spec_op :: "mmem_op \<Rightarrow> (ptr \<times> u8 list) list \<Rightarrow> (bool \<times> (ptr \<times> u8 list) list) option" where
  "spec_op c xs =
     (case c of
        Store m bs \<Rightarrow>
          if m = NULL \<or> m \<in> fst ` set xs \<or> 65536 \<le> length bs then None
          else if length bs + length (bytes xs) \<le> MMEM_SIZE then Some (True, xs @ [(m, bs)]) else Some (False, xs)
      | Write m bs \<Rightarrow>
          (case map_of xs m of
             Some old \<Rightarrow> if length old = length bs then Some (True, map (\<lambda>(h, b). (h, if h = m then bs else b)) xs) else None
           | None \<Rightarrow> None)
      | Release m \<Rightarrow> if m \<in> fst ` set xs then Some (True, filter (\<lambda>(h, b). h \<noteq> m) xs) else None)"

fun spec_ops :: "mmem_op list \<Rightarrow> (ptr \<times> u8 list) list \<Rightarrow> (bool list \<times> (ptr \<times> u8 list) list) option" where
  "spec_ops [] xs = Some ([], xs)"
| "spec_ops (c # cs) xs = do { (ok, xs) \<leftarrow> spec_op c xs; (oks, xs) \<leftarrow> spec_ops cs xs; Some (ok # oks, xs) }"

lemma rep_split:
  assumes "mmem_rep s xs" "map_of xs m = Some b"
  obtains as bs where "xs = as @ (m, b) # bs" "m \<notin> fst ` set as" "m \<notin> fst ` set bs"
proof -
  have d: "distinct (map fst xs)" using assms(1) is_list_distinct by (auto simp: mmem_rep_def)
  obtain as bs where x: "xs = as @ (m, b) # bs" using map_of_SomeD [OF assms(2)] by (meson split_list)
  then have "m \<notin> fst ` set as" "m \<notin> fst ` set bs" using d by auto
  then show thesis using that x by blast
qed

lemma op_refines:
  assumes rep: "mmem_rep s xs" and spec: "spec_op c xs = Some (ok, ys)"
  shows "\<exists>s'. mmem_op c s = Some (ok, s') \<and> mmem_rep s' ys"
proof (cases c)
  case (Store m bs)
  then have m: "m \<noteq> NULL" "m \<notin> fst ` set xs" "length bs < 65536" using spec by (auto simp: spec_op_def split: if_splits)
  have u: "unat (of_nat (length bs) :: u16) = length bs" using m(3) by (simp add: unat_of_nat)
  show ?thesis
  proof (cases "length bs + length (bytes xs) \<le> 4096")
    case True
    obtain s1 b where s1: "mmem_alloc s m (of_nat (length bs)) = Some (True, s1)" "length b = length bs" "mmem_rep s1 (xs @ (m, b) # [])"
      using alloc_rep [OF rep m(1,2), of "of_nat (length bs)"] u True by auto
    then show ?thesis using write_rep [OF s1(3), of bs] spec True m Store by (simp add: mmem_op_def spec_op_def)
  next
    case False
    then show ?thesis using alloc_refused [OF rep, of "of_nat (length bs)" m] u spec rep m Store by (simp add: mmem_op_def spec_op_def)
  qed
next
  case (Write m bs)
  then obtain old where old: "map_of xs m = Some old" "length bs = length old" "ok" "ys = map (\<lambda>(h, b). (h, if h = m then bs else b)) xs"
    using spec by (auto simp: spec_op_def split: option.splits if_splits)
  obtain as zs where x: "xs = as @ (m, old) # zs" "m \<notin> fst ` set as" "m \<notin> fst ` set zs" by (rule rep_split [OF rep old(1)])
  have "map (\<lambda>(h, b). (h, if h = m then bs else b)) us = us" if "m \<notin> fst ` set us" for us
    using that by (intro map_idI) (auto simp: image_iff)
  then have "ys = as @ (m, bs) # zs" using old(4) x by simp
  then show ?thesis using write_rep [of s as m old zs bs] rep x(1) old(2,3) Write by (simp add: mmem_op_def)
next
  case (Release m)
  then obtain b where b: "map_of xs m = Some b" "ok" "ys = filter (\<lambda>(h, b). h \<noteq> m) xs"
    using spec by (cases "map_of xs m") (auto simp: spec_op_def map_of_eq_None_iff split: if_splits)
  obtain as zs where x: "xs = as @ (m, b) # zs" "m \<notin> fst ` set as" "m \<notin> fst ` set zs" by (rule rep_split [OF rep b(1)])
  have f: "filter (\<lambda>(h, b). h \<noteq> m) us = us" if "m \<notin> fst ` set us" for us
    using that by (intro filter_True) force
  have "ys = as @ zs" unfolding b(3) x(1) using f [OF x(2)] f [OF x(3)] by simp
  then show ?thesis using mmem_free_rep [of s as m b zs] rep x(1) b(2) Release by (auto simp: mmem_op_def)
qed

lemma ops_refine:
  "mmem_rep s xs \<Longrightarrow> spec_ops cs xs = Some (oks, ys) \<Longrightarrow> \<exists>s'. mmem_ops cs s = Some (oks, s') \<and> mmem_rep s' ys"
proof (induction cs arbitrary: s xs oks)
  case (Cons c cs)
  then obtain ok xs1 oks1 where c: "spec_op c xs = Some (ok, xs1)" "spec_ops cs xs1 = Some (oks1, ys)" "oks = ok # oks1"
    by (auto split: Option.bind_splits)
  obtain s1 where s1: "mmem_op c s = Some (ok, s1)" "mmem_rep s1 xs1" using op_refines [OF Cons.prems(1) c(1)] by blast
  then show ?case using Cons.IH [OF s1(2) c(2)] c(3) by auto
qed simp

text \<open>
  C29. After initialization, every history of calls that keeps to the contract returns, stores succeed exactly while the bytes fit
  into the free memory in total (there is no fragmentation, whatever was released before), and in the end every
  live handle still reads the bytes last written through it, wherever they have been moved.
\<close>

theorem mmem_implements_contents:
  assumes "\<not> inited s" and "length (memory s) = MMEM_SIZE" and "spec_ops cs [] = Some (oks, xs)"
  shows "\<exists>s'. mmem_ops cs (mmem_init s) = Some (oks, s') \<and> (\<forall>(m, bs) \<in> set xs. mmem_read s' m = bs)"
proof -
  have "mmem_rep (mmem_init s) []"
    using assms(1,2) by (simp add: mmem_rep_def mmem_init_def list_init_def is_list_def)
  from ops_refine [OF this assms(3)] obtain s' where s': "mmem_ops cs (mmem_init s) = Some (oks, s')" "mmem_rep s' xs" by blast
  have "mmem_read s' m = bs" if "(m, bs) \<in> set xs" for m bs
    using split_list [OF that] s'(2) read_rep by blast
  then show ?thesis using s'(1) by blast
qed

definition raw_mmem :: mmem_sys where
  "raw_mmem = \<lparr>mm_heap = empty_heap, mm_size = (\<lambda>_. 0), mm_ptr = (\<lambda>_. 0), avail_memory = 0,
     memory = replicate 4096 0xaa, inited = False\<rparr>"

theorem mmem_implements_contents_witness:
  "\<exists>s'. mmem_ops [Store 1 [1, 2], Store 2 [3], Store 3 [4, 5, 6], Release 1, Write 3 [7, 8, 9]] (mmem_init raw_mmem) =
      Some ([True, True, True, True, True], s') \<and> mmem_read s' 2 = [3] \<and> mmem_read s' 3 = [7, 8, 9]"
proof -
  have s: "spec_ops [Store 1 [1, 2], Store 2 [3], Store 3 [4, 5, 6], Release 1, Write 3 [7, 8, 9]] [] =
      Some ([True, True, True, True, True], [(2, [3]), (3, [7, 8, 9])])"
    by (simp add: spec_op_def)
  have r: "\<not> inited raw_mmem" "length (memory raw_mmem) = 4096" by (simp_all add: raw_mmem_def)
  from mmem_implements_contents [OF r s] show ?thesis by auto
qed

end
