(* ===== verification/Fifo.thy ===== *)
theory Fifo
  imports Prelude
begin

text \<open>
  The contract of a bounded first-in first-out queue, shared by the ring buffer of
  \<open>core/lib/ringbuf.c\<close> and the event queue of \<open>core/sys/process.c\<close>, which
  interpret it. Its lemma on histories says that what was taken out followed by what is still
  inside is what was inside followed by what was accepted: nothing is lost,
  duplicated or reordered.
\<close>

datatype 'a fifo_op = Put 'a | Get

text \<open>Running a history collects the accepted and the delivered elements.\<close>

fun fifo_run ::
    "('s \<Rightarrow> 'a \<Rightarrow> bool \<times> 's) \<Rightarrow> ('s \<Rightarrow> 'a option \<times> 's) \<Rightarrow> 's \<Rightarrow> 'a fifo_op list
      \<Rightarrow> 'a list \<times> 'a list \<times> 's" where
  "fifo_run put get s [] = ([], [], s)"
| "fifo_run put get s (Put x # cs) =
     (case put s x of (ok, s1) \<Rightarrow>
      case fifo_run put get s1 cs of (acc, out, s2) \<Rightarrow> (if ok then x # acc else acc, out, s2))"
| "fifo_run put get s (Get # cs) =
     (case get s of (r, s1) \<Rightarrow>
      case fifo_run put get s1 cs of (acc, out, s2) \<Rightarrow>
        (acc, (case r of None \<Rightarrow> out | Some x \<Rightarrow> x # out), s2))"

locale fifo =
  fixes put :: "'s \<Rightarrow> 'a \<Rightarrow> bool \<times> 's"
    and get :: "'s \<Rightarrow> 'a option \<times> 's"
    and contents :: "'s \<Rightarrow> 'a list"
    and cap :: "'s \<Rightarrow> nat"
    and inv :: "'s \<Rightarrow> bool"
  assumes bound: "inv s \<Longrightarrow> length (contents s) \<le> cap s"
    and put_full: "inv s \<Longrightarrow> length (contents s) = cap s \<Longrightarrow> put s x = (False, s)"
    and put_ok: "inv s \<Longrightarrow> length (contents s) < cap s \<Longrightarrow> put s x = (b, s') \<Longrightarrow>
      b \<and> contents s' = contents s @ [x] \<and> cap s' = cap s \<and> inv s'"
    and get_empty: "inv s \<Longrightarrow> contents s = [] \<Longrightarrow> get s = (None, s)"
    and get_ok: "inv s \<Longrightarrow> contents s = x # xs \<Longrightarrow> get s = (r, s') \<Longrightarrow>
      r = Some x \<and> contents s' = xs \<and> cap s' = cap s \<and> inv s'"
begin

lemma put_step:
  assumes "inv s" "put s x = (b, s')"
  shows "contents s' = contents s @ (if b then [x] else []) \<and> cap s' = cap s \<and> inv s'
    \<and> (b \<longleftrightarrow> length (contents s) < cap s)"
proof (cases "length (contents s) < cap s")
  case True
  with put_ok [OF assms(1) True assms(2)] show ?thesis by simp
next
  case False
  with bound [OF assms(1)] put_full [OF assms(1), of x] assms show ?thesis by simp
qed

lemma get_step:
  assumes "inv s" "get s = (r, s')"
  shows "contents s = (case r of None \<Rightarrow> [] | Some x \<Rightarrow> [x]) @ contents s' \<and> cap s' = cap s \<and> inv s'
    \<and> (r = None \<longleftrightarrow> contents s = [])"
proof (cases "contents s")
  case Nil
  with get_empty [OF assms(1) Nil] assms show ?thesis by simp
next
  case (Cons x xs)
  with get_ok [OF assms(1) Cons assms(2)] show ?thesis by simp
qed

lemma history:
  "inv s \<Longrightarrow> fifo_run put get s cs = (acc, out, s') \<Longrightarrow>
     contents s @ acc = out @ contents s' \<and> inv s' \<and> cap s' = cap s"
proof (induction cs arbitrary: s acc out)
  case (Cons c cs)
  show ?case
  proof (cases c)
    case (Put x)
    obtain b s1 where p: "put s x = (b, s1)" by (cases "put s x")
    obtain acc1 where r: "fifo_run put get s1 cs = (acc1, out, s')" "acc = (if b then x # acc1 else acc1)"
      using Cons.prems(2) p Put by (simp split: prod.splits)
    have st: "contents s1 = contents s @ (if b then [x] else [])" "cap s1 = cap s" "inv s1"
      using put_step [OF Cons.prems(1) p] by simp_all
    with Cons.IH [OF st(3) r(1)] r(2) show ?thesis by (simp split: if_splits)
  next
    case Get
    obtain v s1 where p: "get s = (v, s1)" by (cases "get s")
    obtain out1 where r: "fifo_run put get s1 cs = (acc, out1, s')"
      "out = (case v of None \<Rightarrow> out1 | Some x \<Rightarrow> x # out1)"
      using Cons.prems(2) p Get by (simp split: prod.splits)
    have st: "contents s = (case v of None \<Rightarrow> [] | Some x \<Rightarrow> [x]) @ contents s1" "cap s1 = cap s" "inv s1"
      using get_step [OF Cons.prems(1) p] by simp_all
    with Cons.IH [OF st(3) r(1)] r(2) show ?thesis by (simp split: option.splits)
  qed
qed simp

end

section \<open>Positions in a circular buffer\<close>

lemma mod_add_inj_le:
  fixes n g i j :: nat
  assumes "i \<le> j" "j < n" "(g + i) mod n = (g + j) mod n"
  shows "i = j"
proof -
  have "n dvd (g + j) - (g + i)"
    using assms mod_eq_dvd_iff_nat [of "g + i" "g + j" n] by simp
  then have "n dvd j - i" by simp
  then show ?thesis using assms(1,2) by (metis diff_is_0_eq diff_le_self dvd_imp_le le_antisym
        le_trans linorder_not_less neq0_conv)
qed

lemma mod_add_inj:
  fixes n g i j :: nat
  assumes "i < n" "j < n" "(g + i) mod n = (g + j) mod n"
  shows "i = j"
  using mod_add_inj_le [of i j n g] mod_add_inj_le [of j i n g] assms by linarith

text \<open>The elements of a circular buffer of size \<open>n\<close>, from \<open>g\<close> on.\<close>

definition window :: "'a list \<Rightarrow> nat \<Rightarrow> nat \<Rightarrow> 'a list" where
  "window d g c = map (\<lambda>i. d ! ((g + i) mod length d)) [0..<c]"

lemma length_window [simp]: "length (window d g c) = c"
  by (simp add: window_def)

lemma window_put:
  assumes "g < length d" "c < length d"
  shows "window (d[(g + c) mod length d := x]) g (Suc c) = window d g c @ [x]"
proof -
  have "0 < length d" using assms(1) by linarith
  then have "(g + c) mod length d < length d" by simp
  moreover have "(g + c) mod length d \<noteq> (g + i) mod length d" if "i < c" for i
    using mod_add_inj [of i "length d" c g] that assms(2) by auto
  ultimately show ?thesis by (simp add: window_def)
qed

lemma window_get:
  assumes "g < length d"
  shows "window d g (Suc c) = d ! g # window d (Suc g mod length d) c"
proof -
  have "[0..<Suc c] = 0 # map Suc [0..<c]" by (simp add: map_Suc_upt upt_conv_Cons del: upt_Suc)
  moreover have "(Suc g mod length d + i) mod length d = (g + Suc i) mod length d" for i
    using mod_add_left_eq [of "Suc g" "length d" i] by simp
  ultimately show ?thesis using assms by (simp add: window_def)
qed

lemma window_0 [simp]: "window d g 0 = []"
  by (simp add: window_def)

end
