(* ===== verification/Ringbuf.thy ===== *)
theory Ringbuf
  imports Fifo
begin

text \<open>
  The byte ring buffer of \<open>core/lib/ringbuf.c\<close>. The positions are 8-bit, the
  arithmetic on them is done in \<open>int\<close> (16 bits) and masked, as C does; a get on
  an empty buffer returns -1. On a size that is a power of two up to 128 it implements
  the \<open>fifo\<close> contract with capacity \<open>size - 1\<close>.
\<close>

record ringbuf =
  rb_data :: "u8 list"
  rb_mask :: u8
  rb_put_ptr :: u8
  rb_get_ptr :: u8

definition ringbuf_init :: "u8 list \<Rightarrow> u8 \<Rightarrow> ringbuf" where
  "ringbuf_init dataptr sz = \<lparr>rb_data = dataptr, rb_mask = sz - 1, rb_put_ptr = 0, rb_get_ptr = 0\<rparr>"

definition ringbuf_put :: "ringbuf \<Rightarrow> u8 \<Rightarrow> int \<times> ringbuf" where
  "ringbuf_put r c =
     (if (ucast (rb_put_ptr r) - ucast (rb_get_ptr r) :: u16) AND ucast (rb_mask r) = ucast (rb_mask r)
      then (0, r)
      else (1, r\<lparr>rb_data := (rb_data r)[unat (rb_put_ptr r) := c],
                 rb_put_ptr := ucast ((ucast (rb_put_ptr r) + 1 :: u16) AND ucast (rb_mask r))\<rparr>))"

definition ringbuf_get :: "ringbuf \<Rightarrow> int \<times> ringbuf" where
  "ringbuf_get r =
     (if (ucast (rb_put_ptr r) - ucast (rb_get_ptr r) :: u16) AND ucast (rb_mask r) > 0
      then (uint (rb_data r ! unat (rb_get_ptr r)),
            r\<lparr>rb_get_ptr := ucast ((ucast (rb_get_ptr r) + 1 :: u16) AND ucast (rb_mask r))\<rparr>)
      else (- 1, r))"

definition ringbuf_size :: "ringbuf \<Rightarrow> int" where
  "ringbuf_size r = uint (rb_mask r) + 1"

definition ringbuf_elements :: "ringbuf \<Rightarrow> u16" where
  "ringbuf_elements r = (ucast (rb_put_ptr r) - ucast (rb_get_ptr r)) AND ucast (rb_mask r)"

definition ringbuf_wf :: "ringbuf \<Rightarrow> bool" where
  "ringbuf_wf r \<longleftrightarrow> (\<exists>k \<le> 7. unat (rb_mask r) = 2 ^ k - 1 \<and> length (rb_data r) = 2 ^ k)
     \<and> rb_put_ptr r \<le> rb_mask r \<and> rb_get_ptr r \<le> rb_mask r"

definition ringbuf_contents :: "ringbuf \<Rightarrow> u8 list" where
  "ringbuf_contents r = window (rb_data r) (unat (rb_get_ptr r)) (unat (ringbuf_elements r))"

lemma ringbuf_init_wf:
  assumes "k \<le> 7" "length d = 2 ^ k" "unat sz = 2 ^ k"
  shows "ringbuf_wf (ringbuf_init d sz) \<and> ringbuf_contents (ringbuf_init d sz) = []"
proof -
  have "sz \<noteq> 0" using assms(3) by (metis nat_zero_less_power_iff unat_eq_zero zero_less_numeral less_irrefl)
  then have "unat (sz - 1) = 2 ^ k - 1" using assms(3) by (simp add: unat_minus_one)
  then show ?thesis
    using assms by (auto simp: ringbuf_wf_def ringbuf_init_def ringbuf_contents_def ringbuf_elements_def)
qed

lemma mod_pow_le: "(x :: nat) mod 2 ^ k \<le> 2 ^ k - Suc 0"
proof -
  have "x mod 2 ^ k < 2 ^ k" by simp
  then show ?thesis by linarith
qed

lemma wf_cases:
  assumes "ringbuf_wf r"
  obtains k where "k \<le> 7" "unat (rb_mask r) = 2 ^ k - 1" "length (rb_data r) = 2 ^ k"
    "unat (rb_put_ptr r) < 2 ^ k" "unat (rb_get_ptr r) < 2 ^ k" "unat (ucast (rb_mask r) :: u16) = 2 ^ k - 1"
proof -
  obtain k where k: "k \<le> 7" "unat (rb_mask r) = 2 ^ k - 1" "length (rb_data r) = 2 ^ k"
    "rb_put_ptr r \<le> rb_mask r" "rb_get_ptr r \<le> rb_mask r"
    using assms unfolding ringbuf_wf_def by blast
  have "unat (rb_put_ptr r) \<le> 2 ^ k - 1" "unat (rb_get_ptr r) \<le> 2 ^ k - 1"
    using k(2,4,5) by (simp_all add: word_le_nat_alt)
  moreover have "x < 2 ^ k" if "x \<le> 2 ^ k - 1" for x :: nat
    using that zero_less_power [of "2::nat" k] by linarith
  ultimately have "unat (rb_put_ptr r) < 2 ^ k" "unat (rb_get_ptr r) < 2 ^ k" by blast+
  moreover have "unat (ucast (rb_mask r) :: u16) = unat (rb_mask r)" by (simp add: unat_ucast_u8_u16)
  ultimately show thesis using that k(1-3) by simp
qed

lemma elements_eq:
  assumes "unat (ucast m :: u16) = 2 ^ k - 1" "k \<le> 7" "unat p < 2 ^ k" "unat g < 2 ^ k"
  shows "unat ((ucast (p :: u8) - ucast (g :: u8)) AND ucast m :: u16) = (unat p + 2 ^ k - unat g) mod 2 ^ k"
proof -
  let ?p = "ucast p :: u16" and ?g = "ucast g :: u16"
  have k: "(2::nat) ^ k dvd 65536" using assms(2) le_imp_power_dvd [of k 16 "2::nat"] by simp
  have u: "unat ?p = unat p" "unat ?g = unat g" by (simp_all add: unat_ucast_u8_u16)
  have "unat (?p - ?g) = (65536 + unat p - unat g) mod 65536"
  proof (cases "unat g \<le> unat p")
    case True
    then have e: "65536 + unat p - unat g = unat p - unat g + 65536" by linarith
    show ?thesis unfolding e mod_add_self2 using True u unat_less_u8 [of p] by (simp add: unat_sub_if')
  next
    case False
    then have "unat (?p - ?g) = unat p + 65536 - unat g" using u by (simp add: unat_sub_if')
    moreover have "65536 + unat p - unat g < 65536" using False by linarith
    ultimately show ?thesis by (simp only: mod_less add.commute [of "unat p"])
  qed
  then have "unat (?p - ?g) mod 2 ^ k = (65536 + unat p - unat g) mod 65536 mod 2 ^ k" by simp
  also have "\<dots> = (65536 + unat p - unat g) mod 2 ^ k" using k by (rule mod_mod_cancel)
  also have "\<dots> = ((65536 - 2 ^ k) + (unat p + 2 ^ k - unat g)) mod 2 ^ k"
    using assms(4) dvd_imp_le [OF k] by (intro arg_cong [where f = "\<lambda>x. x mod 2 ^ k"]) simp
  also have "\<dots> = (unat p + 2 ^ k - unat g) mod 2 ^ k"
  proof -
    have "(2::nat) ^ k dvd 65536 - 2 ^ k" using k by (rule dvd_diff_nat) simp
    then obtain c where "65536 - (2::nat) ^ k = 2 ^ k * c" by (rule dvdE)
    then show ?thesis by simp
  qed
  finally show ?thesis using unat_and_mask [OF assms(1), of "?p - ?g"] by simp
qed

lemma succ_eq:
  assumes "unat (ucast m :: u16) = 2 ^ k - 1" "k \<le> 7"
  shows "unat (ucast ((ucast (p :: u8) + 1 :: u16) AND ucast m) :: u8) = Suc (unat p) mod 2 ^ k"
proof -
  have u: "unat (ucast p + 1 :: u16) = Suc (unat p)"
    using unat_less_u8 [of p] by (simp add: unat_word_ariths)
  have "(2::nat) ^ k \<le> 128" using assms(2) power_increasing [of k 7 "2::nat"] by simp
  moreover have "Suc (unat p) mod 2 ^ k < 2 ^ k" by simp
  ultimately have "Suc (unat p) mod 2 ^ k < 256" by linarith
  then show ?thesis using u unat_and_mask [OF assms(1), of "ucast p + 1"]
    by (simp add: unat_ucast_u16_u8)
qed

definition rb_put :: "ringbuf \<Rightarrow> u8 \<Rightarrow> bool \<times> ringbuf" where
  "rb_put r c = (case ringbuf_put r c of (n, r') \<Rightarrow> (n \<noteq> 0, r'))"

definition rb_get :: "ringbuf \<Rightarrow> u8 option \<times> ringbuf" where
  "rb_get r = (case ringbuf_get r of (n, r') \<Rightarrow>
     (if n = - 1 then None else Some (word_of_int n), r'))"

lemma ringbuf_elements_eq:
  assumes "unat (ucast (rb_mask r) :: u16) = 2 ^ k - 1" "k \<le> 7"
    "unat (rb_put_ptr r) < 2 ^ k" "unat (rb_get_ptr r) < 2 ^ k"
  shows "unat (ringbuf_elements r) = (unat (rb_put_ptr r) + 2 ^ k - unat (rb_get_ptr r)) mod 2 ^ k"
  using elements_eq [OF assms] by (simp add: ringbuf_elements_def)

lemma put_position:
  assumes "p < n" "g < n" shows "(g + (p + n - g) mod n) mod n = (p :: nat)"
proof -
  have "(g + (p + n - g) mod n) mod n = (g + (p + n - g)) mod n" by (simp add: mod_add_right_eq)
  also have "g + (p + n - g) = p + n" using assms(2) by simp
  finally show ?thesis using assms(1) by simp
qed

lemma shift_mod:
  assumes "p < n" "g < n" "(p + n - g) mod n < n - 1"
  shows "(Suc p mod n + n - g) mod n = Suc ((p + n - g) mod (n :: nat))"
proof -
  have "(Suc p mod n + n - g) mod n = (Suc p mod n + (n - g)) mod n" using assms(2) by simp
  also have "\<dots> = (Suc p + (n - g)) mod n" by (simp add: mod_add_left_eq)
  also have "\<dots> = Suc ((p + n - g)) mod n" using assms(2) by simp
  also have "\<dots> = Suc ((p + n - g) mod n) mod n" by (simp add: mod_Suc_eq)
  also have "\<dots> = Suc ((p + n - g) mod n)" using assms(3) by simp
  finally show ?thesis .
qed

lemma shift_mod_get:
  assumes "p < n" "g < n" "(p + n - g) mod n > 0"
  shows "(p + n - Suc g mod n) mod n = (p + n - g) mod n - (1 :: nat)"
proof (cases "Suc g = n")
  case True
  with assms show ?thesis by (cases "p = g") auto
next
  case False
  then have "Suc g < n" using assms(2) by simp
  then show ?thesis using assms by (cases "p \<ge> Suc g") (auto simp: mod_if)
qed

lemma rb_put_room:
  assumes "ringbuf_wf r" "unat (ringbuf_elements r) < unat (rb_mask r)"
  shows "fst (ringbuf_put r c) = 1 \<and> ringbuf_wf (snd (ringbuf_put r c))
    \<and> rb_mask (snd (ringbuf_put r c)) = rb_mask r
    \<and> ringbuf_contents (snd (ringbuf_put r c)) = ringbuf_contents r @ [c]"
proof (cases rule: wf_cases [OF assms(1)])
  case (1 k)
  let ?n = "2 ^ k :: nat" and ?p = "unat (rb_put_ptr r)" and ?g = "unat (rb_get_ptr r)"
  let ?r = "r\<lparr>rb_data := (rb_data r)[?p := c],
    rb_put_ptr := ucast ((ucast (rb_put_ptr r) + 1 :: u16) AND ucast (rb_mask r))\<rparr>"
  note el = ringbuf_elements_eq [OF 1(6,1,4,5)]
  have "ringbuf_elements r \<noteq> ucast (rb_mask r)" using assms(2) 1(2,6) by auto
  then have res: "ringbuf_put r c = (1, ?r)" by (simp add: ringbuf_put_def ringbuf_elements_def)
  have p': "unat (rb_put_ptr ?r) = Suc ?p mod ?n" using succ_eq [OF 1(6,1)] by simp
  then have "unat (rb_put_ptr ?r) < ?n" by simp
  then have wf: "ringbuf_wf ?r"
    using assms(1) 1(1,2,3) p' mod_pow_le [of _ k]
    by (auto simp: ringbuf_wf_def word_le_nat_alt intro!: exI [of _ k])
  have "unat (ringbuf_elements ?r) = Suc (unat (ringbuf_elements r))"
    using ringbuf_elements_eq [of ?r k] 1 \<open>unat (rb_put_ptr ?r) < ?n\<close> p' el assms(2) shift_mod [OF 1(4,5)]
    by simp
  moreover have "?p = (?g + unat (ringbuf_elements r)) mod ?n"
    using put_position [OF 1(4,5)] el by simp
  ultimately have "ringbuf_contents ?r = ringbuf_contents r @ [c]"
    using window_put [of ?g "rb_data r" "unat (ringbuf_elements r)" c] 1 assms(2)
    by (simp add: ringbuf_contents_def)
  with wf res show ?thesis by simp
qed

lemma rb_get_some:
  assumes "ringbuf_wf r" "unat (ringbuf_elements r) > 0"
  shows "fst (ringbuf_get r) = uint (hd (ringbuf_contents r)) \<and> ringbuf_wf (snd (ringbuf_get r))
    \<and> rb_mask (snd (ringbuf_get r)) = rb_mask r
    \<and> ringbuf_contents r = hd (ringbuf_contents r) # ringbuf_contents (snd (ringbuf_get r))"
proof (cases rule: wf_cases [OF assms(1)])
  case (1 k)
  let ?n = "2 ^ k :: nat" and ?p = "unat (rb_put_ptr r)" and ?g = "unat (rb_get_ptr r)"
  let ?r = "r\<lparr>rb_get_ptr := ucast ((ucast (rb_get_ptr r) + 1 :: u16) AND ucast (rb_mask r))\<rparr>"
  note el = ringbuf_elements_eq [OF 1(6,1,4,5)]
  have res: "ringbuf_get r = (uint (rb_data r ! ?g), ?r)"
    using assms(2) by (simp add: ringbuf_get_def ringbuf_elements_def word_less_nat_alt)
  have g': "unat (rb_get_ptr ?r) = Suc ?g mod ?n" using succ_eq [OF 1(6,1)] by simp
  then have "unat (rb_get_ptr ?r) < ?n" by simp
  then have wf: "ringbuf_wf ?r"
    using assms(1) 1(1,2,3) g' mod_pow_le [of _ k]
    by (auto simp: ringbuf_wf_def word_le_nat_alt intro!: exI [of _ k])
  have e: "unat (ringbuf_elements r) = Suc (unat (ringbuf_elements ?r))"
    using ringbuf_elements_eq [of ?r k] 1 \<open>unat (rb_get_ptr ?r) < ?n\<close> g' el assms(2) shift_mod_get [OF 1(4,5)]
    by simp
  have "ringbuf_contents r = rb_data r ! ?g # ringbuf_contents ?r"
    using window_get [of ?g "rb_data r" "unat (ringbuf_elements ?r)"] e g' 1
    by (simp add: ringbuf_contents_def)
  with wf res show ?thesis by simp
qed

section \<open>The ring buffer is a bounded queue\<close>

lemma ringbuf_elements_le:
  assumes "ringbuf_wf r" shows "unat (ringbuf_elements r) \<le> unat (rb_mask r)"
proof (cases rule: wf_cases [OF assms])
  case (1 k)
  then show ?thesis using ringbuf_elements_eq [OF 1(6,1,4,5)] mod_pow_le [of _ k] by simp
qed

lemma ringbuf_full: "ringbuf_wf r \<Longrightarrow> unat (ringbuf_elements r) = unat (rb_mask r) \<Longrightarrow> ringbuf_put r c = (0, r)"
  using word_unat_eq_iff [of "ringbuf_elements r" "ucast (rb_mask r)"]
  by (simp add: ringbuf_put_def ringbuf_elements_def)

lemma ringbuf_empty: "unat (ringbuf_elements r) = 0 \<Longrightarrow> ringbuf_get r = (- 1, r)"
  by (simp add: ringbuf_get_def ringbuf_elements_def unat_eq_0 word_gt_0)

interpretation rb: fifo rb_put rb_get ringbuf_contents "\<lambda>r. unat (rb_mask r)" ringbuf_wf
proof unfold_locales
  show "length (ringbuf_contents r) \<le> unat (rb_mask r)" if "ringbuf_wf r" for r
    using ringbuf_elements_le [OF that] by (simp add: ringbuf_contents_def)
  show "rb_put r x = (False, r)"
    if "ringbuf_wf r" "length (ringbuf_contents r) = unat (rb_mask r)" for r x
    using ringbuf_full [OF that(1)] that(2) by (simp add: ringbuf_contents_def rb_put_def)
  show "b \<and> ringbuf_contents r' = ringbuf_contents r @ [x] \<and> unat (rb_mask r') = unat (rb_mask r)
      \<and> ringbuf_wf r'"
    if "ringbuf_wf r" "length (ringbuf_contents r) < unat (rb_mask r)" "rb_put r x = (b, r')" for r x b r'
    using rb_put_room [of r x] that by (auto simp: rb_put_def ringbuf_contents_def split: prod.splits)
  show "rb_get r = (None, r)" if "ringbuf_wf r" "ringbuf_contents r = []" for r
  proof -
    have "unat (ringbuf_elements r) = 0" using that(2) length_window by (metis ringbuf_contents_def list.size(3))
    then show ?thesis by (simp add: ringbuf_empty rb_get_def)
  qed
  show "v = Some x \<and> ringbuf_contents r' = xs \<and> unat (rb_mask r') = unat (rb_mask r) \<and> ringbuf_wf r'"
    if "ringbuf_wf r" "ringbuf_contents r = x # xs" "rb_get r = (v, r')" for r x xs v r'
  proof -
    have "unat (ringbuf_elements r) > 0"
      using that(2) length_window by (metis length_greater_0_conv list.distinct(1) ringbuf_contents_def)
    note g = rb_get_some [OF that(1) this]
    have "uint x \<noteq> - 1" using unsigned_greater_eq [of x, where ?'a = int] by linarith
    then have "fst (ringbuf_get r) \<noteq> - 1" using g that(2) by simp
    with g that(2,3) show ?thesis by (auto simp: rb_get_def split: prod.splits)
  qed
qed

text \<open>
  C3. On a ring buffer initialised over an array whose size is a power of two up to
  128, any history of puts and gets delivers exactly the accepted bytes in order: the bytes
  read followed by the bytes still inside are the bytes accepted, and at most
  \<open>size - 1\<close> of them are ever inside.
\<close>

theorem ringbuf_fifo_history:
  assumes "k \<le> 7" and "length d = 2 ^ k" and "unat sz = 2 ^ k"
    and "fifo_run rb_put rb_get (ringbuf_init d sz) cs = (accepted, delivered, r)"
  shows "accepted = delivered @ ringbuf_contents r \<and> length (ringbuf_contents r) \<le> 2 ^ k - 1
    \<and> unat (ringbuf_elements r) = length (ringbuf_contents r)"
proof -
  have wf: "ringbuf_wf (ringbuf_init d sz)" "ringbuf_contents (ringbuf_init d sz) = []"
    using ringbuf_init_wf [OF assms(1-3)] by simp_all
  have "sz \<noteq> 0" using assms(3) by (intro notI) simp
  then have "unat (rb_mask (ringbuf_init d sz)) = 2 ^ k - 1"
    using assms(3) by (simp add: ringbuf_init_def unat_minus_one)
  with rb.history [OF wf(1) assms(4)] wf(2) rb.bound [of r] show ?thesis
    by (simp add: ringbuf_contents_def)
qed

theorem ringbuf_fifo_history_witness:
  "\<exists>accepted delivered r. fifo_run rb_put rb_get (ringbuf_init [0, 0, 0, 0] 4)
       [Put 1, Put 2, Put 3, Put 4, Get, Put 5, Get] = (accepted, delivered, r) \<and>
     accepted = [1, 2, 3, 5] \<and> delivered = [1, 2] \<and> accepted = delivered @ ringbuf_contents r"
proof -
  let ?cs = "[Put 1, Put 2, Put 3, Put 4, Get, Put 5, Get] :: u8 fifo_op list"
  let ?r = "fifo_run rb_put rb_get (ringbuf_init [0, 0, 0, 0] 4) ?cs"
  have "fst ?r = [1, 2, 3, 5]" "fst (snd ?r) = [1, 2]"
    by code_simp+
  then obtain r where r: "?r = ([1, 2, 3, 5], [1, 2], r)" by (metis prod.collapse)
  then have "[1, 2, 3, 5] = [1, 2] @ ringbuf_contents r"
    using ringbuf_fifo_history [of 2 "[0, 0, 0, 0]" 4 ?cs] by (simp del: fifo_run.simps)
  with r show ?thesis by blast
qed

end
