(* ===== verification/Codes.thy ===== *)
theory Codes
  imports Prelude
begin

text \<open>
  The byte codes of \<open>core/lib\<close>: the CRC of \<open>crc16.c\<close>, the group code
  of \<open>gcr.c\<close> (8 bits become 10, packed into a byte stream through a bit
  accumulator) and the Manchester code of \<open>me.c\<close> with the tables of
  \<open>me_tabs.c\<close>. The CRC is compared with the bit-serial division by
  \<open>x^16 + x^12 + x^5 + 1\<close> (bits reflected), the two codes with their decoders.
\<close>

section \<open>crc16.c\<close>

definition crc16_add :: "u8 \<Rightarrow> u16 \<Rightarrow> u16" where
  "crc16_add b acc =
     (let acc = acc XOR ucast b;
          acc = drop_bit 8 acc OR push_bit 8 acc;
          acc = acc XOR push_bit 4 (acc AND 0xff00);
          acc = acc XOR drop_bit 4 (drop_bit 8 acc);
          acc = acc XOR drop_bit 5 (acc AND 0xff00)
      in acc)"

fun crc16_data :: "u8 list \<Rightarrow> u16 \<Rightarrow> u16" where
  "crc16_data [] acc = acc"
| "crc16_data (b # bs) acc = crc16_data bs (crc16_add b acc)"

text \<open>
  The reference: division by the polynomial, one bit at a time, least significant bit
  first (\<open>0x8408\<close> is the polynomial with its bits reversed).
\<close>

definition crc_step :: "u16 \<Rightarrow> u16" where
  "crc_step x = drop_bit 1 x XOR (if bit x 0 then 0x8408 else 0)"

definition crc_ref :: "u8 \<Rightarrow> u16 \<Rightarrow> u16" where
  "crc_ref b acc = (crc_step ^^ 8) (acc XOR ucast b)"

section \<open>gcr.c\<close>

definition GCR_encode :: "u8 list" where
  "GCR_encode = [0x0a, 0x0b, 0x12, 0x13, 0x0e, 0x0f, 0x16, 0x17,
    0x09, 0x19, 0x1a, 0x1b, 0x0d, 0x1d, 0x1e, 0x15]"

definition GCR_decode :: "u8 list" where
  "GCR_decode = [
    0xff, 0xff, 0xff, 0xff, 0xff, 0xff, 0xff, 0xff,
    0xff, 0x08, 0x00, 0x01, 0xff, 0x0c, 0x04, 0x05,
    0xff, 0xff, 0x02, 0x03, 0xff, 0x0f, 0x06, 0x07,
    0xff, 0x09, 0x0a, 0x0b, 0xff, 0x0d, 0x0e, 0xff]"

record gcr =
  gcr_bits :: u8
  gcr_val :: u16

definition gcr_init :: gcr where
  "gcr_init = \<lparr>gcr_bits = 0, gcr_val = 0\<rparr>"

definition gcr_finished :: "gcr \<Rightarrow> bool" where
  "gcr_finished g \<longleftrightarrow> gcr_bits g = 0"

definition gcr_encode :: "gcr \<Rightarrow> u8 \<Rightarrow> gcr" where
  "gcr_encode g raw_data =
     g\<lparr>gcr_val := gcr_val g OR push_bit (unat (gcr_bits g))
          (push_bit 5 (ucast (GCR_encode ! unat (drop_bit 4 raw_data)))
            OR ucast (GCR_encode ! unat (raw_data AND 0xf))),
       gcr_bits := gcr_bits g + 10\<rparr>"

definition gcr_get_encoded :: "gcr \<Rightarrow> u8 option \<times> gcr" where
  "gcr_get_encoded g =
     (if 8 \<le> gcr_bits g
      then (Some (ucast (gcr_val g AND 0xff)),
            g\<lparr>gcr_val := drop_bit 8 (gcr_val g), gcr_bits := gcr_bits g - 8\<rparr>)
      else (None, g))"

definition gcr_decode :: "gcr \<Rightarrow> u8 \<Rightarrow> gcr" where
  "gcr_decode g gcr_data =
     g\<lparr>gcr_val := gcr_val g OR push_bit (unat (gcr_bits g)) (ucast gcr_data),
       gcr_bits := gcr_bits g + 8\<rparr>"

definition gcr_valid :: "gcr \<Rightarrow> bool" where
  "gcr_valid g \<longleftrightarrow>
     (if 10 \<le> gcr_bits g then
        (let v = gcr_val g AND 0x3ff
         in \<not> (push_bit 4 (ucast (GCR_decode ! unat (drop_bit 5 v))) = (0xff :: u16)
              \<or> GCR_decode ! unat (v AND 0x1f) = 0xff))
      else True)"

definition gcr_get_decoded :: "gcr \<Rightarrow> u8 option \<times> gcr" where
  "gcr_get_decoded g =
     (if 10 \<le> gcr_bits g then
        (let v = gcr_val g AND 0x3ff
         in (Some (ucast (push_bit 4 (ucast (GCR_decode ! unat (drop_bit 5 v))) OR
                   ucast (GCR_decode ! unat (v AND 0x1f)) :: u16)),
             g\<lparr>gcr_val := drop_bit 10 (gcr_val g), gcr_bits := gcr_bits g - 10\<rparr>))
      else (None, g))"

text \<open>
  The streaming use of the module: every byte is put in and then all complete bytes are
  taken out, as the test program in the comment at the end of \<open>gcr.c\<close> does.
\<close>

function gcr_drain_encoded :: "gcr \<Rightarrow> u8 list \<times> gcr" where
  "gcr_drain_encoded g =
     (case gcr_get_encoded g of
        (None, g') \<Rightarrow> ([], g')
      | (Some b, g') \<Rightarrow> (case gcr_drain_encoded g' of (bs, g'') \<Rightarrow> (b # bs, g'')))"
  by pat_completeness auto
termination
  by (relation "measure (\<lambda>g. unat (gcr_bits g))")
    (auto simp: gcr_get_encoded_def word_le_nat_alt unat_sub split: if_splits)

function gcr_drain_decoded :: "gcr \<Rightarrow> u8 list \<times> gcr" where
  "gcr_drain_decoded g =
     (case gcr_get_decoded g of
        (None, g') \<Rightarrow> ([], g')
      | (Some b, g') \<Rightarrow> (case gcr_drain_decoded g' of (bs, g'') \<Rightarrow> (b # bs, g'')))"
  by pat_completeness auto
termination
  by (relation "measure (\<lambda>g. unat (gcr_bits g))")
    (auto simp: gcr_get_decoded_def Let_def word_le_nat_alt unat_sub split: if_splits)

declare gcr_drain_encoded.simps [simp del] gcr_drain_decoded.simps [simp del]

fun gcr_encode_stream :: "gcr \<Rightarrow> u8 list \<Rightarrow> u8 list \<times> gcr" where
  "gcr_encode_stream g [] = ([], g)"
| "gcr_encode_stream g (c # cs) =
     (case gcr_drain_encoded (gcr_encode g c) of (bs, g') \<Rightarrow>
      case gcr_encode_stream g' cs of (bs', g'') \<Rightarrow> (bs @ bs', g''))"

fun gcr_decode_stream :: "gcr \<Rightarrow> u8 list \<Rightarrow> u8 list \<times> gcr" where
  "gcr_decode_stream g [] = ([], g)"
| "gcr_decode_stream g (c # cs) =
     (case gcr_drain_decoded (gcr_decode g c) of (bs, g') \<Rightarrow>
      case gcr_decode_stream g' cs of (bs', g'') \<Rightarrow> (bs @ bs', g''))"

section \<open>me.c\<close>

definition me_encode_tab :: "u16 list" where
  "me_encode_tab = [
    0x5555, 0x5556, 0x5559, 0x555a, 0x5565, 0x5566, 0x5569, 0x556a, 0x5595, 0x5596, 0x5599,
    0x559a, 0x55a5, 0x55a6, 0x55a9, 0x55aa, 0x5655, 0x5656, 0x5659, 0x565a, 0x5665, 0x5666,
    0x5669, 0x566a, 0x5695, 0x5696, 0x5699, 0x569a, 0x56a5, 0x56a6, 0x56a9, 0x56aa, 0x5955,
    0x5956, 0x5959, 0x595a, 0x5965, 0x5966, 0x5969, 0x596a, 0x5995, 0x5996, 0x5999, 0x599a,
    0x59a5, 0x59a6, 0x59a9, 0x59aa, 0x5a55, 0x5a56, 0x5a59, 0x5a5a, 0x5a65, 0x5a66, 0x5a69,
    0x5a6a, 0x5a95, 0x5a96, 0x5a99, 0x5a9a, 0x5aa5, 0x5aa6, 0x5aa9, 0x5aaa, 0x6555, 0x6556,
    0x6559, 0x655a, 0x6565, 0x6566, 0x6569, 0x656a, 0x6595, 0x6596, 0x6599, 0x659a, 0x65a5,
    0x65a6, 0x65a9, 0x65aa, 0x6655, 0x6656, 0x6659, 0x665a, 0x6665, 0x6666, 0x6669, 0x666a,
    0x6695, 0x6696, 0x6699, 0x669a, 0x66a5, 0x66a6, 0x66a9, 0x66aa, 0x6955, 0x6956, 0x6959,
    0x695a, 0x6965, 0x6966, 0x6969, 0x696a, 0x6995, 0x6996, 0x6999, 0x699a, 0x69a5, 0x69a6,
    0x69a9, 0x69aa, 0x6a55, 0x6a56, 0x6a59, 0x6a5a, 0x6a65, 0x6a66, 0x6a69, 0x6a6a, 0x6a95,
    0x6a96, 0x6a99, 0x6a9a, 0x6aa5, 0x6aa6, 0x6aa9, 0x6aaa, 0x9555, 0x9556, 0x9559, 0x955a,
    0x9565, 0x9566, 0x9569, 0x956a, 0x9595, 0x9596, 0x9599, 0x959a, 0x95a5, 0x95a6, 0x95a9,
    0x95aa, 0x9655, 0x9656, 0x9659, 0x965a, 0x9665, 0x9666, 0x9669, 0x966a, 0x9695, 0x9696,
    0x9699, 0x969a, 0x96a5, 0x96a6, 0x96a9, 0x96aa, 0x9955, 0x9956, 0x9959, 0x995a, 0x9965,
    0x9966, 0x9969, 0x996a, 0x9995, 0x9996, 0x9999, 0x999a, 0x99a5, 0x99a6, 0x99a9, 0x99aa,
    0x9a55, 0x9a56, 0x9a59, 0x9a5a, 0x9a65, 0x9a66, 0x9a69, 0x9a6a, 0x9a95, 0x9a96, 0x9a99,
    0x9a9a, 0x9aa5, 0x9aa6, 0x9aa9, 0x9aaa, 0xa555, 0xa556, 0xa559, 0xa55a, 0xa565, 0xa566,
    0xa569, 0xa56a, 0xa595, 0xa596, 0xa599, 0xa59a, 0xa5a5, 0xa5a6, 0xa5a9, 0xa5aa, 0xa655,
    0xa656, 0xa659, 0xa65a, 0xa665, 0xa666, 0xa669, 0xa66a, 0xa695, 0xa696, 0xa699, 0xa69a,
    0xa6a5, 0xa6a6, 0xa6a9, 0xa6aa, 0xa955, 0xa956, 0xa959, 0xa95a, 0xa965, 0xa966, 0xa969,
    0xa96a, 0xa995, 0xa996, 0xa999, 0xa99a, 0xa9a5, 0xa9a6, 0xa9a9, 0xa9aa, 0xaa55, 0xaa56,
    0xaa59, 0xaa5a, 0xaa65, 0xaa66, 0xaa69, 0xaa6a, 0xaa95, 0xaa96, 0xaa99, 0xaa9a, 0xaaa5,
    0xaaa6, 0xaaa9, 0xaaaa]"

definition me_decode_tab :: "u8 list" where
  "me_decode_tab = [
    0x0, 0x0, 0x1, 0x1, 0x0, 0x0, 0x1, 0x1, 0x2, 0x2, 0x3, 0x3, 0x2, 0x2, 0x3, 0x3, 0x0, 0x0,
    0x1, 0x1, 0x0, 0x0, 0x1, 0x1, 0x2, 0x2, 0x3, 0x3, 0x2, 0x2, 0x3, 0x3, 0x4, 0x4, 0x5, 0x5,
    0x4, 0x4, 0x5, 0x5, 0x6, 0x6, 0x7, 0x7, 0x6, 0x6, 0x7, 0x7, 0x4, 0x4, 0x5, 0x5, 0x4, 0x4,
    0x5, 0x5, 0x6, 0x6, 0x7, 0x7, 0x6, 0x6, 0x7, 0x7, 0x0, 0x0, 0x1, 0x1, 0x0, 0x0, 0x1, 0x1,
    0x2, 0x2, 0x3, 0x3, 0x2, 0x2, 0x3, 0x3, 0x0, 0x0, 0x1, 0x1, 0x0, 0x0, 0x1, 0x1, 0x2, 0x2,
    0x3, 0x3, 0x2, 0x2, 0x3, 0x3, 0x4, 0x4, 0x5, 0x5, 0x4, 0x4, 0x5, 0x5, 0x6, 0x6, 0x7, 0x7,
    0x6, 0x6, 0x7, 0x7, 0x4, 0x4, 0x5, 0x5, 0x4, 0x4, 0x5, 0x5, 0x6, 0x6, 0x7, 0x7, 0x6, 0x6,
    0x7, 0x7, 0x8, 0x8, 0x9, 0x9, 0x8, 0x8, 0x9, 0x9, 0xa, 0xa, 0xb, 0xb, 0xa, 0xa, 0xb, 0xb,
    0x8, 0x8, 0x9, 0x9, 0x8, 0x8, 0x9, 0x9, 0xa, 0xa, 0xb, 0xb, 0xa, 0xa, 0xb, 0xb, 0xc, 0xc,
    0xd, 0xd, 0xc, 0xc, 0xd, 0xd, 0xe, 0xe, 0xf, 0xf, 0xe, 0xe, 0xf, 0xf, 0xc, 0xc, 0xd, 0xd,
    0xc, 0xc, 0xd, 0xd, 0xe, 0xe, 0xf, 0xf, 0xe, 0xe, 0xf, 0xf, 0x8, 0x8, 0x9, 0x9, 0x8, 0x8,
    0x9, 0x9, 0xa, 0xa, 0xb, 0xb, 0xa, 0xa, 0xb, 0xb, 0x8, 0x8, 0x9, 0x9, 0x8, 0x8, 0x9, 0x9,
    0xa, 0xa, 0xb, 0xb, 0xa, 0xa, 0xb, 0xb, 0xc, 0xc, 0xd, 0xd, 0xc, 0xc, 0xd, 0xd, 0xe, 0xe,
    0xf, 0xf, 0xe, 0xe, 0xf, 0xf, 0xc, 0xc, 0xd, 0xd, 0xc, 0xc, 0xd, 0xd, 0xe, 0xe, 0xf, 0xf,
    0xe, 0xe, 0xf, 0xf]"

definition me_valid_tab :: "u8 list" where
  "me_valid_tab = [
    0x0, 0x0, 0x0, 0x0, 0x0, 0x0, 0x0, 0x0, 0x0, 0x0, 0x0, 0x0, 0x0, 0x0, 0x0, 0x0, 0x0, 0x0,
    0x0, 0x0, 0x0, 0x0, 0x0, 0x0, 0x0, 0x0, 0x0, 0x0, 0x0, 0x0, 0x0, 0x0, 0x0, 0x0, 0x0, 0x0,
    0x0, 0x0, 0x0, 0x0, 0x0, 0x0, 0x0, 0x0, 0x0, 0x0, 0x0, 0x0, 0x0, 0x0, 0x0, 0x0, 0x0, 0x0,
    0x0, 0x0, 0x0, 0x0, 0x0, 0x0, 0x0, 0x0, 0x0, 0x0, 0x0, 0x0, 0x0, 0x0, 0x0, 0x0, 0x0, 0x0,
    0x0, 0x0, 0x0, 0x0, 0x0, 0x0, 0x0, 0x0, 0x0, 0x0, 0x0, 0x0, 0x0, 0x1, 0x1, 0x0, 0x0, 0x1,
    0x1, 0x0, 0x0, 0x0, 0x0, 0x0, 0x0, 0x0, 0x0, 0x0, 0x0, 0x1, 0x1, 0x0, 0x0, 0x1, 0x1, 0x0,
    0x0, 0x0, 0x0, 0x0, 0x0, 0x0, 0x0, 0x0, 0x0, 0x0, 0x0, 0x0, 0x0, 0x0, 0x0, 0x0, 0x0, 0x0,
    0x0, 0x0, 0x0, 0x0, 0x0, 0x0, 0x0, 0x0, 0x0, 0x0, 0x0, 0x0, 0x0, 0x0, 0x0, 0x0, 0x0, 0x0,
    0x0, 0x0, 0x0, 0x0, 0x0, 0x1, 0x1, 0x0, 0x0, 0x1, 0x1, 0x0, 0x0, 0x0, 0x0, 0x0, 0x0, 0x0,
    0x0, 0x0, 0x0, 0x1, 0x1, 0x0, 0x0, 0x1, 0x1, 0x0, 0x0, 0x0, 0x0, 0x0, 0x0, 0x0, 0x0, 0x0,
    0x0, 0x0, 0x0, 0x0, 0x0, 0x0, 0x0, 0x0, 0x0, 0x0, 0x0, 0x0, 0x0, 0x0, 0x0, 0x0, 0x0, 0x0,
    0x0, 0x0, 0x0, 0x0, 0x0, 0x0, 0x0, 0x0, 0x0, 0x0, 0x0, 0x0, 0x0, 0x0, 0x0, 0x0, 0x0, 0x0,
    0x0, 0x0, 0x0, 0x0, 0x0, 0x0, 0x0, 0x0, 0x0, 0x0, 0x0, 0x0, 0x0, 0x0, 0x0, 0x0, 0x0, 0x0,
    0x0, 0x0, 0x0, 0x0, 0x0, 0x0, 0x0, 0x0, 0x0, 0x0, 0x0, 0x0, 0x0, 0x0, 0x0, 0x0, 0x0, 0x0,
    0x0, 0x0, 0x0, 0x0]"

definition me_encode :: "u8 \<Rightarrow> u16" where
  "me_encode c = me_encode_tab ! unat c"

definition me_decode16 :: "u16 \<Rightarrow> u8" where
  "me_decode16 m =
     (let m1 = ucast (drop_bit 8 m) :: u8; m2 = ucast (m AND 0xff) :: u8
      in push_bit 4 (me_decode_tab ! unat m1) OR me_decode_tab ! unat m2)"

definition me_decode8 :: "u8 \<Rightarrow> u8" where
  "me_decode8 m = me_decode_tab ! unat m"

definition me_valid :: "u8 \<Rightarrow> u8" where
  "me_valid m = me_valid_tab ! unat m"

section \<open>The CRC is polynomial division\<close>

lemma bit_halve: "bit (drop_bit (Suc 0) (x::u16)) n \<longleftrightarrow> bit x (Suc n)"
  by (simp add: bit_drop_bit_eq)
lemma crc_step_bits:
  "bit (crc_step x) 0 \<longleftrightarrow> bit x 1"
  "bit (crc_step x) 1 \<longleftrightarrow> bit x 2"
  "bit (crc_step x) 2 \<longleftrightarrow> bit x 3"
  "bit (crc_step x) 3 \<longleftrightarrow> bit x 4 \<noteq> bit x 0"
  "bit (crc_step x) 4 \<longleftrightarrow> bit x 5"
  "bit (crc_step x) 5 \<longleftrightarrow> bit x 6"
  "bit (crc_step x) 6 \<longleftrightarrow> bit x 7"
  "bit (crc_step x) 7 \<longleftrightarrow> bit x 8"
  "bit (crc_step x) 8 \<longleftrightarrow> bit x 9"
  "bit (crc_step x) 9 \<longleftrightarrow> bit x 10"
  "bit (crc_step x) 10 \<longleftrightarrow> bit x 11 \<noteq> bit x 0"
  "bit (crc_step x) 11 \<longleftrightarrow> bit x 12"
  "bit (crc_step x) 12 \<longleftrightarrow> bit x 13"
  "bit (crc_step x) 13 \<longleftrightarrow> bit x 14"
  "bit (crc_step x) 14 \<longleftrightarrow> bit x 15"
  "bit (crc_step x) 15 \<longleftrightarrow> bit x 0"
  by (simp_all add: crc_step_def bit_xor_iff bit_halve flip: numeral_2_eq_2)

lemma crc_ref_unroll: "crc_ref b acc = crc_step (crc_step (crc_step (crc_step (crc_step (crc_step
  (crc_step (crc_step (acc XOR ucast b))))))))"
  by (simp add: crc_ref_def eval_nat_numeral)
lemma crc_ref_eq: "crc_ref b acc = crc16_add b acc"
proof (rule bit_word_eqI)
  fix i assume "i < LENGTH(16)"
  then have "i \<in> {0,1,2,3,4,5,6,7,8,9,10,11,12,13,14,15::nat}" using below_16 by simp
  then show "bit (crc_ref b acc) i = bit (crc16_add b acc) i"
    by (elim insertE; simp only: crc_ref_unroll crc_step_bits empty_iff;
        simp add: crc16_add_def Let_def bit_simps; argo?)
qed
lemma crc_step_linear: "crc_step (x XOR y) = crc_step x XOR crc_step y"
proof (rule bit_word_eqI)
  fix i assume "i < LENGTH(16)"
  then have "i \<in> {0,1,2,3,4,5,6,7,8,9,10,11,12,13,14,15::nat}" using below_16 by simp
  then show "bit (crc_step (x XOR y)) i = bit (crc_step x XOR crc_step y) i"
    by (elim insertE; simp only: crc_step_bits bit_xor_iff empty_iff; blast?)
qed

lemma crc_step_zero: "crc_step x = 0 \<Longrightarrow> x = 0"
proof (rule bit_word_eqI)
  fix i
  assume z: "crc_step x = 0" and "i < LENGTH(16)"
  then have "i \<in> {0,1,2,3,4,5,6,7,8,9,10,11,12,13,14,15::nat}" using below_16 by simp
  then show "bit x i = bit 0 i" using crc_step_bits [of x] unfolding z by (elim insertE; simp)
qed

lemma crc_step_inj: "crc_step x = crc_step y \<Longrightarrow> x = y"
proof -
  assume "crc_step x = crc_step y"
  then have "crc_step (x XOR y) = 0" by (simp add: crc_step_linear)
  then have "x XOR y = 0" by (rule crc_step_zero)
  then show "x = y" by (rule xor_zero_eq)
qed

lemma crc_steps_inj: "(crc_step ^^ n) x = (crc_step ^^ n) y \<Longrightarrow> x = y"
  by (induction n) (auto dest: crc_step_inj)

lemma crc_steps_linear: "(crc_step ^^ n) (x XOR y) = (crc_step ^^ n) x XOR (crc_step ^^ n) y"
  by (induction n) (simp_all add: crc_step_linear)

lemma crc_steps_high: "(crc_step ^^ 8) (push_bit 8 (ucast (b :: u8))) = ucast b"
proof (rule bit_word_eqI)
  fix i assume "i < LENGTH(16)"
  then have "i \<in> {0,1,2,3,4,5,6,7,8,9,10,11,12,13,14,15::nat}" using below_16 by simp
  moreover have "(crc_step ^^ 8) x = crc_step (crc_step (crc_step (crc_step (crc_step (crc_step
    (crc_step (crc_step x)))))))" for x by (simp add: eval_nat_numeral)
  ultimately show "bit ((crc_step ^^ 8) (push_bit 8 (ucast b))) i = bit (ucast b :: u16) i"
    by (elim insertE; simp only: crc_step_bits empty_iff; simp add: bit_simps)
qed

text \<open>Two bytes are taken in like one 16-bit word.\<close>

lemma crc16_add_two:
  "crc16_add b2 (crc16_add b1 acc) = (crc_step ^^ 16) (acc XOR (ucast b1 XOR push_bit 8 (ucast b2)))"
proof -
  have "(crc_step ^^ 16) (acc XOR (ucast b1 XOR push_bit 8 (ucast b2)))
      = (crc_step ^^ 8) ((crc_step ^^ 8) (acc XOR ucast b1 XOR push_bit 8 (ucast b2)))"
    using funpow_add [of 8 8 crc_step] by (simp add: xor.assoc)
  also have "\<dots> = (crc_step ^^ 8) ((crc_step ^^ 8) (acc XOR ucast b1) XOR ucast b2)"
    by (simp only: crc_steps_linear crc_steps_high xor.assoc)
  finally show ?thesis by (simp add: crc_ref_eq [symmetric] crc_ref_def)
qed

lemma split_u16_inj:
  fixes b1 b2 c1 c2 :: u8
  assumes "ucast b1 XOR push_bit 8 (ucast b2) = (ucast c1 XOR push_bit 8 (ucast c2) :: u16)"
  shows "b1 = c1 \<and> b2 = c2"
proof -
  have e: "bit (ucast b1 XOR push_bit 8 (ucast b2) :: u16) i = bit (ucast c1 XOR push_bit 8 (ucast c2) :: u16) i" for i
    using assms by simp
  have "bit b1 i = bit c1 i" if "i < 8" for i using e [of i] that by (simp add: bit_simps)
  moreover have "bit b2 i = bit c2 i" if "i < 8" for i using e [of "i + 8"] that by (simp add: bit_simps)
  ultimately show ?thesis by (auto intro!: bit_word_eqI)
qed

lemma u16_join:
  "ucast (ucast c :: u8) XOR push_bit 8 (ucast (ucast (drop_bit 8 c) :: u8)) = (c :: u16)"
proof (rule bit_word_eqI)
  fix i assume "i < LENGTH(16)"
  then show "bit (ucast (ucast c :: u8) XOR push_bit 8 (ucast (ucast (drop_bit 8 c) :: u8)) :: u16) i = bit c i"
    by (cases "i < 8") (auto simp: bit_simps)
qed

lemma crc_steps_0: "(crc_step ^^ n) 0 = 0"
  by (induction n) (simp_all add: crc_step_def)

lemma crc16_data_append: "crc16_data (xs @ ys) acc = crc16_data ys (crc16_data xs acc)"
  by (induction xs arbitrary: acc) auto

lemma crc16_add_inj: "crc16_add b x = crc16_add b y \<Longrightarrow> x = y"
proof -
  assume "crc16_add b x = crc16_add b y"
  then have "x XOR ucast b = y XOR ucast b"
    unfolding crc_ref_eq [symmetric] crc_ref_def by (rule crc_steps_inj)
  then show "x = y" by (rule xor_cancel_right)
qed

lemma crc16_data_inj: "crc16_data bs x = crc16_data bs y \<Longrightarrow> x = y"
  by (induction bs arbitrary: x y) (auto dest: crc16_add_inj)

text \<open>
  C4. The shift-and-mask CRC of \<open>crc16_add\<close> is the bit-serial division by the
  CCITT polynomial, and the checksum of a message changes whenever two consecutive bytes of
  it change in any way (every burst within them is detected); a message followed by its own
  checksum, low byte first, has checksum 0.
\<close>

theorem crc16_correct:
  "crc16_add b acc = crc_ref b acc \<and>
   (crc16_data (xs @ [b1, b2] @ ys) acc = crc16_data (xs @ [c1, c2] @ ys) acc \<longleftrightarrow> b1 = c1 \<and> b2 = c2) \<and>
   crc16_data (xs @ [ucast (crc16_data xs acc), ucast (drop_bit 8 (crc16_data xs acc))]) acc = 0"
proof (intro conjI)
  show "crc16_add b acc = crc_ref b acc" by (rule crc_ref_eq [symmetric])
  show "crc16_data (xs @ [b1, b2] @ ys) acc = crc16_data (xs @ [c1, c2] @ ys) acc
      \<longleftrightarrow> b1 = c1 \<and> b2 = c2"
  proof
    assume "crc16_data (xs @ [b1, b2] @ ys) acc = crc16_data (xs @ [c1, c2] @ ys) acc"
    then have "crc16_add b2 (crc16_add b1 (crc16_data xs acc)) = crc16_add c2 (crc16_add c1 (crc16_data xs acc))"
      by (auto simp: crc16_data_append dest: crc16_data_inj)
    then have "crc16_data xs acc XOR (ucast b1 XOR push_bit 8 (ucast b2))
        = crc16_data xs acc XOR (ucast c1 XOR push_bit 8 (ucast c2))"
      unfolding crc16_add_two by (rule crc_steps_inj)
    then show "b1 = c1 \<and> b2 = c2"
      by (intro split_u16_inj) (rule xor_cancel_left)
  qed simp
  let ?c = "crc16_data xs acc"
  have "crc16_add (ucast (drop_bit 8 ?c)) (crc16_add (ucast ?c) ?c) = (crc_step ^^ 16) 0"
    unfolding crc16_add_two u16_join xor_self_eq by (rule refl)
  also have "\<dots> = 0" by (rule crc_steps_0)
  finally show "crc16_data (xs @ [ucast ?c, ucast (drop_bit 8 ?c)]) acc = 0"
    by (simp add: crc16_data_append)
qed

section \<open>The group code as a queue of bits\<close>

text \<open>
  The accumulator holds \<open>gcr_bits\<close> bits, the oldest in the low end and zeros above.
  Each operation appends to or takes from this queue, so a stream of bytes in one width is
  regrouped in the other.
\<close>

definition wbits :: "nat \<Rightarrow> u16 \<Rightarrow> bool list" where
  "wbits n w = map (bit w) [0..<n]"

definition gcr_queue :: "gcr \<Rightarrow> bool list" where
  "gcr_queue g = wbits (unat (gcr_bits g)) (gcr_val g)"

definition gcr_wf :: "gcr \<Rightarrow> bool" where
  "gcr_wf g \<longleftrightarrow> unat (gcr_bits g) \<le> 16 \<and> (\<forall>i \<ge> unat (gcr_bits g). \<not> bit (gcr_val g) i)"

definition gcr_code :: "u8 \<Rightarrow> u16" where
  "gcr_code c = push_bit 5 (ucast (GCR_encode ! unat (drop_bit 4 c))) OR ucast (GCR_encode ! unat (c AND 0xf))"

definition gcr_uncode :: "u16 \<Rightarrow> u8" where
  "gcr_uncode v = ucast (push_bit 4 (ucast (GCR_decode ! unat (drop_bit 5 v))) OR
      ucast (GCR_decode ! unat (v AND 0x1f)) :: u16)"

lemma wbits_append: "wbits (n + k) w = wbits n w @ wbits k (drop_bit n w)"
  by (rule nth_equalityI) (auto simp: wbits_def nth_append bit_drop_bit_eq)

lemma wbits_cong: "(\<And>i. i < n \<Longrightarrow> bit v i = bit w i) \<Longrightarrow> wbits n v = wbits n w"
  by (simp add: wbits_def)

lemma wbits_eqD: "wbits n v = wbits n w \<Longrightarrow> i < n \<Longrightarrow> bit v i = bit w i"
  by (auto simp: wbits_def)

lemma gcr_init_wf: "gcr_wf gcr_init \<and> gcr_queue gcr_init = []"
  by (simp add: gcr_wf_def gcr_init_def gcr_queue_def wbits_def)

lemma length_gcr_queue [simp]: "length (gcr_queue g) = unat (gcr_bits g)"
  by (simp add: gcr_queue_def wbits_def)

text \<open>Appending \<open>k\<close> bits.\<close>

lemma gcr_append:
  assumes wf: "gcr_wf g" and room: "unat (gcr_bits g) + k \<le> 16" and kb: "unat (kw :: u8) = k"
    and high: "\<forall>i \<ge> k. \<not> bit w i"
    and g': "g' = g\<lparr>gcr_val := gcr_val g OR push_bit (unat (gcr_bits g)) w, gcr_bits := gcr_bits g + kw\<rparr>"
  shows "gcr_wf g' \<and> gcr_queue g' = gcr_queue g @ wbits k w"
proof -
  let ?n = "unat (gcr_bits g)"
  have n: "unat (gcr_bits g') = ?n + k"
    using room kb by (simp add: g' unat_word_ariths)
  have low: "bit (gcr_val g') i = bit (gcr_val g) i" if "i < ?n" for i
    using that by (simp add: g' bit_simps)
  have high': "bit (gcr_val g') (?n + i) = bit w i" if "?n + i < 16" for i
    using wf that by (auto simp: g' bit_simps gcr_wf_def)
  have "gcr_queue g' = wbits ?n (gcr_val g') @ wbits k (drop_bit ?n (gcr_val g'))"
    by (simp add: gcr_queue_def n wbits_append)
  also have "\<dots> = gcr_queue g @ wbits k w"
    using low high' room unfolding gcr_queue_def
    by (intro arg_cong2 [where f = "(@)"] wbits_cong) (auto simp: bit_drop_bit_eq)
  finally have q: "gcr_queue g' = gcr_queue g @ wbits k w" .
  have "\<not> bit (gcr_val g') i" if i: "?n + k \<le> i" for i
  proof (cases "i < 16")
    case True
    then have "bit (gcr_val g') i = bit w (i - ?n)" using high' [of "i - ?n"] i by simp
    then show ?thesis using high i by simp
  qed simp
  then show ?thesis using q room by (simp add: gcr_wf_def n)
qed

text \<open>Taking \<open>k\<close> bits.\<close>

lemma gcr_take:
  assumes wf: "gcr_wf g" and have_bits: "k \<le> unat (gcr_bits g)" and kb: "unat (kw :: u8) = k"
    and g': "g' = g\<lparr>gcr_val := drop_bit k (gcr_val g), gcr_bits := gcr_bits g - kw\<rparr>"
  shows "gcr_wf g' \<and> gcr_queue g = wbits k (gcr_val g) @ gcr_queue g' \<and> unat (gcr_bits g') = unat (gcr_bits g) - k"
proof -
  have n: "unat (gcr_bits g') = unat (gcr_bits g) - k"
    using have_bits kb by (simp add: g' unat_sub word_le_nat_alt)
  have "gcr_queue g = wbits k (gcr_val g) @ wbits (unat (gcr_bits g) - k) (drop_bit k (gcr_val g))"
    using wbits_append [of k "unat (gcr_bits g) - k" "gcr_val g"] have_bits by (simp add: gcr_queue_def)
  then show ?thesis using wf n have_bits by (auto simp: gcr_queue_def g' gcr_wf_def bit_drop_bit_eq)
qed

lemma gcr_code_table:
  "list_all (\<lambda>n. gcr_uncode (gcr_code (of_nat n)) = of_nat n \<and> gcr_code (of_nat n) AND 0x3ff = gcr_code (of_nat n))
     [0..<256]"
  by code_simp

lemma gcr_code_props: "gcr_uncode (gcr_code c) = c" "gcr_code c AND 0x3ff = gcr_code c"
proof -
  have "unat c \<in> set [0..<256]" using unat_less_u8 [of c] by simp
  then have "gcr_uncode (gcr_code (of_nat (unat c))) = of_nat (unat c)
      \<and> gcr_code (of_nat (unat c)) AND 0x3ff = gcr_code (of_nat (unat c))"
    using gcr_code_table unfolding list_all_iff by blast
  then show "gcr_uncode (gcr_code c) = c" "gcr_code c AND 0x3ff = gcr_code c" by simp_all
qed

lemma bit_3ff: "bit (0x3ff :: u16) i \<longleftrightarrow> i < 10"
proof (cases "i < 16")
  case True
  then show ?thesis using below_16 [OF True] by (elim insertE) simp_all
qed simp

lemma bit_ff: "bit (0xff :: u16) i \<longleftrightarrow> i < 8"
proof (cases "i < 16")
  case True
  then show ?thesis using below_16 [OF True] by (elim insertE) simp_all
qed simp

lemma bit_and_3ff: "bit (v AND 0x3ff :: u16) i \<longleftrightarrow> bit v i \<and> i < 10"
  unfolding bit_and_iff bit_3ff by (rule refl)

lemma bit_and_ff: "bit (v AND 0xff :: u16) i \<longleftrightarrow> bit v i \<and> i < 8"
  unfolding bit_and_iff bit_ff by (rule refl)

lemma gcr_code_high: "10 \<le> i \<Longrightarrow> \<not> bit (gcr_code c) i"
  using bit_and_3ff [of "gcr_code c" i] gcr_code_props(2) [of c] by simp

lemma gcr_uncode_wbits:
  assumes "wbits 10 v = wbits 10 (gcr_code c)"
  shows "gcr_uncode (v AND 0x3ff) = c"
proof -
  have "v AND 0x3ff = gcr_code c AND 0x3ff"
    using wbits_eqD [OF assms] by (intro bit_word_eqI) (auto simp: bit_and_3ff)
  then show ?thesis by (simp add: gcr_code_props)
qed

definition bits8 :: "u8 \<Rightarrow> bool list" where
  "bits8 b = wbits 8 (ucast b)"

definition bits10 :: "u8 \<Rightarrow> bool list" where
  "bits10 c = wbits 10 (gcr_code c)"

lemma length_bits [simp]: "length (bits8 b) = 8" "length (bits10 c) = 10"
  by (simp_all add: bits8_def bits10_def wbits_def)

lemma gcr_encode_queue:
  assumes "gcr_wf g" "unat (gcr_bits g) \<le> 6"
  shows "gcr_wf (gcr_encode g c) \<and> gcr_queue (gcr_encode g c) = gcr_queue g @ bits10 c"
  using gcr_append [OF assms(1), of 10 10 "gcr_code c" "gcr_encode g c"] assms(2) gcr_code_high
  by (simp add: gcr_encode_def gcr_code_def bits10_def)

lemma gcr_decode_queue:
  assumes "gcr_wf g" "unat (gcr_bits g) \<le> 8"
  shows "gcr_wf (gcr_decode g b) \<and> gcr_queue (gcr_decode g b) = gcr_queue g @ bits8 b"
  using gcr_append [OF assms(1), of 8 8 "ucast b" "gcr_decode g b"] assms(2)
  by (simp add: gcr_decode_def bits8_def bit_ucast_iff)

lemma gcr_get_encoded_queue:
  assumes "gcr_wf g" "8 \<le> unat (gcr_bits g)"
  shows "\<exists>b g'. gcr_get_encoded g = (Some b, g') \<and> gcr_wf g' \<and> gcr_queue g = bits8 b @ gcr_queue g'
    \<and> unat (gcr_bits g') = unat (gcr_bits g) - 8"
proof -
  let ?b = "ucast (gcr_val g AND 0xff) :: u8"
  let ?g = "g\<lparr>gcr_val := drop_bit 8 (gcr_val g), gcr_bits := gcr_bits g - 8\<rparr>"
  have "wbits 8 (gcr_val g) = bits8 ?b"
    unfolding bits8_def by (intro wbits_cong) (simp add: bit_ucast_iff bit_and_ff)
  then show ?thesis
    using gcr_take [OF assms, of 8 ?g] assms(2)
    by (simp add: gcr_get_encoded_def word_le_nat_alt)
qed

lemma gcr_get_decoded_queue:
  assumes "gcr_wf g" "10 \<le> unat (gcr_bits g)"
  shows "\<exists>g'. gcr_get_decoded g = (Some (gcr_uncode (gcr_val g AND 0x3ff)), g') \<and> gcr_wf g'
    \<and> gcr_queue g = wbits 10 (gcr_val g) @ gcr_queue g' \<and> unat (gcr_bits g') = unat (gcr_bits g) - 10"
  using gcr_take [OF assms, of 10 "g\<lparr>gcr_val := drop_bit 10 (gcr_val g), gcr_bits := gcr_bits g - 10\<rparr>"] assms(2)
  by (auto simp: gcr_get_decoded_def word_le_nat_alt Let_def gcr_uncode_def)

lemma gcr_drain_encoded_queue:
  "gcr_wf g \<Longrightarrow> gcr_drain_encoded g = (bs, g') \<Longrightarrow>
     gcr_wf g' \<and> gcr_queue g = concat (map bits8 bs) @ gcr_queue g' \<and> unat (gcr_bits g') < 8"
proof (induction g arbitrary: bs g' rule: gcr_drain_encoded.induct)
  case (1 g)
  show ?case
  proof (cases "8 \<le> unat (gcr_bits g)")
    case True
    then obtain b h where b: "gcr_get_encoded g = (Some b, h)" "gcr_wf h" "gcr_queue g = bits8 b @ gcr_queue h"
      using gcr_get_encoded_queue [OF "1.prems"(1)] by blast
    obtain cs where "gcr_drain_encoded h = (cs, g')" "bs = b # cs"
      using "1.prems"(2) b(1) by (simp add: gcr_drain_encoded.simps [of g] split: prod.splits)
    with "1.IH" [OF b(1) [symmetric] refl b(2)] b(3) show ?thesis by simp
  next
    case False
    then have "gcr_get_encoded g = (None, g)" by (simp add: gcr_get_encoded_def word_le_nat_alt)
    with "1.prems" False show ?thesis by (simp add: gcr_drain_encoded.simps [of g])
  qed
qed

lemma gcr_drain_decoded_queue:
  "gcr_wf g \<Longrightarrow> gcr_drain_decoded g = (ds, g') \<Longrightarrow> gcr_queue g @ t = concat (map bits10 cs) \<Longrightarrow>
     gcr_wf g' \<and> (\<exists>cs'. cs = ds @ cs' \<and> gcr_queue g' @ t = concat (map bits10 cs')) \<and> unat (gcr_bits g') < 10"
proof (induction g arbitrary: ds g' cs rule: gcr_drain_decoded.induct)
  case (1 g)
  show ?case
  proof (cases "10 \<le> unat (gcr_bits g)")
    case True
    then obtain h where h: "gcr_get_decoded g = (Some (gcr_uncode (gcr_val g AND 0x3ff)), h)" "gcr_wf h"
      "gcr_queue g = wbits 10 (gcr_val g) @ gcr_queue h"
      using gcr_get_decoded_queue [OF "1.prems"(1)] by blast
    have "concat (map bits10 cs) \<noteq> []" using "1.prems"(3) True by (metis append_is_Nil_conv length_gcr_queue
          list.size(3) not_numeral_le_zero)
    then obtain c cs1 where cs: "cs = c # cs1" by (cases cs) auto
    have "length (wbits 10 (gcr_val g)) = length (bits10 c)" by (simp add: wbits_def)
    then have eq: "wbits 10 (gcr_val g) = bits10 c" "gcr_queue h @ t = concat (map bits10 cs1)"
      using "1.prems"(3) h(3) cs by auto
    then have "gcr_uncode (gcr_val g AND 0x3ff) = c" unfolding bits10_def by (intro gcr_uncode_wbits)
    then obtain es where "gcr_drain_decoded h = (es, g')" "ds = c # es"
      using "1.prems"(2) h(1) by (simp add: gcr_drain_decoded.simps [of g] split: prod.splits)
    with "1.IH" [OF h(1) [symmetric] refl h(2) _ eq(2)] cs show ?thesis by simp
  next
    case False
    then have "gcr_get_decoded g = (None, g)" by (simp add: gcr_get_decoded_def word_le_nat_alt)
    with "1.prems" False show ?thesis by (simp add: gcr_drain_decoded.simps [of g])
  qed
qed

lemma length_concat_bits [simp]:
  "length (concat (map bits8 bs)) = 8 * length bs" "length (concat (map bits10 cs)) = 10 * length cs"
proof -
  show "length (concat (map bits8 bs)) = 8 * length bs" by (induction bs) simp_all
  show "length (concat (map bits10 cs)) = 10 * length cs" by (induction cs) simp_all
qed

lemma gcr_encode_stream_queue:
  "gcr_wf g \<Longrightarrow> even (unat (gcr_bits g)) \<Longrightarrow> unat (gcr_bits g) < 8 \<Longrightarrow> gcr_encode_stream g cs = (bs, g') \<Longrightarrow>
     gcr_queue g @ concat (map bits10 cs) = concat (map bits8 bs) @ gcr_queue g' \<and> unat (gcr_bits g') < 8"
proof (induction cs arbitrary: g bs)
  case (Cons c cs)
  obtain bs1 g1 where d: "gcr_drain_encoded (gcr_encode g c) = (bs1, g1)" by fastforce
  obtain bs2 where s: "gcr_encode_stream g1 cs = (bs2, g')" "bs = bs1 @ bs2"
    using Cons.prems(4) d by (simp split: prod.splits)
  have "unat (gcr_bits g) \<le> 6" using Cons.prems(2,3) by presburger
  note e = gcr_encode_queue [OF Cons.prems(1) this, of c]
  then have q: "gcr_wf g1" "gcr_queue g @ bits10 c = concat (map bits8 bs1) @ gcr_queue g1" "unat (gcr_bits g1) < 8"
    using gcr_drain_encoded_queue [OF _ d] by simp_all
  have "unat (gcr_bits g) + 10 = 8 * length bs1 + unat (gcr_bits g1)" using arg_cong [OF q(2), of length] by simp
  then have "even (unat (gcr_bits g1))" using Cons.prems(2) by presburger
  from Cons.IH [OF q(1) this q(3) s(1)]
  have ih: "gcr_queue g1 @ concat (map bits10 cs) = concat (map bits8 bs2) @ gcr_queue g'" "unat (gcr_bits g') < 8"
    by simp_all
  have "gcr_queue g @ concat (map bits10 (c # cs)) = (gcr_queue g @ bits10 c) @ concat (map bits10 cs)" by simp
  also have "\<dots> = concat (map bits8 bs) @ gcr_queue g'" using q(2) ih(1) s(2) by simp
  finally show ?case using ih(2) by simp
qed simp

lemma gcr_decode_stream_queue:
  "gcr_wf g \<Longrightarrow> even (unat (gcr_bits g)) \<Longrightarrow> unat (gcr_bits g) < 10 \<Longrightarrow> gcr_decode_stream g bs = (ds, g') \<Longrightarrow>
     gcr_queue g @ concat (map bits8 bs) @ t = concat (map bits10 cs) \<Longrightarrow>
     (\<exists>cs'. cs = ds @ cs' \<and> gcr_queue g' @ t = concat (map bits10 cs')) \<and> unat (gcr_bits g') < 10"
proof (induction bs arbitrary: g ds cs)
  case (Cons b bs)
  obtain ds1 g1 where d: "gcr_drain_decoded (gcr_decode g b) = (ds1, g1)" by fastforce
  obtain ds2 where s: "gcr_decode_stream g1 bs = (ds2, g')" "ds = ds1 @ ds2"
    using Cons.prems(4) d by (simp split: prod.splits)
  have "unat (gcr_bits g) \<le> 8" using Cons.prems(2,3) by presburger
  note e = gcr_decode_queue [OF Cons.prems(1) this, of b]
  have "gcr_queue (gcr_decode g b) @ concat (map bits8 bs) @ t = concat (map bits10 cs)"
    using Cons.prems(5) e by simp
  from gcr_drain_decoded_queue [OF conjunct1 [OF e] d this]
  obtain cs1 where q: "gcr_wf g1" "cs = ds1 @ cs1" "gcr_queue g1 @ concat (map bits8 bs) @ t = concat (map bits10 cs1)"
    "unat (gcr_bits g1) < 10" by blast
  have l: "unat (gcr_bits g1) + (8 * length bs + length t) = 10 * length cs1" using arg_cong [OF q(3), of length] by simp
  have l': "unat (gcr_bits g) + (8 + 8 * length bs + length t) = 10 * (length ds1 + length cs1)"
    using arg_cong [OF Cons.prems(5), of length] q(2) by simp
  have "even (unat (gcr_bits g1))" using l l' Cons.prems(2) by presburger
  from Cons.IH [OF q(1) this q(4) s(1) q(3)]
  show ?case using q(2) s(2) by auto
qed simp

text \<open>
  C5. The group code: encoding a message byte by byte and draining the encoder, then
  feeding the bytes to a fresh decoder, gives back a prefix of the message that lacks at most
  its last byte. The whole message comes back exactly when its length is a multiple of four (as the
  padding the module expects makes it), and exactly then nothing is left in either accumulator.
\<close>

theorem gcr_stream_roundtrip:
  assumes "gcr_encode_stream gcr_init cs = (bs, e)" and "gcr_decode_stream gcr_init bs = (ds, d)"
  shows "ds = take (length ds) cs \<and> length cs \<le> Suc (length ds) \<and>
    (ds = cs \<longleftrightarrow> 4 dvd length cs) \<and> (gcr_finished e \<longleftrightarrow> 4 dvd length cs) \<and> (gcr_finished d \<longleftrightarrow> 4 dvd length cs)"
proof -
  have z: "unat (gcr_bits gcr_init) = 0" by (simp add: gcr_init_def)
  have e: "concat (map bits10 cs) = concat (map bits8 bs) @ gcr_queue e" "unat (gcr_bits e) < 8"
    using gcr_encode_stream_queue [OF conjunct1 [OF gcr_init_wf] _ _ assms(1)] gcr_init_wf z by simp_all
  then obtain cs' where d: "cs = ds @ cs'" "gcr_queue d @ gcr_queue e = concat (map bits10 cs')" "unat (gcr_bits d) < 10"
    using gcr_decode_stream_queue [OF conjunct1 [OF gcr_init_wf] _ _ assms(2), of "gcr_queue e" cs] gcr_init_wf z
    by auto
  have l: "unat (gcr_bits d) + unat (gcr_bits e) = 10 * length cs'" using arg_cong [OF d(2), of length] by simp
  have l2: "10 * length cs = 8 * length bs + unat (gcr_bits e)" using arg_cong [OF e(1), of length] by simp
  have n: "length cs' \<le> 1" using l d(3) e(2) by linarith
  have fe: "unat (gcr_bits e) = 0 \<longleftrightarrow> 4 dvd length cs" using l2 e(2) by presburger
  have fd: "unat (gcr_bits d) = 0 \<longleftrightarrow> unat (gcr_bits e) = 0" "length cs' = 0 \<longleftrightarrow> unat (gcr_bits e) = 0"
    using l d(3) e(2) by presburger+
  have "ds = cs \<longleftrightarrow> 4 dvd length cs" using d(1) fd(2) fe by auto
  moreover have "gcr_finished e \<longleftrightarrow> 4 dvd length cs" "gcr_finished d \<longleftrightarrow> 4 dvd length cs"
    using fe fd(1) by (simp_all add: gcr_finished_def unat_eq_0)
  ultimately show ?thesis using d(1) n by auto
qed

theorem gcr_stream_roundtrip_witness:
  "\<exists>bs e ds d. gcr_encode_stream gcr_init [0x12, 0xab, 0, 0xff] = (bs, e) \<and>
     gcr_decode_stream gcr_init bs = (ds, d) \<and> length bs = 5 \<and> ds = [0x12, 0xab, 0, 0xff] \<and> gcr_finished d"
proof -
  obtain bs e where e: "gcr_encode_stream gcr_init [0x12, 0xab, 0, 0xff] = (bs, e)" by fastforce
  obtain ds d where d: "gcr_decode_stream gcr_init bs = (ds, d)" by fastforce
  have "length (fst (gcr_encode_stream gcr_init [0x12, 0xab, 0, 0xff])) = 5" by code_simp
  then have "length bs = 5" using e by simp
  moreover have "4 dvd length [0x12, 0xab, 0, 0xff :: u8]" by code_simp
  ultimately have "length bs = 5 \<and> ds = [0x12, 0xab, 0, 0xff] \<and> gcr_finished d"
    using gcr_stream_roundtrip [OF e d] by blast
  with e d show ?thesis by blast
qed

text \<open>
  The validity test compares \<open>GCR_decode[..] << 4\<close>, a 16-bit value, with
  \<open>0xff\<close>: the comparison never holds, and an invalid upper half passes.
\<close>

lemma gcr_valid_ignores_high_half:
  "gcr_valid g \<longleftrightarrow> (10 \<le> gcr_bits g \<longrightarrow> GCR_decode ! unat (gcr_val g AND 0x1f) \<noteq> 0xff)"
proof -
  have "push_bit 4 x \<noteq> (0xff :: u16)" for x
  proof
    assume "push_bit 4 x = 0xff"
    then have "bit (push_bit 4 x) 0 = bit (0xff :: u16) 0" by simp
    then show False by (simp add: bit_push_bit_iff)
  qed
  moreover have "(gcr_val g AND 0x3ff) AND 0x1f = gcr_val g AND 0x1f"
    by (simp add: and.assoc)
  ultimately show ?thesis by (simp add: gcr_valid_def Let_def)
qed

section \<open>The Manchester code\<close>

definition me_nibbles :: "u8 list" where
  "me_nibbles = [0x55, 0x56, 0x59, 0x5a, 0x65, 0x66, 0x69, 0x6a, 0x95, 0x96, 0x99, 0x9a, 0xa5, 0xa6, 0xa9, 0xaa]"

lemma me_code_table:
  "map (\<lambda>m. push_bit 4 (me_decode8 (ucast (drop_bit 8 m))) OR me_decode8 (ucast m)) me_encode_tab
     = map of_nat [0..<256]"
  by code_simp

lemma unat_in_256: "unat (c :: u8) \<in> set [0..<256]"
  using unat_less_u8 [of c] by simp

lemma me_valid_table: "list_all (\<lambda>n. me_valid (of_nat n) = (if of_nat n \<in> set me_nibbles then 1 else 0)) [0..<256]"
  by code_simp

lemma me_valid_iff: "me_valid m = (if m \<in> set me_nibbles then 1 else 0)"
  using bspec [OF me_valid_table [unfolded list_all_iff] unat_in_256 [of m]] by simp

lemma me_recode_table:
  "list_all (\<lambda>h. list_all (\<lambda>l. me_encode (push_bit 4 (me_decode8 h) OR me_decode8 l)
      = push_bit 8 (ucast h) OR ucast l) me_nibbles) me_nibbles"
  by code_simp

lemma me_decode16_halves:
  "me_decode16 m = push_bit 4 (me_decode8 (ucast (drop_bit 8 m))) OR me_decode8 (ucast m)"
proof -
  have "(ucast (m AND 0xff) :: u8) = ucast m"
    by (rule bit_word_eqI) (simp add: bit_ucast_iff bit_and_ff)
  then show ?thesis by (simp add: me_decode16_def me_decode8_def Let_def)
qed

lemma u16_join_or: "push_bit 8 (ucast (ucast (drop_bit 8 c) :: u8)) OR ucast (ucast c :: u8) = (c :: u16)"
proof (rule bit_word_eqI)
  fix i assume "i < LENGTH(16)"
  then show "bit (push_bit 8 (ucast (ucast (drop_bit 8 c) :: u8)) OR ucast (ucast c :: u8) :: u16) i = bit c i"
    by (cases "i < 8") (auto simp: bit_simps)
qed

lemma me_nibble_table:
  "list_all (\<lambda>m. ucast (drop_bit 8 m) \<in> set me_nibbles \<and> ucast m \<in> set me_nibbles) me_encode_tab"
  by code_simp

lemma me_encode_in_tab: "unat c < length me_encode_tab" "me_encode c \<in> set me_encode_tab"
proof -
  have "length me_encode_tab = 256" by code_simp
  then show "unat c < length me_encode_tab" using unat_less_u8 [of c] by simp
  then show "me_encode c \<in> set me_encode_tab" unfolding me_encode_def by (rule nth_mem)
qed

lemma me_decode_encode: "me_decode16 (me_encode c) = c"
proof -
  have "me_decode16 (me_encode c) = map of_nat [0..<256] ! unat c"
    unfolding me_code_table [symmetric] me_decode16_halves me_encode_def
    using me_encode_in_tab(1) by (rule nth_map [symmetric])
  then show ?thesis using unat_less_u8 [of c] by simp
qed

lemma me_encode_valid: "me_valid (ucast (drop_bit 8 (me_encode c))) = 1" "me_valid (ucast (me_encode c)) = 1"
  using bspec [OF me_nibble_table [unfolded list_all_iff] me_encode_in_tab(2) [of c]]
  by (simp_all add: me_valid_iff)

text \<open>
  C6. The Manchester tables agree with each other: every byte is decoded from its code
  word, by the 16-bit and by the two 8-bit decoders, the halves of a code word are marked
  valid, and a 16-bit word is the code of some byte exactly when both its halves are marked valid.
\<close>

theorem me_tables_consistent:
  "me_decode16 (me_encode c) = c \<and>
   push_bit 4 (me_decode8 (ucast (drop_bit 8 (me_encode c)))) OR me_decode8 (ucast (me_encode c)) = c \<and>
   ((\<exists>d. m = me_encode d) \<longleftrightarrow> me_valid (ucast (drop_bit 8 m)) = 1 \<and> me_valid (ucast m) = 1)"
proof (intro conjI)
  show "me_decode16 (me_encode c) = c" by (rule me_decode_encode)
  then show "push_bit 4 (me_decode8 (ucast (drop_bit 8 (me_encode c)))) OR me_decode8 (ucast (me_encode c)) = c"
    unfolding me_decode16_halves .
  show "(\<exists>d. m = me_encode d) \<longleftrightarrow> me_valid (ucast (drop_bit 8 m)) = 1 \<and> me_valid (ucast m) = 1"
  proof
    assume "me_valid (ucast (drop_bit 8 m)) = 1 \<and> me_valid (ucast m) = 1"
    then have n: "ucast (drop_bit 8 m) \<in> set me_nibbles" "ucast m \<in> set me_nibbles"
      by (simp_all add: me_valid_iff split: if_splits)
    have "me_encode (me_decode16 m) = m"
      unfolding me_decode16_halves
      using bspec [OF bspec [OF me_recode_table [unfolded list_all_iff] n(1)] n(2)]
      unfolding u16_join_or .
    then show "\<exists>d. m = me_encode d" by metis
  qed (auto simp: me_encode_valid)
qed

end
