(* ===== verification/Aes.thy ===== *)
theory Aes
  imports Prelude
begin

text \<open>
  The AES-128 block cipher of \<open>core/lib/aes-128.c\<close>: key schedule and encryption on
  arrays of 16 bytes, with the index loops of the code. They are shown to be the cipher of
  FIPS 197, written down independently on a state of four rows and columns
  and on the words of the key expansion; the table \<open>sbox\<close> is shown to be the
  multiplicative inverse in the field of 256 elements followed by the affine map.
\<close>

section \<open>aes-128.c\<close>

definition sbox :: "u8 list" where
  "sbox =
    [0x63, 0x7c, 0x77, 0x7b, 0xf2, 0x6b, 0x6f, 0xc5, 0x30, 0x01, 0x67, 0x2b, 0xfe, 0xd7, 0xab, 0x76,
     0xca, 0x82, 0xc9, 0x7d, 0xfa, 0x59, 0x47, 0xf0, 0xad, 0xd4, 0xa2, 0xaf, 0x9c, 0xa4, 0x72, 0xc0,
     0xb7, 0xfd, 0x93, 0x26, 0x36, 0x3f, 0xf7, 0xcc, 0x34, 0xa5, 0xe5, 0xf1, 0x71, 0xd8, 0x31, 0x15,
     0x04, 0xc7, 0x23, 0xc3, 0x18, 0x96, 0x05, 0x9a, 0x07, 0x12, 0x80, 0xe2, 0xeb, 0x27, 0xb2, 0x75,
     0x09, 0x83, 0x2c, 0x1a, 0x1b, 0x6e, 0x5a, 0xa0, 0x52, 0x3b, 0xd6, 0xb3, 0x29, 0xe3, 0x2f, 0x84,
     0x53, 0xd1, 0x00, 0xed, 0x20, 0xfc, 0xb1, 0x5b, 0x6a, 0xcb, 0xbe, 0x39, 0x4a, 0x4c, 0x58, 0xcf,
     0xd0, 0xef, 0xaa, 0xfb, 0x43, 0x4d, 0x33, 0x85, 0x45, 0xf9, 0x02, 0x7f, 0x50, 0x3c, 0x9f, 0xa8,
     0x51, 0xa3, 0x40, 0x8f, 0x92, 0x9d, 0x38, 0xf5, 0xbc, 0xb6, 0xda, 0x21, 0x10, 0xff, 0xf3, 0xd2,
     0xcd, 0x0c, 0x13, 0xec, 0x5f, 0x97, 0x44, 0x17, 0xc4, 0xa7, 0x7e, 0x3d, 0x64, 0x5d, 0x19, 0x73,
     0x60, 0x81, 0x4f, 0xdc, 0x22, 0x2a, 0x90, 0x88, 0x46, 0xee, 0xb8, 0x14, 0xde, 0x5e, 0x0b, 0xdb,
     0xe0, 0x32, 0x3a, 0x0a, 0x49, 0x06, 0x24, 0x5c, 0xc2, 0xd3, 0xac, 0x62, 0x91, 0x95, 0xe4, 0x79,
     0xe7, 0xc8, 0x37, 0x6d, 0x8d, 0xd5, 0x4e, 0xa9, 0x6c, 0x56, 0xf4, 0xea, 0x65, 0x7a, 0xae, 0x08,
     0xba, 0x78, 0x25, 0x2e, 0x1c, 0xa6, 0xb4, 0xc6, 0xe8, 0xdd, 0x74, 0x1f, 0x4b, 0xbd, 0x8b, 0x8a,
     0x70, 0x3e, 0xb5, 0x66, 0x48, 0x03, 0xf6, 0x0e, 0x61, 0x35, 0x57, 0xb9, 0x86, 0xc1, 0x1d, 0x9e,
     0xe1, 0xf8, 0x98, 0x11, 0x69, 0xd9, 0x8e, 0x94, 0x9b, 0x1e, 0x87, 0xe9, 0xce, 0x55, 0x28, 0xdf,
     0x8c, 0xa1, 0x89, 0x0d, 0xbf, 0xe6, 0x42, 0x68, 0x41, 0x99, 0x2d, 0x0f, 0xb0, 0x54, 0xbb, 0x16]"

abbreviation (input) AES_128_BLOCK_SIZE :: nat where "AES_128_BLOCK_SIZE \<equiv> 16"

definition galois_mul2 :: "u8 \<Rightarrow> u8" where
  "galois_mul2 v = (if drop_bit 7 v \<noteq> 0 then push_bit 1 v XOR 0x1b else push_bit 1 v)"

text \<open>The table lookup \<open>sbox[x]\<close>.\<close>

definition sub :: "u8 \<Rightarrow> u8" where
  "sub x = sbox ! unat x"

text \<open>One pass of the loop of \<open>set_key\<close>: the next round key and \<open>rcon\<close>.\<close>

fun key_words :: "nat \<Rightarrow> nat \<Rightarrow> u8 list \<Rightarrow> u8 list \<Rightarrow> u8 list" where
  "key_words j 0 p k = k"
| "key_words j (Suc n) p k = key_words (Suc j) n p (k[j := p ! j XOR k ! (j - 4)])"

definition next_key :: "u8 list \<Rightarrow> u8 \<Rightarrow> u8 list \<Rightarrow> u8 list" where
  "next_key p rcon k =
     (let k = k[0 := sub (p ! 13) XOR p ! 0 XOR rcon];
          k = k[1 := sub (p ! 14) XOR p ! 1];
          k = k[2 := sub (p ! 15) XOR p ! 2];
          k = k[3 := sub (p ! 12) XOR p ! 3]
      in key_words 4 12 p k)"

fun set_key_loop :: "nat \<Rightarrow> nat \<Rightarrow> u8 \<Rightarrow> u8 list list \<Rightarrow> u8 list list" where
  "set_key_loop i 0 rcon ks = ks"
| "set_key_loop i (Suc n) rcon ks =
     set_key_loop (Suc i) n (galois_mul2 rcon) (ks[i := next_key (ks ! (i - 1)) rcon (ks ! i)])"

definition set_key :: "u8 list \<Rightarrow> u8 list list \<Rightarrow> u8 list list" where
  "set_key key round_keys = set_key_loop 1 10 0x01 (round_keys[0 := key])"

fun add_round_key :: "nat \<Rightarrow> nat \<Rightarrow> u8 list \<Rightarrow> u8 list \<Rightarrow> u8 list" where
  "add_round_key i 0 k s = s"
| "add_round_key i (Suc n) k s = add_round_key (Suc i) n k (s[i := s ! i XOR k ! i])"

fun byte_sub :: "nat \<Rightarrow> nat \<Rightarrow> u8 list \<Rightarrow> u8 list" where
  "byte_sub i 0 s = s"
| "byte_sub i (Suc n) s = byte_sub (Suc i) n (s[i := sub (s ! i)])"

definition shift_row :: "u8 list \<Rightarrow> u8 list" where
  "shift_row s =
     (let buf1 = s ! 1; s = s[1 := s ! 5]; s = s[5 := s ! 9]; s = s[9 := s ! 13]; s = s[13 := buf1];
          buf1 = s ! 2; buf2 = s ! 6; s = s[2 := s ! 10]; s = s[6 := s ! 14]; s = s[10 := buf1]; s = s[14 := buf2];
          buf1 = s ! 15; s = s[15 := s ! 11]; s = s[11 := s ! 7]; s = s[7 := s ! 3]; s = s[3 := buf1]
      in s)"

definition mix_column :: "nat \<Rightarrow> u8 list \<Rightarrow> u8 list" where
  "mix_column i s =
     (let buf4 = 4 * i;
          buf1 = s ! buf4 XOR s ! (buf4 + 1) XOR s ! (buf4 + 2) XOR s ! (buf4 + 3);
          buf2 = s ! buf4;
          buf3 = galois_mul2 (s ! buf4 XOR s ! (buf4 + 1));
          s = s[buf4 := s ! buf4 XOR buf3 XOR buf1];
          buf3 = galois_mul2 (s ! (buf4 + 1) XOR s ! (buf4 + 2));
          s = s[buf4 + 1 := s ! (buf4 + 1) XOR buf3 XOR buf1];
          buf3 = galois_mul2 (s ! (buf4 + 2) XOR s ! (buf4 + 3));
          s = s[buf4 + 2 := s ! (buf4 + 2) XOR buf3 XOR buf1];
          buf3 = galois_mul2 (s ! (buf4 + 3) XOR buf2)
      in s[buf4 + 3 := s ! (buf4 + 3) XOR buf3 XOR buf1])"

fun encrypt_rounds :: "nat \<Rightarrow> nat \<Rightarrow> u8 list list \<Rightarrow> u8 list \<Rightarrow> u8 list" where
  "encrypt_rounds r 0 ks s = s"
| "encrypt_rounds r (Suc n) ks s =
     (let s = byte_sub 0 AES_128_BLOCK_SIZE s;
          s = shift_row s;
          s = (if r < 10 then fold mix_column [0..<4] s else s);
          s = add_round_key 0 AES_128_BLOCK_SIZE (ks ! r) s
      in encrypt_rounds (Suc r) n ks s)"

definition encrypt :: "u8 list list \<Rightarrow> u8 list \<Rightarrow> u8 list" where
  "encrypt ks s = encrypt_rounds 1 10 ks (add_round_key 0 AES_128_BLOCK_SIZE (ks ! 0) s)"

text \<open>The two padding functions take any driver: \<open>E\<close> and \<open>K\<close> are its functions.\<close>

definition aes_128_padded_encrypt :: "(u8 list \<Rightarrow> u8 list) \<Rightarrow> u8 list \<Rightarrow> nat \<Rightarrow> u8 list" where
  "aes_128_padded_encrypt E p n =
     (let block = take n p @ replicate (AES_128_BLOCK_SIZE - n) 0;
          block = E block
      in take n block @ drop n p)"

definition aes_128_set_padded_key :: "(u8 list \<Rightarrow> 'k) \<Rightarrow> u8 list \<Rightarrow> nat \<Rightarrow> 'k" where
  "aes_128_set_padded_key K key n = K (take n key @ replicate (AES_128_BLOCK_SIZE - n) 0)"

section \<open>The field and the table\<close>

text \<open>Multiplication of polynomials over GF(2) modulo \<open>x^8 + x^4 + x^3 + x + 1\<close>, bit by bit of \<open>b\<close>.\<close>

fun gmul_bits :: "nat \<Rightarrow> u8 \<Rightarrow> u8 \<Rightarrow> u8" where
  "gmul_bits 0 a b = 0"
| "gmul_bits (Suc n) a b =
     (if b AND 1 = 1 then a else 0) XOR
     gmul_bits n (if a AND 0x80 = 0 then a + a else (a + a) XOR 0x1b) (drop_bit 1 b)"

definition gmul :: "u8 \<Rightarrow> u8 \<Rightarrow> u8" where
  "gmul a b = gmul_bits 8 a b"

definition rotl8 :: "nat \<Rightarrow> u8 \<Rightarrow> u8" where
  "rotl8 n x = push_bit n x OR drop_bit (8 - n) x"

text \<open>The affine map of FIPS 197 (5.1): every output bit is the sum of five input bits and of \<open>0x63\<close>.\<close>

definition affine :: "u8 \<Rightarrow> u8" where
  "affine x = x XOR rotl8 1 x XOR rotl8 2 x XOR rotl8 3 x XOR rotl8 4 x XOR 0x63"

text \<open>A candidate for the inverse: \<open>affine\<close> undone.\<close>

definition unaffine :: "u8 \<Rightarrow> u8" where
  "unaffine y = rotl8 1 y XOR rotl8 3 y XOR rotl8 6 y XOR 0x05"

definition sbox_ok :: "u8 \<Rightarrow> u8 \<Rightarrow> bool" where
  "sbox_ok x y \<longleftrightarrow> (let i = unaffine y in affine i = y \<and> gmul x i = (if x = 0 then 0 else 1) \<and> (x = 0 \<longrightarrow> i = 0))"

lemma sbox_table_0: "list_all2 sbox_ok (map of_nat [0..<64]) (take 64 sbox)"
  by code_simp

lemma sbox_table_64: "list_all2 sbox_ok (map of_nat [64..<128]) (take 64 (drop 64 sbox))"
  by code_simp

lemma sbox_table_128: "list_all2 sbox_ok (map of_nat [128..<192]) (take 64 (drop 128 sbox))"
  by code_simp

lemma sbox_table_192: "list_all2 sbox_ok (map of_nat [192..<256]) (drop 192 sbox)"
  by code_simp

lemma length_sbox: "length sbox = 256"
  by (simp add: sbox_def)

lemma sbox_ok_sub: "sbox_ok x (sub x)"
proof -
  have t: "sbox = take 64 sbox @ take 64 (drop 64 sbox) @ take 64 (drop 128 sbox) @ drop 192 sbox"
    using append_take_drop_id [of 64 sbox] append_take_drop_id [of 64 "drop 64 sbox"] append_take_drop_id [of 64 "drop 128 sbox"] by simp
  have m: "map of_nat [0..<256] = (map of_nat [0..<64] @ map of_nat [64..<128] @ map of_nat [128..<192] @ map of_nat [192..<256] :: u8 list)"
  proof -
    have "[0..<256] = [0..<64] @ [64..<128] @ [128..<192] @ [192..<256 :: nat]"
      using upt_add_eq_append [of 0 64 192] upt_add_eq_append [of 64 128 128] upt_add_eq_append [of 128 192 64] by simp
    then show ?thesis by (simp only: map_append)
  qed
  have all: "list_all2 sbox_ok (map of_nat [0..<256]) sbox"
    unfolding m by (subst t) (intro list_all2_appendI sbox_table_0 sbox_table_64 sbox_table_128 sbox_table_192)
  have "unat x < 256" by (rule unat_less_u8)
  then have "sbox_ok (map of_nat [0..<256] ! unat x) (sbox ! unat x)"
    using list_all2_nthD [OF all, of "unat x"] by simp
  moreover have "map of_nat [0..<256] ! unat x = x" using \<open>unat x < 256\<close> by simp
  ultimately show ?thesis by (simp add: sub_def)
qed

section \<open>FIPS 197\<close>

text \<open>A state has a byte for every row and column; byte \<open>r + 4 * c\<close> of the block is at row \<open>r\<close>, column \<open>c\<close>.\<close>

type_synonym aes_state = "nat \<Rightarrow> nat \<Rightarrow> u8"

definition SubBytes :: "aes_state \<Rightarrow> aes_state" where
  "SubBytes m = (\<lambda>r c. sub (m r c))"

definition ShiftRows :: "aes_state \<Rightarrow> aes_state" where
  "ShiftRows m = (\<lambda>r c. m r ((c + r) mod 4))"

definition MixColumns :: "aes_state \<Rightarrow> aes_state" where
  "MixColumns m = (\<lambda>r c. gmul (m r c) 2 XOR gmul (m ((r + 1) mod 4) c) 3 XOR m ((r + 2) mod 4) c XOR m ((r + 3) mod 4) c)"

definition AddRoundKey :: "(nat \<Rightarrow> u8 list) \<Rightarrow> nat \<Rightarrow> aes_state \<Rightarrow> aes_state" where
  "AddRoundKey w n m = (\<lambda>r c. m r c XOR w (4 * n + c) ! r)"

definition RotWord :: "u8 list \<Rightarrow> u8 list" where
  "RotWord a = [a ! 1, a ! 2, a ! 3, a ! 0]"

definition SubWord :: "u8 list \<Rightarrow> u8 list" where
  "SubWord a = map sub a"

definition Rcon :: "nat \<Rightarrow> u8 list" where
  "Rcon i = [((\<lambda>a. gmul a 2) ^^ (i - 1)) 1, 0, 0, 0]"

definition xor_word :: "u8 list \<Rightarrow> u8 list \<Rightarrow> u8 list" where
  "xor_word a b = map2 (XOR) a b"

fun KeyExpansion :: "u8 list \<Rightarrow> nat \<Rightarrow> u8 list" where
  "KeyExpansion key i =
     (if i < 4 then [key ! (4 * i), key ! (4 * i + 1), key ! (4 * i + 2), key ! (4 * i + 3)]
      else xor_word (KeyExpansion key (i - 4))
        (let temp = KeyExpansion key (i - 1)
         in if i mod 4 = 0 then xor_word (SubWord (RotWord temp)) (Rcon (i div 4)) else temp))"

declare KeyExpansion.simps [simp del]

definition Cipher :: "(nat \<Rightarrow> u8 list) \<Rightarrow> u8 list \<Rightarrow> u8 list" where
  "Cipher w b =
     (let m = AddRoundKey w 0 (\<lambda>r c. b ! (r + 4 * c));
          m = fold (\<lambda>n m. AddRoundKey w n (MixColumns (ShiftRows (SubBytes m)))) [1..<10] m;
          m = AddRoundKey w 10 (ShiftRows (SubBytes m))
      in map (\<lambda>i. m (i mod 4) (i div 4)) [0..<16])"

section \<open>The code computes the cipher\<close>

lemma galois_mul2_eq: "galois_mul2 v = push_bit 1 v XOR (if bit v 7 then 0x1b else 0)"
proof -
  have "drop_bit 7 v \<noteq> 0 \<longleftrightarrow> bit v 7"
  proof
    assume "drop_bit 7 v \<noteq> 0"
    then obtain i where "bit v (7 + i)" by (auto simp: bit_eq_iff bit_drop_bit_eq)
    then show "bit v 7" using bit_imp_le_length [of v "7 + i"] by simp
  next
    assume "bit v 7"
    then have "bit (drop_bit 7 v) 0" by (simp add: bit_drop_bit_eq)
    then show "drop_bit 7 v \<noteq> 0" by auto
  qed
  then show ?thesis by (simp add: galois_mul2_def)
qed

lemma galois_mul2_xor: "galois_mul2 (a XOR b) = galois_mul2 a XOR galois_mul2 b"
proof -
  have "push_bit 1 (a XOR b) = push_bit 1 a XOR push_bit 1 b" by (rule push_bit_xor)
  moreover have "(0x1b :: u8) XOR 0x1b = 0" by simp
  ultimately show ?thesis unfolding galois_mul2_eq bit_xor_iff
    by (auto simp: xor.assoc xor.left_commute xor.commute)
qed

lemma gmul_bits_0: "gmul_bits n a 0 = 0"
  by (induction n arbitrary: a) simp_all

lemma gmul_double: "(if a AND 0x80 = 0 then a + a else (a + a) XOR 0x1b) = galois_mul2 a"
proof -
  have "a AND 0x80 = 0 \<longleftrightarrow> \<not> bit a 7"
    using and_exp_eq_0_iff_not_bit [of a 7] by simp
  moreover have "a + a = push_bit 1 a" by (simp add: push_bit_eq_mult)
  ultimately show ?thesis by (simp add: galois_mul2_eq mult.commute)
qed

lemma gmul_2: "gmul a 2 = galois_mul2 a" and gmul_3: "gmul a 3 = galois_mul2 a XOR a"
proof -
  have e: "(8 :: nat) = Suc (Suc 6)" by simp
  have b: "(2 :: u8) AND 1 \<noteq> 1" "(3 :: u8) AND 1 = 1" "(1 :: u8) AND 1 = 1" "drop_bit 1 (2 :: u8) = 1" "drop_bit 1 (3 :: u8) = 1"
    "drop_bit 1 (1 :: u8) = 0" by simp_all
  show "gmul a 2 = galois_mul2 a" "gmul a 3 = galois_mul2 a XOR a"
    unfolding gmul_def e gmul_bits.simps gmul_double b gmul_bits_0 using b(1) by (simp_all add: xor.commute)
qed

text \<open>The loops of the code, as maps over the block.\<close>

lemma byte_sub_eq: "i + n = length s \<Longrightarrow> byte_sub i n s = take i s @ map sub (drop i s)"
proof (induction n arbitrary: i s)
  case (Suc n)
  then have i: "i < length s" by simp
  have "byte_sub i (Suc n) s = take (Suc i) (s[i := sub (s ! i)]) @ map sub (drop (Suc i) (s[i := sub (s ! i)]))"
    using Suc.IH [of "Suc i" "s[i := sub (s ! i)]"] Suc.prems by simp
  also have "\<dots> = take i s @ map sub (drop i s)"
    using i by (simp add: take_Suc_conv_app_nth Cons_nth_drop_Suc [symmetric])
  finally show ?case .
qed simp

lemma add_round_key_eq:
  "i + n = length s \<Longrightarrow> length k = length s \<Longrightarrow> add_round_key i n k s = take i s @ map2 (XOR) (drop i s) (drop i k)"
proof (induction n arbitrary: i s)
  case (Suc n)
  then have i: "i < length s" "i < length k" by simp_all
  let ?s = "s[i := s ! i XOR k ! i]"
  have "add_round_key i (Suc n) k s = take (Suc i) ?s @ map2 (XOR) (drop (Suc i) ?s) (drop (Suc i) k)"
    using Suc.IH [of "Suc i" ?s] Suc.prems by simp
  also have "\<dots> = take i s @ map2 (XOR) (drop i s) (drop i k)"
    using i by (simp add: take_Suc_conv_app_nth Cons_nth_drop_Suc [symmetric])
  finally show ?case .
qed simp

text \<open>A block represents a state.\<close>

definition mrep :: "u8 list \<Rightarrow> aes_state \<Rightarrow> bool" where
  "mrep s m \<longleftrightarrow> length s = 16 \<and> (\<forall>r < 4. \<forall>c < 4. s ! (r + 4 * c) = m r c)"

lemma mrep_byte_sub: "mrep s m \<Longrightarrow> mrep (byte_sub 0 16 s) (SubBytes m)"
  using byte_sub_eq [of 0 16 s] by (simp add: mrep_def SubBytes_def)

lemma mrep_add_round_key:
  assumes "mrep s m" "length k = 16" "\<And>r c. r < 4 \<Longrightarrow> c < 4 \<Longrightarrow> k ! (r + 4 * c) = w (4 * n + c) ! r"
  shows "mrep (add_round_key 0 16 k s) (AddRoundKey w n m)"
  using add_round_key_eq [of 0 16 s k] assms by (simp add: mrep_def AddRoundKey_def)

lemma below_4: "(\<forall>r < (4 :: nat). P r) \<longleftrightarrow> P 0 \<and> P 1 \<and> P 2 \<and> P 3"
  by (auto simp: eval_nat_numeral less_Suc_eq)

lemma list_16: "length s = 16 \<Longrightarrow> \<exists>a b c d e f g h i j k l m n q p. s = [a, b, c, d, e, f, g, h, i, j, k, l, m, n, q, p]"
  by (auto simp: eval_nat_numeral length_Suc_conv)

lemma mrep_shift_row: "mrep s m \<Longrightarrow> mrep (shift_row s) (ShiftRows m)"
  using list_16 [of s] by (auto simp: mrep_def below_4 shift_row_def ShiftRows_def Let_def numeral_2_eq_2 [symmetric])

lemma mrep_mix_columns: "mrep s m \<Longrightarrow> mrep (fold mix_column [0..<4] s) (MixColumns m)"
proof -
  assume "mrep s m"
  moreover have "[0..<4] = [0, 1, 2, 3 :: nat]" by (simp add: eval_nat_numeral upt_rec)
  ultimately show ?thesis
    using list_16 [of s]
    by (auto simp: mrep_def below_4 mix_column_def MixColumns_def Let_def gmul_2 gmul_3 galois_mul2_xor
        xor.assoc xor.left_commute xor.commute numeral_2_eq_2 [symmetric])
qed

text \<open>The key schedule.\<close>

lemma key_words_props:
  assumes "4 \<le> j" "j + n = 16" "length k = 16"
  shows "length (key_words j n p k) = 16 \<and> (\<forall>i < j. key_words j n p k ! i = k ! i) \<and>
    (\<forall>i < 16. j \<le> i \<longrightarrow> key_words j n p k ! i = p ! i XOR key_words j n p k ! (i - 4))"
  using assms
proof (induction n arbitrary: j k)
  case (Suc n)
  let ?k = "k[j := p ! j XOR k ! (j - 4)]"
  have ih: "length (key_words (Suc j) n p ?k) = 16" "\<forall>i < Suc j. key_words (Suc j) n p ?k ! i = ?k ! i"
    "\<forall>i < 16. Suc j \<le> i \<longrightarrow> key_words (Suc j) n p ?k ! i = p ! i XOR key_words (Suc j) n p ?k ! (i - 4)"
    using Suc.IH [of "Suc j" ?k] Suc.prems by auto
  have "key_words (Suc j) n p ?k ! i = p ! i XOR key_words (Suc j) n p ?k ! (i - 4)" if "i < 16" "j \<le> i" for i
  proof (cases "i = j")
    case True
    then show ?thesis using ih(2) Suc.prems by simp
  next
    case False
    then show ?thesis using ih(3) that by simp
  qed
  then show ?case using ih(1,2) Suc.prems by simp
qed simp

lemma length_KeyExpansion [simp]: "length (KeyExpansion key i) = 4"
proof (induction key i rule: KeyExpansion.induct)
  case (1 key i)
  show ?case
  proof (cases "i < 4")
    case False
    have "length (RotWord x) = 4" "length (SubWord x) = length x" "length (Rcon n) = 4" for x n
      by (simp_all add: RotWord_def SubWord_def Rcon_def)
    then show ?thesis using 1 False by (subst KeyExpansion.simps) (simp add: xor_word_def Let_def)
  qed (subst KeyExpansion.simps, simp)
qed

lemma nth_xor_word: "r < length a \<Longrightarrow> r < length b \<Longrightarrow> xor_word a b ! r = a ! r XOR b ! r"
  by (simp add: xor_word_def)

definition krep :: "u8 list \<Rightarrow> nat \<Rightarrow> u8 list \<Rightarrow> bool" where
  "krep key n k \<longleftrightarrow> length k = 16 \<and> (\<forall>r < 4. \<forall>c < 4. k ! (r + 4 * c) = KeyExpansion key (4 * n + c) ! r)"

lemma krep_0: "length key = 16 \<Longrightarrow> krep key 0 key"
  unfolding krep_def by (simp add: below_4 KeyExpansion.simps numeral_2_eq_2 [symmetric])

lemma krep_next:
  assumes p: "krep key n p" and k: "length k = 16" and rc: "rcon = (galois_mul2 ^^ n) 1"
  shows "krep key (Suc n) (next_key p rcon k)"
proof -
  let ?w = "KeyExpansion key"
  have pl: "length p = 16" and pw: "\<And>r c. r < 4 \<Longrightarrow> c < 4 \<Longrightarrow> p ! (r + 4 * c) = ?w (4 * n + c) ! r"
    using p by (simp_all add: krep_def)
  define k0 where "k0 = k[0 := sub (p ! 13) XOR p ! 0 XOR rcon, 1 := sub (p ! 14) XOR p ! 1, 2 := sub (p ! 15) XOR p ! 2,
    3 := sub (p ! 12) XOR p ! 3]"
  have l0: "length k0 = 16" using k by (simp add: k0_def)
  have nk: "next_key p rcon k = key_words 4 12 p k0" by (simp add: next_key_def k0_def Let_def)
  define q where "q = next_key p rcon k"
  have q: "length q = 16" "\<And>i. i < 4 \<Longrightarrow> q ! i = k0 ! i" "\<And>i. i < 16 \<Longrightarrow> 4 \<le> i \<Longrightarrow> q ! i = p ! i XOR q ! (i - 4)"
    using key_words_props [of 4 12 k0 p] l0 by (simp_all add: q_def nk)
  have "(\<lambda>a. gmul a 2) = galois_mul2" by (rule ext) (rule gmul_2)
  then have Rc: "Rcon (Suc n) = [rcon, 0, 0, 0]" by (simp add: Rcon_def rc)
  have sr: "SubWord (RotWord x) = [sub (x ! 1), sub (x ! 2), sub (x ! 3), sub (x ! 0)]" for x
    by (simp add: SubWord_def RotWord_def)
  have m: "(4 * n + 4) mod 4 = 0" "(4 * n + 4) div 4 = Suc n" by simp_all
  have w0: "?w (4 * Suc n) = xor_word (?w (4 * n)) (xor_word (SubWord (RotWord (?w (4 * n + 3)))) (Rcon (Suc n)))"
    by (subst KeyExpansion.simps) (simp add: m add.commute)
  have c0: "q ! r = ?w (4 * Suc n) ! r" if "r < 4" for r
  proof -
    have "?w (4 * n + 3) ! j = p ! (j + 12)" if "j < 4" for j using pw [of j 3] that by simp
    moreover have "?w (4 * n) ! r = p ! r" using pw [of r 0] that by simp
    moreover have "r = 0 \<or> r = 1 \<or> r = 2 \<or> r = 3" using that by auto
    ultimately show ?thesis unfolding w0 using q(2) [OF that] that k
      by (auto simp: nth_xor_word sr Rc k0_def xor.commute xor.left_commute xor.assoc xor_word_def)
  qed
  have cs: "q ! (r + 4 * c) = ?w (4 * Suc n + c) ! r" if "r < 4" "c < 4" for r c
    using that(2)
  proof (induction c)
    case 0
    then show ?case using c0 [OF that(1)] by simp
  next
    case (Suc c)
    have "(4 * Suc n + Suc c) mod 4 = Suc c mod 4" by (rule mod_mult_self4)
    then have nz: "(4 * Suc n + Suc c) mod 4 \<noteq> 0" using Suc.prems by simp
    have e: "\<not> 4 * Suc n + Suc c < 4" "4 * Suc n + Suc c - 4 = 4 * n + Suc c"
      "4 * Suc n + Suc c - 1 = 4 * Suc n + c"
      by simp_all
    have "q ! (r + 4 * Suc c) = p ! (r + 4 * Suc c) XOR q ! (r + 4 * c)"
      using q(3) [of "r + 4 * Suc c"] that(1) Suc.prems by simp
    also have "\<dots> = ?w (4 * n + Suc c) ! r XOR ?w (4 * Suc n + c) ! r" using pw [OF that(1) Suc.prems] Suc by simp
    also have "\<dots> = ?w (4 * Suc n + Suc c) ! r"
      by (subst (3) KeyExpansion.simps) (simp only: nz e if_False Let_def nth_xor_word length_KeyExpansion that(1))
    finally show ?case .
  qed
  then show ?thesis using q(1) by (simp add: krep_def q_def)
qed

lemma set_key_loop_krep:
  assumes "length ks = 11" "\<forall>k \<in> set ks. length k = 16" "i + n = 11" "0 < i" "\<forall>j < i. krep key j (ks ! j)"
    "rcon = (galois_mul2 ^^ (i - 1)) 1"
  shows "\<forall>j < 11. krep key j (set_key_loop i n rcon ks ! j)"
  using assms
proof (induction n arbitrary: i rcon ks)
  case (Suc n)
  let ?k = "next_key (ks ! (i - 1)) rcon (ks ! i)"
  have i: "i < 11" "Suc (i - 1) = i" using Suc.prems by simp_all
  have "krep key (i - 1) (ks ! (i - 1))" "length (ks ! i) = 16" using Suc.prems i by simp_all
  from krep_next [OF this Suc.prems(6)] have k: "krep key i ?k" unfolding i(2) .
  have "\<forall>j < Suc i. krep key j (ks[i := ?k] ! j)" using k Suc.prems i by (auto simp: less_Suc_eq)
  moreover have "\<forall>k \<in> set (ks[i := ?k]). length k = 16"
    using Suc.prems(2) k set_update_subset_insert [of ks i ?k] by (auto simp: krep_def)
  moreover have "galois_mul2 rcon = (galois_mul2 ^^ (Suc i - 1)) 1" using Suc.prems(6) i(2) by (cases i) simp_all
  ultimately show ?case using Suc.IH [of "ks[i := ?k]" "Suc i" "galois_mul2 rcon"] Suc.prems(1,3) by simp
qed simp

lemma mrep_rounds:
  assumes "mrep s m" "\<forall>j < 11. krep key j (ks ! j)"
  shows "mrep (encrypt_rounds 1 9 ks s) (fold (\<lambda>n m. AddRoundKey (KeyExpansion key) n (MixColumns (ShiftRows (SubBytes m)))) [1..<10] m)"
proof -
  let ?w = "KeyExpansion key"
  have step: "mrep (encrypt_rounds r n ks s) (fold (\<lambda>n m. AddRoundKey ?w n (MixColumns (ShiftRows (SubBytes m)))) [r..<r + n] m)"
    if "mrep s m" "r + n \<le> 10" for r n s m
    using that
  proof (induction n arbitrary: r s m)
    case (Suc n)
    let ?s = "add_round_key 0 16 (ks ! r) (fold mix_column [0..<4] (shift_row (byte_sub 0 16 s)))"
    have "mrep ?s (AddRoundKey ?w r (MixColumns (ShiftRows (SubBytes m))))"
      using assms(2) Suc.prems by (intro mrep_add_round_key mrep_mix_columns mrep_shift_row mrep_byte_sub) (auto simp: krep_def)
    from Suc.IH [OF this, of "Suc r"] Suc.prems(2)
    have "mrep (encrypt_rounds (Suc r) n ks ?s) (fold (\<lambda>n m. AddRoundKey ?w n (MixColumns (ShiftRows (SubBytes m))))
        [Suc r..<Suc r + n] (AddRoundKey ?w r (MixColumns (ShiftRows (SubBytes m)))))" by simp
    moreover have "[r..<r + Suc n] = r # [Suc r..<Suc r + n]" by (simp add: upt_conv_Cons del: upt_Suc)
    moreover have "encrypt_rounds r (Suc n) ks s = encrypt_rounds (Suc r) n ks ?s"
      using Suc.prems(2) by (simp add: Let_def del: upt_Suc)
    ultimately show ?case by (simp only: fold_Cons comp_apply)
  qed simp
  show ?thesis using step [OF assms(1), of 1 9] by simp
qed

lemma encrypt_rounds_add: "encrypt_rounds r (n + n') ks s = encrypt_rounds (r + n) n' ks (encrypt_rounds r n ks s)"
  by (induction n arbitrary: r s) (simp_all add: Let_def)

lemma sub_inverse: "\<exists>i. sub x = affine i \<and> (if x = 0 then i = 0 else gmul x i = 1)"
  using sbox_ok_sub [of x] unfolding sbox_ok_def Let_def by (intro exI [of _ "unaffine (sub x)"]) simp

lemma mrep_bytes:
  assumes "mrep s m"
  shows "map (\<lambda>i. m (i mod 4) (i div 4)) [0..<16] = s"
proof (rule nth_equalityI)
  have h: "length s = 16" "\<And>r c. r < 4 \<Longrightarrow> c < 4 \<Longrightarrow> s ! (r + 4 * c) = m r c" using assms by (simp_all add: mrep_def)
  show "length (map (\<lambda>i. m (i mod 4) (i div 4)) [0..<16]) = length s" using h(1) by simp
  fix i assume "i < length (map (\<lambda>i. m (i mod 4) (i div 4)) [0..<16])"
  then have i: "i < 16" by simp
  then have "i mod 4 < 4" "i div 4 < 4" by linarith+
  from h(2) [OF this] have "s ! i = m (i mod 4) (i div 4)" by simp
  then show "map (\<lambda>i. m (i mod 4) (i div 4)) [0..<16] ! i = s ! i" using i by simp
qed

lemma encrypt_is_cipher:
  assumes "length key = 16" "length block = 16" "length round_keys = 11" "\<forall>k \<in> set round_keys. length k = 16"
  shows "encrypt (set_key key round_keys) block = Cipher (KeyExpansion key) block"
proof -
  let ?w = "KeyExpansion key" and ?ks = "set_key key round_keys"
  have ks: "\<forall>j < 11. krep key j (?ks ! j)"
    unfolding set_key_def
  proof (rule set_key_loop_krep)
    show "\<forall>k \<in> set (round_keys[0 := key]). length k = 16"
      using assms set_update_subset_insert [of round_keys 0 key] by auto
    show "\<forall>j < 1. krep key j (round_keys[0 := key] ! j)" using assms krep_0 by simp
  qed (use assms in simp_all)
  have w: "length (?ks ! n) = 16" "\<And>r c. r < 4 \<Longrightarrow> c < 4 \<Longrightarrow> ?ks ! n ! (r + 4 * c) = ?w (4 * n + c) ! r" if "n < 11" for n
    using ks that by (simp_all add: krep_def)
  have "mrep block (\<lambda>r c. block ! (r + 4 * c))" using assms(2) by (simp add: mrep_def)
  then have "mrep (add_round_key 0 16 (?ks ! 0) block) (AddRoundKey ?w 0 (\<lambda>r c. block ! (r + 4 * c)))"
    using w [of 0] by (intro mrep_add_round_key) simp_all
  note r9 = mrep_rounds [OF this ks]
  let ?s9 = "encrypt_rounds 1 9 ?ks (add_round_key 0 16 (?ks ! 0) block)"
  let ?m9 = "fold (\<lambda>n m. AddRoundKey ?w n (MixColumns (ShiftRows (SubBytes m)))) [1..<10] (AddRoundKey ?w 0 (\<lambda>r c. block ! (r + 4 * c)))"
  let ?m = "AddRoundKey ?w 10 (ShiftRows (SubBytes ?m9))"
  have "encrypt ?ks block = add_round_key 0 16 (?ks ! 10) (shift_row (byte_sub 0 16 ?s9))"
    using encrypt_rounds_add [of 1 9 1 ?ks "add_round_key 0 16 (?ks ! 0) block"] by (simp add: encrypt_def Let_def)
  moreover have "mrep (add_round_key 0 16 (?ks ! 10) (shift_row (byte_sub 0 16 ?s9))) ?m"
    using w [of 10] r9 by (intro mrep_add_round_key mrep_shift_row mrep_byte_sub) simp_all
  ultimately have e: "mrep (encrypt ?ks block) ?m" by simp
  have "Cipher ?w block = map (\<lambda>i. ?m (i mod 4) (i div 4)) [0..<16]" by (simp only: Cipher_def Let_def)
  also have "\<dots> = encrypt ?ks block" by (rule mrep_bytes [OF e])
  finally show ?thesis ..
qed


text \<open>
  C23. The table \<open>sbox\<close> is the multiplicative inverse in GF(2^8) followed by the affine map, and for every key and
  every block, encryption under the key schedule computed by \<open>set_key\<close> (whatever keys were set
  before) is the cipher of FIPS 197 under its key expansion.
\<close>

theorem aes_128_is_fips_197:
  assumes "length key = 16" and "length block = 16" and "length round_keys = 11" and "\<forall>k \<in> set round_keys. length k = 16"
  shows "(\<forall>x. \<exists>i. sub x = affine i \<and> (if x = 0 then i = 0 else gmul x i = 1)) \<and>
    encrypt (set_key key round_keys) block = Cipher (KeyExpansion key) block"
  using sub_inverse encrypt_is_cipher [OF assms] by blast

text \<open>The example of FIPS 197, appendix C.1.\<close>

definition fips_key :: "u8 list" where
  "fips_key = [0x00, 0x01, 0x02, 0x03, 0x04, 0x05, 0x06, 0x07, 0x08, 0x09, 0x0a, 0x0b, 0x0c, 0x0d, 0x0e, 0x0f]"

definition fips_block :: "u8 list" where
  "fips_block = [0x00, 0x11, 0x22, 0x33, 0x44, 0x55, 0x66, 0x77, 0x88, 0x99, 0xaa, 0xbb, 0xcc, 0xdd, 0xee, 0xff]"

definition no_keys :: "u8 list list" where
  "no_keys = replicate 11 (replicate 16 0)"

lemma fips_example: "encrypt (set_key fips_key no_keys) fips_block =
    [0x69, 0xc4, 0xe0, 0xd8, 0x6a, 0x7b, 0x04, 0x30, 0xd8, 0xcd, 0xb7, 0x80, 0x70, 0xb4, 0xc5, 0x5a]"
  by code_simp

theorem aes_128_is_fips_197_witness:
  "Cipher (KeyExpansion fips_key) fips_block =
    [0x69, 0xc4, 0xe0, 0xd8, 0x6a, 0x7b, 0x04, 0x30, 0xd8, 0xcd, 0xb7, 0x80, 0x70, 0xb4, 0xc5, 0x5a]"
proof -
  have "length fips_key = 16" "length fips_block = 16" "length no_keys = 11" "\<forall>k \<in> set no_keys. length k = 16"
    by (simp_all add: fips_key_def fips_block_def no_keys_def)
  from aes_128_is_fips_197 [OF this] show ?thesis unfolding fips_example by simp
qed

end
