(* ===== verification/Timer.thy ===== *)
theory Timer
  imports Prelude
begin

text \<open>
  The passive timers of \<open>core/sys/timer.c\<close> (16-bit ticks) and
  \<open>core/sys/stimer.c\<close> (32-bit seconds). The value of \<open>clock_time()\<close> or
  \<open>clock_seconds()\<close>, a hardware counter that wraps, is the argument \<open>now\<close>.
\<close>

record timer =
  t_start :: clock_time
  t_interval :: clock_time

definition timer_set :: "clock_time \<Rightarrow> clock_time \<Rightarrow> timer \<Rightarrow> timer" where
  "timer_set now interval t = t\<lparr>t_interval := interval, t_start := now\<rparr>"

definition timer_reset :: "timer \<Rightarrow> timer" where
  "timer_reset t = t\<lparr>t_start := t_start t + t_interval t\<rparr>"

definition timer_restart :: "clock_time \<Rightarrow> timer \<Rightarrow> timer" where
  "timer_restart now t = t\<lparr>t_start := now\<rparr>"

definition timer_expired :: "clock_time \<Rightarrow> timer \<Rightarrow> bool" where
  "timer_expired now t = (let diff = (now - t_start t) + 1 in t_interval t < diff)"

definition timer_remaining :: "clock_time \<Rightarrow> timer \<Rightarrow> clock_time" where
  "timer_remaining now t = t_start t + t_interval t - now"

record stimer =
  s_start :: u32
  s_interval :: u32

definition SCLOCK_GEQ :: "u32 \<Rightarrow> u32 \<Rightarrow> bool" where
  "SCLOCK_GEQ a b \<longleftrightarrow> a - b < drop_bit 1 (NOT 0)"

definition stimer_set :: "u32 \<Rightarrow> u32 \<Rightarrow> stimer \<Rightarrow> stimer" where
  "stimer_set now interval t = t\<lparr>s_interval := interval, s_start := now\<rparr>"

definition stimer_reset :: "stimer \<Rightarrow> stimer" where
  "stimer_reset t = t\<lparr>s_start := s_start t + s_interval t\<rparr>"

definition stimer_restart :: "u32 \<Rightarrow> stimer \<Rightarrow> stimer" where
  "stimer_restart now t = t\<lparr>s_start := now\<rparr>"

definition stimer_expired :: "u32 \<Rightarrow> stimer \<Rightarrow> bool" where
  "stimer_expired now t = SCLOCK_GEQ now (s_start t + s_interval t)"

definition stimer_remaining :: "u32 \<Rightarrow> stimer \<Rightarrow> u32" where
  "stimer_remaining now t = s_start t + s_interval t - now"

definition stimer_elapsed :: "u32 \<Rightarrow> stimer \<Rightarrow> u32" where
  "stimer_elapsed now t = now - s_start t"

section \<open>Expiry in elapsed time\<close>

text \<open>Whatever the counter stands at, only the ticks since the start count.\<close>

lemma timer_expired_iff:
  "timer_expired now t \<longleftrightarrow> unat (t_interval t) \<le> unat (now - t_start t) \<and> unat (now - t_start t) \<noteq> 65535"
proof -
  let ?e = "unat (now - t_start t)"
  have "unat ((now - t_start t) + 1) = (if ?e = 65535 then 0 else Suc ?e)"
    using unat_less_u16 [of "now - t_start t"] by (simp add: unat_word_ariths del: unat_sub_if')
  then show ?thesis by (auto simp: timer_expired_def Let_def word_less_nat_alt)
qed

lemma timer_resets: "(timer_reset ^^ k) t = t\<lparr>t_start := t_start t + of_nat k * t_interval t\<rparr>"
  by (induction k) (simp_all add: timer_reset_def distrib_right add.assoc add.commute)

lemma max_signed_u32: "unat (drop_bit 1 (NOT 0) :: u32) = 2147483647"
  by (simp add: drop_bit_eq_div)

lemma stimer_expired_iff:
  "stimer_expired now t \<longleftrightarrow> unat (now - (s_start t + s_interval t)) < 2147483647"
  using max_signed_u32 by (simp add: stimer_expired_def SCLOCK_GEQ_def word_less_nat_alt)

lemma stimer_resets: "(stimer_reset ^^ k) t = t\<lparr>s_start := s_start t + of_nat k * s_interval t\<rparr>"
  by (induction k) (simp_all add: stimer_reset_def distrib_right add.assoc add.commute)

text \<open>
  C12. A timer that is set and then reset \<open>k\<close> times does not drift: looked at
  \<open>e\<close> ticks after \<open>k\<close> full intervals (fewer than 65535, counter wrap-around included)
  it has expired exactly when \<open>e\<close> reaches the interval, and before that
  \<open>timer_remaining\<close> is what is missing. A second timer set in the same way has expired
  exactly from its interval on, for the following \<open>2^31 - 2\<close> seconds.
\<close>

theorem timers_do_not_drift:
  assumes "e < 65535" and "es < 2 ^ 32" and "unat ivs + 2147483647 \<le> 2 ^ 32"
  shows "(timer_expired (now + of_nat k * iv + of_nat e) ((timer_reset ^^ k) (timer_set now iv t)) \<longleftrightarrow> unat iv \<le> e) \<and>
    (e < unat iv \<longrightarrow> unat (timer_remaining (now + of_nat k * iv + of_nat e) ((timer_reset ^^ k) (timer_set now iv t))) = unat iv - e) \<and>
    (stimer_expired (nows + of_nat k * ivs + of_nat es) ((stimer_reset ^^ k) (stimer_set nows ivs ts)) \<longleftrightarrow>
      unat ivs \<le> es \<and> es < unat ivs + 2147483647)"
proof (intro conjI)
  let ?t = "(timer_reset ^^ k) (timer_set now iv t)" and ?n = "now + of_nat k * iv + of_nat e"
  have t: "t_start ?t = now + of_nat k * iv" "t_interval ?t = iv" by (simp_all add: timer_resets timer_set_def)
  have ue: "unat (of_nat e :: u16) = e" using assms(1) by (simp add: unat_of_nat)
  have "?n - t_start ?t = of_nat e" by (simp add: t)
  then show "timer_expired ?n ?t \<longleftrightarrow> unat iv \<le> e"
    using assms(1) ue by (simp add: timer_expired_iff t)
  have "timer_remaining ?n ?t = iv - of_nat e" by (simp add: timer_remaining_def t)
  then show "e < unat iv \<longrightarrow> unat (timer_remaining ?n ?t) = unat iv - e"
    using ue by (auto simp: unat_sub_if')
  let ?s = "(stimer_reset ^^ k) (stimer_set nows ivs ts)" and ?m = "nows + of_nat k * ivs + of_nat es"
  have us: "unat (of_nat es :: u32) = es" using assms(2) by (simp add: unat_of_nat)
  have "?m - (s_start ?s + s_interval ?s) = of_nat es - ivs" by (simp add: stimer_resets stimer_set_def)
  then have "stimer_expired ?m ?s \<longleftrightarrow> unat (of_nat es - ivs) < 2147483647" by (simp only: stimer_expired_iff)
  then show "stimer_expired ?m ?s \<longleftrightarrow> unat ivs \<le> es \<and> es < unat ivs + 2147483647"
    using us assms(2,3) by (auto simp: unat_sub_if')
qed

theorem timers_do_not_drift_witness:
  "timer_expired (65000 + of_nat 3 * 400 + of_nat 400) ((timer_reset ^^ 3) (timer_set 65000 400 \<lparr>t_start = 0, t_interval = 0\<rparr>)) \<and>
   \<not> timer_expired (65000 + of_nat 3 * 400 + of_nat 399) ((timer_reset ^^ 3) (timer_set 65000 400 \<lparr>t_start = 0, t_interval = 0\<rparr>))"
proof -
  have u: "unat (400 :: clock_time) = 400" "unat (7 :: u32) + 2147483647 \<le> 2 ^ 32" by simp_all
  show ?thesis
    using timers_do_not_drift [of 400 400 7 65000 3 400 "\<lparr>t_start = 0, t_interval = 0\<rparr>" 0 "\<lparr>s_start = 0, s_interval = 0\<rparr>"]
      timers_do_not_drift [of 399 400 7 65000 3 400 "\<lparr>t_start = 0, t_interval = 0\<rparr>" 0 "\<lparr>s_start = 0, s_interval = 0\<rparr>"] u
    by (simp del: of_nat_numeral)
qed

end
