(* ===== verification/Process.thy ===== *)
theory Process
  imports LinkedList Fifo
begin

text \<open>
  The process kernel of \<open>core/sys/process.c\<close>: the list of processes, the circular
  event queue, synchronous calls of process threads, poll requests and process exit. The
  threads are the application's: a thread is a function from its continuation point, the event and the
  data to a tree of the kernel calls it makes (\<open>act\<close>), whose next call may depend on the
  result of the previous one, on the kernel state and on the program's own
  variables (\<open>k_user\<close>). Threads call back into the kernel to any depth, so the
  interpreter takes fuel: \<open>None\<close> is a computation that did not end within it.
\<close>

section \<open>State\<close>

abbreviation (input) PROCESS_CONF_NUMEVENTS :: nat where "PROCESS_CONF_NUMEVENTS \<equiv> 32"
abbreviation (input) PROCESS_EVENT_INIT :: u8 where "PROCESS_EVENT_INIT \<equiv> 0x81"
abbreviation (input) PROCESS_EVENT_POLL :: u8 where "PROCESS_EVENT_POLL \<equiv> 0x82"
abbreviation (input) PROCESS_EVENT_EXIT :: u8 where "PROCESS_EVENT_EXIT \<equiv> 0x83"
abbreviation (input) PROCESS_EVENT_EXITED :: u8 where "PROCESS_EVENT_EXITED \<equiv> 0x87"
abbreviation (input) PROCESS_EVENT_TIMER :: u8 where "PROCESS_EVENT_TIMER \<equiv> 0x88"
abbreviation (input) PROCESS_EVENT_MAX :: u8 where "PROCESS_EVENT_MAX \<equiv> 0x8a"
abbreviation (input) PROCESS_STATE_NONE :: u8 where "PROCESS_STATE_NONE \<equiv> 0"
abbreviation (input) PROCESS_STATE_RUNNING :: u8 where "PROCESS_STATE_RUNNING \<equiv> 1"
abbreviation (input) PROCESS_STATE_CALLED :: u8 where "PROCESS_STATE_CALLED \<equiv> 2"

record event_data =
  ed_ev :: u8
  ed_data :: ptr
  ed_p :: ptr

record 'u kernel =
  process_list :: ptr
  process_current :: ptr
  lastevent :: u8
  nevents :: u8
  fevent :: u8
  events :: "event_data list"
  poll_requested :: bool
  p_next :: "ptr \<Rightarrow> ptr"
  p_state :: "ptr \<Rightarrow> u8"
  p_needspoll :: "ptr \<Rightarrow> bool"
  p_pt :: "ptr \<Rightarrow> u16"
  k_user :: 'u

section \<open>Events and polls\<close>

definition process_alloc_event :: "'u kernel \<Rightarrow> u8 \<times> 'u kernel" where
  "process_alloc_event k = (lastevent k, k\<lparr>lastevent := lastevent k + 1\<rparr>)"

definition process_init :: "'u kernel \<Rightarrow> 'u kernel" where
  "process_init k = k\<lparr>lastevent := PROCESS_EVENT_MAX, nevents := 0, fevent := 0,
     process_current := NULL, process_list := NULL\<rparr>"

definition process_is_running :: "ptr \<Rightarrow> 'u kernel \<Rightarrow> bool" where
  "process_is_running p k \<longleftrightarrow> p_state k p \<noteq> PROCESS_STATE_NONE"

text \<open>The result is True for \<open>PROCESS_ERR_OK\<close> and False for \<open>PROCESS_ERR_FULL\<close>.\<close>

definition process_post :: "ptr \<Rightarrow> u8 \<Rightarrow> ptr \<Rightarrow> 'u kernel \<Rightarrow> bool \<times> 'u kernel" where
  "process_post p ev d k =
     (if nevents k = of_nat PROCESS_CONF_NUMEVENTS then (False, k)
      else (True, k\<lparr>events := (events k)[unat ((fevent k + nevents k) mod of_nat PROCESS_CONF_NUMEVENTS) :=
                \<lparr>ed_ev = ev, ed_data = d, ed_p = p\<rparr>],
              nevents := nevents k + 1\<rparr>))"

definition process_poll :: "ptr \<Rightarrow> 'u kernel \<Rightarrow> 'u kernel" where
  "process_poll p k =
     (if p \<noteq> NULL then
        (if p_state k p = PROCESS_STATE_RUNNING \<or> p_state k p = PROCESS_STATE_CALLED
         then k\<lparr>p_needspoll := (p_needspoll k)(p := True), poll_requested := True\<rparr> else k)
      else k)"

definition process_nevents :: "'u kernel \<Rightarrow> u8" where
  "process_nevents k = nevents k + (if poll_requested k then 1 else 0)"

text \<open>Taking the first event of the queue, the first half of \<open>do_event\<close>.\<close>

definition take_event :: "'u kernel \<Rightarrow> event_data option \<times> 'u kernel" where
  "take_event k =
     (if nevents k > 0
      then (Some (events k ! unat (fevent k)),
            k\<lparr>fevent := (fevent k + 1) mod of_nat PROCESS_CONF_NUMEVENTS, nevents := nevents k - 1\<rparr>)
      else (None, k))"

section \<open>Threads and the calls they make\<close>

datatype 'u act =
    Finish bool
  | Local "'u \<Rightarrow> 'u" "'u act"
  | Look "'u kernel \<Rightarrow> 'u act"
  | Yield_at u16 "'u act"
  | Post ptr u8 ptr "bool \<Rightarrow> 'u act"
  | Poll ptr "'u act"
  | Post_synch ptr u8 ptr "'u act"
  | Start ptr ptr "'u act"
  | Exit ptr "'u act"

text \<open>
  \<open>Finish True\<close> is a return of \<open>PT_EXITED\<close> or \<open>PT_ENDED\<close>, \<open>Finish False\<close> of
  \<open>PT_YIELDED\<close> or \<open>PT_WAITING\<close>; \<open>Yield_at\<close> sets the continuation point.
\<close>

type_synonym 'u threads = "ptr \<Rightarrow> (u16 \<Rightarrow> u8 \<Rightarrow> ptr \<Rightarrow> 'u act) option"

text \<open>
  The mutually recursive functions take the rest of the computation, \<open>run\<close>, as an
  argument: a request for one of them with one unit of fuel less.
\<close>

datatype 'u request =
    Call ptr u8 ptr
  | Exec ptr "'u act"
  | Synch ptr u8 ptr
  | Starting ptr ptr
  | Exiting ptr ptr
  | Exited_loop ptr ptr
  | Search ptr ptr
  | Unlink ptr ptr

type_synonym 'u machine_step = "'u kernel \<Rightarrow> (bool \<times> 'u kernel) option"
type_synonym 'u machine = "'u request \<Rightarrow> 'u machine_step"

definition call_process :: "'u threads \<Rightarrow> 'u machine \<Rightarrow> ptr \<Rightarrow> u8 \<Rightarrow> ptr \<Rightarrow> 'u machine_step" where
  "call_process thr run p ev d k =
     (case thr p of
        None \<Rightarrow> Some (True, k)
      | Some f \<Rightarrow>
          if p_state k p AND PROCESS_STATE_RUNNING \<noteq> 0 then do {
            (ended, k) \<leftarrow> run (Exec p (f (p_pt k p) ev d))
               (k\<lparr>process_current := p, p_state := (p_state k)(p := PROCESS_STATE_CALLED)\<rparr>);
            if ended \<or> ev = PROCESS_EVENT_EXIT then run (Exiting p p) k
            else Some (True, k\<lparr>p_state := (p_state k)(p := PROCESS_STATE_RUNNING)\<rparr>)
          }
          else Some (True, k))"

fun exec_act :: "'u machine \<Rightarrow> ptr \<Rightarrow> 'u act \<Rightarrow> 'u machine_step" where
  "exec_act run p (Finish b) k = Some (b, k)"
| "exec_act run p (Local f a) k = run (Exec p a) (k\<lparr>k_user := f (k_user k)\<rparr>)"
| "exec_act run p (Look g) k = run (Exec p (g k)) k"
| "exec_act run p (Yield_at lc a) k = run (Exec p a) (k\<lparr>p_pt := (p_pt k)(p := lc)\<rparr>)"
| "exec_act run p (Post q ev d c) k = (case process_post q ev d k of (ok, k) \<Rightarrow> run (Exec p (c ok)) k)"
| "exec_act run p (Poll q a) k = run (Exec p a) (process_poll q k)"
| "exec_act run p (Post_synch q ev d a) k = do { (_, k) \<leftarrow> run (Synch q ev d) k; run (Exec p a) k }"
| "exec_act run p (Start q d a) k = do { (_, k) \<leftarrow> run (Starting q d) k; run (Exec p a) k }"
| "exec_act run p (Exit q a) k = do { (_, k) \<leftarrow> run (Exiting q (process_current k)) k; run (Exec p a) k }"

definition process_post_synch :: "'u machine \<Rightarrow> ptr \<Rightarrow> u8 \<Rightarrow> ptr \<Rightarrow> 'u machine_step" where
  "process_post_synch run p ev d k =
     (let caller = process_current k
      in do { (_, k) \<leftarrow> run (Call p ev d) k; Some (True, k\<lparr>process_current := caller\<rparr>) })"

text \<open>The loop \<open>for(q = process_list; q != p && q != NULL; q = q->next)\<close>: is \<open>p\<close> found?\<close>

definition search_loop :: "'u machine \<Rightarrow> ptr \<Rightarrow> ptr \<Rightarrow> 'u machine_step" where
  "search_loop run p q k =
     (if q \<noteq> p \<and> q \<noteq> NULL then run (Search p (p_next k q)) k else Some (q = p, k))"

definition process_start :: "'u machine \<Rightarrow> ptr \<Rightarrow> ptr \<Rightarrow> 'u machine_step" where
  "process_start run p d k = do {
     (found, k) \<leftarrow> run (Search p (process_list k)) k;
     if found then Some (True, k)
     else run (Synch p PROCESS_EVENT_INIT d)
            (k\<lparr>p_next := (p_next k)(p := process_list k), process_list := p,
               p_state := (p_state k)(p := PROCESS_STATE_RUNNING), p_pt := (p_pt k)(p := 0)\<rparr>)
   }"

definition unlink_loop :: "'u machine \<Rightarrow> ptr \<Rightarrow> ptr \<Rightarrow> 'u machine_step" where
  "unlink_loop run p q k =
     (if q = NULL then Some (True, k)
      else if p_next k q = p then Some (True, k\<lparr>p_next := (p_next k)(q := p_next k p)\<rparr>)
      else run (Unlink p (p_next k q)) k)"

definition exited_loop :: "'u machine \<Rightarrow> ptr \<Rightarrow> ptr \<Rightarrow> 'u machine_step" where
  "exited_loop run p q k =
     (if q = NULL then Some (True, k)
      else do {
        (_, k) \<leftarrow> if p \<noteq> q then run (Call q PROCESS_EVENT_EXITED p) k else Some (True, k);
        run (Exited_loop p (p_next k q)) k
      })"

definition exit_process :: "'u threads \<Rightarrow> 'u machine \<Rightarrow> ptr \<Rightarrow> ptr \<Rightarrow> 'u machine_step" where
  "exit_process thr run p from k =
     (let old_current = process_current k
      in do {
        (found, k) \<leftarrow> run (Search p (process_list k)) k;
        if \<not> found \<or> p = NULL then Some (True, k)
        else do {
          (_, k) \<leftarrow> if process_is_running p k then do {
              (_, k) \<leftarrow> run (Exited_loop p (process_list k)) (k\<lparr>p_state := (p_state k)(p := PROCESS_STATE_NONE)\<rparr>);
              case thr p of
                None \<Rightarrow> Some (True, k)
              | Some f \<Rightarrow>
                  if p \<noteq> from
                  then run (Exec p (f (p_pt k p) PROCESS_EVENT_EXIT NULL)) (k\<lparr>process_current := p\<rparr>)
                  else Some (True, k)
            } else Some (True, k);
          (_, k) \<leftarrow> if p = process_list k
                    then Some (True, k\<lparr>process_list := p_next k (process_list k)\<rparr>)
                    else run (Unlink p (process_list k)) k;
          Some (True, k\<lparr>process_current := old_current\<rparr>)
        }
      })"

fun kernel_step :: "'u threads \<Rightarrow> 'u machine \<Rightarrow> 'u machine" where
  "kernel_step thr run (Call p ev d) k = call_process thr run p ev d k"
| "kernel_step thr run (Exec p a) k = exec_act run p a k"
| "kernel_step thr run (Synch p ev d) k = process_post_synch run p ev d k"
| "kernel_step thr run (Starting p d) k = process_start run p d k"
| "kernel_step thr run (Exiting p from) k = exit_process thr run p from k"
| "kernel_step thr run (Exited_loop p q) k = exited_loop run p q k"
| "kernel_step thr run (Search p q) k = search_loop run p q k"
| "kernel_step thr run (Unlink p q) k = unlink_loop run p q k"

primrec run :: "'u threads \<Rightarrow> nat \<Rightarrow> 'u machine" where
  "run thr 0 = (\<lambda>r k. None)"
| "run thr (Suc n) = kernel_step thr (run thr n)"

definition process_exit :: "'u threads \<Rightarrow> nat \<Rightarrow> ptr \<Rightarrow> 'u kernel \<Rightarrow> (bool \<times> 'u kernel) option" where
  "process_exit thr n p k = run thr n (Exiting p (process_current k)) k"

section \<open>The scheduler\<close>

text \<open>The loops over the process list, with their own count of iterations.\<close>

fun poll_loop :: "'u threads \<Rightarrow> nat \<Rightarrow> nat \<Rightarrow> ptr \<Rightarrow> 'u kernel \<Rightarrow> 'u kernel option" where
  "poll_loop thr n 0 p k = None"
| "poll_loop thr n (Suc m) p k =
     (if p = NULL then Some k
      else do {
        (_, k) \<leftarrow> if p_needspoll k p
           then run thr n (Call p PROCESS_EVENT_POLL NULL)
                  (k\<lparr>p_state := (p_state k)(p := PROCESS_STATE_RUNNING), p_needspoll := (p_needspoll k)(p := False)\<rparr>)
           else Some (True, k);
        poll_loop thr n m (p_next k p) k
      })"

definition do_poll :: "'u threads \<Rightarrow> nat \<Rightarrow> 'u kernel \<Rightarrow> 'u kernel option" where
  "do_poll thr n k = poll_loop thr n n (process_list k) (k\<lparr>poll_requested := False\<rparr>)"

fun broadcast_loop :: "'u threads \<Rightarrow> nat \<Rightarrow> nat \<Rightarrow> u8 \<Rightarrow> ptr \<Rightarrow> ptr \<Rightarrow> 'u kernel \<Rightarrow> 'u kernel option" where
  "broadcast_loop thr n 0 ev d p k = None"
| "broadcast_loop thr n (Suc m) ev d p k =
     (if p = NULL then Some k
      else do {
        k \<leftarrow> if poll_requested k then do_poll thr n k else Some k;
        (_, k) \<leftarrow> run thr n (Call p ev d) k;
        broadcast_loop thr n m ev d (p_next k p) k
      })"

definition do_event :: "'u threads \<Rightarrow> nat \<Rightarrow> 'u kernel \<Rightarrow> 'u kernel option" where
  "do_event thr n k =
     (case take_event k of
        (None, k) \<Rightarrow> Some k
      | (Some e, k) \<Rightarrow>
          if ed_p e = NULL then broadcast_loop thr n n (ed_ev e) (ed_data e) (process_list k) k
          else do {
            (_, k) \<leftarrow> run thr n (Call (ed_p e) (ed_ev e) (ed_data e))
              (if ed_ev e = PROCESS_EVENT_INIT
               then k\<lparr>p_state := (p_state k)(ed_p e := PROCESS_STATE_RUNNING)\<rparr> else k);
            Some k
          })"

definition process_run :: "'u threads \<Rightarrow> nat \<Rightarrow> 'u kernel \<Rightarrow> (u8 \<times> 'u kernel) option" where
  "process_run thr n k = do {
     k \<leftarrow> if poll_requested k then do_poll thr n k else Some k;
     k \<leftarrow> do_event thr n k;
     Some (process_nevents k, k)
   }"

section \<open>The process list stays a list\<close>

definition klist :: "'u kernel \<Rightarrow> ptr list \<Rightarrow> bool" where
  "klist k xs \<longleftrightarrow> lchain (p_next k) (process_list k) xs"

definition kinv :: "'u kernel \<Rightarrow> bool" where
  "kinv k \<longleftrightarrow> (\<exists>xs. klist k xs)"

lemma klist_unique: "klist k xs \<Longrightarrow> klist k ys \<Longrightarrow> xs = ys"
  unfolding klist_def by (rule lchain_unique)

lemma klist_upd [simp]:
  "klist (k\<lparr>process_current := c\<rparr>) xs = klist k xs" "klist (k\<lparr>p_state := s\<rparr>) xs = klist k xs"
  "klist (k\<lparr>k_user := u\<rparr>) xs = klist k xs" "klist (k\<lparr>p_pt := t\<rparr>) xs = klist k xs"
  "klist (k\<lparr>p_needspoll := np\<rparr>) xs = klist k xs" "klist (k\<lparr>poll_requested := pr\<rparr>) xs = klist k xs"
  "klist (k\<lparr>events := es\<rparr>) xs = klist k xs" "klist (k\<lparr>nevents := m\<rparr>) xs = klist k xs"
  "klist (k\<lparr>fevent := m\<rparr>) xs = klist k xs"
  by (simp_all add: klist_def)

lemma kinv_upd [simp]:
  "kinv (k\<lparr>process_current := c\<rparr>) = kinv k" "kinv (k\<lparr>p_state := s\<rparr>) = kinv k"
  "kinv (k\<lparr>k_user := u\<rparr>) = kinv k" "kinv (k\<lparr>p_pt := t\<rparr>) = kinv k"
  "kinv (k\<lparr>p_needspoll := np\<rparr>) = kinv k" "kinv (k\<lparr>poll_requested := pr\<rparr>) = kinv k"
  "kinv (k\<lparr>events := es\<rparr>) = kinv k" "kinv (k\<lparr>nevents := m\<rparr>) = kinv k" "kinv (k\<lparr>fevent := m\<rparr>) = kinv k"
  by (simp_all add: kinv_def)

lemma klist_post: "process_post p ev d k = (ok, k') \<Longrightarrow> klist k' xs = klist k xs"
  by (auto simp: process_post_def split: if_splits)

lemma klist_poll [simp]: "klist (process_poll p k) xs = klist k xs"
  by (simp add: process_poll_def)

lemma klist_push:
  assumes "klist k xs" "p \<notin> set xs" "p \<noteq> NULL"
  shows "klist (k\<lparr>p_next := (p_next k)(p := process_list k), process_list := p, p_state := s, p_pt := t\<rparr>) (p # xs)"
  using assms by (simp add: klist_def lseg_upd)

lemma klist_unlink_next:
  assumes "klist k xs" "p_next k q = p" "p \<noteq> NULL"
  shows "klist (k\<lparr>p_next := (p_next k)(q := p_next k p)\<rparr>) (if q \<in> set xs then remove1 p xs else xs)"
proof (cases "q \<in> set xs")
  case False
  then show ?thesis using assms(1) by (simp add: klist_def lseg_upd)
next
  case True
  then obtain ys zs where xs: "xs = ys @ q # zs" by (meson split_list)
  have d: "distinct xs" using assms(1) lchain_distinct unfolding klist_def by blast
  obtain r where r: "lseg (p_next k) (process_list k) ys r" "r = q" "q \<noteq> NULL" "lchain (p_next k) p zs"
    using assms(1,2) by (auto simp: klist_def xs chain_simps)
  then obtain ws where zs: "zs = p # ws" "lchain (p_next k) (p_next k p) ws"
    using assms(3) by (cases zs) auto
  have "q \<notin> set ys" "q \<notin> set ws" "p \<noteq> q" "p \<notin> set ys" using d by (auto simp: xs zs(1))
  then have "lchain ((p_next k)(q := p_next k p)) (process_list k) (ys @ q # ws)"
    using r zs(2) by (auto simp: chain_simps)
  moreover have "remove1 p xs = ys @ q # ws" using \<open>p \<notin> set ys\<close> \<open>p \<noteq> q\<close> by (simp add: xs zs(1) remove1_append)
  ultimately show ?thesis using True by (simp add: klist_def)
qed

lemma klist_unlink_head:
  assumes "klist k xs" "p = process_list k" "p \<noteq> NULL"
  shows "klist (k\<lparr>process_list := p_next k p\<rparr>) (remove1 p xs)"
  using assms by (auto simp: klist_def lchain_nonnull)

text \<open>Looking a process up and unlinking it.\<close>

lemma run_Search:
  "run thr n (Search p q) k = Some (b, k') \<Longrightarrow> lchain (p_next k) q xs \<Longrightarrow>
     k' = k \<and> (b \<longleftrightarrow> p \<in> set xs \<or> p = NULL)"
proof (induction n arbitrary: q xs)
  case (Suc n)
  show ?case
  proof (cases "q = NULL")
    case True
    with Suc.prems show ?thesis by (auto simp: search_loop_def)
  next
    case False
    then obtain ys where xs: "xs = q # ys" "lchain (p_next k) (p_next k q) ys"
      using Suc.prems(2) by (auto simp: lchain_nonnull)
    show ?thesis
    proof (cases "q = p")
      case True
      with Suc.prems xs show ?thesis by (auto simp: search_loop_def)
    next
      case qp: False
      have "run thr n (Search p (p_next k q)) k = Some (b, k')"
        using Suc.prems(1) False qp by (simp add: search_loop_def)
      from Suc.IH [OF this xs(2)] show ?thesis using xs(1) qp by auto
    qed
  qed
qed simp

lemma run_Unlink:
  "run thr n (Unlink p q) k = Some (b, k') \<Longrightarrow> klist k (ys @ zs) \<Longrightarrow> lchain (p_next k) q zs \<Longrightarrow> p \<noteq> NULL \<Longrightarrow>
     p \<notin> set ys \<Longrightarrow> (zs \<noteq> [] \<Longrightarrow> hd zs \<noteq> p) \<Longrightarrow> klist k' (remove1 p (ys @ zs))"
proof (induction n arbitrary: q ys zs)
  case (Suc n)
  show ?case
  proof (cases zs)
    case Nil
    with Suc.prems show ?thesis by (auto simp: unlink_loop_def remove1_not_in)
  next
    case (Cons z zs')
    then have z: "q = z" "q \<noteq> NULL" "lchain (p_next k) (p_next k q) zs'" using Suc.prems(3) by auto
    have zp: "z \<noteq> p" using Suc.prems(6) Cons by simp
    show ?thesis
    proof (cases "p_next k q = p")
      case True
      with Suc.prems(1) z have "k' = k\<lparr>p_next := (p_next k)(q := p_next k p)\<rparr>" by (simp add: unlink_loop_def)
      then show ?thesis using klist_unlink_next [OF Suc.prems(2) True Suc.prems(4)] z(1) Cons by simp
    next
      case False
      then have "run thr n (Unlink p (p_next k q)) k = Some (b, k')"
        using Suc.prems(1) z by (simp add: unlink_loop_def)
      moreover have "hd zs' \<noteq> p" if "zs' \<noteq> []" using z(3) False that by (cases zs') auto
      ultimately have "klist k' (remove1 p ((ys @ [z]) @ zs'))"
        using Suc.IH [of "p_next k q" "ys @ [z]" zs'] Suc.prems(2,4,5) z(3) zp Cons by simp
      then show ?thesis using Cons by simp
    qed
  qed
qed simp

lemma exit_unlink:
  assumes "(if p = process_list k then Some (True, k\<lparr>process_list := p_next k (process_list k)\<rparr>)
            else run thr n (Unlink p (process_list k)) k) = Some (b, k')"
    and "klist k xs" "p \<noteq> NULL"
  shows "klist k' (remove1 p xs)"
proof (cases "p = process_list k")
  case True
  then show ?thesis using klist_unlink_head [OF assms(2) True assms(3)] assms(1) by auto
next
  case False
  have "hd xs \<noteq> p" if "xs \<noteq> []" using assms(2) False that by (cases xs) (auto simp: klist_def)
  then show ?thesis
    using run_Unlink [of thr n p "process_list k" k b k' "[]" xs] assms False by (auto simp: klist_def)
qed

lemma exit_process_kinv:
  assumes step: "exit_process thr (run thr n) p from k = Some (b, k')" and inv: "kinv k"
    and IH: "\<And>r k b k'. run thr n r k = Some (b, k') \<Longrightarrow> \<forall>p q. r \<noteq> Unlink p q \<Longrightarrow> kinv k \<Longrightarrow> kinv k'"
  shows "\<exists>xs. klist k' xs \<and> p \<notin> set xs"
proof -
  obtain xs where xs: "klist k xs" using inv by (auto simp: kinv_def)
  obtain found k0 where s: "run thr n (Search p (process_list k)) k = Some (found, k0)"
    using step by (auto simp: exit_process_def Let_def bind_eq_Some_conv)
  have k0: "k0 = k" "found \<longleftrightarrow> p \<in> set xs \<or> p = NULL"
    using run_Search [OF s] xs by (auto simp: klist_def)
  show ?thesis
  proof (cases "\<not> found \<or> p = NULL")
    case True
    then have "k' = k" using step s k0 by (auto simp: exit_process_def Let_def)
    moreover have "p \<notin> set xs" using True k0(2) xs lseg_not_null unfolding klist_def by blast
    ultimately show ?thesis using xs by blast
  next
    case False
    define kr where "kr = (if process_is_running p k then do {
              (_, k) \<leftarrow> run thr n (Exited_loop p (process_list k)) (k\<lparr>p_state := (p_state k)(p := PROCESS_STATE_NONE)\<rparr>);
              case thr p of
                None \<Rightarrow> Some (True, k)
              | Some f \<Rightarrow>
                  if p \<noteq> from
                  then run thr n (Exec p (f (p_pt k p) PROCESS_EVENT_EXIT NULL)) (k\<lparr>process_current := p\<rparr>)
                  else Some (True, k)
            } else Some (True, k))"
    obtain b1 k3 b2 k4 where k3: "kr = Some (b1, k3)"
      and k4: "(if p = process_list k3 then Some (True, k3\<lparr>process_list := p_next k3 (process_list k3)\<rparr>)
            else run thr n (Unlink p (process_list k3)) k3) = Some (b2, k4)"
      and k': "k' = k4\<lparr>process_current := process_current k\<rparr>"
      using step s k0(1) False unfolding exit_process_def kr_def [symmetric] Let_def
      by (auto simp: bind_eq_Some_conv kr_def [symmetric] split: prod.splits)
    have "kinv k3"
    proof (cases "process_is_running p k")
      case True
      then obtain b5 k5 where k5: "run thr n (Exited_loop p (process_list k)) (k\<lparr>p_state := (p_state k)(p := PROCESS_STATE_NONE)\<rparr>) = Some (b5, k5)"
        and rest: "(case thr p of None \<Rightarrow> Some (True, k5)
              | Some f \<Rightarrow> if p \<noteq> from
                  then run thr n (Exec p (f (p_pt k5 p) PROCESS_EVENT_EXIT NULL)) (k5\<lparr>process_current := p\<rparr>)
                  else Some (True, k5)) = Some (b1, k3)"
        using k3 by (auto simp: kr_def bind_eq_Some_conv)
      have "kinv k5" by (rule IH [OF k5]) (use inv in simp_all)
      then show ?thesis using rest by (auto split: option.splits if_splits dest!: IH)
    next
      case False
      then show ?thesis using k3 inv by (simp add: kr_def)
    qed
    then obtain ys where ys: "klist k3 ys" by (auto simp: kinv_def)
    have "klist k4 (remove1 p ys)" by (rule exit_unlink [OF k4 ys]) (use False in simp)
    moreover have "p \<notin> set (remove1 p ys)" using ys lchain_distinct unfolding klist_def by fastforce
    ultimately show ?thesis using k' by auto
  qed
qed

lemma run_kinv:
  "run thr n r k = Some (b, k') \<Longrightarrow> \<forall>p q. r \<noteq> Unlink p q \<Longrightarrow> kinv k \<Longrightarrow> kinv k'"
proof (induction n arbitrary: r k b k')
  case (Suc n)
  note IH = Suc.IH
  show ?case
  proof (cases r)
    case (Call p ev d)
    show ?thesis using Suc.prems unfolding Call
      by (auto simp: call_process_def bind_eq_Some_conv split: option.splits if_splits dest!: IH)
  next
    case (Exec p a)
    show ?thesis using Suc.prems unfolding Exec
      by (cases a) (auto simp: bind_eq_Some_conv process_poll_def process_post_def split: prod.splits if_splits dest!: IH)
  next
    case (Synch p ev d)
    show ?thesis using Suc.prems unfolding Synch
      by (auto simp: process_post_synch_def Let_def bind_eq_Some_conv dest!: IH)
  next
    case (Starting p d)
    obtain xs where xs: "klist k xs" using Suc.prems(3) by (auto simp: kinv_def)
    obtain found k0 where s: "run thr n (Search p (process_list k)) k = Some (found, k0)"
      using Suc.prems(1) unfolding Starting by (auto simp: process_start_def bind_eq_Some_conv)
    have k0: "k0 = k" "found \<longleftrightarrow> p \<in> set xs \<or> p = NULL"
      using run_Search [OF s] xs by (auto simp: klist_def)
    show ?thesis
    proof (cases found)
      case True
      then show ?thesis using Suc.prems s k0 unfolding Starting by (auto simp: process_start_def)
    next
      case False
      then have "kinv (k\<lparr>p_next := (p_next k)(p := process_list k), process_list := p,
               p_state := (p_state k)(p := PROCESS_STATE_RUNNING), p_pt := (p_pt k)(p := 0)\<rparr>)"
        using klist_push [OF xs] k0(2) unfolding kinv_def by blast
      then show ?thesis
        using Suc.prems(1) s k0(1) False unfolding Starting by (auto simp: process_start_def dest!: IH)
    qed
  next
    case (Exiting p fp)
    have "exit_process thr (run thr n) p fp k = Some (b, k')" using Suc.prems(1) unfolding Exiting by simp
    then have "\<exists>xs. klist k' xs \<and> p \<notin> set xs"
      by (rule exit_process_kinv [OF _ Suc.prems(3)]) (erule (2) IH)
    then show ?thesis by (auto simp: kinv_def)
  next
    case (Exited_loop p q)
    show ?thesis using Suc.prems unfolding Exited_loop
      by (auto simp: exited_loop_def bind_eq_Some_conv split: if_splits dest!: IH)
  next
    case (Search p q)
    show ?thesis using Suc.prems unfolding Search
      by (auto simp: search_loop_def split: if_splits dest!: IH)
  next
    case (Unlink p q)
    then show ?thesis using Suc.prems(2) by simp
  qed
qed simp

lemma poll_loop_kinv: "poll_loop thr n m p k = Some k' \<Longrightarrow> kinv k \<Longrightarrow> kinv k'"
proof (induction m arbitrary: p k)
  case (Suc m)
  show ?case
  proof (cases "p = NULL")
    case False
    then obtain b k1 where k1: "(if p_needspoll k p
           then run thr n (Call p PROCESS_EVENT_POLL NULL)
                  (k\<lparr>p_state := (p_state k)(p := PROCESS_STATE_RUNNING), p_needspoll := (p_needspoll k)(p := False)\<rparr>)
           else Some (True, k)) = Some (b, k1)" "poll_loop thr n m (p_next k1 p) k1 = Some k'"
      using Suc.prems(1) by (auto simp: bind_eq_Some_conv split: if_splits)
    have "kinv k1" using k1(1) Suc.prems(2) by (auto split: if_splits dest!: run_kinv)
    with Suc.IH k1(2) show ?thesis by blast
  qed (use Suc.prems in simp)
qed simp

lemma do_poll_kinv: "do_poll thr n k = Some k' \<Longrightarrow> kinv k \<Longrightarrow> kinv k'"
  unfolding do_poll_def by (erule poll_loop_kinv) simp

lemma broadcast_loop_kinv: "broadcast_loop thr n m ev d p k = Some k' \<Longrightarrow> kinv k \<Longrightarrow> kinv k'"
proof (induction m arbitrary: p k)
  case (Suc m)
  show ?case
  proof (cases "p = NULL")
    case False
    then obtain k1 b k2 where k1: "(if poll_requested k then do_poll thr n k else Some k) = Some k1"
      "run thr n (Call p ev d) k1 = Some (b, k2)" "broadcast_loop thr n m ev d (p_next k2 p) k2 = Some k'"
      using Suc.prems(1) by (auto simp: bind_eq_Some_conv split: if_splits)
    have "kinv k1" using k1(1) Suc.prems(2) do_poll_kinv by (auto split: if_splits)
    with k1(2) have "kinv k2" by (auto dest!: run_kinv)
    with Suc.IH k1(3) show ?thesis by blast
  qed (use Suc.prems in simp)
qed simp

lemma do_event_kinv:
  assumes "do_event thr n k = Some k'" "kinv k"
  shows "kinv k'"
proof -
  obtain oe k1 where t: "take_event k = (oe, k1)" by fastforce
  then have k1: "kinv k1" using assms(2) by (auto simp: take_event_def split: if_splits)
  show ?thesis
  proof (cases oe)
    case None
    then show ?thesis using assms(1) t k1 by (simp add: do_event_def)
  next
    case (Some e)
    show ?thesis
    proof (cases "ed_p e = NULL")
      case True
      then show ?thesis using assms(1) t k1 Some broadcast_loop_kinv by (auto simp: do_event_def)
    next
      case False
      then obtain b where "run thr n (Call (ed_p e) (ed_ev e) (ed_data e))
              (if ed_ev e = PROCESS_EVENT_INIT
               then k1\<lparr>p_state := (p_state k1)(ed_p e := PROCESS_STATE_RUNNING)\<rparr> else k1) = Some (b, k')"
        using assms(1) t Some by (auto simp: do_event_def bind_eq_Some_conv)
      then show ?thesis using k1 by (auto dest!: run_kinv)
    qed
  qed
qed


definition root_kernel :: "nat kernel" where
  "root_kernel = process_init \<lparr>process_list = 0, process_current = 0, lastevent = 0, nevents = 0, fevent = 0,
     events = replicate 32 \<lparr>ed_ev = 0, ed_data = 0, ed_p = 0\<rparr>, poll_requested = False,
     p_next = (\<lambda>_. 0), p_state = (\<lambda>_. 0), p_needspoll = (\<lambda>_. False), p_pt = (\<lambda>_. 0), k_user = 0\<rparr>"

text \<open>Process 1 starts process 2 on its first event, process 2 exits process 1 on a poll.\<close>

definition two_threads :: "nat threads" where
  "two_threads p =
     (if p = 1 then Some (\<lambda>pt ev d. if ev = PROCESS_EVENT_INIT then Start 2 0 (Poll 2 (Finish False)) else Finish False)
      else if p = 2 then Some (\<lambda>pt ev d. if ev = PROCESS_EVENT_POLL then Exit 1 (Finish False) else Finish False)
      else None)"


section \<open>The event queue\<close>

definition post_event :: "'u kernel \<Rightarrow> event_data \<Rightarrow> bool \<times> 'u kernel" where
  "post_event k e = process_post (ed_p e) (ed_ev e) (ed_data e) k"

definition queue_contents :: "'u kernel \<Rightarrow> event_data list" where
  "queue_contents k = window (events k) (unat (fevent k)) (unat (nevents k))"

definition queue_wf :: "'u kernel \<Rightarrow> bool" where
  "queue_wf k \<longleftrightarrow> length (events k) = PROCESS_CONF_NUMEVENTS \<and> unat (fevent k) < 32 \<and> unat (nevents k) \<le> 32"

lemma unat_mod_32: "unat (x mod 32 :: u8) = unat x mod 32"
  by (simp add: unat_mod)

lemma post_event_room:
  assumes "queue_wf k" "unat (nevents k) < 32"
  shows "fst (post_event k e) \<and> queue_contents (snd (post_event k e)) = queue_contents k @ [e] \<and>
    queue_wf (snd (post_event k e))"
proof -
  have ne: "nevents k \<noteq> 32" using assms(2) by auto
  have pos: "unat ((fevent k + nevents k) mod 32) = (unat (fevent k) + unat (nevents k)) mod length (events k)"
    using assms by (simp add: unat_mod_32 queue_wf_def unat_word_ariths)
  have up: "unat (nevents k + 1) = Suc (unat (nevents k))" using assms(2) by (simp add: unat_word_ariths)
  have e: "\<lparr>ed_ev = ed_ev e, ed_data = ed_data e, ed_p = ed_p e\<rparr> = e" by simp
  have "post_event k e = (True, k\<lparr>events := (events k)[(unat (fevent k) + unat (nevents k)) mod length (events k) := e],
      nevents := nevents k + 1\<rparr>)"
    using ne by (simp add: post_event_def process_post_def e flip: pos)
  then show ?thesis
    using assms up window_put [of "unat (fevent k)" "events k" "unat (nevents k)" e]
    by (simp add: queue_contents_def queue_wf_def)
qed

lemma post_event_full:
  assumes "unat (nevents k) = 32" shows "post_event k e = (False, k)"
proof -
  have "nevents k = 32" using assms by (simp add: word_unat_eq_iff)
  then show ?thesis by (simp add: post_event_def process_post_def)
qed

lemma take_event_some:
  assumes "queue_wf k" "unat (nevents k) > 0"
  shows "fst (take_event k) = Some (hd (queue_contents k)) \<and> queue_wf (snd (take_event k)) \<and>
    queue_contents k = hd (queue_contents k) # queue_contents (snd (take_event k))"
proof -
  have u: "unat ((fevent k + 1) mod 32) = Suc (unat (fevent k)) mod length (events k)"
    using assms(1) by (simp add: unat_mod_32 queue_wf_def unat_word_ariths)
  have n: "unat (nevents k) = Suc (unat (nevents k - 1))"
    using assms(2) unat_minus_one [of "nevents k"] by (cases "nevents k = 0") auto
  have t: "take_event k = (Some (events k ! unat (fevent k)),
            k\<lparr>fevent := (fevent k + 1) mod 32, nevents := nevents k - 1\<rparr>)"
    using assms(2) by (simp add: take_event_def word_gt_0 unat_gt_0)
  have "queue_contents k = events k ! unat (fevent k) # queue_contents (snd (take_event k))"
    using window_get [of "unat (fevent k)" "events k" "unat (nevents k - 1)"] assms(1) n u t
    by (simp add: queue_contents_def queue_wf_def)
  moreover have "queue_wf (snd (take_event k))" using assms(1) n u t by (simp add: queue_wf_def)
  ultimately show ?thesis using t by simp
qed

lemma take_event_none: "unat (nevents k) = 0 \<Longrightarrow> take_event k = (None, k)"
  by (simp add: take_event_def word_gt_0 unat_gt_0 unat_eq_0)

interpretation pq: fifo post_event take_event queue_contents "\<lambda>_. PROCESS_CONF_NUMEVENTS" queue_wf
proof unfold_locales
  show "length (queue_contents k) \<le> 32" if "queue_wf k" for k :: "'u kernel"
    using that by (simp add: queue_contents_def queue_wf_def)
  show "post_event k e = (False, k)" if "queue_wf k" "length (queue_contents k) = 32" for k :: "'u kernel" and e
    using that by (simp add: queue_contents_def post_event_full)
  show "b \<and> queue_contents k' = queue_contents k @ [e] \<and> (32 :: nat) = 32 \<and> queue_wf k'"
    if "queue_wf k" "length (queue_contents k) < 32" "post_event k e = (b, k')" for k :: "'u kernel" and e b k'
    using post_event_room [of k e] that by (simp add: queue_contents_def)
  show "take_event k = (None, k)" if "queue_wf k" "queue_contents k = []" for k :: "'u kernel"
    using that by (auto simp: queue_contents_def intro!: take_event_none dest: arg_cong [where f = length])
  show "r = Some e \<and> queue_contents k' = es \<and> (32 :: nat) = 32 \<and> queue_wf k'"
    if "queue_wf k" "queue_contents k = e # es" "take_event k = (r, k')" for k :: "'u kernel" and e es r k'
  proof -
    have "unat (nevents k) > 0" using arg_cong [OF that(2), of length] by (simp add: queue_contents_def)
    from take_event_some [OF that(1) this] that(2,3) show ?thesis by simp
  qed
qed

text \<open>
  C14. The event queue loses, duplicates and reorders nothing: for any interleaving of
  posts and deliveries after \<open>process_init\<close>, the events delivered followed by those
  still queued are the events accepted, and a post is refused only while 32 events are queued.
\<close>

theorem event_queue_fifo:
  assumes "length (events k) = 32" and "fifo_run post_event take_event (process_init k) cs = (accepted, delivered, k')"
  shows "accepted = delivered @ queue_contents k' \<and> length (queue_contents k') = unat (nevents k') \<and>
    (fst (post_event k' e) \<longleftrightarrow> length (queue_contents k') < 32)"
proof -
  have init: "queue_wf (process_init k)" "queue_contents (process_init k) = []"
    using assms(1) by (simp_all add: process_init_def queue_wf_def queue_contents_def)
  have h: "accepted = delivered @ queue_contents k'" "queue_wf k'"
    using pq.history [OF init(1) assms(2)] init(2) by simp_all
  then show ?thesis
    using pq.put_step [OF h(2), of e "fst (post_event k' e)" "snd (post_event k' e)"]
    by (simp add: queue_contents_def)
qed

theorem event_queue_fifo_witness:
  "\<exists>accepted delivered k'. fifo_run post_event take_event (process_init root_kernel)
       [Put \<lparr>ed_ev = 0x88, ed_data = 7, ed_p = 1\<rparr>, Put \<lparr>ed_ev = 0x86, ed_data = 8, ed_p = 2\<rparr>, Get]
         = (accepted, delivered, k') \<and> accepted = delivered @ queue_contents k' \<and>
     map ed_data accepted = [7, 8] \<and> map ed_data delivered = [7]"
proof -
  let ?cs = "[Put \<lparr>ed_ev = 0x88, ed_data = 7, ed_p = 1\<rparr>, Put \<lparr>ed_ev = 0x86, ed_data = 8, ed_p = 2\<rparr>, Get]
    :: event_data fifo_op list"
  have "map ed_data (fst (fifo_run post_event take_event (process_init root_kernel) ?cs)) = [7, 8]"
    "map ed_data (fst (snd (fifo_run post_event take_event (process_init root_kernel) ?cs))) = [7]" by code_simp+
  moreover obtain acc out k' where r: "fifo_run post_event take_event (process_init root_kernel) ?cs = (acc, out, k')"
    by (metis prod.exhaust)
  moreover have "length (events root_kernel) = 32" by (simp add: root_kernel_def process_init_def)
  ultimately show ?thesis using event_queue_fifo [OF _ r] by auto
qed

section \<open>Delivery\<close>

text \<open>Threads that react to an event by changing their variables and yield.\<close>

definition reacting :: "(ptr \<Rightarrow> u8 \<Rightarrow> ptr \<Rightarrow> 'u \<Rightarrow> 'u) \<Rightarrow> 'u threads" where
  "reacting g p = Some (\<lambda>pt ev d. Local (g p ev d) (Finish False))"

lemma call_reacting:
  assumes "p_state k p = 1" "ev \<noteq> PROCESS_EVENT_EXIT"
  shows "run (reacting g) (Suc (Suc (Suc n))) (Call p ev d) k =
    Some (True, k\<lparr>process_current := p, k_user := g p ev d (k_user k)\<rparr>)"
proof -
  have "(p_state k)(p := 1) = p_state k" using assms(1) by (simp add: fun_upd_idem)
  then show ?thesis using assms by (simp add: call_process_def reacting_def)
qed

lemma broadcast_reacting:
  "lchain (p_next k) p xs \<Longrightarrow> \<forall>q \<in> set xs. p_state k q = 1 \<Longrightarrow> \<not> poll_requested k \<Longrightarrow> ev \<noteq> PROCESS_EVENT_EXIT \<Longrightarrow>
     length xs < m \<Longrightarrow>
     \<exists>k'. broadcast_loop (reacting g) (Suc (Suc (Suc n))) m ev d p k = Some k' \<and>
       k_user k' = fold (\<lambda>q. g q ev d) xs (k_user k) \<and> queue_contents k' = queue_contents k \<and>
       nevents k' = nevents k \<and> poll_requested k' = poll_requested k \<and> klist k' = klist k"
proof (induction xs arbitrary: k p m)
  case Nil
  then show ?case by (cases m) auto
next
  case (Cons x xs)
  then obtain m' where m: "m = Suc m'" by (cases m) auto
  let ?k = "k\<lparr>process_current := x, k_user := g x ev d (k_user k)\<rparr>"
  have x: "p = x" "x \<noteq> NULL" "lchain (p_next ?k) (p_next ?k x) xs" "\<forall>q \<in> set xs. p_state ?k q = 1" "\<not> poll_requested ?k"
    using Cons.prems by auto
  have step: "broadcast_loop (reacting g) (Suc (Suc (Suc n))) m ev d p k =
      broadcast_loop (reacting g) (Suc (Suc (Suc n))) m' ev d (p_next ?k x) ?k"
    using Cons.prems x(1,2) call_reacting [of k x ev g n d] by (simp add: m del: run.simps)
  have same: "queue_contents ?k = queue_contents k" "klist ?k = klist k"
    by (auto simp: queue_contents_def klist_def)
  have "length xs < m'" using Cons.prems(5) m by simp
  from Cons.IH [OF x(3-5) Cons.prems(4) this] show ?case unfolding step using same by simp
qed


definition running_kernel :: "nat kernel" where
  "running_kernel = snd (post_event (root_kernel\<lparr>process_list := 5, p_next := (\<lambda>_. 0)(5 := 6), p_state := (\<lambda>_. 1)\<rparr>)
     \<lparr>ed_ev = 0x86, ed_data = 3, ed_p = 0\<rparr>)"


end
