(* ===== verification/Etimer.thy ===== *)
theory Etimer
  imports Process Timer
begin

text \<open>
  Event timers (\<open>core/sys/etimer.c\<close>): a singly linked list of running timers, kept
  by the process \<open>etimer_process\<close>, which on a poll posts a timer event to the owner of
  every expired timer. The kernel of \<open>Process\<close> provides the event queue, the poll request and the
  current process. \<open>now\<close> is the value of \<open>clock_time()\<close>, taken once per
  call of an operation.
\<close>

section \<open>State\<close>

record etimer =
  et_timer :: timer
  et_p :: ptr
  et_next :: ptr

record 'u esys =
  kern :: "'u kernel"
  timerlist :: ptr
  next_expiration :: clock_time
  ets :: "ptr \<Rightarrow> etimer"

text \<open>The address of the process structure of \<open>etimer_process\<close>, and \<open>PROCESS_NONE\<close>.\<close>

definition etimer_process :: ptr where "etimer_process = 2"

abbreviation (input) PROCESS_NONE :: ptr where "PROCESS_NONE \<equiv> 0"

definition upd_et :: "ptr \<Rightarrow> (etimer \<Rightarrow> etimer) \<Rightarrow> 'u esys \<Rightarrow> 'u esys" where
  "upd_et t f s = s\<lparr>ets := (ets s)(t := f (ets s t))\<rparr>"

section \<open>Operations\<close>

definition etimer_request_poll :: "'u esys \<Rightarrow> 'u esys" where
  "etimer_request_poll s = s\<lparr>kern := process_poll etimer_process (kern s)\<rparr>"

definition distance :: "clock_time \<Rightarrow> etimer \<Rightarrow> clock_time" where
  "distance now e = t_start (et_timer e) + t_interval (et_timer e) - now"

partial_function (option) tdist_loop :: "clock_time \<Rightarrow> (ptr \<Rightarrow> etimer) \<Rightarrow> ptr \<Rightarrow> clock_time \<Rightarrow> clock_time option" where
  "tdist_loop now es t tdist =
     (if t = NULL then Some tdist
      else tdist_loop now es (et_next (es t)) (if distance now (es t) < tdist then distance now (es t) else tdist))"

definition update_time :: "clock_time \<Rightarrow> 'u esys \<Rightarrow> 'u esys option" where
  "update_time now s =
     (if timerlist s = NULL then Some (s\<lparr>next_expiration := 0\<rparr>)
      else do {
        tdist \<leftarrow> tdist_loop now (ets s) (et_next (ets s (timerlist s))) (distance now (ets s (timerlist s)));
        Some (s\<lparr>next_expiration := now + tdist\<rparr>)
      })"

partial_function (option) on_list :: "(ptr \<Rightarrow> etimer) \<Rightarrow> ptr \<Rightarrow> ptr \<Rightarrow> bool option" where
  "on_list es timer t = (if t = NULL then Some False else if t = timer then Some True else on_list es timer (et_next (es t)))"

definition add_timer :: "clock_time \<Rightarrow> ptr \<Rightarrow> 'u esys \<Rightarrow> 'u esys option" where
  "add_timer now timer s = do {
     let s = etimer_request_poll s;
     found \<leftarrow> if et_p (ets s timer) \<noteq> PROCESS_NONE then on_list (ets s) timer (timerlist s) else Some False;
     if found then update_time now (upd_et timer (\<lambda>e. e\<lparr>et_p := process_current (kern s)\<rparr>) s)
     else update_time now
       ((upd_et timer (\<lambda>e. e\<lparr>et_p := process_current (kern s), et_next := timerlist s\<rparr>) s)\<lparr>timerlist := timer\<rparr>)
   }"

definition etimer_set :: "clock_time \<Rightarrow> ptr \<Rightarrow> clock_time \<Rightarrow> 'u esys \<Rightarrow> 'u esys option" where
  "etimer_set now et interval s =
     add_timer now et (upd_et et (\<lambda>e. e\<lparr>et_timer := timer_set now interval (et_timer e)\<rparr>) s)"

definition etimer_reset :: "clock_time \<Rightarrow> ptr \<Rightarrow> 'u esys \<Rightarrow> 'u esys option" where
  "etimer_reset now et s = add_timer now et (upd_et et (\<lambda>e. e\<lparr>et_timer := timer_reset (et_timer e)\<rparr>) s)"

definition etimer_restart :: "clock_time \<Rightarrow> ptr \<Rightarrow> 'u esys \<Rightarrow> 'u esys option" where
  "etimer_restart now et s = add_timer now et (upd_et et (\<lambda>e. e\<lparr>et_timer := timer_restart now (et_timer e)\<rparr>) s)"

definition etimer_adjust :: "clock_time \<Rightarrow> ptr \<Rightarrow> int \<Rightarrow> 'u esys \<Rightarrow> 'u esys option" where
  "etimer_adjust now et timediff s = update_time now
     (upd_et et (\<lambda>e. e\<lparr>et_timer := (et_timer e)\<lparr>t_start := t_start (et_timer e) + word_of_int timediff\<rparr>\<rparr>) s)"

definition etimer_expired :: "ptr \<Rightarrow> 'u esys \<Rightarrow> bool" where
  "etimer_expired et s \<longleftrightarrow> et_p (ets s et) = PROCESS_NONE"

definition etimer_expiration_time :: "ptr \<Rightarrow> 'u esys \<Rightarrow> clock_time" where
  "etimer_expiration_time et s = t_start (et_timer (ets s et)) + t_interval (et_timer (ets s et))"

definition etimer_start_time :: "ptr \<Rightarrow> 'u esys \<Rightarrow> clock_time" where
  "etimer_start_time et s = t_start (et_timer (ets s et))"

definition etimer_pending :: "'u esys \<Rightarrow> bool" where
  "etimer_pending s \<longleftrightarrow> timerlist s \<noteq> NULL"

definition etimer_next_expiration_time :: "'u esys \<Rightarrow> clock_time" where
  "etimer_next_expiration_time s = (if etimer_pending s then next_expiration s else 0)"

text \<open>The loop \<open>for(t = timerlist; t != NULL && t->next != et; t = t->next)\<close>.\<close>

partial_function (option) before_loop :: "(ptr \<Rightarrow> etimer) \<Rightarrow> ptr \<Rightarrow> ptr \<Rightarrow> ptr option" where
  "before_loop es et t = (if t \<noteq> NULL \<and> et_next (es t) \<noteq> et then before_loop es et (et_next (es t)) else Some t)"

definition etimer_stop :: "clock_time \<Rightarrow> ptr \<Rightarrow> 'u esys \<Rightarrow> 'u esys option" where
  "etimer_stop now et s = do {
     s \<leftarrow> if et = timerlist s then update_time now (s\<lparr>timerlist := et_next (ets s (timerlist s))\<rparr>)
          else do {
            t \<leftarrow> before_loop (ets s) et (timerlist s);
            if t \<noteq> NULL then update_time now (upd_et t (\<lambda>e. e\<lparr>et_next := et_next (ets s et)\<rparr>) s) else Some s
          };
     Some (upd_et et (\<lambda>e. e\<lparr>et_next := NULL, et_p := PROCESS_NONE\<rparr>) s)
   }"

section \<open>The process\<close>

text \<open>An exited process: its timers leave the list.\<close>

partial_function (option) purge_head :: "(ptr \<Rightarrow> etimer) \<Rightarrow> ptr \<Rightarrow> ptr \<Rightarrow> ptr option" where
  "purge_head es p t = (if t \<noteq> NULL \<and> et_p (es t) = p then purge_head es p (et_next (es t)) else Some t)"

partial_function (option) purge_rest :: "ptr \<Rightarrow> ptr \<Rightarrow> 'u esys \<Rightarrow> 'u esys option" where
  "purge_rest p t s =
     (if et_next (ets s t) \<noteq> NULL then
        (if et_p (ets s (et_next (ets s t))) = p
         then purge_rest p t (upd_et t (\<lambda>e. e\<lparr>et_next := et_next (ets s (et_next (ets s t)))\<rparr>) s)
         else purge_rest p (et_next (ets s t)) s)
      else Some s)"

definition etimer_exited :: "ptr \<Rightarrow> 'u esys \<Rightarrow> 'u esys option" where
  "etimer_exited p s = do {
     h \<leftarrow> purge_head (ets s) p (timerlist s);
     let s = s\<lparr>timerlist := h\<rparr>;
     if timerlist s \<noteq> NULL then purge_rest p (timerlist s) s else Some s
   }"

text \<open>A poll: one pass over the list, started \<open>again\<close> after each timer that was delivered.\<close>

partial_function (option) poll_scan :: "clock_time \<Rightarrow> ptr \<Rightarrow> ptr \<Rightarrow> 'u esys \<Rightarrow> 'u esys option" where
  "poll_scan now t u s =
     (if t = NULL then Some s
      else if timer_expired now (et_timer (ets s t)) then
        (case process_post (et_p (ets s t)) PROCESS_EVENT_TIMER t (kern s) of (ok, k) \<Rightarrow>
           if ok then do {
             let s = upd_et t (\<lambda>e. e\<lparr>et_p := PROCESS_NONE\<rparr>) (s\<lparr>kern := k\<rparr>);
             let s = (if u \<noteq> NULL then upd_et u (\<lambda>e. e\<lparr>et_next := et_next (ets s t)\<rparr>) s
                      else s\<lparr>timerlist := et_next (ets s t)\<rparr>);
             let s = upd_et t (\<lambda>e. e\<lparr>et_next := NULL\<rparr>) s;
             s \<leftarrow> update_time now s;
             poll_scan now (timerlist s) NULL s
           }
           else (let s = etimer_request_poll (s\<lparr>kern := k\<rparr>) in poll_scan now (et_next (ets s t)) t s))
      else poll_scan now (et_next (ets s t)) t s)"

definition etimer_poll :: "clock_time \<Rightarrow> 'u esys \<Rightarrow> 'u esys option" where
  "etimer_poll now s = poll_scan now (timerlist s) NULL s"

text \<open>One activation of \<open>etimer_process\<close> after the first, which clears the list.\<close>

definition etimer_init :: "'u esys \<Rightarrow> 'u esys" where
  "etimer_init s = s\<lparr>timerlist := NULL\<rparr>"

definition etimer_thread :: "clock_time \<Rightarrow> u8 \<Rightarrow> ptr \<Rightarrow> 'u esys \<Rightarrow> 'u esys option" where
  "etimer_thread now ev d s =
     (if ev = PROCESS_EVENT_EXITED then etimer_exited d s
      else if ev \<noteq> PROCESS_EVENT_POLL then Some s
      else etimer_poll now s)"

section \<open>The list of running timers\<close>

abbreviation enext :: "'u esys \<Rightarrow> ptr \<Rightarrow> ptr" where
  "enext s \<equiv> (\<lambda>t. et_next (ets s t))"

definition elist :: "'u esys \<Rightarrow> ptr list \<Rightarrow> bool" where
  "elist s ts \<longleftrightarrow> lchain (enext s) (timerlist s) ts"

definition expired_at :: "clock_time \<Rightarrow> 'u esys \<Rightarrow> ptr \<Rightarrow> bool" where
  "expired_at now s t \<longleftrightarrow> timer_expired now (et_timer (ets s t))"

definition earliest :: "clock_time \<Rightarrow> 'u esys \<Rightarrow> ptr list \<Rightarrow> bool" where
  "earliest now s ts \<longleftrightarrow>
     (if ts = [] then next_expiration s = 0
      else (\<exists>t \<in> set ts. next_expiration s = etimer_expiration_time t s) \<and>
           (\<forall>t \<in> set ts. next_expiration s - now \<le> etimer_expiration_time t s - now))"

lemma elist_distinct: "elist s ts \<Longrightarrow> distinct ts"
  unfolding elist_def by (rule lchain_distinct)

lemma elist_null: "elist s ts \<Longrightarrow> NULL \<notin> set ts"
  unfolding elist_def by (rule lseg_not_null)

lemma upd_et_sel [simp]:
  "kern (upd_et t f s) = kern s" "timerlist (upd_et t f s) = timerlist s"
  "next_expiration (upd_et t f s) = next_expiration s" "ets (upd_et t f s) = (ets s)(t := f (ets s t))"
  by (simp_all add: upd_et_def)

lemma request_poll_sel [simp]:
  "timerlist (etimer_request_poll s) = timerlist s" "ets (etimer_request_poll s) = ets s"
  "next_expiration (etimer_request_poll s) = next_expiration s"
  "kern (etimer_request_poll s) = process_poll etimer_process (kern s)"
  by (simp_all add: etimer_request_poll_def)

lemma tdist_loop_chain:
  "lchain (\<lambda>t. et_next (es t)) t ts \<Longrightarrow>
     tdist_loop now es t d = Some (fold (\<lambda>t m. if distance now (es t) < m then distance now (es t) else m) ts d)"
proof (induction ts arbitrary: t d)
  case Nil
  then show ?case by (subst tdist_loop.simps) simp
next
  case (Cons x xs)
  then show ?case by (subst tdist_loop.simps) simp
qed

lemma fold_min:
  fixes f :: "'a \<Rightarrow> 'b::linorder"
  shows "(\<forall>t \<in> set ts. fold (\<lambda>t m. if f t < m then f t else m) ts d \<le> f t) \<and>
    fold (\<lambda>t m. if f t < m then f t else m) ts d \<le> d \<and>
    (fold (\<lambda>t m. if f t < m then f t else m) ts d = d \<or> (\<exists>t \<in> set ts. fold (\<lambda>t m. if f t < m then f t else m) ts d = f t))"
proof (induction ts arbitrary: d)
  case (Cons x xs)
  show ?case using Cons.IH [of "if f x < d then f x else d"] by (auto split: if_splits)
qed simp

lemma update_time_elist:
  assumes "elist s ts"
  shows "\<exists>e. update_time now s = Some (s\<lparr>next_expiration := e\<rparr>) \<and> earliest now (s\<lparr>next_expiration := e\<rparr>) ts"
proof (cases ts)
  case Nil
  then show ?thesis using assms by (auto simp: update_time_def elist_def earliest_def)
next
  case (Cons x xs)
  then have x: "timerlist s = x" "x \<noteq> NULL" "lchain (enext s) (enext s x) xs" using assms by (auto simp: elist_def)
  let ?m = "fold (\<lambda>t m. if distance now (ets s t) < m then distance now (ets s t) else m) xs (distance now (ets s x))"
  have u: "update_time now s = Some (s\<lparr>next_expiration := now + ?m\<rparr>)"
    using tdist_loop_chain [OF x(3), of now "distance now (ets s x)"] x by (simp add: update_time_def)
  have d: "etimer_expiration_time t (s\<lparr>next_expiration := e\<rparr>) = now + distance now (ets s t)" for t e
    by (simp add: etimer_expiration_time_def distance_def)
  show ?thesis
    using u fold_min [of xs "\<lambda>t. distance now (ets s t)" "distance now (ets s x)"] Cons
    by (auto simp: earliest_def d)
qed

lemma enext_upd [simp]: "(\<lambda>x. et_next (((ets s)(t := e)) x)) = (enext s)(t := et_next e)"
  by auto

lemma enext_upd_iff [simp]: "(\<lambda>x. et_next (if x = t then e else ets s x)) = (enext s)(t := et_next e)"
  by auto

lemma elist_kern [simp]: "elist (s\<lparr>kern := k\<rparr>) ts = elist s ts"
  by (simp add: elist_def)

lemma elist_next_expiration [simp]: "elist (s\<lparr>next_expiration := e\<rparr>) ts = elist s ts"
  by (simp add: elist_def)

lemma elist_poll [simp]: "elist (etimer_request_poll s) ts = elist s ts"
  by (simp add: elist_def)

lemma elist_upd_same:
  "et_next (f (ets s t)) = et_next (ets s t) \<Longrightarrow> elist (upd_et t f s) ts = elist s ts"
  by (simp add: elist_def fun_upd_idem)

lemma elist_upd_outside: "t \<notin> set ts \<Longrightarrow> elist (upd_et t f s) ts = elist s ts"
  by (simp add: elist_def lseg_upd)

text \<open>Taking one timer out of the list, given its predecessor (or NULL at the head).\<close>

definition unlink_et :: "ptr \<Rightarrow> ptr \<Rightarrow> 'u esys \<Rightarrow> 'u esys" where
  "unlink_et u t s = (if u \<noteq> NULL then upd_et u (\<lambda>e. e\<lparr>et_next := et_next (ets s t)\<rparr>) s
     else s\<lparr>timerlist := et_next (ets s t)\<rparr>)"

definition pred_of :: "ptr list \<Rightarrow> ptr" where
  "pred_of ys = (if ys = [] then NULL else last ys)"

lemma elist_unlink:
  assumes "elist s (ys @ t # zs)"
  shows "elist (unlink_et (pred_of ys) t s) (ys @ zs)"
proof (cases "ys = []")
  case True
  then show ?thesis using assms by (simp add: unlink_et_def pred_of_def elist_def)
next
  case False
  then obtain xs u where ys: "ys = xs @ [u]" by (cases ys rule: rev_cases) auto
  have d: "distinct (xs @ u # t # zs)" using elist_distinct [OF assms] ys by simp
  obtain r where r: "lseg (enext s) (timerlist s) xs r" "r = u" "u \<noteq> NULL" "enext s u = t" "lchain (enext s) (enext s t) zs"
    using assms by (auto simp: elist_def ys chain_simps)
  have "lchain ((enext s)(u := enext s t)) (timerlist s) (xs @ u # zs)"
    using r d by (auto simp: chain_simps)
  then show ?thesis using False r(3) by (simp add: unlink_et_def pred_of_def ys elist_def)
qed

lemma unlink_et_sel [simp]:
  "kern (unlink_et u t s) = kern s"
  "et_p (ets (unlink_et u t s) x) = et_p (ets s x)" "et_timer (ets (unlink_et u t s) x) = et_timer (ets s x)"
  by (simp_all add: unlink_et_def)

definition einv :: "'u esys \<Rightarrow> ptr list \<Rightarrow> bool" where
  "einv s ts \<longleftrightarrow> elist s ts \<and> (\<forall>t \<in> set ts. et_p (ets s t) \<noteq> PROCESS_NONE)"

lemma on_list_chain:
  "lchain (\<lambda>t. et_next (es t)) t ts \<Longrightarrow> on_list es timer t = Some (timer \<in> set ts)"
proof (induction ts arbitrary: t)
  case Nil
  then show ?case by (subst on_list.simps) simp
next
  case (Cons x xs)
  then show ?case by (subst on_list.simps) auto
qed

text \<open>What an operation on one timer leaves of the others.\<close>

definition others_kept :: "ptr \<Rightarrow> 'u esys \<Rightarrow> 'u esys \<Rightarrow> bool" where
  "others_kept et s s' \<longleftrightarrow> (\<forall>t. t \<noteq> et \<longrightarrow> et_timer (ets s' t) = et_timer (ets s t) \<and> et_p (ets s' t) = et_p (ets s t))"

lemma add_timer_einv:
  assumes "einv s ts" "et \<noteq> NULL" "process_current (kern s) \<noteq> NULL"
  shows "\<exists>s'. add_timer now et s = Some s' \<and> einv s' (if et \<in> set ts then ts else et # ts) \<and>
    earliest now s' (if et \<in> set ts then ts else et # ts) \<and> others_kept et s s' \<and>
    et_timer (ets s' et) = et_timer (ets s et) \<and> et_p (ets s' et) = process_current (kern s) \<and>
    kern s' = process_poll etimer_process (kern s)"
proof -
  let ?s = "etimer_request_poll s" and ?c = "process_current (kern s)"
  have cur: "process_current (kern ?s) = ?c" by (simp add: process_poll_def)
  have l: "elist ?s ts" using assms(1) by (simp add: einv_def)
  have found: "(if et_p (ets ?s et) \<noteq> PROCESS_NONE then on_list (ets ?s) et (timerlist ?s) else Some False) = Some (et \<in> set ts)"
    using on_list_chain [of "ets ?s" "timerlist ?s" ts et] l assms(1) by (auto simp: elist_def einv_def)
  show ?thesis
  proof (cases "et \<in> set ts")
    case True
    let ?s1 = "upd_et et (\<lambda>e. e\<lparr>et_p := ?c\<rparr>) ?s"
    have l1: "elist ?s1 ts" using l by (simp add: elist_upd_same)
    obtain e where e: "update_time now ?s1 = Some (?s1\<lparr>next_expiration := e\<rparr>)" "earliest now (?s1\<lparr>next_expiration := e\<rparr>) ts"
      using update_time_elist [OF l1] by blast
    have "add_timer now et s = Some (?s1\<lparr>next_expiration := e\<rparr>)"
      using e(1) found True cur by (simp add: add_timer_def Let_def)
    moreover have "einv (?s1\<lparr>next_expiration := e\<rparr>) ts"
      using l1 assms(1,3) by (auto simp: einv_def)
    ultimately show ?thesis using e(2) True by (auto simp: others_kept_def)
  next
    case False
    let ?s1 = "(upd_et et (\<lambda>e. e\<lparr>et_p := ?c, et_next := timerlist s\<rparr>) ?s)\<lparr>timerlist := et\<rparr>"
    have l1: "elist ?s1 (et # ts)" using l False assms(2) by (simp add: elist_def lseg_upd)
    obtain e where e: "update_time now ?s1 = Some (?s1\<lparr>next_expiration := e\<rparr>)" "earliest now (?s1\<lparr>next_expiration := e\<rparr>) (et # ts)"
      using update_time_elist [OF l1] by blast
    have "add_timer now et s = Some (?s1\<lparr>next_expiration := e\<rparr>)"
      using e(1) found False cur by (simp add: add_timer_def Let_def)
    moreover have "einv (?s1\<lparr>next_expiration := e\<rparr>) (et # ts)"
      using l1 assms(1,3) by (auto simp: einv_def)
    ultimately show ?thesis using e(2) False by (auto simp: others_kept_def)
  qed
qed

lemma before_loop_found:
  "lseg (\<lambda>t. et_next (es t)) t (ys @ [u]) et \<Longrightarrow> distinct (ys @ [u, et]) \<Longrightarrow> before_loop es et t = Some u"
proof (induction ys arbitrary: t)
  case Nil
  then show ?case by (subst before_loop.simps) auto
next
  case (Cons y ys)
  have "et_next (es y) \<noteq> et" using Cons.prems by (cases ys) auto
  with Cons show ?case by (subst before_loop.simps) auto
qed

lemma before_loop_absent:
  "lchain (\<lambda>t. et_next (es t)) t ts \<Longrightarrow> et \<notin> set ts \<Longrightarrow> et \<noteq> NULL \<Longrightarrow> before_loop es et t = Some NULL"
proof (induction ts arbitrary: t)
  case Nil
  then show ?case by (subst before_loop.simps) simp
next
  case (Cons x xs)
  have "et_next (es x) \<noteq> et" using Cons.prems by (cases xs) auto
  with Cons show ?case by (subst before_loop.simps) auto
qed

lemma earliest_upd:
  "et \<notin> set ts \<Longrightarrow> earliest now (upd_et et f s) ts = earliest now s ts"
  by (auto simp: earliest_def etimer_expiration_time_def)

lemma etimer_stop_einv:
  assumes "einv s ts" "et \<noteq> NULL"
  shows "\<exists>s'. etimer_stop now et s = Some s' \<and> einv s' (remove1 et ts) \<and> etimer_expired et s' \<and>
    (if et \<in> set ts then earliest now s' (remove1 et ts) else next_expiration s' = next_expiration s) \<and>
    others_kept et s s' \<and> kern s' = kern s"
proof (cases "et \<in> set ts")
  case True
  then obtain ys zs where ts: "ts = ys @ et # zs" by (meson split_list)
  let ?u = "pred_of ys" and ?fin = "upd_et et (\<lambda>e. e\<lparr>et_next := NULL, et_p := PROCESS_NONE\<rparr>) :: 'a esys \<Rightarrow> 'a esys"
  have l: "elist s (ys @ et # zs)" using assms(1) ts by (simp add: einv_def)
  have d: "et \<notin> set ys" "et \<notin> set zs" using elist_distinct [OF l] by auto
  have r: "remove1 et ts = ys @ zs" using d ts by (simp add: remove1_append)
  have l1: "elist (unlink_et ?u et s) (ys @ zs)" by (rule elist_unlink [OF l])
  obtain e where e: "update_time now (unlink_et ?u et s) = Some ((unlink_et ?u et s)\<lparr>next_expiration := e\<rparr>)"
    "earliest now ((unlink_et ?u et s)\<lparr>next_expiration := e\<rparr>) (ys @ zs)"
    using update_time_elist [OF l1] by blast
  have "etimer_stop now et s = Some (?fin ((unlink_et ?u et s)\<lparr>next_expiration := e\<rparr>))"
  proof (cases "ys = []")
    case True
    then have "timerlist s = et" using l by (simp add: elist_def)
    then show ?thesis using e(1) True by (simp add: etimer_stop_def unlink_et_def pred_of_def)
  next
    case False
    then obtain xs u where ys: "ys = xs @ [u]" by (cases ys rule: rev_cases) auto
    have "timerlist s \<noteq> et" using l d False by (cases ys) (auto simp: elist_def)
    moreover have "u \<noteq> NULL" using elist_null [OF l] ys by auto
    moreover have "before_loop (ets s) et (timerlist s) = Some u"
      using l d ys elist_distinct [OF l] by (intro before_loop_found) (auto simp: elist_def chain_simps)
    ultimately show ?thesis using e(1) by (simp add: etimer_stop_def unlink_et_def pred_of_def ys)
  qed
  moreover have "einv (?fin ((unlink_et ?u et s)\<lparr>next_expiration := e\<rparr>)) (ys @ zs)"
    using l1 d assms(1) ts by (auto simp: einv_def elist_upd_outside)
  moreover have "earliest now (?fin ((unlink_et ?u et s)\<lparr>next_expiration := e\<rparr>)) (ys @ zs)"
    using e(2) d by (simp add: earliest_upd)
  ultimately show ?thesis using r True by (auto simp: etimer_expired_def others_kept_def)
next
  case False
  let ?s = "upd_et et (\<lambda>e. e\<lparr>et_next := NULL, et_p := PROCESS_NONE\<rparr>) s"
  have "timerlist s \<noteq> et" using assms False by (cases ts) (auto simp: einv_def elist_def)
  then have "etimer_stop now et s = Some ?s"
    using before_loop_absent [of "ets s" "timerlist s" ts et] assms False by (simp add: etimer_stop_def einv_def elist_def)
  moreover have "einv ?s ts" using assms(1) False by (auto simp: einv_def elist_upd_outside)
  ultimately show ?thesis using False by (auto simp: remove1_not_in etimer_expired_def others_kept_def)
qed

text \<open>Purging the timers of an exited process.\<close>

definition data_kept :: "'u esys \<Rightarrow> 'u esys \<Rightarrow> bool" where
  "data_kept s s' \<longleftrightarrow> kern s' = kern s \<and> next_expiration s' = next_expiration s \<and>
     (\<forall>t. et_timer (ets s' t) = et_timer (ets s t) \<and> et_p (ets s' t) = et_p (ets s t))"

lemma purge_head_chain:
  "lchain (\<lambda>t. et_next (es t)) t ts \<Longrightarrow>
     \<exists>h. purge_head es p t = Some h \<and> lchain (\<lambda>t. et_next (es t)) h (dropWhile (\<lambda>t. et_p (es t) = p) ts)"
proof (induction ts arbitrary: t)
  case Nil
  then show ?case by (subst purge_head.simps) simp
next
  case (Cons x xs)
  then show ?case by (subst purge_head.simps) auto
qed

lemma purge_rest_chain:
  "lchain (enext s) t (t # xs) \<Longrightarrow> distinct (t # xs) \<Longrightarrow>
     \<exists>s'. purge_rest p t s = Some s' \<and> lchain (enext s') t (t # filter (\<lambda>x. et_p (ets s x) \<noteq> p) xs) \<and>
       timerlist s' = timerlist s \<and> data_kept s s' \<and> (\<forall>y. y \<notin> insert t (set xs) \<longrightarrow> enext s' y = enext s y)"
proof (induction xs arbitrary: t s)
  case Nil
  then show ?case by (subst purge_rest.simps) (simp add: data_kept_def)
next
  case (Cons x xs)
  then have x: "enext s t = x" "x \<noteq> NULL" "lchain (enext s) (enext s x) xs" by auto
  show ?case
  proof (cases "et_p (ets s x) = p")
    case True
    let ?s = "upd_et t (\<lambda>e. e\<lparr>et_next := enext s x\<rparr>) s"
    have "lchain (enext ?s) t (t # xs)" using x Cons.prems by (auto simp: lseg_upd)
    from Cons.IH [OF this] Cons.prems(2) obtain s' where s': "purge_rest p t ?s = Some s'"
      "lchain (enext s') t (t # filter (\<lambda>x. et_p (ets ?s x) \<noteq> p) xs)" "timerlist s' = timerlist ?s"
      "data_kept ?s s'" "\<forall>y. y \<notin> insert t (set xs) \<longrightarrow> enext s' y = enext ?s y" by auto
    have "purge_rest p t s = Some s'" using s'(1) x True by (subst purge_rest.simps) simp
    moreover have "filter (\<lambda>x. et_p (ets ?s x) \<noteq> p) xs = filter (\<lambda>x. et_p (ets s x) \<noteq> p) xs"
      by (intro filter_cong) auto
    moreover have "data_kept s s'" using s'(4) by (auto simp: data_kept_def)
    ultimately show ?thesis using s'(2,3,5) True by auto
  next
    case False
    have "lchain (enext s) x (x # xs)" using x by simp
    from Cons.IH [OF this] Cons.prems(2) obtain s' where s': "purge_rest p x s = Some s'"
      "lchain (enext s') x (x # filter (\<lambda>x. et_p (ets s x) \<noteq> p) xs)" "timerlist s' = timerlist s"
      "data_kept s s'" "\<forall>y. y \<notin> insert x (set xs) \<longrightarrow> enext s' y = enext s y" by auto
    have "purge_rest p t s = Some s'" using s'(1) x False by (subst purge_rest.simps) simp
    moreover have "enext s' t = x" using s'(5) x(1) Cons.prems(2) by auto
    ultimately show ?thesis using s' Cons.prems False by auto
  qed
qed

lemma filter_dropWhile: "filter (\<lambda>x. \<not> P x) (dropWhile P xs) = filter (\<lambda>x. \<not> P x) xs"
  by (induction xs) auto

lemma etimer_exited_einv:
  assumes "einv s ts"
  shows "\<exists>s'. etimer_exited p s = Some s' \<and> einv s' (filter (\<lambda>t. et_p (ets s t) \<noteq> p) ts) \<and> data_kept s s'"
proof -
  let ?d = "dropWhile (\<lambda>t. et_p (ets s t) = p) ts"
  obtain h where h: "purge_head (ets s) p (timerlist s) = Some h" "lchain (enext s) h ?d"
    using purge_head_chain [of "ets s" "timerlist s" ts p] assms by (auto simp: einv_def elist_def)
  let ?s = "s\<lparr>timerlist := h\<rparr>"
  have f: "filter (\<lambda>t. et_p (ets s t) \<noteq> p) ts = filter (\<lambda>t. et_p (ets s t) \<noteq> p) ?d" by (simp add: filter_dropWhile)
  show ?thesis
  proof (cases ?d)
    case Nil
    then have "h = NULL" using h(2) by (simp del: dropWhile_eq_Nil_conv)
    then have "etimer_exited p s = Some ?s" using h(1) by (simp add: etimer_exited_def)
    moreover have "filter (\<lambda>t. et_p (ets s t) \<noteq> p) ts = []" using Nil f by simp
    moreover have "einv ?s []" using h Nil by (simp add: einv_def elist_def)
    ultimately show ?thesis by (auto simp: data_kept_def)
  next
    case (Cons x xs)
    then have x: "h = x" "x \<noteq> NULL" using h(2) unfolding Cons by auto
    have x3: "et_p (ets s x) \<noteq> p" using Cons by (simp add: dropWhile_eq_Cons_conv)
    have "lchain (enext ?s) x (x # xs)" using h(2) Cons x(1) by simp
    moreover have "distinct (x # xs)" using elist_distinct [of s ts] assms Cons
      by (metis distinct_dropWhile einv_def)
    ultimately obtain s' where s': "purge_rest p x ?s = Some s'"
      "lchain (enext s') x (x # filter (\<lambda>x. et_p (ets ?s x) \<noteq> p) xs)" "timerlist s' = timerlist ?s" "data_kept ?s s'"
      using purge_rest_chain [of ?s x xs p] by blast
    have "filter (\<lambda>t. et_p (ets s t) \<noteq> p) ts = x # filter (\<lambda>t. et_p (ets s t) \<noteq> p) xs"
      unfolding f Cons using x3 by simp
    moreover have "etimer_exited p s = Some s'" using h(1) s'(1) x by (simp add: etimer_exited_def)
    moreover have "set (filter (\<lambda>t. et_p (ets s t) \<noteq> p) ts) \<subseteq> set ts" by auto
    ultimately show ?thesis using s' assms x(1) by (auto simp: einv_def elist_def data_kept_def)
  qed
qed

section \<open>A poll delivers the expired timers\<close>

definition timer_event :: "'u esys \<Rightarrow> ptr \<Rightarrow> event_data" where
  "timer_event s t = \<lparr>ed_ev = PROCESS_EVENT_TIMER, ed_data = t, ed_p = et_p (ets s t)\<rparr>"

definition free_events :: "'u kernel \<Rightarrow> nat" where
  "free_events k = 32 - length (queue_contents k)"

text \<open>The state after the delivery of \<open>t\<close>, whose predecessor on the list is \<open>u\<close>.\<close>

definition delivered :: "clock_time \<Rightarrow> ptr \<Rightarrow> ptr \<Rightarrow> 'u esys \<Rightarrow> 'u esys" where
  "delivered now u t s =
     upd_et t (\<lambda>e. e\<lparr>et_next := NULL\<rparr>)
       (unlink_et u t (upd_et t (\<lambda>e. e\<lparr>et_p := PROCESS_NONE\<rparr>)
          (s\<lparr>kern := snd (post_event (kern s) (timer_event s t))\<rparr>)))"

lemma post_timer_event:
  "process_post (et_p (ets s t)) PROCESS_EVENT_TIMER t (kern s) = post_event (kern s) (timer_event s t)"
  by (simp add: post_event_def timer_event_def)

text \<open>With the queue full, the rest of the pass only asks for another poll.\<close>

lemma request_poll_again [simp]:
  "etimer_request_poll (etimer_request_poll s) = etimer_request_poll s"
  by (auto simp: etimer_request_poll_def process_poll_def)

lemma queue_poll [simp]: "queue_contents (process_poll p k) = queue_contents k" "queue_wf (process_poll p k) = queue_wf k"
  "nevents (process_poll p k) = nevents k"
  by (auto simp: process_poll_def queue_contents_def queue_wf_def)

lemma scan_full:
  "lchain (enext s) t ts \<Longrightarrow> unat (nevents (kern s)) = 32 \<Longrightarrow>
     poll_scan now t u s = Some (if \<exists>x \<in> set ts. expired_at now s x then etimer_request_poll s else s)"
proof (induction ts arbitrary: t u s)
  case Nil
  then show ?case by (subst poll_scan.simps) simp
next
  case (Cons x xs)
  then have x: "t = x" "x \<noteq> NULL" "lchain (enext s) (enext s x) xs" by auto
  show ?case
  proof (cases "expired_at now s x")
    case True
    let ?s = "etimer_request_poll s"
    have "poll_scan now t u s = poll_scan now (enext ?s x) x ?s"
      using True x Cons.prems(2) post_event_full [of "kern s"]
      by (subst poll_scan.simps) (simp add: expired_at_def post_timer_event Let_def)
    also have "\<dots> = Some (if \<exists>y \<in> set xs. expired_at now ?s y then etimer_request_poll ?s else ?s)"
      by (rule Cons.IH) (use x Cons.prems(2) in simp_all)
    finally show ?thesis using True by simp
  next
    case False
    have "poll_scan now t u s = poll_scan now (enext s x) x s"
      using False x by (subst poll_scan.simps) (simp add: expired_at_def)
    also have "\<dots> = Some (if \<exists>y \<in> set xs. expired_at now s y then etimer_request_poll s else s)"
      by (rule Cons.IH) (use x Cons.prems(2) in simp_all)
    finally show ?thesis using False by simp
  qed
qed

lemma scan_skip:
  "lseg (enext s) t (ys @ [v]) r \<Longrightarrow> \<forall>y \<in> set (ys @ [v]). \<not> expired_at now s y \<Longrightarrow>
     poll_scan now t u s = poll_scan now r v s"
proof (induction ys arbitrary: t u)
  case Nil
  then show ?case by (subst poll_scan.simps) (simp add: expired_at_def)
next
  case (Cons y ys)
  then have "poll_scan now t u s = poll_scan now (enext s y) y s"
    by (subst poll_scan.simps) (simp add: expired_at_def)
  also have "\<dots> = poll_scan now r v s" using Cons by simp
  finally show ?case .
qed

lemma scan_skip_pred:
  assumes "lseg (enext s) t ys r" "\<forall>y \<in> set ys. \<not> expired_at now s y"
  shows "poll_scan now t NULL s = poll_scan now r (pred_of ys) s"
proof (cases ys rule: rev_cases)
  case Nil
  then show ?thesis using assms by (simp add: pred_of_def)
next
  case (snoc xs v)
  then show ?thesis using scan_skip [of s t xs v r now NULL] assms by (simp add: pred_of_def)
qed

lemma length_queue: "length (queue_contents k) = unat (nevents k)"
  by (simp add: queue_contents_def)

lemma delivered_elist:
  assumes "elist s (ys @ t # zs)"
  shows "elist (delivered now (pred_of ys) t s) (ys @ zs)"
proof -
  let ?s = "upd_et t (\<lambda>e. e\<lparr>et_p := PROCESS_NONE\<rparr>) (s\<lparr>kern := snd (post_event (kern s) (timer_event s t))\<rparr>)"
  have "elist ?s (ys @ t # zs)" using assms by (simp add: elist_upd_same)
  from elist_unlink [OF this] elist_distinct [OF assms] show ?thesis
    by (simp add: delivered_def elist_upd_outside)
qed

lemma delivered_sel:
  "kern (delivered now u t s) = snd (post_event (kern s) (timer_event s t))"
  "et_timer (ets (delivered now u t s) x) = et_timer (ets s x)"
  "et_p (ets (delivered now u t s) x) = (if x = t then PROCESS_NONE else et_p (ets s x))"
  by (simp_all add: delivered_def)

lemma scan_deliver:
  assumes "expired_at now s t" "t \<noteq> NULL" "fst (post_event (kern s) (timer_event s t))"
  shows "poll_scan now t u s =
    do { s1 \<leftarrow> update_time now (delivered now u t s); poll_scan now (timerlist s1) NULL s1 }"
proof -
  obtain k where p: "post_event (kern s) (timer_event s t) = (True, k)"
    using assms(3) by (cases "post_event (kern s) (timer_event s t)") auto
  show ?thesis
    using assms(1,2) by (subst poll_scan.simps)
      (simp add: expired_at_def post_timer_event p delivered_def unlink_et_def Let_def)
qed

definition poll_result :: "clock_time \<Rightarrow> 'u esys \<Rightarrow> ptr list \<Rightarrow> ptr list \<Rightarrow> 'u esys \<Rightarrow> bool" where
  "poll_result now s ts D s' \<longleftrightarrow>
     einv s' (filter (\<lambda>t. t \<notin> set D) ts) \<and>
     queue_contents (kern s') = queue_contents (kern s) @ map (timer_event s) D \<and> queue_wf (kern s') \<and>
     (\<forall>t. et_timer (ets s' t) = et_timer (ets s t) \<and>
        et_p (ets s' t) = (if t \<in> set D then PROCESS_NONE else et_p (ets s t))) \<and>
     p_state (kern s') = p_state (kern s)"

lemma post_same: "p_state (snd (post_event k e)) = p_state k"
  by (simp add: post_event_def process_post_def)

lemma delivered_step:
  assumes inv: "einv s ts" "queue_wf (kern s)" and split: "ts = ys @ t # zs"
    and ys: "\<forall>y \<in> set ys. \<not> expired_at now s y" and t: "expired_at now s t" and room: "free_events (kern s) > 0"
  obtains e where
    "etimer_poll now s = etimer_poll now ((delivered now (pred_of ys) t s)\<lparr>next_expiration := e\<rparr>)"
    "poll_result now s ts [t] ((delivered now (pred_of ys) t s)\<lparr>next_expiration := e\<rparr>)"
    "filter (\<lambda>x. x \<notin> set [t]) ts = ys @ zs"
    "earliest now ((delivered now (pred_of ys) t s)\<lparr>next_expiration := e\<rparr>) (ys @ zs)"
proof -
  let ?d = "delivered now (pred_of ys) t s"
  have l: "elist s (ys @ t # zs)" using inv(1) split by (simp add: einv_def)
  have d: "t \<notin> set ys" "t \<notin> set zs" "t \<noteq> NULL" using elist_distinct [OF l] elist_null [OF l] by auto
  have "unat (nevents (kern s)) < 32" using room by (simp add: free_events_def length_queue)
  note q = post_event_room [OF inv(2) this, of "timer_event s t"]
  obtain e where e: "update_time now ?d = Some (?d\<lparr>next_expiration := e\<rparr>)" "earliest now (?d\<lparr>next_expiration := e\<rparr>) (ys @ zs)"
    using update_time_elist [OF delivered_elist [OF l]] by blast
  have "etimer_poll now s = poll_scan now t (pred_of ys) s"
    unfolding etimer_poll_def using l ys by (intro scan_skip_pred) (auto simp: elist_def chain_simps)
  also have "\<dots> = etimer_poll now (?d\<lparr>next_expiration := e\<rparr>)"
    using scan_deliver [OF t d(3), of "pred_of ys"] q e(1) by (simp add: etimer_poll_def)
  finally have 1: "etimer_poll now s = etimer_poll now (?d\<lparr>next_expiration := e\<rparr>)" .
  have f: "filter (\<lambda>x. x \<notin> set [t]) ts = ys @ zs"
  proof -
    have "filter (\<lambda>x. x \<noteq> t) ys = ys" "filter (\<lambda>x. x \<noteq> t) zs = zs" using d by (auto intro!: filter_True)
    then show ?thesis using split by simp
  qed
  have "einv (?d\<lparr>next_expiration := e\<rparr>) (ys @ zs)"
    using delivered_elist [OF l, of now] inv(1) split d by (auto simp: einv_def delivered_sel)
  then have 2: "poll_result now s ts [t] (?d\<lparr>next_expiration := e\<rparr>)"
    unfolding poll_result_def f using q by (simp add: delivered_sel post_same)
  show thesis by (rule that [OF 1 2 f e(2)])
qed

lemma etimer_poll_result:
  "einv s ts \<Longrightarrow> queue_wf (kern s) \<Longrightarrow>
     \<exists>s'. etimer_poll now s = Some s' \<and>
       poll_result now s ts (take (free_events (kern s)) (filter (expired_at now s) ts)) s' \<and>
       (free_events (kern s) < length (filter (expired_at now s) ts) \<longrightarrow> p_state (kern s) etimer_process \<in> {1, 2} \<longrightarrow>
          poll_requested (kern s') \<and> p_needspoll (kern s') etimer_process)"
proof (induction "length (filter (expired_at now s) ts)" arbitrary: s ts)
  case 0
  then have "\<forall>t \<in> set ts. \<not> expired_at now s t" by (simp add: filter_empty_conv)
  then have "etimer_poll now s = poll_scan now NULL (pred_of ts) s"
    unfolding etimer_poll_def using 0(2) by (intro scan_skip_pred) (simp_all add: einv_def elist_def)
  then have "etimer_poll now s = Some s" by (subst (asm) poll_scan.simps) simp
  moreover have "filter (expired_at now s) ts = []" using 0(1) by simp
  ultimately show ?case using 0 by (simp add: poll_result_def)
next
  case (Suc n)
  have "\<exists>t \<in> set ts. expired_at now s t" using Suc.hyps(2) by (metis filter_False list.size(3) nat.distinct(1))
  then obtain ys t zs where split: "ts = ys @ t # zs" "expired_at now s t" "\<forall>y \<in> set ys. \<not> expired_at now s y"
    using split_list_first_prop [of ts "expired_at now s"] by blast
  have E: "filter (expired_at now s) ts = t # filter (expired_at now s) zs" using split by (simp add: filter_empty_conv)
  show ?case
  proof (cases "free_events (kern s) = 0")
    case True
    then have "unat (nevents (kern s)) = 32" using Suc.prems(2) by (simp add: free_events_def length_queue queue_wf_def)
    then have "etimer_poll now s = Some (etimer_request_poll s)"
      using scan_full [of s "timerlist s" ts now NULL] Suc.prems(1) split(1,2)
      by (auto simp: etimer_poll_def einv_def elist_def)
    moreover have "poll_result now s ts [] (etimer_request_poll s)"
      using Suc.prems by (simp add: poll_result_def einv_def) (simp add: process_poll_def)
    ultimately show ?thesis using True by (auto simp: process_poll_def etimer_process_def)
  next
    case False
    then obtain e where s1: "etimer_poll now s = etimer_poll now ((delivered now (pred_of ys) t s)\<lparr>next_expiration := e\<rparr>)"
      "poll_result now s ts [t] ((delivered now (pred_of ys) t s)\<lparr>next_expiration := e\<rparr>)"
      "filter (\<lambda>x. x \<notin> set [t]) ts = ys @ zs"
      using delivered_step [OF Suc.prems split(1,3,2)] by auto
    let ?s = "(delivered now (pred_of ys) t s)\<lparr>next_expiration := e\<rparr>"
    have r: "einv ?s (ys @ zs)" "queue_wf (kern ?s)"
      "queue_contents (kern ?s) = queue_contents (kern s) @ [timer_event s t]"
      "\<And>x. et_timer (ets ?s x) = et_timer (ets s x)" "\<And>x. et_p (ets ?s x) = (if x = t then PROCESS_NONE else et_p (ets s x))"
      "p_state (kern ?s) = p_state (kern s)"
      using s1(2) unfolding poll_result_def s1(3) by simp_all
    have ex: "expired_at now ?s = expired_at now s" by (rule ext) (simp only: expired_at_def r(4))
    have E1: "filter (expired_at now ?s) (ys @ zs) = filter (expired_at now s) zs" unfolding ex using split(3) by simp
    then have "n = length (filter (expired_at now ?s) (ys @ zs))" using Suc.hyps(2) E by simp
    from Suc.hyps(1) [OF this r(1,2)] obtain s' where s': "etimer_poll now ?s = Some s'"
      "poll_result now ?s (ys @ zs) (take (free_events (kern ?s)) (filter (expired_at now s) zs)) s'"
      "free_events (kern ?s) < length (filter (expired_at now s) zs) \<longrightarrow> p_state (kern ?s) etimer_process \<in> {1, 2} \<longrightarrow>
          poll_requested (kern s') \<and> p_needspoll (kern s') etimer_process"
      unfolding E1 by blast
    define D where "D = take (free_events (kern ?s)) (filter (expired_at now s) zs)"
    have fr: "free_events (kern s) = Suc (free_events (kern ?s))"
      using False r(3) by (simp add: free_events_def del: esys.simps)
    have D: "take (free_events (kern s)) (filter (expired_at now s) ts) = t # D"
      unfolding E fr D_def by simp
    have "set D \<subseteq> set zs" using set_take_subset unfolding D_def by fastforce
    moreover have "t \<notin> set zs" using Suc.prems(1) elist_distinct split(1) unfolding einv_def by fastforce
    ultimately have tD: "t \<notin> set D" by blast
    have flt: "filter (\<lambda>x. x \<notin> set (t # D)) ts = filter (\<lambda>x. x \<notin> set D) (ys @ zs)"
      unfolding s1(3) [symmetric] filter_filter by (intro filter_cong) auto
    have ev: "map (timer_event ?s) D = map (timer_event s) D"
      using tD by (auto simp: timer_event_def delivered_sel)
    have "poll_result now s ts (t # D) s'"
      using s'(2) unfolding poll_result_def flt D_def [symmetric] ev r(3,4,5,6) by auto
    then show ?thesis using s1(1) s'(1,3) D fr E r(6) by (simp del: esys.simps)
  qed
qed

section \<open>Correctness\<close>

lemma others_kept_upd: "others_kept et (upd_et et f s) s' = others_kept et s s'"
  by (simp add: others_kept_def)

lemma einv_upd_timer: "einv (upd_et et (\<lambda>e. e\<lparr>et_timer := f e\<rparr>) s) ts = einv s ts"
  by (auto simp: einv_def elist_upd_same)


definition two_timers :: "nat esys" where
  "two_timers = \<lparr>kern = root_kernel\<lparr>process_current := 5, p_state := (\<lambda>_. 1)\<rparr>, timerlist = 10, next_expiration = 0,
     ets = (\<lambda>t. \<lparr>et_timer = \<lparr>t_start = 100, t_interval = (if t = 10 then 20 else if t = 12 then 30 else 80)\<rparr>,
                et_p = (if t = 10 then 6 else 7), et_next = (if t = 10 then 12 else 0)\<rparr>)\<rparr>"

lemma two_timers_einv: "einv two_timers [10, 12]" "queue_wf (kern two_timers)" "process_current (kern two_timers) = 5"
  "queue_contents (kern two_timers) = []"
  by (simp_all add: two_timers_def einv_def elist_def queue_wf_def root_kernel_def process_init_def queue_contents_def)


text \<open>
  C16. A poll of the timer process returns and posts one timer event to the owner of
  each expired timer, in list order, as long as the event queue has room; exactly these timers
  leave the list and count as expired, all others stay with their values. When the queue
  cannot take them all, another poll is requested, so that no expired timer is forgotten.
\<close>

theorem etimer_poll_delivers:
  fixes now :: clock_time
  assumes "einv s ts" and "queue_wf (kern s)"
  defines "due \<equiv> filter (\<lambda>t. timer_expired now (et_timer (ets s t))) ts"
  defines "D \<equiv> take (32 - length (queue_contents (kern s))) due"
  shows "\<exists>s'. etimer_thread now PROCESS_EVENT_POLL d s = Some s' \<and>
    einv s' (filter (\<lambda>t. t \<notin> set D) ts) \<and>
    queue_contents (kern s') = queue_contents (kern s) @ map (timer_event s) D \<and>
    (\<forall>t. et_timer (ets s' t) = et_timer (ets s t) \<and> (etimer_expired t s' \<longleftrightarrow> t \<in> set D \<or> etimer_expired t s)) \<and>
    (D \<noteq> due \<longrightarrow> p_state (kern s) etimer_process \<in> {1, 2} \<longrightarrow>
       poll_requested (kern s') \<and> p_needspoll (kern s') etimer_process)"
proof -
  have due: "filter (expired_at now s) ts = due" by (simp add: due_def expired_at_def [abs_def])
  obtain s' where s': "etimer_poll now s = Some s'" "poll_result now s ts D s'"
    "free_events (kern s) < length due \<longrightarrow> p_state (kern s) etimer_process \<in> {1, 2} \<longrightarrow>
          poll_requested (kern s') \<and> p_needspoll (kern s') etimer_process"
    using etimer_poll_result [OF assms(1,2), of now] unfolding due D_def free_events_def by blast
  have "free_events (kern s) < length due" if "D \<noteq> due"
    using that unfolding D_def free_events_def by (metis not_le take_all)
  then show ?thesis
    using s' by (auto simp: etimer_thread_def poll_result_def etimer_expired_def)
qed

theorem etimer_poll_delivers_witness:
  "\<exists>s'. etimer_thread 125 PROCESS_EVENT_POLL 0 two_timers = Some s' \<and> einv s' [12] \<and>
     queue_contents (kern s') = [\<lparr>ed_ev = PROCESS_EVENT_TIMER, ed_data = 10, ed_p = 6\<rparr>] \<and> etimer_expired 10 s'"
proof -
  have due: "filter (\<lambda>t. timer_expired 125 (et_timer (ets two_timers t))) [10, 12] = [10]"
    by (simp add: two_timers_def timer_expired_def)
  have "timer_event two_timers 10 = \<lparr>ed_ev = PROCESS_EVENT_TIMER, ed_data = 10, ed_p = 6\<rparr>"
    by (simp add: timer_event_def two_timers_def)
  then show ?thesis
    using etimer_poll_delivers [OF two_timers_einv(1,2), of 125 0] unfolding due two_timers_einv(4) by auto
qed

end
