(* ===== verification/Ctimer.thy ===== *)
theory Ctimer
  imports Etimer
begin

text \<open>
  Callback timers (\<open>core/sys/ctimer.c\<close>): a list of the list library whose
  elements contain an event timer owned by \<open>ctimer_process\<close>; when the process
  receives the timer event of an element, it takes the element off the list and calls
  its callback in the context of the process that set it. Built on the models of
  \<open>list.c\<close>, \<open>etimer.c\<close> and \<open>process.c\<close>. The callbacks are a parameter.
\<close>

section \<open>State\<close>

text \<open>The \<open>next\<close> field is in the list store, the event timer at \<open>&c->etimer\<close> in the store of \<open>Etimer\<close>.\<close>

record ctimer =
  ct_p :: ptr
  ct_f :: ptr
  ct_ptr :: ptr

record 'u csys =
  ce :: "'u esys"
  cl :: list_heap
  cts :: "ptr \<Rightarrow> ctimer"
  ct_initialized :: bool

definition ctimer_process :: ptr where "ctimer_process = 3"

definition ctimer_list :: nat where "ctimer_list = 0"

definition et_of :: "ptr \<Rightarrow> ptr" where "et_of c = c + 2"

text \<open>\<open>PROCESS_CURRENT()\<close> and the macros \<open>PROCESS_CONTEXT_BEGIN/END\<close>.\<close>

definition current :: "'u csys \<Rightarrow> ptr" where
  "current s = process_current (kern (ce s))"

definition set_current :: "ptr \<Rightarrow> 'u csys \<Rightarrow> 'u csys" where
  "set_current p s = s\<lparr>ce := (ce s)\<lparr>kern := (kern (ce s))\<lparr>process_current := p\<rparr>\<rparr>\<rparr>"

definition in_context :: "ptr \<Rightarrow> ('u csys \<Rightarrow> 'u csys option) \<Rightarrow> 'u csys \<Rightarrow> 'u csys option" where
  "in_context p f s = do {
     let tmp_current = current s;
     s \<leftarrow> f (set_current p s);
     Some (set_current tmp_current s)
   }"

definition lift_et :: "('u esys \<Rightarrow> 'u esys option) \<Rightarrow> 'u csys \<Rightarrow> 'u csys option" where
  "lift_et f s = do { e \<leftarrow> f (ce s); Some (s\<lparr>ce := e\<rparr>) }"

definition lift_list :: "(list_heap \<Rightarrow> list_heap option) \<Rightarrow> 'u csys \<Rightarrow> 'u csys option" where
  "lift_list f s = do { h \<leftarrow> f (cl s); Some (s\<lparr>cl := h\<rparr>) }"

section \<open>Operations\<close>

definition ctimer_set :: "clock_time \<Rightarrow> ptr \<Rightarrow> clock_time \<Rightarrow> ptr \<Rightarrow> ptr \<Rightarrow> 'u csys \<Rightarrow> 'u csys option" where
  "ctimer_set now c t f p s = do {
     let s = s\<lparr>cts := (cts s)(c := \<lparr>ct_p = current s, ct_f = f, ct_ptr = p\<rparr>)\<rparr>;
     s \<leftarrow> if ct_initialized s then in_context ctimer_process (lift_et (etimer_set now (et_of c) t)) s
          else Some (s\<lparr>ce := upd_et (et_of c) (\<lambda>e. e\<lparr>et_timer := (et_timer e)\<lparr>t_interval := t\<rparr>\<rparr>) (ce s)\<rparr>);
     lift_list (\<lambda>h. list_add h ctimer_list c) s
   }"

definition ctimer_reset :: "clock_time \<Rightarrow> ptr \<Rightarrow> 'u csys \<Rightarrow> 'u csys option" where
  "ctimer_reset now c s = do {
     s \<leftarrow> if ct_initialized s then in_context ctimer_process (lift_et (etimer_reset now (et_of c))) s else Some s;
     lift_list (\<lambda>h. list_add h ctimer_list c) s
   }"

definition ctimer_restart :: "clock_time \<Rightarrow> ptr \<Rightarrow> 'u csys \<Rightarrow> 'u csys option" where
  "ctimer_restart now c s = do {
     s \<leftarrow> if ct_initialized s then in_context ctimer_process (lift_et (etimer_restart now (et_of c))) s else Some s;
     lift_list (\<lambda>h. list_add h ctimer_list c) s
   }"

definition ctimer_stop :: "clock_time \<Rightarrow> ptr \<Rightarrow> 'u csys \<Rightarrow> 'u csys option" where
  "ctimer_stop now c s = do {
     s \<leftarrow> if ct_initialized s then lift_et (etimer_stop now (et_of c)) s
          else Some (s\<lparr>ce := upd_et (et_of c) (\<lambda>e. e\<lparr>et_next := NULL, et_p := PROCESS_NONE\<rparr>) (ce s)\<rparr>);
     lift_list (\<lambda>h. list_remove h ctimer_list c) s
   }"

partial_function (option) listed_loop :: "(ptr \<Rightarrow> ptr) \<Rightarrow> ptr \<Rightarrow> ptr \<Rightarrow> bool option" where
  "listed_loop nx c t = (if t = NULL then Some False else if t = c then Some True else listed_loop nx c (nx t))"

definition ctimer_expired :: "ptr \<Rightarrow> 'u csys \<Rightarrow> bool option" where
  "ctimer_expired c s =
     (if ct_initialized s then Some (etimer_expired (et_of c) (ce s))
      else do { l \<leftarrow> listed_loop (lnext (cl s)) c (list_head (cl s) ctimer_list); Some (\<not> l) })"

text \<open>Up to the start of the process, which is the kernel's \<open>process_start\<close>.\<close>

definition ctimer_init :: "'u csys \<Rightarrow> 'u csys" where
  "ctimer_init s = s\<lparr>ct_initialized := False, cl := list_init (cl s) ctimer_list\<rparr>"

section \<open>The process\<close>

text \<open>First activation: the timers set before it are started.\<close>

partial_function (option) start_loop :: "clock_time \<Rightarrow> ptr \<Rightarrow> 'u csys \<Rightarrow> 'u csys option" where
  "start_loop now c s =
     (if c = NULL then Some s
      else do {
        s \<leftarrow> lift_et (etimer_set now (et_of c) (t_interval (et_timer (ets (ce s) (et_of c))))) s;
        start_loop now (lnext (cl s) c) s
      })"

definition ctimer_thread_init :: "clock_time \<Rightarrow> 'u csys \<Rightarrow> 'u csys option" where
  "ctimer_thread_init now s = do {
     s \<leftarrow> start_loop now (list_head (cl s) ctimer_list) s;
     Some (s\<lparr>ct_initialized := True\<rparr>)
   }"

text \<open>A timer event: the callbacks are a function of code pointer, argument and state.\<close>

type_synonym 'u callbacks = "ptr \<Rightarrow> ptr \<Rightarrow> 'u csys \<Rightarrow> 'u csys option"

partial_function (option) event_loop :: "'u callbacks \<Rightarrow> ptr \<Rightarrow> ptr \<Rightarrow> 'u csys \<Rightarrow> 'u csys option" where
  "event_loop cb d c s =
     (if c = NULL then Some s
      else if et_of c = d then do {
        s \<leftarrow> lift_list (\<lambda>h. list_remove h ctimer_list c) s;
        in_context (ct_p (cts s c)) (\<lambda>s. if ct_f (cts s c) \<noteq> NULL then cb (ct_f (cts s c)) (ct_ptr (cts s c)) s else Some s) s
      }
      else event_loop cb d (lnext (cl s) c) s)"

definition ctimer_thread :: "'u callbacks \<Rightarrow> u8 \<Rightarrow> ptr \<Rightarrow> 'u csys \<Rightarrow> 'u csys option" where
  "ctimer_thread cb ev d s =
     (if ev = PROCESS_EVENT_TIMER then event_loop cb d (list_head (cl s) ctimer_list) s else Some s)"

section \<open>Invariant\<close>

definition cinv :: "'u csys \<Rightarrow> ptr list \<Rightarrow> ptr list \<Rightarrow> bool" where
  "cinv s cs ts \<longleftrightarrow> is_list (cl s) ctimer_list cs \<and> einv (ce s) ts"

lemma et_of_inj [simp]: "et_of a = et_of b \<longleftrightarrow> a = b"
  by (simp add: et_of_def)

lemma et_of_not_null [simp]: "et_of c \<noteq> NULL"
  by (simp add: et_of_def)

lemma set_current_sel [simp]:
  "cl (set_current p s) = cl s" "cts (set_current p s) = cts s" "ct_initialized (set_current p s) = ct_initialized s"
  "current (set_current p s) = p" "ets (ce (set_current p s)) = ets (ce s)"
  "timerlist (ce (set_current p s)) = timerlist (ce s)" "next_expiration (ce (set_current p s)) = next_expiration (ce s)"
  by (simp_all add: set_current_def current_def)

lemma set_current_twice [simp]: "set_current p (set_current q s) = set_current p s"
  by (simp add: set_current_def)

lemma set_current_id [simp]: "set_current (current s) s = s"
  by (simp add: set_current_def current_def)

lemma set_current_ce [simp]: "(set_current p s)\<lparr>ce := e\<rparr> = s\<lparr>ce := e\<rparr>"
  by (simp add: set_current_def)

lemma einv_set_current [simp]: "einv (ce (set_current p s)) ts = einv (ce s) ts"
  by (simp add: set_current_def einv_def)

lemma earliest_set_current [simp]: "earliest now (ce (set_current p s)) ts = earliest now (ce s) ts"
  by (simp add: set_current_def earliest_def etimer_expiration_time_def)

definition running_list :: "ptr \<Rightarrow> ptr list \<Rightarrow> ptr list" where
  "running_list t ts = (if t \<in> set ts then ts else t # ts)"

lemma list_add_cinv:
  assumes "is_list (cl s) ctimer_list cs" "c \<noteq> NULL"
  shows "\<exists>h. lift_list (\<lambda>h. list_add h ctimer_list c) s = Some (s\<lparr>cl := h\<rparr>) \<and> is_list h ctimer_list (ladd c cs)"
  using list_add_is_list [OF assms] by (auto simp: lift_list_def ladd_def)

lemma list_remove_cinv:
  assumes "is_list (cl s) ctimer_list cs"
  shows "\<exists>h. lift_list (\<lambda>h. list_remove h ctimer_list c) s = Some (s\<lparr>cl := h\<rparr>) \<and> is_list h ctimer_list (remove1 c cs)"
  using list_remove_is_list [OF assms, of c] by (auto simp: lift_list_def)

text \<open>An event timer started in the context of \<open>ctimer_process\<close>.\<close>

lemma process_current_poll [simp]: "process_current (process_poll p k) = process_current k"
  by (simp add: process_poll_def)

lemma set_in_context:
  assumes "einv (ce s) ts"
  shows "\<exists>e. in_context ctimer_process (lift_et (etimer_set now (et_of c) t)) s = Some (set_current (current s) (s\<lparr>ce := e\<rparr>)) \<and>
    einv e (running_list (et_of c) ts) \<and> etimer_expiration_time (et_of c) e = now + t \<and>
    et_p (ets e (et_of c)) = ctimer_process \<and> others_kept (et_of c) (ce s) e \<and> earliest now e (running_list (et_of c) ts)"
proof -
  let ?s = "set_current ctimer_process s"
  have "process_current (kern (ce ?s)) = ctimer_process" by (simp add: set_current_def)
  moreover have "ctimer_process \<noteq> NULL" by (simp add: ctimer_process_def)
  ultimately obtain e where e: "etimer_set now (et_of c) t (ce ?s) = Some e" "einv e (running_list (et_of c) ts)"
    "etimer_expiration_time (et_of c) e = now + t" "et_p (ets e (et_of c)) = ctimer_process" "others_kept (et_of c) (ce ?s) e"
    "earliest now e (running_list (et_of c) ts)"
    using add_timer_einv [of "upd_et (et_of c) (\<lambda>e. e\<lparr>et_timer := timer_set now t (et_timer e)\<rparr>) (ce ?s)" ts "et_of c" now]
      assms by (auto simp: einv_upd_timer others_kept_upd running_list_def etimer_set_def etimer_expiration_time_def timer_set_def)
  have "others_kept (et_of c) (ce s) e" using e(5) by (simp add: others_kept_def)
  then show ?thesis using e by (auto simp: in_context_def lift_et_def Let_def)
qed

lemma current_ce [simp]: "current (s\<lparr>cl := h\<rparr>) = current s" "current (s\<lparr>cts := f\<rparr>) = current s"
  by (simp_all add: current_def)

lemma ctimer_set_running:
  assumes "cinv s cs ts" "c \<noteq> NULL" "ct_initialized s"
  shows "\<exists>s'. ctimer_set now c t f p s = Some s' \<and> cinv s' (ladd c cs) (running_list (et_of c) ts) \<and>
    etimer_expiration_time (et_of c) (ce s') = now + t \<and> et_p (ets (ce s') (et_of c)) = ctimer_process \<and>
    cts s' = (cts s)(c := \<lparr>ct_p = current s, ct_f = f, ct_ptr = p\<rparr>) \<and> current s' = current s \<and> ct_initialized s'"
proof -
  let ?s = "s\<lparr>cts := (cts s)(c := \<lparr>ct_p = current s, ct_f = f, ct_ptr = p\<rparr>)\<rparr>"
  have "einv (ce ?s) ts" using assms(1) by (simp add: cinv_def)
  from set_in_context [OF this, of now c t] obtain e where e:
    "in_context ctimer_process (lift_et (etimer_set now (et_of c) t)) ?s = Some (set_current (current ?s) (?s\<lparr>ce := e\<rparr>))"
    "einv e (running_list (et_of c) ts)" "etimer_expiration_time (et_of c) e = now + t"
    "et_p (ets e (et_of c)) = ctimer_process" by blast
  let ?s1 = "set_current (current ?s) (?s\<lparr>ce := e\<rparr>)"
  have "is_list (cl ?s1) ctimer_list cs" using assms(1) by (simp add: cinv_def)
  from list_add_cinv [OF this assms(2)] obtain h where h:
    "lift_list (\<lambda>h. list_add h ctimer_list c) ?s1 = Some (?s1\<lparr>cl := h\<rparr>)" "is_list h ctimer_list (ladd c cs)" by blast
  have "ctimer_set now c t f p s = Some (?s1\<lparr>cl := h\<rparr>)"
    using e(1) h(1) assms(3) by (simp add: ctimer_set_def Let_def)
  moreover have "einv (ce ?s1) (running_list (et_of c) ts)" "etimer_expiration_time (et_of c) (ce ?s1) = now + t"
    using e by (simp_all add: etimer_expiration_time_def)
  ultimately show ?thesis using h(2) e(4) assms(3) by (auto simp: cinv_def)
qed

lemma ctimer_stop_running:
  assumes "cinv s cs ts" "ct_initialized s"
  shows "\<exists>s'. ctimer_stop now c s = Some s' \<and> cinv s' (remove1 c cs) (remove1 (et_of c) ts) \<and>
    etimer_expired (et_of c) (ce s') \<and> cts s' = cts s \<and> kern (ce s') = kern (ce s)"
proof -
  have "einv (ce s) ts" using assms(1) by (simp add: cinv_def)
  from etimer_stop_einv [OF this et_of_not_null, of now c] obtain e where e: "etimer_stop now (et_of c) (ce s) = Some e"
    "einv e (remove1 (et_of c) ts)" "etimer_expired (et_of c) e" "kern e = kern (ce s)" by blast
  have "is_list (cl (s\<lparr>ce := e\<rparr>)) ctimer_list cs" using assms(1) by (simp add: cinv_def)
  from list_remove_cinv [OF this, of c] obtain h where
    "lift_list (\<lambda>h. list_remove h ctimer_list c) (s\<lparr>ce := e\<rparr>) = Some (s\<lparr>ce := e, cl := h\<rparr>)"
    "is_list h ctimer_list (remove1 c cs)" by auto
  then show ?thesis using e assms(2) by (auto simp: ctimer_stop_def lift_et_def cinv_def)
qed

text \<open>The event loop finds the element whose event timer expired.\<close>

lemma event_loop_absent:
  "lchain (lnext (cl s)) c cs \<Longrightarrow> d \<notin> et_of ` set cs \<Longrightarrow> event_loop cb d c s = Some s"
proof (induction cs arbitrary: c)
  case Nil
  then show ?case by (subst event_loop.simps) simp
next
  case (Cons x xs)
  then show ?case by (subst event_loop.simps) auto
qed

lemma event_loop_found:
  "lchain (lnext (cl s)) c cs \<Longrightarrow> x \<in> set cs \<Longrightarrow> lift_list (\<lambda>h. list_remove h ctimer_list x) s = Some s1 \<Longrightarrow> cts s1 = cts s \<Longrightarrow>
     event_loop cb (et_of x) c s =
     in_context (ct_p (cts s x)) (\<lambda>s. if ct_f (cts s x) \<noteq> NULL then cb (ct_f (cts s x)) (ct_ptr (cts s x)) s else Some s) s1"
proof (induction cs arbitrary: c)
  case Nil
  then show ?case by simp
next
  case (Cons y ys)
  then show ?case by (subst event_loop.simps) (cases "y = x"; auto)
qed

text \<open>The timers set before the process runs are all started.\<close>

lemma start_loop_chain:
  "lchain (lnext (cl s)) c cs \<Longrightarrow> einv (ce s) ts \<Longrightarrow> current s \<noteq> NULL \<Longrightarrow>
     \<exists>s'. start_loop now c s = Some s' \<and> einv (ce s') (fold running_list (map et_of cs) ts) \<and> cl s' = cl s \<and> cts s' = cts s \<and>
       (\<forall>x \<in> set cs. et_p (ets (ce s') (et_of x)) = current s \<and>
          etimer_expiration_time (et_of x) (ce s') = now + t_interval (et_timer (ets (ce s) (et_of x)))) \<and>
       (\<forall>t. t \<notin> et_of ` set cs \<longrightarrow> et_timer (ets (ce s') t) = et_timer (ets (ce s) t) \<and> et_p (ets (ce s') t) = et_p (ets (ce s) t))"
proof (induction cs arbitrary: c s ts)
  case Nil
  then show ?case by (subst start_loop.simps) auto
next
  case (Cons x xs)
  let ?i = "t_interval (et_timer (ets (ce s) (et_of x)))"
  have x: "c = x" "x \<noteq> NULL" "lchain (lnext (cl s)) (lnext (cl s) x) xs" using Cons.prems(1) by auto
  obtain e where e: "etimer_set now (et_of x) ?i (ce s) = Some e" "einv e (running_list (et_of x) ts)"
    "et_timer (ets e (et_of x)) = timer_set now ?i (et_timer (ets (ce s) (et_of x)))" "et_p (ets e (et_of x)) = current s"
    "others_kept (et_of x) (ce s) e" "process_current (kern e) = current s"
    using add_timer_einv [of "upd_et (et_of x) (\<lambda>e. e\<lparr>et_timer := timer_set now ?i (et_timer e)\<rparr>) (ce s)" ts "et_of x" now]
      Cons.prems(2,3) by (auto simp: einv_upd_timer others_kept_upd running_list_def etimer_set_def current_def)
  let ?s = "s\<lparr>ce := e\<rparr>"
  have "lchain (lnext (cl ?s)) (lnext (cl s) x) xs" "einv (ce ?s) (running_list (et_of x) ts)" "current ?s \<noteq> NULL"
    using x(3) e(2,6) Cons.prems(3) by (simp_all add: current_def)
  from Cons.IH [OF this] obtain s' where s': "start_loop now (lnext (cl s) x) ?s = Some s'"
    "einv (ce s') (fold running_list (map et_of xs) (running_list (et_of x) ts))" "cl s' = cl s" "cts s' = cts s"
    "\<forall>y \<in> set xs. et_p (ets (ce s') (et_of y)) = current ?s \<and>
        etimer_expiration_time (et_of y) (ce s') = now + t_interval (et_timer (ets e (et_of y)))"
    "\<forall>t. t \<notin> et_of ` set xs \<longrightarrow> et_timer (ets (ce s') t) = et_timer (ets e t) \<and> et_p (ets (ce s') t) = et_p (ets e t)"
    by auto
  have start: "start_loop now c s = Some s'"
    using s'(1) x e(1) by (subst start_loop.simps) (simp add: lift_et_def)
  have xn: "x \<notin> set xs" using Cons.prems(1) lchain_distinct by fastforce
  have "et_p (ets (ce s') (et_of y)) = current s \<and>
      etimer_expiration_time (et_of y) (ce s') = now + t_interval (et_timer (ets (ce s) (et_of y)))"
    if "y \<in> set (x # xs)" for y
  proof (cases "y = x")
    case True
    have "et_of x \<notin> et_of ` set xs" using xn by auto
    then have "et_timer (ets (ce s') (et_of x)) = et_timer (ets e (et_of x)) \<and> et_p (ets (ce s') (et_of x)) = et_p (ets e (et_of x))"
      using s'(6) by blast
    then show ?thesis using True e(3,4) by (auto simp: etimer_expiration_time_def timer_set_def)
  next
    case False
    then show ?thesis using s'(5) that e(5,6) by (auto simp: others_kept_def current_def)
  qed
  then show ?case using start s'(2-4,6) e(5) by (auto simp: others_kept_def)
qed

lemma cinv_chain: "cinv s cs ts \<Longrightarrow> lchain (lnext (cl s)) (list_head (cl s) ctimer_list) cs"
  by (simp add: cinv_def is_list_def list_head_def)

lemma ctimer_stop_quiet:
  assumes c: "cinv s cs ts" and init: "ct_initialized s"
  shows "\<exists>s'. ctimer_stop now c s = Some s' \<and> cinv s' (remove1 c cs) (remove1 (et_of c) ts) \<and>
      etimer_expired (et_of c) (ce s') \<and> ctimer_thread cb PROCESS_EVENT_TIMER (et_of c) s' = Some s'"
proof -
  obtain s' where s': "ctimer_stop now c s = Some s'" "cinv s' (remove1 c cs) (remove1 (et_of c) ts)"
    "etimer_expired (et_of c) (ce s')" using ctimer_stop_running [OF c init] by blast
  have "distinct cs" using cinv_chain [OF c] by (rule lchain_distinct)
  then have "et_of c \<notin> et_of ` set (remove1 c cs)" by auto
  then have "ctimer_thread cb PROCESS_EVENT_TIMER (et_of c) s' = Some s'"
    using event_loop_absent [OF cinv_chain [OF s'(2)], of "et_of c" cb] by (simp add: ctimer_thread_def)
  with s' show ?thesis by blast
qed

lemma ctimer_fires:
  assumes i: "cinv s cs ts" and c: "c \<in> set cs" "ct_f (cts s c) \<noteq> NULL"
  shows "\<exists>s1. cinv s1 (remove1 c cs) ts \<and> cts s1 = cts s \<and> current s1 = ct_p (cts s c) \<and>
      ctimer_thread cb PROCESS_EVENT_TIMER (et_of c) s =
        map_option (set_current (current s)) (cb (ct_f (cts s c)) (ct_ptr (cts s c)) s1)"
proof -
  obtain h where h: "lift_list (\<lambda>h. list_remove h ctimer_list c) s = Some (s\<lparr>cl := h\<rparr>)" "is_list h ctimer_list (remove1 c cs)"
    using list_remove_cinv i unfolding cinv_def by blast
  let ?s1 = "set_current (ct_p (cts s c)) (s\<lparr>cl := h\<rparr>)"
  have "ctimer_thread cb PROCESS_EVENT_TIMER (et_of c) s =
      map_option (set_current (current s)) (cb (ct_f (cts s c)) (ct_ptr (cts s c)) ?s1)"
    using event_loop_found [OF cinv_chain [OF i] c(1) h(1), of cb] c(2)
    by (simp add: ctimer_thread_def in_context_def Let_def split: option.split)
      (cases "cb (ct_f (cts s c)) (ct_ptr (cts s c)) ?s1"; simp)
  moreover have "cinv ?s1 (remove1 c cs) ts" using i h(2) by (simp add: cinv_def)
  ultimately show ?thesis by (intro exI [of _ ?s1]) simp
qed

section \<open>Correctness\<close>

text \<open>
  C18. A running callback timer fires once. After \<open>ctimer_set\<close> the timer is on the
  list once and its event timer runs for the timer process with the new expiration; when its
  event arrives, it is off the list before its callback is called with its argument, in the
  context of the process that set it, and the context is restored afterwards. A timer event whose timer is
  not on the list, such as one still queued when the timer was stopped, calls nothing.
  The timers set before the process runs are all started by its first activation.
\<close>

theorem ctimer_set_stop_fire:
  assumes "cinv s cs ts" and "c \<noteq> NULL"
  shows "(ct_initialized s \<longrightarrow> (\<exists>s'. ctimer_set now c t f p s = Some s' \<and> cinv s' (ladd c cs) (running_list (et_of c) ts) \<and>
      etimer_expiration_time (et_of c) (ce s') = now + t \<and> et_p (ets (ce s') (et_of c)) = ctimer_process \<and> current s' = current s \<and>
      cts s' c = \<lparr>ct_p = current s, ct_f = f, ct_ptr = p\<rparr>)) \<and>
    (ct_initialized s \<longrightarrow> (\<exists>s'. ctimer_stop now c s = Some s' \<and> cinv s' (remove1 c cs) (remove1 (et_of c) ts) \<and>
      etimer_expired (et_of c) (ce s') \<and> ctimer_thread cb PROCESS_EVENT_TIMER (et_of c) s' = Some s')) \<and>
    (c \<in> set cs \<longrightarrow> ct_f (cts s c) \<noteq> NULL \<longrightarrow> (\<exists>s1. cinv s1 (remove1 c cs) ts \<and> cts s1 = cts s \<and> current s1 = ct_p (cts s c) \<and>
      ctimer_thread cb PROCESS_EVENT_TIMER (et_of c) s =
        map_option (set_current (current s)) (cb (ct_f (cts s c)) (ct_ptr (cts s c)) s1))) \<and>
    (d \<notin> et_of ` set cs \<longrightarrow> ctimer_thread cb PROCESS_EVENT_TIMER d s = Some s) \<and>
    (current s \<noteq> NULL \<longrightarrow> (\<exists>s'. ctimer_thread_init now s = Some s' \<and> ct_initialized s' \<and> cinv s' cs (fold running_list (map et_of cs) ts) \<and>
      (\<forall>x \<in> set cs. et_p (ets (ce s') (et_of x)) = current s \<and>
          etimer_expiration_time (et_of x) (ce s') = now + t_interval (et_timer (ets (ce s) (et_of x))))))"
proof (intro conjI impI)
  have l: "lchain (lnext (cl s)) (list_head (cl s) ctimer_list) cs"
    by (rule cinv_chain [OF assms(1)])
  show "\<exists>s'. ctimer_set now c t f p s = Some s' \<and> cinv s' (ladd c cs) (running_list (et_of c) ts) \<and>
      etimer_expiration_time (et_of c) (ce s') = now + t \<and> et_p (ets (ce s') (et_of c)) = ctimer_process \<and> current s' = current s \<and>
      cts s' c = \<lparr>ct_p = current s, ct_f = f, ct_ptr = p\<rparr>" if "ct_initialized s"
    using ctimer_set_running [OF assms that, of now t f p] by auto
  show "\<exists>s'. ctimer_stop now c s = Some s' \<and> cinv s' (remove1 c cs) (remove1 (et_of c) ts) \<and>
      etimer_expired (et_of c) (ce s') \<and> ctimer_thread cb PROCESS_EVENT_TIMER (et_of c) s' = Some s'" if init: "ct_initialized s"
    by (rule ctimer_stop_quiet [OF assms(1) init])
  show "\<exists>s1. cinv s1 (remove1 c cs) ts \<and> cts s1 = cts s \<and> current s1 = ct_p (cts s c) \<and>
      ctimer_thread cb PROCESS_EVENT_TIMER (et_of c) s =
        map_option (set_current (current s)) (cb (ct_f (cts s c)) (ct_ptr (cts s c)) s1)"
    if c: "c \<in> set cs" "ct_f (cts s c) \<noteq> NULL"
    by (rule ctimer_fires [OF assms(1) c])
  show "ctimer_thread cb PROCESS_EVENT_TIMER d s = Some s" if "d \<notin> et_of ` set cs"
    using event_loop_absent [OF l that, of cb] by (simp add: ctimer_thread_def)
  show "\<exists>s'. ctimer_thread_init now s = Some s' \<and> ct_initialized s' \<and> cinv s' cs (fold running_list (map et_of cs) ts) \<and>
      (\<forall>x \<in> set cs. et_p (ets (ce s') (et_of x)) = current s \<and>
          etimer_expiration_time (et_of x) (ce s') = now + t_interval (et_timer (ets (ce s) (et_of x))))" if "current s \<noteq> NULL"
    using start_loop_chain [OF l _ that, of ts now] assms(1) by (auto simp: cinv_def ctimer_thread_init_def)
qed

definition one_ctimer :: "nat csys" where
  "one_ctimer = \<lparr>ce = two_timers, cl = set_head 0 20 empty_heap,
     cts = (\<lambda>c. \<lparr>ct_p = 9, ct_f = 1, ct_ptr = c\<rparr>), ct_initialized = True\<rparr>"

lemma one_ctimer_inv: "cinv one_ctimer [20] [10, 12]" "ct_initialized one_ctimer" "cts one_ctimer 20 = \<lparr>ct_p = 9, ct_f = 1, ct_ptr = 20\<rparr>"
  using two_timers_einv(1) by (simp_all add: one_ctimer_def cinv_def is_list_def ctimer_list_def empty_heap_def)

theorem ctimer_set_stop_fire_witness:
  "(\<exists>s'. ctimer_set 100 24 50 7 8 one_ctimer = Some s' \<and> cinv s' [20, 24] [26, 10, 12]) \<and>
   (\<exists>s1. cinv s1 [] [10, 12] \<and> current s1 = 9 \<and>
      ctimer_thread (\<lambda>f a s. Some s) PROCESS_EVENT_TIMER 22 one_ctimer = Some (set_current (current one_ctimer) s1))"
proof
  show "\<exists>s'. ctimer_set 100 24 50 7 8 one_ctimer = Some s' \<and> cinv s' [20, 24] [26, 10, 12]"
    using ctimer_set_stop_fire [OF one_ctimer_inv(1), of 24 100 50 7 8 "\<lambda>f a s. Some s" 0] one_ctimer_inv(2)
    by (auto simp: et_of_def running_list_def)
  show "\<exists>s1. cinv s1 [] [10, 12] \<and> current s1 = 9 \<and>
      ctimer_thread (\<lambda>f a s. Some s) PROCESS_EVENT_TIMER 22 one_ctimer = Some (set_current (current one_ctimer) s1)"
    using ctimer_set_stop_fire [OF one_ctimer_inv(1), of 20 100 50 7 8 "\<lambda>f a s. Some s" 0] one_ctimer_inv(3)
    by (auto simp: et_of_def)
qed

end
