(* ===== verification/Trickle.thy ===== *)
theory Trickle
  imports Timer
begin

text \<open>
  The Trickle timer of \<open>core/lib/trickle-timer.c\<close> (RFC 6206) with its default settings:
  error checking, drift compensation, 32-bit randoms and the generic
  \<open>max_imax\<close>. The callback timer inside is seen through what \<open>ctimer_set\<close> writes: its
  timer, which of the two callbacks runs when it expires, and whether it is on the list of
  callback timers (\<open>ctimer_stop\<close> takes it off). The clock value
  \<open>now\<close> and the random number \<open>r\<close> are arguments.
\<close>

datatype tt_callback = Fire | Double_interval

record trickle_timer =
  i_min :: clock_time
  i_cur :: clock_time
  i_start :: clock_time
  i_max_abs :: clock_time
  tt_ct :: timer
  tt_f :: tt_callback
  tt_cb :: ptr
  tt_cb_arg :: ptr
  tt_i_max :: u8
  tt_k :: u8
  tt_c :: u8
  tt_listed :: bool

abbreviation (input) TRICKLE_TIMER_CLOCK_MAX :: clock_time where "TRICKLE_TIMER_CLOCK_MAX \<equiv> 0xFFFF"

definition TRICKLE_TIMER_INTERVAL_END :: "trickle_timer \<Rightarrow> clock_time" where
  "TRICKLE_TIMER_INTERVAL_END tt = i_start tt + i_cur tt"

definition TRICKLE_TIMER_PROTO_TX_ALLOW :: "trickle_timer \<Rightarrow> bool" where
  "TRICKLE_TIMER_PROTO_TX_ALLOW tt \<longleftrightarrow> tt_k tt = 0 \<or> tt_c tt < tt_k tt"

definition TRICKLE_TIMER_IMIN_IS_BAD :: "clock_time \<Rightarrow> bool" where
  "TRICKLE_TIMER_IMIN_IS_BAD im \<longleftrightarrow> im < 2 \<or> im > drop_bit 1 TRICKLE_TIMER_CLOCK_MAX"

text \<open>
  For \<open>Imax\<close> of 15 and more the shift is by the width of the clock type or more, which C leaves
  undefined; the model takes the value 0 that the shift loop of the AVR yields.
\<close>

definition TRICKLE_TIMER_IPAIR_IS_BAD :: "clock_time \<Rightarrow> u8 \<Rightarrow> bool" where
  "TRICKLE_TIMER_IPAIR_IS_BAD im ix \<longleftrightarrow> drop_bit (unat ix + 1) TRICKLE_TIMER_CLOCK_MAX < im - 1"

definition trickle_timer_is_running :: "trickle_timer \<Rightarrow> bool" where
  "trickle_timer_is_running tt \<longleftrightarrow> i_cur tt \<noteq> 0"

definition trickle_timer_stop :: "trickle_timer \<Rightarrow> trickle_timer" where
  "trickle_timer_stop tt = tt\<lparr>tt_listed := False, i_cur := 0\<rparr>"

definition wide_rand :: "u16 \<Rightarrow> u16 \<Rightarrow> u32" where
  "wide_rand r1 r2 = push_bit 16 (ucast r1) OR ucast r2"

text \<open>The loop of \<open>max_imax\<close>: \<open>i\<close> is 8, 4, 2, 1.\<close>

fun max_imax_loop :: "nat list \<Rightarrow> clock_time \<Rightarrow> clock_time \<Rightarrow> u8 \<Rightarrow> u8" where
  "max_imax_loop [] msk val zeros = zeros"
| "max_imax_loop (i # is) msk val zeros =
     (let msk = push_bit i msk
      in if val AND msk = 0 then max_imax_loop is msk (push_bit i val) (zeros + of_nat i)
         else max_imax_loop is msk val zeros)"

definition max_imax :: "clock_time \<Rightarrow> u8" where
  "max_imax val = max_imax_loop [8, 4, 2, 1] 0xFFFF (val - 1) 0 - 1"

definition get_t :: "u32 \<Rightarrow> clock_time \<Rightarrow> clock_time" where
  "get_t r i = (let i = drop_bit 1 i in ucast (ucast i + r mod ucast i))"

text \<open>\<open>ctimer_set(&tt->ct, t, f, tt)\<close>.\<close>

definition tt_ctimer_set :: "clock_time \<Rightarrow> clock_time \<Rightarrow> tt_callback \<Rightarrow> trickle_timer \<Rightarrow> trickle_timer" where
  "tt_ctimer_set now t f tt = tt\<lparr>tt_ct := timer_set now t (tt_ct tt), tt_f := f, tt_listed := True\<rparr>"

definition schedule_for_end :: "clock_time \<Rightarrow> trickle_timer \<Rightarrow> trickle_timer" where
  "schedule_for_end now tt =
     (let loc_clock = TRICKLE_TIMER_INTERVAL_END tt - now;
          loc_clock = (if loc_clock > drop_bit 1 TRICKLE_TIMER_CLOCK_MAX then 0 else loc_clock)
      in tt_ctimer_set now loc_clock Double_interval tt)"

definition double_interval :: "clock_time \<Rightarrow> u32 \<Rightarrow> trickle_timer \<Rightarrow> trickle_timer" where
  "double_interval now r tt =
     (let tt = tt\<lparr>tt_c := 0\<rparr>;
          last_end = TRICKLE_TIMER_INTERVAL_END tt;
          tt = (if i_cur tt \<le> drop_bit 1 (i_max_abs tt) then tt\<lparr>i_cur := push_bit 1 (i_cur tt)\<rparr>
                else tt\<lparr>i_cur := i_max_abs tt\<rparr>);
          loc_clock = get_t r (i_cur tt);
          loc_clock = (last_end + loc_clock) - now;
          loc_clock = (if loc_clock > drop_bit 1 TRICKLE_TIMER_CLOCK_MAX then 0 else loc_clock);
          tt = tt_ctimer_set now loc_clock Fire tt
      in tt\<lparr>i_start := last_end\<rparr>)"

text \<open>The protocol's callback acts on the timer through \<open>proto\<close>, given the TX flag.\<close>

definition fire :: "clock_time \<Rightarrow> (ptr \<Rightarrow> ptr \<Rightarrow> bool \<Rightarrow> trickle_timer \<Rightarrow> trickle_timer) \<Rightarrow> trickle_timer \<Rightarrow> trickle_timer" where
  "fire now proto tt =
     (let tt = (if tt_cb tt \<noteq> NULL then proto (tt_cb tt) (tt_cb_arg tt) (TRICKLE_TIMER_PROTO_TX_ALLOW tt) tt else tt)
      in if trickle_timer_is_running tt then schedule_for_end now tt else tt)"

definition new_interval :: "clock_time \<Rightarrow> u32 \<Rightarrow> trickle_timer \<Rightarrow> trickle_timer" where
  "new_interval now r tt =
     (let tt = tt\<lparr>tt_c := 0\<rparr>;
          loc_clock = get_t r (i_cur tt);
          tt = tt_ctimer_set now loc_clock Fire tt
      in tt\<lparr>i_start := t_start (tt_ct tt)\<rparr>)"

definition trickle_timer_consistency :: "trickle_timer \<Rightarrow> trickle_timer" where
  "trickle_timer_consistency tt = (if tt_c tt < 0xFF then tt\<lparr>tt_c := tt_c tt + 1\<rparr> else tt)"

definition trickle_timer_inconsistency :: "clock_time \<Rightarrow> u32 \<Rightarrow> trickle_timer \<Rightarrow> trickle_timer" where
  "trickle_timer_inconsistency now r tt =
     (if i_cur tt \<noteq> i_min tt then new_interval now r (tt\<lparr>i_cur := i_min tt\<rparr>) else tt)"

text \<open>Configuring and setting; None is \<open>TRICKLE_TIMER_ERROR\<close>. The timer pointer is not NULL.\<close>

definition trickle_timer_config :: "clock_time \<Rightarrow> u8 \<Rightarrow> u8 \<Rightarrow> trickle_timer \<Rightarrow> trickle_timer option" where
  "trickle_timer_config im ix k tt =
     (if TRICKLE_TIMER_IMIN_IS_BAD im then None
      else if ix = 0 \<or> k = 0 then None
      else (let ix = (if TRICKLE_TIMER_IPAIR_IS_BAD im ix then max_imax im else ix)
            in Some (tt\<lparr>i_min := im, tt_i_max := ix, i_max_abs := push_bit (unat ix) im, tt_k := k\<rparr>)))"

definition trickle_timer_set :: "clock_time \<Rightarrow> u32 \<Rightarrow> u32 \<Rightarrow> ptr \<Rightarrow> ptr \<Rightarrow> trickle_timer \<Rightarrow> trickle_timer option" where
  "trickle_timer_set now r1 r2 proto_cb p tt =
     (if proto_cb = NULL then None
      else (let tt = tt\<lparr>tt_cb := proto_cb, tt_cb_arg := p\<rparr>;
                tt = tt\<lparr>i_cur := ucast (ucast (i_min tt) + r1 mod ucast (i_max_abs tt - i_min tt + 1))\<rparr>
            in Some (new_interval now r2 tt)))"

section \<open>Configuration\<close>

text \<open>Scaling by two steps: \<open>max_imax\<close> counts the leading zeros of \<open>value - 1\<close>, less one.\<close>

lemma bit_ffff: "bit (0xFFFF :: u16) i \<longleftrightarrow> i < 16"
proof (cases "i < 16")
  case True
  then show ?thesis using below_16 [OF True] by (elim insertE) simp_all
qed simp

lemma and_high_zero:
  fixes v :: u16
  assumes "k \<le> 16"
  shows "v AND push_bit k 0xFFFF = 0 \<longleftrightarrow> unat v < 2 ^ k"
proof -
  have m: "bit (push_bit k 0xFFFF :: u16) i \<longleftrightarrow> k \<le> i \<and> i < 16" for i
    unfolding bit_push_bit_iff bit_ffff by auto
  show ?thesis
  proof
    assume z: "v AND push_bit k 0xFFFF = 0"
    have "\<not> bit v i" if "k \<le> i" for i
      using arg_cong [OF z, of "\<lambda>w. bit w i"] that m [of i] by (cases "i < 16") (auto simp: bit_and_iff)
    then have "v = take_bit k v" by (intro bit_word_eqI) (metis bit_take_bit_iff not_le)
    then have "unat v = take_bit k (unat v)" by (metis unsigned_take_bit_eq)
    then show "unat v < 2 ^ k" by (metis take_bit_nat_less_exp)
  next
    assume "unat v < 2 ^ k"
    then show "v AND push_bit k 0xFFFF = 0"
      by (intro bit_word_eqI) (auto simp: bit_and_iff m dest: small_bits)
  qed
qed

lemma push_u16: "unat v * 2 ^ i < 65536 \<Longrightarrow> unat (push_bit i v :: u16) = unat v * 2 ^ i"
  unfolding unsigned_push_bit_eq by (simp add: push_bit_eq_mult take_bit_nat_def)

text \<open>One step of the loop, with \<open>v\<close> already shifted by the zeros counted so far.\<close>

lemma max_imax_step:
  assumes k: "k + 2 * i = 16" and l: "l + i = 16" and low: "2 ^ k \<le> unat v"
  shows "\<exists>d v'. max_imax_loop (i # is) (push_bit k 0xFFFF) v z = max_imax_loop is (push_bit l 0xFFFF) v' (z + of_nat d)
    \<and> unat v' = unat v * 2 ^ d \<and> 2 ^ l \<le> unat v' \<and> d \<le> i"
proof -
  have m: "push_bit i (push_bit k 0xFFFF) = (push_bit l 0xFFFF :: u16)"
  proof -
    have "i + k = l" using k l by linarith
    then show ?thesis by (simp only: push_bit_push_bit)
  qed
  have "i + l = 16" "k + i = l" using k l by linarith+
  then have e: "(2::nat) ^ i * 2 ^ l = 2 ^ 16" "(2::nat) ^ k * 2 ^ i = 2 ^ l"
    unfolding power_add [symmetric] by simp_all
  show ?thesis
  proof (cases "unat v < 2 ^ l")
    case True
    then have "2 ^ i * unat v < 2 ^ i * 2 ^ l" by simp
    then have "unat v * 2 ^ i < 65536" unfolding e(1) by (simp add: mult.commute)
    note p = push_u16 [OF this]
    have "2 ^ k * 2 ^ i \<le> unat v * 2 ^ i" using low by (rule mult_le_mono1)
    then have "2 ^ l \<le> unat (push_bit i v)" unfolding e(2) p .
    moreover have "v AND push_bit l 0xFFFF = 0" using True and_high_zero [of l v] l by simp
    then have "max_imax_loop (i # is) (push_bit k 0xFFFF) v z = max_imax_loop is (push_bit l 0xFFFF) (push_bit i v) (z + of_nat i)"
      by (simp only: max_imax_loop.simps Let_def m if_True simp_thms)
    ultimately show ?thesis using p by blast
  next
    case False
    then have "v AND push_bit l 0xFFFF \<noteq> 0" using and_high_zero [of l v] l by simp
    then have "max_imax_loop (i # is) (push_bit k 0xFFFF) v z = max_imax_loop is (push_bit l 0xFFFF) v (z + of_nat 0)"
      by (simp only: max_imax_loop.simps Let_def m if_False) simp
    then show ?thesis using False by (intro exI [of _ 0] exI [of _ v]) simp
  qed
qed

lemma max_imax_zeros:
  assumes "0 < unat v"
  shows "\<exists>z \<le> 15. max_imax_loop [8, 4, 2, 1] 0xFFFF v 0 = of_nat z \<and> 2 ^ 15 \<le> unat v * 2 ^ z \<and> unat v * 2 ^ z < 2 ^ 16"
proof -
  have n: "(0::nat) + 2 * 8 = 16" "(8::nat) + 8 = 16" "(8::nat) + 2 * 4 = 16" "(12::nat) + 4 = 16" "(12::nat) + 2 * 2 = 16"
    "(14::nat) + 2 = 16" "(14::nat) + 2 * 1 = 16" "(15::nat) + 1 = 16" by simp_all
  have v: "2 ^ 0 \<le> unat v" using assms by simp
  obtain d1 v1 where 1: "max_imax_loop [8, 4, 2, 1] (push_bit 0 0xFFFF) v 0 = max_imax_loop [4, 2, 1] (push_bit 8 0xFFFF) v1 (0 + of_nat d1)"
    "unat v1 = unat v * 2 ^ d1" "2 ^ 8 \<le> unat v1" "d1 \<le> 8"
    using max_imax_step [OF n(1,2) v] by blast
  obtain d2 v2 where 2: "max_imax_loop [4, 2, 1] (push_bit 8 0xFFFF) v1 (0 + of_nat d1)
      = max_imax_loop [2, 1] (push_bit 12 0xFFFF) v2 (0 + of_nat d1 + of_nat d2)"
    "unat v2 = unat v1 * 2 ^ d2" "2 ^ 12 \<le> unat v2" "d2 \<le> 4"
    using max_imax_step [OF n(3,4) 1(3)] by blast
  obtain d3 v3 where 3: "max_imax_loop [2, 1] (push_bit 12 0xFFFF) v2 (0 + of_nat d1 + of_nat d2)
      = max_imax_loop [1] (push_bit 14 0xFFFF) v3 (0 + of_nat d1 + of_nat d2 + of_nat d3)"
    "unat v3 = unat v2 * 2 ^ d3" "2 ^ 14 \<le> unat v3" "d3 \<le> 2"
    using max_imax_step [OF n(5,6) 2(3)] by blast
  obtain d4 v4 where 4: "max_imax_loop [1] (push_bit 14 0xFFFF) v3 (0 + of_nat d1 + of_nat d2 + of_nat d3)
      = max_imax_loop [] (push_bit 15 0xFFFF) v4 (0 + of_nat d1 + of_nat d2 + of_nat d3 + of_nat d4)"
    "unat v4 = unat v3 * 2 ^ d4" "2 ^ 15 \<le> unat v4" "d4 \<le> 1"
    using max_imax_step [OF n(7,8) 3(3)] by blast
  let ?z = "d1 + d2 + d3 + d4"
  have "max_imax_loop [8, 4, 2, 1] 0xFFFF v 0 = max_imax_loop [8, 4, 2, 1] (push_bit 0 0xFFFF) v 0"
    by (simp only: push_bit_0_id id_apply)
  also have "\<dots> = of_nat ?z"
    unfolding 1(1) 2(1) 3(1) 4(1) by (simp only: max_imax_loop.simps(1) of_nat_add add_0)
  finally have "max_imax_loop [8, 4, 2, 1] 0xFFFF v 0 = of_nat ?z" .
  moreover have "unat v4 = unat v * 2 ^ ?z" using 1(2) 2(2) 3(2) 4(2) by (simp add: power_add)
  moreover have "?z \<le> 15" using 1(4) 2(4) 3(4) 4(4) by auto
  ultimately show ?thesis using 4(3) unat_less_u16 [of v4] by auto
qed

lemma unat_max_imax:
  assumes "2 \<le> unat im" "unat im \<le> 32767"
  shows "\<exists>x \<le> 14. max_imax im = of_nat x \<and> unat im * 2 ^ x \<le> 2 ^ 15 \<and> 2 ^ 15 < unat im * 2 ^ (x + 1)"
proof -
  have v: "unat (im - 1) = unat im - 1" using assms(1) by (simp add: unat_sub_if')
  then obtain z where z: "z \<le> 15" "max_imax_loop [8, 4, 2, 1] 0xFFFF (im - 1) 0 = of_nat z"
    "2 ^ 15 \<le> (unat im - 1) * 2 ^ z" "(unat im - 1) * 2 ^ z < 2 ^ 16"
    using max_imax_zeros [of "im - 1"] assms(1) by auto
  have "z \<noteq> 0" using z(3) assms(2) by (intro notI) simp
  then obtain x where x: "z = Suc x" using not0_implies_Suc by blast
  have "max_imax im = of_nat x" using z(2) x by (simp add: max_imax_def)
  moreover have "unat im * 2 ^ x \<le> 2 ^ 15"
  proof -
    have "15 - x + x = 15" using z(1) x by simp
    then have p: "(2 :: nat) ^ (15 - x) * 2 ^ x = 2 ^ 15" by (simp only: power_add [symmetric])
    have "(unat im - 1) * 2 ^ x < 2 ^ (15 - x) * 2 ^ x" unfolding p using z(4) x by simp
    then have "unat im - 1 < 2 ^ (15 - x)" unfolding mult_less_cancel2 by blast
    then have "unat im \<le> 2 ^ (15 - x)" by linarith
    then have "unat im * 2 ^ x \<le> 2 ^ (15 - x) * 2 ^ x" by (rule mult_le_mono1)
    then show ?thesis unfolding p .
  qed
  moreover have "2 ^ 15 < unat im * 2 ^ (x + 1)"
  proof -
    have "(unat im - 1) * 2 ^ z < unat im * 2 ^ z" using assms(1) by simp
    then show ?thesis using z(3) x by (simp only: Suc_eq_plus1 [symmetric])
  qed
  ultimately show ?thesis using z(1) x by auto
qed

lemma ipair_ok_iff:
  assumes "2 \<le> unat im" "unat im \<le> 32767"
  shows "\<not> TRICKLE_TIMER_IPAIR_IS_BAD im ix \<longleftrightarrow> unat im * 2 ^ unat ix \<le> 2 ^ 15"
proof -
  let ?x = "unat ix" and ?m = "unat im"
  have v: "unat (im - 1) = ?m - 1" using assms(1) by (simp add: unat_sub_if')
  have "unat (drop_bit (?x + 1) TRICKLE_TIMER_CLOCK_MAX) = 65535 div 2 ^ (?x + 1)"
    unfolding unsigned_drop_bit_eq by (simp add: drop_bit_eq_div take_bit_nat_eq_self)
  then have "\<not> TRICKLE_TIMER_IPAIR_IS_BAD im ix \<longleftrightarrow> ?m - 1 \<le> 65535 div 2 ^ (?x + 1)"
    by (simp add: TRICKLE_TIMER_IPAIR_IS_BAD_def word_less_nat_alt v not_less)
  also have "\<dots> \<longleftrightarrow> (?m - 1) * 2 ^ (?x + 1) \<le> 65535" by (rule less_eq_div_iff_mult_less_eq) simp
  also have "\<dots> \<longleftrightarrow> (?m - 1) * 2 ^ ?x < 2 ^ 15"
  proof -
    define a where "a = (?m - 1) * 2 ^ ?x"
    have a: "(?m - 1) * 2 ^ (?x + 1) = 2 * a" by (simp add: a_def)
    have "2 * a \<le> 65535 \<longleftrightarrow> a < 32768" by linarith
    then show ?thesis unfolding a a_def [symmetric] by simp
  qed
  also have "\<dots> \<longleftrightarrow> ?m * 2 ^ ?x \<le> 2 ^ 15"
  proof (cases "?x \<le> 15")
    case True
    then have "15 - ?x + ?x = 15" by simp
    then have p: "(2 :: nat) ^ (15 - ?x) * 2 ^ ?x = 2 ^ 15" by (simp only: power_add [symmetric])
    have "(?m - 1) * 2 ^ ?x < 2 ^ 15 \<longleftrightarrow> ?m - 1 < 2 ^ (15 - ?x)" unfolding p [symmetric] mult_less_cancel2 by simp
    also have "\<dots> \<longleftrightarrow> ?m \<le> 2 ^ (15 - ?x)" using assms(1) by linarith
    also have "\<dots> \<longleftrightarrow> ?m * 2 ^ ?x \<le> 2 ^ 15" unfolding p [symmetric] mult_le_cancel2 by simp
    finally show ?thesis .
  next
    case False
    then have "(2 :: nat) ^ 15 < 2 ^ ?x" by (intro power_strict_increasing) simp_all
    moreover have "1 * 2 ^ ?x \<le> (?m - 1) * 2 ^ ?x" "1 * 2 ^ ?x \<le> ?m * 2 ^ ?x"
      using assms(1) by (intro mult_le_mono1; linarith)+
    ultimately show ?thesis by linarith
  qed
  finally show ?thesis .
qed


section \<open>Intervals\<close>

lemma get_t_bounds:
  assumes "2 \<le> unat i" "unat i \<le> 2 ^ 15"
  shows "unat i div 2 \<le> unat (get_t r i) \<and> unat (get_t r i) < unat i"
proof -
  let ?h = "unat i div 2"
  have h: "unat (drop_bit 1 i) = ?h" by (simp add: drop_bit_eq_div unat_div)
  have m: "unat r mod ?h < ?h" using assms(1) by (intro mod_less_divisor) linarith
  have uh: "unat (ucast (drop_bit 1 i) :: u32) = ?h" using h unat_less_u16 [of i]
    by (simp add: unsigned_ucast_eq take_bit_nat_eq_self)
  have "unat (ucast (drop_bit 1 i) + r mod ucast (drop_bit 1 i) :: u32) = ?h + unat r mod ?h"
    using uh m assms(2) by (simp add: unat_word_ariths unat_mod)
  then have "unat (get_t r i) = (?h + unat r mod ?h) mod 65536"
    unfolding get_t_def Let_def by (simp add: unsigned_ucast_eq take_bit_nat_def)
  also have "\<dots> = ?h + unat r mod ?h" using m assms(2) by simp
  finally show ?thesis using m by linarith
qed

definition expiry :: "trickle_timer \<Rightarrow> clock_time" where
  "expiry tt = t_start (tt_ct tt) + t_interval (tt_ct tt)"

definition tt_sized :: "trickle_timer \<Rightarrow> bool" where
  "tt_sized tt \<longleftrightarrow> 2 \<le> unat (i_min tt) \<and> i_min tt \<le> i_cur tt \<and> i_cur tt \<le> i_max_abs tt \<and> unat (i_max_abs tt) \<le> 2 ^ 15"

text \<open>Waiting to fire at a random time in the second half of the current interval.\<close>

definition armed :: "trickle_timer \<Rightarrow> bool" where
  "armed tt \<longleftrightarrow> tt_sized tt \<and> tt_f tt = Fire \<and>
     unat (i_cur tt) div 2 \<le> unat (expiry tt - i_start tt) \<and> unat (expiry tt - i_start tt) < unat (i_cur tt)"

lemma sized_bounds: "tt_sized tt \<Longrightarrow> 2 \<le> unat (i_cur tt) \<and> unat (i_cur tt) \<le> 2 ^ 15"
  by (auto simp: tt_sized_def word_le_nat_alt)

lemma new_interval_armed:
  assumes "tt_sized tt"
  shows "armed (new_interval now r tt) \<and> i_cur (new_interval now r tt) = i_cur tt \<and> i_start (new_interval now r tt) = now \<and>
    tt_c (new_interval now r tt) = 0 \<and> i_max_abs (new_interval now r tt) = i_max_abs tt"
  using assms get_t_bounds [of "i_cur tt" r] sized_bounds [OF assms]
  by (simp add: new_interval_def armed_def tt_sized_def expiry_def tt_ctimer_set_def timer_set_def Let_def)

text \<open>A callback of the protocol that leaves the interval and the configuration alone (it may count and transmit).\<close>

definition interval_kept :: "(ptr \<Rightarrow> ptr \<Rightarrow> bool \<Rightarrow> trickle_timer \<Rightarrow> trickle_timer) \<Rightarrow> bool" where
  "interval_kept proto \<longleftrightarrow> (\<forall>f a b tt. i_min (proto f a b tt) = i_min tt \<and> i_cur (proto f a b tt) = i_cur tt \<and>
     i_start (proto f a b tt) = i_start tt \<and> i_max_abs (proto f a b tt) = i_max_abs tt \<and>
     tt_k (proto f a b tt) = tt_k tt \<and> tt_cb (proto f a b tt) = tt_cb tt \<and> tt_cb_arg (proto f a b tt) = tt_cb_arg tt)"

lemma half_clock: "unat (drop_bit 1 TRICKLE_TIMER_CLOCK_MAX) = 32767"
  by (simp add: drop_bit_eq_div)

text \<open>
  The next two lemmas let the callbacks run late: \<open>fire\<close> anywhere up to the end of the
  interval, \<open>double_interval\<close> up to half an interval after it. Either way the schedule
  of the following callback is the one of a punctual run.
\<close>

lemma fire_armed:
  assumes "tt_sized tt" "interval_kept proto" "0 < unat (now - i_start tt)" "unat (now - i_start tt) \<le> unat (i_cur tt)"
  shows "expiry (fire now proto tt) = TRICKLE_TIMER_INTERVAL_END tt \<and> tt_f (fire now proto tt) = Double_interval \<and>
    i_start (fire now proto tt) = i_start tt \<and> i_min (fire now proto tt) = i_min tt \<and>
    i_cur (fire now proto tt) = i_cur tt \<and> i_max_abs (fire now proto tt) = i_max_abs tt \<and>
    tt_k (fire now proto tt) = tt_k tt \<and> tt_cb (fire now proto tt) = tt_cb tt \<and> tt_cb_arg (fire now proto tt) = tt_cb_arg tt"
proof -
  define t1 where "t1 = (if tt_cb tt \<noteq> NULL then proto (tt_cb tt) (tt_cb_arg tt) (TRICKLE_TIMER_PROTO_TX_ALLOW tt) tt else tt)"
  have k: "i_min t1 = i_min tt" "i_cur t1 = i_cur tt" "i_start t1 = i_start tt" "i_max_abs t1 = i_max_abs tt"
    "tt_k t1 = tt_k tt" "tt_cb t1 = tt_cb tt" "tt_cb_arg t1 = tt_cb_arg tt"
    using assms(2) by (simp_all add: interval_kept_def t1_def)
  have b: "2 \<le> unat (i_cur tt)" "unat (i_cur tt) \<le> 2 ^ 15" using sized_bounds [OF assms(1)] by auto
  have run: "i_cur tt \<noteq> 0" using b(1) by (auto simp: unat_eq_0)
  have d: "i_start tt + i_cur tt - now = i_cur tt - (now - i_start tt)" by simp
  have u: "unat (i_start tt + i_cur tt - now) = unat (i_cur tt) - unat (now - i_start tt)"
    unfolding d using assms(4) by (intro unat_sub) (simp add: word_le_nat_alt)
  have "unat (i_start tt + i_cur tt - now) \<le> 32767" using u b(2) assms(3) by simp
  then have n: "\<not> i_start tt + i_cur tt - now > drop_bit 1 TRICKLE_TIMER_CLOCK_MAX"
    unfolding word_less_nat_alt half_clock by linarith
  have "fire now proto tt = tt_ctimer_set now (i_start tt + i_cur tt - now) Double_interval t1"
    unfolding fire_def Let_def t1_def [symmetric] trickle_timer_is_running_def schedule_for_end_def
      TRICKLE_TIMER_INTERVAL_END_def k using run n by (simp only: if_False if_True simp_thms)
  then show ?thesis by (simp add: tt_ctimer_set_def timer_set_def expiry_def k TRICKLE_TIMER_INTERVAL_END_def)
qed

lemma double_interval_size:
  assumes "tt_sized tt"
  shows "unat (if i_cur tt \<le> drop_bit 1 (i_max_abs tt) then push_bit 1 (i_cur tt) else i_max_abs tt)
    = min (2 * unat (i_cur tt)) (unat (i_max_abs tt))"
proof -
  have b: "unat (i_cur tt) \<le> unat (i_max_abs tt)" "unat (i_max_abs tt) \<le> 2 ^ 15"
    using assms by (auto simp: tt_sized_def word_le_nat_alt)
  have h: "i_cur tt \<le> drop_bit 1 (i_max_abs tt) \<longleftrightarrow> unat (i_cur tt) \<le> unat (i_max_abs tt) div 2"
    by (simp add: word_le_nat_alt drop_bit_eq_div unat_div)
  have "unat (push_bit 1 (i_cur tt)) = 2 * unat (i_cur tt)" if "unat (i_cur tt) \<le> unat (i_max_abs tt) div 2"
    using push_u16 [of "i_cur tt" 1] that b(2) by simp
  then show ?thesis using h b(1) by auto
qed

lemma double_armed:
  assumes s: "tt_sized tt" and l: "unat (now - TRICKLE_TIMER_INTERVAL_END tt) \<le> unat (i_cur tt) div 2"
  shows "armed (double_interval now r tt) \<and>
    unat (i_cur (double_interval now r tt)) = min (2 * unat (i_cur tt)) (unat (i_max_abs tt)) \<and>
    i_start (double_interval now r tt) = TRICKLE_TIMER_INTERVAL_END tt \<and> tt_c (double_interval now r tt) = 0 \<and>
    i_min (double_interval now r tt) = i_min tt \<and> i_max_abs (double_interval now r tt) = i_max_abs tt \<and>
    tt_k (double_interval now r tt) = tt_k tt \<and> tt_cb (double_interval now r tt) = tt_cb tt \<and>
    tt_cb_arg (double_interval now r tt) = tt_cb_arg tt"
proof -
  define i where "i = (if i_cur tt \<le> drop_bit 1 (i_max_abs tt) then push_bit 1 (i_cur tt) else i_max_abs tt)"
  define e where "e = TRICKLE_TIMER_INTERVAL_END tt"
  have b: "2 \<le> unat (i_cur tt)" "unat (i_cur tt) \<le> unat (i_max_abs tt)" "unat (i_max_abs tt) \<le> 2 ^ 15" "2 \<le> unat (i_min tt)"
    "unat (i_min tt) \<le> unat (i_cur tt)"
    using s by (auto simp: tt_sized_def word_le_nat_alt)
  have i: "unat i = min (2 * unat (i_cur tt)) (unat (i_max_abs tt))" unfolding i_def by (rule double_interval_size [OF s])
  have i2: "2 \<le> unat i" "unat i \<le> 2 ^ 15" "unat (i_cur tt) \<le> unat i" using i b by auto
  define t where "t = get_t r i"
  have t: "unat i div 2 \<le> unat t" "unat t < unat i" unfolding t_def using get_t_bounds [OF i2(1,2), of r] by auto
  have "unat (i_cur tt) div 2 \<le> unat i div 2" using i2(3) by (rule div_le_mono)
  then have lt: "unat (now - e) \<le> unat t" using l t(1) unfolding e_def by linarith
  have "e + t - now = t - (now - e)" by simp
  then have "unat (e + t - now) = unat t - unat (now - e)"
    using lt by (simp only: unat_sub word_le_nat_alt)
  then have n: "\<not> e + t - now > drop_bit 1 TRICKLE_TIMER_CLOCK_MAX"
    unfolding word_less_nat_alt half_clock using t(2) i2(2) by simp
  have e: "TRICKLE_TIMER_INTERVAL_END (tt\<lparr>tt_c := 0\<rparr>) = e" by (simp add: TRICKLE_TIMER_INTERVAL_END_def e_def)
  have "double_interval now r tt =
      (tt_ctimer_set now (e + t - now) Fire (tt\<lparr>tt_c := 0, i_cur := i\<rparr>))\<lparr>i_start := e\<rparr>"
  proof -
    have c: "(if i_cur (tt\<lparr>tt_c := 0\<rparr>) \<le> drop_bit 1 (i_max_abs (tt\<lparr>tt_c := 0\<rparr>))
        then tt\<lparr>tt_c := 0\<rparr>\<lparr>i_cur := push_bit 1 (i_cur (tt\<lparr>tt_c := 0\<rparr>))\<rparr>
        else tt\<lparr>tt_c := 0\<rparr>\<lparr>i_cur := i_max_abs (tt\<lparr>tt_c := 0\<rparr>)\<rparr>) = tt\<lparr>tt_c := 0, i_cur := i\<rparr>"
      by (simp add: i_def)
    have "get_t r (i_cur (tt\<lparr>tt_c := 0, i_cur := i\<rparr>)) = t" by (simp add: t_def)
    then show ?thesis using n unfolding double_interval_def Let_def e c by (simp only: if_False)
  qed
  then show ?thesis using t i i2 b
    by (simp add: armed_def tt_sized_def expiry_def tt_ctimer_set_def timer_set_def word_le_nat_alt e_def)
qed

lemma consistencies: "(trickle_timer_consistency ^^ m) tt = tt\<lparr>tt_c := of_nat (min (unat (tt_c tt) + m) 255)\<rparr>"
proof (induction m)
  case 0
  then show ?case using unat_less_u8 [of "tt_c tt"] by (simp add: min_def)
next
  case (Suc m)
  let ?c = "min (unat (tt_c tt) + m) 255"
  have u: "unat (of_nat ?c :: u8) = ?c" by (simp add: unat_of_nat)
  then have l: "(of_nat ?c :: u8) < 0xFF \<longleftrightarrow> unat (tt_c tt) + m < 255" unfolding word_less_nat_alt u by auto
  show ?case
  proof (cases "unat (tt_c tt) + m < 255")
    case True
    then have "min (unat (tt_c tt) + Suc m) 255 = ?c + 1" by simp
    then show ?thesis using Suc l True by (simp add: trickle_timer_consistency_def add.commute)
  next
    case False
    then have "min (unat (tt_c tt) + Suc m) 255 = ?c" by simp
    then show ?thesis using Suc l False by (simp add: trickle_timer_consistency_def)
  qed
qed

text \<open>
  One interval of a running timer: consistent messages are counted, \<open>fire\<close> runs in the second half
  (possibly late) and calls the protocol, more consistent messages come, and \<open>double_interval\<close> runs
  at most half an interval late.
\<close>

inductive trickle_round :: "(ptr \<Rightarrow> ptr \<Rightarrow> bool \<Rightarrow> trickle_timer \<Rightarrow> trickle_timer) \<Rightarrow> trickle_timer \<Rightarrow> trickle_timer \<Rightarrow> bool"
  for proto where
  round: "unat (i_cur tt) div 2 \<le> unat (now - i_start tt) \<Longrightarrow> unat (now - i_start tt) \<le> unat (i_cur tt) \<Longrightarrow>
    unat (now' - TRICKLE_TIMER_INTERVAL_END tt) \<le> unat (i_cur tt) div 2 \<Longrightarrow>
    trickle_round proto tt (double_interval now' r
      ((trickle_timer_consistency ^^ m') (fire now proto ((trickle_timer_consistency ^^ m) tt))))"

inductive_cases trickle_roundE: "trickle_round proto tt tt'"

lemma trickle_round_armed:
  assumes a: "trickle_round proto tt tt'" and s: "armed tt" "interval_kept proto"
  shows "armed tt' \<and> unat (i_cur tt') = min (2 * unat (i_cur tt)) (unat (i_max_abs tt)) \<and>
    i_start tt' = TRICKLE_TIMER_INTERVAL_END tt \<and> tt_c tt' = 0 \<and> i_min tt' = i_min tt \<and> i_max_abs tt' = i_max_abs tt \<and>
    tt_k tt' = tt_k tt \<and> tt_cb tt' = tt_cb tt \<and> tt_cb_arg tt' = tt_cb_arg tt"
proof -
  obtain now now' r m m' where 1: "tt' = double_interval now' r
      ((trickle_timer_consistency ^^ m') (fire now proto ((trickle_timer_consistency ^^ m) tt)))"
    "unat (i_cur tt) div 2 \<le> unat (now - i_start tt)" "unat (now - i_start tt) \<le> unat (i_cur tt)"
    "unat (now' - TRICKLE_TIMER_INTERVAL_END tt) \<le> unat (i_cur tt) div 2"
    using a by (elim trickle_roundE)
  define t1 where "t1 = (trickle_timer_consistency ^^ m) tt"
  define t2 where "t2 = (trickle_timer_consistency ^^ m') (fire now proto t1)"
  have c1: "i_min t1 = i_min tt" "i_cur t1 = i_cur tt" "i_start t1 = i_start tt" "i_max_abs t1 = i_max_abs tt"
    "tt_k t1 = tt_k tt" "tt_cb t1 = tt_cb tt" "tt_cb_arg t1 = tt_cb_arg tt" by (simp_all add: t1_def consistencies)
  have c2: "i_min t2 = i_min (fire now proto t1)" "i_cur t2 = i_cur (fire now proto t1)" "i_start t2 = i_start (fire now proto t1)"
    "i_max_abs t2 = i_max_abs (fire now proto t1)" "tt_k t2 = tt_k (fire now proto t1)" "tt_cb t2 = tt_cb (fire now proto t1)"
    "tt_cb_arg t2 = tt_cb_arg (fire now proto t1)" by (simp_all add: t2_def consistencies)
  have z: "tt_sized t1" using s(1) c1 by (simp add: armed_def tt_sized_def)
  have "2 \<le> unat (i_cur tt)" using sized_bounds [OF z] c1 by simp
  then have "0 < unat (now - i_start t1)" "unat (now - i_start t1) \<le> unat (i_cur t1)" unfolding c1 using 1(2,3) by linarith+
  note f = fire_armed [OF z s(2) this]
  have z': "tt_sized t2" using z f c2 by (simp add: tt_sized_def)
  have e: "TRICKLE_TIMER_INTERVAL_END t2 = TRICKLE_TIMER_INTERVAL_END tt"
    using f c1 c2 by (simp add: TRICKLE_TIMER_INTERVAL_END_def)
  have "unat (now' - TRICKLE_TIMER_INTERVAL_END t2) \<le> unat (i_cur t2) div 2"
    using 1(4) e f c1 c2 by simp
  then show ?thesis using double_armed [OF z', of now' r] f e c1 c2 1(1) unfolding t2_def t1_def by simp
qed

lemma trickle_rounds:
  assumes "(trickle_round proto ^^ n) tt tt'" "armed tt" "interval_kept proto"
  shows "armed tt' \<and> unat (i_cur tt') = min (2 ^ n * unat (i_cur tt)) (unat (i_max_abs tt)) \<and>
    i_start tt' = i_start tt + of_nat (\<Sum>j<n. min (2 ^ j * unat (i_cur tt)) (unat (i_max_abs tt))) \<and>
    (n \<noteq> 0 \<longrightarrow> tt_c tt' = 0) \<and> i_min tt' = i_min tt \<and> i_max_abs tt' = i_max_abs tt \<and>
    tt_k tt' = tt_k tt \<and> tt_cb tt' = tt_cb tt \<and> tt_cb_arg tt' = tt_cb_arg tt"
  using assms(1)
proof (induction n arbitrary: tt')
  case 0
  have "unat (i_cur tt) \<le> unat (i_max_abs tt)" using assms(2) by (auto simp: armed_def tt_sized_def word_le_nat_alt)
  then show ?case using 0 assms(2) by simp
next
  case (Suc n)
  then obtain t where t: "(trickle_round proto ^^ n) tt t" "trickle_round proto t tt'" by auto
  note h = Suc.IH [OF t(1)] and r = trickle_round_armed [OF t(2) _ assms(3)]
  have m: "unat (i_cur t) = min (2 ^ n * unat (i_cur tt)) (unat (i_max_abs tt))" using h by simp
  have "of_nat (unat (i_cur t)) = i_cur t" by simp
  then have "i_cur t = of_nat (min (2 ^ n * unat (i_cur tt)) (unat (i_max_abs tt)))" unfolding m by (rule sym)
  then have "TRICKLE_TIMER_INTERVAL_END t = i_start tt
      + of_nat (\<Sum>j<Suc n. min (2 ^ j * unat (i_cur tt)) (unat (i_max_abs tt)))"
    using h by (simp add: TRICKLE_TIMER_INTERVAL_END_def add.assoc)
  then show ?case using h r by (auto simp: min_def)
qed

lemma tx_allowed_iff:
  assumes "tt_c tt = 0"
  shows "TRICKLE_TIMER_PROTO_TX_ALLOW ((trickle_timer_consistency ^^ m) tt) \<longleftrightarrow> tt_k tt = 0 \<or> m < unat (tt_k tt)"
proof -
  have u: "unat (of_nat (min m 255) :: u8) = min m 255" by (simp add: unat_of_nat)
  have k: "unat (tt_k tt) < 256" by (rule unat_less_u8)
  have "TRICKLE_TIMER_PROTO_TX_ALLOW ((trickle_timer_consistency ^^ m) tt) \<longleftrightarrow> tt_k tt = 0 \<or> min m 255 < unat (tt_k tt)"
    unfolding consistencies TRICKLE_TIMER_PROTO_TX_ALLOW_def word_less_nat_alt using u assms by simp
  also have "\<dots> \<longleftrightarrow> tt_k tt = 0 \<or> m < unat (tt_k tt)" using k by auto
  finally show ?thesis .
qed

text \<open>What \<open>fire\<close> hands to the protocol after \<open>m\<close> consistent messages.\<close>

lemma fire_flag:
  assumes "tt_c tt = 0" "tt_cb tt \<noteq> NULL"
  shows "fire now proto ((trickle_timer_consistency ^^ m) tt) =
    (let u = proto (tt_cb tt) (tt_cb_arg tt) (tt_k tt = 0 \<or> m < unat (tt_k tt)) ((trickle_timer_consistency ^^ m) tt)
     in if trickle_timer_is_running u then schedule_for_end now u else u)"
proof -
  define t1 where "t1 = (trickle_timer_consistency ^^ m) tt"
  have "tt_cb t1 = tt_cb tt" "tt_cb_arg t1 = tt_cb_arg tt" by (simp_all add: t1_def consistencies)
  then show ?thesis using assms(2) tx_allowed_iff [OF assms(1), of m] unfolding t1_def [symmetric] fire_def by simp
qed

lemma trickle_set_armed:
  assumes "trickle_timer_set now r1 r2 cb p tt = Some t0" "2 \<le> unat (i_min tt)" "i_min tt \<le> i_max_abs tt" "unat (i_max_abs tt) \<le> 2 ^ 15"
  shows "armed t0 \<and> i_min t0 = i_min tt \<and> i_max_abs t0 = i_max_abs tt \<and> i_start t0 = now \<and> tt_c t0 = 0 \<and>
    tt_k t0 = tt_k tt \<and> tt_cb t0 = cb \<and> tt_cb_arg t0 = p \<and> cb \<noteq> NULL"
proof -
  let ?w = "i_max_abs tt - i_min tt + 1"
  define i :: clock_time where "i = ucast (ucast (i_min tt) + r1 mod ucast ?w :: u32)"
  have b: "unat (i_min tt) \<le> unat (i_max_abs tt)" using assms(3) by (simp add: word_le_nat_alt)
  have w0: "unat (i_max_abs tt - i_min tt) = unat (i_max_abs tt) - unat (i_min tt)" using assms(3) by (rule unat_sub)
  have w: "unat ?w = unat (i_max_abs tt) - unat (i_min tt) + 1"
    using w0 assms(4) by (simp add: unat_word_ariths del: unat_sub_if')
  have uw: "unat (ucast ?w :: u32) = unat (i_max_abs tt) - unat (i_min tt) + 1"
    using w unat_less_u16 [of ?w] by (simp add: unsigned_ucast_eq take_bit_nat_eq_self)
  have um: "unat (ucast (i_min tt) :: u32) = unat (i_min tt)"
    using unat_less_u16 [of "i_min tt"] by (simp add: unsigned_ucast_eq take_bit_nat_eq_self)
  let ?r = "unat r1 mod (unat (i_max_abs tt) - unat (i_min tt) + 1)"
  have r: "?r \<le> unat (i_max_abs tt) - unat (i_min tt)" by (simp add: less_Suc_eq_le [symmetric])
  then have s: "unat (i_min tt) + ?r \<le> unat (i_max_abs tt)" using b by linarith
  then have "unat (i_min tt) + ?r < 65536" using assms(4) by simp
  then have i: "unat i = unat (i_min tt) + ?r"
    unfolding i_def using uw um
    by (simp add: unsigned_ucast_eq take_bit_nat_eq_self unat_word_ariths unat_mod)
  have "t0 = new_interval now r2 (tt\<lparr>tt_cb := cb, tt_cb_arg := p, i_cur := i\<rparr>)"
    using assms(1) by (auto simp: trickle_timer_set_def Let_def i_def split: if_splits)
  moreover have "tt_sized (tt\<lparr>tt_cb := cb, tt_cb_arg := p, i_cur := i\<rparr>)"
    using assms(2,4) i s by (simp add: tt_sized_def word_le_nat_alt)
  moreover have "cb \<noteq> NULL" using assms(1) by (auto simp: trickle_timer_set_def split: if_splits)
  ultimately show ?thesis using new_interval_armed [of "tt\<lparr>tt_cb := cb, tt_cb_arg := p, i_cur := i\<rparr>" now r2]
    by (simp add: new_interval_def tt_ctimer_set_def Let_def timer_set_def)
qed

lemma inconsistency_armed:
  assumes "armed tt"
  shows "armed (trickle_timer_inconsistency now r tt) \<and> i_cur (trickle_timer_inconsistency now r tt) = i_min tt"
proof (cases "i_cur tt = i_min tt")
  case True
  then show ?thesis using assms by (simp add: trickle_timer_inconsistency_def)
next
  case False
  have "i_min tt \<le> i_max_abs tt" using assms by (auto simp: armed_def tt_sized_def)
  then have "tt_sized (tt\<lparr>i_cur := i_min tt\<rparr>)" using assms by (simp add: armed_def tt_sized_def)
  then show ?thesis using new_interval_armed [of "tt\<lparr>i_cur := i_min tt\<rparr>" now r] False
    by (simp add: trickle_timer_inconsistency_def)
qed


definition some_trickle :: trickle_timer where
  "some_trickle = \<lparr>i_min = 0, i_cur = 0, i_start = 0, i_max_abs = 0, tt_ct = \<lparr>t_start = 0, t_interval = 0\<rparr>,
     tt_f = Fire, tt_cb = NULL, tt_cb_arg = NULL, tt_i_max = 0, tt_k = 0, tt_c = 0, tt_listed = False\<rparr>"

definition set_trickle :: trickle_timer where
  "set_trickle = \<lparr>i_min = 16, i_cur = 23, i_start = 65530, i_max_abs = 64,
     tt_ct = \<lparr>t_start = 65530, t_interval = 14\<rparr>, tt_f = Fire, tt_cb = 5, tt_cb_arg = 0, tt_i_max = 2, tt_k = 1, tt_c = 0, tt_listed = True\<rparr>"


end
