(* ===== verification/Frame802154.thy ===== *)
theory Frame802154
  imports Prelude
begin

text \<open>
  The IEEE 802.15.4 frame header of \<open>core/net/mac/frame802154.c\<close>: computing the
  length of its fields, writing it into a buffer and parsing a received frame. The
  compile-time settings \<open>LLSEC802154_SECURITY_LEVEL\<close> (non-zero or not) and
  \<open>LLSEC802154_USES_EXPLICIT_KEYS\<close> are the two boolean arguments \<open>sec\<close> and
  \<open>keys\<close>. A pointer into the frame is an offset into the buffer; the payload pointer
  of the parsed frame is the offset of the payload.
\<close>

record frame802154_fcf =
  frame_type :: u8
  security_enabled :: u8
  frame_pending :: u8
  ack_required :: u8
  panid_compression :: u8
  dest_addr_mode :: u8
  frame_version :: u8
  src_addr_mode :: u8

record frame802154_aux_hdr =
  security_level :: u8
  key_id_mode :: u8
  frame_counter :: "u8 list"
  key_source :: "u8 list"
  key_index :: u8

record frame802154 =
  dest_addr :: "u8 list"
  src_addr :: "u8 list"
  fcf :: frame802154_fcf
  seq :: u8
  dest_pid :: u16
  src_pid :: u16
  aux_hdr :: frame802154_aux_hdr
  payload :: nat
  payload_len :: int

record field_length =
  dest_pid_len :: nat
  dest_addr_len :: nat
  src_pid_len :: nat
  src_addr_len :: nat
  aux_sec_len :: nat

definition null_addr :: "u8 list" where
  "null_addr = [0, 0, 0, 0, 0, 0, 0, 0]"

definition addr_len :: "u8 \<Rightarrow> nat" where
  "addr_len mode = (if mode = 2 then 2 else if mode = 3 then 8 else 0)"

definition get_key_id_len :: "u8 \<Rightarrow> nat" where
  "get_key_id_len mode = (if mode = 1 then 1 else if mode = 2 then 5 else if mode = 3 then 9 else 0)"

definition field_len :: "bool \<Rightarrow> bool \<Rightarrow> frame802154 \<Rightarrow> frame802154 \<times> field_length" where
  "field_len sec keys p =
     (let dm = dest_addr_mode (fcf p) AND 3; sm = src_addr_mode (fcf p) AND 3;
          compress = (dm \<noteq> 0 \<and> sm \<noteq> 0 \<and> src_pid p = dest_pid p)
      in (p\<lparr>fcf := (fcf p)\<lparr>panid_compression := (if compress then 1 else 0)\<rparr>\<rparr>,
          \<lparr>dest_pid_len = (if dm \<noteq> 0 then 2 else 0),
           dest_addr_len = addr_len dm,
           src_pid_len = (if compress then 0 else if sm \<noteq> 0 then 2 else 0),
           src_addr_len = addr_len sm,
           aux_sec_len = (if sec \<and> security_enabled (fcf p) AND 1 \<noteq> 0
              then 5 + (if keys then get_key_id_len (key_id_mode (aux_hdr p)) else 0) else 0)\<rparr>))"

definition frame802154_hdrlen :: "bool \<Rightarrow> bool \<Rightarrow> frame802154 \<Rightarrow> nat \<times> frame802154" where
  "frame802154_hdrlen sec keys p =
     (case field_len sec keys p of (p, flen) \<Rightarrow>
        (3 + dest_pid_len flen + dest_addr_len flen + src_pid_len flen + src_addr_len flen + aux_sec_len flen, p))"

text \<open>Writing: a buffer with the position of the next byte (\<open>buf[pos++] = b\<close>).\<close>

type_synonym cursor = "u8 list \<times> nat"

fun emit :: "u8 \<Rightarrow> cursor \<Rightarrow> cursor" where
  "emit b (buf, pos) = (buf[pos := b], Suc pos)"

fun emit_rev :: "u8 list \<Rightarrow> nat \<Rightarrow> cursor \<Rightarrow> cursor" where
  "emit_rev a 0 st = st"
| "emit_rev a (Suc c) st = emit_rev a c (emit (a ! c) st)"

fun emit_all :: "u8 list \<Rightarrow> cursor \<Rightarrow> cursor" where
  "emit_all [] st = st"
| "emit_all (b # bs) st = emit_all bs (emit b st)"

definition emit_pid :: "u16 \<Rightarrow> cursor \<Rightarrow> cursor" where
  "emit_pid pid st = emit (ucast (drop_bit 8 pid AND 0xff)) (emit (ucast (pid AND 0xff)) st)"

definition emit_aux :: "bool \<Rightarrow> frame802154_aux_hdr \<Rightarrow> cursor \<Rightarrow> cursor" where
  "emit_aux keys h st =
     (let st = emit (if keys then security_level h OR push_bit 3 (key_id_mode h) else security_level h) st;
          st = emit_all (take 4 (frame_counter h)) st
      in if keys \<and> key_id_mode h \<noteq> 0
         then emit (key_index h) (emit_all (take ((unat (key_id_mode h) - 1) * 4) (key_source h)) st)
         else st)"

definition frame802154_create :: "bool \<Rightarrow> bool \<Rightarrow> frame802154 \<Rightarrow> u8 list \<Rightarrow> nat \<times> frame802154 \<times> u8 list" where
  "frame802154_create sec keys p buf =
     (case field_len sec keys p of (p, flen) \<Rightarrow>
        let f = fcf p;
            st = emit ((frame_type f AND 7) OR push_bit 3 (security_enabled f AND 1)
                   OR push_bit 4 (frame_pending f AND 1) OR push_bit 5 (ack_required f AND 1)
                   OR push_bit 6 (panid_compression f AND 1)) (buf, 0);
            st = emit (push_bit 2 (dest_addr_mode f AND 3) OR push_bit 4 (frame_version f AND 3)
                   OR push_bit 6 (src_addr_mode f AND 3)) st;
            st = emit (seq p) st;
            st = (if dest_pid_len flen = 2 then emit_pid (dest_pid p) st else st);
            st = emit_rev (dest_addr p) (dest_addr_len flen) st;
            st = (if src_pid_len flen = 2 then emit_pid (src_pid p) st else st);
            st = emit_rev (src_addr p) (src_addr_len flen) st;
            st = (if sec \<and> aux_sec_len flen \<noteq> 0 then emit_aux keys (aux_hdr p) st else st)
        in (snd st, p, fst st))"

text \<open>Parsing: the position \<open>p\<close> advances over the data.\<close>

definition read_pid :: "u8 list \<Rightarrow> nat \<Rightarrow> u16" where
  "read_pid d p = ucast (d ! p) + push_bit 8 (ucast (d ! Suc p))"

definition read_addr :: "u8 \<Rightarrow> u8 list \<Rightarrow> nat \<Rightarrow> u8 list \<Rightarrow> u8 list \<times> nat" where
  "read_addr mode d p old =
     (if mode = 2 then (null_addr[0 := d ! Suc p, 1 := d ! p], p + 2)
      else if mode = 3 then (map (\<lambda>c. d ! (p + (7 - c))) [0..<8], p + 8)
      else (old, p))"

definition read_aux :: "bool \<Rightarrow> u8 list \<Rightarrow> nat \<Rightarrow> frame802154_aux_hdr \<Rightarrow> frame802154_aux_hdr \<times> nat" where
  "read_aux keys d p h =
     (let h = h\<lparr>security_level := d ! p AND 7\<rparr>;
          h = (if keys then h\<lparr>key_id_mode := drop_bit 3 (d ! p) AND 3\<rparr> else h);
          p = p + 1;
          h = h\<lparr>frame_counter := map (\<lambda>i. d ! (p + i)) [0..<4]\<rparr>;
          p = p + 4
      in if keys \<and> key_id_mode h \<noteq> 0
         then (let c = (unat (key_id_mode h) - 1) * 4
               in (h\<lparr>key_source := map (\<lambda>i. d ! (p + i)) [0..<c] @ drop c (key_source h),
                     key_index := d ! (p + c)\<rparr>, p + c + 1))
         else (h, p))"

definition read_fcf :: "u8 \<Rightarrow> u8 \<Rightarrow> frame802154_fcf" where
  "read_fcf a b =
     \<lparr>frame_type = a AND 7, security_enabled = drop_bit 3 a AND 1, frame_pending = drop_bit 4 a AND 1,
      ack_required = drop_bit 5 a AND 1, panid_compression = drop_bit 6 a AND 1,
      dest_addr_mode = drop_bit 2 b AND 3, frame_version = drop_bit 4 b AND 3,
      src_addr_mode = drop_bit 6 b AND 3\<rparr>"

definition read_dest :: "u8 list \<Rightarrow> nat \<Rightarrow> frame802154 \<Rightarrow> frame802154 \<times> nat" where
  "read_dest d p pf =
     (if dest_addr_mode (fcf pf) \<noteq> 0
      then (case read_addr (dest_addr_mode (fcf pf)) d (p + 2) (dest_addr pf) of (a, p') \<Rightarrow>
              (pf\<lparr>dest_pid := read_pid d p, dest_addr := a\<rparr>, p'))
      else (pf\<lparr>dest_addr := null_addr, dest_pid := 0\<rparr>, p))"

definition read_src :: "u8 list \<Rightarrow> nat \<Rightarrow> frame802154 \<Rightarrow> frame802154 \<times> nat" where
  "read_src d p pf =
     (if src_addr_mode (fcf pf) \<noteq> 0
      then (case (if panid_compression (fcf pf) = 0 then (read_pid d p, p + 2) else (dest_pid pf, p)) of (pid, p1) \<Rightarrow>
            case read_addr (src_addr_mode (fcf pf)) d p1 (src_addr pf) of (a, p') \<Rightarrow>
              (pf\<lparr>src_pid := pid, src_addr := a\<rparr>, p'))
      else (pf\<lparr>src_addr := null_addr, src_pid := 0\<rparr>, p))"

definition frame802154_parse :: "bool \<Rightarrow> bool \<Rightarrow> u8 list \<Rightarrow> int \<Rightarrow> frame802154 \<Rightarrow> int \<times> frame802154" where
  "frame802154_parse sec keys d len pf =
     (if len < 3 then (0, pf)
      else
        (let pf = pf\<lparr>fcf := read_fcf (d ! 0) (d ! 1), seq := d ! 2\<rparr>
         in case read_dest d 3 pf of (pf, p) \<Rightarrow>
            case read_src d p pf of (pf, p) \<Rightarrow>
            case (if sec \<and> security_enabled (fcf pf) \<noteq> 0
                  then (case read_aux keys d p (aux_hdr pf) of (h, p') \<Rightarrow> (pf\<lparr>aux_hdr := h\<rparr>, p'))
                  else (pf, p)) of (pf, p) \<Rightarrow>
              ((if int p > len then 0 else int p), pf\<lparr>payload_len := len - int p, payload := p\<rparr>)))"

section \<open>The header as a list of bytes\<close>

definition pid_bytes :: "u16 \<Rightarrow> u8 list" where
  "pid_bytes pid = [ucast (pid AND 0xff), ucast (drop_bit 8 pid AND 0xff)]"

definition addr_bytes :: "u8 \<Rightarrow> u8 list \<Rightarrow> u8 list" where
  "addr_bytes mode a = rev (take (addr_len mode) a)"

definition aux_bytes :: "bool \<Rightarrow> frame802154_aux_hdr \<Rightarrow> u8 list" where
  "aux_bytes keys h =
     (if keys then security_level h OR push_bit 3 (key_id_mode h) else security_level h) # frame_counter h @
     (if keys \<and> key_id_mode h \<noteq> 0
      then take ((unat (key_id_mode h) - 1) * 4) (key_source h) @ [key_index h] else [])"

definition compressed :: "frame802154 \<Rightarrow> bool" where
  "compressed p \<longleftrightarrow> dest_addr_mode (fcf p) \<noteq> 0 \<and> src_addr_mode (fcf p) \<noteq> 0 \<and> src_pid p = dest_pid p"

definition frame_wf :: "frame802154 \<Rightarrow> bool" where
  "frame_wf p \<longleftrightarrow> frame_type (fcf p) < 8 \<and> security_enabled (fcf p) < 2 \<and> frame_pending (fcf p) < 2 \<and>
     ack_required (fcf p) < 2 \<and> dest_addr_mode (fcf p) < 4 \<and> frame_version (fcf p) < 4 \<and>
     src_addr_mode (fcf p) < 4 \<and> length (dest_addr p) = 8 \<and> length (src_addr p) = 8 \<and>
     security_level (aux_hdr p) < 8 \<and> key_id_mode (aux_hdr p) < 4 \<and>
     length (frame_counter (aux_hdr p)) = 4 \<and> length (key_source (aux_hdr p)) = 8"

definition fcf_bytes :: "frame802154_fcf \<Rightarrow> u8 list" where
  "fcf_bytes f = [frame_type f OR push_bit 3 (security_enabled f) OR push_bit 4 (frame_pending f)
       OR push_bit 5 (ack_required f) OR push_bit 6 (panid_compression f),
     push_bit 2 (dest_addr_mode f) OR push_bit 4 (frame_version f) OR push_bit 6 (src_addr_mode f)]"

definition sent_fcf :: "frame802154 \<Rightarrow> frame802154_fcf" where
  "sent_fcf p = (fcf p)\<lparr>panid_compression := (if compressed p then 1 else 0)\<rparr>"

definition header_bytes :: "bool \<Rightarrow> bool \<Rightarrow> frame802154 \<Rightarrow> u8 list" where
  "header_bytes sec keys p = fcf_bytes (sent_fcf p) @ [seq p] @
     (if dest_addr_mode (fcf p) \<noteq> 0 then pid_bytes (dest_pid p) @ addr_bytes (dest_addr_mode (fcf p)) (dest_addr p) else []) @
     (if src_addr_mode (fcf p) \<noteq> 0 then (if compressed p then [] else pid_bytes (src_pid p))
        @ addr_bytes (src_addr_mode (fcf p)) (src_addr p) else []) @
     (if sec \<and> security_enabled (fcf p) \<noteq> 0 then aux_bytes keys (aux_hdr p) else [])"

text \<open>The frame a receiver sees.\<close>

definition seen_addr :: "u8 \<Rightarrow> u8 list \<Rightarrow> u8 list \<Rightarrow> u8 list" where
  "seen_addr mode a old =
     (if mode = 0 then null_addr
      else if mode = 2 then take 2 a @ [0, 0, 0, 0, 0, 0]
      else if mode = 3 then a else old)"

definition seen_aux :: "bool \<Rightarrow> frame802154_aux_hdr \<Rightarrow> frame802154_aux_hdr \<Rightarrow> frame802154_aux_hdr" where
  "seen_aux keys h old =
     (let h1 = old\<lparr>security_level := security_level h, frame_counter := frame_counter h\<rparr>
      in if keys
         then (if key_id_mode h = 0 then h1\<lparr>key_id_mode := 0\<rparr>
               else (let c = (unat (key_id_mode h) - 1) * 4
                     in h1\<lparr>key_id_mode := key_id_mode h, key_index := key_index h,
                          key_source := take c (key_source h) @ drop c (key_source old)\<rparr>))
         else h1)"

definition seen_frame :: "bool \<Rightarrow> bool \<Rightarrow> frame802154 \<Rightarrow> nat \<Rightarrow> int \<Rightarrow> frame802154 \<Rightarrow> frame802154" where
  "seen_frame sec keys p hdr len pf =
     \<lparr>dest_addr = seen_addr (dest_addr_mode (fcf p)) (dest_addr p) (dest_addr pf),
      src_addr = seen_addr (src_addr_mode (fcf p)) (src_addr p) (src_addr pf),
      fcf = sent_fcf p, seq = seq p,
      dest_pid = (if dest_addr_mode (fcf p) \<noteq> 0 then dest_pid p else 0),
      src_pid = (if src_addr_mode (fcf p) \<noteq> 0 then src_pid p else 0),
      aux_hdr = (if sec \<and> security_enabled (fcf p) \<noteq> 0 then seen_aux keys (aux_hdr p) (aux_hdr pf) else aux_hdr pf),
      payload = hdr, payload_len = len - int hdr\<rparr>"

section \<open>Writing the header\<close>

lemma emit_all_append: "emit_all (xs @ ys) st = emit_all ys (emit_all xs st)"
  by (induction xs arbitrary: st) simp_all

lemma emit_rev_eq: "c \<le> length a \<Longrightarrow> emit_rev a c st = emit_all (rev (take c a)) st"
  by (induction c arbitrary: st) (simp_all add: take_Suc_conv_app_nth)

lemma emit_all_eq:
  "pos + length bs \<le> length buf \<Longrightarrow>
     emit_all bs (buf, pos) = (take pos buf @ bs @ drop (pos + length bs) buf, pos + length bs)"
proof (induction bs arbitrary: buf pos)
  case (Cons b bs)
  have "take (Suc pos) (buf[pos := b]) = take pos buf @ [b]"
    using Cons.prems by (simp add: take_Suc_conv_app_nth)
  with Cons.IH [of "Suc pos" "buf[pos := b]"] Cons.prems show ?case by simp
qed simp

lemma emit_1: "emit b st = emit_all [b] st" by simp

lemma emit_pid_eq: "emit_pid pid st = emit_all (pid_bytes pid) st"
  by (simp add: emit_pid_def pid_bytes_def)

lemma emit_aux_eq: "length (frame_counter h) = 4 \<Longrightarrow> emit_aux keys h st = emit_all (aux_bytes keys h) st"
  by (simp add: emit_aux_def aux_bytes_def emit_all_append Let_def)

lemma and_3: "x < 4 \<Longrightarrow> x AND 3 = (x :: u8)" and and_7: "x < 8 \<Longrightarrow> x AND 7 = (x :: u8)"
  and and_1: "x < 2 \<Longrightarrow> x AND 1 = (x :: u8)"
  using and_mask_small [of "3 :: u8" 2 x] and_mask_small [of "7 :: u8" 3 x] and_mask_small [of "1 :: u8" 1 x]
  by (simp_all add: word_less_nat_alt)

lemma addr_len_le: "addr_len m \<le> 8" "addr_len 0 = 0"
  by (simp_all add: addr_len_def)

definition header_len :: "bool \<Rightarrow> bool \<Rightarrow> frame802154 \<Rightarrow> nat" where
  "header_len sec keys p = length (header_bytes sec keys p)"

lemma length_addr_bytes: "length a = 8 \<Longrightarrow> length (addr_bytes m a) = addr_len m"
  using addr_len_le(1) [of m] by (simp add: addr_bytes_def)

lemma key_mode_cases:
  assumes "(m :: u8) < 4" obtains "m = 0" | "m = 1" | "m = 2" | "m = 3"
proof -
  have "unat m \<in> {0, 1, 2, 3}" using assms by (auto simp: word_less_nat_alt)
  then show thesis using that by (auto simp: word_unat_eq_iff)
qed

lemma length_aux_bytes:
  assumes "key_id_mode h < 4" "length (frame_counter h) = 4" "length (key_source h) = 8"
  shows "length (aux_bytes keys h) = 5 + (if keys then get_key_id_len (key_id_mode h) else 0)"
  using key_mode_cases [OF assms(1)] assms(2,3) by cases (simp_all add: aux_bytes_def get_key_id_len_def)

lemma hdrlen_eq:
  assumes "frame_wf p"
  shows "frame802154_hdrlen sec keys p = (header_len sec keys p, p\<lparr>fcf := sent_fcf p\<rparr>)"
  using assms length_aux_bytes [of "aux_hdr p" keys] addr_len_le(2)
  by (auto simp: frame802154_hdrlen_def field_len_def Let_def header_len_def header_bytes_def frame_wf_def
      and_3 and_1 compressed_def sent_fcf_def fcf_bytes_def pid_bytes_def length_addr_bytes)

lemma header_len_le:
  assumes "frame_wf p"
  shows "header_len sec keys p \<le> 37"
proof -
  have "length (aux_bytes keys (aux_hdr p)) \<le> 14"
    using assms length_aux_bytes [of "aux_hdr p" keys] by (simp add: frame_wf_def get_key_id_len_def)
  then show ?thesis
    using assms addr_len_le(1) [of "dest_addr_mode (fcf p)"] addr_len_le(1) [of "src_addr_mode (fcf p)"]
    by (auto simp: header_len_def header_bytes_def frame_wf_def fcf_bytes_def pid_bytes_def length_addr_bytes)
qed

lemma create_eq_emit:
  assumes "frame_wf p"
  shows "frame802154_create sec keys p buf =
    (snd (emit_all (header_bytes sec keys p) (buf, 0)), p\<lparr>fcf := sent_fcf p\<rparr>,
     fst (emit_all (header_bytes sec keys p) (buf, 0)))"
proof -
  have wf: "frame_type (fcf p) AND 7 = frame_type (fcf p)" "security_enabled (fcf p) AND 1 = security_enabled (fcf p)"
    "frame_pending (fcf p) AND 1 = frame_pending (fcf p)" "ack_required (fcf p) AND 1 = ack_required (fcf p)"
    "dest_addr_mode (fcf p) AND 3 = dest_addr_mode (fcf p)" "frame_version (fcf p) AND 3 = frame_version (fcf p)"
    "src_addr_mode (fcf p) AND 3 = src_addr_mode (fcf p)"
    using assms by (simp_all add: frame_wf_def and_7 and_1 and_3)
  have len: "length (dest_addr p) = 8" "length (src_addr p) = 8" "length (frame_counter (aux_hdr p)) = 4"
    using assms by (simp_all add: frame_wf_def)
  have rev: "emit_rev (dest_addr p) (addr_len m) st = emit_all (addr_bytes m (dest_addr p)) st"
    "emit_rev (src_addr p) (addr_len m) st = emit_all (addr_bytes m (src_addr p)) st" for m st
    using len addr_len_le(1) [of m] by (simp_all add: emit_rev_eq addr_bytes_def)
  have nil: "addr_bytes 0 a = []" for a by (simp add: addr_bytes_def addr_len_le)
  show ?thesis
    unfolding frame802154_create_def field_len_def wf Let_def
    by (simp add: emit_pid_eq emit_aux_eq len rev wf nil header_bytes_def emit_all_append fcf_bytes_def
        sent_fcf_def compressed_def emit_1 [symmetric])
qed

lemma create_eq:
  assumes "frame_wf p" "header_len sec keys p \<le> length buf"
  shows "frame802154_create sec keys p buf =
    (header_len sec keys p, p\<lparr>fcf := sent_fcf p\<rparr>, header_bytes sec keys p @ drop (header_len sec keys p) buf)"
  using create_eq_emit [OF assms(1)] emit_all_eq [of 0 "header_bytes sec keys p" buf] assms(2)
  by (simp add: header_len_def)

section \<open>Parsing what was written\<close>

lemma fcf_byte0_table:
  "list_all (\<lambda>t. list_all (\<lambda>s. list_all (\<lambda>p. list_all (\<lambda>r. list_all (\<lambda>c.
     (case t OR push_bit 3 s OR push_bit 4 p OR push_bit 5 r OR push_bit 6 c of a \<Rightarrow>
       a AND 7 = t \<and> drop_bit 3 a AND 1 = s \<and> drop_bit 4 a AND 1 = p \<and> drop_bit 5 a AND 1 = r
       \<and> drop_bit 6 a AND 1 = c))
     [0, 1]) [0, 1]) [0, 1]) [0, 1]) [0, 1, 2, 3, 4, 5, 6, 7 :: u8]"
  by code_simp

lemma fcf_byte1_table:
  "list_all (\<lambda>d. list_all (\<lambda>v. list_all (\<lambda>s.
     (case push_bit 2 d OR push_bit 4 v OR push_bit 6 s of b \<Rightarrow>
       drop_bit 2 b AND 3 = d \<and> drop_bit 4 b AND 3 = v \<and> drop_bit 6 b AND 3 = s))
     [0, 1, 2, 3]) [0, 1, 2, 3]) [0, 1, 2, 3 :: u8]"
  by code_simp

lemma below_set:
  "x < 2 \<Longrightarrow> x \<in> set [0, 1 :: u8]" "x < 4 \<Longrightarrow> x \<in> set [0, 1, 2, 3 :: u8]"
  "x < 8 \<Longrightarrow> x \<in> set [0, 1, 2, 3, 4, 5, 6, 7 :: u8]"
proof -
  have n: "unat x < 2 \<Longrightarrow> unat x \<in> {0, 1}" "unat x < 4 \<Longrightarrow> unat x \<in> {0, 1, 2, 3}"
    "unat x < 8 \<Longrightarrow> unat x \<in> {0, 1, 2, 3, 4, 5, 6, 7}" by auto
  show "x < 2 \<Longrightarrow> x \<in> set [0, 1 :: u8]" "x < 4 \<Longrightarrow> x \<in> set [0, 1, 2, 3 :: u8]"
    "x < 8 \<Longrightarrow> x \<in> set [0, 1, 2, 3, 4, 5, 6, 7 :: u8]"
    using n by (auto simp: word_less_nat_alt word_unat_eq_iff)
qed

lemma fcf_roundtrip:
  assumes "frame_type f < 8" "security_enabled f < 2" "frame_pending f < 2" "ack_required f < 2"
    "panid_compression f < 2" "dest_addr_mode f < 4" "frame_version f < 4" "src_addr_mode f < 4"
  shows "read_fcf (fcf_bytes f ! 0) (fcf_bytes f ! 1) = f"
proof -
  note a = bspec [OF bspec [OF bspec [OF bspec [OF bspec [OF fcf_byte0_table [unfolded list_all_iff]
    below_set(3) [OF assms(1)]] below_set(1) [OF assms(2)]] below_set(1) [OF assms(3)]]
    below_set(1) [OF assms(4)]] below_set(1) [OF assms(5)]]
  note b = bspec [OF bspec [OF bspec [OF fcf_byte1_table [unfolded list_all_iff]
    below_set(2) [OF assms(6)]] below_set(2) [OF assms(7)]] below_set(2) [OF assms(8)]]
  show ?thesis using a b by (simp add: read_fcf_def fcf_bytes_def)
qed

lemma read_pid_bytes:
  "read_pid (pre @ pid_bytes pid @ rest) (length pre) = pid"
  using u16_bytes_sum [of pid] by (simp add: read_pid_def pid_bytes_def nth_append)

lemma list8_cases:
  assumes "length a = 8"
  obtains a0 a1 a2 a3 a4 a5 a6 a7 where "a = [a0, a1, a2, a3, a4, a5, a6, a7]"
  using assms by (auto simp: eval_nat_numeral length_Suc_conv)

lemma read_addr_bytes:
  assumes "length a = 8" "m < 4" "m \<noteq> 0"
  shows "read_addr m (pre @ addr_bytes m a @ rest) (length pre) old
    = (seen_addr m a old, length pre + length (addr_bytes m a))"
proof -
  obtain a0 a1 a2 a3 a4 a5 a6 a7 where "a = [a0, a1, a2, a3, a4, a5, a6, a7]"
    using list8_cases [OF assms(1)] .
  then show ?thesis using key_mode_cases [OF assms(2)] assms(3)
    by cases (simp_all add: read_addr_def addr_bytes_def addr_len_def seen_addr_def null_addr_def
        nth_append upt_rec eval_nat_numeral)
qed

lemma scf_table:
  "list_all (\<lambda>l. list_all (\<lambda>m. (l OR push_bit 3 m) AND 7 = l \<and> drop_bit 3 (l OR push_bit 3 m) AND 3 = m)
     [0, 1, 2, 3]) [0, 1, 2, 3, 4, 5, 6, 7 :: u8]"
  by code_simp

lemma scf_roundtrip:
  assumes "l < 8" "m < 4"
  shows "(l OR push_bit 3 m) AND 7 = (l :: u8)" "drop_bit 3 (l OR push_bit 3 m) AND 3 = m"
  using bspec [OF bspec [OF scf_table [unfolded list_all_iff] below_set(3) [OF assms(1)]]
    below_set(2) [OF assms(2)]] by simp_all

lemma map_nth_middle:
  "length bs = n \<Longrightarrow> map (\<lambda>i. (pre @ bs @ rest) ! (length pre + i)) [0..<n] = bs"
  by (rule nth_equalityI) (simp_all add: nth_append)

lemma read_aux_bytes:
  assumes "security_level h < 8" "key_id_mode h < 4" "length (frame_counter h) = 4" "length (key_source h) = 8"
  shows "read_aux keys (pre @ aux_bytes keys h @ rest) (length pre) old
    = (seen_aux keys h old, length pre + length (aux_bytes keys h))"
proof -
  let ?s = "if keys then security_level h OR push_bit 3 (key_id_mode h) else security_level h"
  let ?c = "(unat (key_id_mode h) - 1) * 4"
  have s: "?s AND 7 = security_level h" "keys \<Longrightarrow> drop_bit 3 ?s AND 3 = key_id_mode h"
    using scf_roundtrip [OF assms(1,2)] and_7 [OF assms(1)] by simp_all
  have fc: "map (\<lambda>i. (pre @ aux_bytes keys h @ rest) ! (length pre + 1 + i)) [0..<4] = frame_counter h"
    using map_nth_middle [of "frame_counter h" 4 "pre @ [?s]"] assms(3) by (simp add: aux_bytes_def)
  have first: "(pre @ aux_bytes keys h @ rest) ! length pre = ?s" by (simp add: aux_bytes_def)
  have "unat (key_id_mode h) < 4" using assms(2) by (simp add: word_less_nat_alt)
  then have c: "?c \<le> 8" by arith
  show ?thesis
  proof (cases "keys \<and> key_id_mode h \<noteq> 0")
    case False
    then show ?thesis using s fc assms(3)
      by (auto simp: read_aux_def first seen_aux_def Let_def) (auto simp: aux_bytes_def)
  next
    case True
    then have eq: "aux_bytes keys h = ([?s] @ frame_counter h) @ take ?c (key_source h) @ [key_index h]"
      by (simp add: aux_bytes_def)
    have e: "pre @ aux_bytes keys h @ rest
        = (pre @ [?s] @ frame_counter h) @ take ?c (key_source h) @ ([key_index h] @ rest)" by (simp add: eq)
    have l: "length pre + 1 + 4 = length (pre @ [?s] @ frame_counter h)" using assms(3) by simp
    have lc: "length (take ?c (key_source h)) = ?c" using assms(4) c by simp
    have ks: "map (\<lambda>i. (pre @ aux_bytes keys h @ rest) ! (length pre + 1 + 4 + i)) [0..<?c] = take ?c (key_source h)"
      unfolding e l using lc by (rule map_nth_middle)
    have "(pre @ aux_bytes keys h @ rest) ! (length pre + 1 + 4 + length (take ?c (key_source h))) = key_index h"
      unfolding e l by (simp add: nth_append del: length_take)
    then have ki: "(pre @ aux_bytes keys h @ rest) ! (length pre + 1 + 4 + ?c) = key_index h" unfolding lc .
    have len: "length (aux_bytes keys h) = 6 + ?c" unfolding eq using assms(3,4) c by simp
    have s': "(pre @ aux_bytes keys h @ rest) ! length pre AND 7 = security_level h"
      "drop_bit 3 ((pre @ aux_bytes keys h @ rest) ! length pre) AND 3 = key_id_mode h"
      unfolding first using s True by simp_all
    show ?thesis using True s' fc ks ki len
      by (simp add: read_aux_def seen_aux_def Let_def)
  qed
qed

definition dest_bytes :: "frame802154 \<Rightarrow> u8 list" where
  "dest_bytes p = (if dest_addr_mode (fcf p) \<noteq> 0
     then pid_bytes (dest_pid p) @ addr_bytes (dest_addr_mode (fcf p)) (dest_addr p) else [])"

definition src_bytes :: "frame802154 \<Rightarrow> u8 list" where
  "src_bytes p = (if src_addr_mode (fcf p) \<noteq> 0
     then (if compressed p then [] else pid_bytes (src_pid p)) @ addr_bytes (src_addr_mode (fcf p)) (src_addr p) else [])"

lemma read_dest_bytes:
  assumes "length (dest_addr p) = 8" "dest_addr_mode (fcf p) < 4"
    "dest_addr_mode (fcf pf) = dest_addr_mode (fcf p)"
  shows "read_dest (pre @ dest_bytes p @ rest) (length pre) pf =
    (pf\<lparr>dest_pid := (if dest_addr_mode (fcf p) \<noteq> 0 then dest_pid p else 0),
        dest_addr := seen_addr (dest_addr_mode (fcf p)) (dest_addr p) (dest_addr pf)\<rparr>,
     length pre + length (dest_bytes p))"
proof (cases "dest_addr_mode (fcf p) = 0")
  case False
  then show ?thesis
    using read_addr_bytes [OF assms(1,2) False, of "pre @ pid_bytes (dest_pid p)" rest "dest_addr pf"]
      read_pid_bytes [of pre "dest_pid p"] assms(3)
    by (simp add: read_dest_def dest_bytes_def) (simp add: pid_bytes_def)
qed (use assms in \<open>simp add: read_dest_def dest_bytes_def seen_addr_def\<close>)

lemma read_src_bytes:
  assumes "length (src_addr p) = 8" "src_addr_mode (fcf p) < 4"
    "src_addr_mode (fcf pf) = src_addr_mode (fcf p)"
    "panid_compression (fcf pf) = (if compressed p then 1 else 0)" "compressed p \<Longrightarrow> dest_pid pf = dest_pid p"
  shows "read_src (pre @ src_bytes p @ rest) (length pre) pf =
    (pf\<lparr>src_pid := (if src_addr_mode (fcf p) \<noteq> 0 then src_pid p else 0),
        src_addr := seen_addr (src_addr_mode (fcf p)) (src_addr p) (src_addr pf)\<rparr>,
     length pre + length (src_bytes p))"
proof (cases "src_addr_mode (fcf p) = 0")
  case False
  show ?thesis
  proof (cases "compressed p")
    case True
    then have "src_pid p = dest_pid p" by (simp add: compressed_def)
    with True False show ?thesis
      using read_addr_bytes [OF assms(1,2) False, of pre rest "src_addr pf"] assms(3-5)
      by (simp add: read_src_def src_bytes_def)
  next
    case nc: False
    with False show ?thesis
      using read_addr_bytes [OF assms(1,2) False, of "pre @ pid_bytes (src_pid p)" rest "src_addr pf"]
        read_pid_bytes [of pre "src_pid p"] assms(3-5)
      by (simp add: read_src_def src_bytes_def) (simp add: pid_bytes_def)
  qed
qed (use assms in \<open>simp add: read_src_def src_bytes_def seen_addr_def\<close>)

lemma header_split:
  "header_bytes sec keys p = (fcf_bytes (sent_fcf p) @ [seq p]) @ dest_bytes p @ src_bytes p @
     (if sec \<and> security_enabled (fcf p) \<noteq> 0 then aux_bytes keys (aux_hdr p) else [])"
  by (simp add: header_bytes_def dest_bytes_def src_bytes_def)

lemma header_len_ge_3: "3 \<le> header_len sec keys p"
  by (simp add: header_len_def header_split fcf_bytes_def)

lemma read_fcf_sent:
  assumes "frame_wf p"
  shows "read_fcf (fcf_bytes (sent_fcf p) ! 0) (fcf_bytes (sent_fcf p) ! 1) = sent_fcf p"
  by (rule fcf_roundtrip) (use assms in \<open>simp_all add: frame_wf_def sent_fcf_def\<close>)

lemma parse_header:
  assumes wf: "frame_wf p" and len: "3 \<le> len"
  shows "frame802154_parse sec keys (header_bytes sec keys p @ rest) len pf =
    ((if int (header_len sec keys p) > len then 0 else int (header_len sec keys p)),
     seen_frame sec keys p (header_len sec keys p) len pf)"
proof -
  let ?aux = "if sec \<and> security_enabled (fcf p) \<noteq> 0 then aux_bytes keys (aux_hdr p) else []"
  let ?d = "header_bytes sec keys p @ rest" and ?hd = "fcf_bytes (sent_fcf p) @ [seq p]"
  let ?pf = "pf\<lparr>fcf := sent_fcf p, seq := seq p\<rparr>"
  have hd: "read_fcf (?d ! 0) (?d ! 1) = sent_fcf p" "?d ! 2 = seq p" "length ?hd = 3"
    using read_fcf_sent [OF wf] by (simp_all add: header_split fcf_bytes_def)
  have w: "length (dest_addr p) = 8" "length (src_addr p) = 8" "dest_addr_mode (fcf p) < 4"
    "src_addr_mode (fcf p) < 4" "security_level (aux_hdr p) < 8" "key_id_mode (aux_hdr p) < 4"
    "length (frame_counter (aux_hdr p)) = 4" "length (key_source (aux_hdr p)) = 8"
    using wf by (simp_all add: frame_wf_def)
  have fc: "fcf ?pf = sent_fcf p" "dest_addr_mode (sent_fcf p) = dest_addr_mode (fcf p)"
    "src_addr_mode (sent_fcf p) = src_addr_mode (fcf p)" "security_enabled (sent_fcf p) = security_enabled (fcf p)"
    "panid_compression (sent_fcf p) = (if compressed p then 1 else 0)" by (simp_all add: sent_fcf_def)
  have d: "?d = ?hd @ dest_bytes p @ (src_bytes p @ ?aux @ rest)" by (simp add: header_split)
  let ?pf1 = "?pf\<lparr>dest_pid := (if dest_addr_mode (fcf p) \<noteq> 0 then dest_pid p else 0),
        dest_addr := seen_addr (dest_addr_mode (fcf p)) (dest_addr p) (dest_addr pf)\<rparr>"
  have 1: "read_dest ?d 3 ?pf = (?pf1, length (?hd @ dest_bytes p))"
    using read_dest_bytes [OF w(1,3), of ?pf ?hd "src_bytes p @ ?aux @ rest"] fc hd(3) unfolding d by simp
  have d2: "?d = (?hd @ dest_bytes p) @ src_bytes p @ (?aux @ rest)" by (simp add: header_split)
  let ?pf2 = "?pf1\<lparr>src_pid := (if src_addr_mode (fcf p) \<noteq> 0 then src_pid p else 0),
        src_addr := seen_addr (src_addr_mode (fcf p)) (src_addr p) (src_addr pf)\<rparr>"
  have 2: "read_src ?d (length (?hd @ dest_bytes p)) ?pf1 = (?pf2, length (?hd @ dest_bytes p @ src_bytes p))"
    using read_src_bytes [OF w(2,4), of ?pf1 "?hd @ dest_bytes p" "?aux @ rest"] fc unfolding d2
    by (simp add: compressed_def)
  have d3: "?d = (?hd @ dest_bytes p @ src_bytes p) @ ?aux @ rest" by (simp add: header_split)
  have 3: "(if sec \<and> security_enabled (fcf ?pf2) \<noteq> 0
      then (case read_aux keys ?d (length (?hd @ dest_bytes p @ src_bytes p)) (aux_hdr ?pf2) of
             (h, p') \<Rightarrow> (?pf2\<lparr>aux_hdr := h\<rparr>, p'))
      else (?pf2, length (?hd @ dest_bytes p @ src_bytes p)))
    = (?pf2\<lparr>aux_hdr := if sec \<and> security_enabled (fcf p) \<noteq> 0 then seen_aux keys (aux_hdr p) (aux_hdr pf) else aux_hdr pf\<rparr>,
       header_len sec keys p)"
  proof (cases "sec \<and> security_enabled (fcf p) \<noteq> 0")
    case True
    then show ?thesis
      using read_aux_bytes [OF w(5-8), of keys "?hd @ dest_bytes p @ src_bytes p" rest "aux_hdr pf"] fc
      unfolding d3 by (simp add: header_len_def header_split)
  next
    case False
    then show ?thesis using fc by (auto simp: header_len_def header_split)
  qed
  show ?thesis
    unfolding frame802154_parse_def Let_def hd(1,2) 1 prod.case 2 3
    using len by (simp add: seen_frame_def)
qed

text \<open>
  C7. A header written by \<open>frame802154_create\<close> is read back by
  \<open>frame802154_parse\<close> field by field, for every combination of addressing modes, PAN id
  compression and security header: the parser returns the same length, or 0 when the
  frame is cut off inside the header. The length is the one \<open>frame802154_hdrlen\<close>
  announces, at most 37, and no byte behind the header is written.
\<close>

theorem frame802154_roundtrip:
  assumes "frame_wf p" and "fst (frame802154_hdrlen sec keys p) \<le> length buf" and "3 \<le> len"
    and "frame802154_create sec keys p buf = (n, p', buf')"
  shows "frame802154_parse sec keys buf' len pf
      = ((if int n > len then 0 else int n), seen_frame sec keys p n len pf) \<and>
    n = fst (frame802154_hdrlen sec keys p) \<and> n \<le> 37 \<and>
    length buf' = length buf \<and> drop n buf' = drop n buf"
proof -
  have n: "n = header_len sec keys p" "buf' = header_bytes sec keys p @ drop n buf" "n \<le> length buf"
    using create_eq [OF assms(1), of sec keys buf] assms(2,4) hdrlen_eq [OF assms(1)] by auto
  have "length (header_bytes sec keys p) = n" by (simp add: n(1) header_len_def)
  then show ?thesis
    using parse_header [OF assms(1,3), of sec keys "drop n buf" pf] header_len_le [OF assms(1), of sec keys]
      hdrlen_eq [OF assms(1), of sec keys] n by simp
qed

definition sample_frame :: frame802154 where
  "sample_frame = \<lparr>dest_addr = [1, 2, 3, 4, 5, 6, 7, 8], src_addr = [9, 10, 0, 0, 0, 0, 0, 0],
     fcf = \<lparr>frame_type = 1, security_enabled = 1, frame_pending = 0, ack_required = 1, panid_compression = 0,
            dest_addr_mode = 3, frame_version = 1, src_addr_mode = 2\<rparr>,
     seq = 77, dest_pid = 0xABCD, src_pid = 0xABCD,
     aux_hdr = \<lparr>security_level = 6, key_id_mode = 2, frame_counter = [1, 0, 0, 0],
                key_source = [5, 6, 7, 8, 0, 0, 0, 0], key_index = 3\<rparr>,
     payload = 0, payload_len = 0\<rparr>"

theorem frame802154_roundtrip_witness:
  "\<exists>n p' buf'. frame802154_create True True sample_frame (replicate 40 0) = (n, p', buf') \<and> n = 25 \<and>
     fst (frame802154_parse True True buf' 40 sample_frame) = 25 \<and>
     fst (frame802154_parse True True buf' 24 sample_frame) = 0 \<and>
     fcf (snd (frame802154_parse True True buf' 40 sample_frame)) = (fcf sample_frame)\<lparr>panid_compression := 1\<rparr>"
proof -
  obtain n p' buf' where c: "frame802154_create True True sample_frame (replicate 40 0) = (n, p', buf')"
    by (cases "frame802154_create True True sample_frame (replicate 40 0)") auto
  have wf: "frame_wf sample_frame" by (simp add: frame_wf_def sample_frame_def)
  have h: "fst (frame802154_hdrlen True True sample_frame) = 25" by code_simp
  have f: "sent_fcf sample_frame = (fcf sample_frame)\<lparr>panid_compression := 1\<rparr>"
    by (simp add: sent_fcf_def compressed_def sample_frame_def)
  note r = frame802154_roundtrip [OF wf _ _ c, of _ sample_frame]
  show ?thesis using r [of 40] r [of 24] h c f by (auto simp: seen_frame_def)
qed

lemma read_addr_le: "snd (read_addr m d p old) \<le> p + 8"
  by (simp add: read_addr_def)

lemma read_dest_bounds: "p \<le> snd (read_dest d p pf) \<and> snd (read_dest d p pf) \<le> p + 10"
  by (auto simp: read_dest_def read_addr_def)

lemma read_src_bounds: "p \<le> snd (read_src d p pf) \<and> snd (read_src d p pf) \<le> p + 10"
  by (auto simp: read_src_def read_addr_def)

lemma unat_and_3: "unat (x AND 3 :: u8) \<le> 3"
proof -
  have "unat (x AND 3) = unat x mod 4" using unat_and_mask [of "3 :: u8" 2 x] by simp
  then show ?thesis by simp
qed

lemma read_aux_bounds:
  "p + 5 \<le> snd (read_aux keys d p h) \<and> snd (read_aux keys d p h) \<le> p + 14"
  using unat_and_3 [of "drop_bit 3 (d ! p)"] by (auto simp: read_aux_def Let_def)

text \<open>
  C8. Whatever bytes arrive, the parser answers 0 or a header length between 3 and 37
  that does not exceed the length of the frame; with a non-zero answer the payload starts
  there and its length is what remains.
\<close>

theorem frame802154_parse_bounds:
  "case frame802154_parse sec keys d len pf of (r, pf') \<Rightarrow>
     r = 0 \<or> 3 \<le> r \<and> r \<le> 37 \<and> r \<le> len \<and> int (payload pf') = r \<and> payload_len pf' = len - r"
proof (cases "len < 3")
  case False
  let ?pf = "pf\<lparr>fcf := read_fcf (d ! 0) (d ! 1), seq := d ! 2\<rparr>"
  obtain pf1 p1 where 1: "read_dest d 3 ?pf = (pf1, p1)" by fastforce
  obtain pf2 p2 where 2: "read_src d p1 pf1 = (pf2, p2)" by fastforce
  obtain pf3 p3 where 3: "(if sec \<and> security_enabled (fcf pf2) \<noteq> 0
      then (case read_aux keys d p2 (aux_hdr pf2) of (h, p') \<Rightarrow> (pf2\<lparr>aux_hdr := h\<rparr>, p')) else (pf2, p2)) = (pf3, p3)"
    by fastforce
  have "3 \<le> p1 \<and> p1 \<le> 13" using read_dest_bounds [of 3 d ?pf] 1 by simp
  moreover have "p1 \<le> p2 \<and> p2 \<le> p1 + 10" using read_src_bounds [of p1 d pf1] 2 by simp
  moreover have "p2 \<le> p3 \<and> p3 \<le> p2 + 14"
    using read_aux_bounds [of p2 keys d "aux_hdr pf2"] 3 by (auto split: if_splits prod.splits)
  moreover have "frame802154_parse sec keys d len pf
      = ((if int p3 > len then 0 else int p3), pf3\<lparr>payload_len := len - int p3, payload := p3\<rparr>)"
    unfolding frame802154_parse_def Let_def 1 prod.case 2 3 using False by simp
  ultimately show ?thesis by auto
qed (simp add: frame802154_parse_def)

end
