(* ===== verification/Packetbuf.thy ===== *)
theory Packetbuf
  imports Prelude
begin

text \<open>
  Link-layer addresses (\<open>core/net/linkaddr.c\<close>, with \<open>LINKADDR_SIZE = 8\<close>) and the
  packet buffer of \<open>core/net/packetbuf.c\<close>: one packet with a header that grows
  downwards from \<open>PACKETBUF_HDR_SIZE\<close>, a data part behind it that is consumed from the
  front, and the attributes and addresses of the packet. The buffer implements a pair of
  byte lists; pushing the headers of the layers, sending, receiving and removing
  the headers in the reverse order gives back the payload.
\<close>

section \<open>linkaddr.c\<close>

datatype linkaddr = Linkaddr u8 u8 u8 u8 u8 u8 u8 u8

definition linkaddr_null :: linkaddr where
  "linkaddr_null = Linkaddr 0 0 0 0 0 0 0 0"

fun linkaddr_copy :: "linkaddr \<Rightarrow> linkaddr \<Rightarrow> linkaddr" where
  "linkaddr_copy dest (Linkaddr a b c d e f g h) = Linkaddr a b c d e f g h"

fun linkaddr_cmp :: "linkaddr \<Rightarrow> linkaddr \<Rightarrow> bool" where
  "linkaddr_cmp (Linkaddr a b c d e f g h) (Linkaddr a' b' c' d' e' f' g' h') \<longleftrightarrow>
     a = a' \<and> b = b' \<and> c = c' \<and> d = d' \<and> e = e' \<and> f = f' \<and> g = g' \<and> h = h'"

lemma linkaddr_cmp_eq [simp]: "linkaddr_cmp a b \<longleftrightarrow> a = b"
  by (cases a; cases b) simp

lemma linkaddr_copy_eq [simp]: "linkaddr_copy d s = s"
  by (cases s) simp

section \<open>packetbuf.c\<close>

datatype pb_attr = ATTR_NONE
  | ATTR_CHANNEL | ATTR_NETWORK_ID | ATTR_LINK_QUALITY | ATTR_RSSI | ATTR_TIMESTAMP
  | ATTR_RADIO_TXPOWER | ATTR_LISTEN_TIME | ATTR_TRANSMIT_TIME | ATTR_MAX_MAC_TRANSMISSIONS
  | ATTR_MAC_SEQNO | ATTR_MAC_ACK | ATTR_IS_CREATED_AND_SECURED
  | ATTR_RELIABLE | ATTR_PACKET_ID | ATTR_PACKET_TYPE | ATTR_REXMIT | ATTR_MAX_REXMIT
  | ATTR_NUM_REXMIT | ATTR_PENDING | ATTR_FRAME_TYPE | ATTR_SECURITY_LEVEL
  | ATTR_FRAME_COUNTER_BYTES_0_1 | ATTR_FRAME_COUNTER_BYTES_2_3 | ATTR_KEY_ID_MODE
  | ATTR_KEY_INDEX | ATTR_KEY_SOURCE_BYTES_0_1 | ATTR_HOPS | ATTR_TTL | ATTR_EPACKET_ID
  | ATTR_EPACKET_TYPE | ATTR_ERELIABLE

datatype pb_addr = ADDR_SENDER | ADDR_RECEIVER | ADDR_ESENDER | ADDR_ERECEIVER

abbreviation (input) PACKETBUF_SIZE :: nat where "PACKETBUF_SIZE \<equiv> 128"
abbreviation (input) PACKETBUF_HDR_SIZE :: nat where "PACKETBUF_HDR_SIZE \<equiv> 48"

text \<open>
  \<open>pb_ref\<close> is \<open>None\<close> while \<open>packetbufptr\<close> points into the buffer itself, and the bytes
  found at the foreign pointer after \<open>packetbuf_reference\<close>.
\<close>

record packetbuf =
  pb_mem :: "u8 list"
  pb_buflen :: u16
  pb_bufptr :: u16
  pb_hdrptr :: u8
  pb_ref :: "u8 list option"
  pb_attrs :: "pb_attr \<Rightarrow> u16"
  pb_addrs :: "pb_addr \<Rightarrow> linkaddr"

definition packetbuf_attr_clear :: "packetbuf \<Rightarrow> packetbuf" where
  "packetbuf_attr_clear p = p\<lparr>pb_attrs := (\<lambda>_. 0), pb_addrs := (\<lambda>_. linkaddr_null)\<rparr>"

definition packetbuf_clear :: "packetbuf \<Rightarrow> packetbuf" where
  "packetbuf_clear p = packetbuf_attr_clear (p\<lparr>pb_buflen := 0, pb_bufptr := 0, pb_hdrptr := 48, pb_ref := None\<rparr>)"

definition packetbuf_clear_hdr :: "packetbuf \<Rightarrow> packetbuf" where
  "packetbuf_clear_hdr p = p\<lparr>pb_hdrptr := 48\<rparr>"

definition memcpy_at :: "u8 list \<Rightarrow> nat \<Rightarrow> u8 list \<Rightarrow> u8 list" where
  "memcpy_at m pos bs = take pos m @ bs @ drop (pos + length bs) m"

definition packetbuf_copyfrom :: "u8 list \<Rightarrow> u16 \<Rightarrow> packetbuf \<Rightarrow> u16 \<times> packetbuf" where
  "packetbuf_copyfrom from len p =
     (let p = packetbuf_clear p;
          l = (if len > 128 then 128 else len)
      in (l, p\<lparr>pb_mem := memcpy_at (pb_mem p) PACKETBUF_HDR_SIZE (take (unat l) from), pb_buflen := l\<rparr>))"

definition packetbuf_is_reference :: "packetbuf \<Rightarrow> bool" where
  "packetbuf_is_reference p \<longleftrightarrow> pb_ref p \<noteq> None"

definition packetbuf_reference :: "u8 list \<Rightarrow> u16 \<Rightarrow> packetbuf \<Rightarrow> packetbuf" where
  "packetbuf_reference ext len p = (packetbuf_clear p)\<lparr>pb_ref := Some ext, pb_buflen := len\<rparr>"

definition packetbuf_datalen :: "packetbuf \<Rightarrow> u16" where
  "packetbuf_datalen p = pb_buflen p"

definition packetbuf_set_datalen :: "u16 \<Rightarrow> packetbuf \<Rightarrow> packetbuf" where
  "packetbuf_set_datalen len p = p\<lparr>pb_buflen := len\<rparr>"

text \<open>Offsets into the buffer for the two pointer-valued functions.\<close>

definition packetbuf_dataptr :: "packetbuf \<Rightarrow> nat" where
  "packetbuf_dataptr p = unat (pb_bufptr p) + PACKETBUF_HDR_SIZE"

definition packetbuf_hdrptr :: "packetbuf \<Rightarrow> nat" where
  "packetbuf_hdrptr p = unat (pb_hdrptr p)"

definition packetbuf_hdrlen :: "packetbuf \<Rightarrow> u8" where
  "packetbuf_hdrlen p =
     (let hdrlen = 48 - pb_hdrptr p in if hdrlen \<noteq> 0 then hdrlen else ucast (pb_bufptr p))"

definition packetbuf_totlen :: "packetbuf \<Rightarrow> u16" where
  "packetbuf_totlen p = ucast (packetbuf_hdrlen p) + packetbuf_datalen p"

text \<open>The copying loop of \<open>packetbuf_compact\<close>, byte by byte within one array.\<close>

fun compact_loop :: "nat \<Rightarrow> nat \<Rightarrow> nat \<Rightarrow> u8 list \<Rightarrow> u8 list" where
  "compact_loop 0 i off m = m"
| "compact_loop (Suc n) i off m = compact_loop n (Suc i) off (m[i := m ! (off + i)])"

definition packetbuf_compact :: "packetbuf \<Rightarrow> packetbuf" where
  "packetbuf_compact p =
     (case pb_ref p of
        Some ext \<Rightarrow> p\<lparr>pb_mem := memcpy_at (pb_mem p) PACKETBUF_HDR_SIZE (take (unat (packetbuf_datalen p)) ext)\<rparr>
      | None \<Rightarrow>
          if pb_bufptr p > 0
          then p\<lparr>pb_mem := compact_loop (unat (packetbuf_datalen p)) PACKETBUF_HDR_SIZE (unat (pb_bufptr p)) (pb_mem p),
                 pb_bufptr := 0\<rparr>
          else p)"

definition packetbuf_copyto_hdr :: "packetbuf \<Rightarrow> nat \<times> u8 list" where
  "packetbuf_copyto_hdr p =
     (PACKETBUF_HDR_SIZE - unat (pb_hdrptr p),
      take (PACKETBUF_HDR_SIZE - unat (pb_hdrptr p)) (drop (unat (pb_hdrptr p)) (pb_mem p)))"

definition data_bytes :: "packetbuf \<Rightarrow> u8 list" where
  "data_bytes p = take (unat (pb_buflen p))
     (case pb_ref p of None \<Rightarrow> drop (PACKETBUF_HDR_SIZE + unat (pb_bufptr p)) (pb_mem p)
      | Some ext \<Rightarrow> drop (unat (pb_bufptr p)) ext)"

definition packetbuf_copyto :: "packetbuf \<Rightarrow> u16 \<times> u8 list" where
  "packetbuf_copyto p =
     (if (48 - ucast (pb_hdrptr p) + pb_buflen p :: u16) > 128 then (0, [])
      else (48 - ucast (pb_hdrptr p) + pb_buflen p, snd (packetbuf_copyto_hdr p) @ data_bytes p))"

text \<open>
  \<open>size\<close> is a C \<open>int\<close>: compared with the 8-bit header pointer as a signed number, and
  converted to unsigned where it meets a \<open>uint16_t\<close>.
\<close>

definition packetbuf_hdralloc :: "int \<Rightarrow> packetbuf \<Rightarrow> bool \<times> packetbuf" where
  "packetbuf_hdralloc sz p =
     (if uint (pb_hdrptr p) \<ge> sz \<and> packetbuf_totlen p + word_of_int sz \<le> 128
      then (True, p\<lparr>pb_hdrptr := pb_hdrptr p - word_of_int sz\<rparr>)
      else (False, p))"

definition packetbuf_hdr_remove :: "int \<Rightarrow> packetbuf \<Rightarrow> packetbuf" where
  "packetbuf_hdr_remove sz p = p\<lparr>pb_hdrptr := pb_hdrptr p + word_of_int sz\<rparr>"

definition packetbuf_hdrreduce :: "int \<Rightarrow> packetbuf \<Rightarrow> bool \<times> packetbuf" where
  "packetbuf_hdrreduce sz p =
     (if pb_buflen p < word_of_int sz then (False, p)
      else (True, p\<lparr>pb_bufptr := pb_bufptr p + word_of_int sz, pb_buflen := pb_buflen p - word_of_int sz\<rparr>))"

definition packetbuf_attr_copyto :: "packetbuf \<Rightarrow> (pb_attr \<Rightarrow> u16) \<times> (pb_addr \<Rightarrow> linkaddr)" where
  "packetbuf_attr_copyto p = (pb_attrs p, pb_addrs p)"

definition packetbuf_attr_copyfrom :: "(pb_attr \<Rightarrow> u16) \<times> (pb_addr \<Rightarrow> linkaddr) \<Rightarrow> packetbuf \<Rightarrow> packetbuf" where
  "packetbuf_attr_copyfrom a p = p\<lparr>pb_attrs := fst a, pb_addrs := snd a\<rparr>"

definition packetbuf_set_attr :: "pb_attr \<Rightarrow> u16 \<Rightarrow> packetbuf \<Rightarrow> packetbuf" where
  "packetbuf_set_attr t v p = p\<lparr>pb_attrs := (pb_attrs p)(t := v)\<rparr>"

definition packetbuf_attr :: "pb_attr \<Rightarrow> packetbuf \<Rightarrow> u16" where
  "packetbuf_attr t p = pb_attrs p t"

definition packetbuf_set_addr :: "pb_addr \<Rightarrow> linkaddr \<Rightarrow> packetbuf \<Rightarrow> packetbuf" where
  "packetbuf_set_addr t a p = p\<lparr>pb_addrs := (pb_addrs p)(t := linkaddr_copy (pb_addrs p t) a)\<rparr>"

definition packetbuf_addr :: "pb_addr \<Rightarrow> packetbuf \<Rightarrow> linkaddr" where
  "packetbuf_addr t p = pb_addrs p t"

definition packetbuf_holds_broadcast :: "packetbuf \<Rightarrow> bool" where
  "packetbuf_holds_broadcast p \<longleftrightarrow> linkaddr_cmp (packetbuf_addr ADDR_RECEIVER p) linkaddr_null"

section \<open>The buffer as a header and data\<close>

definition header_part :: "packetbuf \<Rightarrow> u8 list" where
  "header_part p = snd (packetbuf_copyto_hdr p)"

definition pb_wf :: "packetbuf \<Rightarrow> bool" where
  "pb_wf p \<longleftrightarrow> length (pb_mem p) = PACKETBUF_HDR_SIZE + PACKETBUF_SIZE \<and> unat (pb_hdrptr p) \<le> 48 \<and>
     (case pb_ref p of None \<Rightarrow> unat (pb_bufptr p) + unat (pb_buflen p) \<le> PACKETBUF_SIZE
      | Some ext \<Rightarrow> unat (pb_bufptr p) + unat (pb_buflen p) \<le> length ext \<and> length ext < 32768)"

lemma length_header_part: "pb_wf p \<Longrightarrow> length (header_part p) = 48 - unat (pb_hdrptr p)"
  by (simp add: header_part_def packetbuf_copyto_hdr_def pb_wf_def)

lemma length_data_bytes: "pb_wf p \<Longrightarrow> length (data_bytes p) = unat (pb_buflen p)"
  by (auto simp: data_bytes_def pb_wf_def split: option.splits)

lemma pb_buflen_small: "pb_wf p \<Longrightarrow> unat (pb_buflen p) < 32768"
  by (auto simp: pb_wf_def split: option.splits)

lemma length_memcpy_at [simp]: "pos + length bs \<le> length m \<Longrightarrow> length (memcpy_at m pos bs) = length m"
  by (simp add: memcpy_at_def)

lemma memcpy_at_behind:
  "pos \<le> length m \<Longrightarrow> pos + length bs \<le> j \<Longrightarrow> drop j (memcpy_at m pos bs) = drop j m"
  by (simp add: memcpy_at_def)

lemma memcpy_at_drop: "pos \<le> length m \<Longrightarrow> drop pos (memcpy_at m pos bs) = bs @ drop (pos + length bs) m"
  by (simp add: memcpy_at_def)

lemma copyfrom_view:
  assumes "pb_wf p" "unat len \<le> length from" "packetbuf_copyfrom from len p = (l, p')"
  shows "pb_wf p' \<and> header_part p' = [] \<and> data_bytes p' = take (min 128 (unat len)) from \<and>
    unat l = min 128 (unat len) \<and> pb_bufptr p' = 0 \<and> pb_ref p' = None"
proof -
  have l: "unat l = min 128 (unat len)" using assms(3)
    by (auto simp: packetbuf_copyfrom_def Let_def word_less_nat_alt min_def split: if_splits)
  have p': "p' = (packetbuf_clear p)\<lparr>pb_mem := memcpy_at (pb_mem p) 48 (take (unat l) from), pb_buflen := l\<rparr>"
    using assms(3) by (auto simp: packetbuf_copyfrom_def Let_def packetbuf_clear_def packetbuf_attr_clear_def)
  show ?thesis using assms(1,2) l
    by (simp add: p' pb_wf_def header_part_def packetbuf_copyto_hdr_def data_bytes_def packetbuf_clear_def
        packetbuf_attr_clear_def memcpy_at_drop min_def)
qed

lemma unat_hdrlen:
  assumes "pb_wf p" "length (header_part p) > 0"
  shows "unat (packetbuf_hdrlen p) = length (header_part p)"
proof -
  have "unat (48 - pb_hdrptr p) = 48 - unat (pb_hdrptr p)"
    using assms(1) by (simp add: pb_wf_def unat_sub_if')
  moreover from this have "48 - pb_hdrptr p \<noteq> 0" using assms by (auto simp: length_header_part)
  ultimately show ?thesis using assms(1) by (simp add: packetbuf_hdrlen_def length_header_part)
qed

lemma totlen_ge:
  assumes "pb_wf p"
  shows "unat (packetbuf_totlen p) \<ge> length (header_part p) + length (data_bytes p)
    \<and> unat (packetbuf_totlen p) < 33280"
proof -
  have "unat (packetbuf_totlen p) = unat (packetbuf_hdrlen p) + unat (pb_buflen p)"
    using pb_buflen_small [OF assms] unat_less_u8 [of "packetbuf_hdrlen p"]
    by (simp add: packetbuf_totlen_def packetbuf_datalen_def unat_word_ariths)
  then show ?thesis using unat_hdrlen [OF assms] pb_buflen_small [OF assms] unat_less_u8 [of "packetbuf_hdrlen p"]
    by (cases "length (header_part p) = 0") (simp_all add: length_data_bytes [OF assms])
qed

lemma totlen_outbound:
  assumes "pb_wf p" "pb_bufptr p = 0"
  shows "unat (packetbuf_totlen p) = length (header_part p) + length (data_bytes p)"
proof -
  have "packetbuf_hdrlen p = 48 - pb_hdrptr p" using assms(2) by (simp add: packetbuf_hdrlen_def Let_def)
  then have "unat (packetbuf_hdrlen p) = length (header_part p)"
    using assms(1) by (simp add: length_header_part pb_wf_def unat_sub_if')
  then show ?thesis
    using pb_buflen_small [OF assms(1)] unat_less_u8 [of "packetbuf_hdrlen p"]
    by (simp add: packetbuf_totlen_def packetbuf_datalen_def unat_word_ariths length_data_bytes [OF assms(1)])
qed

text \<open>What a caller does with the header space: allocate, then copy to \<open>packetbuf_hdrptr()\<close>.\<close>

definition push_hdr :: "u8 list \<Rightarrow> packetbuf \<Rightarrow> packetbuf option" where
  "push_hdr bs p =
     (case packetbuf_hdralloc (int (length bs)) p of
        (True, p') \<Rightarrow> Some (p'\<lparr>pb_mem := memcpy_at (pb_mem p') (packetbuf_hdrptr p') bs\<rparr>)
      | (False, _) \<Rightarrow> None)"

lemma hdralloc_cond:
  assumes "pb_wf p" "n \<le> 48"
  shows "packetbuf_totlen p + word_of_int (int n) \<le> 128 \<longleftrightarrow> unat (packetbuf_totlen p) + n \<le> 128"
proof -
  have "unat (packetbuf_totlen p + of_nat n) = unat (packetbuf_totlen p) + n"
    using totlen_ge [OF assms(1)] assms(2) by (simp add: unat_word_ariths unat_of_nat)
  then show ?thesis by (simp add: word_le_nat_alt)
qed

lemma push_hdr_ok:
  assumes "pb_wf p" "push_hdr bs p = Some p'"
  shows "pb_wf p' \<and> header_part p' = bs @ header_part p \<and> data_bytes p' = data_bytes p \<and>
    length bs + length (header_part p) \<le> 48 \<and> length bs + length (header_part p) + length (data_bytes p) \<le> 128 \<and>
    pb_bufptr p' = pb_bufptr p \<and> pb_ref p' = pb_ref p"
proof -
  have h: "int (length bs) \<le> uint (pb_hdrptr p)" "packetbuf_totlen p + word_of_int (int (length bs)) \<le> 128"
    and p': "p' = p\<lparr>pb_hdrptr := pb_hdrptr p - of_nat (length bs),
       pb_mem := memcpy_at (pb_mem p) (unat (pb_hdrptr p - of_nat (length bs))) bs\<rparr>"
    using assms(2) by (auto simp: push_hdr_def packetbuf_hdralloc_def packetbuf_hdrptr_def split: if_splits)
  have n: "length bs \<le> unat (pb_hdrptr p)" "unat (pb_hdrptr p) \<le> 48"
    using h(1) assms(1) unfolding uint_nat of_nat_le_iff pb_wf_def by linarith+
  then have u: "unat (pb_hdrptr p - of_nat (length bs)) = unat (pb_hdrptr p) - length bs"
    by (simp add: unat_sub_if' unat_of_nat)
  have bound: "length bs + length (header_part p) + length (data_bytes p) \<le> 128"
    using h(2) totlen_ge [OF assms(1)] n hdralloc_cond [OF assms(1), of "length bs"] by simp
  have m: "length (pb_mem p) = 176" using assms(1) by (simp add: pb_wf_def)
  have "header_part p' = take (48 - (unat (pb_hdrptr p) - length bs)) (bs @ drop (unat (pb_hdrptr p)) (pb_mem p))"
    using n m by (simp add: header_part_def packetbuf_copyto_hdr_def p' u memcpy_at_drop)
  also have "\<dots> = bs @ header_part p"
    using n by (simp add: header_part_def packetbuf_copyto_hdr_def)
  finally have hd: "header_part p' = bs @ header_part p" .
  have "drop (48 + k) (memcpy_at (pb_mem p) (unat (pb_hdrptr p) - length bs) bs) = drop (48 + k) (pb_mem p)" for k
    by (rule memcpy_at_behind) (use n m in simp_all)
  then have dt: "data_bytes p' = data_bytes p" by (simp add: data_bytes_def p' u split: option.splits)
  have "pb_wf p'" using assms(1) n m by (auto simp: pb_wf_def p' u split: option.splits)
  then show ?thesis using hd dt bound n length_header_part [OF assms(1)] by (simp add: p')
qed

lemma push_hdr_iff:
  assumes "pb_wf p" "pb_bufptr p = 0"
  shows "push_hdr bs p \<noteq> None \<longleftrightarrow>
    length bs + length (header_part p) \<le> 48 \<and> length bs + length (header_part p) + length (data_bytes p) \<le> 128"
proof -
  have "int (length bs) \<le> uint (pb_hdrptr p) \<longleftrightarrow> length bs + length (header_part p) \<le> 48"
    using assms(1) length_header_part [OF assms(1)] unfolding uint_nat of_nat_le_iff pb_wf_def by linarith
  then show ?thesis
    using hdralloc_cond [OF assms(1), of "length bs"] totlen_outbound [OF assms]
    by (auto simp: push_hdr_def packetbuf_hdralloc_def split: if_splits)
qed

lemma hdrreduce_iff:
  assumes "pb_wf p" "n < 65536"
  shows "packetbuf_hdrreduce (int n) p = (False, p) \<and> length (data_bytes p) < n \<or>
    (\<exists>p'. packetbuf_hdrreduce (int n) p = (True, p') \<and> n \<le> length (data_bytes p) \<and> pb_wf p' \<and>
       header_part p' = header_part p \<and> data_bytes p' = drop n (data_bytes p) \<and>
       unat (pb_bufptr p') = unat (pb_bufptr p) + n \<and> pb_ref p' = pb_ref p)"
proof (cases "n \<le> unat (pb_buflen p)")
  case True
  let ?p = "p\<lparr>pb_bufptr := pb_bufptr p + of_nat n, pb_buflen := pb_buflen p - of_nat n\<rparr>"
  have n: "unat (of_nat n :: u16) = n" using assms(2) by (simp add: unat_of_nat)
  have le: "unat (pb_bufptr p) + unat (pb_buflen p) < 65536"
    using assms(1) by (auto simp: pb_wf_def split: option.splits)
  have u: "unat (pb_bufptr ?p) = unat (pb_bufptr p) + n" "unat (pb_buflen ?p) = unat (pb_buflen p) - n"
    using True n le by (simp_all add: unat_word_ariths unat_sub_if')
  have "packetbuf_hdrreduce (int n) p = (True, ?p)"
    using True n by (simp add: packetbuf_hdrreduce_def word_less_nat_alt)
  moreover have "pb_wf ?p" using assms(1) u True by (auto simp: pb_wf_def split: option.splits)
  moreover have "data_bytes ?p = drop n (data_bytes p)"
    using u unfolding data_bytes_def by (auto simp: drop_take ac_simps split: option.splits)
  moreover have "header_part ?p = header_part p" by (simp add: header_part_def packetbuf_copyto_hdr_def)
  ultimately show ?thesis using True u length_data_bytes [OF assms(1)] by auto
next
  case False
  then have "packetbuf_hdrreduce (int n) p = (False, p)"
    using assms(2) by (simp add: packetbuf_hdrreduce_def word_less_nat_alt unat_of_nat)
  then show ?thesis using False length_data_bytes [OF assms(1)] by simp
qed

lemma compact_loop_eq:
  "off + i + n \<le> length m \<Longrightarrow>
     compact_loop n i off m = take i m @ take n (drop (off + i) m) @ drop (i + n) m"
proof (induction n arbitrary: i m)
  case (Suc n)
  let ?m = "m[i := m ! (off + i)]"
  have "compact_loop (Suc n) i off m = take (Suc i) ?m @ take n (drop (off + Suc i) ?m) @ drop (Suc i + n) ?m"
    using Suc.IH [of "Suc i" ?m] Suc.prems by simp
  moreover have "take (Suc i) ?m = take i m @ [m ! (off + i)]"
    using Suc.prems by (simp add: take_Suc_conv_app_nth)
  moreover have "take (Suc n) (drop (off + i) m) = m ! (off + i) # take n (drop (off + Suc i) m)"
    using Suc.prems by (metis (no_types) Cons_nth_drop_Suc add_Suc_right add_lessD1 add.commute
        less_le_trans less_add_Suc2 take_Suc_Cons add_Suc)
  ultimately show ?case using Suc.prems by simp
qed simp

lemma compact_view:
  assumes "pb_wf p" "pb_ref p = None"
  shows "pb_wf (packetbuf_compact p) \<and> header_part (packetbuf_compact p) = header_part p \<and>
    data_bytes (packetbuf_compact p) = data_bytes p \<and> pb_bufptr (packetbuf_compact p) = 0"
proof (cases "pb_bufptr p > 0")
  case True
  let ?n = "unat (pb_buflen p)" and ?o = "unat (pb_bufptr p)"
  have b: "?o + ?n \<le> 128" "length (pb_mem p) = 176" "unat (pb_hdrptr p) \<le> 48"
    using assms by (simp_all add: pb_wf_def)
  have c: "packetbuf_compact p = p\<lparr>pb_mem := take 48 (pb_mem p) @ take ?n (drop (?o + 48) (pb_mem p)) @
      drop (48 + ?n) (pb_mem p), pb_bufptr := 0\<rparr>"
    using compact_loop_eq [of ?o 48 ?n "pb_mem p"] b True assms(2)
    by (simp add: packetbuf_compact_def packetbuf_datalen_def)
  show ?thesis using b assms
    by (simp add: c header_part_def packetbuf_copyto_hdr_def data_bytes_def pb_wf_def drop_take add.commute)
next
  case False
  then have z: "pb_bufptr p = 0" by (simp add: word_gt_0)
  then have "packetbuf_compact p = p" using assms(2) by (simp add: packetbuf_compact_def)
  then show ?thesis using assms z by simp
qed

lemma unat_of_nat_id: "of_nat (unat (w :: 'a::len word)) = w"
  by simp

lemma copyto_eq:
  assumes "pb_wf p"
  shows "packetbuf_copyto p = (if length (header_part p) + length (data_bytes p) \<le> 128
    then (of_nat (length (header_part p @ data_bytes p)), header_part p @ data_bytes p) else (0, []))"
proof -
  let ?w = "48 - ucast (pb_hdrptr p) + pb_buflen p :: u16"
  have "unat (48 - ucast (pb_hdrptr p) :: u16) = 48 - unat (pb_hdrptr p)"
    using assms by (simp add: pb_wf_def unat_sub_if')
  then have u: "unat ?w = length (header_part p) + length (data_bytes p)"
    using pb_buflen_small [OF assms] by (simp add: unat_word_ariths length_header_part [OF assms] length_data_bytes [OF assms])
  have "of_nat (unat ?w) = ?w" by (rule unat_of_nat_id)
  then have e: "?w = of_nat (length (header_part p @ data_bytes p))" unfolding u by (simp only: length_append)
  have "?w > 128 \<longleftrightarrow> \<not> length (header_part p) + length (data_bytes p) \<le> 128"
    unfolding word_less_nat_alt u by auto
  then show ?thesis unfolding packetbuf_copyto_def e header_part_def [symmetric] by simp
qed

section \<open>From a sender to a receiver\<close>

fun push_hdrs :: "u8 list list \<Rightarrow> packetbuf \<Rightarrow> packetbuf option" where
  "push_hdrs [] p = Some p"
| "push_hdrs (h # hs) p = (case push_hdr h p of None \<Rightarrow> None | Some p' \<Rightarrow> push_hdrs hs p')"

text \<open>A receiving layer looks at its header and removes it with \<open>packetbuf_hdrreduce\<close>.\<close>

fun pull_hdrs :: "nat list \<Rightarrow> packetbuf \<Rightarrow> (u8 list list \<times> packetbuf) option" where
  "pull_hdrs [] p = Some ([], p)"
| "pull_hdrs (n # ns) p =
     (case packetbuf_hdrreduce (int n) p of
        (False, _) \<Rightarrow> None
      | (True, p') \<Rightarrow> (case pull_hdrs ns p' of None \<Rightarrow> None | Some (hs, q) \<Rightarrow> Some (take n (data_bytes p) # hs, q)))"

lemma push_hdrs_ok:
  "pb_wf p \<Longrightarrow> push_hdrs hs p = Some p' \<Longrightarrow>
     pb_wf p' \<and> header_part p' = concat (rev hs) @ header_part p \<and> data_bytes p' = data_bytes p"
proof (induction hs arbitrary: p)
  case (Cons h hs)
  then obtain p1 where p1: "push_hdr h p = Some p1" "push_hdrs hs p1 = Some p'" by (auto split: option.splits)
  note k = push_hdr_ok [OF Cons.prems(1) p1(1)]
  have "pb_wf p1" using k by simp
  from Cons.IH [OF this p1(2)] k show ?case by simp
qed simp

lemma push_hdrs_iff:
  "pb_wf p \<Longrightarrow> pb_bufptr p = 0 \<Longrightarrow> length (header_part p) + length (data_bytes p) \<le> 128 \<Longrightarrow>
     push_hdrs hs p \<noteq> None \<longleftrightarrow> sum_list (map length hs) + length (header_part p) \<le> 48 \<and>
       sum_list (map length hs) + length (header_part p) + length (data_bytes p) \<le> 128"
proof (induction hs arbitrary: p)
  case Nil
  then show ?case using length_header_part [OF Nil(1)] by simp
next
  case (Cons h hs)
  show ?case
  proof (cases "push_hdr h p")
    case None
    then show ?thesis using push_hdr_iff [OF Cons.prems(1,2), of h] by auto
  next
    case (Some p1)
    note k = push_hdr_ok [OF Cons.prems(1) Some]
    have "push_hdrs hs p1 \<noteq> None \<longleftrightarrow> sum_list (map length hs) + length (header_part p1) \<le> 48 \<and>
       sum_list (map length hs) + length (header_part p1) + length (data_bytes p1) \<le> 128"
      by (rule Cons.IH) (use k Cons.prems(2) in simp_all)
    then show ?thesis using k Some by (simp add: ac_simps)
  qed
qed

lemma pull_hdrs_ok:
  "pb_wf p \<Longrightarrow> data_bytes p = concat hs @ rest \<Longrightarrow>
     \<exists>q. pull_hdrs (map length hs) p = Some (hs, q) \<and> pb_wf q \<and> data_bytes q = rest \<and> header_part q = header_part p
       \<and> pb_ref q = pb_ref p"
proof (induction hs arbitrary: p)
  case (Cons h hs)
  have "length h < 65536"
    using arg_cong [OF Cons.prems(2), of length] pb_buflen_small [OF Cons.prems(1)] length_data_bytes [OF Cons.prems(1)]
    by simp
  then obtain p' where p': "packetbuf_hdrreduce (int (length h)) p = (True, p')" "pb_wf p'"
    "data_bytes p' = concat hs @ rest" "header_part p' = header_part p" "pb_ref p' = pb_ref p"
    using hdrreduce_iff [OF Cons.prems(1), of "length h"] Cons.prems(2) by auto
  with Cons.IH [OF p'(2,3)] Cons.prems(2) show ?case by auto
qed simp

text \<open>
  C9. Layers push their headers in front of a payload with \<open>packetbuf_hdralloc\<close>, which
  all succeeds exactly when the headers fit into the header space and the packet into the
  buffer; the frame copied out is then the headers, last one first, and the payload. A receiver
  that copies the frame in and removes the headers in the opposite order with
  \<open>packetbuf_hdrreduce\<close> sees each header and ends with the payload, also after
  \<open>packetbuf_compact\<close>.
\<close>

theorem packetbuf_layers_roundtrip:
  assumes "pb_wf p" "pb_wf q" "length payload \<le> 128"
    and "packetbuf_copyfrom payload (of_nat (length payload)) p = (l, p0)"
  shows "(push_hdrs hs p0 \<noteq> None \<longleftrightarrow>
      sum_list (map length hs) \<le> 48 \<and> sum_list (map length hs) + length payload \<le> 128) \<and>
    (push_hdrs hs p0 = Some p1 \<longrightarrow>
      packetbuf_copyto p1 = (of_nat (length (concat (rev hs) @ payload)), concat (rev hs) @ payload) \<and>
      (\<exists>q1. pull_hdrs (map length (rev hs)) (snd (packetbuf_copyfrom (snd (packetbuf_copyto p1)) (fst (packetbuf_copyto p1)) q))
          = Some (rev hs, q1) \<and>
        data_bytes q1 = payload \<and> data_bytes (packetbuf_compact q1) = payload))"
proof -
  have len: "unat (of_nat (length payload) :: u16) = length payload" using assms(3) by (simp add: unat_of_nat)
  have p0: "pb_wf p0" "header_part p0 = []" "data_bytes p0 = payload" "pb_bufptr p0 = 0"
    using copyfrom_view [OF assms(1) _ assms(4)] len assms(3) by simp_all
  have fits: "push_hdrs hs p0 \<noteq> None \<longleftrightarrow>
      sum_list (map length hs) \<le> 48 \<and> sum_list (map length hs) + length payload \<le> 128"
    using push_hdrs_iff [OF p0(1,4), of hs] p0 assms(3) by simp
  moreover have "packetbuf_copyto p1 = (of_nat (length (concat (rev hs) @ payload)), concat (rev hs) @ payload) \<and>
      (\<exists>q1. pull_hdrs (map length (rev hs)) (snd (packetbuf_copyfrom (snd (packetbuf_copyto p1)) (fst (packetbuf_copyto p1)) q))
          = Some (rev hs, q1) \<and> data_bytes q1 = payload \<and> data_bytes (packetbuf_compact q1) = payload)"
    if push: "push_hdrs hs p0 = Some p1"
  proof -
    let ?f = "concat (rev hs) @ payload"
    have p1: "pb_wf p1" "header_part p1 = concat (rev hs)" "data_bytes p1 = payload"
      using push_hdrs_ok [OF p0(1) push] p0 by simp_all
    have lf: "length ?f \<le> 128"
      using fits push by (simp add: length_concat rev_map [symmetric] sum_list_rev)
    then have out: "packetbuf_copyto p1 = (of_nat (length ?f), ?f)" using copyto_eq [OF p1(1)] p1 by simp
    have "unat (of_nat n :: u16) = n" if "n \<le> 128" for n using that by (simp add: unat_of_nat)
    from this [OF lf] have uf: "unat (of_nat (length ?f) :: u16) = length ?f" .
    obtain l' q0 where c: "packetbuf_copyfrom ?f (of_nat (length ?f)) q = (l', q0)" by fastforce
    have q0: "pb_wf q0" "data_bytes q0 = ?f" "pb_ref q0 = None"
      using copyfrom_view [OF assms(2) _ c] uf lf by simp_all
    from pull_hdrs_ok [OF q0(1,2)] q0(3) obtain q1 where
      "pull_hdrs (map length (rev hs)) q0 = Some (rev hs, q1)" "pb_wf q1" "data_bytes q1 = payload" "pb_ref q1 = None"
      by auto
    moreover from this have "data_bytes (packetbuf_compact q1) = payload" using compact_view by simp
    ultimately show ?thesis using out c by simp
  qed
  ultimately show ?thesis by blast
qed

definition fresh_packetbuf :: packetbuf where
  "fresh_packetbuf = packetbuf_clear \<lparr>pb_mem = replicate 176 0, pb_buflen = 0, pb_bufptr = 0, pb_hdrptr = 0,
     pb_ref = None, pb_attrs = (\<lambda>_. 0), pb_addrs = (\<lambda>_. linkaddr_null)\<rparr>"

lemma fresh_packetbuf_wf: "pb_wf fresh_packetbuf"
  by (simp add: pb_wf_def fresh_packetbuf_def packetbuf_clear_def packetbuf_attr_clear_def)

theorem packetbuf_layers_roundtrip_witness:
  "\<exists>l p0 p1. packetbuf_copyfrom [7, 8, 9] 3 fresh_packetbuf = (l, p0) \<and>
     push_hdrs [[1], [2, 3]] p0 = Some p1 \<and> packetbuf_copyto p1 = (6, [2, 3, 1, 7, 8, 9]) \<and>
     push_hdrs [replicate 40 0, replicate 9 0] p0 = None"
proof -
  obtain l p0 where c: "packetbuf_copyfrom [7, 8, 9] 3 fresh_packetbuf = (l, p0)" by fastforce
  then have c': "packetbuf_copyfrom [7, 8, 9] (of_nat (length [7, 8, 9 :: u8])) fresh_packetbuf = (l, p0)" by simp
  note r = packetbuf_layers_roundtrip [OF fresh_packetbuf_wf fresh_packetbuf_wf _ c']
  obtain p1 where p1: "push_hdrs [[1], [2, 3]] p0 = Some p1"
    using r [of "[[1], [2, 3]]"] by (auto simp del: push_hdrs.simps)
  have "packetbuf_copyto p1 = (6, [2, 3, 1, 7, 8, 9])"
    using r [of "[[1], [2, 3]]" p1] p1 by (simp del: push_hdrs.simps)
  moreover have "push_hdrs [replicate 40 0, replicate 9 0] p0 = None"
    using r [of "[replicate 40 0, replicate 9 0]"] by (auto simp del: push_hdrs.simps)
  ultimately show ?thesis using c p1 by blast
qed

end
