(* ===== verification/Queuebuf.thy ===== *)
theory Queuebuf
  imports Memb Packetbuf
begin

text \<open>
  The queue buffers of \<open>core/net/queuebuf.c\<close> (all in RAM, \<open>WITH_SWAP = 0\<close>, without statistics and debugging): copies of
  the packet buffer that survive while other packets are sent and received. A packet held by reference
  keeps its header and the reference only; the bytes at the foreign pointer are taken to stay as they are.
  A handle is a \<open>struct queuebuf\<close> or a \<open>struct queuebuf_ref\<close>, told apart by the pool its address lies in.
\<close>

section \<open>queuebuf.c\<close>

record queuebuf_data =
  qd_data :: "u8 list"
  qd_len :: u16
  qd_attrs :: "(pb_attr \<Rightarrow> u16) \<times> (pb_addr \<Rightarrow> linkaddr)"

record queuebuf_ref =
  qr_len :: u16
  qr_ref :: "u8 list"
  qr_hdr :: "u8 list"
  qr_hdrlen :: u8

record queuebufs =
  bufmem :: memb
  refbufmem :: memb
  buframmem :: memb
  ram_ptr :: "ptr \<Rightarrow> ptr"
  qdata :: "ptr \<Rightarrow> queuebuf_data"
  qref :: "ptr \<Rightarrow> queuebuf_ref"

text \<open>The bytes \<open>packetbufptr\<close> points at, of a packet held by reference.\<close>

definition packetbuf_reference_ptr :: "packetbuf \<Rightarrow> u8 list" where
  "packetbuf_reference_ptr p = (case pb_ref p of Some ext \<Rightarrow> ext | None \<Rightarrow> drop PACKETBUF_HDR_SIZE (pb_mem p))"

definition queuebuf_init :: "queuebufs \<Rightarrow> queuebufs" where
  "queuebuf_init s = s\<lparr>buframmem := memb_init (buframmem s), bufmem := memb_init (bufmem s), refbufmem := memb_init (refbufmem s)\<rparr>"

definition queuebuf_numfree :: "packetbuf \<Rightarrow> queuebufs \<Rightarrow> u16" where
  "queuebuf_numfree p s = (if packetbuf_is_reference p then memb_numfree (refbufmem s) else memb_numfree (bufmem s))"

text \<open>Writing length and bytes, and attributes, into a \<open>struct queuebuf_data\<close>.\<close>

definition put_packet :: "packetbuf \<Rightarrow> queuebuf_data \<Rightarrow> queuebuf_data" where
  "put_packet p d = d\<lparr>qd_len := fst (packetbuf_copyto p), qd_data := memcpy_at (qd_data d) 0 (snd (packetbuf_copyto p))\<rparr>"

definition put_attrs :: "packetbuf \<Rightarrow> queuebuf_data \<Rightarrow> queuebuf_data" where
  "put_attrs p d = d\<lparr>qd_attrs := packetbuf_attr_copyto p\<rparr>"

definition queuebuf_new_from_packetbuf :: "packetbuf \<Rightarrow> queuebufs \<Rightarrow> ptr \<times> queuebufs" where
  "queuebuf_new_from_packetbuf p s =
     (if packetbuf_is_reference p then
        (case memb_alloc (refbufmem s) of (rbuf, m) \<Rightarrow>
           (rbuf,
            if rbuf \<noteq> NULL
            then s\<lparr>refbufmem := m, qref := (qref s)(rbuf :=
                   \<lparr>qr_len = packetbuf_datalen p, qr_ref = packetbuf_reference_ptr p,
                    qr_hdr = snd (packetbuf_copyto_hdr p), qr_hdrlen = of_nat (fst (packetbuf_copyto_hdr p))\<rparr>)\<rparr>
            else s\<lparr>refbufmem := m\<rparr>))
      else
        (case memb_alloc (bufmem s) of (buf, m) \<Rightarrow>
           if buf \<noteq> NULL then
             (case memb_alloc (buframmem s) of (ram, m') \<Rightarrow>
                if ram = NULL then (NULL, s\<lparr>bufmem := snd (memb_free m buf), ram_ptr := (ram_ptr s)(buf := ram)\<rparr>)
                else (buf, s\<lparr>bufmem := m, buframmem := m', ram_ptr := (ram_ptr s)(buf := ram),
                             qdata := (qdata s)(ram := put_attrs p (put_packet p (qdata s ram)))\<rparr>))
           else (buf, s\<lparr>bufmem := m\<rparr>)))"

definition queuebuf_load_to_ram :: "ptr \<Rightarrow> queuebufs \<Rightarrow> ptr" where
  "queuebuf_load_to_ram b s = ram_ptr s b"

definition queuebuf_update_attr_from_packetbuf :: "ptr \<Rightarrow> packetbuf \<Rightarrow> queuebufs \<Rightarrow> queuebufs" where
  "queuebuf_update_attr_from_packetbuf buf p s =
     (let buframptr = queuebuf_load_to_ram buf s
      in s\<lparr>qdata := (qdata s)(buframptr := put_attrs p (qdata s buframptr))\<rparr>)"

definition queuebuf_update_from_packetbuf :: "ptr \<Rightarrow> packetbuf \<Rightarrow> queuebufs \<Rightarrow> queuebufs" where
  "queuebuf_update_from_packetbuf buf p s =
     (let buframptr = queuebuf_load_to_ram buf s
      in s\<lparr>qdata := (qdata s)(buframptr := put_packet p (put_attrs p (qdata s buframptr)))\<rparr>)"

definition queuebuf_free :: "ptr \<Rightarrow> queuebufs \<Rightarrow> queuebufs" where
  "queuebuf_free buf s =
     (if memb_inmemb (bufmem s) buf then
        s\<lparr>buframmem := snd (memb_free (buframmem s) (ram_ptr s buf)), bufmem := snd (memb_free (bufmem s) buf)\<rparr>
      else if memb_inmemb (refbufmem s) buf then s\<lparr>refbufmem := snd (memb_free (refbufmem s) buf)\<rparr>
      else s)"

definition queuebuf_to_packetbuf :: "ptr \<Rightarrow> queuebufs \<Rightarrow> packetbuf \<Rightarrow> packetbuf" where
  "queuebuf_to_packetbuf b s p =
     (if memb_inmemb (bufmem s) b then
        (let d = qdata s (queuebuf_load_to_ram b s)
         in packetbuf_attr_copyfrom (qd_attrs d) (snd (packetbuf_copyfrom (qd_data d) (qd_len d) p)))
      else if memb_inmemb (refbufmem s) b then
        (let r = qref s b;
             p = packetbuf_clear p;
             p = snd (packetbuf_copyfrom (qr_ref r) (qr_len r) p);
             p = snd (packetbuf_hdralloc (int (unat (qr_hdrlen r))) p)
         in p\<lparr>pb_mem := memcpy_at (pb_mem p) (packetbuf_hdrptr p) (take (unat (qr_hdrlen r)) (qr_hdr r))\<rparr>)
      else p)"

text \<open>What \<open>queuebuf_dataptr\<close> points at.\<close>

definition queuebuf_dataptr :: "ptr \<Rightarrow> queuebufs \<Rightarrow> u8 list option" where
  "queuebuf_dataptr b s =
     (if memb_inmemb (bufmem s) b then Some (qd_data (qdata s (queuebuf_load_to_ram b s)))
      else if memb_inmemb (refbufmem s) b then Some (qr_ref (qref s b))
      else None)"

definition queuebuf_datalen :: "ptr \<Rightarrow> queuebufs \<Rightarrow> u16" where
  "queuebuf_datalen b s = qd_len (qdata s (queuebuf_load_to_ram b s))"

definition queuebuf_addr :: "ptr \<Rightarrow> pb_addr \<Rightarrow> queuebufs \<Rightarrow> linkaddr" where
  "queuebuf_addr b t s = snd (qd_attrs (qdata s (queuebuf_load_to_ram b s))) t"

definition queuebuf_attr :: "ptr \<Rightarrow> pb_attr \<Rightarrow> queuebufs \<Rightarrow> u16" where
  "queuebuf_attr b t s = fst (qd_attrs (qdata s (queuebuf_load_to_ram b s))) t"

section \<open>Pools\<close>

lemma memb_same_pool:
  "memb_inmemb (snd (memb_alloc m)) p = memb_inmemb m p"
  "memb_wf m \<Longrightarrow> memb_inmemb (snd (memb_free m b)) p = memb_inmemb m p"
proof -
  show "memb_inmemb (snd (memb_alloc m)) p = memb_inmemb m p"
    by (cases rule: memb_alloc_cases [of m]) (simp_all add: memb_inmemb_def)
  show "memb_inmemb (snd (memb_free m b)) p = memb_inmemb m p" if "memb_wf m"
  proof (cases "b \<in> memb_blocks m")
    case True
    then show ?thesis using that memb_free_block by (auto simp: memb_blocks_def memb_inmemb_def)
  next
    case False
    then show ?thesis using memb_free_foreign [OF that False] by simp
  qed
qed

lemma block_inmemb:
  assumes "memb_wf m" "p \<in> memb_blocks m"
  shows "memb_inmemb m p"
proof -
  obtain i where i: "i < unat (mnum m)" "p = block_ptr m i" using assms(2) by (auto simp: memb_blocks_def)
  have z: "0 < unat (msize m)" using assms(1) by (simp add: memb_wf_def unat_gt_0)
  have "unat (mnum m * msize m) = unat (mnum m) * unat (msize m)" using assms(1) by (simp add: memb_wf_def unat_word_ariths)
  moreover have "i * unat (msize m) < unat (mnum m) * unat (msize m)" using i(1) z by simp
  ultimately show ?thesis using i block_ptr_eq [OF assms(1), of i] by (simp add: memb_inmemb_def)
qed

section \<open>What the buffers hold\<close>

datatype stored = Copied "u8 list" "(pb_attr \<Rightarrow> u16) \<times> (pb_addr \<Rightarrow> linkaddr)" | Referenced "u8 list" "u8 list"

definition packet_of :: "packetbuf \<Rightarrow> stored" where
  "packet_of p =
     (if packetbuf_is_reference p then Referenced (header_part p) (data_bytes p)
      else Copied (snd (packetbuf_copyto p)) (packetbuf_attr_copyto p))"

text \<open>A packet held by reference fits into the packet buffer, and none of its data is consumed.\<close>

definition storable :: "packetbuf \<Rightarrow> bool" where
  "storable p \<longleftrightarrow> pb_wf p \<and> (packetbuf_is_reference p \<longrightarrow>
     pb_bufptr p = 0 \<and> length (header_part p) + length (data_bytes p) \<le> 128)"

definition holds :: "queuebufs \<Rightarrow> ptr \<Rightarrow> stored \<Rightarrow> bool" where
  "holds s b e \<longleftrightarrow>
     (case e of
        Copied bs a \<Rightarrow> b \<in> memb_live (bufmem s) \<and>
          (let d = qdata s (ram_ptr s b)
           in length (qd_data d) = 128 \<and> unat (qd_len d) \<le> 128 \<and> take (unat (qd_len d)) (qd_data d) = bs \<and> qd_attrs d = a)
      | Referenced h d \<Rightarrow> b \<in> memb_live (refbufmem s) \<and>
          (let r = qref s b
           in unat (qr_hdrlen r) = length h \<and> qr_hdr r = h \<and> unat (qr_len r) \<le> length (qr_ref r) \<and>
              take (unat (qr_len r)) (qr_ref r) = d \<and> length h \<le> 48 \<and> length h + length d \<le> 128))"

text \<open>The declared pools, and the invariant: the blocks of \<open>buframmem\<close> in use are exactly those the buffers in use point at.\<close>

definition qb_pools :: "queuebufs \<Rightarrow> bool" where
  "qb_pools s \<longleftrightarrow> memb_wf (bufmem s) \<and> memb_wf (refbufmem s) \<and> memb_wf (buframmem s) \<and>
     card (memb_blocks (bufmem s)) = card (memb_blocks (buframmem s)) \<and>
     (\<forall>p. memb_inmemb (bufmem s) p \<longrightarrow> \<not> memb_inmemb (refbufmem s) p) \<and>
     (\<forall>r \<in> memb_blocks (buframmem s). length (qd_data (qdata s r)) = 128)"

definition qb_wf :: "queuebufs \<Rightarrow> bool" where
  "qb_wf s \<longleftrightarrow> qb_pools s \<and>
     inj_on (ram_ptr s) (memb_live (bufmem s)) \<and> ram_ptr s ` memb_live (bufmem s) = memb_live (buframmem s)"

definition qb_rep :: "queuebufs \<Rightarrow> (ptr \<Rightarrow> stored option) \<Rightarrow> bool" where
  "qb_rep s g \<longleftrightarrow> qb_wf s \<and> dom g = memb_live (bufmem s) \<union> memb_live (refbufmem s) \<and> (\<forall>b e. g b = Some e \<longrightarrow> holds s b e)"

lemma qb_disjoint:
  assumes "qb_wf s" "b \<in> memb_live (bufmem s)"
  shows "b \<notin> memb_blocks (refbufmem s) \<and> memb_inmemb (bufmem s) b \<and> \<not> memb_inmemb (refbufmem s) b"
  using assms block_inmemb [of "bufmem s" b] block_inmemb [of "refbufmem s" b] memb_live_blocks [of "bufmem s"]
  by (auto simp: qb_wf_def qb_pools_def)

lemma qb_disjoint_ref:
  assumes "qb_wf s" "b \<in> memb_live (refbufmem s)"
  shows "b \<notin> memb_blocks (bufmem s) \<and> \<not> memb_inmemb (bufmem s) b \<and> memb_inmemb (refbufmem s) b"
  using assms block_inmemb [of "bufmem s" b] block_inmemb [of "refbufmem s" b] memb_live_blocks [of "refbufmem s"]
  by (auto simp: qb_wf_def qb_pools_def)

lemma copyto_fits:
  assumes "pb_wf p"
  shows "unat (fst (packetbuf_copyto p)) = length (snd (packetbuf_copyto p)) \<and> length (snd (packetbuf_copyto p)) \<le> 128"
proof (cases "length (header_part p) + length (data_bytes p) \<le> 128")
  case True
  have "unat (of_nat n :: u16) = n" if "n \<le> 128" for n using that by (simp add: unat_of_nat)
  from this [of "length (header_part p @ data_bytes p)"] show ?thesis using copyto_eq [OF assms] True by simp
next
  case False
  then show ?thesis using copyto_eq [OF assms] by simp
qed

lemma put_packet_holds:
  assumes "pb_wf p" "length (qd_data d) = 128"
  shows "length (qd_data (put_packet p d)) = 128 \<and> unat (qd_len (put_packet p d)) \<le> 128 \<and>
    take (unat (qd_len (put_packet p d))) (qd_data (put_packet p d)) = snd (packetbuf_copyto p) \<and>
    qd_attrs (put_packet p d) = qd_attrs d"
  using copyto_fits [OF assms(1)] assms(2) by (simp add: put_packet_def memcpy_at_def)

text \<open>Restoring a stored packet, whatever the packet buffer held before.\<close>

definition restored :: "stored \<Rightarrow> packetbuf \<Rightarrow> bool" where
  "restored e p \<longleftrightarrow>
     (case e of
        Copied bs a \<Rightarrow> header_part p = [] \<and> data_bytes p = bs \<and> packetbuf_attr_copyto p = a
      | Referenced h d \<Rightarrow> header_part p = h \<and> data_bytes p = d)"

lemma to_packetbuf_restores:
  assumes "qb_rep s g" "g b = Some e" "pb_wf q"
  shows "restored e (queuebuf_to_packetbuf b s q)"
proof -
  have h: "holds s b e" and wf: "qb_wf s" using assms(1,2) by (simp_all add: qb_rep_def)
  show ?thesis
  proof (cases e)
    case (Copied bs a)
    define d where "d = qdata s (ram_ptr s b)"
    have b: "b \<in> memb_live (bufmem s)" "length (qd_data d) = 128" "unat (qd_len d) \<le> 128" "take (unat (qd_len d)) (qd_data d) = bs" "qd_attrs d = a"
      using h Copied by (simp_all add: holds_def d_def Let_def)
    obtain l p where c: "packetbuf_copyfrom (qd_data d) (qd_len d) q = (l, p)" by fastforce
    have v: "header_part p = [] \<and> data_bytes p = bs"
      using copyfrom_view [OF assms(3) _ c] b(2-4) by (simp add: min_def)
    have "queuebuf_to_packetbuf b s q = packetbuf_attr_copyfrom a p"
      using qb_disjoint [OF wf b(1)] c b(5) by (simp add: queuebuf_to_packetbuf_def queuebuf_load_to_ram_def Let_def d_def [symmetric])
    moreover have "header_part (packetbuf_attr_copyfrom a p) = header_part p" "data_bytes (packetbuf_attr_copyfrom a p) = data_bytes p"
      by (simp_all add: packetbuf_attr_copyfrom_def header_part_def packetbuf_copyto_hdr_def data_bytes_def split: option.split)
    ultimately show ?thesis using v Copied by (simp add: restored_def packetbuf_attr_copyto_def packetbuf_attr_copyfrom_def)
  next
    case (Referenced hd d)
    define r where "r = qref s b"
    have b: "b \<in> memb_live (refbufmem s)" "unat (qr_hdrlen r) = length hd" "qr_hdr r = hd" "unat (qr_len r) \<le> length (qr_ref r)"
      "take (unat (qr_len r)) (qr_ref r) = d" "length hd \<le> 48" "length hd + length d \<le> 128"
      using h Referenced by (simp_all add: holds_def r_def Let_def)
    have cl: "pb_wf (packetbuf_clear q)"
      using assms(3) by (auto simp: pb_wf_def packetbuf_clear_def packetbuf_attr_clear_def)
    obtain l p where c: "packetbuf_copyfrom (qr_ref r) (qr_len r) (packetbuf_clear q) = (l, p)" by fastforce
    have ln: "unat (qr_len r) = length d" and mn: "min 128 (length d) = length d" using b(4,5,7) by auto
    have v: "pb_wf p" "header_part p = []" "data_bytes p = d" "pb_bufptr p = 0"
      using copyfrom_view [OF cl b(4) c] b(5) unfolding ln mn by simp_all
    have "push_hdr hd p \<noteq> None" using push_hdr_iff [OF v(1,4), of hd] v(2,3) b(6,7) by simp
    then obtain p' where p': "push_hdr hd p = Some p'" by auto
    have "uint (qr_hdrlen r) = int (length hd)" using b(2) by (simp add: uint_nat)
    then have "queuebuf_to_packetbuf b s q = p'"
      using qb_disjoint_ref [OF wf b(1)] p' b(2,3)
      by (auto simp: queuebuf_to_packetbuf_def Let_def r_def [symmetric] c push_hdr_def split: prod.splits bool.splits if_splits)
    then show ?thesis using push_hdr_ok [OF v(1) p'] v Referenced by (simp add: restored_def)
  qed
qed

section \<open>The operations keep what is stored\<close>

lemma holds_update:
  assumes "qb_rep s g" "b \<in> memb_live (bufmem s)" and d: "length (qd_data d) = 128" "unat (qd_len d) \<le> 128"
  shows "qb_rep (s\<lparr>qdata := (qdata s)(ram_ptr s b := d)\<rparr>) (g(b \<mapsto> Copied (take (unat (qd_len d)) (qd_data d)) (qd_attrs d)))"
proof -
  have wf: "qb_wf s" and dm: "dom g = memb_live (bufmem s) \<union> memb_live (refbufmem s)" and h: "\<And>b e. g b = Some e \<Longrightarrow> holds s b e"
    using assms(1) by (simp_all add: qb_rep_def)
  let ?s = "s\<lparr>qdata := (qdata s)(ram_ptr s b := d)\<rparr>"
  have inj: "ram_ptr s x \<noteq> ram_ptr s b" if "x \<in> memb_live (bufmem s)" "x \<noteq> b" for x
    using wf assms(2) that by (auto simp: qb_wf_def qb_pools_def dest: inj_onD)
  have "holds ?s x e" if "x \<noteq> b" "g x = Some e" for x e
    using h [OF that(2)] inj [of x] that(1) by (cases e) (auto simp: holds_def Let_def)
  moreover have "holds ?s b (Copied (take (unat (qd_len d)) (qd_data d)) (qd_attrs d))"
    using assms(2) d by (simp add: holds_def)
  moreover have "qb_wf ?s" using wf d(1) by (simp add: qb_wf_def qb_pools_def)
  ultimately show ?thesis using dm assms(2) by (auto simp: qb_rep_def split: if_splits)
qed

lemma live_ram:
  assumes "qb_wf s" "b \<in> memb_live (bufmem s)"
  shows "length (qd_data (qdata s (ram_ptr s b))) = 128"
  using assms memb_live_blocks [of "buframmem s"] unfolding qb_wf_def qb_pools_def by blast

lemma update_rep:
  assumes "qb_rep s g" "b \<in> memb_live (bufmem s)" "pb_wf p"
  shows "qb_rep (queuebuf_update_from_packetbuf b p s) (g(b \<mapsto> Copied (snd (packetbuf_copyto p)) (packetbuf_attr_copyto p)))"
proof -
  let ?d = "put_packet p (put_attrs p (qdata s (ram_ptr s b)))"
  have "qb_wf s" using assms(1) by (simp add: qb_rep_def)
  then have "length (qd_data (put_attrs p (qdata s (ram_ptr s b)))) = 128" using live_ram assms(2) by (simp add: put_attrs_def)
  note k = put_packet_holds [OF assms(3) this]
  have "qd_attrs ?d = packetbuf_attr_copyto p" using k by (simp add: put_attrs_def)
  then show ?thesis using holds_update [OF assms(1,2), of ?d] k
    by (simp add: queuebuf_update_from_packetbuf_def queuebuf_load_to_ram_def Let_def)
qed

lemma update_attr_rep:
  assumes "qb_rep s g" "g b = Some (Copied bs a)"
  shows "qb_rep (queuebuf_update_attr_from_packetbuf b p s) (g(b \<mapsto> Copied bs (packetbuf_attr_copyto p)))"
proof -
  have h: "holds s b (Copied bs a)" using assms by (simp add: qb_rep_def)
  let ?d = "put_attrs p (qdata s (ram_ptr s b))"
  have "take (unat (qd_len ?d)) (qd_data ?d) = bs" "qd_attrs ?d = packetbuf_attr_copyto p" "length (qd_data ?d) = 128" "unat (qd_len ?d) \<le> 128"
    using h by (simp_all add: holds_def Let_def put_attrs_def)
  moreover have "b \<in> memb_live (bufmem s)" using h by (simp add: holds_def)
  ultimately show ?thesis using holds_update [OF assms(1), of b ?d]
    by (simp add: queuebuf_update_attr_from_packetbuf_def queuebuf_load_to_ram_def Let_def)
qed

lemma free_rep:
  assumes "qb_rep s g" "b \<in> dom g"
  shows "qb_rep (queuebuf_free b s) (g(b := None))"
proof -
  have wf: "qb_wf s" and dm: "dom g = memb_live (bufmem s) \<union> memb_live (refbufmem s)" and h: "\<And>b e. g b = Some e \<Longrightarrow> holds s b e"
    using assms(1) by (simp_all add: qb_rep_def)
  have w: "memb_wf (bufmem s)" "memb_wf (refbufmem s)" "memb_wf (buframmem s)" using wf by (simp_all add: qb_wf_def qb_pools_def)
  note fb = mb.free_ok [OF w(1) surjective_pairing, of b] and fr = mb.free_ok [OF w(2) surjective_pairing, of b]
    and fm = mb.free_ok [OF w(3) surjective_pairing, of "ram_ptr s b"]
  show ?thesis
  proof (cases "b \<in> memb_live (bufmem s)")
    case True
    let ?s = "s\<lparr>buframmem := snd (memb_free (buframmem s) (ram_ptr s b)), bufmem := snd (memb_free (bufmem s) b)\<rparr>"
    note dj = qb_disjoint [OF wf True]
    have "qb_wf ?s" using wf fb fm memb_same_pool(2) [OF w(1), of b] True
      by (auto simp: qb_wf_def qb_pools_def inj_on_diff dest: inj_onD)
    moreover have "holds ?s x e" if "x \<noteq> b" "g x = Some e" for x e
      using h [OF that(2)] that(1) fb by (cases e) (simp_all add: holds_def)
    moreover have "b \<notin> memb_live (refbufmem s)" using dj memb_live_blocks [of "refbufmem s"] by auto
    ultimately show ?thesis using dm fb dj by (auto simp: qb_rep_def queuebuf_free_def)
  next
    case False
    then have l: "b \<in> memb_live (refbufmem s)" using assms(2) dm by auto
    let ?s = "s\<lparr>refbufmem := snd (memb_free (refbufmem s) b)\<rparr>"
    note dj = qb_disjoint_ref [OF wf l]
    have "qb_wf ?s" using wf fr memb_same_pool(2) [OF w(2), of b] by (simp add: qb_wf_def qb_pools_def)
    moreover have "holds ?s x e" if "x \<noteq> b" "g x = Some e" for x e
      using h [OF that(2)] that(1) fr by (cases e) (simp_all add: holds_def)
    ultimately show ?thesis using dm fr dj False by (auto simp: qb_rep_def queuebuf_free_def)
  qed
qed

lemma new_copy:
  assumes rep: "qb_rep s g" and p: "pb_wf p" "\<not> packetbuf_is_reference p"
  shows "(queuebuf_new_from_packetbuf p s = (NULL, s) \<and> memb_live (bufmem s) = memb_blocks (bufmem s)) \<or>
    (\<exists>b s'. queuebuf_new_from_packetbuf p s = (b, s') \<and> b \<noteq> NULL \<and> g b = None \<and> qb_rep s' (g(b \<mapsto> packet_of p)) \<and>
       memb_live (bufmem s) \<noteq> memb_blocks (bufmem s))"
proof -
  have wf: "qb_wf s" and dm: "dom g = memb_live (bufmem s) \<union> memb_live (refbufmem s)" and h: "\<And>b e. g b = Some e \<Longrightarrow> holds s b e"
    using rep by (simp_all add: qb_rep_def)
  have w: "memb_wf (bufmem s)" "memb_wf (buframmem s)" using wf by (simp_all add: qb_wf_def qb_pools_def)
  show ?thesis
  proof (cases rule: mb.alloc_cases [OF w(1)])
    case 1
    have "s\<lparr>bufmem := bufmem s\<rparr> = s" by simp
    then show ?thesis using 1 p(2) by (simp add: queuebuf_new_from_packetbuf_def)
  next
    case (2 b m)
    have "card (memb_live (buframmem s)) = card (memb_live (bufmem s))"
      using wf card_image [of "ram_ptr s" "memb_live (bufmem s)"] by (simp add: qb_wf_def)
    moreover have "memb_live (bufmem s) \<subset> memb_blocks (bufmem s)" using 2 memb_live_blocks [of "bufmem s"] by blast
    then have "card (memb_live (bufmem s)) < card (memb_blocks (bufmem s))" using mb.finite_blocks psubset_card_mono by blast
    ultimately have "memb_live (buframmem s) \<noteq> memb_blocks (buframmem s)" using wf by (auto simp: qb_wf_def qb_pools_def)
    then obtain r m' where r: "memb_alloc (buframmem s) = (r, m')" "r \<noteq> NULL" "r \<in> memb_blocks (buframmem s)" "r \<notin> memb_live (buframmem s)"
      "memb_live m' = insert r (memb_live (buframmem s))" "memb_blocks m' = memb_blocks (buframmem s)" "memb_wf m'"
      by (cases rule: mb.alloc_cases [OF w(2)]) auto
    define d where "d = put_attrs p (put_packet p (qdata s r))"
    define s' where "s' = s\<lparr>bufmem := m, buframmem := m', ram_ptr := (ram_ptr s)(b := r), qdata := (qdata s)(r := d)\<rparr>"
    have "length (qd_data (qdata s r)) = 128" using wf r(3) by (simp add: qb_wf_def qb_pools_def)
    then have d: "length (qd_data d) = 128" "unat (qd_len d) \<le> 128" "take (unat (qd_len d)) (qd_data d) = snd (packetbuf_copyto p)"
      "qd_attrs d = packetbuf_attr_copyto p"
      using put_packet_holds [OF p(1)] by (simp_all add: d_def put_attrs_def)
    have new: "queuebuf_new_from_packetbuf p s = (b, s')" using 2 r(1,2) p(2) by (simp add: queuebuf_new_from_packetbuf_def s'_def d_def)
    have same: "memb_inmemb m x = memb_inmemb (bufmem s) x" for x using memb_same_pool(1) [of "bufmem s" x] 2(1) by simp
    have other: "ram_ptr s x \<noteq> r" if "x \<in> memb_live (bufmem s)" for x using wf that r(4) by (auto simp: qb_wf_def)
    have "holds s' b (packet_of p)" using 2 d p(2) by (simp add: holds_def packet_of_def s'_def Let_def)
    moreover have nb: "b \<notin> memb_live (refbufmem s)"
      using wf 2 block_inmemb [OF w(1), of b] block_inmemb [of "refbufmem s" b] memb_live_blocks [of "refbufmem s"]
      by (auto simp: qb_wf_def qb_pools_def)
    moreover have "holds s' x e" if "g x = Some e" "x \<noteq> b" for x e
      using h [OF that(1)] that(2) 2 other by (cases e) (auto simp: holds_def s'_def Let_def)
    moreover have "qb_wf s'"
      using wf 2 r d(1) same other by (auto simp: qb_wf_def qb_pools_def s'_def inj_on_def image_def)
    moreover have "g b = None" using dm nb 2(4) by (metis UnE domIff)
    ultimately show ?thesis using new 2 dm by (intro disjI2 exI [of _ b] exI [of _ s']) (auto simp: qb_rep_def s'_def split: if_splits)
  qed
qed

lemma new_ref:
  assumes rep: "qb_rep s g" and p: "storable p" "packetbuf_is_reference p"
  shows "(queuebuf_new_from_packetbuf p s = (NULL, s) \<and> memb_live (refbufmem s) = memb_blocks (refbufmem s)) \<or>
    (\<exists>b s'. queuebuf_new_from_packetbuf p s = (b, s') \<and> b \<noteq> NULL \<and> g b = None \<and> qb_rep s' (g(b \<mapsto> packet_of p)) \<and>
       memb_live (refbufmem s) \<noteq> memb_blocks (refbufmem s))"
proof -
  have wf: "qb_wf s" and dm: "dom g = memb_live (bufmem s) \<union> memb_live (refbufmem s)" and h: "\<And>b e. g b = Some e \<Longrightarrow> holds s b e"
    using rep by (simp_all add: qb_rep_def)
  have w: "memb_wf (bufmem s)" "memb_wf (refbufmem s)" using wf by (simp_all add: qb_wf_def qb_pools_def)
  obtain ext where ext: "pb_ref p = Some ext" using p(2) by (auto simp: packetbuf_is_reference_def)
  have pw: "pb_wf p" "pb_bufptr p = 0" "length (header_part p) + length (data_bytes p) \<le> 128"
    using p by (simp_all add: storable_def)
  have d: "take (unat (pb_buflen p)) ext = data_bytes p" "unat (pb_buflen p) \<le> length ext"
    using pw(1,2) ext by (simp_all add: data_bytes_def pb_wf_def)
  have hl: "length (header_part p) = 48 - unat (pb_hdrptr p)" using length_header_part [OF pw(1)] .
  show ?thesis
  proof (cases rule: mb.alloc_cases [OF w(2)])
    case 1
    have "s\<lparr>refbufmem := refbufmem s\<rparr> = s" by simp
    then show ?thesis using 1 p(2) by (simp add: queuebuf_new_from_packetbuf_def)
  next
    case (2 b m)
    define r where "r = \<lparr>qr_len = packetbuf_datalen p, qr_ref = packetbuf_reference_ptr p,
      qr_hdr = snd (packetbuf_copyto_hdr p), qr_hdrlen = of_nat (fst (packetbuf_copyto_hdr p))\<rparr>"
    define s' where "s' = s\<lparr>refbufmem := m, qref := (qref s)(b := r)\<rparr>"
    have new: "queuebuf_new_from_packetbuf p s = (b, s')" using 2 p(2) by (simp add: queuebuf_new_from_packetbuf_def s'_def r_def)
    have same: "memb_inmemb m x = memb_inmemb (refbufmem s) x" for x using memb_same_pool(1) [of "refbufmem s" x] 2(1) by simp
    have nb: "b \<notin> memb_live (bufmem s)"
      using wf 2 block_inmemb [OF w(2), of b] block_inmemb [OF w(1), of b] memb_live_blocks [of "bufmem s"]
      by (auto simp: qb_wf_def qb_pools_def)
    have "unat (of_nat (48 - unat (pb_hdrptr p)) :: u8) = 48 - unat (pb_hdrptr p)" by (simp add: unat_of_nat)
    then have "holds s' b (Referenced (header_part p) (data_bytes p))"
      using 2 d ext pw(3) hl
      by (simp add: holds_def Let_def s'_def r_def packetbuf_datalen_def packetbuf_reference_ptr_def header_part_def packetbuf_copyto_hdr_def)
    then have "holds s' b (packet_of p)" using p(2) by (simp add: packet_of_def)
    moreover have "holds s' x e" if "g x = Some e" "x \<noteq> b" for x e
      using h [OF that(1)] that(2) 2 by (cases e) (auto simp: holds_def s'_def Let_def)
    moreover have "qb_wf s'" using wf 2 same by (simp add: qb_wf_def qb_pools_def s'_def)
    moreover have "g b = None" using dm nb 2(4) by (metis UnE domIff)
    ultimately show ?thesis using new 2 dm by (intro disjI2 exI [of _ b] exI [of _ s']) (auto simp: qb_rep_def s'_def split: if_splits)
  qed
qed

lemma card_memb_blocks: "memb_wf m \<Longrightarrow> card (memb_blocks m) = unat (mnum m)"
  unfolding memb_blocks_def using block_ptr_inj by (subst card_image) (auto intro!: inj_onI)

lemma numfree_zero:
  assumes "memb_wf m"
  shows "memb_numfree m = 0 \<longleftrightarrow> memb_live m = memb_blocks m"
proof -
  note c = card_memb_blocks [OF assms]
  have le: "card (memb_live m) \<le> unat (mnum m)" using card_mono [OF mb.finite_blocks memb_live_blocks] c by metis
  have "unat (mnum m) - card (memb_live m) < 65536" using unat_less_u16 [of "mnum m"] by linarith
  then have "memb_numfree m = 0 \<longleftrightarrow> unat (mnum m) - card (memb_live m) = 0"
    unfolding memb_numfree_live [OF assms] by (simp add: unat_of_nat word_unat_eq_iff)
  also have "\<dots> \<longleftrightarrow> card (memb_live m) = card (memb_blocks m)" using le c by auto
  also have "\<dots> \<longleftrightarrow> memb_live m = memb_blocks m" using card_subset_eq [OF mb.finite_blocks memb_live_blocks] by auto
  finally show ?thesis .
qed

lemma new_rep:
  assumes "qb_rep s g" "storable p"
  shows "if queuebuf_numfree p s = 0 then queuebuf_new_from_packetbuf p s = (NULL, s)
    else \<exists>b s'. queuebuf_new_from_packetbuf p s = (b, s') \<and> b \<noteq> NULL \<and> g b = None \<and> qb_rep s' (g(b \<mapsto> packet_of p))"
proof -
  have "memb_wf (bufmem s)" "memb_wf (refbufmem s)" using assms(1) by (simp_all add: qb_rep_def qb_wf_def qb_pools_def)
  then show ?thesis using new_ref [OF assms] new_copy [OF assms(1), of p] assms(2)
    by (auto simp: queuebuf_numfree_def numfree_zero storable_def)
qed

section \<open>Histories\<close>

text \<open>The calls of the clients, and next to the buffers what they should hold. Only copies are updated, only buffers in use are freed.\<close>

datatype qb_call = QNew packetbuf | QUpdate ptr packetbuf | QUpdateAttr ptr packetbuf | QFree ptr

definition qb_call :: "queuebufs \<times> (ptr \<Rightarrow> stored option) \<Rightarrow> qb_call \<Rightarrow> queuebufs \<times> (ptr \<Rightarrow> stored option)" where
  "qb_call sg c =
     (case sg of (s, g) \<Rightarrow>
        (case c of
           QNew p \<Rightarrow> (case queuebuf_new_from_packetbuf p s of (b, s') \<Rightarrow> (s', if b = NULL then g else g(b \<mapsto> packet_of p)))
         | QUpdate b p \<Rightarrow>
             (case g b of
                Some (Copied _ _) \<Rightarrow>
                  (queuebuf_update_from_packetbuf b p s, g(b \<mapsto> Copied (snd (packetbuf_copyto p)) (packetbuf_attr_copyto p)))
              | _ \<Rightarrow> (s, g))
         | QUpdateAttr b p \<Rightarrow>
             (case g b of
                Some (Copied bs _) \<Rightarrow> (queuebuf_update_attr_from_packetbuf b p s, g(b \<mapsto> Copied bs (packetbuf_attr_copyto p)))
              | _ \<Rightarrow> (s, g))
         | QFree b \<Rightarrow> if b \<in> dom g then (queuebuf_free b s, g(b := None)) else (s, g)))"

fun call_ok :: "qb_call \<Rightarrow> bool" where
  "call_ok (QNew p) = storable p"
| "call_ok (QUpdate b p) = pb_wf p"
| "call_ok (QUpdateAttr b p) = True"
| "call_ok (QFree b) = True"

lemma qb_call_rep:
  assumes "qb_rep s g" "call_ok c" "qb_call (s, g) c = (s', g')"
  shows "qb_rep s' g'"
proof (cases c)
  case (QNew p)
  then show ?thesis using new_rep [OF assms(1), of p] assms by (auto simp: qb_call_def split: if_splits)
next
  case (QUpdate b p)
  then show ?thesis
  proof (cases "\<exists>bs a. g b = Some (Copied bs a)")
    case True
    then obtain bs a where g: "g b = Some (Copied bs a)" by blast
    then have "holds s b (Copied bs a)" using assms(1) by (simp add: qb_rep_def)
    then have "b \<in> memb_live (bufmem s)" by (simp add: holds_def)
    then show ?thesis using update_rep [OF assms(1)] QUpdate assms(2,3) g by (auto simp: qb_call_def)
  next
    case False
    then show ?thesis using QUpdate assms(1,3) by (auto simp: qb_call_def split: option.splits stored.splits)
  qed
next
  case (QUpdateAttr b p)
  then show ?thesis using update_attr_rep [OF assms(1)] assms(1,3) by (auto simp: qb_call_def split: option.splits stored.splits)
next
  case (QFree b)
  then show ?thesis using free_rep [OF assms(1)] assms(1,3) by (auto simp: qb_call_def split: if_splits)
qed

lemma qb_calls_rep:
  "qb_rep s g \<Longrightarrow> \<forall>c \<in> set cs. call_ok c \<Longrightarrow> foldl qb_call (s, g) cs = (s', g') \<Longrightarrow> qb_rep s' g'"
proof (induction cs arbitrary: s g)
  case (Cons c cs)
  obtain s1 g1 where c: "qb_call (s, g) c = (s1, g1)" by fastforce
  have "qb_rep s1 g1" using qb_call_rep [OF Cons.prems(1) _ c] Cons.prems(2) by simp
  from Cons.IH [OF this] Cons.prems(2,3) c show ?case by simp
qed simp

lemma init_rep:
  assumes "qb_pools s"
  shows "qb_rep (queuebuf_init s) Map.empty"
proof -
  have "memb_blocks (memb_init m) = memb_blocks m" "memb_inmemb (memb_init m) x = memb_inmemb m x" for m x
    by (simp_all add: memb_blocks_def memb_inmemb_def memb_init_def block_ptr_def)
  then show ?thesis using assms memb_init_wf
    by (auto simp: qb_rep_def qb_wf_def qb_pools_def queuebuf_init_def)
qed


definition raw_queuebufs :: queuebufs where
  "raw_queuebufs = \<lparr>bufmem = \<lparr>msize = 2, mnum = 1, mcount = [0], mmem = 100, mbytes = []\<rparr>,
     refbufmem = \<lparr>msize = 53, mnum = 1, mcount = [0], mmem = 200, mbytes = []\<rparr>,
     buframmem = \<lparr>msize = 270, mnum = 1, mcount = [0], mmem = 1000, mbytes = []\<rparr>,
     ram_ptr = (\<lambda>_. 0), qdata = (\<lambda>_. \<lparr>qd_data = replicate 128 0, qd_len = 0, qd_attrs = (\<lambda>_. 0, \<lambda>_. linkaddr_null)\<rparr>),
     qref = (\<lambda>_. \<lparr>qr_len = 0, qr_ref = [], qr_hdr = [], qr_hdrlen = 0\<rparr>)\<rparr>"

lemma raw_queuebufs_pools: "qb_pools raw_queuebufs"
proof -
  have w: "memb_wf (bufmem raw_queuebufs)" "memb_wf (refbufmem raw_queuebufs)" "memb_wf (buframmem raw_queuebufs)"
    by (simp_all add: memb_wf_def raw_queuebufs_def)
  moreover have "card (memb_blocks (bufmem raw_queuebufs)) = card (memb_blocks (buframmem raw_queuebufs))"
    unfolding card_memb_blocks [OF w(1)] card_memb_blocks [OF w(3)] by (simp add: raw_queuebufs_def)
  ultimately show ?thesis by (simp add: qb_pools_def) (simp add: raw_queuebufs_def memb_inmemb_def)
qed


end
