(* ===== verification/NbrTable.thy ===== *)
theory NbrTable
  imports LinkedList Memb Packetbuf "HOL-Library.Signed_Division"
begin

text \<open>
  The neighbor tables of \<open>core/net/nbr-table.c\<close>: a pool of neighbor keys (link-layer
  addresses) on a list in the order of insertion, and up to eight client tables that
  store one item per neighbor, at the neighbor's index in the table's array. Two
  bit maps per neighbor say which tables use it and which lock it. When the pool is
  empty, a neighbor is evicted. The callbacks of the tables are client code, a parameter.
\<close>

section \<open>State\<close>

record nbr_table =
  nt_index :: nat
  nt_item_size :: nat
  nt_callback :: ptr
  nt_data :: ptr

record 'u nbr_sys =
  used_map :: "u8 list"
  locked_map :: "u8 list"
  all_tables :: "ptr list"
  num_tables :: nat
  neighbor_addr_mem :: memb
  nbr_heap :: list_heap
  key_lladdr :: "ptr \<Rightarrow> linkaddr"
  tables :: "ptr \<Rightarrow> nbr_table"
  item_mem :: "ptr \<Rightarrow> u8"
  nbr_user :: 'u

type_synonym 'u nbr_callback = "ptr \<Rightarrow> ptr \<Rightarrow> 'u nbr_sys \<Rightarrow> 'u nbr_sys"

definition MAX_NUM_TABLES :: nat where "MAX_NUM_TABLES = 8"

definition nbr_table_keys :: nat where "nbr_table_keys = 0"

section \<open>Keys, items and indexes\<close>

definition key_from_index :: "'u nbr_sys \<Rightarrow> int \<Rightarrow> ptr" where
  "key_from_index s index =
     (if index \<noteq> - 1 then nat (int (mmem (neighbor_addr_mem s)) + index * int (unat (msize (neighbor_addr_mem s)))) else NULL)"

definition item_from_index :: "'u nbr_sys \<Rightarrow> ptr \<Rightarrow> int \<Rightarrow> ptr" where
  "item_from_index s table index =
     (if table \<noteq> NULL \<and> index \<noteq> - 1
      then nat (int (nt_data (tables s table)) + index * int (nt_item_size (tables s table))) else NULL)"

definition index_from_key :: "'u nbr_sys \<Rightarrow> ptr \<Rightarrow> int" where
  "index_from_key s key =
     (if key \<noteq> NULL then (int key - int (mmem (neighbor_addr_mem s))) sdiv int (unat (msize (neighbor_addr_mem s))) else - 1)"

definition index_from_item :: "'u nbr_sys \<Rightarrow> ptr \<Rightarrow> ptr \<Rightarrow> int" where
  "index_from_item s table item =
     (if table \<noteq> NULL \<and> item \<noteq> NULL
      then sint (word_of_int (int item - int (nt_data (tables s table))) :: 16 word) sdiv int (nt_item_size (tables s table))
      else - 1)"

definition item_from_key :: "'u nbr_sys \<Rightarrow> ptr \<Rightarrow> ptr \<Rightarrow> ptr" where
  "item_from_key s table key = item_from_index s table (index_from_key s key)"

definition key_from_item :: "'u nbr_sys \<Rightarrow> ptr \<Rightarrow> ptr \<Rightarrow> ptr" where
  "key_from_item s table item = key_from_index s (index_from_item s table item)"

text \<open>The address argument None is the NULL pointer.\<close>

partial_function (option) lladdr_loop :: "'u nbr_sys \<Rightarrow> linkaddr \<Rightarrow> ptr \<Rightarrow> int option" where
  "lladdr_loop s lladdr key =
     (if key \<noteq> NULL then
        if linkaddr_cmp lladdr (key_lladdr s key) then Some (index_from_key s key)
        else lladdr_loop s lladdr (list_item_next (nbr_heap s) key)
      else Some (- 1))"

definition index_from_lladdr :: "'u nbr_sys \<Rightarrow> linkaddr option \<Rightarrow> int option" where
  "index_from_lladdr s lladdr =
     (let lladdr = (case lladdr of None \<Rightarrow> linkaddr_null | Some a \<Rightarrow> a)
      in lladdr_loop s lladdr (list_head (nbr_heap s) nbr_table_keys))"

definition nbr_get_bit :: "u8 list \<Rightarrow> 'u nbr_sys \<Rightarrow> ptr \<Rightarrow> ptr \<Rightarrow> bool" where
  "nbr_get_bit bitmap s table item =
     (let item_index = index_from_item s table item
      in if table \<noteq> NULL \<and> item_index \<noteq> - 1
         then bitmap ! nat item_index AND push_bit (nt_index (tables s table)) 1 \<noteq> 0 else False)"

definition nbr_set_bit :: "u8 list \<Rightarrow> 'u nbr_sys \<Rightarrow> ptr \<Rightarrow> ptr \<Rightarrow> bool \<Rightarrow> bool \<times> u8 list" where
  "nbr_set_bit bitmap s table item value =
     (let item_index = index_from_item s table item;
          b = push_bit (nt_index (tables s table)) 1
      in if table \<noteq> NULL \<and> item_index \<noteq> - 1
         then (True, bitmap [nat item_index := (if value then bitmap ! nat item_index OR b
                                                else bitmap ! nat item_index AND NOT b)])
         else (False, bitmap))"

section \<open>Allocation and eviction\<close>

function count_used :: "u8 \<Rightarrow> nat \<Rightarrow> nat" where
  "count_used used n =
     (if used \<noteq> 0 then count_used (drop_bit 1 used) (if used AND 1 = 1 then n + 1 else n) else n)"
  by pat_completeness auto
termination
proof (relation "measure (\<lambda>(used, n). unat used)")
  fix used :: u8 and n :: nat
  assume "used \<noteq> 0"
  then have "0 < unat used" by (simp add: unat_gt_0)
  then show "((drop_bit 1 used, if used AND 1 = 1 then n + 1 else n), used, n) \<in> measure (\<lambda>(used, n). unat used)"
    by (simp add: drop_bit_eq_div unat_div)
qed simp

declare count_used.simps [simp del]

partial_function (option) least_loop :: "'u nbr_sys \<Rightarrow> ptr \<Rightarrow> ptr \<Rightarrow> nat \<Rightarrow> ptr option" where
  "least_loop s key least_used_key least_used_count =
     (if key \<noteq> NULL then
        let item_index = nat (index_from_key s key) in
        if locked_map s ! item_index = 0 then
          let used_count = count_used (used_map s ! item_index) 0 in
          if least_used_key = NULL \<or> used_count < least_used_count then
            if used_count = 0 then Some key
            else least_loop s (list_item_next (nbr_heap s) key) key used_count
          else least_loop s (list_item_next (nbr_heap s) key) least_used_key least_used_count
        else least_loop s (list_item_next (nbr_heap s) key) least_used_key least_used_count
      else Some least_used_key)"

definition notify :: "'u nbr_callback \<Rightarrow> ptr \<Rightarrow> nat \<Rightarrow> 'u nbr_sys \<Rightarrow> 'u nbr_sys" where
  "notify cb key i s =
     (let table = all_tables s ! i
      in if table \<noteq> NULL \<and> nt_callback (tables s table) \<noteq> NULL then
           let removed_item = item_from_key s table key
           in if nbr_get_bit (used_map s) s table removed_item then cb (nt_callback (tables s table)) removed_item s else s
         else s)"

definition nbr_table_allocate :: "'u nbr_callback \<Rightarrow> 'u nbr_sys \<Rightarrow> (ptr \<times> 'u nbr_sys) option" where
  "nbr_table_allocate cb s =
     (case memb_alloc (neighbor_addr_mem s) of (key, m) \<Rightarrow>
        if key \<noteq> NULL then Some (key, s\<lparr>neighbor_addr_mem := m\<rparr>)
        else do {
          least_used_key \<leftarrow> least_loop s (list_head (nbr_heap s) nbr_table_keys) NULL 0;
          if least_used_key = NULL then Some (NULL, s)
          else do {
            let s1 = fold (notify cb least_used_key) [0..<MAX_NUM_TABLES] s;
            let s2 = s1\<lparr>used_map := (used_map s1)[nat (index_from_key s1 least_used_key) := 0]\<rparr>;
            h \<leftarrow> list_remove (nbr_heap s2) nbr_table_keys least_used_key;
            Some (least_used_key, s2\<lparr>nbr_heap := h\<rparr>)
          }
        })"

section \<open>The interface\<close>

definition nbr_table_register :: "ptr \<Rightarrow> ptr \<Rightarrow> 'u nbr_sys \<Rightarrow> bool \<times> 'u nbr_sys" where
  "nbr_table_register table callback s =
     (if num_tables s < MAX_NUM_TABLES then
        (True, s\<lparr>tables := (tables s)(table := (tables s table)\<lparr>nt_index := num_tables s, nt_callback := callback\<rparr>),
                 all_tables := (all_tables s)[num_tables s := table], num_tables := num_tables s + 1\<rparr>)
      else (False, s))"

partial_function (option) nbr_table_next :: "'u nbr_sys \<Rightarrow> ptr \<Rightarrow> ptr \<Rightarrow> ptr option" where
  "nbr_table_next s table item =
     (let key = list_item_next (nbr_heap s) (key_from_item s table item);
          item = item_from_key s table key
      in if item \<noteq> NULL \<and> \<not> nbr_get_bit (used_map s) s table item then nbr_table_next s table item else Some item)"

definition nbr_table_head :: "'u nbr_sys \<Rightarrow> ptr \<Rightarrow> ptr option" where
  "nbr_table_head s table =
     (let item = item_from_key s table (list_head (nbr_heap s) nbr_table_keys)
      in if nbr_get_bit (used_map s) s table item then Some item else nbr_table_next s table item)"

definition zero_item :: "ptr \<Rightarrow> nat \<Rightarrow> (ptr \<Rightarrow> u8) \<Rightarrow> ptr \<Rightarrow> u8" where
  "zero_item item n m = (\<lambda>p. if item \<le> p \<and> p < item + n then 0 else m p)"

text \<open>Get the item, clear it and set the used bit.\<close>

definition init_item :: "'u nbr_sys \<Rightarrow> ptr \<Rightarrow> int \<Rightarrow> ptr \<times> 'u nbr_sys" where
  "init_item s table index =
     (let item = item_from_index s table index;
          s = s\<lparr>item_mem := zero_item item (nt_item_size (tables s table)) (item_mem s)\<rparr>
      in (item, s\<lparr>used_map := snd (nbr_set_bit (used_map s) s table item True)\<rparr>))"

definition nbr_table_add_lladdr ::
    "'u nbr_callback \<Rightarrow> 'u nbr_sys \<Rightarrow> ptr \<Rightarrow> linkaddr option \<Rightarrow> (ptr \<times> 'u nbr_sys) option" where
  "nbr_table_add_lladdr cb s table lladdr = do {
     let lladdr = (case lladdr of None \<Rightarrow> linkaddr_null | Some a \<Rightarrow> a);
     index \<leftarrow> index_from_lladdr s (Some lladdr);
     r \<leftarrow>
       (if index = - 1 then do {
          (key, s) \<leftarrow> nbr_table_allocate cb s;
          if key = NULL then Some (None, s)
          else do {
            h \<leftarrow> list_add (nbr_heap s) nbr_table_keys key;
            Some (Some (index_from_key s key),
                  s\<lparr>nbr_heap := h, key_lladdr := (key_lladdr s)(key := linkaddr_copy (key_lladdr s key) lladdr)\<rparr>)
          }
        } else Some (Some index, s));
     case r of
       (None, s) \<Rightarrow> Some (NULL, s)
     | (Some index, s) \<Rightarrow> Some (init_item s table index)
   }"

definition nbr_table_get_from_lladdr :: "'u nbr_sys \<Rightarrow> ptr \<Rightarrow> linkaddr option \<Rightarrow> ptr option" where
  "nbr_table_get_from_lladdr s table lladdr = do {
     index \<leftarrow> index_from_lladdr s lladdr;
     let item = item_from_index s table index;
     Some (if nbr_get_bit (used_map s) s table item then item else NULL)
   }"

definition nbr_table_remove :: "'u nbr_sys \<Rightarrow> ptr \<Rightarrow> ptr \<Rightarrow> bool \<times> 'u nbr_sys" where
  "nbr_table_remove s table item =
     (case nbr_set_bit (used_map s) s table item False of (ret, u) \<Rightarrow>
        let s = s\<lparr>used_map := u\<rparr>
        in (ret, s\<lparr>locked_map := snd (nbr_set_bit (locked_map s) s table item False)\<rparr>))"

definition nbr_table_lock :: "'u nbr_sys \<Rightarrow> ptr \<Rightarrow> ptr \<Rightarrow> bool \<times> 'u nbr_sys" where
  "nbr_table_lock s table item =
     (case nbr_set_bit (locked_map s) s table item True of (ret, l) \<Rightarrow> (ret, s\<lparr>locked_map := l\<rparr>))"

definition nbr_table_unlock :: "'u nbr_sys \<Rightarrow> ptr \<Rightarrow> ptr \<Rightarrow> bool \<times> 'u nbr_sys" where
  "nbr_table_unlock s table item =
     (case nbr_set_bit (locked_map s) s table item False of (ret, l) \<Rightarrow> (ret, s\<lparr>locked_map := l\<rparr>))"

definition nbr_table_get_lladdr :: "'u nbr_sys \<Rightarrow> ptr \<Rightarrow> ptr \<Rightarrow> linkaddr option" where
  "nbr_table_get_lladdr s table item =
     (let key = key_from_item s table item in if key \<noteq> NULL then Some (key_lladdr s key) else None)"

section \<open>Well-formed tables\<close>

abbreviation nbrs :: "'u nbr_sys \<Rightarrow> nat" where "nbrs s \<equiv> unat (mnum (neighbor_addr_mem s))"

abbreviation kptr :: "'u nbr_sys \<Rightarrow> nat \<Rightarrow> ptr" where "kptr s i \<equiv> block_ptr (neighbor_addr_mem s) i"

abbreviation kidx :: "'u nbr_sys \<Rightarrow> ptr \<Rightarrow> nat" where "kidx s k \<equiv> nat (index_from_key s k)"

text \<open>\<open>ks\<close> are the keys on the list, oldest first.\<close>

definition nbr_inv :: "'u nbr_sys \<Rightarrow> ptr list \<Rightarrow> bool" where
  "nbr_inv s ks \<longleftrightarrow> is_list (nbr_heap s) nbr_table_keys ks \<and> memb_wf (neighbor_addr_mem s) \<and>
     memb_live (neighbor_addr_mem s) = set ks \<and> inj_on (key_lladdr s) (set ks) \<and>
     length (used_map s) = nbrs s \<and> length (locked_map s) = nbrs s \<and>
     (\<forall>i < nbrs s. kptr s i \<notin> set ks \<longrightarrow> used_map s ! i = 0 \<and> locked_map s ! i = 0)"

definition table_ok :: "'u nbr_sys \<Rightarrow> ptr \<Rightarrow> bool" where
  "table_ok s t \<longleftrightarrow> t \<noteq> NULL \<and> nt_data (tables s t) \<noteq> NULL \<and> nt_item_size (tables s t) \<noteq> 0 \<and>
     nbrs s * nt_item_size (tables s t) < 32768 \<and> nt_index (tables s t) < MAX_NUM_TABLES"

abbreviation item_at :: "'u nbr_sys \<Rightarrow> ptr \<Rightarrow> nat \<Rightarrow> ptr" where
  "item_at s t i \<equiv> nt_data (tables s t) + i * nt_item_size (tables s t)"

lemma sdiv_exact: "0 < n \<Longrightarrow> int (i * n) sdiv int n = int i"
  by (cases "i = 0") (simp_all add: signed_divide_int_def sgn_mult)

lemma sint_small: "0 \<le> x \<Longrightarrow> x < 32768 \<Longrightarrow> sint (word_of_int x :: 16 word) = x"
  unfolding int_word_sint by simp

lemma kptr_eq: "memb_wf m \<Longrightarrow> i < unat (mnum m) \<Longrightarrow> block_ptr m i = mmem m + i * unat (msize m)"
  by (simp add: block_ptr_eq)

lemma index_of_kptr:
  assumes "memb_wf (neighbor_addr_mem s)" "i < nbrs s"
  shows "index_from_key s (kptr s i) = int i"
proof -
  have z: "0 < unat (msize (neighbor_addr_mem s))" using assms(1) by (simp add: memb_wf_def unat_gt_0)
  have "index_from_key s (kptr s i) = int (i * unat (msize (neighbor_addr_mem s))) sdiv int (unat (msize (neighbor_addr_mem s)))"
    using block_ptr_not_null [OF assms(1), of i] kptr_eq [OF assms] unfolding index_from_key_def by (simp del: of_nat_unat)
  then show ?thesis unfolding sdiv_exact [OF z] .
qed

lemma key_of_index:
  assumes "memb_wf (neighbor_addr_mem s)" "i < nbrs s"
  shows "key_from_index s (int i) = kptr s i"
  using kptr_eq [OF assms] by (simp add: key_from_index_def nat_add_distrib nat_mult_distrib)

lemma live_index:
  assumes "nbr_inv s ks" "k \<in> set ks"
  obtains i where "i < nbrs s" "k = kptr s i" "kidx s k = i" "index_from_key s k = int i"
proof -
  have "k \<in> memb_live (neighbor_addr_mem s)" using assms by (simp add: nbr_inv_def)
  then obtain i where i: "i < nbrs s" "k = kptr s i" by (auto simp: memb_live_def)
  moreover have "memb_wf (neighbor_addr_mem s)" using assms(1) by (simp add: nbr_inv_def)
  ultimately show thesis using that index_of_kptr [of s i] by simp
qed

lemma item_of_index: "table_ok s t \<Longrightarrow> item_from_index s t (int i) = item_at s t i"
  by (simp add: item_from_index_def table_ok_def nat_add_distrib nat_mult_distrib)

lemma index_of_item:
  assumes "table_ok s t" "i < nbrs s"
  shows "index_from_item s t (item_at s t i) = int i"
proof -
  let ?n = "nt_item_size (tables s t)"
  have "i * ?n \<le> nbrs s * ?n" using assms(2) by (intro mult_le_mono1) simp
  also have "\<dots> < 32768" using assms(1) by (simp add: table_ok_def)
  finally have b: "i * ?n < 32768" .
  have "sint (word_of_int (int (i * ?n)) :: 16 word) = int (i * ?n)"
    using b by (intro sint_small) (simp_all flip: of_nat_mult del: of_nat_mult)
  moreover have "int (item_at s t i) - int (nt_data (tables s t)) = int (i * ?n)" by simp
  moreover have "t \<noteq> NULL" "item_at s t i \<noteq> NULL" "0 < ?n" using assms(1) by (simp_all add: table_ok_def)
  ultimately show ?thesis unfolding index_from_item_def using sdiv_exact [of ?n i] by (simp only: if_True simp_thms)
qed

lemma get_bit_iff:
  assumes "table_ok s t" "i < nbrs s"
  shows "nbr_get_bit bm s t (item_at s t i) \<longleftrightarrow> bit (bm ! i) (nt_index (tables s t))"
proof -
  have "(w AND push_bit n 1 \<noteq> 0) = bit w n" if "n < 8" for w :: u8 and n
    using that by (auto simp: and_exp_eq_0_iff_not_bit push_bit_eq_mult)
  then show ?thesis
    using assms index_of_item [OF assms] by (simp add: nbr_get_bit_def table_ok_def MAX_NUM_TABLES_def)
qed

lemma get_bit_null [simp]: "\<not> nbr_get_bit bm s t NULL"
  by (simp add: nbr_get_bit_def index_from_item_def)

lemma set_bit_eq:
  assumes "table_ok s t" "i < nbrs s"
  shows "nbr_set_bit bm s t (item_at s t i) v =
    (True, bm[i := (if v then bm ! i OR push_bit (nt_index (tables s t)) 1 else bm ! i AND NOT (push_bit (nt_index (tables s t)) 1))])"
  using assms index_of_item [OF assms] by (simp add: nbr_set_bit_def table_ok_def)

text \<open>Finding a neighbor by its address.\<close>

definition key_of :: "'u nbr_sys \<Rightarrow> ptr list \<Rightarrow> linkaddr \<Rightarrow> ptr option" where
  "key_of s ks a = find (\<lambda>k. key_lladdr s k = a) ks"

lemma lladdr_loop_chain:
  "lchain (lnext (nbr_heap s)) p ks \<Longrightarrow>
    lladdr_loop s a p = Some (case key_of s ks a of None \<Rightarrow> - 1 | Some k \<Rightarrow> index_from_key s k)"
proof (induction ks arbitrary: p)
  case Nil
  then show ?case by (subst lladdr_loop.simps) (simp add: key_of_def)
next
  case (Cons k ks)
  then have "p = k" "k \<noteq> NULL" by simp_all
  then show ?case using Cons by (subst lladdr_loop.simps) (auto simp: key_of_def list_item_next_def)
qed

lemma index_from_lladdr_eq:
  assumes "nbr_inv s ks"
  shows "index_from_lladdr s a = Some (case key_of s ks (case a of None \<Rightarrow> linkaddr_null | Some a \<Rightarrow> a) of
    None \<Rightarrow> - 1 | Some k \<Rightarrow> index_from_key s k)"
  using assms unfolding index_from_lladdr_def Let_def list_head_def nbr_inv_def is_list_def
  by (intro lladdr_loop_chain) simp

lemma key_of_Some: "key_of s ks a = Some k \<Longrightarrow> k \<in> set ks \<and> key_lladdr s k = a"
  unfolding key_of_def find_Some_iff by auto

lemma key_of_None: "key_of s ks a = None \<longleftrightarrow> a \<notin> key_lladdr s ` set ks"
  unfolding key_of_def find_None_iff by blast

lemma key_of_key: "inj_on (key_lladdr s) (set ks) \<Longrightarrow> k \<in> set ks \<Longrightarrow> key_of s ks (key_lladdr s k) = Some k"
proof (cases "key_of s ks (key_lladdr s k)")
  case None
  assume "k \<in> set ks"
  then show ?thesis using None unfolding key_of_None by simp
next
  case (Some k')
  assume "inj_on (key_lladdr s) (set ks)" "k \<in> set ks"
  then show ?thesis using Some key_of_Some [OF Some] by (auto dest: inj_onD)
qed

section \<open>Eviction\<close>

lemma count_used_card: "count_used u n = n + card {j. bit u j}"
proof (induction u n rule: count_used.induct)
  case (1 u n)
  show ?case
  proof (cases "u = 0")
    case True
    then show ?thesis by (simp add: count_used.simps)
  next
    case False
    have fin: "finite {j. bit (drop_bit 1 u) j}" by (rule finite_subset [of _ "{..<8}"]) (auto simp: bit_drop_bit_eq dest: bit_imp_le_length)
    have "{j. bit u j} = (if odd u then {0} else {}) \<union> Suc ` {j. bit (drop_bit 1 u) j}"
      by (auto simp: bit_drop_bit_eq bit_0 image_iff) (metis bit_0 not0_implies_Suc)+
    moreover have "card ((if odd u then {0} else {}) \<union> Suc ` {j. bit (drop_bit 1 u) j})
        = (if odd u then 1 else 0) + card {j. bit (drop_bit 1 u) j}"
      using fin by (simp add: card_image card_insert_if)
    ultimately have "card {j. bit u j} = (if odd u then 1 else 0) + card {j. bit (drop_bit 1 u) j}" by simp
    moreover have "(u AND 1 = 1) = odd u" by (simp add: and_one_eq odd_iff_mod_2_eq_one)
    ultimately show ?thesis using 1 [OF False] False by (subst count_used.simps) (simp split: if_splits)
  qed
qed

definition unlocked :: "'u nbr_sys \<Rightarrow> ptr list \<Rightarrow> ptr list" where
  "unlocked s ks = filter (\<lambda>k. locked_map s ! kidx s k = 0) ks"

text \<open>How many tables use the neighbor.\<close>

definition uses :: "'u nbr_sys \<Rightarrow> ptr \<Rightarrow> nat" where
  "uses s k = card {n. bit (used_map s ! kidx s k) n}"

lemma unlocked_simps [simp]:
  "unlocked s [] = []"
  "unlocked s (k # ks) = (if locked_map s ! kidx s k = 0 then k # unlocked s ks else unlocked s ks)"
  by (simp_all add: unlocked_def)

lemma least_loop_chain:
  assumes "lchain (lnext (nbr_heap s)) p ks"
  shows "\<exists>v. least_loop s p lk lc = Some v \<and>
    (v = lk \<and> (if lk = NULL then unlocked s ks = [] else \<forall>k \<in> set (unlocked s ks). lc \<le> uses s k)
     \<or> (\<exists>as bs. ks = as @ v # bs \<and> v \<in> set (unlocked s ks) \<and> (lk \<noteq> NULL \<longrightarrow> uses s v < lc)
         \<and> (\<forall>k \<in> set (unlocked s as). uses s v < uses s k) \<and> (\<forall>k \<in> set (unlocked s bs). uses s v \<le> uses s k)))"
  using assms
proof (induction ks arbitrary: p lk lc)
  case Nil
  then show ?case by (subst least_loop.simps) simp
next
  case (Cons x ks)
  then have p: "p = x" "x \<noteq> NULL" and ch: "lchain (lnext (nbr_heap s)) (lnext (nbr_heap s) x) ks" by simp_all
  have nx: "list_item_next (nbr_heap s) x = lnext (nbr_heap s) x" using p(2) by (simp add: list_item_next_def)
  have u: "count_used (used_map s ! kidx s x) 0 = uses s x" by (simp add: uses_def count_used_card)
  note step = least_loop.simps [of s x lk lc, unfolded Let_def u nx]
  show ?case
  proof (cases "locked_map s ! kidx s x = 0 \<and> (lk = NULL \<or> uses s x < lc)")
    case True
    show ?thesis
    proof (cases "uses s x = 0")
      case z: True
      then have "least_loop s x lk lc = Some x" using True p(2) step by simp
      then show ?thesis using True z p(1) by (intro exI [of _ x] conjI disjI2 exI [of _ "[]"] exI [of _ ks]) auto
    next
      case False
      then have l: "least_loop s x lk lc = least_loop s (lnext (nbr_heap s) x) x (uses s x)" using True p(2) step by simp
      obtain v where v: "least_loop s (lnext (nbr_heap s) x) x (uses s x) = Some v"
        "v = x \<and> (\<forall>k \<in> set (unlocked s ks). uses s x \<le> uses s k) \<or>
         (\<exists>as bs. ks = as @ v # bs \<and> v \<in> set (unlocked s ks) \<and> uses s v < uses s x
           \<and> (\<forall>k \<in> set (unlocked s as). uses s v < uses s k) \<and> (\<forall>k \<in> set (unlocked s bs). uses s v \<le> uses s k))"
        using Cons.IH [OF ch, of x "uses s x"] p(2) by auto
      from v(2) show ?thesis
      proof (elim disjE exE conjE)
        assume "v = x" "\<forall>k \<in> set (unlocked s ks). uses s x \<le> uses s k"
        then show ?thesis using l v(1) True p(1)
          by (intro exI [of _ x] conjI disjI2 exI [of _ "[]"] exI [of _ ks]) auto
      next
        fix as bs assume a: "ks = as @ v # bs" "v \<in> set (unlocked s ks)" "uses s v < uses s x"
          "\<forall>k \<in> set (unlocked s as). uses s v < uses s k" "\<forall>k \<in> set (unlocked s bs). uses s v \<le> uses s k"
        then show ?thesis using l v(1) True p(1)
          by (intro exI [of _ v] conjI disjI2 exI [of _ "x # as"] exI [of _ bs]) auto
      qed
    qed
  next
    case False
    then have l: "least_loop s x lk lc = least_loop s (lnext (nbr_heap s) x) lk lc"
      using p(2) step by (auto split: if_splits)
    obtain v where v: "least_loop s (lnext (nbr_heap s) x) lk lc = Some v"
      "v = lk \<and> (if lk = NULL then unlocked s ks = [] else \<forall>k \<in> set (unlocked s ks). lc \<le> uses s k)
       \<or> (\<exists>as bs. ks = as @ v # bs \<and> v \<in> set (unlocked s ks) \<and> (lk \<noteq> NULL \<longrightarrow> uses s v < lc)
         \<and> (\<forall>k \<in> set (unlocked s as). uses s v < uses s k) \<and> (\<forall>k \<in> set (unlocked s bs). uses s v \<le> uses s k))"
      using Cons.IH [OF ch, of lk lc] by blast
    from v(2) show ?thesis
    proof (elim disjE exE conjE)
      assume "v = lk" "if lk = NULL then unlocked s ks = [] else \<forall>k \<in> set (unlocked s ks). lc \<le> uses s k"
      then show ?thesis using l v(1) False p(1) by (intro exI [of _ v] conjI disjI1) (auto split: if_splits)
    next
      fix as bs assume a: "ks = as @ v # bs" "v \<in> set (unlocked s ks)" "lk \<noteq> NULL \<longrightarrow> uses s v < lc"
        "\<forall>k \<in> set (unlocked s as). uses s v < uses s k" "\<forall>k \<in> set (unlocked s bs). uses s v \<le> uses s k"
      then show ?thesis using l v(1) False p(1)
        by (intro exI [of _ v] conjI disjI2 exI [of _ "x # as"] exI [of _ bs]) auto
    qed
  qed
qed

text \<open>
  The callbacks are client code. They may change their tables' items and their own state,
  and give up neighbors (\<open>nbr_table_remove\<close>, \<open>nbr_table_unlock\<close>); they add none.
\<close>

definition shrunk :: "'u nbr_sys \<Rightarrow> 'u nbr_sys \<Rightarrow> bool" where
  "shrunk s s' \<longleftrightarrow> all_tables s' = all_tables s \<and> num_tables s' = num_tables s \<and>
     neighbor_addr_mem s' = neighbor_addr_mem s \<and> nbr_heap s' = nbr_heap s \<and> key_lladdr s' = key_lladdr s \<and>
     tables s' = tables s \<and> length (used_map s') = length (used_map s) \<and> length (locked_map s') = length (locked_map s) \<and>
     (\<forall>i < length (used_map s). \<forall>n. bit (used_map s' ! i) n \<longrightarrow> bit (used_map s ! i) n) \<and>
     (\<forall>i < length (locked_map s). \<forall>n. bit (locked_map s' ! i) n \<longrightarrow> bit (locked_map s ! i) n)"

definition callbacks_ok :: "'u nbr_callback \<Rightarrow> bool" where
  "callbacks_ok cb \<longleftrightarrow> (\<forall>f item s. shrunk s (cb f item s))"

lemma shrunk_refl [simp]: "shrunk s s"
  by (simp add: shrunk_def)

lemma shrunk_trans: "shrunk s s1 \<Longrightarrow> shrunk s1 s2 \<Longrightarrow> shrunk s s2"
  by (simp add: shrunk_def)

lemma notify_shrunk: "callbacks_ok cb \<Longrightarrow> shrunk s (notify cb k i s)"
  by (auto simp: notify_def Let_def callbacks_ok_def)

lemma fold_notify_shrunk: "callbacks_ok cb \<Longrightarrow> shrunk s (fold (notify cb k) is s)"
  by (induction "is" arbitrary: s) (auto intro: shrunk_trans notify_shrunk)

lemma shrunk_zero:
  assumes "shrunk s s'"
  shows "i < length (used_map s) \<Longrightarrow> used_map s ! i = 0 \<Longrightarrow> used_map s' ! i = 0"
    and "i < length (locked_map s) \<Longrightarrow> locked_map s ! i = 0 \<Longrightarrow> locked_map s' ! i = 0"
proof -
  show "used_map s' ! i = 0" if "i < length (used_map s)" "used_map s ! i = 0"
  proof (intro bit_eqI)
    show "bit (used_map s' ! i) n = bit 0 n" for n using assms that by (auto simp: shrunk_def)
  qed
  show "locked_map s' ! i = 0" if "i < length (locked_map s)" "locked_map s ! i = 0"
  proof (intro bit_eqI)
    show "bit (locked_map s' ! i) n = bit 0 n" for n using assms that by (auto simp: shrunk_def)
  qed
qed

lemma shrunk_inv:
  assumes "shrunk s s'" "nbr_inv s ks"
  shows "nbr_inv s' ks"
proof -
  have "used_map s' ! i = 0 \<and> locked_map s' ! i = 0" if "i < nbrs s" "kptr s i \<notin> set ks" for i
    using that assms(2) shrunk_zero [OF assms(1), of i] by (simp add: nbr_inv_def)
  moreover have e: "neighbor_addr_mem s' = neighbor_addr_mem s" "nbr_heap s' = nbr_heap s" "key_lladdr s' = key_lladdr s"
    "length (used_map s') = length (used_map s)" "length (locked_map s') = length (locked_map s)"
    using assms(1) by (simp_all add: shrunk_def)
  ultimately show ?thesis using assms(2) unfolding nbr_inv_def e by blast
qed

lemma index_from_key_shrunk: "shrunk s s' \<Longrightarrow> index_from_key s' k = index_from_key s k"
  by (simp add: shrunk_def index_from_key_def)

lemma table_ok_shrunk: "shrunk s s' \<Longrightarrow> table_ok s' t = table_ok s t"
  by (simp add: shrunk_def table_ok_def)

lemma inj_on_take_out: "inj_on f (set ks) \<Longrightarrow> inj_on f (set (remove1 k ks))"
  by (erule inj_on_subset) (rule set_remove1_subset)

text \<open>After an eviction the victim is unlisted, with empty maps; the pool still counts it as taken.\<close>

definition evicted :: "'u nbr_sys \<Rightarrow> ptr list \<Rightarrow> ptr \<Rightarrow> bool" where
  "evicted s ks v \<longleftrightarrow> is_list (nbr_heap s) nbr_table_keys ks \<and> memb_wf (neighbor_addr_mem s) \<and>
     memb_live (neighbor_addr_mem s) = insert v (set ks) \<and> v \<notin> set ks \<and> inj_on (key_lladdr s) (set ks) \<and>
     length (used_map s) = nbrs s \<and> length (locked_map s) = nbrs s \<and>
     (\<forall>i < nbrs s. kptr s i \<notin> set ks \<longrightarrow> used_map s ! i = 0 \<and> locked_map s ! i = 0)"

definition victim :: "'u nbr_sys \<Rightarrow> ptr list \<Rightarrow> ptr \<Rightarrow> ptr list \<Rightarrow> bool" where
  "victim s as v bs \<longleftrightarrow> locked_map s ! kidx s v = 0 \<and>
     (\<forall>k \<in> set (unlocked s as). uses s v < uses s k) \<and> (\<forall>k \<in> set (unlocked s bs). uses s v \<le> uses s k)"

definition same_base :: "'u nbr_sys \<Rightarrow> 'u nbr_sys \<Rightarrow> bool" where
  "same_base s s' \<longleftrightarrow> tables s' = tables s \<and> all_tables s' = all_tables s \<and> key_lladdr s' = key_lladdr s \<and>
     mmem (neighbor_addr_mem s') = mmem (neighbor_addr_mem s) \<and> msize (neighbor_addr_mem s') = msize (neighbor_addr_mem s) \<and>
     mnum (neighbor_addr_mem s') = mnum (neighbor_addr_mem s)"

lemma allocate_room:
  assumes "nbr_inv s ks" "length ks < nbrs s"
  shows "\<exists>k s'. nbr_table_allocate cb s = Some (k, s') \<and> k \<noteq> NULL \<and> evicted s' ks k \<and> same_base s s' \<and>
    used_map s' = used_map s \<and> locked_map s' = locked_map s \<and> item_mem s' = item_mem s \<and> nbr_user s' = nbr_user s"
proof -
  let ?m = "neighbor_addr_mem s"
  have wf: "memb_wf ?m" and live: "memb_live ?m = set ks" using assms(1) by (simp_all add: nbr_inv_def)
  have "card (memb_blocks ?m) = nbrs s"
    unfolding memb_blocks_def using block_ptr_inj [OF wf] by (subst card_image) (auto intro!: inj_onI)
  moreover have "card (set ks) \<le> length ks" by (rule card_length)
  ultimately have "memb_live ?m \<noteq> memb_blocks ?m" using assms(2) live by (intro notI) simp
  then obtain k m' where k: "memb_alloc ?m = (k, m')" "k \<noteq> NULL" "k \<notin> memb_live ?m" "memb_live m' = insert k (memb_live ?m)" "memb_wf m'"
    by (cases rule: mb.alloc_cases [OF wf]) auto
  have base: "mmem m' = mmem ?m \<and> msize m' = msize ?m \<and> mnum m' = mnum ?m"
    by (cases rule: memb_alloc_cases [of ?m]) (use k(1,2) in auto)
  then have kp: "block_ptr m' i = kptr s i" for i by (simp add: block_ptr_def)
  have "evicted (s\<lparr>neighbor_addr_mem := m'\<rparr>) ks k"
    using assms(1) k base live by (auto simp: evicted_def nbr_inv_def kp)
  then show ?thesis using k base
    by (intro exI [of _ k] exI [of _ "s\<lparr>neighbor_addr_mem := m'\<rparr>"]) (simp add: nbr_table_allocate_def same_base_def)
qed

lemma pool_full:
  assumes "nbr_inv s ks" "\<not> length ks < nbrs s"
  shows "memb_alloc (neighbor_addr_mem s) = (NULL, neighbor_addr_mem s)"
proof -
  let ?m = "neighbor_addr_mem s"
  have wf: "memb_wf ?m" and live: "memb_live ?m = set ks" using assms(1) by (simp_all add: nbr_inv_def)
  have d: "distinct ks" using assms(1) is_list_distinct by (auto simp: nbr_inv_def)
  have "card (memb_blocks ?m) \<le> nbrs s"
    unfolding memb_blocks_def using card_image_le [of "{..<nbrs s}" "kptr s"] by simp
  then have "card (memb_blocks ?m) \<le> card (memb_live ?m)" using assms(2) distinct_card [OF d] live by simp
  then have "memb_live ?m = memb_blocks ?m"
    using mb.live_blocks [of ?m] mb.finite_blocks [of ?m] by (intro card_seteq) auto
  then show ?thesis using wf by (intro mb.alloc_full)
qed

lemma evicted_victim:
  assumes inv: "nbr_inv s ks" and ks: "ks = as @ v # bs" and l: "locked_map s ! kidx s v = 0"
    and h: "is_list h nbr_table_keys (as @ bs)"
  shows "evicted (s\<lparr>used_map := (used_map s)[kidx s v := 0], nbr_heap := h\<rparr>) (as @ bs) v"
proof -
  have wf: "memb_wf (neighbor_addr_mem s)" and len: "length (used_map s) = nbrs s" "length (locked_map s) = nbrs s"
    using inv by (simp_all add: nbr_inv_def)
  have d: "distinct ks" using inv is_list_distinct [of "nbr_heap s" nbr_table_keys ks] by (simp add: nbr_inv_def)
  have vk: "v \<in> set ks" using ks by simp
  obtain i where i: "i < nbrs s" "v = kptr s i" "kidx s v = i" "index_from_key s v = int i" by (rule live_index [OF inv vk])
  have z: "(used_map s)[i := 0] ! j = 0 \<and> locked_map s ! j = 0" if j: "j < nbrs s" "kptr s j \<notin> set (as @ bs)" for j
  proof (cases "kptr s j = v")
    case True
    then have "j = i" using block_ptr_inj [OF wf, of j i] j(1) i by simp
    then show ?thesis using l i len by simp
  next
    case False
    then have "kptr s j \<notin> set ks" using j(2) ks by simp
    then have "used_map s ! j = 0 \<and> locked_map s ! j = 0" using inv j(1) by (simp add: nbr_inv_def)
    then show ?thesis using len j(1) by (cases "i = j") simp_all
  qed
  have "inj_on (key_lladdr s) (set ks)" "memb_live (neighbor_addr_mem s) = set ks"
    using inv unfolding nbr_inv_def by blast+
  then have o: "inj_on (key_lladdr s) (set (as @ bs))" "memb_live (neighbor_addr_mem s) = insert v (set (as @ bs))"
    unfolding ks by (auto simp: inj_on_Un)
  have n: "v \<notin> set (as @ bs)" using d ks by simp
  let ?s = "s\<lparr>used_map := (used_map s)[kidx s v := 0], nbr_heap := h\<rparr>"
  have e: "neighbor_addr_mem ?s = neighbor_addr_mem s" "nbr_heap ?s = h" "key_lladdr ?s = key_lladdr s"
    "used_map ?s = (used_map s)[i := 0]" "locked_map ?s = locked_map s" by (simp_all add: i(3))
  show ?thesis unfolding evicted_def e using wf len z h o n by (intro conjI allI impI) simp_all
qed

lemma allocate_full:
  assumes inv: "nbr_inv s ks" and full: "\<not> length ks < nbrs s" and cb: "callbacks_ok cb"
  shows "(unlocked s ks = [] \<and> nbr_table_allocate cb s = Some (NULL, s)) \<or>
    (\<exists>v s' as bs. nbr_table_allocate cb s = Some (v, s') \<and> v \<noteq> NULL \<and> ks = as @ v # bs \<and> victim s as v bs \<and>
       evicted s' (as @ bs) v \<and> same_base s s' \<and> v \<in> set (unlocked s ks) \<and>
       (let s1 = fold (notify cb v) [0..<MAX_NUM_TABLES] s
        in nbr_user s' = nbr_user s1 \<and> item_mem s' = item_mem s1 \<and> locked_map s' = locked_map s1 \<and>
           used_map s' = (used_map s1)[kidx s v := 0]))"
proof -
  have ch: "lchain (lnext (nbr_heap s)) (list_head (nbr_heap s) nbr_table_keys) ks"
    using inv by (simp add: nbr_inv_def is_list_def list_head_def)
  note al = nbr_table_allocate_def [of cb s, unfolded pool_full [OF inv full] prod.case]
  obtain v where v: "least_loop s (list_head (nbr_heap s) nbr_table_keys) NULL 0 = Some v"
    "v = NULL \<and> unlocked s ks = [] \<or> (\<exists>as bs. ks = as @ v # bs \<and> v \<in> set (unlocked s ks)
       \<and> (\<forall>k \<in> set (unlocked s as). uses s v < uses s k) \<and> (\<forall>k \<in> set (unlocked s bs). uses s v \<le> uses s k))"
    using least_loop_chain [OF ch, of NULL 0] by auto
  from v(2) show ?thesis
  proof (elim disjE exE conjE)
    assume "v = NULL" "unlocked s ks = []"
    then show ?thesis using al v(1) by simp
  next
    fix as bs assume a: "ks = as @ v # bs" "v \<in> set (unlocked s ks)"
      "\<forall>k \<in> set (unlocked s as). uses s v < uses s k" "\<forall>k \<in> set (unlocked s bs). uses s v \<le> uses s k"
    have vk: "v \<in> set ks" using a(1) by simp
    have "NULL \<notin> set ks" using inv is_list_not_null [of "nbr_heap s" nbr_table_keys ks] by (simp add: nbr_inv_def)
    then have v0: "v \<noteq> NULL" using vk by metis
    have lv: "locked_map s ! kidx s v = 0" using a(2) by (auto simp: unlocked_def)
    have d: "distinct ks" using inv is_list_distinct [of "nbr_heap s" nbr_table_keys ks] by (simp add: nbr_inv_def)
    define s1 where "s1 = fold (notify cb v) [0..<MAX_NUM_TABLES] s"
    have sh: "shrunk s s1" unfolding s1_def by (rule fold_notify_shrunk [OF cb])
    have inv1: "nbr_inv s1 ks" by (rule shrunk_inv [OF sh inv])
    define s2 where "s2 = s1\<lparr>used_map := (used_map s1)[nat (index_from_key s1 v) := 0]\<rparr>"
    have l1: "is_list (nbr_heap s2) nbr_table_keys ks" using inv1 by (simp add: nbr_inv_def s2_def)
    obtain h where h: "list_remove (nbr_heap s2) nbr_table_keys v = Some h" "is_list h nbr_table_keys (remove1 v ks)"
      using list_remove_is_list [OF l1, of v] by blast
    have rm: "remove1 v ks = as @ bs" using a(1) d by (simp add: remove1_append)
    have "kidx s v < nbrs s" by (rule live_index [OF inv vk]) simp
    then have "locked_map s1 ! kidx s1 v = 0"
      using shrunk_zero(2) [OF sh _ lv] inv by (simp add: index_from_key_shrunk [OF sh] nbr_inv_def)
    then have "evicted (s2\<lparr>nbr_heap := h\<rparr>) (as @ bs) v"
      using evicted_victim [OF inv1 a(1) _ h(2) [unfolded rm]] by (simp add: s2_def)
    moreover have "same_base s (s2\<lparr>nbr_heap := h\<rparr>)" using sh by (simp add: same_base_def shrunk_def s2_def)
    moreover have "nbr_table_allocate cb s = Some (v, s2\<lparr>nbr_heap := h\<rparr>)"
      using al v(1) v0 h(1) by (simp add: Let_def s1_def s2_def)
    moreover have "victim s as v bs" using lv a(3,4) by (simp add: victim_def)
    moreover have "used_map s2 = (used_map s1)[kidx s v := 0]" "locked_map s2 = locked_map s1" "item_mem s2 = item_mem s1"
      "nbr_user s2 = nbr_user s1" by (simp_all add: s2_def index_from_key_shrunk [OF sh])
    ultimately show ?thesis using a(1,2) v0
      by - (rule disjI2, rule exI [of _ v], rule exI [of _ "s2\<lparr>nbr_heap := h\<rparr>"], rule exI [of _ as], rule exI [of _ bs],
        simp add: Let_def s1_def [symmetric])
  qed
qed

section \<open>Adding a neighbor\<close>

lemma enlist_key:
  assumes ev: "evicted s ks k" and k: "k \<noteq> NULL" and a: "a \<notin> key_lladdr s ` set ks"
  shows "\<exists>h. list_add (nbr_heap s) nbr_table_keys k = Some h \<and>
    nbr_inv (s\<lparr>nbr_heap := h, key_lladdr := (key_lladdr s)(k := a)\<rparr>) (ks @ [k])"
proof -
  have l: "is_list (nbr_heap s) nbr_table_keys ks" and n: "k \<notin> set ks"
    and o: "inj_on (key_lladdr s) (set ks)" "memb_live (neighbor_addr_mem s) = insert k (set ks)"
    using ev unfolding evicted_def by blast+
  obtain h where h: "list_add (nbr_heap s) nbr_table_keys k = Some h" "is_list h nbr_table_keys (ks @ [k])"
    using list_add_is_list [OF l k] n by (auto simp: remove1_not_in)
  have "inj_on ((key_lladdr s)(k := a)) (set (ks @ [k]))"
    using o(1) n a by (auto simp: inj_on_def)
  moreover have "memb_live (neighbor_addr_mem s) = set (ks @ [k])" using o(2) by simp
  ultimately show ?thesis using ev h by (intro exI [of _ h]) (auto simp: nbr_inv_def evicted_def)
qed

lemma index_from_key_upd [simp]:
  "index_from_key (s\<lparr>nbr_heap := h\<rparr>) k = index_from_key s k"
  "index_from_key (s\<lparr>key_lladdr := f\<rparr>) k = index_from_key s k"
  "index_from_key (s\<lparr>item_mem := m\<rparr>) k = index_from_key s k"
  "index_from_key (s\<lparr>used_map := u\<rparr>) k = index_from_key s k"
  "index_from_key (s\<lparr>locked_map := u\<rparr>) k = index_from_key s k"
  by (simp_all add: index_from_key_def)

lemma table_ok_upd [simp]:
  "table_ok (s\<lparr>nbr_heap := h\<rparr>) t = table_ok s t"
  "table_ok (s\<lparr>key_lladdr := f\<rparr>) t = table_ok s t"
  "table_ok (s\<lparr>item_mem := m\<rparr>) t = table_ok s t"
  "table_ok (s\<lparr>used_map := u\<rparr>) t = table_ok s t"
  "table_ok (s\<lparr>locked_map := u\<rparr>) t = table_ok s t"
  by (simp_all add: table_ok_def)

text \<open>Any change of the used map and the items that keeps the unlisted neighbors unused.\<close>

lemma nbr_inv_used:
  assumes "nbr_inv s ks" "kptr s i \<in> set ks"
  shows "nbr_inv (s\<lparr>item_mem := m, used_map := (used_map s)[i := w]\<rparr>) ks"
    and "nbr_inv (s\<lparr>used_map := (used_map s)[i := w]\<rparr>) ks"
    and "nbr_inv (s\<lparr>locked_map := (locked_map s)[i := w]\<rparr>) ks"
proof -
  have "(xs[i := w]) ! j = xs ! j" if "kptr s j \<notin> set ks" for j and xs :: "u8 list"
    using that assms(2) by (metis nth_list_update_neq)
  then show "nbr_inv (s\<lparr>item_mem := m, used_map := (used_map s)[i := w]\<rparr>) ks"
    "nbr_inv (s\<lparr>used_map := (used_map s)[i := w]\<rparr>) ks" "nbr_inv (s\<lparr>locked_map := (locked_map s)[i := w]\<rparr>) ks"
    using assms(1) by (simp_all add: nbr_inv_def)
qed

lemma get_from_lladdr_eq:
  assumes "nbr_inv s ks" "table_ok s t" "i < nbrs s" "kptr s i \<in> set ks"
  shows "nbr_table_get_from_lladdr s t (Some (key_lladdr s (kptr s i))) =
    Some (if bit (used_map s ! i) (nt_index (tables s t)) then item_at s t i else NULL)"
proof -
  have wf: "memb_wf (neighbor_addr_mem s)" and inj: "inj_on (key_lladdr s) (set ks)"
    using assms(1) unfolding nbr_inv_def by blast+
  have "index_from_lladdr s (Some (key_lladdr s (kptr s i))) = Some (int i)"
    using index_from_lladdr_eq [OF assms(1)] key_of_key [OF inj assms(4)] index_of_kptr [OF wf assms(3)] by simp
  then show ?thesis
    using item_of_index [OF assms(2)] get_bit_iff [OF assms(2,3)] by (simp add: nbr_table_get_from_lladdr_def)
qed

lemma get_from_lladdr_unknown:
  assumes "nbr_inv s ks" "a \<notin> key_lladdr s ` set ks"
  shows "nbr_table_get_from_lladdr s t (Some a) = Some NULL"
proof -
  have "index_from_lladdr s (Some a) = Some (- 1)"
    using index_from_lladdr_eq [OF assms(1)] assms(2) by (simp add: key_of_None [symmetric])
  then show ?thesis by (simp add: nbr_table_get_from_lladdr_def item_from_index_def)
qed

definition fill_item :: "'u nbr_sys \<Rightarrow> ptr \<Rightarrow> nat \<Rightarrow> 'u nbr_sys" where
  "fill_item s t i = s\<lparr>item_mem := zero_item (item_at s t i) (nt_item_size (tables s t)) (item_mem s),
     used_map := (used_map s)[i := used_map s ! i OR push_bit (nt_index (tables s t)) 1]\<rparr>"

lemma fill_item_correct:
  assumes inv: "nbr_inv s ks" "table_ok s t" "i < nbrs s" "kptr s i \<in> set ks"
  shows "nbr_inv (fill_item s t i) ks \<and>
    nbr_table_get_from_lladdr (fill_item s t i) t (Some (key_lladdr s (kptr s i))) = Some (item_at s t i) \<and>
    item_at s t i \<noteq> NULL \<and> (\<forall>j < nt_item_size (tables s t). item_mem (fill_item s t i) (item_at s t i + j) = 0)"
proof -
  have i: "nbr_inv (fill_item s t i) ks" unfolding fill_item_def by (rule nbr_inv_used(1) [OF inv(1,4)])
  have ok: "table_ok (fill_item s t i) t" using inv(2) by (simp add: fill_item_def)
  have len: "length (used_map s) = nbrs s" using inv(1) by (simp add: nbr_inv_def)
  have n: "nt_index (tables s t) < 8" "nt_data (tables s t) \<noteq> NULL" using inv(2) by (simp_all add: table_ok_def MAX_NUM_TABLES_def)
  then have "bit (used_map (fill_item s t i) ! i) (nt_index (tables s t))"
    using len inv(3) by (simp add: fill_item_def bit_or_iff bit_exp_iff)
  moreover have e: "neighbor_addr_mem (fill_item s t i) = neighbor_addr_mem s" "key_lladdr (fill_item s t i) = key_lladdr s"
    "tables (fill_item s t i) = tables s" by (simp_all add: fill_item_def)
  ultimately have "nbr_table_get_from_lladdr (fill_item s t i) t (Some (key_lladdr s (kptr s i))) = Some (item_at s t i)"
    using get_from_lladdr_eq [OF i ok, of i] inv(3,4) by simp
  moreover have "\<forall>j < nt_item_size (tables s t). item_mem (fill_item s t i) (item_at s t i + j) = 0"
    by (simp add: fill_item_def zero_item_def)
  ultimately show ?thesis using i n(2) by simp
qed

lemma add_final:
  assumes "table_ok s t" "i < nbrs s"
  shows "init_item s t (int i) = (item_at s t i, fill_item s t i)"
proof -
  let ?s = "s\<lparr>item_mem := zero_item (item_at s t i) (nt_item_size (tables s t)) (item_mem s)\<rparr>"
  have "nbr_set_bit (used_map s) ?s t (item_at ?s t i) True =
      (True, (used_map s)[i := used_map s ! i OR push_bit (nt_index (tables s t)) 1])"
    using set_bit_eq [of ?s t i "used_map s" True] assms by simp
  then show ?thesis by (simp add: init_item_def Let_def item_of_index [OF assms(1)] fill_item_def)
qed

text \<open>The outcomes of adding: the new order of the neighbors.\<close>

definition add_order :: "'u nbr_sys \<Rightarrow> ptr list \<Rightarrow> linkaddr \<Rightarrow> ptr list \<Rightarrow> bool" where
  "add_order s ks a ks' \<longleftrightarrow>
     (if a \<in> key_lladdr s ` set ks then ks' = ks
      else if length ks < nbrs s then \<exists>k. k \<notin> set ks \<and> ks' = ks @ [k]
      else \<exists>as v bs. ks = as @ v # bs \<and> victim s as v bs \<and> ks' = as @ bs @ [v])"

lemma evicted_length: "evicted s ks v \<Longrightarrow> evicted s ks v \<and> v \<notin> set ks"
  by (simp add: evicted_def)

lemma add_new_key_eq:
  assumes ev: "evicted s1 ks k" and b: "same_base s s1" and k: "k \<noteq> NULL" and a: "a \<notin> key_lladdr s ` set ks"
    and t: "table_ok s t" and al: "nbr_table_allocate cb s = Some (k, s1)"
    and un: "index_from_lladdr s (Some a) = Some (- 1)"
  shows "\<exists>h s2. s2 = s1\<lparr>nbr_heap := h, key_lladdr := (key_lladdr s)(k := a)\<rparr> \<and> nbr_inv s2 (ks @ [k]) \<and> table_ok s2 t \<and>
    kidx s2 k < nbrs s2 \<and> k = kptr s2 (kidx s2 k) \<and>
    nbr_table_add_lladdr cb s t (Some a) = Some (item_at s2 t (kidx s2 k), fill_item s2 t (kidx s2 k))"
proof -
  have kl: "key_lladdr s1 = key_lladdr s" using b by (simp add: same_base_def)
  obtain h where h: "list_add (nbr_heap s1) nbr_table_keys k = Some h"
    "nbr_inv (s1\<lparr>nbr_heap := h, key_lladdr := (key_lladdr s1)(k := a)\<rparr>) (ks @ [k])"
    using enlist_key [OF ev k] a unfolding kl by blast
  define s2 where "s2 = s1\<lparr>nbr_heap := h, key_lladdr := (key_lladdr s)(k := a)\<rparr>"
  have inv2: "nbr_inv s2 (ks @ [k])" using h(2) by (simp add: s2_def kl)
  have t2: "table_ok s2 t" using t b by (simp add: s2_def table_ok_def same_base_def)
  obtain i where i: "i < nbrs s2" "k = kptr s2 i" "kidx s2 k = i" "index_from_key s2 k = int i"
    by (rule live_index [OF inv2, of k]) simp
  have ki: "index_from_key s1 k = int i" using i(4) by (simp add: s2_def)
  have "nbr_table_add_lladdr cb s t (Some a) = Some (item_at s2 t i, fill_item s2 t i)"
    unfolding nbr_table_add_lladdr_def using add_final [OF t2 i(1)]
    by (simp add: un al k h(1) ki s2_def kl)
  then show ?thesis using i(1,2) inv2 t2 unfolding i(3) [symmetric]
    by (intro exI [of _ h] exI [of _ s2] conjI) (rule s2_def; assumption)+
qed

lemma add_new_key:
  assumes ev: "evicted s1 ks k" and b: "same_base s s1" and k: "k \<noteq> NULL" and a: "a \<notin> key_lladdr s ` set ks"
    and t: "table_ok s t" and al: "nbr_table_allocate cb s = Some (k, s1)"
    and un: "index_from_lladdr s (Some a) = Some (- 1)"
  shows "\<exists>item s'. nbr_table_add_lladdr cb s t (Some a) = Some (item, s') \<and> nbr_inv s' (ks @ [k]) \<and> item \<noteq> NULL \<and>
    nbr_table_get_from_lladdr s' t (Some a) = Some item \<and> (\<forall>j < nt_item_size (tables s t). item_mem s' (item + j) = 0) \<and>
    key_lladdr s' = (key_lladdr s)(k := a) \<and> nbr_user s' = nbr_user s1"
proof -
  obtain h s2 where s2: "s2 = s1\<lparr>nbr_heap := h, key_lladdr := (key_lladdr s)(k := a)\<rparr>" "nbr_inv s2 (ks @ [k])" "table_ok s2 t"
    "kidx s2 k < nbrs s2" "k = kptr s2 (kidx s2 k)"
    "nbr_table_add_lladdr cb s t (Some a) = Some (item_at s2 t (kidx s2 k), fill_item s2 t (kidx s2 k))"
    using add_new_key_eq [OF assms] by blast
  define i where "i = kidx s2 k"
  have in2: "kptr s2 i \<in> set (ks @ [k])" using s2(5) by (simp add: i_def)
  have "key_lladdr s2 (kptr s2 i) = a" using s2(1,5) by (simp add: i_def)
  moreover have "key_lladdr (fill_item s2 t i) = (key_lladdr s)(k := a)" "nbr_user (fill_item s2 t i) = nbr_user s1" "tables s2 = tables s"
    using b s2(1) by (simp_all add: fill_item_def same_base_def)
  moreover note fill_item_correct [OF s2(2,3) s2(4) [folded i_def] in2]
  moreover have "nbr_inv (fill_item s2 t i) (ks @ [k])" using calculation by blast
  ultimately show ?thesis using s2(6) [folded i_def]
    by (intro exI [of _ "item_at s2 t i"] exI [of _ "fill_item s2 t i"] conjI) simp_all
qed

lemma add_known_key:
  assumes inv: "nbr_inv s ks" and t: "table_ok s t" and k: "k \<in> set ks" "key_lladdr s k = a"
  shows "\<exists>item s'. nbr_table_add_lladdr cb s t (Some a) = Some (item, s') \<and> nbr_inv s' ks \<and> item \<noteq> NULL \<and>
    nbr_table_get_from_lladdr s' t (Some a) = Some item \<and> (\<forall>j < nt_item_size (tables s t). item_mem s' (item + j) = 0) \<and>
    key_lladdr s' = key_lladdr s \<and> nbr_user s' = nbr_user s"
proof -
  obtain i where i: "i < nbrs s" "k = kptr s i" "kidx s k = i" "index_from_key s k = int i" by (rule live_index [OF inv k(1)])
  have inj: "inj_on (key_lladdr s) (set ks)" using inv by (simp add: nbr_inv_def)
  have "index_from_lladdr s (Some a) = Some (int i)"
    using index_from_lladdr_eq [OF inv] key_of_key [OF inj k(1)] k(2) i(4) by simp
  then have "nbr_table_add_lladdr cb s t (Some a) = Some (item_at s t i, fill_item s t i)"
    unfolding nbr_table_add_lladdr_def using add_final [OF t i(1)] by (simp add: Let_def)
  moreover have "key_lladdr (fill_item s t i) = key_lladdr s" "nbr_user (fill_item s t i) = nbr_user s" by (simp_all add: fill_item_def)
  ultimately show ?thesis using fill_item_correct [OF inv t i(1)] i(2) k
    by (intro exI [of _ "item_at s t i"] exI [of _ "fill_item s t i"]) simp
qed

lemma add_no_key:
  assumes inv: "nbr_inv s ks" and a: "a \<notin> key_lladdr s ` set ks" and al: "nbr_table_allocate cb s = Some (NULL, s)"
  shows "nbr_table_add_lladdr cb s t (Some a) = Some (NULL, s)"
proof -
  have "index_from_lladdr s (Some a) = Some (- 1)"
    using index_from_lladdr_eq [OF inv] a by (simp add: key_of_None [symmetric])
  then show ?thesis unfolding nbr_table_add_lladdr_def by (simp add: al)
qed

lemma length_keys:
  assumes "nbr_inv s ks"
  shows "length ks \<le> nbrs s"
proof -
  have "distinct ks" using assms is_list_distinct [of "nbr_heap s" nbr_table_keys ks] by (simp add: nbr_inv_def)
  then have "length ks = card (memb_live (neighbor_addr_mem s))" using assms distinct_card [of ks] by (simp add: nbr_inv_def)
  also have "\<dots> \<le> card (memb_blocks (neighbor_addr_mem s))" by (rule card_mono [OF mb.finite_blocks mb.live_blocks])
  also have "\<dots> \<le> nbrs s" unfolding memb_blocks_def using card_image_le [of "{..<nbrs s}" "kptr s"] by simp
  finally show ?thesis .
qed

text \<open>
  C21. Adding a neighbor to a table fails only when its address is unknown, the pool is full and every
  neighbor is locked, and then changes nothing. Otherwise it returns a zeroed item under
  which the address is found in the table from then on; a known neighbor keeps its place, a new
  one is appended, and when the pool is full it replaces a neighbor that no table locks:
  among those the one used by the fewest tables, and of these the oldest. No other
  neighbor loses its place or its address.
\<close>

theorem nbr_add_lladdr_correct:
  assumes "nbr_inv s ks" and "table_ok s t" and "callbacks_ok cb"
  shows "\<exists>item s' ks'. nbr_table_add_lladdr cb s t (Some a) = Some (item, s') \<and> nbr_inv s' ks' \<and>
    (item = NULL \<longleftrightarrow> a \<notin> key_lladdr s ` set ks \<and> length ks = nbrs s \<and> unlocked s ks = []) \<and>
    (if item = NULL then s' = s
     else nbr_table_get_from_lladdr s' t (Some a) = Some item \<and>
       (\<forall>j < nt_item_size (tables s t). item_mem s' (item + j) = 0) \<and>
       add_order s ks a ks' \<and> (\<forall>k \<in> set ks'. key_lladdr s' k = a \<or> k \<in> set ks \<and> key_lladdr s' k = key_lladdr s k))"
proof -
  have un: "index_from_lladdr s (Some a) = Some (- 1)" if "a \<notin> key_lladdr s ` set ks"
    using index_from_lladdr_eq [OF assms(1)] that by (simp add: key_of_None [symmetric])
  note len = length_keys [OF assms(1)]
  consider (known) k where "k \<in> set ks" "key_lladdr s k = a"
    | (room) "a \<notin> key_lladdr s ` set ks" "length ks < nbrs s"
    | (full) "a \<notin> key_lladdr s ` set ks" "\<not> length ks < nbrs s" by blast
  then show ?thesis
  proof cases
    case known
    then show ?thesis using add_known_key [OF assms(1,2) known, of cb]
      by (elim exE conjE) (intro exI conjI, assumption+, auto simp: add_order_def)
  next
    case room
    obtain k s1 where k: "nbr_table_allocate cb s = Some (k, s1)" "k \<noteq> NULL" "evicted s1 ks k" "same_base s s1"
      using allocate_room [OF assms(1) room(2), of cb] by blast
    then show ?thesis using add_new_key [OF k(3,4,2) room(1) assms(2) k(1) un [OF room(1)]] room
      by (elim exE conjE) (intro exI conjI, assumption+, auto simp: add_order_def evicted_def)
  next
    case full
    from allocate_full [OF assms(1) full(2) assms(3)] show ?thesis
    proof (elim disjE exE conjE)
      assume "unlocked s ks = []" "nbr_table_allocate cb s = Some (NULL, s)"
      then show ?thesis using add_no_key [OF assms(1) full(1)] assms(1) full len
        by (intro exI [of _ NULL] exI [of _ s] exI [of _ ks]) simp
    next
      fix v s1 as bs
      assume k: "nbr_table_allocate cb s = Some (v, s1)" "v \<noteq> NULL" "ks = as @ v # bs" "victim s as v bs"
        "evicted s1 (as @ bs) v" "same_base s s1" "v \<in> set (unlocked s ks)"
      have a': "a \<notin> key_lladdr s ` set (as @ bs)" using full(1) k(3) by auto
      have o: "add_order s ks a (as @ bs @ [v])" using full k(3,4) unfolding add_order_def by auto
      have "unlocked s ks \<noteq> []" using k(7) by auto
      then show ?thesis using add_new_key [OF k(5,6,2) a' assms(2) k(1) un [OF full(1)]] o k(3)
        by (elim exE conjE) (intro exI conjI, assumption+, auto)
    qed
  qed
qed

section \<open>Iteration and removal\<close>

definition in_table :: "'u nbr_sys \<Rightarrow> ptr \<Rightarrow> ptr \<Rightarrow> bool" where
  "in_table s t k \<longleftrightarrow> bit (used_map s ! kidx s k) (nt_index (tables s t))"

text \<open>The items of a table, in the order of its neighbors.\<close>

definition items :: "'u nbr_sys \<Rightarrow> ptr \<Rightarrow> ptr list \<Rightarrow> ptr list" where
  "items s t ks = map (\<lambda>k. item_at s t (kidx s k)) (filter (in_table s t) ks)"

abbreviation first :: "ptr list \<Rightarrow> ptr" where
  "first xs \<equiv> (case xs of [] \<Rightarrow> NULL | x # _ \<Rightarrow> x)"

lemma items_simps [simp]:
  "items s t [] = []"
  "items s t (k # ks) = (if in_table s t k then item_at s t (kidx s k) # items s t ks else items s t ks)"
  "items s t (xs @ ys) = items s t xs @ items s t ys"
  by (simp_all add: items_def)

lemma item_from_key_live:
  assumes "nbr_inv s ks" "table_ok s t" "k \<in> set ks"
  shows "item_from_key s t k = item_at s t (kidx s k) \<and> item_at s t (kidx s k) \<noteq> NULL \<and>
    key_from_item s t (item_at s t (kidx s k)) = k \<and>
    (nbr_get_bit (used_map s) s t (item_at s t (kidx s k)) \<longleftrightarrow> in_table s t k)"
proof -
  obtain i where i: "i < nbrs s" "k = kptr s i" "kidx s k = i" "index_from_key s k = int i" by (rule live_index [OF assms(1,3)])
  have wf: "memb_wf (neighbor_addr_mem s)" using assms(1) by (simp add: nbr_inv_def)
  have "item_at s t i \<noteq> NULL" using assms(2) by (simp add: table_ok_def)
  then show ?thesis using i item_of_index [OF assms(2), of i] index_of_item [OF assms(2) i(1)] key_of_index [OF wf i(1)]
      get_bit_iff [OF assms(2) i(1), of "used_map s"]
    by (simp add: item_from_key_def key_from_item_def in_table_def)
qed

lemma item_from_key_null [simp]: "item_from_key s t NULL = NULL"
  by (simp add: item_from_key_def item_from_index_def index_from_key_def)

lemma next_chain:
  assumes inv: "nbr_inv s ks" "table_ok s t" and ks: "ks = as @ k # bs"
  shows "nbr_table_next s t (item_at s t (kidx s k)) = Some (first (items s t bs))"
  using ks
proof (induction bs arbitrary: as k)
  case Nil
  have l: "is_list (nbr_heap s) nbr_table_keys ks" using inv(1) by (simp add: nbr_inv_def)
  then have "lnext (nbr_heap s) k = NULL" "k \<noteq> NULL" using Nil unfolding is_list_def by (auto simp: lseg_append)
  then have "list_item_next (nbr_heap s) k = NULL" by (simp add: list_item_next_def)
  then show ?case using item_from_key_live [OF inv, of k] Nil by (subst nbr_table_next.simps) simp
next
  case (Cons b bs)
  have l: "is_list (nbr_heap s) nbr_table_keys ks" using inv(1) by (simp add: nbr_inv_def)
  then have "lnext (nbr_heap s) k = b" "k \<noteq> NULL" using Cons.prems unfolding is_list_def by (auto simp: lseg_append)
  then have n: "list_item_next (nbr_heap s) k = b" by (simp add: list_item_next_def)
  have kk: "k \<in> set ks" and bk: "b \<in> set ks" using Cons.prems by simp_all
  have ih: "nbr_table_next s t (item_at s t (kidx s b)) = Some (first (items s t bs))"
    using Cons.IH [of "as @ [k]" b] Cons.prems by simp
  define y where "y = item_at s t (kidx s b)"
  have y: "item_from_key s t b = y" "y \<noteq> NULL" "nbr_get_bit (used_map s) s t y \<longleftrightarrow> in_table s t b"
    using item_from_key_live [OF inv bk] by (simp_all add: y_def)
  have "key_from_item s t (item_at s t (kidx s k)) = k" using item_from_key_live [OF inv kk] by simp
  then show ?case using ih y n unfolding items_simps y_def [symmetric]
    by (subst nbr_table_next.simps) (simp add: Let_def)
qed

lemma head_chain:
  assumes inv: "nbr_inv s ks" "table_ok s t"
  shows "nbr_table_head s t = Some (first (items s t ks))"
proof (cases ks)
  case Nil
  then have "list_head (nbr_heap s) nbr_table_keys = NULL"
    using inv(1) list_head_is_list [of "nbr_heap s" nbr_table_keys ks] by (simp add: nbr_inv_def)
  moreover have "nbr_table_next s t NULL = Some NULL"
    by (subst nbr_table_next.simps) (simp add: key_from_item_def index_from_item_def key_from_index_def list_item_next_def)
  ultimately show ?thesis using Nil by (simp add: nbr_table_head_def)
next
  case (Cons k bs)
  then have h: "list_head (nbr_heap s) nbr_table_keys = k"
    using inv(1) list_head_is_list [of "nbr_heap s" nbr_table_keys ks] by (simp add: nbr_inv_def)
  show ?thesis using item_from_key_live [OF inv, of k] next_chain [OF inv, of "[]" k bs] Cons
    by (simp add: nbr_table_head_def h)
qed

lemma map_filter_split:
  "map f (filter P ks) = xs @ y # ys \<Longrightarrow>
    \<exists>as k bs. ks = as @ k # bs \<and> P k \<and> y = f k \<and> xs = map f (filter P as) \<and> ys = map f (filter P bs)"
proof (induction ks arbitrary: xs)
  case (Cons a ks)
  show ?case
  proof (cases "P a \<and> xs = []")
    case True
    then have "a # ks = [] @ a # ks" "y = f a" "ys = map f (filter P ks)" using Cons.prems by simp_all
    then show ?thesis using True by (intro exI [of _ "[]"] exI [of _ a] exI [of _ ks]) simp
  next
    case False
    define zs where "zs = (if P a then tl xs else xs)"
    have z: "map f (filter P ks) = zs @ y # ys" "xs = (if P a then f a # zs else zs)"
      using Cons.prems False by (cases xs; simp add: zs_def split: if_splits)+
    obtain bs k cs where h: "ks = bs @ k # cs" "P k" "y = f k" "zs = map f (filter P bs)" "ys = map f (filter P cs)"
      using Cons.IH [OF z(1)] by blast
    then show ?thesis using z(2) by (intro exI [of _ "a # bs"] exI [of _ k] exI [of _ cs]) simp
  qed
qed simp

lemma items_split:
  "items s t ks = xs @ y # ys \<Longrightarrow> \<exists>as k bs. ks = as @ k # bs \<and> in_table s t k \<and> y = item_at s t (kidx s k) \<and>
    xs = items s t as \<and> ys = items s t bs"
  unfolding items_def by (rule map_filter_split)

lemma remove_eq:
  assumes "nbr_inv s ks" "table_ok s t" "i < nbrs s"
  shows "nbr_table_remove s t (item_at s t i) =
    (True, s\<lparr>used_map := (used_map s)[i := used_map s ! i AND NOT (push_bit (nt_index (tables s t)) 1)],
             locked_map := (locked_map s)[i := locked_map s ! i AND NOT (push_bit (nt_index (tables s t)) 1)]\<rparr>)"
proof -
  define u where "u = (used_map s)[i := used_map s ! i AND NOT (push_bit (nt_index (tables s t)) 1)]"
  have 1: "nbr_set_bit (used_map s) s t (item_at s t i) False = (True, u)"
    using set_bit_eq [OF assms(2,3), of "used_map s" False] by (simp only: u_def if_False)
  have "nbr_set_bit (locked_map s) (s\<lparr>used_map := u\<rparr>) t (item_at s t i) False =
      (True, (locked_map s)[i := locked_map s ! i AND NOT (push_bit (nt_index (tables s t)) 1)])"
    using set_bit_eq [of "s\<lparr>used_map := u\<rparr>" t i "locked_map s" False] assms(2,3) by simp
  then show ?thesis unfolding nbr_table_remove_def 1 prod.case Let_def u_def [symmetric] by simp
qed

lemma items_remove:
  assumes inv: "nbr_inv s ks" "table_ok s t" and ks: "ks = as @ k # bs"
  shows "nbr_inv (snd (nbr_table_remove s t (item_at s t (kidx s k)))) ks \<and>
    items (snd (nbr_table_remove s t (item_at s t (kidx s k)))) t ks = items s t (as @ bs)"
proof -
  have kk: "k \<in> set ks" using ks by simp
  obtain i where i: "i < nbrs s" "k = kptr s i" "kidx s k = i" "index_from_key s k = int i" by (rule live_index [OF inv(1) kk])
  let ?s = "snd (nbr_table_remove s t (item_at s t i))"
  let ?b = "push_bit (nt_index (tables s t)) 1 :: u8"
  have e: "?s = s\<lparr>used_map := (used_map s)[i := used_map s ! i AND NOT ?b], locked_map := (locked_map s)[i := locked_map s ! i AND NOT ?b]\<rparr>"
    by (simp add: remove_eq [OF inv i(1)])
  have n: "nbr_inv ?s ks" unfolding e
    using nbr_inv_used(3) [OF nbr_inv_used(2) [OF inv(1)], of i] i(2) kk by simp
  have len: "length (used_map s) = nbrs s" using inv(1) by (simp add: nbr_inv_def)
  have d: "distinct ks" using inv(1) is_list_distinct [of "nbr_heap s" nbr_table_keys ks] by (simp add: nbr_inv_def)
  have n8: "nt_index (tables s t) < 8" using inv(2) by (simp add: table_ok_def MAX_NUM_TABLES_def)
  have same: "in_table ?s t x = (in_table s t x \<and> x \<noteq> k) \<and> kidx ?s x = kidx s x" if x: "x \<in> set ks" for x
  proof -
    obtain j where j: "j < nbrs s" "x = kptr s j" "kidx s x = j" "index_from_key s x = int j" by (rule live_index [OF inv(1) x])
    have "x = k \<longleftrightarrow> j = i" using i j by auto
    then show ?thesis unfolding e using len i(1) j n8
      by (simp add: in_table_def nth_list_update bit_and_iff bit_not_iff bit_exp_iff)
  qed
  have it: "items ?s t xs = items s t (filter (\<lambda>x. x \<noteq> k) xs)" if "set xs \<subseteq> set ks" for xs
    using that same by (induction xs) (auto simp: e)
  have "filter (\<lambda>x. x \<noteq> k) xs = xs" if "k \<notin> set xs" for xs using that by (induction xs) auto
  then have "filter (\<lambda>x. x \<noteq> k) ks = as @ bs" using d ks by simp
  then show ?thesis using it [of ks] n i(3) by simp
qed

text \<open>
  C22. \<open>nbr_table_head\<close> and \<open>nbr_table_next\<close> visit exactly the neighbors a table uses, oldest
  first, and end with \<open>NULL\<close>; each visited item has an address under which the table finds it again,
  an address no neighbor has is not found, and removing a visited item takes it, and
  nothing else, out of the iteration.
\<close>

theorem nbr_table_iteration:
  assumes "nbr_inv s ks" and "table_ok s t"
  shows "nbr_table_head s t = Some (first (items s t ks)) \<and>
    (a \<notin> key_lladdr s ` set ks \<longrightarrow> nbr_table_get_from_lladdr s t (Some a) = Some NULL) \<and>
    (\<forall>xs y ys. items s t ks = xs @ y # ys \<longrightarrow>
      nbr_table_next s t y = Some (first ys) \<and>
      (\<exists>b. nbr_table_get_lladdr s t y = Some b \<and> nbr_table_get_from_lladdr s t (Some b) = Some y) \<and>
      nbr_inv (snd (nbr_table_remove s t y)) ks \<and> items (snd (nbr_table_remove s t y)) t ks = xs @ ys)"
proof (intro conjI allI impI)
  show "nbr_table_head s t = Some (first (items s t ks))" by (rule head_chain [OF assms])
  show "nbr_table_get_from_lladdr s t (Some a) = Some NULL" if "a \<notin> key_lladdr s ` set ks"
    using that by (rule get_from_lladdr_unknown [OF assms(1)])
next
  fix xs y ys assume "items s t ks = xs @ y # ys"
  then obtain as k bs where k: "ks = as @ k # bs" "in_table s t k" "y = item_at s t (kidx s k)" "xs = items s t as" "ys = items s t bs"
    using items_split by blast
  have kk: "k \<in> set ks" using k(1) by simp
  obtain i where i: "i < nbrs s" "k = kptr s i" "kidx s k = i" "index_from_key s k = int i" by (rule live_index [OF assms(1) kk])
  show "nbr_table_next s t y = Some (first ys)" using next_chain [OF assms k(1)] k(3,5) by simp
  have "nbr_table_get_lladdr s t y = Some (key_lladdr s k)"
    using item_from_key_live [OF assms kk] k(1,3) assms(1) is_list_not_null [of "nbr_heap s" nbr_table_keys ks]
    by (simp add: nbr_table_get_lladdr_def nbr_inv_def)
  moreover have "nbr_table_get_from_lladdr s t (Some (key_lladdr s k)) = Some y"
    using get_from_lladdr_eq [OF assms i(1)] i(2,3) kk k(2,3) by (simp add: in_table_def)
  ultimately show "\<exists>b. nbr_table_get_lladdr s t y = Some b \<and> nbr_table_get_from_lladdr s t (Some b) = Some y" by blast
  show "nbr_inv (snd (nbr_table_remove s t y)) ks" "items (snd (nbr_table_remove s t y)) t ks = xs @ ys"
    using items_remove [OF assms k(1)] k(3-5) by simp_all
qed

text \<open>Two neighbors at 100 and 110, the first locked, both used by the table at 7.\<close>

definition two_nbrs :: "unit nbr_sys" where
  "two_nbrs = \<lparr>used_map = [1, 1], locked_map = [1, 0], all_tables = [7, 0, 0, 0, 0, 0, 0, 0], num_tables = 1,
     neighbor_addr_mem = \<lparr>msize = 10, mnum = 2, mcount = [1, 1], mmem = 100, mbytes = []\<rparr>,
     nbr_heap = \<lparr>lhd = (\<lambda>_. 100), lnext = (\<lambda>p. if p = 100 then 110 else 0)\<rparr>,
     key_lladdr = (\<lambda>p. if p = 100 then Linkaddr 0 0 0 0 0 0 0 1 else Linkaddr 0 0 0 0 0 0 0 2),
     tables = (\<lambda>_. \<lparr>nt_index = 0, nt_item_size = 4, nt_callback = NULL, nt_data = 500\<rparr>),
     item_mem = (\<lambda>_. 5), nbr_user = ()\<rparr>"

lemma two_nbrs_inv: "nbr_inv two_nbrs [100, 110]" "table_ok two_nbrs 7"
proof -
  have "memb_live (neighbor_addr_mem two_nbrs) = {100, 110}"
  proof -
    have n: "nbrs two_nbrs = 2" by (simp add: two_nbrs_def)
    have "{i. i < nbrs two_nbrs \<and> mcount (neighbor_addr_mem two_nbrs) ! i \<noteq> 0} = {0, 1}"
      unfolding n by (auto simp: two_nbrs_def less_2_cases_iff)
    moreover have "memb_live (neighbor_addr_mem two_nbrs)
        = kptr two_nbrs ` {i. i < nbrs two_nbrs \<and> mcount (neighbor_addr_mem two_nbrs) ! i \<noteq> 0}"
      by (auto simp: memb_live_def)
    ultimately show ?thesis by (simp add: block_ptr_def) (simp add: two_nbrs_def)
  qed
  moreover have "kptr two_nbrs i \<in> set [100, 110]" if "i < 2" for i
    using that by (auto simp: block_ptr_def two_nbrs_def less_2_cases_iff)
  moreover have "nbrs two_nbrs = 2" by (simp add: two_nbrs_def)
  ultimately show "nbr_inv two_nbrs [100, 110]"
    unfolding nbr_inv_def by (simp add: is_list_def nbr_table_keys_def) (simp add: two_nbrs_def memb_wf_def)
  show "table_ok two_nbrs 7" by (simp add: table_ok_def two_nbrs_def MAX_NUM_TABLES_def)
qed

theorem nbr_add_lladdr_correct_witness:
  "\<exists>item s'. nbr_table_add_lladdr (\<lambda>_ _ s. s) two_nbrs 7 (Some linkaddr_null) = Some (item, s') \<and> item \<noteq> NULL \<and>
    nbr_table_get_from_lladdr s' 7 (Some linkaddr_null) = Some item \<and> nbr_inv s' [100, 110]"
proof -
  have cb: "callbacks_ok (\<lambda>_ _ s :: unit nbr_sys. s)" by (simp add: callbacks_ok_def)
  note add = nbr_add_lladdr_correct [OF two_nbrs_inv cb, of linkaddr_null]
  obtain item s' ks' where r: "nbr_table_add_lladdr (\<lambda>_ _ s. s) two_nbrs 7 (Some linkaddr_null) = Some (item, s')" "nbr_inv s' ks'"
    "item = NULL \<longleftrightarrow> linkaddr_null \<notin> key_lladdr two_nbrs ` set [100, 110] \<and> length [100, 110 :: ptr] = nbrs two_nbrs \<and> unlocked two_nbrs [100, 110] = []"
    "if item = NULL then s' = two_nbrs
     else nbr_table_get_from_lladdr s' 7 (Some linkaddr_null) = Some item \<and>
       (\<forall>j < nt_item_size (tables two_nbrs 7). item_mem s' (item + j) = 0) \<and> add_order two_nbrs [100, 110] linkaddr_null ks' \<and>
       (\<forall>k \<in> set ks'. key_lladdr s' k = linkaddr_null \<or> k \<in> set [100, 110] \<and> key_lladdr s' k = key_lladdr two_nbrs k)"
    using add by (elim exE conjE) (rule that; assumption)
  have u: "unlocked two_nbrs [100, 110] = [110]" by (simp add: unlocked_def two_nbrs_def index_from_key_def signed_divide_int_def)
  have n: "linkaddr_null \<notin> key_lladdr two_nbrs ` set [100, 110]" by (simp add: two_nbrs_def linkaddr_null_def)
  have "unlocked two_nbrs [100, 110] \<noteq> []" unfolding u by simp
  then have i: "item \<noteq> NULL" using r(3) by blast
  then have "add_order two_nbrs [100, 110] linkaddr_null ks'" using r(4) unfolding if_not_P [OF i] by (elim conjE)
  moreover have len: "\<not> length [100, 110 :: ptr] < nbrs two_nbrs" by (simp add: two_nbrs_def)
  ultimately have "\<exists>as v bs. [100, 110] = as @ v # bs \<and> victim two_nbrs as v bs \<and> ks' = as @ bs @ [v]"
    unfolding add_order_def by (simp only: n if_False)
  then obtain as v bs where v: "[100, 110] = as @ v # bs" "victim two_nbrs as v bs" "ks' = as @ bs @ [v]" by blast
  have "locked_map two_nbrs ! kidx two_nbrs v = 0" using v(2) by (simp add: victim_def)
  then have "v \<in> set (unlocked two_nbrs [100, 110])" unfolding v(1) by (simp add: unlocked_def)
  then have "v = 110" unfolding u by simp
  then have "ks' = [100, 110]" using v(1,3) by (simp add: Cons_eq_append_conv)
  moreover have "nbr_table_get_from_lladdr s' 7 (Some linkaddr_null) = Some item" using r(4) unfolding if_not_P [OF i] by (elim conjE)
  ultimately show ?thesis using r(1,2) i by blast
qed

theorem nbr_table_iteration_witness:
  "nbr_table_head two_nbrs 7 = Some 500 \<and> nbr_table_next two_nbrs 7 500 = Some 504 \<and> nbr_table_next two_nbrs 7 504 = Some NULL"
proof -
  have i: "items two_nbrs 7 [100, 110] = [500, 504]"
    by (simp add: items_def in_table_def two_nbrs_def index_from_key_def signed_divide_int_def bit_0)
  note t = nbr_table_iteration [OF two_nbrs_inv, of linkaddr_null]
  have e: "items two_nbrs 7 [100, 110] = [] @ 500 # [504]" "items two_nbrs 7 [100, 110] = [500] @ 504 # []" using i by simp_all
  note n = t [THEN conjunct2, THEN conjunct2, rule_format, OF e(1), THEN conjunct1]
    t [THEN conjunct2, THEN conjunct2, rule_format, OF e(2), THEN conjunct1]
  from t [THEN conjunct1] n show ?thesis unfolding i by (simp only: list.case simp_thms)
qed

end
