(* ===== verification/MacSequence.thy ===== *)
theory MacSequence
  imports Packetbuf
begin

text \<open>
  The duplicate filter of \<open>core/net/mac/mac-sequence.c\<close>: a table of the last sequence
  number of the \<open>MAX_SEQNOS\<close> (16) senders heard most recently, kept in move-to-front
  order. The sender and the packet id of the received packet come from the packet buffer.
\<close>

abbreviation (input) MAX_SEQNOS :: nat where "MAX_SEQNOS \<equiv> 16"

record seqno =
  sn_sender :: linkaddr
  sn_seqno :: u8

text \<open>The search loop, over the entries that are left.\<close>

fun duplicate_scan :: "linkaddr \<Rightarrow> u16 \<Rightarrow> seqno list \<Rightarrow> bool" where
  "duplicate_scan a i [] \<longleftrightarrow> False"
| "duplicate_scan a i (e # es) \<longleftrightarrow>
     (if linkaddr_cmp a (sn_sender e) then i = ucast (sn_seqno e) else duplicate_scan a i es)"

definition mac_sequence_is_duplicate :: "packetbuf \<Rightarrow> seqno list \<Rightarrow> bool" where
  "mac_sequence_is_duplicate pb t =
     duplicate_scan (packetbuf_addr ADDR_SENDER pb) (packetbuf_attr ATTR_PACKET_ID pb) t"

text \<open>The value of \<open>i\<close> after the first loop of the registration.\<close>

fun register_slot :: "linkaddr \<Rightarrow> nat \<Rightarrow> seqno list \<Rightarrow> nat" where
  "register_slot a i [] = i"
| "register_slot a i (e # es) = (if linkaddr_cmp a (sn_sender e) then Suc i else register_slot a (Suc i) es)"

fun shift_loop :: "nat \<Rightarrow> seqno list \<Rightarrow> seqno list" where
  "shift_loop 0 t = t"
| "shift_loop (Suc j) t = shift_loop j (t[Suc j := t ! j])"

definition mac_sequence_register_seqno :: "packetbuf \<Rightarrow> seqno list \<Rightarrow> seqno list" where
  "mac_sequence_register_seqno pb t =
     (let i = register_slot (packetbuf_addr ADDR_SENDER pb) 0 t;
          t = shift_loop (i - 1) t
      in t[0 := \<lparr>sn_sender = packetbuf_addr ADDR_SENDER pb,
                 sn_seqno = ucast (packetbuf_attr ATTR_PACKET_ID pb)\<rparr>])"

definition received_seqnos_init :: "seqno list" where
  "received_seqnos_init = replicate MAX_SEQNOS \<lparr>sn_sender = linkaddr_null, sn_seqno = 0\<rparr>"

section \<open>Move to front\<close>

definition others :: "linkaddr \<Rightarrow> seqno list \<Rightarrow> seqno list" where
  "others a = filter (\<lambda>e. sn_sender e \<noteq> a)"

text \<open>The entry for each sender, most recent first, from a history with the most recent entry first.\<close>

fun recency :: "seqno list \<Rightarrow> seqno list" where
  "recency [] = []"
| "recency (e # h) = e # others (sn_sender e) (recency h)"

lemma shift_loop_eq:
  "j < length t \<Longrightarrow> (shift_loop j t)[0 := e] = e # take j t @ drop (Suc j) t"
proof (induction j arbitrary: t)
  case 0
  then show ?case by (cases t) simp_all
next
  case (Suc j)
  let ?t = "t[Suc j := t ! j]"
  have "(shift_loop (Suc j) t)[0 := e] = e # take j ?t @ drop (Suc j) ?t" using Suc by simp
  also have "drop (Suc j) ?t = t ! j # drop (Suc (Suc j)) t"
    using Suc.prems by (simp add: Cons_nth_drop_Suc [symmetric])
  finally show ?case using Suc.prems by (simp add: take_Suc_conv_app_nth)
qed

lemma register_slot_notin: "a \<notin> sn_sender ` set t \<Longrightarrow> register_slot a i t = i + length t"
  by (induction t arbitrary: i) auto

lemma register_slot_found:
  "a \<notin> sn_sender ` set xs \<Longrightarrow> sn_sender e = a \<Longrightarrow> register_slot a i (xs @ e # ys) = Suc (i + length xs)"
  by (induction xs arbitrary: i) auto

definition entry_of :: "packetbuf \<Rightarrow> seqno" where
  "entry_of pb = \<lparr>sn_sender = packetbuf_addr ADDR_SENDER pb, sn_seqno = ucast (packetbuf_attr ATTR_PACKET_ID pb)\<rparr>"

lemma register_new:
  assumes "sn_sender (entry_of pb) \<notin> sn_sender ` set t" "t \<noteq> []"
  shows "mac_sequence_register_seqno pb t = entry_of pb # butlast t"
proof -
  have "register_slot (packetbuf_addr ADDR_SENDER pb) 0 t = length t"
    using register_slot_notin [of _ t 0] assms(1) by (simp add: entry_of_def)
  then have "mac_sequence_register_seqno pb t = (shift_loop (length t - 1) t)[0 := entry_of pb]"
    by (simp add: mac_sequence_register_seqno_def entry_of_def Let_def)
  also have "\<dots> = entry_of pb # take (length t - 1) t"
    using shift_loop_eq [of "length t - 1" t] assms(2) by simp
  finally show ?thesis by (simp add: butlast_conv_take)
qed

lemma register_known:
  assumes "sn_sender (entry_of pb) \<notin> sn_sender ` set xs" "sn_sender e = sn_sender (entry_of pb)"
  shows "mac_sequence_register_seqno pb (xs @ e # ys) = entry_of pb # xs @ ys"
proof -
  have "register_slot (packetbuf_addr ADDR_SENDER pb) 0 (xs @ e # ys) = Suc (length xs)"
    using register_slot_found [of _ xs e 0 ys] assms by (simp add: entry_of_def)
  then have "mac_sequence_register_seqno pb (xs @ e # ys) = (shift_loop (length xs) (xs @ e # ys))[0 := entry_of pb]"
    by (simp add: mac_sequence_register_seqno_def entry_of_def Let_def)
  then show ?thesis using shift_loop_eq [of "length xs" "xs @ e # ys"] by simp
qed

lemma others_id: "a \<notin> sn_sender ` set t \<Longrightarrow> others a t = t"
  by (auto simp: others_def filter_id_conv)

lemma others_Nil [simp]: "others a [] = []"
  by (simp add: others_def)

lemma others_Cons [simp]: "others a (e # t) = (if sn_sender e = a then others a t else e # others a t)"
  by (simp add: others_def)

lemma others_append [simp]: "others a (xs @ ys) = others a xs @ others a ys"
  by (simp add: others_def)

lemma set_others [simp]: "set (others a t) = {e \<in> set t. sn_sender e \<noteq> a}"
  by (auto simp: others_def)

lemma distinct_recency: "distinct (map sn_sender (recency h))"
  by (induction h) (auto simp: others_def distinct_map_filter)

lemma senders_others: "sn_sender ` set (others a t) = sn_sender ` set t - {a}"
  by auto

lemma senders_recency: "sn_sender ` set (recency h) = sn_sender ` set h"
  by (induction h) (simp_all only: recency.simps list.set(2) image_insert senders_others, auto)

text \<open>The table holds the 16 most recent senders, then unused entries.\<close>

definition table_of :: "seqno list \<Rightarrow> seqno list" where
  "table_of h = take MAX_SEQNOS (recency h @ received_seqnos_init)"

lemma length_table_of [simp]: "length (table_of h) = 16"
  by (simp add: table_of_def received_seqnos_init_def)

lemma table_of_nonempty: "table_of h \<noteq> []"
  using length_table_of [of h] by (intro notI) (simp del: length_table_of)

lemma take_others:
  assumes "distinct (map sn_sender r)" "xs @ e # ys = r" "sn_sender e = a"
  shows "others a r = xs @ ys" "a \<notin> sn_sender ` set xs"
proof -
  have "a \<notin> sn_sender ` set xs" "a \<notin> sn_sender ` set ys"
    using assms by (auto simp: distinct_map)
  then show "others a r = xs @ ys" "a \<notin> sn_sender ` set xs"
    using assms(2,3) by (auto simp: others_id)
qed

text \<open>The unused entries carry the null address; they stay behind every registered entry.\<close>

lemma register_table:
  "mac_sequence_register_seqno pb (table_of h) = table_of (entry_of pb # h)"
proof -
  let ?e = "entry_of pb" and ?r = "recency h" and ?z = received_seqnos_init
  let ?a = "sn_sender ?e"
  have l: "length ?z = 16" by (simp add: received_seqnos_init_def)
  consider (absent) "?a \<notin> sn_sender ` set (table_of h)" | (heard) "?a \<in> sn_sender ` set (take 16 ?r)"
    | (unused) "?a = linkaddr_null" "?a \<notin> sn_sender ` set (take 16 ?r)" "length ?r < 16"
  proof -
    assume *: "?a \<notin> sn_sender ` set (table_of h) \<Longrightarrow> thesis" "?a \<in> sn_sender ` set (take 16 ?r) \<Longrightarrow> thesis"
      "?a = linkaddr_null \<Longrightarrow> ?a \<notin> sn_sender ` set (take 16 ?r) \<Longrightarrow> length ?r < 16 \<Longrightarrow> thesis"
    have t: "table_of h = take 16 ?r @ replicate (16 - length ?r) \<lparr>sn_sender = linkaddr_null, sn_seqno = 0\<rparr>"
      by (simp add: table_of_def received_seqnos_init_def)
    have "?a \<notin> sn_sender ` set (table_of h) \<or> ?a \<in> sn_sender ` set (take 16 ?r) \<or>
        ?a = linkaddr_null \<and> ?a \<notin> sn_sender ` set (take 16 ?r) \<and> length ?r < 16"
      unfolding t by (cases "length ?r < 16") auto
    then show thesis using * by blast
  qed
  then show ?thesis
  proof cases
    case absent
    then have "mac_sequence_register_seqno pb (table_of h) = ?e # butlast (table_of h)"
      by (rule register_new [OF _ table_of_nonempty])
    also have "butlast (table_of h) = take 15 (?r @ ?z)"
      using butlast_take [of 16 "?r @ ?z"] l unfolding table_of_def by simp
    also have "take 15 (?r @ ?z) = take 15 (others ?a ?r @ ?z)"
    proof (cases "?a \<in> sn_sender ` set ?r")
      case True
      then obtain xs e ys where r: "xs @ e # ys = ?r" "sn_sender e = ?a"
        by (metis (no_types, lifting) imageE split_list)
      have "16 \<le> length xs"
      proof (rule ccontr)
        assume "\<not> 16 \<le> length xs"
        then have "e \<in> set (table_of h)" unfolding table_of_def r(1) [symmetric]
          by (simp add: take_Cons' not_le)
        then have "sn_sender e \<in> sn_sender ` set (table_of h)" by (rule imageI)
        then show False using absent r(2) by simp
      qed
      then show ?thesis
        using take_others [OF distinct_recency r] by (simp add: r(1) [symmetric])
    qed (simp add: others_id)
    finally show ?thesis by (simp add: table_of_def)
  next
    case heard
    then obtain xs e ys where x: "take 16 ?r = xs @ e # ys" "sn_sender e = ?a"
      by (metis (no_types, lifting) imageE split_list)
    obtain ws where "take 16 ?r @ ws = ?r" using append_take_drop_id by blast
    then have r: "xs @ e # (ys @ ws) = ?r" unfolding x(1) by simp
    note o = take_others [OF distinct_recency r x(2)]
    have lx: "length xs < 16" using arg_cong [OF x(1), of length] by simp
    have t: "table_of h = xs @ e # take (15 - length xs) (ys @ ws @ ?z)"
      unfolding table_of_def r [symmetric] using lx by (simp add: take_Cons')
    have "mac_sequence_register_seqno pb (table_of h) = ?e # xs @ take (15 - length xs) (ys @ ws @ ?z)"
      unfolding t by (rule register_known) (use o x(2) in auto)
    also have "\<dots> = table_of (?e # h)"
      using lx by (simp add: table_of_def o(1))
    finally show ?thesis .
  next
    case unused
    let ?u = "\<lparr>sn_sender = linkaddr_null, sn_seqno = 0\<rparr>"
    have nr: "?a \<notin> sn_sender ` set ?r" using unused(2,3) by simp
    have "16 - length ?r = Suc (15 - length ?r)" using unused(3) by simp
    then have t: "table_of h = ?r @ ?u # replicate (15 - length ?r) ?u"
      using unused(3) by (simp add: table_of_def received_seqnos_init_def)
    have "mac_sequence_register_seqno pb (table_of h) = ?e # ?r @ replicate (15 - length ?r) ?u"
      unfolding t by (rule register_known [OF nr]) (use unused(1) in simp)
    also have "\<dots> = table_of (?e # h)"
      using unused(3) by (simp add: table_of_def others_id [OF nr] received_seqnos_init_def take_Cons')
    finally show ?thesis .
  qed
qed

section \<open>What counts as a duplicate\<close>

lemma scan_find:
  "duplicate_scan a i t \<longleftrightarrow> (case find (\<lambda>e. sn_sender e = a) t of None \<Rightarrow> False | Some e \<Rightarrow> i = ucast (sn_seqno e))"
  by (induction t) auto

text \<open>The senders heard since the last packet of \<open>a\<close>.\<close>

definition since :: "linkaddr \<Rightarrow> seqno list \<Rightarrow> seqno list" where
  "since a h = takeWhile (\<lambda>e. sn_sender e \<noteq> a) h"

lemma since_others: "b \<noteq> a \<Longrightarrow> since a (others b h) = others b (since a h)"
  by (induction h) (auto simp: since_def)

lemma since_recency: "sn_sender ` set (since a (recency h)) = sn_sender ` set (since a h)"
proof (induction h)
  case (Cons e h)
  show ?case
  proof (cases "sn_sender e = a")
    case False
    then have "sn_sender ` set (since a (recency (e # h))) = insert (sn_sender e) (sn_sender ` set (others (sn_sender e) (since a (recency h))))"
      by (simp add: since_others [symmetric]) (simp add: since_def)
    also have "\<dots> = insert (sn_sender e) (sn_sender ` set (since a (recency h)))" by auto
    also have "\<dots> = sn_sender ` set (since a (e # h))" using Cons False by (simp add: since_def)
    finally show ?thesis .
  qed (simp add: since_def)
qed (simp add: since_def)

lemma length_since_recency: "length (since a (recency h)) = card (sn_sender ` set (since a h))"
proof -
  have "distinct (map sn_sender (since a (recency h)))"
    using distinct_takeWhile [OF distinct_recency [of h], of "\<lambda>b. b \<noteq> a"]
    by (simp add: since_def takeWhile_map comp_def)
  from distinct_card [OF this]
  have "length (since a (recency h)) = card (sn_sender ` set (since a (recency h)))"
    by simp
  then show ?thesis by (simp add: since_recency)
qed

lemma find_recency: "find (\<lambda>e. sn_sender e = a) (recency h) = find (\<lambda>e. sn_sender e = a) h"
proof (induction h)
  case (Cons e h)
  have "find (\<lambda>e. sn_sender e = a) (others b t) = find (\<lambda>e. sn_sender e = a) t" if "b \<noteq> a" for b t
    using that by (induction t) auto
  then show ?case using Cons by auto
qed simp

lemma find_take_since:
  "find (\<lambda>e. sn_sender e = a) (take n t) = (if length (since a t) < n then find (\<lambda>e. sn_sender e = a) t else None)"
proof (induction t arbitrary: n)
  case (Cons e t)
  then show ?case by (cases n) (auto simp: since_def)
qed (simp add: since_def)

lemma find_append: "find P (xs @ ys) = (case find P xs of None \<Rightarrow> find P ys | Some x \<Rightarrow> Some x)"
  by (induction xs) auto

lemma length_recency: "length (recency h) = card (sn_sender ` set h)"
  using distinct_card [OF distinct_recency, of h] senders_recency [of h] by simp

lemma find_unused:
  "find (\<lambda>e. sn_sender e = a) (replicate n \<lparr>sn_sender = linkaddr_null, sn_seqno = 0\<rparr>) =
     (if 0 < n \<and> a = linkaddr_null then Some \<lparr>sn_sender = linkaddr_null, sn_seqno = 0\<rparr> else None)"
  by (induction n) auto

lemma find_table:
  "find (\<lambda>e. sn_sender e = a) (table_of h) =
    (case find (\<lambda>e. sn_sender e = a) h of
       Some e \<Rightarrow> if card (sn_sender ` set (since a h)) < 16 then Some e else None
     | None \<Rightarrow> if a = linkaddr_null \<and> card (sn_sender ` set h) < 16 then Some \<lparr>sn_sender = linkaddr_null, sn_seqno = 0\<rparr> else None)"
proof -
  have t: "find (\<lambda>e. sn_sender e = a) (table_of h) =
    (case find (\<lambda>e. sn_sender e = a) (take 16 (recency h)) of
       None \<Rightarrow> if a = linkaddr_null \<and> length (recency h) < 16 then Some \<lparr>sn_sender = linkaddr_null, sn_seqno = 0\<rparr> else None
     | Some e \<Rightarrow> Some e)"
    by (simp add: table_of_def received_seqnos_init_def find_append find_unused split: option.split)
  have "length (since a (recency h)) \<le> length (recency h)" by (simp add: since_def length_takeWhile_le)
  then have "card (sn_sender ` set (since a h)) \<le> card (sn_sender ` set h)"
    by (simp only: length_since_recency length_recency)
  then show ?thesis unfolding t find_take_since find_recency length_since_recency length_recency
    by (cases "find (\<lambda>e. sn_sender e = a) h") auto
qed

text \<open>Packets are registered in the order of their reception.\<close>

fun register_all :: "packetbuf list \<Rightarrow> seqno list \<Rightarrow> seqno list" where
  "register_all [] t = t"
| "register_all (pb # pbs) t = register_all pbs (mac_sequence_register_seqno pb t)"

lemma register_all_table: "register_all pbs (table_of h) = table_of (rev (map entry_of pbs) @ h)"
  by (induction pbs arbitrary: h) (simp_all add: register_table)

lemma table_of_init: "table_of [] = received_seqnos_init"
  by (simp add: table_of_def received_seqnos_init_def)

text \<open>
  C10. After any reception history, a packet of a sender heard before is reported as a duplicate exactly
  when its packet id equals the last sequence number registered for that sender (kept at eight bits)
  and fewer than sixteen different senders were heard since: no packet with a new number is dropped
  as a duplicate, and a sender is only forgotten after sixteen others. A packet of a sender that was not
  heard before is no duplicate, with one exception: the unused entries of the table, all zero, make a
  packet with id 0 of the null address a duplicate until sixteen senders were heard.
\<close>

theorem mac_sequence_duplicate_iff:
  "mac_sequence_is_duplicate pb (register_all pbs received_seqnos_init) \<longleftrightarrow>
    (case find (\<lambda>q. packetbuf_addr ADDR_SENDER q = packetbuf_addr ADDR_SENDER pb) (rev pbs) of
       None \<Rightarrow> packetbuf_addr ADDR_SENDER pb = linkaddr_null \<and> packetbuf_attr ATTR_PACKET_ID pb = 0 \<and>
         card (packetbuf_addr ADDR_SENDER ` set pbs) < 16
     | Some q \<Rightarrow> packetbuf_attr ATTR_PACKET_ID pb = ucast (ucast (packetbuf_attr ATTR_PACKET_ID q) :: u8) \<and>
         card (packetbuf_addr ADDR_SENDER ` set (takeWhile
           (\<lambda>q. packetbuf_addr ADDR_SENDER q \<noteq> packetbuf_addr ADDR_SENDER pb) (rev pbs))) < 16)"
proof -
  let ?a = "packetbuf_addr ADDR_SENDER pb"
  have t: "register_all pbs received_seqnos_init = table_of (map entry_of (rev pbs))"
    using register_all_table [of pbs "[]"] by (simp add: table_of_init rev_map)
  have s: "sn_sender (entry_of q) = packetbuf_addr ADDR_SENDER q" for q by (simp add: entry_of_def)
  have f: "find (\<lambda>e. sn_sender e = ?a) (map entry_of xs) = map_option entry_of (find (\<lambda>q. packetbuf_addr ADDR_SENDER q = ?a) xs)"
    for xs by (induction xs) (simp_all add: s)
  have w: "since ?a (map entry_of xs) = map entry_of (takeWhile (\<lambda>q. packetbuf_addr ADDR_SENDER q \<noteq> ?a) xs)"
    for xs by (simp add: since_def takeWhile_map comp_def s)
  have i: "sn_sender ` set (map entry_of xs) = packetbuf_addr ADDR_SENDER ` set xs" for xs by (simp add: image_image s)
  show ?thesis
    unfolding mac_sequence_is_duplicate_def scan_find t find_table f w i
    by (auto simp: entry_of_def split: option.splits)
qed

definition packet_of :: "linkaddr \<Rightarrow> u16 \<Rightarrow> packetbuf" where
  "packet_of a i = packetbuf_set_addr ADDR_SENDER a (packetbuf_set_attr ATTR_PACKET_ID i fresh_packetbuf)"

lemma packet_of [simp]: "packetbuf_addr ADDR_SENDER (packet_of a i) = a" "packetbuf_attr ATTR_PACKET_ID (packet_of a i) = i"
  by (simp_all add: packet_of_def packetbuf_addr_def packetbuf_attr_def packetbuf_set_addr_def packetbuf_set_attr_def)

theorem mac_sequence_duplicate_iff_witness:
  "let a = Linkaddr 1 0 0 0 0 0 0 0; b = Linkaddr 2 0 0 0 0 0 0 0;
       t = register_all [packet_of a 5, packet_of b 7] received_seqnos_init
   in mac_sequence_is_duplicate (packet_of a 5) t \<and> \<not> mac_sequence_is_duplicate (packet_of a 7) t \<and>
      mac_sequence_is_duplicate (packet_of linkaddr_null 0) t"
proof -
  let ?a = "Linkaddr 1 0 0 0 0 0 0 0" and ?b = "Linkaddr 2 0 0 0 0 0 0 0"
  let ?h = "[packet_of ?a 5, packet_of ?b 7]"
  have "card {?a, ?b} < 16" by simp
  then show ?thesis
    using mac_sequence_duplicate_iff [of "packet_of ?a 5" ?h] mac_sequence_duplicate_iff [of "packet_of ?a 7" ?h]
      mac_sequence_duplicate_iff [of "packet_of linkaddr_null 0" ?h]
    by (simp add: Let_def linkaddr_null_def del: register_all.simps)
qed

end
