(* ===== verification/AntiReplay.thy ===== *)
theory AntiReplay
  imports Packetbuf
begin

text \<open>
  The replay protection of \<open>core/net/llsec/anti-replay.c\<close>: a 32-bit frame counter
  carried in two packet attributes, and the last accepted counter per
  sender, for broadcasts and for unicasts. The parameter \<open>le\<close> is
  \<open>UIP_BYTE_ORDER == UIP_LITTLE_ENDIAN\<close> (true on the AVR): it selects the definition of
  \<open>LLSEC802154_HTONL\<close> and which half of the counter \<open>u16[0]\<close> of the union is.
\<close>

section \<open>The counter in the packet attributes\<close>

text \<open>On a big-endian machine \<open>UIP_HTONS\<close> is the identity.\<close>

definition LLSEC802154_HTONL :: "bool \<Rightarrow> u32 \<Rightarrow> u32" where
  "LLSEC802154_HTONL le n = (if le then n else push_bit 16 n OR drop_bit 16 n)"

text \<open>The union \<open>frame802154_frame_counter_t\<close>: its two halves, and both together.\<close>

definition fc_u16 :: "bool \<Rightarrow> u32 \<Rightarrow> u16 \<times> u16" where
  "fc_u16 le n = (if le then (ucast n, ucast (drop_bit 16 n)) else (ucast (drop_bit 16 n), ucast n))"

definition fc_u32 :: "bool \<Rightarrow> u16 \<times> u16 \<Rightarrow> u32" where
  "fc_u32 le h = (if le then ucast (fst h) OR push_bit 16 (ucast (snd h)) else push_bit 16 (ucast (fst h)) OR ucast (snd h))"

definition anti_replay_set_counter :: "bool \<Rightarrow> u32 \<Rightarrow> packetbuf \<Rightarrow> u32 \<times> packetbuf" where
  "anti_replay_set_counter le counter pb =
     (let counter = counter + 1;
          reordered = fc_u16 le (LLSEC802154_HTONL le counter)
      in (counter, packetbuf_set_attr ATTR_FRAME_COUNTER_BYTES_2_3 (snd reordered)
            (packetbuf_set_attr ATTR_FRAME_COUNTER_BYTES_0_1 (fst reordered) pb)))"

definition anti_replay_get_counter :: "bool \<Rightarrow> packetbuf \<Rightarrow> u32" where
  "anti_replay_get_counter le pb =
     LLSEC802154_HTONL le (fc_u32 le (packetbuf_attr ATTR_FRAME_COUNTER_BYTES_0_1 pb, packetbuf_attr ATTR_FRAME_COUNTER_BYTES_2_3 pb))"

record anti_replay_info =
  last_broadcast_counter :: u32
  last_unicast_counter :: u32

definition anti_replay_init_info :: "bool \<Rightarrow> packetbuf \<Rightarrow> anti_replay_info" where
  "anti_replay_init_info le pb =
     \<lparr>last_broadcast_counter = anti_replay_get_counter le pb, last_unicast_counter = anti_replay_get_counter le pb\<rparr>"

definition anti_replay_was_replayed :: "bool \<Rightarrow> packetbuf \<Rightarrow> anti_replay_info \<Rightarrow> bool \<times> anti_replay_info" where
  "anti_replay_was_replayed le pb info =
     (let received_counter = anti_replay_get_counter le pb
      in if packetbuf_holds_broadcast pb then
           (if received_counter \<le> last_broadcast_counter info then (True, info)
            else (False, info\<lparr>last_broadcast_counter := received_counter\<rparr>))
         else
           (if received_counter \<le> last_unicast_counter info then (True, info)
            else (False, info\<lparr>last_unicast_counter := received_counter\<rparr>)))"

lemma bit_u32_high [simp]: "32 \<le> n \<Longrightarrow> \<not> bit (w :: u32) n"
  using bit_imp_le_length [of w n] by auto

lemma fc_union: "fc_u32 le (fc_u16 le n) = n"
  by (rule bit_word_eqI) (auto simp: fc_u32_def fc_u16_def bit_simps)

lemma HTONL_involution: "LLSEC802154_HTONL le (LLSEC802154_HTONL le n) = n"
proof (rule bit_word_eqI)
  fix i assume "i < LENGTH(32)"
  then show "bit (LLSEC802154_HTONL le (LLSEC802154_HTONL le n)) i = bit n i"
    by (cases "i < 16") (auto simp: LLSEC802154_HTONL_def bit_simps)
qed

lemma get_set_counter:
  "anti_replay_get_counter le (snd (anti_replay_set_counter le c pb)) = c + 1"
  "fst (anti_replay_set_counter le c pb) = c + 1"
  by (simp_all add: anti_replay_get_counter_def anti_replay_set_counter_def packetbuf_attr_def packetbuf_set_attr_def
      Let_def fc_union HTONL_involution)

section \<open>Receiving\<close>

fun replay_run :: "bool \<Rightarrow> packetbuf list \<Rightarrow> anti_replay_info \<Rightarrow> bool list" where
  "replay_run le [] info = []"
| "replay_run le (pb # pbs) info =
     (case anti_replay_was_replayed le pb info of (replayed, info') \<Rightarrow> (\<not> replayed) # replay_run le pbs info')"

definition last_counter :: "bool \<Rightarrow> anti_replay_info \<Rightarrow> u32" where
  "last_counter broadcast info = (if broadcast then last_broadcast_counter info else last_unicast_counter info)"

definition fresh_for :: "bool \<Rightarrow> packetbuf \<Rightarrow> anti_replay_info \<Rightarrow> bool" where
  "fresh_for le pb info \<longleftrightarrow> last_counter (packetbuf_holds_broadcast pb) info < anti_replay_get_counter le pb"

lemma was_replayed_step:
  assumes "anti_replay_was_replayed le pb info = (r, info')"
  shows "\<not> r \<longleftrightarrow> fresh_for le pb info"
    and "last_counter b info' = (if b = packetbuf_holds_broadcast pb then max (last_counter b info) (anti_replay_get_counter le pb)
      else last_counter b info)"
  using assms
  by (auto simp: anti_replay_was_replayed_def fresh_for_def last_counter_def Let_def max_def split: if_splits)

text \<open>
  C11. The counter a sender puts into a frame is the one the receiver reads, and it
  grows by one per frame. Whatever arrives, in whatever order, a frame is accepted exactly when its
  counter exceeds the stored one of its class (broadcast or unicast) and those of all
  earlier frames of that class: no counter value is accepted twice.
\<close>

theorem anti_replay_accepts_iff:
  assumes "k < length pbs"
  shows "(replay_run le pbs info ! k \<longleftrightarrow> fresh_for le (pbs ! k) info \<and>
     (\<forall>j < k. packetbuf_holds_broadcast (pbs ! j) = packetbuf_holds_broadcast (pbs ! k) \<longrightarrow>
        anti_replay_get_counter le (pbs ! j) < anti_replay_get_counter le (pbs ! k))) \<and>
    anti_replay_get_counter le (snd (anti_replay_set_counter le c pb)) = c + 1 \<and>
    fst (anti_replay_set_counter le c pb) = c + 1"
  using assms
proof (induction pbs arbitrary: info k)
  case (Cons q pbs)
  obtain r info' where w: "anti_replay_was_replayed le q info = (r, info')" by fastforce
  show ?case
  proof (cases k)
    case 0
    then show ?thesis using w was_replayed_step(1) [OF w] get_set_counter by simp
  next
    case (Suc i)
    then have i: "i < length pbs" using Cons.prems by simp
    have "fresh_for le (pbs ! i) info' \<longleftrightarrow> fresh_for le (pbs ! i) info \<and>
        (packetbuf_holds_broadcast q = packetbuf_holds_broadcast (pbs ! i) \<longrightarrow>
          anti_replay_get_counter le q < anti_replay_get_counter le (pbs ! i))"
      using was_replayed_step(2) [OF w, of "packetbuf_holds_broadcast (pbs ! i)"] by (auto simp: fresh_for_def)
    then show ?thesis using Cons.IH [OF i, of info'] Suc w by (auto simp: All_less_Suc2)
  qed
qed simp

definition frame_with :: "u32 \<Rightarrow> packetbuf" where
  "frame_with c = snd (anti_replay_set_counter True c (packetbuf_clear fresh_packetbuf))"

theorem anti_replay_accepts_iff_witness:
  "replay_run True [frame_with 0, frame_with 4, frame_with 2] \<lparr>last_broadcast_counter = 0, last_unicast_counter = 9\<rparr> ! 1 \<and>
   \<not> replay_run True [frame_with 0, frame_with 4, frame_with 2] \<lparr>last_broadcast_counter = 0, last_unicast_counter = 9\<rparr> ! 2"
proof -
  have b: "packetbuf_holds_broadcast (frame_with c)" for c
    by (simp add: frame_with_def anti_replay_set_counter_def Let_def packetbuf_holds_broadcast_def packetbuf_addr_def
        packetbuf_set_attr_def packetbuf_clear_def packetbuf_attr_clear_def)
  have g: "anti_replay_get_counter True (frame_with c) = c + 1" for c by (simp add: frame_with_def get_set_counter)
  let ?l = "[frame_with 0, frame_with 4, frame_with 2]"
  let ?i = "\<lparr>last_broadcast_counter = 0, last_unicast_counter = 9\<rparr>"
  have f: "fresh_for True (frame_with c) ?i \<longleftrightarrow> 0 < c + 1" for c by (simp add: fresh_for_def last_counter_def b g)
  have "1 < length ?l" "2 < length ?l" by simp_all
  note r = conjunct1 [OF anti_replay_accepts_iff [OF this(1), of True ?i]] conjunct1 [OF anti_replay_accepts_iff [OF this(2), of True ?i]]
  have "fresh_for True (?l ! 1) ?i" by (simp add: f)
  moreover have "j = 0" if "j < 1" for j :: nat using that by simp
  moreover have "anti_replay_get_counter True (?l ! 0) < anti_replay_get_counter True (?l ! 1)" by (simp add: g)
  ultimately have 1: "replay_run True ?l ?i ! 1" unfolding r(1) by metis
  have "\<not> anti_replay_get_counter True (?l ! 1) < anti_replay_get_counter True (?l ! 2)" by (simp add: g)
  moreover have "packetbuf_holds_broadcast (?l ! 1) = packetbuf_holds_broadcast (?l ! 2)" by (simp add: b)
  ultimately have "\<not> replay_run True ?l ?i ! 2" unfolding r(2) by (metis one_less_numeral_iff semiring_norm(76))
  with 1 show ?thesis by blast
qed

end
