(* ===== verification/CcmStar.thy ===== *)
theory CcmStar
  imports Packetbuf Aes "HOL-Library.Monad_Syntax"
begin

text \<open>
  The CCM* mode of \<open>core/net/llsec/ccm-star.c\<close>: message integrity codes and the key
  stream for the frame in the packet buffer. The block cipher is the function
  \<open>AES_128.encrypt\<close> of the configured driver, a parameter \<open>E\<close> (with the software driver:
  \<open>encrypt\<close> of AES-128 under its round keys); \<open>enc\<close> is the compile-time
  setting \<open>LLSEC802154_USES_ENCRYPTION\<close>. The code is shown to compute the authentication and the
  encryption of RFC 3610.
\<close>

section \<open>ccm-star.c\<close>

definition CCM_STAR_AUTH_FLAGS :: "u8 \<Rightarrow> u8 \<Rightarrow> u8" where
  "CCM_STAR_AUTH_FLAGS Adata M =
     ucast ((if Adata \<noteq> 0 then push_bit 6 1 else 0) OR push_bit 3 (signed_drop_bit 1 (ucast M - 2)) OR 1 :: u16)"

definition CCM_STAR_ENCRYPTION_FLAGS :: u8 where
  "CCM_STAR_ENCRYPTION_FLAGS = 1"

definition hi8 :: "u16 \<Rightarrow> u8" where "hi8 w = ucast (drop_bit 8 w)"

definition lo8 :: "u16 \<Rightarrow> u8" where "lo8 w = ucast (w AND 0xff)"

definition set_nonce :: "packetbuf \<Rightarrow> u8 \<Rightarrow> u8 list \<Rightarrow> u8 \<Rightarrow> u8 list" where
  "set_nonce p flags ext counter =
     [flags] @ take 8 ext @
     [hi8 (packetbuf_attr ATTR_FRAME_COUNTER_BYTES_2_3 p), lo8 (packetbuf_attr ATTR_FRAME_COUNTER_BYTES_2_3 p),
      hi8 (packetbuf_attr ATTR_FRAME_COUNTER_BYTES_0_1 p), lo8 (packetbuf_attr ATTR_FRAME_COUNTER_BYTES_0_1 p),
      ucast (packetbuf_attr ATTR_SECURITY_LEVEL p), 0, counter]"

text \<open>
  The loops \<open>for(i = off; pos + i - off < len && i < 16; i++) x[i] ^= a[pos + i - off]\<close>,
  with \<open>i\<close> counted from 0 and \<open>n\<close> values of \<open>i\<close> left; \<open>off\<close> is 2 in the first block of \<open>mic\<close>.
\<close>

fun xor_in :: "nat \<Rightarrow> nat \<Rightarrow> nat \<Rightarrow> nat \<Rightarrow> nat \<Rightarrow> u8 list \<Rightarrow> u8 list \<Rightarrow> u8 list" where
  "xor_in off i 0 pos len a x = x"
| "xor_in off i (Suc n) pos len a x =
     (if pos + i < len then xor_in off (Suc i) n pos len a (x[off + i := x ! (off + i) XOR a ! (pos + i)]) else x)"

text \<open>The same loop in \<open>ctr_step\<close>, which writes to the message.\<close>

fun xor_out :: "nat \<Rightarrow> nat \<Rightarrow> nat \<Rightarrow> nat \<Rightarrow> u8 list \<Rightarrow> u8 list \<Rightarrow> u8 list" where
  "xor_out i 0 pos len a m = m"
| "xor_out i (Suc n) pos len a m =
     (if pos + i < len then xor_out (Suc i) n pos len a (m[pos + i := m ! (pos + i) XOR a ! i]) else m)"

definition ctr_step :: "(u8 list \<Rightarrow> u8 list) \<Rightarrow> packetbuf \<Rightarrow> u8 list \<Rightarrow> u8 \<Rightarrow> u8 list \<Rightarrow> u8 \<Rightarrow> u8 \<Rightarrow> u8 list" where
  "ctr_step E p ext pos m m_len counter =
     (let a = E (set_nonce p CCM_STAR_ENCRYPTION_FLAGS ext counter)
      in xor_out 0 AES_128_BLOCK_SIZE (unat pos) (unat m_len) a m)"

text \<open>The loops \<open>while(pos < len)\<close> of \<open>mic\<close>; \<open>pos\<close> is a byte, so a length above 240 would not end.\<close>

partial_function (option) mic_loop :: "(u8 list \<Rightarrow> u8 list) \<Rightarrow> u8 list \<Rightarrow> u8 \<Rightarrow> u8 \<Rightarrow> u8 list \<Rightarrow> u8 list option" where
  "mic_loop E a len pos x =
     (if pos < len then mic_loop E a len (pos + 16) (E (xor_in 0 0 AES_128_BLOCK_SIZE (unat pos) (unat len) a x))
      else Some x)"

definition mic :: "(u8 list \<Rightarrow> u8 list) \<Rightarrow> bool \<Rightarrow> packetbuf \<Rightarrow> u8 list \<Rightarrow> u8 \<Rightarrow> u8 list option" where
  "mic E enc p ext mic_len =
     (let shall_encrypt = enc \<and> packetbuf_attr ATTR_SECURITY_LEVEL p AND 4 \<noteq> 0;
          a_len = (if shall_encrypt then packetbuf_hdrlen p else ucast (packetbuf_totlen p));
          m_len = (if shall_encrypt then ucast (packetbuf_datalen p) else 0);
          x = E (set_nonce p (CCM_STAR_AUTH_FLAGS a_len mic_len) ext m_len);
          a = drop (packetbuf_hdrptr p) (pb_mem p)
      in do {
        x \<leftarrow> (if a_len \<noteq> 0 then
               (let x = x[1 := x ! 1 XOR a_len];
                    x = xor_in 2 0 14 0 (unat a_len) a x
                in mic_loop E a a_len 14 (E x))
             else Some x);
        x \<leftarrow> (if shall_encrypt then mic_loop E (drop (unat a_len) a) m_len 0 x else Some x);
        let x = ctr_step E p ext 0 x 16 0;
        Some (take (unat mic_len) x)
      })"

partial_function (option) ctr_loop ::
    "(u8 list \<Rightarrow> u8 list) \<Rightarrow> packetbuf \<Rightarrow> u8 list \<Rightarrow> u8 \<Rightarrow> u8 \<Rightarrow> u8 \<Rightarrow> u8 list \<Rightarrow> u8 list option" where
  "ctr_loop E p ext m_len pos counter m =
     (if pos < m_len then ctr_loop E p ext m_len (pos + 16) (counter + 1) (ctr_step E p ext pos m m_len counter)
      else Some m)"

text \<open>
  The data of the packet buffer (not a reference) is changed in place. \<open>behind\<close> is the memory behind the
  packet buffer, which a length that does not fit makes \<open>ctr\<close> write to.
\<close>

definition ctr :: "(u8 list \<Rightarrow> u8 list) \<Rightarrow> packetbuf \<Rightarrow> u8 list \<Rightarrow> u8 list \<Rightarrow> (packetbuf \<times> u8 list) option" where
  "ctr E p ext behind =
     (let m_len = ucast (packetbuf_datalen p);
          mem = pb_mem p @ behind
      in do {
        m \<leftarrow> ctr_loop E p ext m_len 0 1 (drop (packetbuf_dataptr p) mem);
        let mem = take (packetbuf_dataptr p) mem @ m;
        Some (p\<lparr>pb_mem := take (length (pb_mem p)) mem\<rparr>, drop (length (pb_mem p)) mem)
      })"

section \<open>RFC 3610\<close>

definition pad_block :: "u8 list \<Rightarrow> u8 list" where
  "pad_block b = b @ replicate (16 - length b) 0"

text \<open>Split into blocks of 16 bytes, the last one padded with zeros.\<close>

fun pad_blocks :: "u8 list \<Rightarrow> u8 list list" where
  "pad_blocks bs = (if bs = [] then [] else pad_block (take 16 bs) # pad_blocks (drop 16 bs))"

declare pad_blocks.simps [simp del]

definition cbc_mac :: "(u8 list \<Rightarrow> u8 list) \<Rightarrow> u8 list list \<Rightarrow> u8 list \<Rightarrow> u8 list" where
  "cbc_mac E bs x = fold (\<lambda>b x. E (map2 (XOR) x b)) bs x"

text \<open>The nonce of IEEE 802.15.4: source address, frame counter and security level; flags and counter around it.\<close>

definition nonce :: "packetbuf \<Rightarrow> u8 list \<Rightarrow> u8 list" where
  "nonce p ext = take 8 ext @
     [hi8 (packetbuf_attr ATTR_FRAME_COUNTER_BYTES_2_3 p), lo8 (packetbuf_attr ATTR_FRAME_COUNTER_BYTES_2_3 p),
      hi8 (packetbuf_attr ATTR_FRAME_COUNTER_BYTES_0_1 p), lo8 (packetbuf_attr ATTR_FRAME_COUNTER_BYTES_0_1 p),
      ucast (packetbuf_attr ATTR_SECURITY_LEVEL p)]"

definition rfc_flags :: "bool \<Rightarrow> nat \<Rightarrow> u8" where
  "rfc_flags adata M = of_nat (64 * (if adata then 1 else 0) + 8 * ((M - 2) div 2) + 1)"

text \<open>The key stream block \<open>S_i\<close>, and the encrypted tag over authenticated data \<open>a\<close> and message \<open>m\<close>.\<close>

definition rfc_s :: "(u8 list \<Rightarrow> u8 list) \<Rightarrow> u8 list \<Rightarrow> nat \<Rightarrow> u8 list" where
  "rfc_s E n i = E ([1] @ n @ [0, of_nat i])"

definition rfc_tag :: "(u8 list \<Rightarrow> u8 list) \<Rightarrow> u8 list \<Rightarrow> nat \<Rightarrow> u8 list \<Rightarrow> u8 list \<Rightarrow> u8 list" where
  "rfc_tag E n M a m =
     (let b0 = [rfc_flags (a \<noteq> []) M] @ n @ [0, of_nat (length m)];
          ablocks = (if a = [] then [] else pad_blocks ([0, of_nat (length a)] @ a))
      in take M (map2 (XOR) (cbc_mac E (ablocks @ pad_blocks m) (E b0)) (rfc_s E n 0)))"

section \<open>The loops process padded blocks\<close>

lemma xor_in_nth:
  assumes "off + i + n = 16" "length x = 16" "len \<le> length a"
  shows "length (xor_in off i n pos len a x) = 16 \<and>
    (\<forall>j < 16. xor_in off i n pos len a x ! j =
       (if off + i \<le> j \<and> pos + (j - off) < len then x ! j XOR a ! (pos + (j - off)) else x ! j))"
  using assms
proof (induction n arbitrary: i x)
  case (Suc n)
  show ?case
  proof (cases "pos + i < len")
    case True
    let ?x = "x[off + i := x ! (off + i) XOR a ! (pos + i)]"
    have "length (xor_in off (Suc i) n pos len a ?x) = 16 \<and>
      (\<forall>j < 16. xor_in off (Suc i) n pos len a ?x ! j =
        (if off + Suc i \<le> j \<and> pos + (j - off) < len then ?x ! j XOR a ! (pos + (j - off)) else ?x ! j))"
      using Suc.prems by (intro Suc.IH) simp_all
    moreover have "?x ! j = (if j = off + i then x ! j XOR a ! (pos + i) else x ! j)" if "j < 16" for j
      using Suc.prems that by (simp add: nth_list_update)
    ultimately show ?thesis using True by auto
  next
    case False
    then show ?thesis using Suc.prems by auto
  qed
qed simp

lemma length_pad_block: "length b \<le> 16 \<Longrightarrow> length (pad_block b) = 16"
  by (simp add: pad_block_def)

lemma xor_in_block:
  assumes "length x = 16" "len \<le> length a" "pos < len"
  shows "xor_in 0 0 16 pos len a x = map2 (XOR) x (pad_block (take 16 (drop pos (take len a))))"
proof (rule nth_equalityI)
  have l: "length (pad_block (take 16 (drop pos (take len a)))) = 16" by (rule length_pad_block) simp
  note x = xor_in_nth [of 0 0 16 x len a pos] 
  show "length (xor_in 0 0 16 pos len a x) = length (map2 (XOR) x (pad_block (take 16 (drop pos (take len a)))))"
    using x assms l by simp
  fix j assume "j < length (xor_in 0 0 16 pos len a x)"
  then have j: "j < 16" using x assms by simp
  have "pad_block (take 16 (drop pos (take len a))) ! j = (if pos + j < len then a ! (pos + j) else 0)"
    using j assms(2,3) by (auto simp: pad_block_def nth_append)
  then show "xor_in 0 0 16 pos len a x ! j = map2 (XOR) x (pad_block (take 16 (drop pos (take len a)))) ! j"
    using x assms l j by simp
qed

lemma mic_loop_blocks:
  assumes E: "\<And>b. length b = 16 \<Longrightarrow> length (E b) = 16" and len: "unat len \<le> length a" "unat len \<le> 240"
    and x: "length x = 16"
  shows "mic_loop E a len pos x = Some (cbc_mac E (pad_blocks (drop (unat pos) (take (unat len) a))) x)"
  using x
proof (induction "unat len - unat pos" arbitrary: pos x rule: less_induct)
  case less
  show ?case
  proof (cases "pos < len")
    case True
    then have lt: "unat pos < unat len" by (simp add: word_less_nat_alt)
    have p16: "unat (pos + 16) = unat pos + 16" using lt len(2) by (simp add: unat_word_ariths)
    let ?d = "drop (unat pos) (take (unat len) a)"
    let ?x = "E (map2 (XOR) x (pad_block (take 16 ?d)))"
    have lx: "length ?x = 16" using less.prems by (intro E) (simp add: length_pad_block)
    have "mic_loop E a len pos x = mic_loop E a len (pos + 16) ?x"
      using True xor_in_block [OF less.prems len(1) lt] by (subst mic_loop.simps) simp
    also have "\<dots> = Some (cbc_mac E (pad_blocks (drop (unat (pos + 16)) (take (unat len) a))) ?x)"
      using lt p16 lx by (intro less.hyps) linarith+
    also have "drop (unat (pos + 16)) (take (unat len) a) = drop 16 ?d" by (simp add: p16 add.commute)
    also have "cbc_mac E (pad_blocks (drop 16 ?d)) ?x = cbc_mac E (pad_blocks ?d) x"
      using lt len(1) by (subst (2) pad_blocks.simps) (simp add: cbc_mac_def)
    finally show ?thesis .
  next
    case False
    then have "drop (unat pos) (take (unat len) a) = []" by (simp add: word_less_nat_alt)
    then show ?thesis using False by (subst mic_loop.simps) (simp add: pad_blocks.simps cbc_mac_def)
  qed
qed

lemma pad_blocks_adata:
  assumes E: "\<And>b. length b = 16 \<Longrightarrow> length (E b) = 16" and len: "unat len \<le> length a" "unat len \<le> 240"
    and x: "length x = 16"
  shows "mic_loop E a len 14 (E (xor_in 2 0 14 0 (unat len) a (x[1 := x ! 1 XOR len])))
    = Some (cbc_mac E (pad_blocks ([0, len] @ take (unat len) a)) x)"
proof -
  let ?x = "x[1 := x ! 1 XOR len]" and ?a = "take (unat len) a"
  let ?b = "pad_block (take 16 ([0, len] @ ?a))"
  have l: "length ?b = 16" by (rule length_pad_block) simp
  note i = xor_in_nth [of 2 0 14 ?x "unat len" a 0]
  have first: "xor_in 2 0 14 0 (unat len) a ?x = map2 (XOR) x ?b"
  proof (rule nth_equalityI)
    show "length (xor_in 2 0 14 0 (unat len) a ?x) = length (map2 (XOR) x ?b)" using i x len l by simp
    fix j assume "j < length (xor_in 2 0 14 0 (unat len) a ?x)"
    then have j: "j < 16" using i x len by simp
    have "?b ! j = (if j = 0 then 0 else if j = 1 then len else if j - 2 < unat len then a ! (j - 2) else 0)"
      using j len(1) by (auto simp: pad_block_def nth_append nth_Cons' take_Cons' numeral_2_eq_2)
    then show "xor_in 2 0 14 0 (unat len) a ?x ! j = map2 (XOR) x ?b ! j"
      using i x len j l by (auto simp: nth_list_update)
  qed
  have lx: "length (E (map2 (XOR) x ?b)) = 16" using x l by (intro E) simp
  have "unat (14 :: u8) = 14" by simp
  then have "mic_loop E a len 14 (E (map2 (XOR) x ?b)) = Some (cbc_mac E (pad_blocks (drop 14 ?a)) (E (map2 (XOR) x ?b)))"
    using mic_loop_blocks [where E = E and len = len and a = a and pos = 14, OF E len lx] by simp
  also have "drop 14 ?a = drop 16 ([0, len] @ ?a)" by simp
  also have "cbc_mac E (pad_blocks (drop 16 ([0, len] @ ?a))) (E (map2 (XOR) x ?b)) = cbc_mac E (pad_blocks ([0, len] @ ?a)) x"
    by (subst (2) pad_blocks.simps) (simp add: cbc_mac_def)
  finally show ?thesis unfolding first .
qed

lemma length_cbc_mac:
  assumes E: "\<And>b. length b = 16 \<Longrightarrow> length (E b) = 16"
  shows "length x = 16 \<Longrightarrow> \<forall>b \<in> set bs. length b = 16 \<Longrightarrow> length (cbc_mac E bs x) = 16"
  unfolding cbc_mac_def by (induction bs arbitrary: x) (simp_all add: E)

lemma length_pad_blocks: "\<forall>b \<in> set (pad_blocks bs). length b = 16"
proof (induction bs rule: pad_blocks.induct)
  case (1 bs)
  then show ?case by (subst pad_blocks.simps) (auto simp: length_pad_block)
qed

lemma pad_blocks_Nil: "pad_blocks [] = []"
  by (simp add: pad_blocks.simps)

lemma cbc_mac_append: "cbc_mac E (xs @ ys) x = cbc_mac E ys (cbc_mac E xs x)"
  by (simp add: cbc_mac_def)

lemma xor_out_nth:
  assumes "pos + i + n \<le> pos + 16" "len \<le> length m"
  shows "length (xor_out i n pos len a m) = length m \<and>
    (\<forall>j < length m. xor_out i n pos len a m ! j =
       (if pos + i \<le> j \<and> j < pos + i + n \<and> j < len then m ! j XOR a ! (j - pos) else m ! j))"
  using assms
proof (induction n arbitrary: i m)
  case (Suc n)
  show ?case
  proof (cases "pos + i < len")
    case True
    let ?m = "m[pos + i := m ! (pos + i) XOR a ! i]"
    have "length (xor_out (Suc i) n pos len a ?m) = length ?m \<and>
      (\<forall>j < length ?m. xor_out (Suc i) n pos len a ?m ! j =
        (if pos + Suc i \<le> j \<and> j < pos + Suc i + n \<and> j < len then ?m ! j XOR a ! (j - pos) else ?m ! j))"
      using Suc.prems by (intro Suc.IH) simp_all
    moreover have "?m ! j = (if j = pos + i then m ! j XOR a ! i else m ! j)" if "j < length m" for j
      using that by (simp add: nth_list_update)
    ultimately show ?thesis using True by auto
  next
    case False
    then show ?thesis by auto
  qed
qed auto

lemma set_nonce_eq: "set_nonce p f ext c = [f] @ nonce p ext @ [0, c]"
  by (simp add: set_nonce_def nonce_def)

lemma ctr_step_eq:
  assumes "length x = 16" "length (rfc_s E (nonce p ext) 0) = 16"
  shows "ctr_step E p ext 0 x 16 0 = map2 (XOR) x (rfc_s E (nonce p ext) 0)"
proof -
  have e: "E (set_nonce p CCM_STAR_ENCRYPTION_FLAGS ext 0) = rfc_s E (nonce p ext) 0"
    by (simp add: set_nonce_eq rfc_s_def CCM_STAR_ENCRYPTION_FLAGS_def)
  show ?thesis unfolding ctr_step_def e Let_def
    using xor_out_nth [of 0 0 16 16 x "rfc_s E (nonce p ext) 0"] assms by (intro nth_equalityI) simp_all
qed

lemma auth_flags_table:
  "list_all (\<lambda>M. CCM_STAR_AUTH_FLAGS 0 (of_nat M) = rfc_flags False M \<and> CCM_STAR_AUTH_FLAGS 1 (of_nat M) = rfc_flags True M) [2..<17]"
  by code_simp

lemma auth_flags:
  assumes "2 \<le> unat M" "unat M \<le> 16"
  shows "CCM_STAR_AUTH_FLAGS a M = rfc_flags (a \<noteq> 0) (unat M)"
proof -
  have "unat M \<in> set [2..<17]" unfolding set_upt using assms by simp
  then have "CCM_STAR_AUTH_FLAGS 0 (of_nat (unat M)) = rfc_flags False (unat M) \<and> CCM_STAR_AUTH_FLAGS 1 (of_nat (unat M)) = rfc_flags True (unat M)"
    using auth_flags_table unfolding list_all_iff by blast
  moreover have "CCM_STAR_AUTH_FLAGS a M = CCM_STAR_AUTH_FLAGS 1 M" if "a \<noteq> 0" using that by (simp add: CCM_STAR_AUTH_FLAGS_def)
  ultimately show ?thesis by (cases "a = 0") simp_all
qed

section \<open>Integrity and encryption of a frame\<close>

text \<open>
  A frame as \<open>ccm-star.c\<close> finds it: the header right before the data, either freshly built (no data consumed)
  or received and parsed (header consumed from the data).
\<close>

definition frame_layout :: "packetbuf \<Rightarrow> bool" where
  "frame_layout p \<longleftrightarrow> pb_wf p \<and> pb_ref p = None \<and> (pb_hdrptr p = 48 \<or> pb_bufptr p = 0)"

definition frame_hdr :: "packetbuf \<Rightarrow> u8 list" where
  "frame_hdr p = take (unat (packetbuf_hdrlen p)) (drop (packetbuf_hdrptr p) (pb_mem p))"

lemma frame_split:
  assumes "frame_layout p"
  shows "packetbuf_dataptr p = packetbuf_hdrptr p + unat (packetbuf_hdrlen p)"
    and "drop (packetbuf_hdrptr p) (pb_mem p) = frame_hdr p @ drop (packetbuf_dataptr p) (pb_mem p)"
    and "data_bytes p = take (unat (pb_buflen p)) (drop (packetbuf_dataptr p) (pb_mem p))"
    and "length (frame_hdr p) = unat (packetbuf_hdrlen p)" "length (data_bytes p) = unat (pb_buflen p)"
    and "unat (packetbuf_hdrlen p) + unat (pb_buflen p) \<le> 176" "unat (pb_buflen p) \<le> 128"
    and "length (pb_mem p) = 176" "packetbuf_dataptr p + unat (pb_buflen p) \<le> 176"
proof -
  have wf: "pb_wf p" "pb_ref p = None" using assms by (simp_all add: frame_layout_def)
  have m: "length (pb_mem p) = 176" "unat (pb_hdrptr p) \<le> 48" "unat (pb_bufptr p) + unat (pb_buflen p) \<le> 128"
    using wf by (simp_all add: pb_wf_def)
  have u: "unat (48 - pb_hdrptr p) = 48 - unat (pb_hdrptr p)" using m(2) by (simp add: unat_sub_if')
  have "unat (packetbuf_hdrlen p) = 48 - unat (pb_hdrptr p) + unat (pb_bufptr p)"
  proof (cases "pb_hdrptr p = 48")
    case True
    then show ?thesis using m(3) by (simp add: packetbuf_hdrlen_def unat_ucast_u16_u8)
  next
    case False
    then have b: "pb_bufptr p = 0" using assms by (simp add: frame_layout_def)
    have "48 - pb_hdrptr p \<noteq> 0" using False by auto
    then show ?thesis using u b by (simp add: packetbuf_hdrlen_def Let_def)
  qed
  then have h: "packetbuf_hdrptr p + unat (packetbuf_hdrlen p) = packetbuf_dataptr p"
    using m(2) by (simp add: packetbuf_hdrptr_def packetbuf_dataptr_def)
  then show "packetbuf_dataptr p = packetbuf_hdrptr p + unat (packetbuf_hdrlen p)" ..
  have dd: "drop (packetbuf_hdrptr p + unat (packetbuf_hdrlen p)) (pb_mem p) = drop (unat (packetbuf_hdrlen p)) (drop (packetbuf_hdrptr p) (pb_mem p))"
    by (simp add: add.commute)
  show "drop (packetbuf_hdrptr p) (pb_mem p) = frame_hdr p @ drop (packetbuf_dataptr p) (pb_mem p)"
    unfolding h [symmetric] frame_hdr_def dd by (rule append_take_drop_id [symmetric])
  show d: "data_bytes p = take (unat (pb_buflen p)) (drop (packetbuf_dataptr p) (pb_mem p))"
    using wf(2) by (simp add: data_bytes_def packetbuf_dataptr_def add.commute)
  show "unat (packetbuf_hdrlen p) + unat (pb_buflen p) \<le> 176" "unat (pb_buflen p) \<le> 128"
    "length (pb_mem p) = 176" "packetbuf_dataptr p + unat (pb_buflen p) \<le> 176"
    using h m by (simp_all add: packetbuf_hdrptr_def packetbuf_dataptr_def)
  show "length (frame_hdr p) = unat (packetbuf_hdrlen p)" "length (data_bytes p) = unat (pb_buflen p)"
    using h m length_data_bytes [OF wf(1)] by (simp_all add: frame_hdr_def packetbuf_hdrptr_def packetbuf_dataptr_def)
qed

text \<open>
  The bytes that \<open>mic\<close> authenticates and those it also encrypts, with the lengths it computes for them.
\<close>

definition mic_enc :: "bool \<Rightarrow> packetbuf \<Rightarrow> bool" where
  "mic_enc enc p \<longleftrightarrow> enc \<and> packetbuf_attr ATTR_SECURITY_LEVEL p AND 4 \<noteq> 0"

definition mic_adata :: "bool \<Rightarrow> packetbuf \<Rightarrow> u8 list" where
  "mic_adata enc p = (if mic_enc enc p then frame_hdr p else frame_hdr p @ data_bytes p)"

definition mic_mdata :: "bool \<Rightarrow> packetbuf \<Rightarrow> u8 list" where
  "mic_mdata enc p = (if mic_enc enc p then data_bytes p else [])"

lemma mic_lengths:
  fixes p enc
  defines "al \<equiv> if mic_enc enc p then packetbuf_hdrlen p else ucast (packetbuf_totlen p)"
    and "ml \<equiv> if mic_enc enc p then ucast (packetbuf_datalen p) else 0 :: u8"
    and "a \<equiv> drop (packetbuf_hdrptr p) (pb_mem p)"
  assumes "frame_layout p"
  shows "unat al = length (mic_adata enc p)" "unat ml = length (mic_mdata enc p)"
    and "length (mic_adata enc p) \<le> 240" "length (mic_mdata enc p) \<le> 240"
    and "take (unat al) a = mic_adata enc p" "unat al \<le> length a"
    and "take (unat ml) (drop (unat al) a) = mic_mdata enc p" "unat ml \<le> length (drop (unat al) a)"
proof -
  note fs = frame_split [OF assms(4)]
  have tot: "unat (packetbuf_totlen p) = unat (packetbuf_hdrlen p) + unat (pb_buflen p)"
    using fs(6) by (simp add: packetbuf_totlen_def packetbuf_datalen_def unat_word_ariths)
  show l: "unat al = length (mic_adata enc p)" "unat ml = length (mic_mdata enc p)"
    "length (mic_adata enc p) \<le> 240" "length (mic_mdata enc p) \<le> 240"
    using fs(4-7) tot by (simp_all add: al_def ml_def mic_adata_def mic_mdata_def unat_ucast_u16_u8 packetbuf_datalen_def)
  have dl: "unat (pb_buflen p) \<le> length (drop (packetbuf_dataptr p) (pb_mem p))" using fs(8,9) by simp
  have td: "take (length (data_bytes p)) (drop (packetbuf_dataptr p) (pb_mem p)) = data_bytes p"
    unfolding fs(5) using fs(3) by simp
  have a: "a = frame_hdr p @ drop (packetbuf_dataptr p) (pb_mem p)" unfolding a_def by (rule fs(2))
  show "take (unat al) a = mic_adata enc p" unfolding l(1) a using td by (simp add: mic_adata_def del: take_take)
  show "unat al \<le> length a" unfolding l(1) a length_append using dl fs(5)
    by (cases "mic_enc enc p") (simp_all only: mic_adata_def if_True if_False length_append le_add1 add_le_cancel_left)
  show "take (unat ml) (drop (unat al) a) = mic_mdata enc p" "unat ml \<le> length (drop (unat al) a)"
    unfolding l(1,2) a using td fs(5) dl by (cases "mic_enc enc p"; simp add: mic_adata_def mic_mdata_def)+
qed

lemma mic_eq:
  assumes E: "\<And>b. length b = 16 \<Longrightarrow> length (E b) = 16" and "frame_layout p" and "length ext = 8"
    and "2 \<le> unat M" and "unat M \<le> 16"
  shows "mic E enc p ext M = Some (rfc_tag E (nonce p ext) (unat M) (mic_adata enc p) (mic_mdata enc p))"
proof -
  let ?sec = "mic_enc enc p" and ?n = "nonce p ext" and ?aa = "mic_adata enc p" and ?mm = "mic_mdata enc p"
  define al where "al = (if ?sec then packetbuf_hdrlen p else ucast (packetbuf_totlen p))"
  define ml where "ml = (if ?sec then ucast (packetbuf_datalen p) else 0 :: u8)"
  define a where "a = drop (packetbuf_hdrptr p) (pb_mem p)"
  note l = mic_lengths [OF assms(2), of enc, folded al_def ml_def a_def]
  have ln: "length ?n = 13" using assms(3) by (simp add: nonce_def)
  define b0 where "b0 = [rfc_flags (?aa \<noteq> []) (unat M)] @ ?n @ [0, of_nat (length ?mm)]"
  have z: "al \<noteq> 0 \<longleftrightarrow> ?aa \<noteq> []" using l(1) by (auto simp: unat_eq_0)
  have mw: "of_nat (length ?mm) = ml" "of_nat (length ?aa) = al" unfolding l(1,2) [symmetric] by simp_all
  have b0: "set_nonce p (CCM_STAR_AUTH_FLAGS al M) ext ml = b0"
    by (simp add: set_nonce_eq auth_flags [OF assms(4,5)] b0_def z mw)
  have l0: "length (E b0) = 16" using ln by (intro E) (simp add: b0_def)
  have ls: "length (rfc_s E ?n 0) = 16" unfolding rfc_s_def using ln by (intro E) simp
  define x1 where "x1 = cbc_mac E (if ?aa = [] then [] else pad_blocks ([0, al] @ ?aa)) (E b0)"
  have l1: "length x1 = 16" unfolding x1_def by (rule length_cbc_mac [OF E l0]) (auto dest: length_pad_blocks [rule_format])
  have 1: "(if al \<noteq> 0 then
       (let x = (E b0)[1 := E b0 ! 1 XOR al]; x = xor_in 2 0 14 0 (unat al) a x in mic_loop E a al 14 (E x))
     else Some (E b0)) = Some x1"
    using pad_blocks_adata [where E = E and len = al and a = a, OF E l(6) _ l0] l(1,3,5)
    by (simp add: x1_def z cbc_mac_def Let_def)
  have "unat ml \<le> 240" using l(2,4) by simp
  note 2 = mic_loop_blocks [where E = E and a = "drop (unat al) a" and pos = 0, OF E l(8) this l1]
  have 2: "(if ?sec then mic_loop E (drop (unat al) a) ml 0 x1 else Some x1) = Some (cbc_mac E (pad_blocks ?mm) x1)"
    using 2 l(7) by (cases ?sec) (simp_all add: mic_mdata_def pad_blocks_Nil cbc_mac_def)
  have l2: "length (cbc_mac E (pad_blocks ?mm) x1) = 16"
    by (rule length_cbc_mac [OF E l1]) (auto dest: length_pad_blocks [rule_format])
  have "mic E enc p ext M = Some (take (unat M) (ctr_step E p ext 0 (cbc_mac E (pad_blocks ?mm) x1) 16 0))"
    unfolding mic_def Let_def mic_enc_def [symmetric] al_def [symmetric] ml_def [symmetric] a_def [symmetric] b0 1 [unfolded Let_def]
    by (simp only: bind.simps 2)
  then show ?thesis unfolding ctr_step_eq [OF l2 ls] unfolding rfc_tag_def Let_def x1_def b0_def mw cbc_mac_append .
qed

text \<open>
  What the code relies on of the driver \<open>AES_128\<close>: it encrypts a block of 16 bytes in place. The software driver
  is shown to be one in the theory of the security driver.
\<close>

locale aes_driver =
  fixes E :: "u8 list \<Rightarrow> u8 list"
  assumes block: "length b = 16 \<Longrightarrow> length (E b) = 16"
begin

lemma mic_cipher:
  assumes "frame_layout p" "length ext = 8" "2 \<le> unat M" "unat M \<le> 16"
  shows "mic E enc p ext M = Some (rfc_tag E (nonce p ext) (unat M) (mic_adata enc p) (mic_mdata enc p))"
  using block assms by (rule mic_eq)

lemma length_cbc_blocks:
  assumes "length n = 13" "\<forall>b \<in> set xs. length b = 16"
  shows "length (cbc_mac E (xs @ pad_blocks m) (E ([f] @ n @ [0, l]))) = 16"
  using assms length_pad_blocks [of m] by (intro length_cbc_mac [OF block] block) auto

lemma length_rfc_tag:
  assumes "length n = 13" "M \<le> 16"
  shows "length (rfc_tag E n M a m) = M"
proof -
  have "length (rfc_s E n 0) = 16" unfolding rfc_s_def using assms(1) by (intro block) simp
  then show ?thesis
    using assms unfolding rfc_tag_def Let_def length_take length_map length_zip
    by (subst length_cbc_blocks) (auto simp: length_pad_blocks)
qed

end

text \<open>
  C24. For every block cipher and every frame, \<open>mic\<close> returns the encrypted authentication tag of RFC 3610 over the
  nonce of IEEE 802.15.4: the header authenticated and the data encrypted when the security level asks for encryption,
  header and data authenticated otherwise.
\<close>

theorem mic_is_rfc_3610:
  assumes "aes_driver E" and "frame_layout p" and "length ext = 8"
    and "2 \<le> unat M" and "unat M \<le> 16"
  shows "mic E enc p ext M = Some
    (if enc \<and> packetbuf_attr ATTR_SECURITY_LEVEL p AND 4 \<noteq> 0
     then rfc_tag E (nonce p ext) (unat M) (frame_hdr p) (data_bytes p)
     else rfc_tag E (nonce p ext) (unat M) (frame_hdr p @ data_bytes p) [])"
  using aes_driver.mic_cipher [OF assms] by (simp add: mic_adata_def mic_mdata_def mic_enc_def)

text \<open>The key stream: byte \<open>j\<close> of the message is combined with byte \<open>j mod 16\<close> of block \<open>1 + j div 16\<close>.\<close>

definition keystream :: "(u8 list \<Rightarrow> u8 list) \<Rightarrow> u8 list \<Rightarrow> nat \<Rightarrow> u8" where
  "keystream E n j = rfc_s E n (1 + j div 16) ! (j mod 16)"

lemma ctr_step_nth:
  assumes c: "unat pos = 16 * k" and m: "unat len \<le> length m"
  shows "length (ctr_step E p ext pos m len (of_nat (1 + k))) = length m \<and>
    (\<forall>j < length m. ctr_step E p ext pos m len (of_nat (1 + k)) ! j =
       (if 16 * k \<le> j \<and> j < 16 * k + 16 \<and> j < unat len then m ! j XOR keystream E (nonce p ext) j else m ! j))"
proof -
  have e: "E (set_nonce p CCM_STAR_ENCRYPTION_FLAGS ext (of_nat (1 + k))) = rfc_s E (nonce p ext) (1 + k)"
    by (simp add: set_nonce_eq rfc_s_def CCM_STAR_ENCRYPTION_FLAGS_def)
  have "j div 16 = k \<and> j mod 16 = j - 16 * k" if "16 * k \<le> j" "j < 16 * k + 16" for j
  proof -
    have d: "j div 16 = k" using that by (intro div_nat_eqI) simp_all
    then show ?thesis using minus_mult_div_eq_mod [of j 16] by simp
  qed
  then have ks: "keystream E (nonce p ext) j = rfc_s E (nonce p ext) (1 + k) ! (j - 16 * k)" if "16 * k \<le> j" "j < 16 * k + 16" for j
    using that by (simp add: keystream_def)
  show ?thesis unfolding ctr_step_def e Let_def c
    using xor_out_nth [of "16 * k" 0 16 "unat len" m "rfc_s E (nonce p ext) (1 + k)"] m ks by simp
qed

lemma ctr_loop_nth:
  assumes "unat pos = 16 * k" "unat len \<le> length m" "unat len \<le> 240"
  shows "\<exists>m'. ctr_loop E p ext len pos (of_nat (1 + k)) m = Some m' \<and> length m' = length m \<and>
    (\<forall>j < length m. m' ! j = (if 16 * k \<le> j \<and> j < unat len then m ! j XOR keystream E (nonce p ext) j else m ! j))"
  using assms
proof (induction "unat len - unat pos" arbitrary: pos k m rule: less_induct)
  case less
  show ?case
  proof (cases "pos < len")
    case True
    then have lt: "16 * k < unat len" using less.prems(1) by (simp add: word_less_nat_alt)
    have p16: "unat (pos + 16) = 16 * Suc k" using lt less.prems(1,3) by (simp add: unat_word_ariths)
    define m1 where "m1 = ctr_step E p ext pos m len (of_nat (1 + k))"
    have m1: "length m1 = length m" "\<And>j. j < length m \<Longrightarrow> m1 ! j =
       (if 16 * k \<le> j \<and> j < 16 * k + 16 \<and> j < unat len then m ! j XOR keystream E (nonce p ext) j else m ! j)"
      using ctr_step_nth [OF less.prems(1,2), of E p ext] by (simp_all add: m1_def)
    have less: "unat len - unat (pos + 16) < unat len - unat pos" using p16 less.prems(1) lt by simp
    obtain m' where m': "ctr_loop E p ext len (pos + 16) (of_nat (1 + Suc k)) m1 = Some m'" "length m' = length m1"
      "\<And>j. j < length m1 \<Longrightarrow> m' ! j = (if 16 * Suc k \<le> j \<and> j < unat len then m1 ! j XOR keystream E (nonce p ext) j else m1 ! j)"
      using less.hyps [OF less p16, of m1] less.prems(2,3) m1(1) by auto
    have "ctr_loop E p ext len pos (of_nat (1 + k)) m = Some m'"
      using True m'(1) by (subst ctr_loop.simps) (simp add: m1_def add.commute)
    moreover have "m' ! j = (if 16 * k \<le> j \<and> j < unat len then m ! j XOR keystream E (nonce p ext) j else m ! j)"
      if "j < length m" for j using m'(3) [of j] m1 that by auto
    ultimately show ?thesis using m'(2) m1(1) by auto
  next
    case False
    then show ?thesis using less.prems(1) by (subst ctr_loop.simps) (auto simp: word_less_nat_alt)
  qed
qed

lemma ctr_view:
  assumes "frame_layout p"
  shows "\<exists>d. ctr E p ext behind =
      Some (p\<lparr>pb_mem := take (packetbuf_dataptr p) (pb_mem p) @ d @ drop (packetbuf_dataptr p + length (data_bytes p)) (pb_mem p)\<rparr>, behind) \<and>
    length d = length (data_bytes p) \<and> (\<forall>j < length d. d ! j = data_bytes p ! j XOR keystream E (nonce p ext) j)"
proof -
  note fs = frame_split [OF assms]
  let ?q = "packetbuf_dataptr p" and ?n = "length (data_bytes p)"
  let ?m = "drop ?q (pb_mem p) @ behind"
  have m: "drop ?q (pb_mem p @ behind) = ?m" "take ?q (pb_mem p @ behind) = take ?q (pb_mem p)" using fs(8,9) by simp_all
  have len: "unat (ucast (packetbuf_datalen p) :: u8) = ?n" using fs(5,7) by (simp add: packetbuf_datalen_def unat_ucast_u16_u8)
  have lm: "?n \<le> length (drop ?q (pb_mem p))" using fs(5,8,9) by simp
  then have lm': "?n \<le> length ?m" by simp
  obtain m' where m': "ctr_loop E p ext (ucast (packetbuf_datalen p)) 0 1 ?m = Some m'" "length m' = length ?m"
    "\<And>j. j < length ?m \<Longrightarrow> m' ! j = (if j < ?n then ?m ! j XOR keystream E (nonce p ext) j else ?m ! j)"
    using ctr_loop_nth [of 0 0 "ucast (packetbuf_datalen p)" ?m E p ext] len lm' fs(5,7) by auto
  define d where "d = take ?n m'"
  have dn: "length d = ?n" using m'(2) lm' by (simp add: d_def)
  have "drop ?n m' = drop ?n ?m"
    using m'(2,3) by (intro nth_equalityI) (simp_all only: length_drop nth_drop le_add1 not_less if_not_P lm' add_leD1 trans_less_add1 less_diff_conv add.commute)
  also have "drop ?n ?m = drop (?q + ?n) (pb_mem p) @ behind" using lm by (simp add: add.commute)
  finally have split: "m' = d @ drop (?q + ?n) (pb_mem p) @ behind" unfolding d_def by (metis append_take_drop_id)
  have db: "data_bytes p = take ?n (drop ?q (pb_mem p))" using fs(3,5) by simp
  have "d ! j = data_bytes p ! j XOR keystream E (nonce p ext) j" if "j < length d" for j
  proof -
    have "data_bytes p ! j = ?m ! j" using that dn lm by (subst db) (simp add: nth_append)
    then show ?thesis using m'(3) [of j] that dn lm' by (simp add: d_def)
  qed
  moreover have l: "length (take ?q (pb_mem p) @ d @ drop (?q + ?n) (pb_mem p)) = length (pb_mem p)" using dn fs(5,8,9) by simp
  have "ctr E p ext behind = Some (p\<lparr>pb_mem := take ?q (pb_mem p) @ d @ drop (?q + ?n) (pb_mem p)\<rparr>, behind)"
  proof -
    have "take ?q (pb_mem p) @ m' = (take ?q (pb_mem p) @ d @ drop (?q + ?n) (pb_mem p)) @ behind" unfolding split by simp
    then have "take (length (pb_mem p)) (take ?q (pb_mem p) @ m') = take ?q (pb_mem p) @ d @ drop (?q + ?n) (pb_mem p)"
      "drop (length (pb_mem p)) (take ?q (pb_mem p) @ m') = behind" using l append_eq_conv_conj by metis+
    then show ?thesis unfolding ctr_def Let_def m m'(1) bind.simps by simp
  qed
  ultimately show ?thesis using dn by blast
qed

text \<open>What the code reads of the buffer besides the data is unchanged.\<close>

lemma frame_data_upd:
  assumes "frame_layout p" "length d = length (data_bytes p)"
    and p': "p' = p\<lparr>pb_mem := take (packetbuf_dataptr p) (pb_mem p) @ d @ drop (packetbuf_dataptr p + length (data_bytes p)) (pb_mem p)\<rparr>"
  shows "frame_layout p' \<and> data_bytes p' = d \<and> frame_hdr p' = frame_hdr p \<and> nonce p' ext = nonce p ext \<and>
    packetbuf_dataptr p' = packetbuf_dataptr p \<and>
    drop (packetbuf_dataptr p + length d) (pb_mem p') = drop (packetbuf_dataptr p + length d) (pb_mem p)"
proof -
  note fs = frame_split [OF assms(1)]
  have s: "packetbuf_dataptr p' = packetbuf_dataptr p" "packetbuf_hdrptr p' = packetbuf_hdrptr p" "packetbuf_hdrlen p' = packetbuf_hdrlen p"
    "pb_buflen p' = pb_buflen p"
    by (simp_all add: p' packetbuf_dataptr_def packetbuf_hdrptr_def packetbuf_hdrlen_def)
  have dl: "packetbuf_dataptr p \<le> 176" using fs(9) by simp
  have lm: "length (pb_mem p') = 176" using fs(5,8,9) assms(2) by (simp add: p')
  have fl: "frame_layout p'" using assms(1) lm fs(8) by (auto simp: frame_layout_def pb_wf_def p')
  have "data_bytes p' = take (unat (pb_buflen p)) (drop (packetbuf_dataptr p) (pb_mem p'))"
    using frame_split(3) [OF fl] s by simp
  also have "\<dots> = d" using fs(5,8,9) assms(2) by (simp add: p')
  finally have "data_bytes p' = d" .
  moreover have "frame_hdr p' = frame_hdr p"
  proof -
    obtain r where r: "pb_mem p' = take (packetbuf_hdrptr p + unat (packetbuf_hdrlen p)) (pb_mem p) @ r"
      by (simp add: p' fs(1) [symmetric])
    show ?thesis unfolding frame_hdr_def s r using fs(1,8) dl by (simp add: drop_take)
  qed
  moreover have "nonce p' ext = nonce p ext" by (simp add: nonce_def packetbuf_attr_def p')
  ultimately show ?thesis using fl s fs(5,8,9) assms(2) by (simp add: p')
qed

text \<open>
  C25. For every block cipher and every frame, \<open>ctr\<close> combines every byte of the data with the key stream of RFC 3610
  and undoes itself: what the sender encrypts, the receiver decrypts. Nothing else changes: in the packet buffer neither the
  bytes before the data nor those behind it (where the tag is), nor lengths, attributes and addresses; and no memory behind
  the packet buffer.
\<close>

theorem ctr_roundtrip:
  fixes E :: "u8 list \<Rightarrow> u8 list" and p :: packetbuf and ext :: "u8 list"
  assumes "frame_layout p"
  defines "p' \<equiv> p\<lparr>pb_mem := take (packetbuf_dataptr p) (pb_mem p) @
      map (\<lambda>j. data_bytes p ! j XOR keystream E (nonce p ext) j) [0..<length (data_bytes p)] @
      drop (packetbuf_dataptr p + length (data_bytes p)) (pb_mem p)\<rparr>"
  shows "ctr E p ext behind = Some (p', behind) \<and> ctr E p' ext behind = Some (p, behind) \<and>
    length (pb_mem p') = length (pb_mem p) \<and> frame_hdr p' = frame_hdr p \<and>
    data_bytes p' = map (\<lambda>j. data_bytes p ! j XOR keystream E (nonce p ext) j) [0..<length (data_bytes p)]"
proof -
  let ?n = "length (data_bytes p)" and ?q = "packetbuf_dataptr p"
  define d where "d = map (\<lambda>j. data_bytes p ! j XOR keystream E (nonce p ext) j) [0..<?n]"
  have d: "length d = length (data_bytes p)" by (simp add: d_def)
  have p': "p' = p\<lparr>pb_mem := take ?q (pb_mem p) @ d @ drop (?q + ?n) (pb_mem p)\<rparr>" by (simp add: p'_def d_def)
  note u = frame_data_upd [OF assms(1) d p', of ext] and fs = frame_split [OF assms(1)]
  obtain d1 where d1: "ctr E p ext behind = Some (p\<lparr>pb_mem := take ?q (pb_mem p) @ d1 @ drop (?q + ?n) (pb_mem p)\<rparr>, behind)"
    "length d1 = ?n" "\<And>j. j < length d1 \<Longrightarrow> d1 ! j = data_bytes p ! j XOR keystream E (nonce p ext) j"
    using ctr_view [OF assms(1), of E ext behind] by blast
  have "d1 = d" using d1(2,3) by (intro nth_equalityI) (simp_all add: d_def)
  then have fwd: "ctr E p ext behind = Some (p', behind)" using d1(1) by (simp add: p')
  obtain e where e: "ctr E p' ext behind = Some (p'\<lparr>pb_mem := take ?q (pb_mem p') @ e @ drop (?q + length d) (pb_mem p')\<rparr>, behind)"
    "length e = length d" "\<And>j. j < length e \<Longrightarrow> e ! j = d ! j XOR keystream E (nonce p ext) j"
    using ctr_view [OF conjunct1 [OF u], of E ext behind] u by auto
  have "e = data_bytes p" using d e(2,3) by (intro nth_equalityI) (simp_all add: d_def xor.assoc)
  moreover have "take ?q (pb_mem p') = take ?q (pb_mem p)" "drop (?q + length d) (pb_mem p') = drop (?q + ?n) (pb_mem p)"
    using u d fs(8,9) by (simp_all add: p')
  moreover have "take ?q (pb_mem p) @ data_bytes p @ drop (?q + ?n) (pb_mem p) = pb_mem p"
    using fs(3,5) by (metis add.commute append_take_drop_id drop_drop)
  ultimately have "ctr E p' ext behind = Some (p'\<lparr>pb_mem := pb_mem p\<rparr>, behind)" using e(1) by (simp only:)
  then have "ctr E p' ext behind = Some (p, behind)" by (simp add: p')
  moreover have "length (pb_mem p') = length (pb_mem p)" using d fs(5,8,9) by (simp add: p')
  ultimately show ?thesis using fwd u by (simp add: d_def)
qed

text \<open>A packet with the payload 7, 8, 9, its header pushed in front, at security level 6, and a toy cipher.\<close>

definition secure_packet :: packetbuf where
  "secure_packet = packetbuf_set_attr ATTR_SECURITY_LEVEL 6
     (fresh_packetbuf\<lparr>pb_mem := replicate 46 0 @ [0x69, 0x98, 7, 8, 9] @ replicate 125 0, pb_buflen := 3, pb_hdrptr := 46\<rparr>)"

definition toy_cipher :: "u8 list \<Rightarrow> u8 list" where
  "toy_cipher b = rev (map (\<lambda>x. 3 * x + 1) b)"

lemma secure_packet_layout: "frame_layout secure_packet"
  by (simp add: frame_layout_def pb_wf_def secure_packet_def packetbuf_set_attr_def fresh_packetbuf_def
      packetbuf_clear_def packetbuf_attr_clear_def)

lemma secure_packet_bytes: "frame_hdr secure_packet = [0x69, 0x98]" "data_bytes secure_packet = [7, 8, 9]"
  by (simp_all add: frame_hdr_def packetbuf_hdrlen_def packetbuf_hdrptr_def data_bytes_def secure_packet_def
      packetbuf_set_attr_def fresh_packetbuf_def packetbuf_clear_def packetbuf_attr_clear_def)

theorem mic_is_rfc_3610_witness:
  "mic toy_cipher True secure_packet (replicate 8 1) 8 =
    Some (rfc_tag toy_cipher (nonce secure_packet (replicate 8 1)) 8 [0x69, 0x98] [7, 8, 9])"
proof -
  have e: "aes_driver toy_cipher" by unfold_locales (simp add: toy_cipher_def)
  have l: "packetbuf_attr ATTR_SECURITY_LEVEL secure_packet AND 4 \<noteq> 0"
    by (simp add: secure_packet_def packetbuf_set_attr_def packetbuf_attr_def)
  show ?thesis using mic_is_rfc_3610 [OF e secure_packet_layout, of "replicate 8 1" 8 True] l
    by (simp add: secure_packet_bytes)
qed

theorem ctr_roundtrip_witness:
  "\<exists>p'. ctr toy_cipher secure_packet (replicate 8 1) [1, 2, 3] = Some (p', [1, 2, 3]) \<and> length (data_bytes p') = 3 \<and>
    ctr toy_cipher p' (replicate 8 1) [1, 2, 3] = Some (secure_packet, [1, 2, 3])"
  using ctr_roundtrip [OF secure_packet_layout, of toy_cipher "replicate 8 1" "[1, 2, 3]"]
  by (elim conjE) (rule exI conjI, assumption | simp add: secure_packet_bytes(2))+

end
