(* ===== verification/NbrLock.thy ===== *)
theory NbrLock
  imports NbrTable
begin

text \<open>
  Locking in \<open>core/net/nbr-table.c\<close>: a table that locks every neighbor it uses, as \<open>noncoresec.c\<close>
  does, loses none of them and none of their items, whatever neighbors are added and evicted.
\<close>

definition locked_in :: "'u nbr_sys \<Rightarrow> ptr \<Rightarrow> ptr \<Rightarrow> bool" where
  "locked_in s t k \<longleftrightarrow> bit (locked_map s ! kidx s k) (nt_index (tables s t))"

definition all_locked :: "'u nbr_sys \<Rightarrow> ptr list \<Rightarrow> ptr \<Rightarrow> bool" where
  "all_locked s ks t \<longleftrightarrow> (\<forall>k \<in> set ks. in_table s t k \<longrightarrow> locked_in s t k)"

text \<open>The callbacks of the other tables leave the bits and the items of this one alone.\<close>

definition kept :: "ptr \<Rightarrow> 'u nbr_sys \<Rightarrow> 'u nbr_sys \<Rightarrow> bool" where
  "kept t s s' \<longleftrightarrow>
     (\<forall>i < length (used_map s). bit (used_map s' ! i) (nt_index (tables s t)) = bit (used_map s ! i) (nt_index (tables s t))) \<and>
     (\<forall>i < length (locked_map s). bit (locked_map s' ! i) (nt_index (tables s t)) = bit (locked_map s ! i) (nt_index (tables s t))) \<and>
     (\<forall>i < nbrs s. \<forall>j < nt_item_size (tables s t). item_mem s' (item_at s t i + j) = item_mem s (item_at s t i + j))"

definition spares :: "ptr \<Rightarrow> 'u nbr_callback \<Rightarrow> bool" where
  "spares t cb \<longleftrightarrow> (\<forall>f item s. kept t s (cb f item s))"

lemma kept_trans: "shrunk s s1 \<Longrightarrow> kept t s s1 \<Longrightarrow> kept t s1 s2 \<Longrightarrow> kept t s s2"
  by (simp add: kept_def shrunk_def)

lemma fold_notify_kept:
  assumes "callbacks_ok cb" "spares t cb"
  shows "kept t s (fold (notify cb k) is s)"
proof (induction "is" arbitrary: s)
  case (Cons i "is")
  have "kept t s (notify cb k i s)" using assms(2) by (simp add: notify_def Let_def spares_def) (simp add: kept_def)
  from kept_trans [OF notify_shrunk [OF assms(1)] this Cons] show ?case by simp
qed (simp add: kept_def)

lemma item_disjoint:
  assumes "i \<noteq> i'" "j < n"
  shows "\<not> (d + i * n \<le> d + i' * n + j \<and> d + i' * n + j < d + i * n + (n :: nat))"
proof (cases "i < i'")
  case True
  then have "Suc i * n \<le> i' * n" by (intro mult_le_mono1) simp
  then show ?thesis by simp
next
  case False
  then have "Suc i' * n \<le> i * n" using assms(1) by (intro mult_le_mono1) simp
  then show ?thesis using assms(2) by simp
qed

text \<open>The neighbor \<open>k\<close> with address \<open>a\<close> came into the table; the other neighbors of the table are as before.\<close>

definition joined :: "'u nbr_sys \<Rightarrow> ptr list \<Rightarrow> ptr \<Rightarrow> linkaddr \<Rightarrow> 'u nbr_sys \<Rightarrow> ptr list \<Rightarrow> ptr \<Rightarrow> bool" where
  "joined s ks t a s' ks' k \<longleftrightarrow> nbr_inv s' ks' \<and> table_ok s' t \<and> tables s' = tables s \<and> nbrs s' = nbrs s \<and>
     k \<in> set ks' \<and> key_lladdr s' k = a \<and> in_table s' t k \<and>
     (\<forall>x \<in> set ks'. x \<noteq> k \<longrightarrow> x \<in> set ks \<and> in_table s' t x = in_table s t x) \<and>
     (\<forall>x \<in> set ks. in_table s t x \<longrightarrow> x \<in> set ks' \<and> x \<noteq> k \<and> key_lladdr s' x = key_lladdr s x \<and> locked_in s' t x \<and>
        kidx s' x = kidx s x \<and> (\<forall>j < nt_item_size (tables s t).
          item_mem s' (item_at s t (kidx s x) + j) = item_mem s (item_at s t (kidx s x) + j)))"

lemma fill_joined:
  assumes inv: "nbr_inv s2 ks2" "table_ok s2 t" and k: "k \<in> set ks2" "key_lladdr s2 k = a"
    and same: "tables s2 = tables s" "nbrs s2 = nbrs s" "\<And>x. kidx s2 x = kidx s x"
    and sub: "set ks2 \<subseteq> insert k (set ks)"
    and old: "\<And>x. x \<in> set ks \<Longrightarrow> in_table s t x \<Longrightarrow> x \<in> set ks2 \<and> x \<noteq> k \<and> key_lladdr s2 x = key_lladdr s x \<and> locked_in s2 t x \<and>
       (\<forall>j < nt_item_size (tables s t). item_mem s2 (item_at s t (kidx s x) + j) = item_mem s (item_at s t (kidx s x) + j))"
    and tab: "\<And>x. x \<in> set ks2 \<Longrightarrow> x \<noteq> k \<Longrightarrow> in_table s2 t x = in_table s t x"
  shows "joined s ks t a (fill_item s2 t (kidx s2 k)) ks2 k"
proof -
  obtain i where i: "i < nbrs s2" "k = kptr s2 i" "kidx s2 k = i" "index_from_key s2 k = int i" by (rule live_index [OF inv(1) k(1)])
  define s' where "s' = fill_item s2 t i"
  have kx: "kidx s' x = kidx s x" for x using same(3) [of x] by (simp add: s'_def fill_item_def)
  have len: "length (used_map s2) = nbrs s2" using inv(1) by (simp add: nbr_inv_def)
  have n8: "nt_index (tables s2 t) < 8" using inv(2) by (simp add: table_ok_def MAX_NUM_TABLES_def)
  have inv': "nbr_inv s' ks2" using fill_item_correct [OF inv i(1)] i(2) k(1) by (simp add: s'_def)
  have f: "tables s' = tables s" "nbrs s' = nbrs s" "key_lladdr s' = key_lladdr s2" "locked_map s' = locked_map s2" "table_ok s' t"
    using same inv(2) by (simp_all add: s'_def fill_item_def)
  have it: "in_table s' t k" using i len n8 same(1) kx [of k] same(3) [of k]
    by (simp add: in_table_def s'_def fill_item_def bit_or_iff bit_exp_iff)
  have dist: "kidx s2 x < nbrs s2 \<and> kidx s2 x \<noteq> i" if x: "x \<in> set ks2" "x \<noteq> k" for x
    using i(2) x(2) by (cases rule: live_index [OF inv(1) x(1)]) auto
  have other: "in_table s' t x = in_table s2 t x" if "x \<in> set ks2" "x \<noteq> k" for x
    using dist [OF that] kx [of x] same(1,3) by (simp add: in_table_def s'_def fill_item_def)
  have mem: "item_mem s' (item_at s t (kidx s x) + j) = item_mem s2 (item_at s t (kidx s x) + j)"
    if "x \<in> set ks2" "x \<noteq> k" "j < nt_item_size (tables s t)" for x j
    using dist [OF that(1,2)] item_disjoint [of i "kidx s x" j "nt_item_size (tables s t)" "nt_data (tables s t)"] that(3) same(1,3)
    by (auto simp: s'_def fill_item_def zero_item_def)
  show ?thesis unfolding joined_def i(3) s'_def [symmetric]
  proof (intro conjI ballI impI allI)
    fix x assume x: "x \<in> set ks2" "x \<noteq> k"
    show "x \<in> set ks" using x sub by blast
    show "in_table s' t x = in_table s t x" using other [OF x] tab [OF x] by simp
  next
    fix x assume x: "x \<in> set ks" "in_table s t x"
    note o = old [OF x]
    show "x \<in> set ks2" "x \<noteq> k" "key_lladdr s' x = key_lladdr s x" using o f(3) by simp_all
    show "locked_in s' t x" using o kx same(3) [of x] same(1) f(1,4) by (simp add: locked_in_def)
    show "kidx s' x = kidx s x" by (rule kx)
    show "item_mem s' (item_at s t (kidx s x) + j) = item_mem s (item_at s t (kidx s x) + j)" if "j < nt_item_size (tables s t)" for j
      using mem [of x j] o that by simp
  qed (use inv' f k it in simp_all)
qed

lemma new_key_joined:
  assumes inv: "nbr_inv s ks" "table_ok s t"
    and al: "nbr_table_allocate cb s = Some (k, s1)" "k \<noteq> NULL" "evicted s1 ks1 k" "same_base s s1"
    and a1: "a \<notin> key_lladdr s ` set ks" "set ks1 \<subseteq> set ks"
    and old: "\<And>x. x \<in> set ks \<Longrightarrow> in_table s t x \<Longrightarrow> x \<in> set ks1 \<and> locked_in s1 t x \<and>
      (\<forall>j < nt_item_size (tables s t). item_mem s1 (item_at s t (kidx s x) + j) = item_mem s (item_at s t (kidx s x) + j))"
    and tab: "\<And>x. x \<in> set ks1 \<Longrightarrow> in_table s1 t x = in_table s t x"
  shows "\<exists>s'. nbr_table_add_lladdr cb s t (Some a) = Some (item_at s' t (kidx s' k), s') \<and> joined s ks t a s' (ks1 @ [k]) k"
proof -
  have un: "index_from_lladdr s (Some a) = Some (- 1)"
    using index_from_lladdr_eq [OF inv(1)] a1(1) by (simp add: key_of_None [symmetric])
  have a': "a \<notin> key_lladdr s ` set ks1" using a1 by blast
  obtain h s2 where s2: "s2 = s1\<lparr>nbr_heap := h, key_lladdr := (key_lladdr s)(k := a)\<rparr>" "nbr_inv s2 (ks1 @ [k])" "table_ok s2 t"
    "nbr_table_add_lladdr cb s t (Some a) = Some (item_at s2 t (kidx s2 k), fill_item s2 t (kidx s2 k))"
    using add_new_key_eq [OF al(3,4,2) a' inv(2) al(1) un] by blast
  have nk: "k \<notin> set ks1" using al(3) by (simp add: evicted_def)
  have e: "tables s2 = tables s" "nbrs s2 = nbrs s" "kidx s2 x = kidx s x" "key_lladdr s2 k = a"
    "item_mem s2 = item_mem s1" "locked_in s2 t x = locked_in s1 t x" "in_table s2 t x = in_table s1 t x" for x
    using al(4) by (simp_all add: s2(1) same_base_def index_from_key_def locked_in_def in_table_def)
  have "joined s ks t a (fill_item s2 t (kidx s2 k)) (ks1 @ [k]) k"
  proof (rule fill_joined [OF s2(2,3) _ e(4) e(1,2,3)])
    fix x assume x: "x \<in> set ks" "in_table s t x"
    then have "x \<in> set ks1" "x \<noteq> k" using old nk by blast+
    then show "x \<in> set (ks1 @ [k]) \<and> x \<noteq> k \<and> key_lladdr s2 x = key_lladdr s x \<and> locked_in s2 t x \<and>
       (\<forall>j < nt_item_size (tables s t). item_mem s2 (item_at s t (kidx s x) + j) = item_mem s (item_at s t (kidx s x) + j))"
      using old [OF x] e(5,6) by (simp add: s2(1))
  qed (use a1(2) tab e(7) in auto)
  moreover have "tables (fill_item s2 t (kidx s2 k)) = tables s2" "kidx (fill_item s2 t i) x = kidx s2 x" for x i
    by (simp_all add: fill_item_def)
  ultimately show ?thesis using s2(4) by (intro exI [of _ "fill_item s2 t (kidx s2 k)"]) simp
qed

text \<open>A neighbor that the table uses and locks is not the victim of an eviction.\<close>

lemma victim_joined:
  assumes inv: "nbr_inv s ks" "table_ok s t" and cb: "callbacks_ok cb" "spares t cb" and locks: "all_locked s ks t"
    and ks: "ks = as @ v # bs" and v: "victim s as v bs" "same_base s s1"
    and s1: "item_mem s1 = item_mem (fold (notify cb v) [0..<MAX_NUM_TABLES] s)"
      "locked_map s1 = locked_map (fold (notify cb v) [0..<MAX_NUM_TABLES] s)"
      "used_map s1 = (used_map (fold (notify cb v) [0..<MAX_NUM_TABLES] s))[kidx s v := 0]"
  shows "x \<in> set ks \<Longrightarrow> in_table s t x \<Longrightarrow> x \<in> set (as @ bs) \<and> locked_in s1 t x \<and>
      (\<forall>j < nt_item_size (tables s t). item_mem s1 (item_at s t (kidx s x) + j) = item_mem s (item_at s t (kidx s x) + j))"
    and "x \<in> set (as @ bs) \<Longrightarrow> in_table s1 t x = in_table s t x"
proof -
  define sf where "sf = fold (notify cb v) [0..<MAX_NUM_TABLES] s"
  have kp: "kept t s sf" unfolding sf_def by (rule fold_notify_kept [OF cb])
  have len: "length (used_map s) = nbrs s" "length (locked_map s) = nbrs s" using inv(1) by (simp_all add: nbr_inv_def)
  have b: "tables s1 = tables s" "kidx s1 y = kidx s y" for y using v(2) by (simp_all add: same_base_def index_from_key_def)
  show "x \<in> set (as @ bs) \<and> locked_in s1 t x \<and>
      (\<forall>j < nt_item_size (tables s t). item_mem s1 (item_at s t (kidx s x) + j) = item_mem s (item_at s t (kidx s x) + j))"
    if x: "x \<in> set ks" "in_table s t x"
  proof -
    have i: "kidx s x < nbrs s" by (rule live_index [OF inv(1) x(1)]) simp
    have l: "bit (locked_map s ! kidx s x) (nt_index (tables s t))" using locks x by (simp add: all_locked_def locked_in_def)
    have "locked_map s ! kidx s v = 0" using v(1) by (simp add: victim_def)
    then have "x \<noteq> v" using l by auto
    moreover have "locked_in s1 t x" using kp l i len b s1(2) by (simp add: locked_in_def kept_def sf_def)
    ultimately show ?thesis using kp x(1) i ks s1(1) by (simp add: kept_def sf_def)
  qed
  show "in_table s1 t x = in_table s t x" if x: "x \<in> set (as @ bs)"
  proof -
    have xk: "x \<in> set ks" and vk: "v \<in> set ks" using x ks by simp_all
    have i: "kidx s x < nbrs s" by (rule live_index [OF inv(1) xk]) simp
    have d: "distinct ks" using inv(1) is_list_distinct [of "nbr_heap s" nbr_table_keys ks] by (simp add: nbr_inv_def)
    then have "x \<noteq> v" using x ks by auto
    then have "kidx s x \<noteq> kidx s v"
      by (cases rule: live_index [OF inv(1) xk]; cases rule: live_index [OF inv(1) vk]) auto
    then show ?thesis using kp i len b s1(3) by (simp add: in_table_def kept_def sf_def)
  qed
qed

lemma add_lladdr_joined:
  assumes inv: "nbr_inv s ks" "table_ok s t" and cb: "callbacks_ok cb" "spares t cb" and locks: "all_locked s ks t"
    and new: "\<And>x. x \<in> set ks \<Longrightarrow> key_lladdr s x = a \<Longrightarrow> \<not> in_table s t x"
  shows "(nbr_table_add_lladdr cb s t (Some a) = Some (NULL, s) \<and> \<not> length ks < nbrs s \<and> unlocked s ks = []) \<or>
    (\<exists>s' ks' k. nbr_table_add_lladdr cb s t (Some a) = Some (item_at s' t (kidx s' k), s') \<and> joined s ks t a s' ks' k)"
proof -
  have lk: "locked_in s t x" if "x \<in> set ks" "in_table s t x" for x using locks that by (simp add: all_locked_def)
  consider (known) k where "k \<in> set ks" "key_lladdr s k = a"
    | (room) "a \<notin> key_lladdr s ` set ks" "length ks < nbrs s"
    | (full) "a \<notin> key_lladdr s ` set ks" "\<not> length ks < nbrs s" by blast
  then show ?thesis
  proof cases
    case known
    have inj: "inj_on (key_lladdr s) (set ks)" using inv(1) by (simp add: nbr_inv_def)
    obtain i where i: "i < nbrs s" "k = kptr s i" "kidx s k = i" "index_from_key s k = int i" by (rule live_index [OF inv(1) known(1)])
    have "index_from_lladdr s (Some a) = Some (int i)"
      using index_from_lladdr_eq [OF inv(1)] key_of_key [OF inj known(1)] known(2) i(4) by simp
    then have "nbr_table_add_lladdr cb s t (Some a) = Some (item_at s t (kidx s k), fill_item s t (kidx s k))"
      unfolding nbr_table_add_lladdr_def using add_final [OF inv(2) i(1)] i(3) by (simp add: Let_def)
    moreover have "joined s ks t a (fill_item s t (kidx s k)) ks k"
      using new known(2) lk by (intro fill_joined [OF inv known]) auto
    moreover have "tables (fill_item s t i) = tables s" "kidx (fill_item s t i) x = kidx s x" for x i by (simp_all add: fill_item_def)
    ultimately show ?thesis by (intro disjI2 exI [of _ "fill_item s t (kidx s k)"] exI [of _ ks] exI [of _ k]) simp
  next
    case room
    obtain k s1 where k: "nbr_table_allocate cb s = Some (k, s1)" "k \<noteq> NULL" "evicted s1 ks k" "same_base s s1"
      "used_map s1 = used_map s" "locked_map s1 = locked_map s" "item_mem s1 = item_mem s"
      using allocate_room [OF inv(1) room(2), of cb] by blast
    have b: "kidx s1 y = kidx s y" "tables s1 = tables s" for y using k(4) by (simp_all add: same_base_def index_from_key_def)
    have "\<exists>s'. nbr_table_add_lladdr cb s t (Some a) = Some (item_at s' t (kidx s' k), s') \<and> joined s ks t a s' (ks @ [k]) k"
      using lk k(5-7) b by (intro new_key_joined [OF inv k(1-4) room(1)]) (auto simp: locked_in_def in_table_def)
    then show ?thesis by blast
  next
    case full
    from allocate_full [OF inv(1) full(2) cb(1)] show ?thesis unfolding Let_def
    proof (elim disjE exE conjE)
      assume "unlocked s ks = []" "nbr_table_allocate cb s = Some (NULL, s)"
      then show ?thesis using add_no_key [OF inv(1) full(1)] full(2) by simp
    next
      fix v s1 as bs
      assume k: "nbr_table_allocate cb s = Some (v, s1)" "v \<noteq> NULL" "ks = as @ v # bs" "victim s as v bs"
        "evicted s1 (as @ bs) v" "same_base s s1" "item_mem s1 = item_mem (fold (notify cb v) [0..<MAX_NUM_TABLES] s)"
        "locked_map s1 = locked_map (fold (notify cb v) [0..<MAX_NUM_TABLES] s)"
        "used_map s1 = (used_map (fold (notify cb v) [0..<MAX_NUM_TABLES] s))[kidx s v := 0]"
      note vj = victim_joined [OF inv cb locks k(3,4,6-9)]
      have "set (as @ bs) \<subseteq> set ks" using k(3) by auto
      from new_key_joined [OF inv k(1,2,5,6) full(1) this vj] show ?thesis by blast
    qed
  qed
qed

end
