(* ===== verification/Noncoresec.thy ===== *)
theory Noncoresec
  imports CcmStar AntiReplay NbrLock Aes
begin

text \<open>
  The link layer security driver of \<open>core/net/llsec/noncoresec/noncoresec.c\<close>: outgoing frames get a message
  integrity code and are encrypted, incoming frames are decrypted, authenticated and checked for replay,
  with the last counters of every sender in a neighbor table that it locks. \<open>lvl\<close> is
  \<open>LLSEC802154_SECURITY_LEVEL\<close>, \<open>E\<close> the block cipher under the network-wide key,
  \<open>node\<close> is \<open>linkaddr_node_addr\<close>, \<open>t\<close> is \<open>anti_replay_table\<close>. The calls into the MAC layer and the network layer
  are results: what is handed to \<open>NETSTACK_MAC.send\<close>, and whether \<open>NETSTACK_NETWORK.input\<close> is called.
\<close>

section \<open>noncoresec.c\<close>

definition LLSEC802154_MIC_LENGTH :: "u16 \<Rightarrow> u16" where
  "LLSEC802154_MIC_LENGTH lvl = (if lvl AND 3 \<noteq> 0 then push_bit (unat (lvl AND 3)) 2 else 0)"

definition WITH_ENCRYPTION :: "u16 \<Rightarrow> bool" where
  "WITH_ENCRYPTION lvl \<longleftrightarrow> lvl AND push_bit 2 1 \<noteq> 0"

fun get_extended_address :: "linkaddr \<Rightarrow> u8 list" where
  "get_extended_address (Linkaddr a b c d e f g h) = [a, b, c, d, e, f, g, h]"

text \<open>\<open>send\<close>: what \<open>NETSTACK_MAC.send\<close> is called with; \<open>counter\<close> is the variable of \<open>anti-replay.c\<close>.\<close>

definition noncoresec_send :: "bool \<Rightarrow> u16 \<Rightarrow> u32 \<Rightarrow> packetbuf \<Rightarrow> u32 \<times> packetbuf" where
  "noncoresec_send le lvl counter p =
     anti_replay_set_counter le counter
       (packetbuf_set_attr ATTR_SECURITY_LEVEL lvl (packetbuf_set_attr ATTR_FRAME_TYPE 1 p))"

text \<open>
  The length arithmetic of this file can leave the packet buffer. An operation that reads or writes outside it has
  the value \<open>Out_of_buffer\<close>: what it does from there on depends on the memory layout and is not described. A call that
  never returns is the value \<open>None\<close>, so that the two can be told apart; \<open>behind\<close> is the memory behind the packet
  buffer, which \<open>ctr\<close> writes to before the access is noticed. What is compared or written last lies behind everything
  \<open>ctr\<close> and \<open>mic\<close> touch, so that the one check covers them.
\<close>

datatype 'a access = Within 'a | Out_of_buffer

definition write_bytes :: "u8 list \<Rightarrow> nat \<Rightarrow> u8 list \<Rightarrow> u8 list option" where
  "write_bytes m pos bs = (if pos + length bs \<le> length m then Some (memcpy_at m pos bs) else None)"

definition read_bytes :: "u8 list \<Rightarrow> nat \<Rightarrow> nat \<Rightarrow> u8 list option" where
  "read_bytes m pos n = (if pos + n \<le> length m then Some (take n (drop pos m)) else None)"

definition on_frame_created :: "(u8 list \<Rightarrow> u8 list) \<Rightarrow> u16 \<Rightarrow> linkaddr \<Rightarrow> packetbuf \<Rightarrow> u8 list \<Rightarrow>
      packetbuf access option" where
  "on_frame_created E lvl node p behind =
     (let dataptr = packetbuf_dataptr p;
          data_len = ucast (packetbuf_datalen p) :: u8
      in do {
        m \<leftarrow> mic E (WITH_ENCRYPTION lvl) p (get_extended_address node) (ucast (LLSEC802154_MIC_LENGTH lvl));
        (case write_bytes (pb_mem p) (dataptr + unat data_len) m of
           None \<Rightarrow> Some Out_of_buffer
         | Some mem \<Rightarrow> do {
             let p = p\<lparr>pb_mem := mem\<rparr>;
             (p, behind) \<leftarrow> (if WITH_ENCRYPTION lvl then ctr E p (get_extended_address node) behind else Some (p, behind));
             Some (Within (packetbuf_set_datalen (ucast data_len + LLSEC802154_MIC_LENGTH lvl) p))
           })
      })"

text \<open>The items of the table are \<open>struct anti_replay_info\<close>.\<close>

definition load_u32 :: "bool \<Rightarrow> (ptr \<Rightarrow> u8) \<Rightarrow> ptr \<Rightarrow> u32" where
  "load_u32 le m a =
     (if le then fc_u32 True (ucast (m a) OR push_bit 8 (ucast (m (a + 1))), ucast (m (a + 2)) OR push_bit 8 (ucast (m (a + 3))))
      else fc_u32 False (push_bit 8 (ucast (m a)) OR ucast (m (a + 1)), push_bit 8 (ucast (m (a + 2))) OR ucast (m (a + 3))))"

definition store_u32 :: "bool \<Rightarrow> ptr \<Rightarrow> u32 \<Rightarrow> (ptr \<Rightarrow> u8) \<Rightarrow> ptr \<Rightarrow> u8" where
  "store_u32 le a w m =
     (let b = (\<lambda>i. ucast (drop_bit (8 * (if le then i else 3 - i)) w))
      in m(a := b 0, a + 1 := b 1, a + 2 := b 2, a + 3 := b 3))"

definition load_info :: "bool \<Rightarrow> (ptr \<Rightarrow> u8) \<Rightarrow> ptr \<Rightarrow> anti_replay_info" where
  "load_info le m a = \<lparr>last_broadcast_counter = load_u32 le m a, last_unicast_counter = load_u32 le m (a + 4)\<rparr>"

definition store_info :: "bool \<Rightarrow> ptr \<Rightarrow> anti_replay_info \<Rightarrow> 'u nbr_sys \<Rightarrow> 'u nbr_sys" where
  "store_info le a i s =
     s\<lparr>item_mem := store_u32 le (a + 4) (last_unicast_counter i) (store_u32 le a (last_broadcast_counter i) (item_mem s))\<rparr>"

text \<open>The second half of \<open>input\<close>, for an authentic frame.\<close>

definition check_replay ::
    "bool \<Rightarrow> 'u nbr_callback \<Rightarrow> ptr \<Rightarrow> packetbuf \<Rightarrow> 'u nbr_sys \<Rightarrow> (bool \<times> packetbuf \<times> 'u nbr_sys) option" where
  "check_replay le cb t p s =
     (let sender = packetbuf_addr ADDR_SENDER p in
      do {
        info \<leftarrow> nbr_table_get_from_lladdr s t (Some sender);
        if info = NULL then do {
          (info, s) \<leftarrow> nbr_table_add_lladdr cb s t (Some sender);
          if info = NULL then Some (False, p, s)
          else
            (case nbr_table_lock s t info of (locked, s) \<Rightarrow>
               if \<not> locked then Some (False, p, snd (nbr_table_remove s t info))
               else Some (True, p, store_info le info (anti_replay_init_info le p) s))
        } else
          (case anti_replay_was_replayed le p (load_info le (item_mem s) info) of (replayed, i) \<Rightarrow>
             Some (\<not> replayed, p, store_info le info i s))
      })"

definition noncoresec_input ::
    "bool \<Rightarrow> u16 \<Rightarrow> (u8 list \<Rightarrow> u8 list) \<Rightarrow> linkaddr \<Rightarrow> 'u nbr_callback \<Rightarrow> ptr \<Rightarrow> packetbuf \<Rightarrow> u8 list \<Rightarrow> 'u nbr_sys \<Rightarrow>
       (bool \<times> packetbuf \<times> 'u nbr_sys) access option" where
  "noncoresec_input le lvl E node cb t p behind s =
     (if packetbuf_attr ATTR_SECURITY_LEVEL p \<noteq> lvl then Some (Within (False, p, s))
      else let sender = packetbuf_addr ADDR_SENDER p in
      if linkaddr_cmp sender node then Some (Within (False, p, s))
      else do {
        let p = packetbuf_set_datalen (packetbuf_datalen p - LLSEC802154_MIC_LENGTH lvl) p;
        (p, behind) \<leftarrow> (if WITH_ENCRYPTION lvl then ctr E p (get_extended_address sender) behind else Some (p, behind));
        generated_mic \<leftarrow> mic E (WITH_ENCRYPTION lvl) p (get_extended_address sender) (ucast (LLSEC802154_MIC_LENGTH lvl));
        (case read_bytes (pb_mem p) (packetbuf_dataptr p + unat (packetbuf_datalen p)) (unat (LLSEC802154_MIC_LENGTH lvl)) of
           None \<Rightarrow> Some Out_of_buffer
         | Some received_mic \<Rightarrow>
             if generated_mic \<noteq> received_mic then Some (Within (False, p, s))
             else map_option Within (check_replay le cb t p s))
      })"

definition noncoresec_get_overhead :: "u16 \<Rightarrow> u8" where
  "noncoresec_get_overhead lvl = ucast (5 + LLSEC802154_MIC_LENGTH lvl)"

text \<open>\<open>bootstrap\<close>, before it calls \<open>on_bootstrapped\<close>: the round keys and the table.\<close>

definition noncoresec_bootstrap :: "u8 list \<Rightarrow> u8 list list \<Rightarrow> ptr \<Rightarrow> 'u nbr_sys \<Rightarrow> u8 list list \<times> 'u nbr_sys" where
  "noncoresec_bootstrap key round_keys t s = (set_key key round_keys, snd (nbr_table_register t NULL s))"

section \<open>The stored counters\<close>

lemma u16_of_bytes:
  "ucast (ucast (w :: u32) :: u8) OR push_bit 8 (ucast (ucast (drop_bit 8 w) :: u8)) = (ucast w :: u16)"
  by (rule bit_word_eqI) (auto simp: bit_simps)

lemma load_store_u32: "load_u32 le (store_u32 le a w m) a = w"
proof -
  have "drop_bit 8 (drop_bit 16 w) = drop_bit 24 w" by simp
  then have h: "ucast (ucast (drop_bit 16 w) :: u8) OR push_bit 8 (ucast (ucast (drop_bit 24 w) :: u8)) = (ucast (drop_bit 16 w) :: u16)"
    using u16_of_bytes [of "drop_bit 16 w"] by simp
  have "load_u32 le (store_u32 le a w m) a = fc_u32 le (fc_u16 le w)"
    using h u16_of_bytes [of w] by (cases le) (simp_all add: load_u32_def store_u32_def Let_def fc_u16_def or.commute)
  then show ?thesis by (simp only: fc_union)
qed

lemma store_u32_other: "b < a \<or> a + 4 \<le> b \<Longrightarrow> store_u32 le a w m b = m b"
  by (auto simp: store_u32_def Let_def)

lemma load_u32_cong:
  assumes "\<And>j. j < 4 \<Longrightarrow> m (a + j) = m' (a' + j)"
  shows "load_u32 le m a = load_u32 le m' a'"
  using assms [of 0] assms [of 1] assms [of 2] assms [of 3] unfolding load_u32_def by simp

lemma load_info_cong:
  assumes "\<And>j. j < 8 \<Longrightarrow> m (a + j) = m' (a + j)"
  shows "load_info le m a = load_info le m' a"
  using assms by (auto simp: load_info_def add.assoc intro!: load_u32_cong)

lemma load_store_info: "load_info le (item_mem (store_info le a i s)) a = i"
proof -
  have "load_u32 le (store_u32 le (a + 4) v m) a = load_u32 le m a" for v m
    by (rule load_u32_cong) (simp add: store_u32_other)
  then show ?thesis by (simp add: load_info_def store_info_def load_store_u32)
qed

lemma store_info_other: "b < a \<or> a + 8 \<le> b \<Longrightarrow> item_mem (store_info le a i s) b = item_mem s b"
  by (auto simp: store_info_def store_u32_other)

section \<open>Secured frames\<close>

text \<open>What goes over the air behind the header: the payload, encrypted when the level says so, and its tag.\<close>

definition frame_tag :: "(u8 list \<Rightarrow> u8 list) \<Rightarrow> u16 \<Rightarrow> u8 list \<Rightarrow> u8 list \<Rightarrow> u8 list \<Rightarrow> u8 list" where
  "frame_tag E lvl n hdr payload =
     (if WITH_ENCRYPTION lvl then rfc_tag E n (unat (LLSEC802154_MIC_LENGTH lvl)) hdr payload
      else rfc_tag E n (unat (LLSEC802154_MIC_LENGTH lvl)) (hdr @ payload) [])"

definition stream :: "(u8 list \<Rightarrow> u8 list) \<Rightarrow> u16 \<Rightarrow> u8 list \<Rightarrow> u8 list \<Rightarrow> u8 list" where
  "stream E lvl n bs =
     (if WITH_ENCRYPTION lvl then map (\<lambda>j. bs ! j XOR keystream E n j) [0..<length bs] else bs)"

definition secured :: "(u8 list \<Rightarrow> u8 list) \<Rightarrow> u16 \<Rightarrow> u8 list \<Rightarrow> u8 list \<Rightarrow> u8 list \<Rightarrow> u8 list" where
  "secured E lvl n hdr payload = stream E lvl n payload @ frame_tag E lvl n hdr payload"

lemma length_stream [simp]: "length (stream E lvl n bs) = length bs"
  by (simp add: stream_def)

lemma stream_stream [simp]: "stream E lvl n (stream E lvl n bs) = bs"
  by (auto simp: stream_def xor.assoc intro!: nth_equalityI)

lemma mic_length:
  assumes "lvl AND 3 \<noteq> 0"
  shows "4 \<le> unat (LLSEC802154_MIC_LENGTH lvl) \<and> unat (LLSEC802154_MIC_LENGTH lvl) \<le> 16 \<and>
    unat (ucast (LLSEC802154_MIC_LENGTH lvl) :: u8) = unat (LLSEC802154_MIC_LENGTH lvl)"
proof -
  have "unat (lvl AND 3) = unat lvl mod 4" using unat_and_mask [of "3 :: u16" 2 lvl] by simp
  then have "unat (lvl AND 3) \<in> {1, 2, 3}" using assms by (auto simp: unat_eq_0 [symmetric] simp del: unat_eq_0)
  then show ?thesis using assms by (auto simp: LLSEC802154_MIC_LENGTH_def unat_ucast_u16_u8)
qed

lemma length_ext [simp]: "length (get_extended_address a) = 8"
  by (cases a) simp

lemma length_nonce [simp]: "length (nonce p (get_extended_address a)) = 13"
  by (simp add: nonce_def)

lemma mic_frame_tag:
  assumes "aes_driver E" and "frame_layout p"
    and "packetbuf_attr ATTR_SECURITY_LEVEL p = lvl" "lvl AND 3 \<noteq> 0"
  shows "mic E (WITH_ENCRYPTION lvl) p (get_extended_address a) (ucast (LLSEC802154_MIC_LENGTH lvl)) =
    Some (frame_tag E lvl (nonce p (get_extended_address a)) (frame_hdr p) (data_bytes p))"
proof -
  have "mic_enc (WITH_ENCRYPTION lvl) p = WITH_ENCRYPTION lvl" using assms(3) by (simp add: mic_enc_def WITH_ENCRYPTION_def)
  then show ?thesis
    using aes_driver.mic_cipher [OF assms(1,2) length_ext [of a], of "ucast (LLSEC802154_MIC_LENGTH lvl)" "WITH_ENCRYPTION lvl"]
      mic_length [OF assms(4)] by (simp add: frame_tag_def mic_adata_def mic_mdata_def)
qed

lemma length_frame_tag:
  assumes E: "aes_driver E" and n: "length n = 13" and l: "lvl AND 3 \<noteq> 0"
  shows "length (frame_tag E lvl n hdr pl) = unat (LLSEC802154_MIC_LENGTH lvl)"
  using aes_driver.length_rfc_tag [OF E n] mic_length [OF l] by (simp add: frame_tag_def)

text \<open>The packet with other data of the same length.\<close>

definition with_data :: "packetbuf \<Rightarrow> u8 list \<Rightarrow> packetbuf" where
  "with_data p d = p\<lparr>pb_mem := take (packetbuf_dataptr p) (pb_mem p) @ d @ drop (packetbuf_dataptr p + length (data_bytes p)) (pb_mem p)\<rparr>"

lemma crypt_view:
  assumes "frame_layout p"
  shows "(if WITH_ENCRYPTION lvl then ctr E p ext behind else Some (p, behind)) =
    Some (with_data p (stream E lvl (nonce p ext) (data_bytes p)), behind)"
proof (cases "WITH_ENCRYPTION lvl")
  case True
  obtain d where d: "ctr E p ext behind = Some (with_data p d, behind)" "length d = length (data_bytes p)"
    "\<forall>j < length d. d ! j = data_bytes p ! j XOR keystream E (nonce p ext) j"
    using ctr_view [OF assms, of E ext behind] by (auto simp: with_data_def)
  then have "d = stream E lvl (nonce p ext) (data_bytes p)" using True by (intro nth_equalityI) (simp_all add: stream_def)
  then show ?thesis using True d(1) by simp
next
  case False
  note fs = frame_split [OF assms]
  have "take (packetbuf_dataptr p) (pb_mem p) @ data_bytes p @ drop (packetbuf_dataptr p + length (data_bytes p)) (pb_mem p) = pb_mem p"
    using fs(3,5) by (metis add.commute append_take_drop_id drop_drop)
  then show ?thesis using False by (simp add: stream_def with_data_def)
qed

lemma with_data_view:
  assumes "frame_layout p" "length d = length (data_bytes p)"
  shows "frame_layout (with_data p d)" "data_bytes (with_data p d) = d" "frame_hdr (with_data p d) = frame_hdr p"
    "nonce (with_data p d) ext = nonce p ext" "packetbuf_dataptr (with_data p d) = packetbuf_dataptr p"
    "drop (packetbuf_dataptr p + length d) (pb_mem (with_data p d)) = drop (packetbuf_dataptr p + length d) (pb_mem p)"
  using frame_data_upd [OF assms refl, of ext] unfolding with_data_def by simp_all

lemma with_data_fields [simp]:
  "packetbuf_attr x (with_data p d) = packetbuf_attr x p" "packetbuf_addr y (with_data p d) = packetbuf_addr y p"
  "pb_buflen (with_data p d) = pb_buflen p" "anti_replay_get_counter le (with_data p d) = anti_replay_get_counter le p"
  "packetbuf_holds_broadcast (with_data p d) = packetbuf_holds_broadcast p"
  by (simp_all add: with_data_def packetbuf_attr_def packetbuf_addr_def anti_replay_get_counter_def packetbuf_holds_broadcast_def)

lemma datalen_view:
  assumes "frame_layout p" "unat (pb_bufptr p) + unat l \<le> 128"
  shows "frame_layout (packetbuf_set_datalen l p)" "frame_hdr (packetbuf_set_datalen l p) = frame_hdr p"
    "data_bytes (packetbuf_set_datalen l p) = take (unat l) (drop (packetbuf_dataptr p) (pb_mem p))"
    "nonce (packetbuf_set_datalen l p) ext = nonce p ext" "packetbuf_dataptr (packetbuf_set_datalen l p) = packetbuf_dataptr p"
proof -
  show f: "frame_layout (packetbuf_set_datalen l p)" using assms by (simp add: frame_layout_def pb_wf_def packetbuf_set_datalen_def)
  show "packetbuf_dataptr (packetbuf_set_datalen l p) = packetbuf_dataptr p"
    by (simp add: packetbuf_set_datalen_def packetbuf_dataptr_def)
  then show "data_bytes (packetbuf_set_datalen l p) = take (unat l) (drop (packetbuf_dataptr p) (pb_mem p))"
    using frame_split(3) [OF f] by (simp add: packetbuf_set_datalen_def)
qed (simp_all add: frame_hdr_def nonce_def packetbuf_set_datalen_def packetbuf_attr_def packetbuf_hdrptr_def packetbuf_hdrlen_def)

lemma set_datalen_fields [simp]:
  "packetbuf_attr x (packetbuf_set_datalen l p) = packetbuf_attr x p" "packetbuf_addr y (packetbuf_set_datalen l p) = packetbuf_addr y p"
  "pb_mem (packetbuf_set_datalen l p) = pb_mem p" "packetbuf_datalen (packetbuf_set_datalen l p) = l"
  "anti_replay_get_counter le (packetbuf_set_datalen l p) = anti_replay_get_counter le p"
  "packetbuf_holds_broadcast (packetbuf_set_datalen l p) = packetbuf_holds_broadcast p"
  by (simp_all add: packetbuf_set_datalen_def packetbuf_attr_def packetbuf_addr_def anti_replay_get_counter_def
      packetbuf_holds_broadcast_def packetbuf_datalen_def)

text \<open>The tag written behind the data touches neither header nor data.\<close>

lemma write_behind:
  assumes "frame_layout p" and bs: "packetbuf_dataptr p + length (data_bytes p) + length bs \<le> 176"
  defines "p1 \<equiv> p\<lparr>pb_mem := memcpy_at (pb_mem p) (packetbuf_dataptr p + length (data_bytes p)) bs\<rparr>"
  shows "frame_layout p1" "data_bytes p1 = data_bytes p" "frame_hdr p1 = frame_hdr p" "nonce p1 ext = nonce p ext"
    "\<exists>r. drop (packetbuf_dataptr p1 + length (data_bytes p1)) (pb_mem p1) = bs @ r"
proof -
  note fs = frame_split [OF assms(1)]
  let ?q = "packetbuf_dataptr p" and ?n = "length (data_bytes p)"
  have f: "packetbuf_dataptr p1 = ?q" "packetbuf_hdrptr p1 = packetbuf_hdrptr p" "packetbuf_hdrlen p1 = packetbuf_hdrlen p"
    "pb_buflen p1 = pb_buflen p"
    by (simp_all add: p1_def packetbuf_dataptr_def packetbuf_hdrptr_def packetbuf_hdrlen_def)
  show 1: "frame_layout p1" using assms(1) bs fs(8) by (auto simp: frame_layout_def pb_wf_def p1_def)
  have t: "take k (drop j (pb_mem p1)) = take k (drop j (pb_mem p))" if "j + k \<le> ?q + ?n" for j k
    using that bs fs(8) by (simp add: p1_def memcpy_at_def drop_take)
  show 2: "data_bytes p1 = data_bytes p" unfolding frame_split(3) [OF 1] fs(3) f using fs(5) by (intro t) simp
  show "frame_hdr p1 = frame_hdr p" unfolding frame_hdr_def f using fs(1) by (intro t) simp
  show "nonce p1 ext = nonce p ext" by (simp add: nonce_def packetbuf_attr_def p1_def)
  have "drop (?q + ?n) (pb_mem p1) = bs @ drop (?q + ?n + length bs) (pb_mem p)"
    using bs fs(8) by (simp add: p1_def memcpy_at_drop)
  then show "\<exists>r. drop (packetbuf_dataptr p1 + length (data_bytes p1)) (pb_mem p1) = bs @ r" unfolding f 2 by blast
qed

lemma on_frame_created_eq:
  assumes E: "aes_driver E" and p: "frame_layout p"
    and l: "packetbuf_attr ATTR_SECURITY_LEVEL p = lvl" "lvl AND 3 \<noteq> 0"
    and room: "unat (pb_bufptr p) + unat (pb_buflen p) + unat (LLSEC802154_MIC_LENGTH lvl) \<le> 128"
  shows "\<exists>p'. (\<forall>behind. on_frame_created E lvl node p behind = Some (Within p')) \<and> frame_layout p' \<and> frame_hdr p' = frame_hdr p \<and>
    data_bytes p' = secured E lvl (nonce p (get_extended_address node)) (frame_hdr p) (data_bytes p) \<and>
    pb_attrs p' = pb_attrs p \<and> pb_addrs p' = pb_addrs p"
proof -
  let ?M = "LLSEC802154_MIC_LENGTH lvl" and ?n = "length (data_bytes p)" and ?q = "packetbuf_dataptr p"
  let ?N = "nonce p (get_extended_address node)"
  note fs = frame_split [OF p]
  define m where "m = frame_tag E lvl ?N (frame_hdr p) (data_bytes p)"
  have lm: "length m = unat ?M" unfolding m_def by (rule length_frame_tag [OF E length_nonce l(2)])
  have b: "?q + ?n + length m \<le> 176" using room lm fs(5) by (simp add: packetbuf_dataptr_def)
  define p1 where "p1 = p\<lparr>pb_mem := memcpy_at (pb_mem p) (?q + ?n) m\<rparr>"
  note w = write_behind [OF p b, folded p1_def]
  define d where "d = stream E lvl ?N (data_bytes p)"
  define p2 where "p2 = with_data p1 d"
  have ld: "length d = length (data_bytes p1)" using w(2) by (simp add: d_def)
  note v = with_data_view [OF w(1) ld, folded p2_def]
  have c: "(if WITH_ENCRYPTION lvl then ctr E p1 (get_extended_address node) behind else Some (p1, behind)) = Some (p2, behind)" for behind
    using crypt_view [OF w(1), of lvl E "get_extended_address node" behind] by (simp add: p2_def d_def w(2,4))
  have dl: "unat (ucast (ucast (packetbuf_datalen p) :: u8) + ?M) = ?n + unat ?M"
    using fs(5,7) room by (simp add: packetbuf_datalen_def unat_word_ariths unat_ucast_u16_u8)
  have q: "packetbuf_dataptr p2 = ?q" using v(5) by (simp add: p1_def packetbuf_dataptr_def)
  obtain r where r: "drop (?q + length d) (pb_mem p2) = m @ r" using w(5) v(5,6) q ld by auto
  have "take (length d) (drop ?q (pb_mem p2)) = d" using frame_split(3,5) [OF v(1)] v(2) q by simp
  then have "drop ?q (pb_mem p2) = d @ m @ r" using r append_take_drop_id [of "length d" "drop ?q (pb_mem p2)"] by (simp add: add.commute)
  moreover define p' where "p' = packetbuf_set_datalen (ucast (ucast (packetbuf_datalen p) :: u8) + ?M) p2"
  moreover have bp: "unat (pb_bufptr p2) + unat (ucast (ucast (packetbuf_datalen p) :: u8) + ?M) \<le> 128"
    using room dl fs(5) by (simp add: p2_def p1_def with_data_def)
  ultimately have "data_bytes p' = d @ m" using datalen_view(3) [OF v(1) bp] q dl lm ld w(2) by simp
  moreover have "on_frame_created E lvl node p behind = Some (Within p')" for behind
  proof -
    have u: "unat (ucast (packetbuf_datalen p) :: u8) = ?n" using fs(5,7) by (simp add: packetbuf_datalen_def unat_ucast_u16_u8)
    have wr: "write_bytes (pb_mem p) (?q + ?n) m = Some (pb_mem p1)" using b fs(8) by (simp add: write_bytes_def p1_def)
    have p1': "p\<lparr>pb_mem := pb_mem p1\<rparr> = p1" by (simp add: p1_def)
    have mt: "mic E (WITH_ENCRYPTION lvl) p (get_extended_address node) (ucast ?M) = Some m"
      unfolding m_def by (rule mic_frame_tag [OF E p l])
    show ?thesis unfolding on_frame_created_def Let_def u mt by (simp only: bind.simps wr option.case p1' c prod.case p'_def)
  qed
  moreover have "frame_hdr p' = frame_hdr p" using datalen_view(2) [OF v(1) bp] v(3) w(3) by (simp add: p'_def)
  moreover have "frame_layout p'" using datalen_view(1) [OF v(1) bp] by (simp add: p'_def)
  moreover have "pb_attrs p' = pb_attrs p" "pb_addrs p' = pb_addrs p"
    by (simp_all add: p'_def p2_def p1_def with_data_def packetbuf_set_datalen_def)
  ultimately show ?thesis by (intro exI [of _ p']) (simp add: secured_def d_def m_def)
qed

lemma receive_view:
  fixes q lvl
  defines "M \<equiv> unat (LLSEC802154_MIC_LENGTH lvl)"
    and "q1 \<equiv> packetbuf_set_datalen (packetbuf_datalen q - LLSEC802154_MIC_LENGTH lvl) q"
  assumes q: "frame_layout q" and M: "M \<le> length (data_bytes q)"
  defines "n \<equiv> length (data_bytes q) - M"
  shows "frame_layout q1" "frame_hdr q1 = frame_hdr q" "data_bytes q1 = take n (data_bytes q)" "nonce q1 ext = nonce q ext"
    "length d = n \<Longrightarrow> read_bytes (pb_mem (with_data q1 d)) (packetbuf_dataptr (with_data q1 d) + unat (packetbuf_datalen (with_data q1 d))) M
      = Some (drop n (data_bytes q))"
proof -
  note fs = frame_split [OF q]
  have dl: "unat (packetbuf_datalen q - LLSEC802154_MIC_LENGTH lvl) = n"
    using M fs(5) by (simp add: unat_sub_if' packetbuf_datalen_def n_def M_def)
  have "unat (pb_bufptr q) + unat (pb_buflen q) \<le> 128" using q by (auto simp: frame_layout_def pb_wf_def)
  then have b: "unat (pb_bufptr q) + unat (packetbuf_datalen q - LLSEC802154_MIC_LENGTH lvl) \<le> 128"
    unfolding dl using fs(5) by (simp add: n_def)
  note v = datalen_view [OF q b, folded q1_def]
  show 1: "frame_layout q1" "frame_hdr q1 = frame_hdr q" "nonce q1 ext = nonce q ext" by (rule v)+
  show 3: "data_bytes q1 = take n (data_bytes q)" unfolding v(3) dl fs(3) using fs(5) by (simp add: n_def)
  show "read_bytes (pb_mem (with_data q1 d)) (packetbuf_dataptr (with_data q1 d) + unat (packetbuf_datalen (with_data q1 d))) M
      = Some (drop n (data_bytes q))" if d: "length d = n"
  proof -
    have ld: "length d = length (data_bytes q1)" using d 3 by (simp add: n_def)
    note w = with_data_view [OF 1(1) ld]
    have u: "unat (packetbuf_datalen (with_data q1 d)) = n" using dl by (simp add: packetbuf_datalen_def q1_def packetbuf_set_datalen_def)
    have "take M (drop (packetbuf_dataptr q + n) (pb_mem q)) = drop n (data_bytes q)"
      unfolding fs(3) using M fs(5) by (simp add: n_def drop_take add.commute)
    then show ?thesis unfolding read_bytes_def u w(5) v(5) using w(6) d v(5) fs(5,8,9) frame_split(8) [OF w(1)] M
      by (simp add: q1_def n_def)
  qed
qed

section \<open>The table of the last counters\<close>

text \<open>What the anti-replay table knows about a sender.\<close>

definition replay_map :: "bool \<Rightarrow> 'u nbr_sys \<Rightarrow> ptr list \<Rightarrow> ptr \<Rightarrow> linkaddr \<Rightarrow> anti_replay_info option" where
  "replay_map le s ks t a =
     (case key_of s ks a of
        None \<Rightarrow> None
      | Some k \<Rightarrow> if in_table s t k then Some (load_info le (item_mem s) (item_at s t (kidx s k))) else None)"

definition sec_inv :: "'u nbr_sys \<Rightarrow> ptr list \<Rightarrow> ptr \<Rightarrow> bool" where
  "sec_inv s ks t \<longleftrightarrow> nbr_inv s ks \<and> table_ok s t \<and> nt_item_size (tables s t) = 8 \<and> all_locked s ks t"

lemma replay_map_iff:
  assumes "nbr_inv s ks"
  shows "replay_map le s ks t a = Some i \<longleftrightarrow>
    (\<exists>k \<in> set ks. key_lladdr s k = a \<and> in_table s t k \<and> i = load_info le (item_mem s) (item_at s t (kidx s k)))"
proof -
  have inj: "inj_on (key_lladdr s) (set ks)" using assms by (simp add: nbr_inv_def)
  show ?thesis
  proof (cases "key_of s ks a")
    case None
    then have "a \<notin> key_lladdr s ` set ks" by (simp add: key_of_None)
    then show ?thesis using None by (auto simp: replay_map_def)
  next
    case (Some k)
    note k = key_of_Some [OF Some]
    have "x = k" if "x \<in> set ks" "key_lladdr s x = a" for x using inj that k by (auto dest: inj_onD)
    then show ?thesis using Some k by (auto simp: replay_map_def)
  qed
qed

lemma get_info:
  assumes "sec_inv s ks t"
  shows "replay_map le s ks t a = None \<Longrightarrow> nbr_table_get_from_lladdr s t (Some a) = Some NULL"
    and "replay_map le s ks t a = Some i \<Longrightarrow> \<exists>k \<in> set ks. key_lladdr s k = a \<and> in_table s t k \<and>
      nbr_table_get_from_lladdr s t (Some a) = Some (item_at s t (kidx s k)) \<and> item_at s t (kidx s k) \<noteq> NULL \<and>
      load_info le (item_mem s) (item_at s t (kidx s k)) = i"
proof -
  have inv: "nbr_inv s ks" "table_ok s t" using assms by (simp_all add: sec_inv_def)
  have get: "nbr_table_get_from_lladdr s t (Some a) = Some (if in_table s t k then item_at s t (kidx s k) else NULL)"
    if k: "k \<in> set ks" "key_lladdr s k = a" for k
  proof -
    obtain i where i: "i < nbrs s" "k = kptr s i" "kidx s k = i" "index_from_key s k = int i" by (rule live_index [OF inv(1) k(1)])
    show ?thesis using get_from_lladdr_eq [OF inv i(1)] i(2,3) k by (simp add: in_table_def)
  qed
  show "nbr_table_get_from_lladdr s t (Some a) = Some NULL" if n: "replay_map le s ks t a = None"
  proof (cases "key_of s ks a")
    case None
    then show ?thesis using get_from_lladdr_unknown [OF inv(1)] by (simp add: key_of_None)
  next
    case (Some k)
    then show ?thesis using get key_of_Some [OF Some] n by (auto simp: replay_map_def split: if_splits)
  qed
  show "\<exists>k \<in> set ks. key_lladdr s k = a \<and> in_table s t k \<and>
      nbr_table_get_from_lladdr s t (Some a) = Some (item_at s t (kidx s k)) \<and> item_at s t (kidx s k) \<noteq> NULL \<and>
      load_info le (item_mem s) (item_at s t (kidx s k)) = i" if "replay_map le s ks t a = Some i"
    using that get item_from_key_live [OF inv] unfolding replay_map_iff [OF inv(1)] by auto
qed

lemma same_Some: "(\<And>v. x = Some v \<longleftrightarrow> y = Some v) \<Longrightarrow> x = y"
  by (cases x) (metis not_None_eq, metis)

text \<open>Storing the information about one sender leaves that about the others alone.\<close>

lemma sec_inv_store: "sec_inv s ks t \<Longrightarrow> sec_inv (store_info le x i s) ks t"
  by (simp add: sec_inv_def store_info_def nbr_inv_def all_locked_def in_table_def locked_in_def)

lemma replay_map_store:
  assumes "sec_inv s ks t" "k \<in> set ks" "in_table s t k"
  shows "replay_map le (store_info le (item_at s t (kidx s k)) i s) ks t = (replay_map le s ks t)(key_lladdr s k \<mapsto> i)"
proof
  fix a
  let ?s = "store_info le (item_at s t (kidx s k)) i s"
  have inv: "nbr_inv s ks" "table_ok s t" "nt_item_size (tables s t) = 8" using assms(1) by (simp_all add: sec_inv_def)
  have inv': "nbr_inv ?s ks" using sec_inv_store [OF assms(1), of le "item_at s t (kidx s k)" i] by (simp add: sec_inv_def)
  have inj: "inj_on (key_lladdr s) (set ks)" using inv(1) by (simp add: nbr_inv_def)
  have e: "key_lladdr ?s = key_lladdr s" "in_table ?s t x = in_table s t x" "kidx ?s x = kidx s x" "tables ?s = tables s" for x
    by (simp_all add: store_info_def in_table_def)
  have kidx: "kidx s x \<noteq> kidx s k" if "x \<in> set ks" "x \<noteq> k" for x
    using that(2) by (cases rule: live_index [OF inv(1) that(1)]; cases rule: live_index [OF inv(1) assms(2)]) auto
  have other: "load_info le (item_mem ?s) (item_at s t (kidx s x)) = load_info le (item_mem s) (item_at s t (kidx s x))"
    if "x \<in> set ks" "x \<noteq> k" for x
  proof (rule load_info_cong)
    fix j :: nat assume "j < 8"
    then have "\<not> (item_at s t (kidx s k) \<le> item_at s t (kidx s x) + j \<and> item_at s t (kidx s x) + j < item_at s t (kidx s k) + 8)"
      using item_disjoint [of "kidx s k" "kidx s x" j 8 "nt_data (tables s t)"] kidx [OF that] inv(3) by simp
    then show "item_mem ?s (item_at s t (kidx s x) + j) = item_mem s (item_at s t (kidx s x) + j)"
      by (intro store_info_other) linarith
  qed
  show "replay_map le ?s ks t a = ((replay_map le s ks t)(key_lladdr s k \<mapsto> i)) a"
  proof (cases "a = key_lladdr s k")
    case True
    have "replay_map le ?s ks t a = Some i"
      unfolding replay_map_iff [OF inv'] e using assms(2,3) True by (intro bexI [of _ k]) (simp_all add: load_store_info)
    then show ?thesis using True by simp
  next
    case False
    then have "load_info le (item_mem ?s) (item_at s t (kidx s x)) = load_info le (item_mem s) (item_at s t (kidx s x))"
      if "x \<in> set ks" "key_lladdr s x = a" for x using other that by blast
    then have "replay_map le ?s ks t a = Some v \<longleftrightarrow> replay_map le s ks t a = Some v" for v
      unfolding replay_map_iff [OF inv'] replay_map_iff [OF inv(1)] e by (intro bex_cong conj_cong refl) simp
    then have "replay_map le ?s ks t a = replay_map le s ks t a"
      by (intro same_Some) simp
    then show ?thesis using False by simp
  qed
qed

lemma joined_map:
  assumes "nbr_inv s ks" "nt_item_size (tables s t) = 8" and j: "joined s ks t a s' ks' k"
    and a: "replay_map le s ks t a = None" and x: "x \<noteq> a"
  shows "replay_map le s' ks' t x = replay_map le s ks t x"
proof (rule same_Some)
  fix v
  have inv': "nbr_inv s' ks'" and same: "tables s' = tables s" "key_lladdr s' k = a"
    and others: "\<And>y. y \<in> set ks' \<Longrightarrow> y \<noteq> k \<Longrightarrow> y \<in> set ks \<and> in_table s' t y = in_table s t y"
    and fwd: "\<And>y. y \<in> set ks \<Longrightarrow> in_table s t y \<Longrightarrow> y \<in> set ks' \<and> y \<noteq> k \<and> key_lladdr s' y = key_lladdr s y \<and> kidx s' y = kidx s y \<and>
       (\<forall>j < nt_item_size (tables s t). item_mem s' (item_at s t (kidx s y) + j) = item_mem s (item_at s t (kidx s y) + j))"
    using j by (simp_all add: joined_def)
  have ld: "load_info le (item_mem s') (item_at s' t (kidx s' y)) = load_info le (item_mem s) (item_at s t (kidx s y))"
    if "y \<in> set ks" "in_table s t y" for y
    using fwd [OF that] same(1) assms(2) load_info_cong [of "item_mem s'" "item_at s t (kidx s y)" "item_mem s" le] by simp
  show "replay_map le s' ks' t x = Some v \<longleftrightarrow> replay_map le s ks t x = Some v"
    unfolding replay_map_iff [OF inv'] replay_map_iff [OF assms(1)]
  proof
    assume "\<exists>y\<in>set ks'. key_lladdr s' y = x \<and> in_table s' t y \<and> v = load_info le (item_mem s') (item_at s' t (kidx s' y))"
    then obtain y where y: "y \<in> set ks'" "key_lladdr s' y = x" "in_table s' t y" "v = load_info le (item_mem s') (item_at s' t (kidx s' y))" by blast
    then have "y \<noteq> k" using same(2) x by auto
    then have "y \<in> set ks" "in_table s t y" using others y by auto
    then show "\<exists>y\<in>set ks. key_lladdr s y = x \<and> in_table s t y \<and> v = load_info le (item_mem s) (item_at s t (kidx s y))"
      using fwd ld y(2,4) by (intro bexI [of _ y]) auto
  next
    assume "\<exists>y\<in>set ks. key_lladdr s y = x \<and> in_table s t y \<and> v = load_info le (item_mem s) (item_at s t (kidx s y))"
    then obtain y where y: "y \<in> set ks" "key_lladdr s y = x" "in_table s t y" "v = load_info le (item_mem s) (item_at s t (kidx s y))" by blast
    show "\<exists>y\<in>set ks'. key_lladdr s' y = x \<and> in_table s' t y \<and> v = load_info le (item_mem s') (item_at s' t (kidx s' y))"
      using fwd [OF y(1,3)] others [of y] ld [OF y(1,3)] y by (intro bexI [of _ y]) auto
  qed
qed

text \<open>The new neighbor is locked at once.\<close>

lemma lock_joined:
  assumes "nt_item_size (tables s t) = 8" and j: "joined s ks t a s' ks' k"
  shows "\<exists>sl. nbr_table_lock s' t (item_at s' t (kidx s' k)) = (True, sl) \<and> sec_inv sl ks' t \<and> tables sl = tables s' \<and>
    key_lladdr sl k = a \<and> k \<in> set ks' \<and> in_table sl t k \<and> kidx sl k = kidx s' k \<and>
    (\<forall>x. replay_map le sl ks' t x = replay_map le s' ks' t x)"
proof -
  have inv': "nbr_inv s' ks'" "table_ok s' t" and k: "k \<in> set ks'" "key_lladdr s' k = a" "in_table s' t k" and tb: "tables s' = tables s"
    and lk: "\<And>y. y \<in> set ks' \<Longrightarrow> y \<noteq> k \<Longrightarrow> in_table s' t y \<Longrightarrow> locked_in s' t y"
    using j by (simp_all add: joined_def)
  obtain i where i: "i < nbrs s'" "k = kptr s' i" "kidx s' k = i" "index_from_key s' k = int i" by (rule live_index [OF inv'(1) k(1)])
  define w where "w = locked_map s' ! i OR push_bit (nt_index (tables s' t)) 1"
  define sl where "sl = s'\<lparr>locked_map := (locked_map s')[i := w]\<rparr>"
  have n8: "nt_index (tables s' t) < 8" using inv'(2) by (simp add: table_ok_def MAX_NUM_TABLES_def)
  have len: "length (locked_map s') = nbrs s'" using inv'(1) by (simp add: nbr_inv_def)
  have ik: "kptr s' i \<in> set ks'" using i(2) k(1) by simp
  have e: "tables sl = tables s'" "key_lladdr sl = key_lladdr s'" "kidx sl x = kidx s' x" "in_table sl t x = in_table s' t x"
    "item_mem sl = item_mem s'" "key_of sl xs x' = key_of s' xs x'" for x xs x'
    by (simp_all add: sl_def in_table_def key_of_def)
  have "locked_in sl t y" if y: "y \<in> set ks'" "in_table s' t y" for y
  proof (cases "y = k")
    case True
    then show ?thesis using i(3) len i(1) n8 by (simp add: locked_in_def sl_def w_def bit_or_iff bit_exp_iff)
  next
    case False
    then have "kidx s' y \<noteq> i" using i(2) by (cases rule: live_index [OF inv'(1) y(1)]) auto
    then show ?thesis using lk [OF y(1) False y(2)] by (simp add: locked_in_def sl_def)
  qed
  then have "all_locked sl ks' t" by (simp add: all_locked_def e(4))
  moreover have "nbr_inv sl ks'" unfolding sl_def by (rule nbr_inv_used(3) [OF inv'(1) ik])
  moreover have "table_ok sl t" using inv'(2) by (simp add: sl_def)
  ultimately have "sec_inv sl ks' t" using assms(1) tb by (simp add: sec_inv_def e(1))
  moreover have "nbr_table_lock s' t (item_at s' t i) = (True, sl)"
    using set_bit_eq [OF inv'(2) i(1), of "locked_map s'" True] by (simp add: nbr_table_lock_def sl_def w_def)
  moreover have "replay_map le sl ks' t x = replay_map le s' ks' t x" for x
    by (simp add: replay_map_def e split: option.split)
  ultimately show ?thesis using k i(3) e(1-4) by (intro exI [of _ sl]) simp
qed

text \<open>\<open>check_replay\<close> is the filter of \<open>anti-replay.c\<close> on the stored counters of the sender.\<close>

lemma check_replay_known:
  assumes "sec_inv s ks t" "replay_map le s ks t (packetbuf_addr ADDR_SENDER p) = Some i"
    and "anti_replay_was_replayed le p i = (r, i')"
  shows "\<exists>s'. check_replay le cb t p s = Some (\<not> r, p, s') \<and> sec_inv s' ks t \<and>
    replay_map le s' ks t = (replay_map le s ks t)(packetbuf_addr ADDR_SENDER p \<mapsto> i')"
proof -
  obtain k where k: "k \<in> set ks" "key_lladdr s k = packetbuf_addr ADDR_SENDER p" "in_table s t k"
    "nbr_table_get_from_lladdr s t (Some (packetbuf_addr ADDR_SENDER p)) = Some (item_at s t (kidx s k))"
    "item_at s t (kidx s k) \<noteq> NULL" "load_info le (item_mem s) (item_at s t (kidx s k)) = i"
    using get_info(2) [OF assms(1,2)] by blast
  let ?s = "store_info le (item_at s t (kidx s k)) i' s"
  have "check_replay le cb t p s = Some (\<not> r, p, ?s)"
    unfolding check_replay_def Let_def k(4) bind.simps if_not_P [OF k(5)] k(6) assms(3) by simp
  then show ?thesis using sec_inv_store [OF assms(1)] replay_map_store [OF assms(1) k(1,3), of le i'] k(2) by auto
qed

lemma check_replay_new:
  assumes "sec_inv s ks t" "callbacks_ok cb" "spares t cb" and n: "replay_map le s ks t (packetbuf_addr ADDR_SENDER p) = None"
  shows "check_replay le cb t p s = Some (False, p, s) \<and> \<not> length ks < nbrs s \<and> unlocked s ks = [] \<or>
    (\<exists>s' ks'. check_replay le cb t p s = Some (True, p, s') \<and> sec_inv s' ks' t \<and>
      replay_map le s' ks' t = (replay_map le s ks t)(packetbuf_addr ADDR_SENDER p \<mapsto> anti_replay_init_info le p))"
proof -
  let ?a = "packetbuf_addr ADDR_SENDER p" and ?i = "anti_replay_init_info le p"
  have inv: "nbr_inv s ks" "table_ok s t" "all_locked s ks t" "nt_item_size (tables s t) = 8"
    using assms(1) by (simp_all add: sec_inv_def)
  have new: "\<not> in_table s t x" if "x \<in> set ks" "key_lladdr s x = ?a" for x
  proof
    assume "in_table s t x"
    then have "replay_map le s ks t ?a = Some (load_info le (item_mem s) (item_at s t (kidx s x)))"
      unfolding replay_map_iff [OF inv(1)] using that by blast
    then show False using n by simp
  qed
  note get = get_info(1) [OF assms(1) n]
  have "nbr_table_add_lladdr cb s t (Some ?a) = Some (NULL, s) \<and> \<not> length ks < nbrs s \<and> unlocked s ks = [] \<or>
    (\<exists>s' ks' k. nbr_table_add_lladdr cb s t (Some ?a) = Some (item_at s' t (kidx s' k), s') \<and> joined s ks t ?a s' ks' k)"
    by (rule add_lladdr_joined [OF inv(1,2) assms(2,3) inv(3)]) (rule new)
  then show ?thesis
  proof (elim disjE exE conjE)
    assume "nbr_table_add_lladdr cb s t (Some ?a) = Some (NULL, s)" "\<not> length ks < nbrs s" "unlocked s ks = []"
    then show ?thesis by (simp add: check_replay_def Let_def get)
  next
    fix s' ks' k
    assume add: "nbr_table_add_lladdr cb s t (Some ?a) = Some (item_at s' t (kidx s' k), s')" and j: "joined s ks t ?a s' ks' k"
    obtain sl where sl: "nbr_table_lock s' t (item_at s' t (kidx s' k)) = (True, sl)" "sec_inv sl ks' t" "tables sl = tables s'"
      "key_lladdr sl k = ?a" "k \<in> set ks'" "in_table sl t k" "kidx sl k = kidx s' k"
      "\<And>x. replay_map le sl ks' t x = replay_map le s' ks' t x"
      using lock_joined [OF inv(4) j, of le] by blast
    have "table_ok s' t" using j by (simp add: joined_def)
    then have ne: "item_at s' t (kidx s' k) \<noteq> NULL" by (simp add: table_ok_def)
    let ?s = "store_info le (item_at s' t (kidx s' k)) ?i sl"
    have "check_replay le cb t p s = Some (True, p, ?s)"
      unfolding check_replay_def Let_def get bind.simps if_P [OF refl] add prod.case if_not_P [OF ne] sl(1) by simp
    moreover have "replay_map le ?s ks' t = (replay_map le sl ks' t)(?a \<mapsto> ?i)"
      using replay_map_store [OF sl(2,5,6), of le ?i] sl(3,4,7) by simp
    moreover have "(replay_map le sl ks' t)(?a \<mapsto> ?i) = (replay_map le s ks t)(?a \<mapsto> ?i)"
      using joined_map [OF inv(1,4) j n] sl(8) by auto
    ultimately show ?thesis using sec_inv_store [OF sl(2)] by auto
  qed
qed

section \<open>Receiving a frame\<close>

definition sender_nonce :: "packetbuf \<Rightarrow> u8 list" where
  "sender_nonce q = nonce q (get_extended_address (packetbuf_addr ADDR_SENDER q))"

definition authentic :: "(u8 list \<Rightarrow> u8 list) \<Rightarrow> u16 \<Rightarrow> packetbuf \<Rightarrow> u8 list \<Rightarrow> bool" where
  "authentic E lvl q payload \<longleftrightarrow> data_bytes q = secured E lvl (sender_nonce q) (frame_hdr q) payload"

definition rx_ok :: "bool \<Rightarrow> packetbuf \<Rightarrow> (linkaddr \<Rightarrow> anti_replay_info option) \<Rightarrow> bool" where
  "rx_ok le q m = (case m (packetbuf_addr ADDR_SENDER q) of None \<Rightarrow> True | Some i \<Rightarrow> fresh_for le q i)"

definition rx_map ::
    "bool \<Rightarrow> packetbuf \<Rightarrow> (linkaddr \<Rightarrow> anti_replay_info option) \<Rightarrow> linkaddr \<Rightarrow> anti_replay_info option" where
  "rx_map le q m = m(packetbuf_addr ADDR_SENDER q \<mapsto>
     (case m (packetbuf_addr ADDR_SENDER q) of None \<Rightarrow> anti_replay_init_info le q
      | Some i \<Rightarrow> snd (anti_replay_was_replayed le q i)))"

lemma authentic_iff:
  assumes "aes_driver E" "lvl AND 3 \<noteq> 0"
    and "unat (LLSEC802154_MIC_LENGTH lvl) \<le> length (data_bytes q)"
  defines "n \<equiv> length (data_bytes q) - unat (LLSEC802154_MIC_LENGTH lvl)"
    and "pl \<equiv> stream E lvl (sender_nonce q) (take (length (data_bytes q) - unat (LLSEC802154_MIC_LENGTH lvl)) (data_bytes q))"
  shows "authentic E lvl q payload \<longleftrightarrow> payload = pl \<and> drop n (data_bytes q) = frame_tag E lvl (sender_nonce q) (frame_hdr q) pl"
proof -
  let ?N = "sender_nonce q"
  have lt: "length (frame_tag E lvl ?N (frame_hdr q) x) = unat (LLSEC802154_MIC_LENGTH lvl)" for x
    unfolding sender_nonce_def by (rule length_frame_tag [OF assms(1) length_nonce assms(2)])
  have "authentic E lvl q payload \<longleftrightarrow>
      take n (data_bytes q) = stream E lvl ?N payload \<and> drop n (data_bytes q) = frame_tag E lvl ?N (frame_hdr q) payload"
  proof
    assume a: "authentic E lvl q payload"
    then have "length payload = n" using lt [of payload] by (simp add: authentic_def secured_def n_def)
    then show "take n (data_bytes q) = stream E lvl ?N payload \<and> drop n (data_bytes q) = frame_tag E lvl ?N (frame_hdr q) payload"
      using a by (simp add: authentic_def secured_def)
  next
    assume a: "take n (data_bytes q) = stream E lvl ?N payload \<and> drop n (data_bytes q) = frame_tag E lvl ?N (frame_hdr q) payload"
    then show "authentic E lvl q payload"
      using append_take_drop_id [of n "data_bytes q"] by (simp add: authentic_def secured_def)
  qed
  moreover have "take n (data_bytes q) = stream E lvl ?N payload \<longleftrightarrow> payload = pl"
    by (metis n_def pl_def stream_stream)
  ultimately show ?thesis by blast
qed

lemma input_open:
  assumes E: "aes_driver E" and l: "packetbuf_attr ATTR_SECURITY_LEVEL q = lvl" "lvl AND 3 \<noteq> 0"
    and q: "frame_layout q" and M: "unat (LLSEC802154_MIC_LENGTH lvl) \<le> length (data_bytes q)"
    and a: "packetbuf_addr ADDR_SENDER q \<noteq> node"
  shows "\<exists>q' pl. data_bytes q' = pl \<and> frame_hdr q' = frame_hdr q \<and> packetbuf_addr ADDR_SENDER q' = packetbuf_addr ADDR_SENDER q \<and>
    anti_replay_get_counter le q' = anti_replay_get_counter le q \<and> packetbuf_holds_broadcast q' = packetbuf_holds_broadcast q \<and>
    (\<forall>payload. authentic E lvl q payload \<longrightarrow> payload = pl) \<and>
    noncoresec_input le lvl E node cb t q behind s =
      (if authentic E lvl q pl then map_option Within (check_replay le cb t q' s) else Some (Within (False, q', s)))"
proof -
  let ?M = "LLSEC802154_MIC_LENGTH lvl" and ?a = "packetbuf_addr ADDR_SENDER q" and ?N = "sender_nonce q"
  define n where "n = length (data_bytes q) - unat ?M"
  define pl where "pl = stream E lvl ?N (take n (data_bytes q))"
  define q1 where "q1 = packetbuf_set_datalen (packetbuf_datalen q - ?M) q"
  define q2 where "q2 = with_data q1 pl"
  note r = receive_view [OF q M, folded q1_def n_def]
  have ld: "length pl = n" "length pl = length (data_bytes q1)" using r(3) by (simp_all add: pl_def n_def)
  note w = with_data_view [OF r(1) ld(2), folded q2_def]
  have c: "(if WITH_ENCRYPTION lvl then ctr E q1 (get_extended_address ?a) behind else Some (q1, behind)) = Some (q2, behind)"
    using crypt_view [OF r(1), of lvl E "get_extended_address ?a" behind] r(3,4) by (simp add: q2_def pl_def sender_nonce_def)
  have N: "nonce q2 (get_extended_address ?a) = ?N" using w(4) r(4) by (simp add: sender_nonce_def)
  have l2: "packetbuf_attr ATTR_SECURITY_LEVEL q2 = lvl" using l(1) by (simp add: q2_def q1_def)
  have m: "mic E (WITH_ENCRYPTION lvl) q2 (get_extended_address ?a) (ucast ?M) = Some (frame_tag E lvl ?N (frame_hdr q) pl)"
    using mic_frame_tag [OF E w(1) l2 l(2), of ?a] w(2,3) r(2) N by simp
  have rd: "read_bytes (pb_mem q2) (packetbuf_dataptr q2 + unat (packetbuf_datalen q2)) (unat ?M) = Some (drop n (data_bytes q))"
    unfolding q2_def by (rule r(5) [OF ld(1)])
  have au: "authentic E lvl q x \<longleftrightarrow> x = pl \<and> drop n (data_bytes q) = frame_tag E lvl ?N (frame_hdr q) pl" for x
    unfolding n_def pl_def by (rule authentic_iff [OF E l(2) M])
  have "noncoresec_input le lvl E node cb t q behind s =
      (if frame_tag E lvl ?N (frame_hdr q) pl \<noteq> drop n (data_bytes q) then Some (Within (False, q2, s))
       else map_option Within (check_replay le cb t q2 s))"
    using l(1) a unfolding noncoresec_input_def Let_def
    by (simp only: q1_def [symmetric] c bind.simps prod.case option.case m rd linkaddr_cmp_eq if_False simp_thms)
  then have "noncoresec_input le lvl E node cb t q behind s =
      (if authentic E lvl q pl then map_option Within (check_replay le cb t q2 s) else Some (Within (False, q2, s)))"
    unfolding au by (simp add: eq_commute)
  moreover have "packetbuf_addr ADDR_SENDER q2 = ?a" "anti_replay_get_counter le q2 = anti_replay_get_counter le q"
    "packetbuf_holds_broadcast q2 = packetbuf_holds_broadcast q" by (simp_all add: q2_def q1_def)
  ultimately show ?thesis using w(2,3) r(2) au by (intro exI [of _ q2] exI [of _ pl]) simp
qed

text \<open>The outcomes of \<open>input\<close>: refused without effect, or passed to the filter of the sender's counters.\<close>

definition refused ::
    "(u8 list \<Rightarrow> u8 list) \<Rightarrow> u16 \<Rightarrow> linkaddr \<Rightarrow> packetbuf \<Rightarrow> bool" where
  "refused E lvl node q \<longleftrightarrow> packetbuf_attr ATTR_SECURITY_LEVEL q \<noteq> lvl \<or> packetbuf_addr ADDR_SENDER q = node \<or>
     (\<nexists>payload. authentic E lvl q payload)"

definition no_room :: "'u nbr_sys \<Rightarrow> ptr list \<Rightarrow> bool" where
  "no_room s ks \<longleftrightarrow> \<not> length ks < nbrs s \<and> unlocked s ks = []"

lemma check_replay_step:
  assumes "sec_inv s ks t" "callbacks_ok cb" "spares t cb"
    and q: "packetbuf_addr ADDR_SENDER q' = packetbuf_addr ADDR_SENDER q"
      "anti_replay_get_counter le q' = anti_replay_get_counter le q" "packetbuf_holds_broadcast q' = packetbuf_holds_broadcast q"
  shows "(check_replay le cb t q' s = Some (False, q', s) \<and> replay_map le s ks t (packetbuf_addr ADDR_SENDER q) = None \<and> no_room s ks) \<or>
    (\<exists>s' ks'. check_replay le cb t q' s = Some (rx_ok le q (replay_map le s ks t), q', s') \<and> sec_inv s' ks' t \<and>
      replay_map le s' ks' t = rx_map le q (replay_map le s ks t))"
proof -
  have i: "anti_replay_init_info le q' = anti_replay_init_info le q" using q by (simp add: anti_replay_init_info_def)
  have w: "anti_replay_was_replayed le q' x = anti_replay_was_replayed le q x" for x using q by (simp add: anti_replay_was_replayed_def)
  show ?thesis
  proof (cases "replay_map le s ks t (packetbuf_addr ADDR_SENDER q)")
    case None
    then show ?thesis using check_replay_new [OF assms(1-3), of le q'] q(1) i
      by (auto simp: rx_ok_def rx_map_def no_room_def)
  next
    case (Some x)
    obtain r x' where r: "anti_replay_was_replayed le q x = (r, x')" by fastforce
    then show ?thesis using check_replay_known [OF assms(1), of le q' x r x' cb] was_replayed_step(1) [OF r] Some q(1) w
      by (auto simp: rx_ok_def rx_map_def)
  qed
qed

lemma input_step:
  assumes E: "aes_driver E" and l: "lvl AND 3 \<noteq> 0"
    and q: "frame_layout q" and M: "unat (LLSEC802154_MIC_LENGTH lvl) \<le> length (data_bytes q)"
    and s: "sec_inv s ks t" "callbacks_ok cb" "spares t cb"
  shows "(\<exists>q'. noncoresec_input le lvl E node cb t q behind s = Some (Within (False, q', s)) \<and>
      (refused E lvl node q \<or> replay_map le s ks t (packetbuf_addr ADDR_SENDER q) = None \<and> no_room s ks) \<and>
      (refused E lvl node q \<or> authentic E lvl q (data_bytes q'))) \<or>
    (\<exists>q' s' ks'. noncoresec_input le lvl E node cb t q behind s = Some (Within (rx_ok le q (replay_map le s ks t), q', s')) \<and>
      \<not> refused E lvl node q \<and> authentic E lvl q (data_bytes q') \<and> frame_hdr q' = frame_hdr q \<and>
      sec_inv s' ks' t \<and> replay_map le s' ks' t = rx_map le q (replay_map le s ks t))"
proof (cases "packetbuf_attr ATTR_SECURITY_LEVEL q = lvl \<and> packetbuf_addr ADDR_SENDER q \<noteq> node")
  case False
  then show ?thesis by (auto simp: noncoresec_input_def refused_def)
next
  case True
  then have lv: "packetbuf_attr ATTR_SECURITY_LEVEL q = lvl" and a: "packetbuf_addr ADDR_SENDER q \<noteq> node" by simp_all
  obtain q' where q': "frame_hdr q' = frame_hdr q" "packetbuf_addr ADDR_SENDER q' = packetbuf_addr ADDR_SENDER q"
    "anti_replay_get_counter le q' = anti_replay_get_counter le q" "packetbuf_holds_broadcast q' = packetbuf_holds_broadcast q"
    "\<forall>payload. authentic E lvl q payload \<longrightarrow> payload = data_bytes q'"
    "noncoresec_input le lvl E node cb t q behind s =
      (if authentic E lvl q (data_bytes q') then map_option Within (check_replay le cb t q' s) else Some (Within (False, q', s)))"
    using input_open [OF E lv l q M a, of le cb t behind s] by blast
  show ?thesis
  proof (cases "authentic E lvl q (data_bytes q')")
    case True
    then have "\<not> refused E lvl node q" using lv a by (auto simp: refused_def)
    then show ?thesis using check_replay_step [OF s q'(2-4)] q'(1,6) True by auto
  next
    case False
    then have "refused E lvl node q" using q'(5) by (auto simp: refused_def)
    then show ?thesis using q'(6) False by auto
  qed
qed

text \<open>The stored counters only grow, and an accepted frame's counter is among them.\<close>

lemma rx_map_grows:
  assumes "m x = Some i"
  shows "\<exists>i'. rx_map le q m x = Some i' \<and> (\<forall>b. last_counter b i \<le> last_counter b i')"
proof (cases "x = packetbuf_addr ADDR_SENDER q")
  case True
  obtain r i' where r: "anti_replay_was_replayed le q i = (r, i')" by fastforce
  then have "last_counter b i \<le> last_counter b i'" for b using was_replayed_step(2) [OF r, of b] by simp
  then show ?thesis using True assms r by (simp add: rx_map_def)
qed (use assms in \<open>simp add: rx_map_def\<close>)

lemma rx_map_counter:
  "\<exists>i. rx_map le q m (packetbuf_addr ADDR_SENDER q) = Some i \<and>
     anti_replay_get_counter le q \<le> last_counter (packetbuf_holds_broadcast q) i"
proof (cases "m (packetbuf_addr ADDR_SENDER q)")
  case None
  then show ?thesis by (simp add: rx_map_def anti_replay_init_info_def last_counter_def)
next
  case (Some x)
  obtain r x' where r: "anti_replay_was_replayed le q x = (r, x')" by fastforce
  then show ?thesis using was_replayed_step(2) [OF r, of "packetbuf_holds_broadcast q"] Some by (simp add: rx_map_def)
qed

lemma rx_twice: "\<not> rx_ok le q (rx_map le q m)"
  using rx_map_counter [of le q m] by (auto simp: rx_ok_def fresh_for_def)

section \<open>What the driver guarantees\<close>

text \<open>The frame that \<open>q\<close> holds after it was received and parsed is the one the sender \<open>node\<close> had in \<open>p\<close>.\<close>

definition arrived :: "linkaddr \<Rightarrow> packetbuf \<Rightarrow> packetbuf \<Rightarrow> bool" where
  "arrived node p q \<longleftrightarrow> frame_layout q \<and> frame_hdr q = frame_hdr p \<and> data_bytes q = data_bytes p \<and>
     packetbuf_addr ADDR_SENDER q = node \<and>
     (\<forall>x \<in> {ATTR_SECURITY_LEVEL, ATTR_FRAME_COUNTER_BYTES_0_1, ATTR_FRAME_COUNTER_BYTES_2_3}. packetbuf_attr x q = packetbuf_attr x p)"

lemma arrived_authentic:
  assumes E: "aes_driver E" and "lvl AND 3 \<noteq> 0"
    and "arrived node p' q" "frame_hdr p' = frame_hdr p" "pb_attrs p' = pb_attrs p"
    "data_bytes p' = secured E lvl (nonce p (get_extended_address node)) (frame_hdr p) (data_bytes p)"
  shows "authentic E lvl q (data_bytes p) \<and> unat (LLSEC802154_MIC_LENGTH lvl) \<le> length (data_bytes q)"
proof -
  have "sender_nonce q = nonce p (get_extended_address node)"
    using assms(3,5) by (simp add: arrived_def sender_nonce_def nonce_def packetbuf_attr_def)
  then have a: "authentic E lvl q (data_bytes p)" using assms(3,4,6) by (simp add: authentic_def arrived_def)
  have "length (frame_tag E lvl (sender_nonce q) (frame_hdr q) (data_bytes p)) = unat (LLSEC802154_MIC_LENGTH lvl)"
    unfolding sender_nonce_def by (rule length_frame_tag [OF E length_nonce assms(2)])
  then show ?thesis using a by (simp add: authentic_def secured_def)
qed

text \<open>
  C26. A frame secured by \<open>on_frame_created\<close> (header kept, payload encrypted, tag appended) and received by another node
  with the same key is accepted with its payload restored if the node knows nothing of the sender and has a neighbor entry to
  give, or if the frame's counter is new for the sender; the same frame is refused when it arrives again.
\<close>

theorem noncoresec_roundtrip:
  assumes "aes_driver E" and "packetbuf_attr ATTR_SECURITY_LEVEL p = lvl" and "lvl AND 3 \<noteq> 0"
    and "frame_layout p" and "unat (pb_bufptr p) + unat (pb_buflen p) + unat (LLSEC802154_MIC_LENGTH lvl) \<le> 128"
  shows "\<exists>p'. (\<forall>behind. on_frame_created E lvl node p behind = Some (Within p')) \<and> frame_layout p' \<and> frame_hdr p' = frame_hdr p \<and>
    pb_attrs p' = pb_attrs p \<and>
    (\<forall>q (s :: 'u nbr_sys) ks node' cb behind. arrived node p' q \<and> node' \<noteq> node \<and> sec_inv s ks t \<and> callbacks_ok cb \<and> spares t cb \<longrightarrow>
      (\<exists>ok q' s'. noncoresec_input le lvl E node' cb t q behind s = Some (Within (ok, q', s')) \<and> data_bytes q' = data_bytes p \<and>
        (case replay_map le s ks t node of None \<Rightarrow> ok \<or> no_room s ks | Some i \<Rightarrow> ok \<longleftrightarrow> fresh_for le q i) \<and>
        (\<exists>q'' s''. noncoresec_input le lvl E node' cb t q behind s' = Some (Within (False, q'', s'')))))"
proof -
  obtain p' where p': "\<forall>behind. on_frame_created E lvl node p behind = Some (Within p')" "frame_hdr p' = frame_hdr p" "pb_attrs p' = pb_attrs p"
    "data_bytes p' = secured E lvl (nonce p (get_extended_address node)) (frame_hdr p) (data_bytes p)"
    "frame_layout p'"
    using on_frame_created_eq [OF assms(1,4,2,3,5)] by blast
  show ?thesis
  proof (intro exI [of _ p'] conjI p'(1-3,5), intro allI impI, elim conjE)
    fix q ks node' behind and s :: "'u nbr_sys" and cb :: "'u nbr_callback"
    assume h: "arrived node p' q" "node' \<noteq> node" "sec_inv s ks t" "callbacks_ok cb" "spares t cb"
    note in' = input_step [OF assms(1,3), of q _ _ t cb le node' behind]
    have q: "frame_layout q" "packetbuf_addr ADDR_SENDER q = node" "packetbuf_attr ATTR_SECURITY_LEVEL q = lvl"
      using h(1) assms(2) p'(3) by (simp_all add: arrived_def packetbuf_attr_def)
    note au = arrived_authentic [OF assms(1,3) h(1) p'(2-4)]
    then have nr: "\<not> refused E lvl node' q" using q(2,3) h(2) by (auto simp: refused_def)
    have inj: "x = data_bytes p" if "authentic E lvl q x" for x
      using that au authentic_iff [OF assms(1,3) conjunct2 [OF au]] by metis
    from in' [OF q(1) conjunct2 [OF au] h(3-5)] nr consider
      (full) q' where "noncoresec_input le lvl E node' cb t q behind s = Some (Within (False, q', s))" "authentic E lvl q (data_bytes q')"
        "replay_map le s ks t (packetbuf_addr ADDR_SENDER q) = None" "no_room s ks"
      | (checked) q' s' ks' where "noncoresec_input le lvl E node' cb t q behind s = Some (Within (rx_ok le q (replay_map le s ks t), q', s'))"
        "authentic E lvl q (data_bytes q')" "sec_inv s' ks' t" "replay_map le s' ks' t = rx_map le q (replay_map le s ks t)"
      by blast
    then show "\<exists>ok q' s'. noncoresec_input le lvl E node' cb t q behind s = Some (Within (ok, q', s')) \<and> data_bytes q' = data_bytes p \<and>
        (case replay_map le s ks t node of None \<Rightarrow> ok \<or> no_room s ks | Some i \<Rightarrow> ok \<longleftrightarrow> fresh_for le q i) \<and>
        (\<exists>q'' s''. noncoresec_input le lvl E node' cb t q behind s' = Some (Within (False, q'', s'')))"
    proof cases
      case full
      then show ?thesis using inj q(2) by auto
    next
      case checked
      from in' [OF q(1) conjunct2 [OF au] checked(3) h(4,5)] checked(4) nr
      have "\<exists>q'' s''. noncoresec_input le lvl E node' cb t q behind s' = Some (Within (False, q'', s''))"
        using q(2) rx_map_counter [of le q "replay_map le s ks t"] rx_twice [of le q "replay_map le s ks t"] by auto
      then show ?thesis using checked(1) inj [OF checked(2)] q(2) by (auto simp: rx_ok_def split: option.split)
    qed
  qed
qed

text \<open>
  A run of the receiver over frames in any order, true or forged: which of them are passed on. The run is over when a call
  of \<open>input\<close> does not return or leaves the packet buffer.
\<close>

fun receive_all ::
    "bool \<Rightarrow> u16 \<Rightarrow> (u8 list \<Rightarrow> u8 list) \<Rightarrow> linkaddr \<Rightarrow> 'u nbr_callback \<Rightarrow> ptr \<Rightarrow> u8 list \<Rightarrow> packetbuf list \<Rightarrow> 'u nbr_sys \<Rightarrow>
       bool list" where
  "receive_all le lvl E node cb t behind [] s = []"
| "receive_all le lvl E node cb t behind (q # qs) s =
     (case noncoresec_input le lvl E node cb t q behind s of
        Some (Within (ok, _, s')) \<Rightarrow> ok # receive_all le lvl E node cb t behind qs s'
      | _ \<Rightarrow> [])"

lemma last_counter_mono: "fresh_for le q i' \<Longrightarrow> (\<And>b. last_counter b i \<le> last_counter b i') \<Longrightarrow> fresh_for le q i"
  unfolding fresh_for_def using le_less_trans by blast

text \<open>A frame that \<open>input\<close> takes on although its data is shorter than the tag.\<close>

definition too_short :: "u16 \<Rightarrow> linkaddr \<Rightarrow> packetbuf \<Rightarrow> bool" where
  "too_short lvl node q \<longleftrightarrow> packetbuf_attr ATTR_SECURITY_LEVEL q = lvl \<and> packetbuf_addr ADDR_SENDER q \<noteq> node \<and>
     length (data_bytes q) < unat (LLSEC802154_MIC_LENGTH lvl)"

text \<open>Its length without the tag wraps around, and the comparison of the tags is far behind the packet buffer.\<close>

lemma too_short_out:
  assumes q: "frame_layout q" and l: "lvl AND 3 \<noteq> 0" and short: "too_short lvl node q"
  shows "noncoresec_input le lvl E node cb t q behind s \<in> {None, Some Out_of_buffer}"
proof -
  let ?M = "LLSEC802154_MIC_LENGTH lvl" and ?a = "packetbuf_addr ADDR_SENDER q"
  note fs = frame_split [OF q]
  define q1 where "q1 = packetbuf_set_datalen (packetbuf_datalen q - ?M) q"
  have "unat (packetbuf_datalen q) < unat ?M" using short fs(5) by (simp add: too_short_def packetbuf_datalen_def)
  moreover from this have "unat (packetbuf_datalen q1) = unat (packetbuf_datalen q) + 65536 - unat ?M" by (simp add: q1_def unat_sub_if')
  ultimately have big: "65520 \<le> unat (packetbuf_datalen q1)" using mic_length [OF l] by linarith
  have q1: "length (pb_mem q1) = 176" using fs(8) by (simp add: q1_def)
  show ?thesis
  proof (cases "if WITH_ENCRYPTION lvl then ctr E q1 (get_extended_address ?a) behind else Some (q1, behind)")
    case None
    then show ?thesis using short unfolding noncoresec_input_def too_short_def Let_def q1_def [symmetric] by simp
  next
    case (Some x)
    obtain q2 b2 where x: "x = (q2, b2)" by fastforce
    have q2: "length (pb_mem q2) \<le> 176" "packetbuf_datalen q2 = packetbuf_datalen q1"
      using Some x q1 by (auto simp: ctr_def Let_def packetbuf_datalen_def split: if_splits bind_splits)
    then have rd: "read_bytes (pb_mem q2) (packetbuf_dataptr q2 + unat (packetbuf_datalen q2)) (unat ?M) = None"
      using big by (simp add: read_bytes_def)
    show ?thesis
      using short Some x rd unfolding noncoresec_input_def too_short_def Let_def q1_def [symmetric]
      by (cases "mic E (WITH_ENCRYPTION lvl) q2 (get_extended_address ?a) (ucast ?M)") simp_all
  qed
qed


lemma ctr_loop_bound:
  assumes "ctr_loop E p ext len pos counter m = Some m'" "unat pos mod 16 = 0"
  shows "unat len \<le> 240"
proof -
  have "unat pos mod 16 = 0 \<longrightarrow> unat len \<le> 240"
    using assms(1)
  proof (induction rule: ctr_loop.raw_induct [rotated, consumes 1])
    case (1 f E p ext len pos counter m r)
    show ?case
    proof (cases "pos < len")
      case True
      have "unat (pos + 16) mod 16 = 0" if "unat pos mod 16 = 0" using that by (simp add: unat_word_ariths mod_mod_cancel)
      then show ?thesis using 1 True by auto
    next
      case False
      have "unat pos \<le> 240" if "unat pos mod 16 = 0" using that unat_less_u8 [of pos] by presburger
      then show ?thesis using False by (auto simp: word_less_nat_alt)
    qed
  qed
  then show ?thesis using assms(2) by blast
qed

text \<open>
  C28. At a level with encryption, a frame of the right level from another node whose data is shorter than the tag
  makes \<open>input\<close> run forever (unless the tag has 16 bytes and there is no data at all): the length without the tag wraps
  around, and \<open>ctr\<close> gets a message of more than 240 bytes, over which its 8-bit position wraps around as well. This
  is so whatever lies behind the packet buffer, which \<open>ctr\<close> overwrites on the way.
\<close>

theorem short_frame_hangs:
  assumes "packetbuf_attr ATTR_SECURITY_LEVEL q = lvl" and "packetbuf_addr ADDR_SENDER q \<noteq> node"
    and "lvl AND 3 \<noteq> 0" and "WITH_ENCRYPTION lvl"
    and "packetbuf_datalen q < LLSEC802154_MIC_LENGTH lvl" and "packetbuf_datalen q \<noteq> 0 \<or> LLSEC802154_MIC_LENGTH lvl < 16"
  shows "noncoresec_input le lvl E node cb t q behind s = None \<and>
    ctr E (packetbuf_set_datalen (packetbuf_datalen q - LLSEC802154_MIC_LENGTH lvl) q)
      (get_extended_address (packetbuf_addr ADDR_SENDER q)) behind = None"
proof -
  let ?M = "LLSEC802154_MIC_LENGTH lvl" and ?d = "packetbuf_datalen q"
  have M: "unat ?M \<le> 16" "unat ?d < unat ?M" "0 < unat ?d \<or> unat ?M < 16"
    using mic_length [OF assms(3)] assms(5,6) by (auto simp: word_less_nat_alt unat_gt_0)
  then have "unat (?d - ?M) = 65536 + unat ?d - unat ?M" by (simp add: unat_sub_if')
  then have "unat (ucast (?d - ?M) :: u8) = (65536 + unat ?d - unat ?M) mod 256" by (simp add: unat_ucast_u16_u8)
  also have "65536 + unat ?d - unat ?M = 255 * 256 + (256 + unat ?d - unat ?M)" using M by simp
  also have "(255 * 256 + (256 + unat ?d - unat ?M)) mod 256 = 256 + unat ?d - unat ?M"
    using M(2) by (simp only: mod_mult_self3) simp
  finally have "240 < unat (ucast (?d - ?M) :: u8)" using M by linarith
  then have "ctr_loop E p ext (ucast (?d - ?M)) 0 1 m = None" for p ext m
    using ctr_loop_bound [of E p ext "ucast (?d - ?M)" 0 1 m] by (cases "ctr_loop E p ext (ucast (?d - ?M)) 0 1 m") auto
  then have "ctr E (packetbuf_set_datalen (?d - ?M) q) ext behind = None" for ext by (simp add: ctr_def Let_def)
  then show ?thesis using assms(1,2,4) by (simp add: noncoresec_input_def Let_def)
qed

section \<open>An instance\<close>

text \<open>Room for two neighbors, none known, one table at 7 with items of eight bytes.\<close>

definition no_nbrs :: "unit nbr_sys" where
  "no_nbrs = \<lparr>used_map = [0, 0], locked_map = [0, 0], all_tables = [7, 0, 0, 0, 0, 0, 0, 0], num_tables = 1,
     neighbor_addr_mem = \<lparr>msize = 10, mnum = 2, mcount = [0, 0], mmem = 100, mbytes = []\<rparr>,
     nbr_heap = \<lparr>lhd = (\<lambda>_. 0), lnext = (\<lambda>_. 0)\<rparr>, key_lladdr = (\<lambda>_. linkaddr_null),
     tables = (\<lambda>_. \<lparr>nt_index = 0, nt_item_size = 8, nt_callback = NULL, nt_data = 500\<rparr>),
     item_mem = (\<lambda>_. 0), nbr_user = ()\<rparr>"

definition alice :: linkaddr where "alice = Linkaddr 0 0 0 0 0 0 0 1"
definition bob :: linkaddr where "bob = Linkaddr 0 0 0 0 0 0 0 2"

lemma no_nbrs_inv: "sec_inv no_nbrs [] 7" "\<not> no_room no_nbrs []" "replay_map le no_nbrs [] 7 a = None"
proof -
  have "mcount (neighbor_addr_mem no_nbrs) ! i = 0" if "i < nbrs no_nbrs" for i
    using that by (auto simp: no_nbrs_def less_2_cases_iff)
  then have "memb_live (neighbor_addr_mem no_nbrs) = {}" by (auto simp: memb_live_def)
  moreover have "nbrs no_nbrs = 2" by (simp add: no_nbrs_def)
  moreover have "used_map no_nbrs ! i = 0 \<and> locked_map no_nbrs ! i = 0" if "i < 2" for i
    using that by (auto simp: no_nbrs_def less_2_cases_iff)
  ultimately have "nbr_inv no_nbrs []"
    unfolding nbr_inv_def by (simp add: is_list_def nbr_table_keys_def) (simp add: no_nbrs_def memb_wf_def)
  then show "sec_inv no_nbrs [] 7"
    by (simp add: sec_inv_def all_locked_def) (simp add: table_ok_def no_nbrs_def MAX_NUM_TABLES_def)
  show "\<not> no_room no_nbrs []" by (simp add: no_room_def no_nbrs_def)
  show "replay_map le no_nbrs [] 7 a = None" by (simp add: replay_map_def key_of_def)
qed

lemma length_mix_columns: "length (fold mix_column cs s) = length s"
  by (induction cs arbitrary: s) (simp_all add: mix_column_def Let_def)

lemma length_add_round_key [simp]: "length (add_round_key i n k s) = length s"
  by (induction i n k s rule: add_round_key.induct) simp_all

lemma length_byte_sub [simp]: "length (byte_sub i n s) = length s"
  by (induction i n s rule: byte_sub.induct) simp_all

lemma length_encrypt_rounds: "length (encrypt_rounds r n ks s) = length s"
proof (induction n arbitrary: r s)
  case (Suc n)
  have "length (shift_row x) = length x" for x by (simp add: shift_row_def Let_def)
  then show ?case using Suc by (simp add: Let_def length_mix_columns)
qed simp

text \<open>The software driver of \<open>aes-128.c\<close> is such a driver, here under the key of the example of FIPS 197, the default key of the driver.\<close>

interpretation soft_aes: aes_driver "encrypt ks" for ks
  by unfold_locales (simp add: encrypt_def length_encrypt_rounds)

definition default_cipher :: "u8 list \<Rightarrow> u8 list" where
  "default_cipher = encrypt (fst (noncoresec_bootstrap fips_key no_keys 7 no_nbrs))"

lemma default_block_cipher: "aes_driver default_cipher"
  unfolding default_cipher_def by (rule soft_aes.aes_driver_axioms)

lemma secure_packet_level: "packetbuf_attr ATTR_SECURITY_LEVEL secure_packet = 6"
  by (simp add: secure_packet_def packetbuf_set_attr_def packetbuf_attr_def)

lemma secure_packet_room: "unat (pb_bufptr secure_packet) + unat (pb_buflen secure_packet) + unat (LLSEC802154_MIC_LENGTH 6) \<le> 128"
  by (simp add: secure_packet_def fresh_packetbuf_def packetbuf_clear_def packetbuf_attr_clear_def packetbuf_set_attr_def
      LLSEC802154_MIC_LENGTH_def)

lemma set_addr_layout:
  "frame_layout p \<Longrightarrow> frame_layout (packetbuf_set_addr x a p)" "data_bytes (packetbuf_set_addr x a p) = data_bytes p"
  "frame_hdr (packetbuf_set_addr x a p) = frame_hdr p"
  by (auto simp: frame_layout_def pb_wf_def packetbuf_set_addr_def data_bytes_def frame_hdr_def packetbuf_hdrlen_def
      packetbuf_hdrptr_def split: option.split)

lemma arrived_set_addr: "frame_layout p \<Longrightarrow> arrived a p (packetbuf_set_addr ADDR_SENDER a p)"
  by (simp add: arrived_def set_addr_layout) (simp add: packetbuf_set_addr_def packetbuf_addr_def packetbuf_attr_def)

lemma idle_callbacks: "callbacks_ok (\<lambda>_ _ s. s)" "spares t (\<lambda>_ _ s. s)"
  by (simp_all add: callbacks_ok_def spares_def kept_def)

theorem noncoresec_roundtrip_witness:
  "\<exists>p' q' s'. on_frame_created default_cipher 6 alice secure_packet [] = Some (Within p') \<and>
     noncoresec_input True 6 default_cipher bob (\<lambda>_ _ s. s) 7 (packetbuf_set_addr ADDR_SENDER alice p') [] no_nbrs =
       Some (Within (True, q', s')) \<and> data_bytes q' = [7, 8, 9]"
proof -
  have l: "(6 :: u16) AND 3 \<noteq> 0" by simp
  note rt = noncoresec_roundtrip [OF default_block_cipher secure_packet_level l secure_packet_layout secure_packet_room, where node = alice and t = 7 and le = True]
  from rt show ?thesis
  proof (elim exE conjE)
    fix p'
    let ?q = "packetbuf_set_addr ADDR_SENDER alice p'"
    assume p': "\<forall>behind. on_frame_created default_cipher 6 alice secure_packet behind = Some (Within p')" "frame_layout p'"
      and all: "\<forall>q (s :: unit nbr_sys) ks node' cb behind. arrived alice p' q \<and> node' \<noteq> alice \<and> sec_inv s ks 7 \<and> callbacks_ok cb \<and> spares 7 cb \<longrightarrow>
      (\<exists>ok q' s'. noncoresec_input True 6 default_cipher node' cb 7 q behind s = Some (Within (ok, q', s')) \<and>
        data_bytes q' = data_bytes secure_packet \<and>
        (case replay_map True s ks 7 alice of None \<Rightarrow> ok \<or> no_room s ks | Some i \<Rightarrow> ok \<longleftrightarrow> fresh_for True q i) \<and>
        (\<exists>q'' s''. noncoresec_input True 6 default_cipher node' cb 7 q behind s' = Some (Within (False, q'', s''))))"
    have "arrived alice p' ?q \<and> bob \<noteq> alice \<and> sec_inv no_nbrs [] 7 \<and>
        callbacks_ok (\<lambda>_ _ s :: unit nbr_sys. s) \<and> spares 7 (\<lambda>_ _ s :: unit nbr_sys. s)"
      using arrived_set_addr [OF p'(2)] no_nbrs_inv(1) by (simp add: alice_def bob_def idle_callbacks)
    with all have "\<exists>ok q' s'. noncoresec_input True 6 default_cipher bob (\<lambda>_ _ s. s) 7 ?q [] no_nbrs = Some (Within (ok, q', s')) \<and>
        data_bytes q' = data_bytes secure_packet \<and> (ok \<or> no_room no_nbrs [])"
      using no_nbrs_inv(3) [of True alice] by (metis (no_types, lifting) option.simps(4))
    then show ?thesis using p'(1) no_nbrs_inv(2) by (auto simp: secure_packet_bytes)
  qed
qed


theorem short_frame_hangs_witness:
  "noncoresec_input True 6 default_cipher alice (\<lambda>_ _ s. s) 7 secure_packet (replicate 300 1) no_nbrs = None"
proof -
  have "packetbuf_addr ADDR_SENDER secure_packet \<noteq> alice"
    by (simp add: secure_packet_def fresh_packetbuf_def packetbuf_clear_def packetbuf_attr_clear_def packetbuf_set_attr_def
        packetbuf_addr_def alice_def linkaddr_null_def)
  moreover have "packetbuf_datalen secure_packet < LLSEC802154_MIC_LENGTH 6" "packetbuf_datalen secure_packet \<noteq> 0 \<or> LLSEC802154_MIC_LENGTH 6 < 16"
    by (simp_all add: secure_packet_def fresh_packetbuf_def packetbuf_clear_def packetbuf_attr_clear_def packetbuf_set_attr_def
        packetbuf_datalen_def LLSEC802154_MIC_LENGTH_def)
  moreover have "(6 :: u16) AND 3 \<noteq> 0" "WITH_ENCRYPTION 6" by (simp_all add: WITH_ENCRYPTION_def)
  ultimately show ?thesis using short_frame_hangs [OF secure_packet_level, of alice True default_cipher] by blast
qed

end
