(* ===== verification/Csma.thy ===== *)
theory Csma
  imports Queuebuf LinkedList Timer "HOL-Library.Multiset"
begin

text \<open>
  The CSMA layer of \<open>core/net/mac/csma.c\<close>: a queue of packets for every neighbor, sent by the
  duty cycling layer below when the neighbor's callback timer fires, and sent again after a random backoff until
  an acknowledgement comes or the transmissions are used up. Built on the models of the list library, the
  block pools and the queue buffers; the list store holds the \<open>next\<close> fields of neighbors and
  packets, list 0 is \<open>neighbor_list\<close> and list \<open>n\<close> the queue inside the neighbor at \<open>n\<close>. As in
  \<open>Trickle\<close>, the callback timer inside a neighbor is seen through what \<open>ctimer_set\<close> writes and whether it is on
  the list of callback timers. The calls of \<open>send_list\<close> and of the sent callbacks, which all are the last
  action of a function, are results. The clock, the channel check interval of the duty cycling layer and the random
  number are arguments.
\<close>

section \<open>State\<close>

datatype mac_status = MAC_TX_OK | MAC_TX_COLLISION | MAC_TX_NOACK | MAC_TX_DEFERRED | MAC_TX_ERR | MAC_TX_ERR_FATAL

record qbuf_metadata =
  md_sent :: ptr
  md_cptr :: ptr
  max_transmissions :: u8

record rdc_buf_list =
  rb_buf :: ptr
  rb_ptr :: ptr

record neighbor_queue =
  nq_addr :: linkaddr
  nq_timer :: timer
  nq_listed :: bool
  transmissions :: u8
  collisions :: u8
  deferrals :: u8

text \<open>The packets: the pools and what their blocks hold.\<close>

record packets =
  packet_memb :: memb
  metadata_memb :: memb
  rbs :: "ptr \<Rightarrow> rdc_buf_list"
  mds :: "ptr \<Rightarrow> qbuf_metadata"
  qbs :: queuebufs

record csma =
  lists :: list_heap
  neighbor_memb :: memb
  nqs :: "ptr \<Rightarrow> neighbor_queue"
  pks :: packets
  initialized :: bool
  seqno :: u16

datatype csma_call = Send_list ptr ptr | Sent_callback ptr ptr mac_status u16

abbreviation (input) neighbor_list :: nat where "neighbor_list \<equiv> 0"

definition upd_nq :: "ptr \<Rightarrow> (neighbor_queue \<Rightarrow> neighbor_queue) \<Rightarrow> csma \<Rightarrow> csma" where
  "upd_nq n f s = s\<lparr>nqs := (nqs s)(n := f (nqs s n))\<rparr>"

definition lift_lists :: "(list_heap \<Rightarrow> list_heap option) \<Rightarrow> csma \<Rightarrow> csma option" where
  "lift_lists f s = map_option (\<lambda>h. s\<lparr>lists := h\<rparr>) (f (lists s))"

text \<open>\<open>ctimer_set(&n->transmit_timer, t, transmit_packet_list, n)\<close> and \<open>ctimer_stop(&n->transmit_timer)\<close>.\<close>

definition nq_ctimer_set :: "clock_time \<Rightarrow> clock_time \<Rightarrow> ptr \<Rightarrow> csma \<Rightarrow> csma" where
  "nq_ctimer_set now t n = upd_nq n (\<lambda>q. q\<lparr>nq_timer := timer_set now t (nq_timer q), nq_listed := True\<rparr>)"

definition nq_ctimer_stop :: "ptr \<Rightarrow> csma \<Rightarrow> csma" where
  "nq_ctimer_stop n = upd_nq n (\<lambda>q. q\<lparr>nq_listed := False\<rparr>)"

definition mac_call_sent_callback :: "ptr \<Rightarrow> ptr \<Rightarrow> mac_status \<Rightarrow> u16 \<Rightarrow> csma_call list" where
  "mac_call_sent_callback sent p status num_tx = (if sent \<noteq> NULL then [Sent_callback sent p status num_tx] else [])"

section \<open>csma.c\<close>

partial_function (option) neighbor_loop :: "linkaddr \<Rightarrow> csma \<Rightarrow> ptr \<Rightarrow> ptr option" where
  "neighbor_loop addr s n =
     (if n \<noteq> NULL then
        if linkaddr_cmp (nq_addr (nqs s n)) addr then Some n else neighbor_loop addr s (list_item_next (lists s) n)
      else Some NULL)"

definition neighbor_queue_from_addr :: "linkaddr \<Rightarrow> csma \<Rightarrow> ptr option" where
  "neighbor_queue_from_addr addr s = neighbor_loop addr s (list_head (lists s) neighbor_list)"

text \<open>\<open>CLOCK_SECOND\<close> is 128 and \<open>NETSTACK_RDC_CHANNEL_CHECK_RATE\<close> 8.\<close>

definition default_timebase :: "clock_time \<Rightarrow> clock_time" where
  "default_timebase interval = (if interval = 0 then 128 div 8 else interval)"

definition transmit_packet_list :: "ptr \<Rightarrow> csma \<Rightarrow> csma_call list" where
  "transmit_packet_list n s =
     (if n \<noteq> NULL then
        let q = list_head (lists s) n in if q \<noteq> NULL then [Send_list n q] else []
      else [])"

text \<open>Freeing the packet at \<open>p\<close> that is off its queue.\<close>

definition drop_packet :: "ptr \<Rightarrow> packets \<Rightarrow> packets" where
  "drop_packet p s =
     (let s = s\<lparr>qbs := queuebuf_free (rb_buf (rbs s p)) (qbs s)\<rparr>;
          s = s\<lparr>metadata_memb := snd (memb_free (metadata_memb s) (rb_ptr (rbs s p)))\<rparr>
      in s\<lparr>packet_memb := snd (memb_free (packet_memb s) p)\<rparr>)"

definition free_packet :: "clock_time \<Rightarrow> clock_time \<Rightarrow> ptr \<Rightarrow> ptr \<Rightarrow> csma \<Rightarrow> csma option" where
  "free_packet now interval n p s =
     (if p \<noteq> NULL then do {
        s \<leftarrow> lift_lists (\<lambda>h. list_remove h n p) s;
        let s = s\<lparr>pks := drop_packet p (pks s)\<rparr>;
        if list_head (lists s) n \<noteq> NULL then
          Some (nq_ctimer_set now (default_timebase interval) n
            (upd_nq n (\<lambda>q. q\<lparr>transmissions := 0, collisions := 0, deferrals := 0\<rparr>) s))
        else do {
          s \<leftarrow> lift_lists (\<lambda>h. list_remove h neighbor_list n) (nq_ctimer_stop n s);
          Some (s\<lparr>neighbor_memb := snd (memb_free (neighbor_memb s) n)\<rparr>)
        }
      } else Some s)"

text \<open>The counters that \<open>packet_sent\<close> advances.\<close>

definition count_status :: "mac_status \<Rightarrow> u16 \<Rightarrow> neighbor_queue \<Rightarrow> neighbor_queue" where
  "count_status status num q =
     (case status of
        MAC_TX_OK \<Rightarrow> q\<lparr>transmissions := ucast (ucast (transmissions q) + num)\<rparr>
      | MAC_TX_NOACK \<Rightarrow> q\<lparr>transmissions := ucast (ucast (transmissions q) + num)\<rparr>
      | MAC_TX_COLLISION \<Rightarrow> q\<lparr>collisions := ucast (ucast (collisions q) + num)\<rparr>
      | MAC_TX_DEFERRED \<Rightarrow> q\<lparr>deferrals := ucast (ucast (deferrals q) + num)\<rparr>
      | _ \<Rightarrow> q)"

text \<open>The packet with the sequence number \<open>no\<close>.\<close>

partial_function (option) seqno_loop :: "u16 \<Rightarrow> csma \<Rightarrow> ptr \<Rightarrow> ptr option" where
  "seqno_loop no s q =
     (if q \<noteq> NULL then
        if queuebuf_attr (rb_buf (rbs (pks s) q)) ATTR_MAC_SEQNO (qbs (pks s)) = no then Some q
        else seqno_loop no s (list_item_next (lists s) q)
      else Some NULL)"

text \<open>The time to the next transmission; the remainder by 0 is undefined.\<close>

definition backoff :: "clock_time \<Rightarrow> u16 \<Rightarrow> u16 \<Rightarrow> clock_time option" where
  "backoff interval r num_tx =
     (let time = default_timebase interval;
          backoff_exponent = (if num_tx > 3 then 3 else num_tx);
          backoff_transmissions = push_bit (unat backoff_exponent) 1
      in if backoff_transmissions * time = 0 then None else Some (time + r mod (backoff_transmissions * time)))"

definition packet_sent ::
    "clock_time \<Rightarrow> clock_time \<Rightarrow> u16 \<Rightarrow> packetbuf \<Rightarrow> ptr \<Rightarrow> mac_status \<Rightarrow> u16 \<Rightarrow> csma \<Rightarrow> (csma \<times> csma_call list) option" where
  "packet_sent now interval r pb n status num_transmissions s =
     (if n = NULL then Some (s, [])
      else do {
        let s = upd_nq n (count_status status num_transmissions) s;
        q \<leftarrow> seqno_loop (packetbuf_attr ATTR_MAC_SEQNO pb) s (list_head (lists s) n);
        if q \<noteq> NULL \<and> rb_ptr (rbs (pks s) q) \<noteq> NULL then
          let metadata = mds (pks s) (rb_ptr (rbs (pks s) q));
              sent = md_sent metadata;
              cptr = md_cptr metadata;
              num_tx = ucast (transmissions (nqs s n))
          in if status = MAC_TX_COLLISION \<or> status = MAC_TX_NOACK then do {
               time \<leftarrow> backoff interval r num_tx;
               if transmissions (nqs s n) < max_transmissions metadata then
                 let s = nq_ctimer_set now time n s
                 in Some (s\<lparr>pks := (pks s)\<lparr>qbs := queuebuf_update_attr_from_packetbuf (rb_buf (rbs (pks s) q)) pb (qbs (pks s))\<rparr>\<rparr>, [])
               else do {
                 s \<leftarrow> free_packet now interval n q s;
                 Some (s, mac_call_sent_callback sent cptr status num_tx)
               }
             } else do {
               s \<leftarrow> free_packet now interval n q s;
               Some (s, mac_call_sent_callback sent cptr status num_tx)
             }
        else Some (s, [])
      })"

text \<open>The packet, its metadata and its buffer, or \<open>NULL\<close> when one of them cannot be allocated.\<close>

definition metadata_of :: "ptr \<Rightarrow> ptr \<Rightarrow> packetbuf \<Rightarrow> qbuf_metadata" where
  "metadata_of sent p pb =
     \<lparr>md_sent = sent, md_cptr = p,
      max_transmissions =
        (if packetbuf_attr ATTR_MAX_MAC_TRANSMISSIONS pb = 0 then 3 else ucast (packetbuf_attr ATTR_MAX_MAC_TRANSMISSIONS pb))\<rparr>"

definition new_packet :: "ptr \<Rightarrow> ptr \<Rightarrow> packetbuf \<Rightarrow> packets \<Rightarrow> ptr \<times> packets" where
  "new_packet sent p pb s =
     (case memb_alloc (packet_memb s) of (q, pm) \<Rightarrow>
        if q \<noteq> NULL then
          (case memb_alloc (metadata_memb s) of (m, mm) \<Rightarrow>
             let s = s\<lparr>packet_memb := pm, metadata_memb := mm, rbs := (rbs s)(q := (rbs s q)\<lparr>rb_ptr := m\<rparr>)\<rparr>
             in if m \<noteq> NULL then
                  (case queuebuf_new_from_packetbuf pb (qbs s) of (b, qb) \<Rightarrow>
                     let s = s\<lparr>qbs := qb, rbs := (rbs s)(q := (rbs s q)\<lparr>rb_buf := b\<rparr>)\<rparr>
                     in if b \<noteq> NULL then (q, s\<lparr>mds := (mds s)(m := metadata_of sent p pb)\<rparr>)
                        else (NULL, s\<lparr>metadata_memb := snd (memb_free (metadata_memb s) m),
                                      packet_memb := snd (memb_free (packet_memb s) q)\<rparr>))
                else (NULL, s\<lparr>packet_memb := snd (memb_free (packet_memb s) q)\<rparr>))
        else (NULL, s\<lparr>packet_memb := pm\<rparr>))"

text \<open>The neighbor for an address, made when there is none.\<close>

definition find_neighbor :: "linkaddr \<Rightarrow> csma \<Rightarrow> (ptr \<times> csma) option" where
  "find_neighbor addr s = do {
     n \<leftarrow> neighbor_queue_from_addr addr s;
     if n = NULL then
       (case memb_alloc (neighbor_memb s) of (n, m) \<Rightarrow>
          let s = s\<lparr>neighbor_memb := m\<rparr>
          in if n \<noteq> NULL then do {
               let s = upd_nq n (\<lambda>q. q\<lparr>nq_addr := linkaddr_copy (nq_addr q) addr, transmissions := 0, collisions := 0, deferrals := 0\<rparr>) s;
               let s = s\<lparr>lists := list_init (lists s) n\<rparr>;
               s \<leftarrow> lift_lists (\<lambda>h. list_add h neighbor_list n) s;
               Some (n, s)
             } else Some (n, s))
     else Some (n, s)
   }"

text \<open>The sequence number a packet gets, and the next one.\<close>

definition next_seqno :: "u16 \<Rightarrow> csma \<Rightarrow> u16 \<times> csma" where
  "next_seqno r s =
     (let s = (if \<not> initialized s then s\<lparr>initialized := True, seqno := r\<rparr> else s);
          s = (if seqno s = 0 then s\<lparr>seqno := seqno s + 1\<rparr> else s)
      in (seqno s, s\<lparr>seqno := seqno s + 1\<rparr>))"

text \<open>\<open>send_packet\<close> once the neighbor is known.\<close>

definition send_to ::
    "clock_time \<Rightarrow> ptr \<Rightarrow> ptr \<Rightarrow> packetbuf \<Rightarrow> ptr \<Rightarrow> csma \<Rightarrow> (csma \<times> packetbuf \<times> csma_call list) option" where
  "send_to now sent p pb n s =
     (let failed = mac_call_sent_callback sent p MAC_TX_ERR 1 in
      if n \<noteq> NULL then do {
        len \<leftarrow> list_length (lists s) n;
        if len < 8 then
          (case new_packet sent p pb (pks s) of (q, pk) \<Rightarrow>
             let s = s\<lparr>pks := pk\<rparr>
             in if q \<noteq> NULL then do {
                  s \<leftarrow> lift_lists (\<lambda>h. if packetbuf_attr ATTR_PACKET_TYPE pb = 1 then list_push h n q else list_add h n q) s;
                  Some (if list_head (lists s) n = q then nq_ctimer_set now 0 n s else s, pb, [])
                } else do {
                  len \<leftarrow> list_length (lists s) n;
                  s \<leftarrow> if len = 0 then do {
                         s \<leftarrow> lift_lists (\<lambda>h. list_remove h neighbor_list n) s;
                         Some (s\<lparr>neighbor_memb := snd (memb_free (neighbor_memb s) n)\<rparr>)
                       } else Some s;
                  Some (s, pb, failed)
                })
        else Some (s, pb, failed)
      } else Some (s, pb, failed))"

definition send_packet ::
    "clock_time \<Rightarrow> u16 \<Rightarrow> ptr \<Rightarrow> ptr \<Rightarrow> packetbuf \<Rightarrow> csma \<Rightarrow> (csma \<times> packetbuf \<times> csma_call list) option" where
  "send_packet now r sent p pb s =
     (case next_seqno r s of (no, s) \<Rightarrow>
        let addr = packetbuf_addr ADDR_RECEIVER pb;
            pb = packetbuf_set_attr ATTR_MAC_SEQNO no pb
        in do {
          (n, s) \<leftarrow> find_neighbor addr s;
          send_to now sent p pb n s
        })"

definition csma_init :: "csma \<Rightarrow> csma" where
  "csma_init s =
     s\<lparr>pks := (pks s)\<lparr>packet_memb := memb_init (packet_memb (pks s)), metadata_memb := memb_init (metadata_memb (pks s))\<rparr>,
       neighbor_memb := memb_init (neighbor_memb s)\<rparr>"

text \<open>\<open>channel_check_interval\<close>: the function of the layer below, if it has one.\<close>

definition csma_channel_check_interval :: "u16 option \<Rightarrow> u16" where
  "csma_channel_check_interval f = (case f of Some v \<Rightarrow> v | None \<Rightarrow> 0)"

text \<open>The timer process takes an expired timer off its list and calls \<open>transmit_packet_list\<close>.\<close>

definition timer_fires :: "ptr \<Rightarrow> csma \<Rightarrow> csma \<times> csma_call list" where
  "timer_fires n s = (let s = nq_ctimer_stop n s in (s, transmit_packet_list n s))"

section \<open>The lists of packets\<close>

text \<open>The neighbors \<open>ns\<close> and their queues \<open>qs\<close>: nodes from \<open>NB\<close> and \<open>PB\<close>, no packet in two queues.\<close>

definition queues_ok :: "list_heap \<Rightarrow> ptr set \<Rightarrow> ptr set \<Rightarrow> ptr list \<Rightarrow> (ptr \<Rightarrow> ptr list) \<Rightarrow> bool" where
  "queues_ok h NB PB ns qs \<longleftrightarrow> is_list h neighbor_list ns \<and> (\<forall>n \<in> set ns. is_list h n (qs n) \<and> set (qs n) \<subseteq> PB) \<and>
     set ns \<subseteq> NB \<and> NULL \<notin> NB \<and> NULL \<notin> PB \<and> NB \<inter> PB = {} \<and>
     (\<forall>m \<in> set ns. \<forall>n \<in> set ns. m \<noteq> n \<longrightarrow> set (qs m) \<inter> set (qs n) = {})"

abbreviation queued :: "ptr list \<Rightarrow> (ptr \<Rightarrow> ptr list) \<Rightarrow> ptr list" where
  "queued ns qs \<equiv> concat (map qs ns)"

lemma queues_ok_queue:
  assumes "queues_ok h NB PB ns qs" "n \<in> set ns"
  shows "is_list h n (qs n)" "n \<noteq> NULL" "distinct (qs n)" "distinct ns" "is_list h neighbor_list ns" "set (qs n) \<subseteq> PB" "NULL \<notin> set (qs n)"
proof -
  show l: "is_list h n (qs n)" "is_list h neighbor_list ns" "set (qs n) \<subseteq> PB"
    using assms by (simp_all add: queues_ok_def)
  have "set ns \<subseteq> NB" "NULL \<notin> NB" "NULL \<notin> PB" using assms(1) by (simp_all add: queues_ok_def)
  then show "n \<noteq> NULL" "NULL \<notin> set (qs n)" using assms(2) l(3) by (metis subsetD)+
  show "distinct (qs n)" "distinct ns" using is_list_distinct [OF l(1)] is_list_distinct [OF l(2)] .
qed

lemma queues_ok_disjoint:
  assumes "queues_ok h NB PB ns qs"
  shows "m \<in> set ns \<Longrightarrow> n \<in> set ns \<Longrightarrow> m \<noteq> n \<Longrightarrow> set (qs m) \<inter> set (qs n) = {}" "m \<in> set ns \<Longrightarrow> A \<subseteq> PB \<Longrightarrow> m \<notin> A"
    "A \<subseteq> PB \<Longrightarrow> set ns \<inter> A = {}" "m \<in> set ns \<Longrightarrow> set (qs m) \<inter> set ns = {}"
proof -
  have d: "\<And>x. x \<in> PB \<Longrightarrow> x \<notin> set ns" and q: "\<And>m. m \<in> set ns \<Longrightarrow> set (qs m) \<subseteq> PB"
    using assms by (auto simp: queues_ok_def)
  then show "m \<in> set ns \<Longrightarrow> A \<subseteq> PB \<Longrightarrow> m \<notin> A" "A \<subseteq> PB \<Longrightarrow> set ns \<inter> A = {}" "m \<in> set ns \<Longrightarrow> set (qs m) \<inter> set ns = {}"
    by (meson disjoint_iff subsetD)+
  show "m \<in> set ns \<Longrightarrow> n \<in> set ns \<Longrightarrow> m \<noteq> n \<Longrightarrow> set (qs m) \<inter> set (qs n) = {}" using assms by (simp add: queues_ok_def)
qed

lemma queue_change:
  assumes ok: "queues_ok h NB PB ns qs" and n: "n \<in> set ns"
    and xs: "is_list h' n xs" "same_outside n A h h'" "set xs \<subseteq> A" "A \<subseteq> PB"
    and A: "\<And>m. m \<in> set ns \<Longrightarrow> m \<noteq> n \<Longrightarrow> set (qs m) \<inter> A = {}"
  shows "queues_ok h' NB PB ns (qs(n := xs))"
proof -
  have "n \<noteq> NULL" "set ns \<inter> A = {}" using queues_ok_queue(2) [OF ok n] queues_ok_disjoint(3) [OF ok xs(4)] .
  then have "is_list h' neighbor_list ns" using is_list_other [OF _ xs(2)] ok by (simp add: queues_ok_def)
  moreover have "is_list h' m ((qs(n := xs)) m) \<and> set ((qs(n := xs)) m) \<subseteq> PB" if "m \<in> set ns" for m
    using ok that xs is_list_other [OF _ xs(2), of m "qs m"] A [OF that] by (cases "m = n") (auto simp: queues_ok_def)
  moreover have "set ((qs(n := xs)) m) \<inter> set ((qs(n := xs)) k) = {}" if "m \<in> set ns" "k \<in> set ns" "m \<noteq> k" for m k
    using ok that xs(3) A [of m] A [of k] by (cases "m = n"; cases "k = n") (auto simp: queues_ok_def)
  ultimately show ?thesis using ok by (simp add: queues_ok_def)
qed

lemma queue_insert:
  assumes ok: "queues_ok h NB PB ns qs" and n: "n \<in> set ns" and q: "q \<in> PB" "q \<notin> set (queued ns qs)"
  shows "\<exists>h'. (if f then list_push h n q else list_add h n q) = Some h' \<and>
    queues_ok h' NB PB ns (qs(n := if f then q # qs n else qs n @ [q]))"
proof -
  note l = queues_ok_queue [OF ok n]
  have q': "q \<noteq> NULL" "q \<notin> set (qs n)" using ok q n by (auto simp: queues_ok_def)
  have c: "queues_ok h' NB PB ns (qs(n := xs))"
    if "is_list h' n xs" "same_outside n (insert q (set (qs n))) h h'" "set xs = insert q (set (qs n))" for h' xs
    using ok n q l(6) by (intro queue_change [OF ok n that(1,2)]) (auto simp: that(3) queues_ok_def)
  show ?thesis
  proof (cases f)
    case True
    from list_push_is_list [OF l(1) q'(1)] q'(2) obtain h' where "list_push h n q = Some h'" "is_list h' n (q # qs n)"
      "same_outside n (insert q (set (qs n))) h h'" by (auto simp: remove1_not_in)
    with c [of h' "q # qs n"] True show ?thesis by simp
  next
    case False
    from list_add_is_list [OF l(1) q'(1)] q'(2) obtain h' where "list_add h n q = Some h'" "is_list h' n (qs n @ [q])"
      "same_outside n (insert q (set (qs n))) h h'" by (auto simp: remove1_not_in)
    with c [of h' "qs n @ [q]"] False show ?thesis by simp
  qed
qed

lemma queue_remove:
  assumes ok: "queues_ok h NB PB ns qs" and n: "n \<in> set ns"
  shows "\<exists>h'. list_remove h n p = Some h' \<and> queues_ok h' NB PB ns (qs(n := remove1 p (qs n)))"
proof -
  note l = queues_ok_queue [OF ok n]
  from list_remove_is_list [OF l(1), of p] obtain h' where h': "list_remove h n p = Some h'" "is_list h' n (remove1 p (qs n))"
    "same_outside n (set (qs n)) h h'" by blast
  have "queues_ok h' NB PB ns (qs(n := remove1 p (qs n)))"
    using ok n l(6) by (intro queue_change [OF ok n h'(2,3)]) (auto simp: queues_ok_def dest: notin_set_remove1)
  with h'(1) show ?thesis by blast
qed

lemma neighbor_insert:
  assumes ok: "queues_ok h NB PB ns qs" and n: "n \<in> NB" "n \<notin> set ns"
  shows "\<exists>h'. list_add (list_init h n) neighbor_list n = Some h' \<and> queues_ok h' NB PB (ns @ [n]) (qs(n := []))"
proof -
  have n0: "n \<noteq> NULL" using ok n by (auto simp: queues_ok_def)
  have i: "is_list (list_init h n) l xs = (if l = n then xs = [] else is_list h l xs)" for l xs
    by (cases xs) (auto simp: list_init_def is_list_def)
  have ns: "is_list (list_init h n) neighbor_list ns" using ok n0 by (simp add: i queues_ok_def)
  from list_add_is_list [OF ns n0] n(2) obtain h' where h': "list_add (list_init h n) neighbor_list n = Some h'"
    "is_list h' neighbor_list (ns @ [n])" "same_outside neighbor_list (insert n (set ns)) (list_init h n) h'"
    by (auto simp: remove1_not_in)
  have d: "set (qs m) \<inter> insert n (set ns) = {}" "m \<noteq> 0" if "m \<in> set ns" for m
  proof -
    have "n \<notin> PB" using ok n(1) by (auto simp: queues_ok_def)
    then show "set (qs m) \<inter> insert n (set ns) = {}" "m \<noteq> 0"
      using queues_ok_queue(2,6) [OF ok that] queues_ok_disjoint(4) [OF ok that] by (simp_all add: subsetD) (metis subsetD)
  qed
  have "is_list h' m (qs m)" if "m \<in> set ns" for m
  proof -
    have "m \<noteq> n" using that n(2) by auto
    then show ?thesis using is_list_other [OF _ h'(3), of m "qs m"] queues_ok_queue(1) [OF ok that] d [OF that] by (simp add: i)
  qed
  moreover have "is_list h' n []" using is_list_other [OF _ h'(3), of n "[]"] n0 by (simp add: i)
  ultimately have "queues_ok h' NB PB (ns @ [n]) (qs(n := []))"
    using ok n h'(2) by (auto simp: queues_ok_def)
  with h'(1) show ?thesis by blast
qed

lemma neighbor_remove:
  assumes ok: "queues_ok h NB PB ns qs"
  shows "\<exists>h'. list_remove h neighbor_list n = Some h' \<and> queues_ok h' NB PB (remove1 n ns) qs"
proof -
  have ns: "is_list h neighbor_list ns" using ok by (simp add: queues_ok_def)
  from list_remove_is_list [OF ns, of n] obtain h' where h': "list_remove h neighbor_list n = Some h'"
    "is_list h' neighbor_list (remove1 n ns)" "same_outside neighbor_list (set ns) h h'" by blast
  have "set (qs m) \<inter> set ns = {}" "m \<noteq> 0" if "m \<in> set ns" for m
    using queues_ok_disjoint(4) [OF ok that] queues_ok_queue(2) [OF ok that] .
  then have "is_list h' m (qs m)" if "m \<in> set ns" for m
    using is_list_other [OF _ h'(3), of m "qs m"] ok that by (auto simp: queues_ok_def)
  moreover have "set (remove1 n ns) \<subseteq> set ns" by (rule set_remove1_subset)
  ultimately have "queues_ok h' NB PB (remove1 n ns) qs"
    using ok h'(2) queues_ok_disjoint(1) [OF ok] by (simp add: queues_ok_def) (meson subset_iff)
  with h'(1) show ?thesis by blast
qed

section \<open>Searching\<close>

lemma neighbor_loop_chain:
  "lchain (lnext (lists s)) p xs \<Longrightarrow>
    neighbor_loop a s p = Some (case filter (\<lambda>n. nq_addr (nqs s n) = a) xs of [] \<Rightarrow> NULL | n # _ \<Rightarrow> n)"
  by (induction xs arbitrary: p) (auto simp: neighbor_loop.simps [of a s] list_item_next_def)

lemma seqno_loop_chain:
  "lchain (lnext (lists s)) p xs \<Longrightarrow>
    seqno_loop no s p =
      Some (case filter (\<lambda>q. queuebuf_attr (rb_buf (rbs (pks s) q)) ATTR_MAC_SEQNO (qbs (pks s)) = no) xs of [] \<Rightarrow> NULL | q # _ \<Rightarrow> q)"
  by (induction xs arbitrary: p) (auto simp: seqno_loop.simps [of no s] list_item_next_def)

section \<open>The packets\<close>

abbreviation pk_ptr :: "packets \<Rightarrow> ptr \<Rightarrow> ptr" where "pk_ptr s q \<equiv> rb_ptr (rbs s q)"

abbreviation pk_buf :: "packets \<Rightarrow> ptr \<Rightarrow> ptr" where "pk_buf s q \<equiv> rb_buf (rbs s q)"

text \<open>
  The blocks in use are those of the packets \<open>P\<close>, each with its own metadata and its own copy of a packet in
  the queue buffers; the handles \<open>D\<close> are those of other modules.
\<close>

definition packets_ok :: "ptr set \<Rightarrow> packets \<Rightarrow> ptr set \<Rightarrow> (ptr \<Rightarrow> stored option) \<Rightarrow> bool" where
  "packets_ok D s P g \<longleftrightarrow> memb_wf (packet_memb s) \<and> memb_wf (metadata_memb s) \<and>
     card (memb_blocks (packet_memb s)) = card (memb_blocks (metadata_memb s)) \<and>
     memb_live (packet_memb s) = P \<and> inj_on (pk_ptr s) P \<and> memb_live (metadata_memb s) = pk_ptr s ` P \<and>
     qb_rep (qbs s) g \<and> inj_on (pk_buf s) P \<and> dom g = pk_buf s ` P \<union> D \<and> pk_buf s ` P \<inter> D = {} \<and>
     (\<forall>q \<in> P. \<exists>bs a. g (pk_buf s q) = Some (Copied bs a))"

definition same_packets :: "ptr set \<Rightarrow> packets \<Rightarrow> packets \<Rightarrow> bool" where
  "same_packets P s s' \<longleftrightarrow> (\<forall>q \<in> P. rbs s' q = rbs s q \<and> mds s' (pk_ptr s q) = mds s (pk_ptr s q)) \<and>
     memb_blocks (packet_memb s') = memb_blocks (packet_memb s)"

lemma packets_ok_cong:
  assumes "packets_ok D s P g" "\<forall>q \<in> P. rbs s' q = rbs s q"
    "memb_wf (packet_memb s')" "memb_live (packet_memb s') = P" "card (memb_blocks (packet_memb s')) = card (memb_blocks (metadata_memb s'))"
    "memb_wf (metadata_memb s')" "memb_live (metadata_memb s') = memb_live (metadata_memb s)" "qbs s' = qbs s"
  shows "packets_ok D s' P g"
proof -
  have "pk_ptr s' ` P = pk_ptr s ` P" "pk_buf s' ` P = pk_buf s ` P" "inj_on (pk_ptr s') P = inj_on (pk_ptr s) P" "inj_on (pk_buf s') P = inj_on (pk_buf s) P"
    using assms(2) by (auto intro!: image_cong inj_on_cong)
  then show ?thesis using assms by (simp add: packets_ok_def)
qed

lemma metadata_full_iff:
  assumes "packets_ok D s P g"
  shows "memb_live (metadata_memb s) = memb_blocks (metadata_memb s) \<longleftrightarrow> memb_live (packet_memb s) = memb_blocks (packet_memb s)"
proof -
  have full: "memb_live m = memb_blocks m \<longleftrightarrow> card (memb_live m) = card (memb_blocks m)" for m
    using card_subset_eq [OF mb.finite_blocks mb.live_blocks, of m] by auto
  have "card (memb_live (metadata_memb s)) = card (memb_live (packet_memb s))"
    "card (memb_blocks (packet_memb s)) = card (memb_blocks (metadata_memb s))"
    using assms by (simp_all add: packets_ok_def card_image)
  then show ?thesis unfolding full by simp
qed

lemma drop_packet_ok:
  assumes ok: "packets_ok D s P g" and p: "p \<in> P"
  shows "packets_ok D (drop_packet p s) (P - {p}) (g(pk_buf s p := None)) \<and> same_packets P s (drop_packet p s)"
proof -
  have w: "memb_wf (packet_memb s)" "memb_wf (metadata_memb s)" and g: "qb_rep (qbs s) g"
    and inj: "inj_on (pk_ptr s) P" "inj_on (pk_buf s) P"
    and l: "memb_live (packet_memb s) = P" "memb_live (metadata_memb s) = pk_ptr s ` P"
    and dm: "dom g = pk_buf s ` P \<union> D" "pk_buf s ` P \<inter> D = {}"
    and c: "card (memb_blocks (packet_memb s)) = card (memb_blocks (metadata_memb s))"
    and cp: "\<forall>q \<in> P. \<exists>bs a. g (pk_buf s q) = Some (Copied bs a)"
    using ok by (simp_all add: packets_ok_def)
  let ?d = "drop_packet p s"
  have e: "packet_memb ?d = snd (memb_free (packet_memb s) p)" "metadata_memb ?d = snd (memb_free (metadata_memb s) (pk_ptr s p))"
    "qbs ?d = queuebuf_free (pk_buf s p) (qbs s)" "rbs ?d = rbs s" "mds ?d = mds s"
    by (simp_all add: drop_packet_def Let_def)
  note f = mb.free_ok [OF w(1) surjective_pairing, of p] mb.free_ok [OF w(2) surjective_pairing, of "pk_ptr s p"]
  have i: "pk_ptr s ` (P - {p}) = pk_ptr s ` P - {pk_ptr s p}" "pk_buf s ` (P - {p}) = pk_buf s ` P - {pk_buf s p}"
    using inj p by (simp_all add: inj_on_image_set_diff [where C = P])
  have b: "pk_buf s p \<in> pk_buf s ` P" using p by (rule imageI)
  then have "pk_buf s p \<in> dom g" unfolding dm(1) by (rule UnI1)
  then have "qb_rep (qbs ?d) (g(pk_buf s p := None))" unfolding e(3) by (rule free_rep [OF g])
  moreover have "pk_buf s p \<notin> D" using b dm(2) by blast
  then have "dom (g(pk_buf s p := None)) = (pk_buf s ` P - {pk_buf s p}) \<union> D" "(pk_buf s ` P - {pk_buf s p}) \<inter> D = {}"
    using dm by (simp_all add: Un_Diff) blast
  moreover have "pk_buf s q \<noteq> pk_buf s p" if "q \<in> P - {p}" for q using that inj(2) p by (auto dest: inj_onD)
  then have "\<forall>q \<in> P - {p}. \<exists>bs a. (g(pk_buf s p := None)) (pk_buf s q) = Some (Copied bs a)"
    using cp by simp
  moreover note inj_on_subset [OF inj(1) Diff_subset, of "{p}"] inj_on_subset [OF inj(2) Diff_subset, of "{p}"]
  ultimately show ?thesis
    unfolding packets_ok_def same_packets_def e i using f l c by simp
qed

lemma new_packet_ok:
  assumes ok: "packets_ok D s P g" and pb: "storable pb" "\<not> packetbuf_is_reference pb" and r: "new_packet sent p pb s = (q, s')"
  shows "same_packets P s s' \<and>
    (if memb_numfree (packet_memb s) = 0 \<or> queuebuf_numfree pb (qbs s) = 0 then q = NULL \<and> packets_ok D s' P g
     else q \<in> memb_blocks (packet_memb s) - P \<and> q \<noteq> NULL \<and> g (pk_buf s' q) = None \<and>
       packets_ok D s' (insert q P) (g(pk_buf s' q \<mapsto> packet_of pb)) \<and> mds s' (pk_ptr s' q) = metadata_of sent p pb)"
proof -
  have w: "memb_wf (packet_memb s)" "memb_wf (metadata_memb s)" and g: "qb_rep (qbs s) g"
    and l: "memb_live (packet_memb s) = P" "memb_live (metadata_memb s) = pk_ptr s ` P" using ok by (simp_all add: packets_ok_def)
  note nf = numfree_zero [OF w(1)]
  have upd: "packets_ok D (s\<lparr>packet_memb := pm, metadata_memb := mm, rbs := (rbs s)(x := y), mds := z\<rparr>) P g"
    if "memb_wf pm" "memb_live pm = P" "memb_blocks pm = memb_blocks (packet_memb s)" "memb_wf mm" "memb_live mm = memb_live (metadata_memb s)"
      "memb_blocks mm = memb_blocks (metadata_memb s)" "x \<notin> P" for pm mm x y z
    using ok that by (intro packets_ok_cong [OF ok]) (auto simp: packets_ok_def)
  show ?thesis
  proof (cases rule: mb.alloc_cases [OF w(1)])
    case 1
    then have "memb_numfree (packet_memb s) = 0" "q = NULL" "s' = s" using r nf by (auto simp: new_packet_def)
    then show ?thesis using ok by (simp add: same_packets_def)
  next
    case (2 q0 pm)
    note q0 = 2
    show ?thesis
    proof (cases rule: mb.alloc_cases [OF w(2)])
      case 1
      then have False using metadata_full_iff [OF ok] q0 mb.live_blocks by auto
      then show ?thesis ..
    next
      case (2 m mm)
      note nr = new_rep [OF g pb(1)]
      show ?thesis
      proof (cases "queuebuf_numfree pb (qbs s) = 0")
        case True
        then have nb: "queuebuf_new_from_packetbuf pb (qbs s) = (NULL, qbs s)" using nr by simp
        note f = mb.free_ok [OF q0(7) surjective_pairing, of q0] mb.free_ok [OF 2(7) surjective_pairing, of m]
        have "q = NULL" and s': "s' = s\<lparr>packet_memb := snd (memb_free pm q0), metadata_memb := snd (memb_free mm m),
            rbs := (rbs s)(q0 := (rbs s q0)\<lparr>rb_ptr := m, rb_buf := NULL\<rparr>), mds := mds s\<rparr>"
          using r nb q0(1,2) 2(1,2) by (auto simp: new_packet_def)
        have "packets_ok D s' P g"
          unfolding s' using f q0 2 l by (intro upd) auto
        then show ?thesis using True \<open>q = NULL\<close> f(1) q0 l by (auto simp: same_packets_def s')
      next
        case False
        then obtain b qb where b: "queuebuf_new_from_packetbuf pb (qbs s) = (b, qb)" "b \<noteq> NULL" "g b = None"
          "qb_rep qb (g(b \<mapsto> packet_of pb))" using nr by auto
        have "q = q0" and s': "s' = s\<lparr>packet_memb := pm, metadata_memb := mm, rbs := (rbs s)(q0 := (rbs s q0)\<lparr>rb_ptr := m, rb_buf := b\<rparr>),
            mds := (mds s)(m := metadata_of sent p pb), qbs := qb\<rparr>"
          using r b(1,2) q0(1,2) 2(1,2) by (auto simp: new_packet_def)
        have "b \<notin> dom g" using b(3) by auto
        then have nq: "q0 \<notin> P" "m \<notin> pk_ptr s ` P" "b \<notin> pk_buf s ` P \<union> D" using q0 2 l ok by (simp_all add: packets_ok_def)
        have c: "packet_of pb = Copied (snd (packetbuf_copyto pb)) (packetbuf_attr_copyto pb)" using pb(2) by (simp add: packet_of_def)
        have "packets_ok D s' (insert q0 P) (g(b \<mapsto> packet_of pb))"
        proof -
          have same: "pk_ptr s' x = pk_ptr s x" "pk_buf s' x = pk_buf s x" if "x \<in> P" for x using that nq(1) by (auto simp: s')
          have q: "pk_ptr s' q0 = m" "pk_buf s' q0 = b" by (simp_all add: s')
          have i: "pk_ptr s' ` insert q0 P = insert m (pk_ptr s ` P)" "pk_buf s' ` insert q0 P = insert b (pk_buf s ` P)"
            using same q by (auto simp: image_iff)
          have "inj_on (pk_ptr s') P" "inj_on (pk_buf s') P"
            using ok inj_on_cong [of P "pk_ptr s'" "pk_ptr s"] inj_on_cong [of P "pk_buf s'" "pk_buf s"] same by (simp_all add: packets_ok_def)
          moreover have "pk_ptr s' q0 \<notin> pk_ptr s' ` P" "pk_buf s' q0 \<notin> pk_buf s' ` P" using nq same q by (auto simp: image_iff)
          ultimately have "inj_on (pk_ptr s') (insert q0 P)" "inj_on (pk_buf s') (insert q0 P)" using nq(1) by simp_all
          moreover have "\<exists>bs a. (g(b \<mapsto> packet_of pb)) (pk_buf s' x) = Some (Copied bs a)" if "x \<in> insert q0 P" for x
            using ok that same q nq by (cases "x = q0") (auto simp: packets_ok_def c)
          ultimately show ?thesis unfolding packets_ok_def i using ok q0 2 nq b(4) by (simp add: packets_ok_def s')
        qed
        then show ?thesis using False \<open>q = q0\<close> b(3) q0 nq l nf by (auto simp: same_packets_def s')
      qed
    qed
  qed
qed

section \<open>The invariant\<close>

lemma distinct_queued:
  assumes "queues_ok h NB PB ns qs"
  shows "distinct (queued ns qs)"
proof -
  have "distinct ms \<Longrightarrow> set ms \<subseteq> set ns \<Longrightarrow> distinct (queued ms qs)" for ms
    using queues_ok_queue(3) [OF assms] queues_ok_disjoint(1) [OF assms]
  proof (induction ms)
    case (Cons m ms)
    have "set (qs m) \<inter> set (qs x) = {}" if "x \<in> set ms" for x using Cons.prems that by (intro Cons.prems(4)) auto
    then have "set (qs m) \<inter> set (queued ms qs) = {}" by auto
    then show ?case using Cons by simp
  qed simp
  then show ?thesis using is_list_distinct assms unfolding queues_ok_def by blast
qed

lemma mset_queued_upd:
  "n \<in> set ns \<Longrightarrow> distinct ns \<Longrightarrow> mset (queued ns (qs(n := xs))) + mset (qs n) = mset (queued ns qs) + mset xs"
proof (induction ns)
  case (Cons m ms)
  show ?case
  proof (cases "m = n")
    case True
    then have e: "map (qs(n := xs)) ms = map qs ms" using Cons.prems(2) by auto
    have "queued (m # ms) (qs(n := xs)) = xs @ queued ms qs" by (simp only: list.map concat.simps True e fun_upd_same)
    then show ?thesis using True by (simp add: union_ac del: fun_upd_apply)
  next
    case False
    then show ?thesis using Cons by (simp add: union_ac)
  qed
qed simp

lemma queued_insert:
  assumes "n \<in> set ns" "distinct ns" "mset xs = add_mset q (mset (qs n))"
  shows "mset (queued ns (qs(n := xs))) = add_mset q (mset (queued ns qs))"
  using mset_queued_upd [OF assms(1,2), of qs xs] assms(3) by simp

lemma queued_remove:
  assumes "n \<in> set ns" "distinct ns" "p \<in> set (qs n)"
  shows "add_mset p (mset (queued ns (qs(n := remove1 p (qs n))))) = mset (queued ns qs)"
proof -
  have "add_mset p (mset (remove1 p (qs n))) = mset (qs n)" using assms(3) by simp
  then show ?thesis using mset_queued_upd [OF assms(1,2), of qs "remove1 p (qs n)"]
    by (metis add_right_cancel union_mset_add_mset_left union_mset_add_mset_right)
qed

lemma set_remove_mset:
  assumes "add_mset p (mset xs) = mset ys" "distinct ys"
  shows "set xs = set ys - {p}"
proof -
  have "p \<notin> set xs" using assms by (metis distinct.simps(2) mset.simps(2) mset_eq_imp_distinct_iff)
  then show ?thesis using assms(1) by (metis Diff_insert_absorb set_mset_add_mset_insert set_mset_mset)
qed

text \<open>
  The blocks in use are the neighbors on the list and their packets; every neighbor but those in \<open>E\<close> has packets,
  no two neighbors have the same address, and only timers of neighbors on the list can fire.
\<close>

definition csma_inv :: "ptr set \<Rightarrow> ptr set \<Rightarrow> csma \<Rightarrow> ptr list \<Rightarrow> (ptr \<Rightarrow> ptr list) \<Rightarrow> (ptr \<Rightarrow> stored option) \<Rightarrow> bool" where
  "csma_inv D E s ns qs g \<longleftrightarrow>
     queues_ok (lists s) (memb_blocks (neighbor_memb s)) (memb_blocks (packet_memb (pks s))) ns qs \<and>
     memb_wf (neighbor_memb s) \<and> memb_live (neighbor_memb s) = set ns \<and> packets_ok D (pks s) (set (queued ns qs)) g \<and>
     (\<forall>n \<in> set ns. length (qs n) \<le> 8 \<and> (qs n = [] \<longrightarrow> n \<in> E)) \<and>
     inj_on (\<lambda>n. nq_addr (nqs s n)) (set ns) \<and> (\<forall>n. nq_listed (nqs s n) \<longrightarrow> n \<in> set ns)"

lemma upd_nq_sel [simp]:
  "lists (upd_nq n f s) = lists s" "neighbor_memb (upd_nq n f s) = neighbor_memb s" "pks (upd_nq n f s) = pks s"
  "nqs (upd_nq n f s) = (nqs s)(n := f (nqs s n))"
  by (simp_all add: upd_nq_def)

lemma csma_inv_upd_nq:
  assumes "csma_inv D E s ns qs g" "nq_addr (f (nqs s n)) = nq_addr (nqs s n)" "n \<in> set ns \<or> \<not> nq_listed (f (nqs s n))"
  shows "csma_inv D E (upd_nq n f s) ns qs g"
proof -
  have "nq_addr (nqs (upd_nq n f s) x) = nq_addr (nqs s x)" for x using assms(2) by simp
  moreover have "nq_listed (nqs (upd_nq n f s) x) \<longrightarrow> x \<in> set ns" for x using assms(1,3) by (auto simp: csma_inv_def)
  ultimately show ?thesis using assms(1) unfolding csma_inv_def by simp
qed

lemma csma_inv_head:
  assumes "csma_inv D E s ns qs g" "n \<in> set ns"
  shows "list_head (lists s) n = (case qs n of [] \<Rightarrow> NULL | q # _ \<Rightarrow> q)"
  using assms list_head_is_list by (simp add: csma_inv_def queues_ok_def)

lemma csma_inv_queue:
  assumes "csma_inv D E s ns qs g" "n \<in> set ns"
  shows "is_list (lists s) n (qs n)" "n \<noteq> NULL" "distinct (qs n)" "distinct ns" "is_list (lists s) neighbor_list ns"
    "set (qs n) \<subseteq> memb_blocks (packet_memb (pks s))" "NULL \<notin> set (qs n)"
proof -
  have "queues_ok (lists s) (memb_blocks (neighbor_memb s)) (memb_blocks (packet_memb (pks s))) ns qs"
    using assms(1) by (simp add: csma_inv_def)
  from queues_ok_queue [OF this assms(2)] show "is_list (lists s) n (qs n)" "n \<noteq> NULL" "distinct (qs n)" "distinct ns"
    "is_list (lists s) neighbor_list ns" "set (qs n) \<subseteq> memb_blocks (packet_memb (pks s))" "NULL \<notin> set (qs n)" .
qed

text \<open>A neighbor without packets leaves.\<close>

lemma free_neighbor:
  assumes inv: "csma_inv D E s ns qs g" and n: "n \<in> set ns" "qs n = []" "\<not> nq_listed (nqs s n)"
  shows "\<exists>s'. lift_lists (\<lambda>h. list_remove h neighbor_list n) s = Some s' \<and>
    csma_inv D (E - {n}) (s'\<lparr>neighbor_memb := snd (memb_free (neighbor_memb s') n)\<rparr>) (remove1 n ns) qs g \<and>
    nqs s' = nqs s \<and> pks s' = pks s \<and> mset (queued (remove1 n ns) qs) = mset (queued ns qs)"
proof -
  have q: "queues_ok (lists s) (memb_blocks (neighbor_memb s)) (memb_blocks (packet_memb (pks s))) ns qs"
    and w: "memb_wf (neighbor_memb s)" "memb_live (neighbor_memb s) = set ns" using inv by (simp_all add: csma_inv_def)
  have d: "distinct ns" using csma_inv_queue [OF inv n(1)] by simp
  from neighbor_remove [OF q, of n] obtain h where h: "list_remove (lists s) neighbor_list n = Some h"
    "queues_ok h (memb_blocks (neighbor_memb s)) (memb_blocks (packet_memb (pks s))) (remove1 n ns) qs" by blast
  note f = mb.free_ok [OF w(1) surjective_pairing, of n]
  have m: "mset (queued (remove1 n ns) qs) = mset (queued ns qs)"
    using n(1,2) by (induction ns) auto
  then have "set (queued (remove1 n ns) qs) = set (queued ns qs)" by (rule mset_eq_setD)
  then have "csma_inv D (E - {n}) (s\<lparr>lists := h, neighbor_memb := snd (memb_free (neighbor_memb s) n)\<rparr>) (remove1 n ns) qs g"
    using inv h(2) f w(2) d n(3) unfolding csma_inv_def by (auto simp: inj_on_diff)
  then show ?thesis using h(1) m by (simp add: lift_lists_def)
qed

text \<open>What happens to a neighbor whose packet \<open>p\<close> is freed.\<close>

definition after_free :: "clock_time \<Rightarrow> clock_time \<Rightarrow> neighbor_queue \<Rightarrow> neighbor_queue" where
  "after_free now interval q = q\<lparr>transmissions := 0, collisions := 0, deferrals := 0,
     nq_timer := timer_set now (default_timebase interval) (nq_timer q), nq_listed := True\<rparr>"

lemma free_packet_ok:
  assumes inv: "csma_inv D {} s ns qs g" and n: "n \<in> set ns" "p \<in> set (qs n)"
  shows "\<exists>s' ns'. free_packet now interval n p s = Some s' \<and>
    csma_inv D {} s' ns' (qs(n := remove1 p (qs n))) (g(pk_buf (pks s) p := None)) \<and>
    ns' = (if qs n = [p] then remove1 n ns else ns) \<and>
    (\<forall>m. m \<noteq> n \<longrightarrow> nqs s' m = nqs s m) \<and> (qs n \<noteq> [p] \<longrightarrow> nqs s' n = after_free now interval (nqs s n)) \<and>
    add_mset p (mset (queued ns' (qs(n := remove1 p (qs n))))) = mset (queued ns qs) \<and>
    rbs (pks s') = rbs (pks s) \<and> mds (pks s') = mds (pks s)"
proof -
  let ?qs = "qs(n := remove1 p (qs n))" and ?g = "g(pk_buf (pks s) p := None)"
  have q: "queues_ok (lists s) (memb_blocks (neighbor_memb s)) (memb_blocks (packet_memb (pks s))) ns qs"
    and pk: "packets_ok D (pks s) (set (queued ns qs)) g" using inv by (simp_all add: csma_inv_def)
  note l = csma_inv_queue [OF inv n(1)]
  have p: "p \<noteq> NULL" "p \<in> set (queued ns qs)" using l(7) n by (metis, auto)
  from queue_remove [OF q n(1), of p] obtain h where h: "list_remove (lists s) n p = Some h"
    "queues_ok h (memb_blocks (neighbor_memb s)) (memb_blocks (packet_memb (pks s))) ns ?qs" by blast
  have m: "add_mset p (mset (queued ns ?qs)) = mset (queued ns qs)" by (rule queued_remove [of n ns p qs, OF n(1) l(4) n(2)])
  have st: "set (queued ns ?qs) = set (queued ns qs) - {p}" using set_remove_mset [OF m distinct_queued [OF q]] .
  let ?s1 = "s\<lparr>lists := h, pks := drop_packet p (pks s)\<rparr>"
  have dp: "rbs (drop_packet p (pks s)) = rbs (pks s)" "mds (drop_packet p (pks s)) = mds (pks s)"
    by (simp_all add: drop_packet_def Let_def)
  have d: "packets_ok D (drop_packet p (pks s)) (set (queued ns ?qs)) ?g"
    "memb_blocks (packet_memb (drop_packet p (pks s))) = memb_blocks (packet_memb (pks s))"
    using drop_packet_ok [OF pk p(2)] unfolding st by (simp_all add: same_packets_def)
  have "length (remove1 p (qs n)) \<le> 8" using inv n(1) length_remove1_le [of p "qs n"] by (auto simp: csma_inv_def dest: order_trans)
  then have i1: "csma_inv D (if qs n = [p] then {n} else {}) ?s1 ns ?qs ?g"
  proof -
    have e: "?qs x = [] \<longrightarrow> x \<in> (if qs n = [p] then {n} else {})" "length (?qs x) \<le> 8" if "x \<in> set ns" for x
      using inv that n \<open>length (remove1 p (qs n)) \<le> 8\<close>
      by (cases "qs n"; auto simp: csma_inv_def split: if_splits)+
    show ?thesis using inv h(2) d e unfolding csma_inv_def by simp
  qed
  have hd: "list_head h n = (case remove1 p (qs n) of [] \<Rightarrow> NULL | q # _ \<Rightarrow> q)"
    using csma_inv_head [OF i1 n(1)] by simp
  have one: "remove1 p (qs n) = [] \<longleftrightarrow> qs n = [p]" using n(2) by (cases "qs n") auto
  show ?thesis
  proof (cases "qs n = [p]")
    case False
    then have nz: "list_head h n \<noteq> NULL" using hd one l(7) by (cases "remove1 p (qs n)") (auto dest!: arg_cong [of _ _ set] dest: notin_set_remove1)
    let ?s' = "nq_ctimer_set now (default_timebase interval) n (upd_nq n (\<lambda>q. q\<lparr>transmissions := 0, collisions := 0, deferrals := 0\<rparr>) ?s1)"
    have r: "free_packet now interval n p s = Some ?s'" using h(1) nz p(1) by (simp add: free_packet_def lift_lists_def)
    have "csma_inv D {} ?s' ns ?qs ?g" unfolding nq_ctimer_set_def
      using i1 n(1) False by (intro csma_inv_upd_nq) simp_all
    then show ?thesis using r False m dp by (simp add: nq_ctimer_set_def after_free_def)
  next
    case True
    have i2: "csma_inv D {n} (nq_ctimer_stop n ?s1) ns ?qs ?g" unfolding nq_ctimer_stop_def
      using i1 True n(1) by (intro csma_inv_upd_nq) simp_all
    have e: "?qs n = []" "\<not> nq_listed (nqs (nq_ctimer_stop n ?s1) n)" using True by (simp_all add: nq_ctimer_stop_def)
    from free_neighbor [OF i2 n(1) e] obtain s' where s': "lift_lists (\<lambda>h. list_remove h neighbor_list n) (nq_ctimer_stop n ?s1) = Some s'"
      "csma_inv D {} (s'\<lparr>neighbor_memb := snd (memb_free (neighbor_memb s') n)\<rparr>) (remove1 n ns) ?qs ?g"
      "nqs s' = nqs (nq_ctimer_stop n ?s1)" "pks s' = pks ?s1" "mset (queued (remove1 n ns) ?qs) = mset (queued ns ?qs)" by (auto simp: nq_ctimer_stop_def simp del: fun_upd_apply)
    have "free_packet now interval n p s = Some (s'\<lparr>neighbor_memb := snd (memb_free (neighbor_memb s') n)\<rparr>)"
    proof -
      have "lift_lists (\<lambda>h. list_remove h n p) s = Some (s\<lparr>lists := h\<rparr>)" using h(1) by (simp add: lift_lists_def)
      then show ?thesis using hd True p(1) s'(1) by (simp add: free_packet_def Let_def)
    qed
    then show ?thesis using s' True m dp by (simp add: nq_ctimer_stop_def)
  qed
qed

end
