(* ===== verification/CsmaCorrect.thy ===== *)
theory CsmaCorrect
  imports Csma
begin

text \<open>
  The operations of \<open>Csma\<close> on the queues of the neighbors: what \<open>send_packet\<close> and \<open>packet_sent\<close>
  do on every branch, that every packet is answered exactly once over any history, and that collisions are not limited.
\<close>

section \<open>The queues of the neighbors\<close>

text \<open>The packets queued for an address, and a state whose queues are \<open>Q\<close>.\<close>

definition queue_at :: "csma \<Rightarrow> ptr list \<Rightarrow> (ptr \<Rightarrow> ptr list) \<Rightarrow> linkaddr \<Rightarrow> ptr list" where
  "queue_at s ns qs a = concat (map qs (filter (\<lambda>n. nq_addr (nqs s n) = a) ns))"

definition csma_rep :: "ptr set \<Rightarrow> csma \<Rightarrow> (linkaddr \<Rightarrow> ptr list) \<Rightarrow> (ptr \<Rightarrow> stored option) \<Rightarrow> bool" where
  "csma_rep D s Q g \<longleftrightarrow> (\<exists>ns qs. csma_inv D {} s ns qs g \<and> (\<forall>a. queue_at s ns qs a = Q a))"

lemma filter_addr:
  assumes "inj_on f (set ns)" "distinct ns" "n \<in> set ns"
  shows "filter (\<lambda>m. f m = f n) ns = [n]"
  using assms
proof (induction ns)
  case (Cons m ms)
  show ?case
  proof (cases "m = n")
    case True
    then have "f x \<noteq> f n" if "x \<in> set ms" for x
      using Cons.prems(1,2) that inj_onD [of f "set (m # ms)" x n] by auto
    then have "filter (\<lambda>x. f x = f n) ms = []" by (simp add: filter_empty_conv)
    then show ?thesis using True by simp
  next
    case False
    then have "f m \<noteq> f n" using Cons.prems by (auto dest: inj_onD)
    then show ?thesis using Cons False by simp
  qed
qed simp

lemma neighbor_at:
  assumes inv: "csma_inv D E s ns qs g"
  shows "n \<in> set ns \<Longrightarrow> filter (\<lambda>m. nq_addr (nqs s m) = nq_addr (nqs s n)) ns = [n]"
    and "n \<in> set ns \<Longrightarrow> queue_at s ns qs (nq_addr (nqs s n)) = qs n"
    and "\<forall>n \<in> set ns. nq_addr (nqs s n) \<noteq> a \<Longrightarrow> queue_at s ns qs a = []"
proof -
  show f: "filter (\<lambda>m. nq_addr (nqs s m) = nq_addr (nqs s n)) ns = [n]" if "n \<in> set ns"
    using filter_addr [of "\<lambda>n. nq_addr (nqs s n)" ns n] csma_inv_queue(4) [OF inv that] inv that by (simp add: csma_inv_def)
  show "queue_at s ns qs (nq_addr (nqs s n)) = qs n" if "n \<in> set ns" using f [OF that] by (simp add: queue_at_def)
  show "queue_at s ns qs a = []" if "\<forall>n \<in> set ns. nq_addr (nqs s n) \<noteq> a" using that by (auto simp: queue_at_def)
qed

lemma neighbor_queue_from_addr_ok:
  assumes inv: "csma_inv D E s ns qs g"
  shows "n \<in> set ns \<Longrightarrow> neighbor_queue_from_addr (nq_addr (nqs s n)) s = Some n"
    and "\<forall>n \<in> set ns. nq_addr (nqs s n) \<noteq> a \<Longrightarrow> neighbor_queue_from_addr a s = Some NULL"
proof -
  have c: "lchain (lnext (lists s)) (list_head (lists s) neighbor_list) ns"
    using inv by (simp add: csma_inv_def queues_ok_def is_list_def list_head_def)
  show "neighbor_queue_from_addr (nq_addr (nqs s n)) s = Some n" if "n \<in> set ns"
    using neighbor_loop_chain [OF c, of "nq_addr (nqs s n)"] neighbor_at(1) [OF inv that] by (simp add: neighbor_queue_from_addr_def)
  show "neighbor_queue_from_addr a s = Some NULL" if "\<forall>n \<in> set ns. nq_addr (nqs s n) \<noteq> a"
  proof -
    have "filter (\<lambda>n. nq_addr (nqs s n) = a) ns = []" using that by (simp add: filter_empty_conv)
    then show ?thesis using neighbor_loop_chain [OF c, of a] by (simp add: neighbor_queue_from_addr_def)
  qed
qed

lemma queue_at_upd:
  assumes inv: "csma_inv D E s ns qs g" and n: "n \<in> set ns" and a: "\<And>m. m \<in> set ns \<Longrightarrow> nq_addr (nqs s' m) = nq_addr (nqs s m)"
  shows "queue_at s' ns (qs(n := xs)) = (queue_at s ns qs)(nq_addr (nqs s n) := xs)"
proof
  fix b
  have f: "filter (\<lambda>m. nq_addr (nqs s' m) = b) ns = filter (\<lambda>m. nq_addr (nqs s m) = b) ns" using a by (intro filter_cong) auto
  show "queue_at s' ns (qs(n := xs)) b = ((queue_at s ns qs)(nq_addr (nqs s n) := xs)) b"
  proof (cases "b = nq_addr (nqs s n)")
    case True
    show ?thesis using neighbor_at(1) [OF inv n] unfolding queue_at_def f unfolding True by simp
  next
    case False
    then have "map (qs(n := xs)) (filter (\<lambda>m. nq_addr (nqs s m) = b) ns) = map qs (filter (\<lambda>m. nq_addr (nqs s m) = b) ns)" by auto
    then show ?thesis unfolding fun_upd_other [OF False] queue_at_def f by (rule arg_cong)
  qed
qed

lemma queue_at_same:
  assumes "\<And>m. m \<in> set ns \<Longrightarrow> nq_addr (nqs s' m) = nq_addr (nqs s m)"
  shows "queue_at s' ns qs = queue_at s ns qs"
proof
  fix b
  have "filter (\<lambda>m. nq_addr (nqs s' m) = b) ns = filter (\<lambda>m. nq_addr (nqs s m) = b) ns" using assms by (intro filter_cong) auto
  then show "queue_at s' ns qs b = queue_at s ns qs b" by (simp add: queue_at_def)
qed

lemma queue_at_remove1:
  assumes "qs n = []"
  shows "queue_at s (remove1 n ns) qs = queue_at s ns qs"
proof
  fix b show "queue_at s (remove1 n ns) qs b = queue_at s ns qs b"
    using assms by (induction ns) (auto simp: queue_at_def)
qed

section \<open>Sending\<close>

lemma find_neighbor_ok:
  assumes inv: "csma_inv D {} s ns qs g"
  obtains (found) n where "find_neighbor a s = Some (n, s)" "n \<in> set ns" "nq_addr (nqs s n) = a"
  | (full) "find_neighbor a s = Some (NULL, s)" "queue_at s ns qs a = []" "memb_numfree (neighbor_memb s) = 0"
  | (made) n s' where "find_neighbor a s = Some (n, s')" "n \<in> set (ns @ [n])" "n \<notin> set ns" "nq_addr (nqs s' n) = a" "queue_at s ns qs a = []"
      "memb_numfree (neighbor_memb s) \<noteq> 0" "csma_inv D {n} s' (ns @ [n]) (qs(n := [])) g" "pks s' = pks s"
      "\<And>m. m \<noteq> n \<Longrightarrow> nqs s' m = nqs s m" "queue_at s' (ns @ [n]) (qs(n := [])) = queue_at s ns qs"
      "\<not> nq_listed (nqs s' n)" "transmissions (nqs s' n) = 0"
proof (cases "\<exists>n \<in> set ns. nq_addr (nqs s n) = a")
  case True
  then obtain n where n: "n \<in> set ns" "nq_addr (nqs s n) = a" by blast
  then have "find_neighbor a s = Some (n, s)"
    using neighbor_queue_from_addr_ok(1) [OF inv n(1)] csma_inv_queue(2) [OF inv n(1)] by (simp add: find_neighbor_def)
  then show ?thesis using found n by blast
next
  case False
  then have no: "\<forall>n \<in> set ns. nq_addr (nqs s n) \<noteq> a" by blast
  note nf = neighbor_queue_from_addr_ok(2) [OF inv no] and e = neighbor_at(3) [OF inv no]
  have w: "memb_wf (neighbor_memb s)" and l: "memb_live (neighbor_memb s) = set ns" using inv by (simp_all add: csma_inv_def)
  have q: "queues_ok (lists s) (memb_blocks (neighbor_memb s)) (memb_blocks (packet_memb (pks s))) ns qs" using inv by (simp add: csma_inv_def)
  show ?thesis
  proof (cases rule: mb.alloc_cases [OF w])
    case 1
    then have "find_neighbor a s = Some (NULL, s)" using nf by (simp add: find_neighbor_def)
    then show ?thesis using full e numfree_zero [OF w] 1(2) by simp
  next
    case (2 n m)
    from neighbor_insert [OF q, of n] 2 l obtain h where h: "list_add (list_init (lists s) n) neighbor_list n = Some h"
      "queues_ok h (memb_blocks m) (memb_blocks (packet_memb (pks s))) (ns @ [n]) (qs(n := []))" by auto
    define s' where "s' = (upd_nq n (\<lambda>q. q\<lparr>nq_addr := a, transmissions := 0, collisions := 0, deferrals := 0\<rparr>)
      (s\<lparr>neighbor_memb := m\<rparr>))\<lparr>lists := h\<rparr>"
    have r: "find_neighbor a s = Some (n, s')"
      using nf 2(1,2) h(1) by (simp add: find_neighbor_def lift_lists_def s'_def upd_nq_def)
    have nn: "n \<notin> set ns" using 2(4) l by simp
    then have nl: "\<not> nq_listed (nqs s n)" using inv by (auto simp: csma_inv_def)
    have inj: "inj_on (\<lambda>x. nq_addr (nqs s' x)) (set (ns @ [n]))"
    proof -
      have "inj_on (\<lambda>x. nq_addr (nqs s' x)) (set ns) = inj_on (\<lambda>x. nq_addr (nqs s x)) (set ns)"
        using nn by (intro inj_on_cong) (auto simp: s'_def)
      moreover have "(\<lambda>x. nq_addr (nqs s' x)) ` set ns = (\<lambda>x. nq_addr (nqs s x)) ` set ns"
        using nn by (intro image_cong) (auto simp: s'_def)
      moreover have "nq_addr (nqs s' n) \<notin> (\<lambda>x. nq_addr (nqs s x)) ` set ns" using no by (auto simp: s'_def)
      ultimately show ?thesis using inv nn by (simp add: csma_inv_def)
    qed
    have mq: "map (qs(n := [])) ns = map qs ns" using nn by auto
    then have sq: "set (queued (ns @ [n]) (qs(n := []))) = set (queued ns qs)" by (simp only: map_append concat_append set_append) simp
    have "csma_inv D {n} s' (ns @ [n]) (qs(n := [])) g"
      using inv h(2) 2(5,7) nl inj sq unfolding csma_inv_def by (auto simp: s'_def upd_nq_def)
    moreover have "queue_at s' (ns @ [n]) (qs(n := [])) = queue_at s ns qs"
    proof
      fix b
      have "filter (\<lambda>x. nq_addr (nqs s' x) = b) ns = filter (\<lambda>x. nq_addr (nqs s x) = b) ns"
        using nn by (intro filter_cong) (auto simp: s'_def)
      moreover have m: "map (qs(n := [])) (filter P ns) = map qs (filter P ns)" for P using nn by auto
      ultimately show "queue_at s' (ns @ [n]) (qs(n := [])) b = queue_at s ns qs b"
        unfolding queue_at_def filter_append map_append concat_append by (simp only: m) simp
    qed
    moreover have "memb_numfree (neighbor_memb s) \<noteq> 0" using numfree_zero [OF w] 2(3,4) by auto
    ultimately show ?thesis using made [OF r _ nn _ e] nl by (simp add: s'_def)
  qed
qed

lemma csma_inv_pks:
  assumes "csma_inv D E s ns qs g" "packets_ok D pk (set (queued ns qs)) g'" "memb_blocks (packet_memb pk) = memb_blocks (packet_memb (pks s))"
  shows "csma_inv D E (s\<lparr>pks := pk\<rparr>) ns qs g'"
  using assms by (simp add: csma_inv_def)

lemma csma_inv_seqno: "csma_inv D E (s\<lparr>initialized := i, seqno := k\<rparr>) ns qs g = csma_inv D E s ns qs g"
  by (simp add: csma_inv_def)

text \<open>Sequence numbers are drawn at random first, then counted up, and never 0.\<close>

definition seqno_of :: "u16 \<Rightarrow> csma \<Rightarrow> u16" where
  "seqno_of r s = (let no = if initialized s then seqno s else r in if no = 0 then 1 else no)"

lemma next_seqno_eq: "next_seqno r s = (seqno_of r s, s\<lparr>initialized := True, seqno := seqno_of r s + 1\<rparr>)"
  by (cases s) (auto simp: next_seqno_def seqno_of_def Let_def)

lemma small_length: "n \<le> 8 \<Longrightarrow> ((of_nat n :: u16) < 8 \<longleftrightarrow> n < 8) \<and> ((of_nat n :: u16) = 0 \<longleftrightarrow> n = 0)"
  by (simp add: word_less_nat_alt word_unat_eq_iff unat_of_nat)

lemma csma_inv_length:
  assumes "csma_inv D E s ns qs g" "n \<in> set ns"
  shows "\<exists>len. list_length (lists s) n = Some len \<and> (len < 8 \<longleftrightarrow> length (qs n) < 8) \<and> (len = 0 \<longleftrightarrow> qs n = [])"
  using list_length_is_list [OF csma_inv_queue(1) [OF assms]] small_length [of "length (qs n)"] assms by (simp add: csma_inv_def)

lemma enqueue_ok:
  assumes inv: "csma_inv D {n} s ns qs g" and n: "n \<in> set ns" "length (qs n) < 8"
    and q: "q \<in> memb_blocks (packet_memb (pks s)) - set (queued ns qs)" "packets_ok D pk (insert q (set (queued ns qs))) g'"
      "memb_blocks (packet_memb pk) = memb_blocks (packet_memb (pks s))"
  shows "\<exists>s'. lift_lists (\<lambda>h. if f then list_push h n q else list_add h n q) (s\<lparr>pks := pk\<rparr>) = Some s' \<and>
    csma_inv D {} s' ns (qs(n := if f then q # qs n else qs n @ [q])) g' \<and> nqs s' = nqs s \<and> pks s' = pk"
proof -
  have ok: "queues_ok (lists s) (memb_blocks (neighbor_memb s)) (memb_blocks (packet_memb (pks s))) ns qs" using inv by (simp add: csma_inv_def)
  let ?xs = "if f then q # qs n else qs n @ [q]"
  obtain h where h: "(if f then list_push (lists s) n q else list_add (lists s) n q) = Some h"
    "queues_ok h (memb_blocks (neighbor_memb s)) (memb_blocks (packet_memb (pks s))) ns (qs(n := ?xs))"
    using queue_insert [OF ok n(1), of q f] q(1) by auto
  have "mset (queued ns (qs(n := ?xs))) = add_mset q (mset (queued ns qs))"
    using csma_inv_queue(4) [OF inv n(1)] by (intro queued_insert [OF n(1)]) auto
  then have st: "set (queued ns (qs(n := ?xs))) = insert q (set (queued ns qs))" by (metis set_mset_add_mset_insert set_mset_mset)
  have l: "length ((qs(n := ?xs)) m) \<le> 8 \<and> (qs(n := ?xs)) m \<noteq> []" if "m \<in> set ns" for m
    using inv that n(2) by (auto simp: csma_inv_def)
  have "csma_inv D {} (s\<lparr>pks := pk, lists := h\<rparr>) ns (qs(n := ?xs)) g'"
    using inv h(2) q(2,3) st l unfolding csma_inv_def by simp
  then show ?thesis using h(1) by (intro exI [of _ "s\<lparr>pks := pk, lists := h\<rparr>"], cases f) (simp_all add: lift_lists_def)
qed

text \<open>The packet is taken exactly when this holds.\<close>

definition send_room :: "packetbuf \<Rightarrow> (linkaddr \<Rightarrow> ptr list) \<Rightarrow> csma \<Rightarrow> bool" where
  "send_room pb Q s \<longleftrightarrow> length (Q (packetbuf_addr ADDR_RECEIVER pb)) < 8 \<and>
     (Q (packetbuf_addr ADDR_RECEIVER pb) = [] \<longrightarrow> memb_numfree (neighbor_memb s) \<noteq> 0) \<and>
     memb_numfree (packet_memb (pks s)) \<noteq> 0 \<and> queuebuf_numfree pb (qbs (pks s)) \<noteq> 0"

definition queued_next :: "packetbuf \<Rightarrow> ptr \<Rightarrow> ptr list \<Rightarrow> ptr list" where
  "queued_next pb q xs = (if packetbuf_attr ATTR_PACKET_TYPE pb = 1 then q # xs else xs @ [q])"

lemma seqno_attr [simp]:
  "metadata_of sent p (packetbuf_set_attr ATTR_MAC_SEQNO no pb) = metadata_of sent p pb"
  "queued_next (packetbuf_set_attr ATTR_MAC_SEQNO no pb) = queued_next pb"
  "storable (packetbuf_set_attr ATTR_MAC_SEQNO no pb) = storable pb"
  "packetbuf_is_reference (packetbuf_set_attr ATTR_MAC_SEQNO no pb) = packetbuf_is_reference pb"
  "queuebuf_numfree (packetbuf_set_attr ATTR_MAC_SEQNO no pb) = queuebuf_numfree pb"
  by (auto simp: metadata_of_def queued_next_def storable_def pb_wf_def packetbuf_attr_def packetbuf_set_attr_def packetbuf_is_reference_def
      queuebuf_numfree_def header_part_def packetbuf_copyto_hdr_def data_bytes_def fun_eq_iff split: option.splits)

lemma send_packet_eq:
  "send_packet now r sent p pb s =
     Option.bind (find_neighbor (packetbuf_addr ADDR_RECEIVER pb) (s\<lparr>initialized := True, seqno := seqno_of r s + 1\<rparr>))
       (\<lambda>x. send_to now sent p (packetbuf_set_attr ATTR_MAC_SEQNO (seqno_of r s) pb) (fst x) (snd x))"
  by (cases "find_neighbor (packetbuf_addr ADDR_RECEIVER pb) (s\<lparr>initialized := True, seqno := seqno_of r s + 1\<rparr>)")
    (simp_all add: send_packet_def next_seqno_eq Let_def case_prod_beta)

lemma send_to_taken:
  assumes inv: "csma_inv D {n} s ns qs g" and n: "n \<in> set ns" "length (qs n) < 8"
    and pb: "storable pb" "\<not> packetbuf_is_reference pb"
    and room: "memb_numfree (packet_memb (pks s)) \<noteq> 0" "queuebuf_numfree pb (qbs (pks s)) \<noteq> 0"
  shows "\<exists>s' q. send_to now sent p pb n s = Some (s', pb, []) \<and> q \<notin> set (queued ns qs) \<and>
    csma_inv D {} s' ns (qs(n := queued_next pb q (qs n))) (g(pk_buf (pks s') q \<mapsto> packet_of pb)) \<and>
    mds (pks s') (pk_ptr (pks s') q) = metadata_of sent p pb \<and> same_packets (set (queued ns qs)) (pks s) (pks s') \<and>
    (\<forall>m. nq_addr (nqs s' m) = nq_addr (nqs s m) \<and> transmissions (nqs s' m) = transmissions (nqs s m)) \<and>
    (hd (queued_next pb q (qs n)) = q \<longrightarrow> nq_listed (nqs s' n) \<and> nq_timer (nqs s' n) = \<lparr>t_start = now, t_interval = 0\<rparr>)"
proof -
  have pk: "packets_ok D (pks s) (set (queued ns qs)) g" using inv by (simp add: csma_inv_def)
  obtain q pk where np: "new_packet sent p pb (pks s) = (q, pk)" by fastforce
  have q: "q \<in> memb_blocks (packet_memb (pks s)) - set (queued ns qs)" "q \<noteq> NULL"
    "packets_ok D pk (insert q (set (queued ns qs))) (g(pk_buf pk q \<mapsto> packet_of pb))" "mds pk (pk_ptr pk q) = metadata_of sent p pb"
    "same_packets (set (queued ns qs)) (pks s) pk"
    using new_packet_ok [OF pk pb np] room by simp_all
  then have b: "memb_blocks (packet_memb pk) = memb_blocks (packet_memb (pks s))" by (simp add: same_packets_def)
  obtain s' where s': "lift_lists (\<lambda>h. if packetbuf_attr ATTR_PACKET_TYPE pb = 1 then list_push h n q else list_add h n q) (s\<lparr>pks := pk\<rparr>) = Some s'"
    "csma_inv D {} s' ns (qs(n := queued_next pb q (qs n))) (g(pk_buf pk q \<mapsto> packet_of pb))" "nqs s' = nqs s" "pks s' = pk"
    using enqueue_ok [OF inv n q(1,3) b, of "packetbuf_attr ATTR_PACKET_TYPE pb = 1"] by (auto simp: queued_next_def)
  have nn: "n \<noteq> NULL" using csma_inv_queue(2) [OF inv n(1)] .
  have hd: "list_head (lists s') n = hd (queued_next pb q (qs n))"
    using csma_inv_head [OF s'(2) n(1)] by (simp add: queued_next_def split: list.splits)
  obtain len where len: "list_length (lists s) n = Some len" "len < 8" using csma_inv_length [OF inv n(1)] n(2) by auto
  let ?s = "if list_head (lists s') n = q then nq_ctimer_set now 0 n s' else s'"
  have r: "send_to now sent p pb n s = Some (?s, pb, [])"
    using nn len np q(2) s'(1) by (simp add: send_to_def Let_def)
  have inv': "csma_inv D {} ?s ns (qs(n := queued_next pb q (qs n))) (g(pk_buf pk q \<mapsto> packet_of pb))"
    using s'(2) csma_inv_upd_nq [OF s'(2), of _ n] n(1) by (simp add: nq_ctimer_set_def)
  have sel: "pks ?s = pk" "nq_addr (nqs ?s m) = nq_addr (nqs s m) \<and> transmissions (nqs ?s m) = transmissions (nqs s m)" for m
    using s'(3,4) by (simp_all add: nq_ctimer_set_def)
  have "nq_listed (nqs ?s n) \<and> nq_timer (nqs ?s n) = \<lparr>t_start = now, t_interval = 0\<rparr>" if "hd (queued_next pb q (qs n)) = q"
    using that hd by (simp add: nq_ctimer_set_def timer_set_def)
  then show ?thesis using r inv' q sel by (intro exI [of _ ?s] exI [of _ q]) simp
qed

lemma send_to_refused:
  assumes inv: "csma_inv D {n} s ns qs g" and n: "n \<in> set ns" and pb: "storable pb" "\<not> packetbuf_is_reference pb"
    and room: "length (qs n) = 8 \<or> memb_numfree (packet_memb (pks s)) = 0 \<or> queuebuf_numfree pb (qbs (pks s)) = 0"
    and new: "qs n = [] \<Longrightarrow> \<not> nq_listed (nqs s n)"
  shows "\<exists>s' ns'. send_to now sent p pb n s = Some (s', pb, mac_call_sent_callback sent p MAC_TX_ERR 1) \<and>
    csma_inv D {} s' ns' qs g \<and> ns' = (if qs n = [] then remove1 n ns else ns) \<and> nqs s' = nqs s \<and>
    same_packets (set (queued ns qs)) (pks s) (pks s') \<and> set (queued ns' qs) = set (queued ns qs)"
proof -
  have pk: "packets_ok D (pks s) (set (queued ns qs)) g" using inv by (simp add: csma_inv_def)
  have nn: "n \<noteq> NULL" using csma_inv_queue(2) [OF inv n] .
  obtain len where len: "list_length (lists s) n = Some len" "len < 8 \<longleftrightarrow> length (qs n) < 8" "len = 0 \<longleftrightarrow> qs n = []"
    using csma_inv_length [OF inv n] by auto
  have drop_exception: "csma_inv D {} s ns qs g" if "csma_inv D {n} s ns qs g" "qs n \<noteq> []" for s
    using that by (auto simp: csma_inv_def)
  show ?thesis
  proof (cases "length (qs n) = 8")
    case True
    then have "send_to now sent p pb n s = Some (s, pb, mac_call_sent_callback sent p MAC_TX_ERR 1)"
      using nn len by (simp add: send_to_def)
    moreover have "qs n \<noteq> []" using True by auto
    ultimately show ?thesis using drop_exception [OF inv] by (simp add: same_packets_def)
  next
    case False
    then have l8: "len < 8" using inv n len(2) by (auto simp: csma_inv_def order_le_less)
    obtain q pk where np: "new_packet sent p pb (pks s) = (q, pk)" by fastforce
    have q: "q = NULL" "packets_ok D pk (set (queued ns qs)) g" "same_packets (set (queued ns qs)) (pks s) pk"
      using new_packet_ok [OF pk pb np] room False by auto
    have inv': "csma_inv D {n} (s\<lparr>pks := pk\<rparr>) ns qs g"
      using csma_inv_pks [OF inv q(2)] q(3) by (simp add: same_packets_def)
    show ?thesis
    proof (cases "qs n = []")
      case True
      from free_neighbor [OF inv' n True] new [OF True] obtain s' where s': "lift_lists (\<lambda>h. list_remove h neighbor_list n) (s\<lparr>pks := pk\<rparr>) = Some s'"
        "csma_inv D {} (s'\<lparr>neighbor_memb := snd (memb_free (neighbor_memb s') n)\<rparr>) (remove1 n ns) qs g" "nqs s' = nqs s" "pks s' = pk"
        "mset (queued (remove1 n ns) qs) = mset (queued ns qs)" by auto
      then show ?thesis using nn len l8 np q(1,3) True mset_eq_setD [OF s'(5)] by (simp add: send_to_def Let_def)
    next
      case False
      then show ?thesis using nn len l8 np q(1,3) drop_exception [OF inv'] by (simp add: send_to_def Let_def)
    qed
  qed
qed

lemma live_packets: "csma_inv D E s ns qs g \<Longrightarrow> memb_live (packet_memb (pks s)) = set (queued ns qs)"
  by (simp add: csma_inv_def packets_ok_def)

text \<open>The two outcomes of \<open>send_packet\<close> for a packet to \<open>a\<close>, \<open>x\<close> being what it returns.\<close>

definition send_result ::
    "ptr set \<Rightarrow> clock_time \<Rightarrow> ptr \<Rightarrow> ptr \<Rightarrow> packetbuf \<Rightarrow> packetbuf \<Rightarrow> csma \<Rightarrow> (linkaddr \<Rightarrow> ptr list) \<Rightarrow> (ptr \<Rightarrow> stored option) \<Rightarrow>
     linkaddr \<Rightarrow> (csma \<times> packetbuf \<times> csma_call list) option \<Rightarrow> bool" where
  "send_result D now sent p pb pb' s Q g a x \<longleftrightarrow>
     (if send_room pb Q s then
        \<exists>s' q. x = Some (s', pb', []) \<and> q \<notin> memb_live (packet_memb (pks s)) \<and>
          memb_live (packet_memb (pks s')) = insert q (memb_live (packet_memb (pks s))) \<and>
          same_packets (memb_live (packet_memb (pks s))) (pks s) (pks s') \<and>
          csma_rep D s' (Q(a := queued_next pb q (Q a))) (g(pk_buf (pks s') q \<mapsto> packet_of pb')) \<and>
          mds (pks s') (pk_ptr (pks s') q) = metadata_of sent p pb \<and>
          (hd (queued_next pb q (Q a)) = q \<longrightarrow> (\<exists>n \<in> memb_live (neighbor_memb s'). nq_addr (nqs s' n) = a \<and>
             nq_listed (nqs s' n) \<and> nq_timer (nqs s' n) = \<lparr>t_start = now, t_interval = 0\<rparr> \<and> (Q a = [] \<longrightarrow> transmissions (nqs s' n) = 0)))
      else
        \<exists>s'. x = Some (s', pb', mac_call_sent_callback sent p MAC_TX_ERR 1) \<and> csma_rep D s' Q g \<and>
          memb_live (packet_memb (pks s')) = memb_live (packet_memb (pks s)) \<and>
          same_packets (memb_live (packet_memb (pks s))) (pks s) (pks s'))"

lemma send_result_taken:
  assumes inv: "csma_inv D {n} s1 ms ps g" "n \<in> set ms" "length (ps n) < 8" "nq_addr (nqs s1 n) = a"
    and new: "Q a = [] \<Longrightarrow> transmissions (nqs s1 n) = 0" and Q: "queue_at s1 ms ps = Q"
    and s: "pks s1 = pks s" "send_room pb Q s" "memb_live (packet_memb (pks s)) = set (queued ms ps)"
    and pb: "storable pb'" "\<not> packetbuf_is_reference pb'" "queued_next pb' = queued_next pb" "metadata_of sent p pb' = metadata_of sent p pb"
      "queuebuf_numfree pb' (qbs (pks s)) = queuebuf_numfree pb (qbs (pks s))"
  shows "send_result D now sent p pb pb' s Q g a (send_to now sent p pb' n s1)"
proof -
  have nf: "memb_numfree (packet_memb (pks s1)) \<noteq> 0" "queuebuf_numfree pb' (qbs (pks s1)) \<noteq> 0" using s(1,2) by (simp_all add: send_room_def pb)
  from send_to_taken [OF inv(1-3) pb(1,2) nf, of now sent p] obtain s' q where s': "send_to now sent p pb' n s1 = Some (s', pb', [])"
    "q \<notin> set (queued ms ps)" "csma_inv D {} s' ms (ps(n := queued_next pb q (ps n))) (g(pk_buf (pks s') q \<mapsto> packet_of pb'))"
    "mds (pks s') (pk_ptr (pks s') q) = metadata_of sent p pb" "same_packets (set (queued ms ps)) (pks s1) (pks s')"
    "\<forall>m. nq_addr (nqs s' m) = nq_addr (nqs s1 m) \<and> transmissions (nqs s' m) = transmissions (nqs s1 m)"
    "hd (queued_next pb q (ps n)) = q \<longrightarrow> nq_listed (nqs s' n) \<and> nq_timer (nqs s' n) = \<lparr>t_start = now, t_interval = 0\<rparr>"
    unfolding pb by blast
  have pn: "ps n = Q a" using neighbor_at(2) [OF inv(1,2)] inv(4) Q by simp
  have "queue_at s' ms (ps(n := queued_next pb q (ps n))) = Q(a := queued_next pb q (Q a))"
    using queue_at_upd [OF inv(1,2), of s' "queued_next pb q (ps n)"] s'(6) Q inv(4) pn by simp
  then have r: "csma_rep D s' (Q(a := queued_next pb q (Q a))) (g(pk_buf (pks s') q \<mapsto> packet_of pb'))"
    using s'(3) unfolding csma_rep_def by (metis (no_types))
  have "mset (queued ms (ps(n := queued_next pb q (ps n)))) = add_mset q (mset (queued ms ps))"
    using csma_inv_queue(4) [OF inv(1,2)] by (intro queued_insert [OF inv(2)]) (auto simp: queued_next_def)
  then have "set (queued ms (ps(n := queued_next pb q (ps n)))) = insert q (set (queued ms ps))" by (metis set_mset_add_mset_insert set_mset_mset)
  then have l: "memb_live (packet_memb (pks s')) = insert q (set (queued ms ps))" using live_packets [OF s'(3)] by simp
  have "n \<in> memb_live (neighbor_memb s')" using s'(3) inv(2) by (simp add: csma_inv_def)
  then have "hd (queued_next pb q (Q a)) = q \<longrightarrow> (\<exists>n \<in> memb_live (neighbor_memb s'). nq_addr (nqs s' n) = a \<and>
      nq_listed (nqs s' n) \<and> nq_timer (nqs s' n) = \<lparr>t_start = now, t_interval = 0\<rparr> \<and> (Q a = [] \<longrightarrow> transmissions (nqs s' n) = 0))"
    using s'(6,7) pn inv(4) new by auto
  then show ?thesis unfolding send_result_def if_P [OF s(2)] s(3) using s'(1,2,4,5) r l s(1) by metis
qed

lemma send_result_refused:
  assumes "send_to now sent p pb' n s1 = Some (s', pb', mac_call_sent_callback sent p MAC_TX_ERR 1)"
    and "csma_inv D {} s' ms ps g" "queue_at s' ms ps = Q" "same_packets (set (queued ms ps)) (pks s) (pks s')"
    and "memb_live (packet_memb (pks s)) = set (queued ms ps)" "\<not> send_room pb Q s"
  shows "send_result D now sent p pb pb' s Q g a (send_to now sent p pb' n s1)"
proof -
  have "csma_rep D s' Q g" using assms(2,3) unfolding csma_rep_def by (metis (no_types))
  then show ?thesis unfolding send_result_def if_not_P [OF assms(6)] assms(5) using assms(1,4) live_packets [OF assms(2)] by metis
qed

lemma send_result_new:
  assumes inv: "csma_inv D {n} s1 (ns @ [n]) (qs(n := [])) g" "n \<in> set (ns @ [n])" "n \<notin> set ns"
    and new: "nq_addr (nqs s1 n) = a" "\<not> nq_listed (nqs s1 n)" "transmissions (nqs s1 n) = 0" "Q a = []" "memb_numfree (neighbor_memb s) \<noteq> 0"
    and Q: "queue_at s1 (ns @ [n]) (qs(n := [])) = Q" and s: "pks s1 = pks s" "memb_live (packet_memb (pks s)) = set (queued ns qs)"
    and a: "a = packetbuf_addr ADDR_RECEIVER pb"
    and pb: "storable pb'" "\<not> packetbuf_is_reference pb'" "queued_next pb' = queued_next pb" "metadata_of sent p pb' = metadata_of sent p pb"
      "queuebuf_numfree pb' (qbs (pks s)) = queuebuf_numfree pb (qbs (pks s))"
  shows "send_result D now sent p pb pb' s Q g a (send_to now sent p pb' n s1)"
proof -
  have "map (qs(n := [])) ns = map qs ns" using inv(3) by auto
  then have st: "set (queued (ns @ [n]) (qs(n := []))) = set (queued ns qs)" by (simp only: map_append concat_append set_append) simp
  have rm: "remove1 n (ns @ [n]) = ns" using inv(3) by (simp add: remove1_append)
  show ?thesis
  proof (cases "send_room pb Q s")
    case True
    show ?thesis
      by (rule send_result_taken [OF inv(1,2) _ new(1) _ Q s(1) True _ pb]) (use new s(2) st in simp_all)
  next
    case False
    have room: "length ((qs(n := [])) n) = 8 \<or> memb_numfree (packet_memb (pks s1)) = 0 \<or> queuebuf_numfree pb' (qbs (pks s1)) = 0"
      using False new(4,5) s(1) pb(5) by (auto simp: send_room_def a [symmetric])
    from send_to_refused [OF inv(1,2) pb(1,2) room new(2), of now sent p] obtain s' where s':
      "send_to now sent p pb' n s1 = Some (s', pb', mac_call_sent_callback sent p MAC_TX_ERR 1)"
      "csma_inv D {} s' ns (qs(n := [])) g" "nqs s' = nqs s1"
      "same_packets (set (queued (ns @ [n]) (qs(n := [])))) (pks s1) (pks s')"
      "set (queued ns (qs(n := []))) = set (queued (ns @ [n]) (qs(n := [])))"
      by (auto simp: rm fun_upd_same simp del: concat_append map_append set_concat fun_upd_apply)
    have "queue_at s' ns (qs(n := [])) = Q"
      using queue_at_same [of ns s' s1 "qs(n := [])"] queue_at_remove1 [of "qs(n := [])" n s1 "ns @ [n]"] s'(3) Q rm by simp
    then show ?thesis using s'(4,5) st s False by (intro send_result_refused [OF s'(1,2)]) simp_all
  qed
qed

lemma send_result_found:
  assumes inv: "csma_inv D {} s1 ns qs g" "n \<in> set ns" "nq_addr (nqs s1 n) = a" and Q: "queue_at s1 ns qs = Q"
    and s: "pks s1 = pks s" "memb_live (packet_memb (pks s)) = set (queued ns qs)" and a: "a = packetbuf_addr ADDR_RECEIVER pb"
    and pb: "storable pb'" "\<not> packetbuf_is_reference pb'" "queued_next pb' = queued_next pb" "metadata_of sent p pb' = metadata_of sent p pb"
      "queuebuf_numfree pb' (qbs (pks s)) = queuebuf_numfree pb (qbs (pks s))"
  shows "send_result D now sent p pb pb' s Q g a (send_to now sent p pb' n s1)"
proof -
  have qn: "qs n = Q a" using neighbor_at(2) [OF inv(1,2)] inv(3) Q by simp
  then have ne: "Q a \<noteq> []" "length (Q a) \<le> 8" using inv(1,2) by (auto simp: csma_inv_def)
  have mono: "csma_inv D {n} s1 ns qs g" using inv(1) by (auto simp: csma_inv_def)
  show ?thesis
  proof (cases "send_room pb Q s")
    case True
    then have "length (qs n) < 8" using qn by (simp add: send_room_def a)
    then show ?thesis using ne(1) by (intro send_result_taken [OF mono inv(2) _ inv(3) _ Q s(1) True s(2) pb]) simp_all
  next
    case False
    then have room: "length (qs n) = 8 \<or> memb_numfree (packet_memb (pks s1)) = 0 \<or> queuebuf_numfree pb' (qbs (pks s1)) = 0"
      using ne qn s(1) pb(5) by (auto simp: send_room_def a [symmetric])
    have "qs n \<noteq> []" using qn ne by simp
    from send_to_refused [OF mono inv(2) pb(1,2) room, of now sent p] this obtain s' where s':
      "send_to now sent p pb' n s1 = Some (s', pb', mac_call_sent_callback sent p MAC_TX_ERR 1)"
      "csma_inv D {} s' ns qs g" "nqs s' = nqs s1" "same_packets (set (queued ns qs)) (pks s1) (pks s')" by auto
    have "queue_at s' ns qs = Q" using queue_at_same [of ns s' s1 qs] s'(3) Q by simp
    then show ?thesis using s'(4) s False by (intro send_result_refused [OF s'(1,2)]) simp_all
  qed
qed

lemma send_packet_ok:
  assumes rep: "csma_rep D s Q g" and pb: "storable pb" "\<not> packetbuf_is_reference pb"
    and a: "a = packetbuf_addr ADDR_RECEIVER pb" and pb': "pb' = packetbuf_set_attr ATTR_MAC_SEQNO (seqno_of r s) pb"
  shows "send_result D now sent p pb pb' s Q g a (send_packet now r sent p pb s)"
proof -
  obtain ns qs where inv: "csma_inv D {} s ns qs g" and Q: "queue_at s ns qs = Q" using rep by (auto simp: csma_rep_def)
  let ?s = "s\<lparr>initialized := True, seqno := seqno_of r s + 1\<rparr>"
  have inv0: "csma_inv D {} ?s ns qs g" using inv by (simp add: csma_inv_seqno)
  have Q0: "queue_at ?s ns qs = Q" using Q by (simp add: queue_at_def fun_eq_iff)
  have pb2: "storable pb'" "\<not> packetbuf_is_reference pb'" "queued_next pb' = queued_next pb" "metadata_of sent p pb' = metadata_of sent p pb"
    "queuebuf_numfree pb' (qbs (pks s)) = queuebuf_numfree pb (qbs (pks s))" using pb by (simp_all add: pb')
  note lp = live_packets [OF inv]
  show ?thesis
  proof (cases rule: find_neighbor_ok [OF inv0, of a, case_names found full made])
    case (found n)
    have "pks ?s = pks s" by simp
    from send_result_found [OF inv0 found(2,3) Q0 this lp a pb2] found(1) show ?thesis by (simp add: send_packet_eq a pb')
  next
    case full
    then have "\<not> send_room pb Q s" using Q0 by (simp add: send_room_def a [symmetric])
    moreover have "send_to now sent p pb' NULL ?s = Some (?s, pb', mac_call_sent_callback sent p MAC_TX_ERR 1)" by (simp add: send_to_def)
    moreover have "same_packets (set (queued ns qs)) (pks s) (pks ?s)" by (simp add: same_packets_def)
    ultimately have "send_result D now sent p pb pb' s Q g a (send_to now sent p pb' NULL ?s)"
      using send_result_refused [OF _ inv0 Q0 _ lp] by blast
    then show ?thesis using full(1) by (simp add: send_packet_eq a pb')
  next
    case (made n s1)
    have "send_result D now sent p pb pb' s Q g a (send_to now sent p pb' n s1)"
      using made Q0 lp by (intro send_result_new [OF made(7,2,3,4,11,12) _ _ _ _ _ a pb2]) simp_all
    then show ?thesis using made(1) by (simp add: send_packet_eq a pb')
  qed
qed

section \<open>After a transmission\<close>

lemma default_timebase_pos: "default_timebase interval \<noteq> 0"
  by (simp add: default_timebase_def)

lemma default_timebase_less: "unat interval < k \<Longrightarrow> 16 < k \<Longrightarrow> unat (default_timebase interval) < k"
  by (simp add: default_timebase_def)

lemma unat_add_small: "unat a + unat b < 65536 \<Longrightarrow> unat (a + b :: u16) = unat a + unat b"
  by (simp add: unat_word_ariths)

lemma backoff_ok:
  assumes "unat interval < 8192"
  shows "\<exists>time. backoff interval r num_tx = Some time \<and>
    (unat interval \<le> 7281 \<longrightarrow> unat (default_timebase interval) \<le> unat time \<and>
      unat time < unat (default_timebase interval) + 2 ^ min 3 (unat num_tx) * unat (default_timebase interval))"
proof -
  let ?T = "default_timebase interval" and ?e = "min 3 (unat num_tx)"
  have T: "0 < unat ?T" "unat ?T < 8192" using default_timebase_pos [of interval] default_timebase_less [OF assms] by (auto simp: unat_gt_0)
  have e: "unat (if num_tx > 3 then 3 else num_tx :: u16) = ?e" by (simp add: word_less_nat_alt min_def)
  have "?e \<in> {0, 1, 2, 3}" by (auto simp: min_def)
  then have p: "unat (push_bit ?e 1 :: u16) = 2 ^ ?e" "(2::nat) ^ ?e \<le> 8" by auto
  have le: "2 ^ ?e * unat ?T \<le> 8 * unat ?T" using p(2) by (rule mult_le_mono1)
  then have "2 ^ ?e * unat ?T < 65536" using T(2) by linarith
  then have m: "unat (push_bit ?e 1 * ?T) = 2 ^ ?e * unat ?T" using p(1) by (simp add: unat_word_ariths)
  then have nz: "push_bit ?e 1 * ?T \<noteq> 0" using T(1) by (auto simp: word_unat_eq_iff)
  let ?x = "r mod (push_bit ?e 1 * ?T)"
  have x: "unat ?x < 2 ^ ?e * unat ?T" using m T(1) by (simp add: unat_mod_distrib)
  have b: "backoff interval r num_tx = Some (?T + ?x)"
    using nz by (simp only: backoff_def Let_def e if_False)
  show ?thesis
  proof (cases "unat interval \<le> 7281")
    case True
    then have "unat ?T \<le> 7281" using default_timebase_less [of interval 7282] by simp
    then have "unat ?T + unat ?x < 65536" using x le by linarith
    then have "unat (?T + ?x) = unat ?T + unat ?x" by (rule unat_add_small)
    then show ?thesis using b x by simp
  qed (use b in simp)
qed

lemma find_filter: "find P xs = (case filter P xs of [] \<Rightarrow> None | x # _ \<Rightarrow> Some x)"
  by (induction xs) auto

text \<open>The packet a report refers to.\<close>

definition sent_packet_of :: "packetbuf \<Rightarrow> csma \<Rightarrow> ptr list \<Rightarrow> ptr option" where
  "sent_packet_of pb s = find (\<lambda>q. queuebuf_attr (pk_buf (pks s) q) ATTR_MAC_SEQNO (qbs (pks s)) = packetbuf_attr ATTR_MAC_SEQNO pb)"

lemma sent_packet_loop:
  assumes inv: "csma_inv D E s ns qs g" and n: "n \<in> set ns"
  shows "seqno_loop (packetbuf_attr ATTR_MAC_SEQNO pb) s (list_head (lists s) n) =
    Some (case sent_packet_of pb s (qs n) of None \<Rightarrow> NULL | Some q \<Rightarrow> q)"
proof -
  have "lchain (lnext (lists s)) (list_head (lists s) n) (qs n)"
    using csma_inv_queue(1) [OF inv n] by (simp add: is_list_def list_head_def)
  from seqno_loop_chain [OF this] show ?thesis by (simp add: sent_packet_of_def find_filter split: list.split)
qed

lemma sent_packet_of_in: "sent_packet_of pb s xs = Some q \<Longrightarrow> q \<in> set xs"
  by (auto simp: sent_packet_of_def find_Some_iff)

lemma count_status_sel [simp]:
  "nq_addr (count_status st num q) = nq_addr q" "nq_listed (count_status st num q) = nq_listed q"
  by (simp_all add: count_status_def split: mac_status.split)

lemma update_attr_ok:
  assumes ok: "packets_ok D s P g" and q: "q \<in> P"
  shows "\<exists>bs a. g (pk_buf s q) = Some (Copied bs a) \<and>
    packets_ok D (s\<lparr>qbs := queuebuf_update_attr_from_packetbuf (pk_buf s q) pb (qbs s)\<rparr>) P (g(pk_buf s q \<mapsto> Copied bs (packetbuf_attr_copyto pb)))"
proof -
  have rep: "qb_rep (qbs s) g" and dm: "dom g = pk_buf s ` P \<union> D" using ok by (simp_all add: packets_ok_def)
  obtain bs a where g: "g (pk_buf s q) = Some (Copied bs a)" using ok q by (auto simp: packets_ok_def)
  have "pk_buf s q \<in> dom g" using g by blast
  then have "dom (g(pk_buf s q \<mapsto> Copied bs (packetbuf_attr_copyto pb))) = dom g" by auto
  then show ?thesis using ok g update_attr_rep [OF rep g, of pb] by (auto simp: packets_ok_def)
qed

text \<open>What \<open>packet_sent\<close> does once the packet \<open>q\<close> is found; \<open>c\<close> is the neighbor with its counters advanced.\<close>

definition report_result ::
    "ptr set \<Rightarrow> clock_time \<Rightarrow> clock_time \<Rightarrow> u16 \<Rightarrow> packetbuf \<Rightarrow> ptr \<Rightarrow> mac_status \<Rightarrow> csma \<Rightarrow> (linkaddr \<Rightarrow> ptr list) \<Rightarrow> (ptr \<Rightarrow> stored option) \<Rightarrow>
     neighbor_queue \<Rightarrow> ptr \<Rightarrow> (csma \<times> csma_call list) option \<Rightarrow> bool" where
  "report_result D now interval r pb n st s Q g c q x \<longleftrightarrow>
     (let md = mds (pks s) (pk_ptr (pks s) q); a = nq_addr (nqs s n) in
      \<exists>s' g'. rbs (pks s') = rbs (pks s) \<and> mds (pks s') = mds (pks s) \<and> q \<in> memb_live (packet_memb (pks s)) \<and>
        (if (st = MAC_TX_COLLISION \<or> st = MAC_TX_NOACK) \<and> transmissions c < max_transmissions md then
           x = Some (s', []) \<and> csma_rep D s' Q g' \<and>
           memb_live (packet_memb (pks s')) = memb_live (packet_memb (pks s)) \<and> neighbor_memb s' = neighbor_memb s \<and>
           (\<exists>bs. g' = g(pk_buf (pks s) q \<mapsto> Copied bs (packetbuf_attr_copyto pb))) \<and>
           (\<exists>time. backoff interval r (ucast (transmissions c)) = Some time \<and>
             nqs s' n = c\<lparr>nq_timer := timer_set now time (nq_timer c), nq_listed := True\<rparr>)
         else
           x = Some (s', mac_call_sent_callback (md_sent md) (md_cptr md) st (ucast (transmissions c))) \<and>
           csma_rep D s' (Q(a := remove1 q (Q a))) g' \<and>
           memb_live (packet_memb (pks s')) = memb_live (packet_memb (pks s)) - {q} \<and>
           (remove1 q (Q a) \<noteq> [] \<longrightarrow> nqs s' n = after_free now interval c)))"

lemma report_retransmit:
  assumes inv: "csma_inv D {} s ns qs g" "queue_at s ns qs = Q" and n: "n \<in> set ns" "q \<in> set (queued ns qs)"
    and c: "c = count_status st num (nqs s n)" and time: "backoff interval r (ucast (transmissions c)) = Some time"
    and lim: "(st = MAC_TX_COLLISION \<or> st = MAC_TX_NOACK) \<and> transmissions c < max_transmissions (mds (pks s) (pk_ptr (pks s) q))"
  shows "report_result D now interval r pb n st s Q g c q
    (let s = nq_ctimer_set now time n (upd_nq n (count_status st num) s)
     in Some (s\<lparr>pks := (pks s)\<lparr>qbs := queuebuf_update_attr_from_packetbuf (pk_buf (pks s) q) pb (qbs (pks s))\<rparr>\<rparr>, []))"
proof -
  let ?s1 = "nq_ctimer_set now time n (upd_nq n (count_status st num) s)"
  let ?pk = "(pks s)\<lparr>qbs := queuebuf_update_attr_from_packetbuf (pk_buf (pks s) q) pb (qbs (pks s))\<rparr>"
  have pk: "packets_ok D (pks s) (set (queued ns qs)) g" using inv by (simp add: csma_inv_def)
  obtain bs at where u: "packets_ok D ?pk (set (queued ns qs)) (g(pk_buf (pks s) q \<mapsto> Copied bs (packetbuf_attr_copyto pb)))"
    using update_attr_ok [OF pk n(2), of pb] by blast
  have inv1: "csma_inv D {} (upd_nq n (count_status st num) s) ns qs g" using n(1) by (intro csma_inv_upd_nq [OF inv(1)]) simp_all
  have inv2: "csma_inv D {} ?s1 ns qs g" unfolding nq_ctimer_set_def using n(1) by (intro csma_inv_upd_nq [OF inv1]) simp_all
  have pk2: "pks ?s1 = pks s" by (simp add: nq_ctimer_set_def)
  have inv3: "csma_inv D {} (?s1\<lparr>pks := ?pk\<rparr>) ns qs (g(pk_buf (pks s) q \<mapsto> Copied bs (packetbuf_attr_copyto pb)))"
    using csma_inv_pks [OF inv2 u] pk2 by simp
  have "queue_at (?s1\<lparr>pks := ?pk\<rparr>) ns qs = Q" using queue_at_same [of ns "?s1\<lparr>pks := ?pk\<rparr>" s qs] inv(2) by (simp add: nq_ctimer_set_def)
  then have "csma_rep D (?s1\<lparr>pks := ?pk\<rparr>) Q (g(pk_buf (pks s) q \<mapsto> Copied bs (packetbuf_attr_copyto pb)))"
    using inv3 by (auto simp: csma_rep_def)
  moreover have "nqs (?s1\<lparr>pks := ?pk\<rparr>) n = c\<lparr>nq_timer := timer_set now time (nq_timer c), nq_listed := True\<rparr>"
    using c by (simp add: nq_ctimer_set_def)
  moreover have "neighbor_memb (?s1\<lparr>pks := ?pk\<rparr>) = neighbor_memb s" by (simp add: nq_ctimer_set_def)
  ultimately show ?thesis unfolding report_result_def Let_def if_P [OF lim] pk2 using time n(2) live_packets [OF inv(1)]
    by (intro exI [of _ "?s1\<lparr>pks := ?pk\<rparr>"] exI [of _ "g(pk_buf (pks s) q \<mapsto> Copied bs (packetbuf_attr_copyto pb))"]) auto
qed

lemma report_remove:
  assumes inv: "csma_inv D {} s ns qs g" "queue_at s ns qs = Q" and n: "n \<in> set ns" "q \<in> set (qs n)"
    and c: "c = count_status st num (nqs s n)"
    and lim: "\<not> ((st = MAC_TX_COLLISION \<or> st = MAC_TX_NOACK) \<and> transmissions c < max_transmissions (mds (pks s) (pk_ptr (pks s) q)))"
  shows "report_result D now interval r pb n st s Q g c q
    (Option.bind (free_packet now interval n q (upd_nq n (count_status st num) s))
       (\<lambda>s'. Some (s', mac_call_sent_callback (md_sent (mds (pks s) (pk_ptr (pks s) q))) (md_cptr (mds (pks s) (pk_ptr (pks s) q))) st (ucast (transmissions c)))))"
proof -
  let ?s = "upd_nq n (count_status st num) s" and ?a = "nq_addr (nqs s n)"
  have inv1: "csma_inv D {} ?s ns qs g" using n(1) by (intro csma_inv_upd_nq [OF inv(1)]) simp_all
  have Q1: "queue_at ?s ns qs = Q" using queue_at_same [of ns ?s s qs] inv(2) by simp
  have cn: "nqs ?s n = c" using c by simp
  have qn: "Q ?a = qs n" using neighbor_at(2) [OF inv(1) n(1)] inv(2) by simp
  note fp = free_packet_ok [OF inv1 n, of now interval, unfolded upd_nq_sel(3) cn]
  obtain s' ns' where f: "free_packet now interval n q ?s = Some s'"
    "csma_inv D {} s' ns' (qs(n := remove1 q (qs n))) (g(pk_buf (pks s) q := None))" "ns' = (if qs n = [q] then remove1 n ns else ns)"
    "\<forall>m. m \<noteq> n \<longrightarrow> nqs s' m = nqs ?s m" "qs n \<noteq> [q] \<longrightarrow> nqs s' n = after_free now interval c"
    "add_mset q (mset (queued ns' (qs(n := remove1 q (qs n))))) = mset (queued ns qs)" "rbs (pks s') = rbs (pks s)" "mds (pks s') = mds (pks s)"
    using fp by (elim exE conjE) (rule that)
  have one: "remove1 q (qs n) = [] \<longleftrightarrow> qs n = [q]" using n(2) by (cases "qs n") auto
  have ad: "nq_addr (nqs s' m) = nq_addr (nqs ?s m)" if "m \<in> set ns'" for m
    using f(3-5) that c csma_inv_queue(4) [OF inv(1) n(1)] by (cases "m = n") (auto simp: after_free_def split: if_splits)
  have "queue_at s' ns' (qs(n := remove1 q (qs n))) = queue_at ?s ns (qs(n := remove1 q (qs n)))"
    using queue_at_same [of ns' s' ?s] ad queue_at_remove1 [of "qs(n := remove1 q (qs n))" n ?s ns] f(3) one by auto
  then have "queue_at s' ns' (qs(n := remove1 q (qs n))) = Q(?a := remove1 q (Q ?a))"
    using queue_at_upd [OF inv1 n(1), of ?s "remove1 q (qs n)"] Q1 qn by simp
  then have r: "csma_rep D s' (Q(?a := remove1 q (Q ?a))) (g(pk_buf (pks s) q := None))"
    using f(2) unfolding csma_rep_def by metis
  have "distinct (queued ns qs)" using inv(1) distinct_queued unfolding csma_inv_def by blast
  then have l: "memb_live (packet_memb (pks s')) = set (queued ns qs) - {q}"
    unfolding live_packets [OF f(2)] by (rule set_remove_mset [OF f(6)])
  have "q \<in> set (queued ns qs)" using n by auto
  then show ?thesis unfolding report_result_def Let_def if_not_P [OF lim] using r l f(1,5,7,8) one qn live_packets [OF inv(1)]
    by (intro exI [of _ s'] exI [of _ "g(pk_buf (pks s) q := None)"]) simp
qed

lemma packet_sent_ok:
  assumes rep: "csma_rep D s Q g" and n: "n \<in> memb_live (neighbor_memb s)" and iv: "unat interval < 8192"
    and c: "c = count_status st num (nqs s n)"
  shows "case sent_packet_of pb s (Q (nq_addr (nqs s n))) of
      None \<Rightarrow> packet_sent now interval r pb n st num s = Some (upd_nq n (count_status st num) s, []) \<and>
        csma_rep D (upd_nq n (count_status st num) s) Q g
    | Some q \<Rightarrow> report_result D now interval r pb n st s Q g c q (packet_sent now interval r pb n st num s)"
proof -
  obtain ns qs where inv: "csma_inv D {} s ns qs g" and Q: "queue_at s ns qs = Q" using rep by (auto simp: csma_rep_def)
  have nn: "n \<in> set ns" using n inv by (simp add: csma_inv_def)
  let ?s = "upd_nq n (count_status st num) s" and ?a = "nq_addr (nqs s n)"
  have inv1: "csma_inv D {} ?s ns qs g" using nn by (intro csma_inv_upd_nq [OF inv]) simp_all
  have Q1: "queue_at ?s ns qs = Q" using queue_at_same [of ns ?s s qs] Q by simp
  have qn: "Q ?a = qs n" using neighbor_at(2) [OF inv nn] Q by simp
  have n0: "n \<noteq> NULL" by (rule csma_inv_queue(2) [OF inv nn])
  have sp: "sent_packet_of pb ?s = sent_packet_of pb s" by (simp add: sent_packet_of_def fun_eq_iff)
  note loop = sent_packet_loop [OF inv1 nn, of pb, unfolded sp, folded qn]
  show ?thesis
  proof (cases "sent_packet_of pb s (Q ?a)")
    case None
    then have "packet_sent now interval r pb n st num s = Some (?s, [])" using loop n0 by (simp add: packet_sent_def Let_def)
    moreover have "csma_rep D ?s Q g" using inv1 Q1 by (auto simp: csma_rep_def)
    ultimately show ?thesis using None by simp
  next
    case (Some q)
    let ?md = "mds (pks s) (pk_ptr (pks s) q)"
    have qin: "q \<in> set (qs n)" using sent_packet_of_in [OF Some] qn by simp
    have ql: "q \<in> set (queued ns qs)" "q \<noteq> NULL"
    proof -
      show "q \<in> set (queued ns qs)" using qin nn by auto
      show "q \<noteq> NULL" using qin csma_inv_queue(7) [OF inv nn] by metis
    qed
    have "pk_ptr (pks s) q \<in> memb_live (metadata_memb (pks s))" "memb_wf (metadata_memb (pks s))"
      using inv ql(1) by (simp_all add: csma_inv_def packets_ok_def)
    then have p0: "pk_ptr (pks s) q \<noteq> NULL"
      using mb.null_block [of "metadata_memb (pks s)"] subsetD [OF mb.live_blocks, of "pk_ptr (pks s) q" "metadata_memb (pks s)"]
      by (cases "pk_ptr (pks s) q = NULL") simp_all
    obtain time where time: "backoff interval r (ucast (transmissions c)) = Some time" using backoff_ok [OF iv] by blast
    have sent: "packet_sent now interval r pb n st num s =
      (if (st = MAC_TX_COLLISION \<or> st = MAC_TX_NOACK) \<and> transmissions c < max_transmissions ?md
       then let s = nq_ctimer_set now time n ?s
            in Some (s\<lparr>pks := (pks s)\<lparr>qbs := queuebuf_update_attr_from_packetbuf (pk_buf (pks s) q) pb (qbs (pks s))\<rparr>\<rparr>, [])
       else Option.bind (free_packet now interval n q ?s)
              (\<lambda>s'. Some (s', mac_call_sent_callback (md_sent ?md) (md_cptr ?md) st (ucast (transmissions c)))))"
      using loop Some n0 ql(2) p0 time c by (simp add: packet_sent_def Let_def)
    show ?thesis
      using report_retransmit [OF inv Q nn ql(1) c time] report_remove [OF inv Q nn qin c] unfolding sent Some option.case by presburger
  qed
qed

section \<open>Histories\<close>

text \<open>
  What the neighbors of the layer do: the layer above sends, an expired timer fires, the duty cycling layer reports on a
  packet of a neighbor it was given. A timer that is not on the list cannot fire.
\<close>

datatype csma_op =
    Send clock_time u16 ptr ptr packetbuf
  | Fire ptr
  | Report clock_time clock_time u16 packetbuf ptr mac_status u16

definition csma_step :: "csma \<times> csma_call list \<Rightarrow> csma_op \<Rightarrow> (csma \<times> csma_call list) option" where
  "csma_step x c =
     (case x of (s, calls) \<Rightarrow>
        (case c of
           Send now r f p pb \<Rightarrow> map_option (\<lambda>(s, _, cs). (s, calls @ cs)) (send_packet now r f p pb s)
         | Fire n \<Rightarrow> if nq_listed (nqs s n) then (case timer_fires n s of (s, cs) \<Rightarrow> Some (s, calls @ cs)) else Some (s, calls)
         | Report now interval r pb n st num \<Rightarrow>
             if n \<in> memb_live (neighbor_memb s) then map_option (\<lambda>(s, cs). (s, calls @ cs)) (packet_sent now interval r pb n st num s)
             else Some (s, calls)))"

fun csma_run :: "csma \<times> csma_call list \<Rightarrow> csma_op list \<Rightarrow> (csma \<times> csma_call list) option" where
  "csma_run x [] = Some x"
| "csma_run x (c # cs) = (case csma_step x c of None \<Rightarrow> None | Some y \<Rightarrow> csma_run y cs)"

fun csma_op_ok :: "csma_op \<Rightarrow> bool" where
  "csma_op_ok (Send now r f p pb) \<longleftrightarrow> storable pb \<and> \<not> packetbuf_is_reference pb"
| "csma_op_ok (Fire n) \<longleftrightarrow> True"
| "csma_op_ok (Report now interval r pb n st num) \<longleftrightarrow> unat interval < 8192"

text \<open>Callbacks with their arguments: those still owed for queued packets, those made, and those asked for.\<close>

definition callback_of :: "packets \<Rightarrow> ptr \<Rightarrow> ptr \<times> ptr" where
  "callback_of s q = (md_sent (mds s (pk_ptr s q)), md_cptr (mds s (pk_ptr s q)))"

definition owed :: "csma \<Rightarrow> (ptr \<times> ptr) multiset" where
  "owed s = filter_mset (\<lambda>e. fst e \<noteq> NULL) (image_mset (callback_of (pks s)) (mset_set (memb_live (packet_memb (pks s)))))"

definition made :: "csma_call list \<Rightarrow> (ptr \<times> ptr) multiset" where
  "made cs = mset (concat (map (\<lambda>c. case c of Sent_callback f p st num \<Rightarrow> [(f, p)] | Send_list n q \<Rightarrow> []) cs))"

definition asked :: "csma_op list \<Rightarrow> (ptr \<times> ptr) multiset" where
  "asked cs = filter_mset (\<lambda>e. fst e \<noteq> NULL) (mset (concat (map (\<lambda>c. case c of Send now r f p pb \<Rightarrow> [(f, p)] | _ \<Rightarrow> []) cs)))"

lemma made_append: "made (xs @ ys) = made xs + made ys"
  by (simp add: made_def)

lemma asked_Cons: "asked (c # cs) = asked [c] + asked cs"
  by (simp add: asked_def)

lemma made_callback: "made (mac_call_sent_callback f p st num) = filter_mset (\<lambda>e. fst e \<noteq> NULL) {#(f, p)#}"
  by (simp add: made_def mac_call_sent_callback_def)

lemma finite_live: "finite (memb_live m)"
  using mb.live_blocks mb.finite_blocks by (rule finite_subset)

lemma owed_eq:
  assumes "rbs (pks s') = rbs (pks s)" "mds (pks s') = mds (pks s)" "memb_live (packet_memb (pks s')) = memb_live (packet_memb (pks s))"
  shows "owed s' = owed s"
proof -
  have "callback_of (pks s') = callback_of (pks s)" using assms(1,2) by (simp add: callback_of_def fun_eq_iff)
  then show ?thesis using assms(3) by (simp add: owed_def)
qed

lemma callback_same: "same_packets P s s' \<Longrightarrow> q \<in> P \<Longrightarrow> callback_of s' q = callback_of s q"
  by (simp add: same_packets_def callback_of_def)

lemma owed_same:
  assumes "same_packets (memb_live (packet_memb (pks s))) (pks s) (pks s')" "memb_live (packet_memb (pks s')) = memb_live (packet_memb (pks s))"
  shows "owed s' = owed s"
proof -
  have "image_mset (callback_of (pks s')) (mset_set (memb_live (packet_memb (pks s)))) = image_mset (callback_of (pks s)) (mset_set (memb_live (packet_memb (pks s))))"
    using callback_same [OF assms(1)] finite_live by (intro image_mset_cong) simp
  then show ?thesis using assms(2) by (simp add: owed_def)
qed

lemma owed_insert:
  assumes "same_packets (memb_live (packet_memb (pks s))) (pks s) (pks s')" "q \<notin> memb_live (packet_memb (pks s))"
    "memb_live (packet_memb (pks s')) = insert q (memb_live (packet_memb (pks s)))"
  shows "owed s' = owed s + filter_mset (\<lambda>e. fst e \<noteq> NULL) {#callback_of (pks s') q#}"
proof -
  have "image_mset (callback_of (pks s')) (mset_set (memb_live (packet_memb (pks s)))) = image_mset (callback_of (pks s)) (mset_set (memb_live (packet_memb (pks s))))"
    using callback_same [OF assms(1)] finite_live by (intro image_mset_cong) simp
  then show ?thesis using assms(2,3) finite_live by (simp add: owed_def)
qed

lemma owed_remove:
  assumes "rbs (pks s') = rbs (pks s)" "mds (pks s') = mds (pks s)" "q \<in> memb_live (packet_memb (pks s))"
    "memb_live (packet_memb (pks s')) = memb_live (packet_memb (pks s)) - {q}"
  shows "owed s' + filter_mset (\<lambda>e. fst e \<noteq> NULL) {#callback_of (pks s) q#} = owed s"
proof -
  have c: "callback_of (pks s') = callback_of (pks s)" using assms(1,2) by (simp add: callback_of_def fun_eq_iff)
  have "mset_set (memb_live (packet_memb (pks s))) = add_mset q (mset_set (memb_live (packet_memb (pks s)) - {q}))"
    using finite_live assms(3) by (rule mset_set.remove)
  then show ?thesis by (simp add: owed_def c assms(4))
qed

lemma send_conserves:
  assumes "csma_rep D s Q g" "storable pb" "\<not> packetbuf_is_reference pb"
  shows "\<exists>s' cs Q' g'. csma_step (s, calls) (Send now r f p pb) = Some (s', calls @ cs) \<and> csma_rep D s' Q' g' \<and>
    owed s' + made cs = owed s + asked [Send now r f p pb]"
proof -
  let ?a = "packetbuf_addr ADDR_RECEIVER pb"
  note ok = send_packet_ok [OF assms refl refl, where r = r and now = now and sent = f and p = p, unfolded send_result_def]
  show ?thesis
  proof (cases "send_room pb Q s")
    case True
    with ok obtain s' q where s': "send_packet now r f p pb s = Some (s', packetbuf_set_attr ATTR_MAC_SEQNO (seqno_of r s) pb, [])"
      "q \<notin> memb_live (packet_memb (pks s))" "memb_live (packet_memb (pks s')) = insert q (memb_live (packet_memb (pks s)))"
      "same_packets (memb_live (packet_memb (pks s))) (pks s) (pks s')" "mds (pks s') (pk_ptr (pks s') q) = metadata_of f p pb"
      "csma_rep D s' (Q(?a := queued_next pb q (Q ?a))) (g(pk_buf (pks s') q \<mapsto> packet_of (packetbuf_set_attr ATTR_MAC_SEQNO (seqno_of r s) pb)))"
      by auto
    have "callback_of (pks s') q = (f, p)" using s'(5) by (simp add: callback_of_def metadata_of_def)
    then have "owed s' + made [] = owed s + asked [Send now r f p pb]"
      using owed_insert [OF s'(4,2,3)] by (simp add: made_def asked_def)
    moreover have "csma_step (s, calls) (Send now r f p pb) = Some (s', calls @ [])" using s'(1) by (simp add: csma_step_def)
    ultimately show ?thesis using s'(6) by blast
  next
    case False
    with ok obtain s' where s': "send_packet now r f p pb s = Some (s', packetbuf_set_attr ATTR_MAC_SEQNO (seqno_of r s) pb, mac_call_sent_callback f p MAC_TX_ERR 1)"
      "csma_rep D s' Q g" "memb_live (packet_memb (pks s')) = memb_live (packet_memb (pks s))"
      "same_packets (memb_live (packet_memb (pks s))) (pks s) (pks s')" by auto
    have "owed s' + made (mac_call_sent_callback f p MAC_TX_ERR 1) = owed s + asked [Send now r f p pb]"
      unfolding owed_same [OF s'(4,3)] made_callback by (simp add: asked_def)
    moreover have "csma_step (s, calls) (Send now r f p pb) = Some (s', calls @ mac_call_sent_callback f p MAC_TX_ERR 1)"
      using s'(1) by (simp add: csma_step_def)
    ultimately show ?thesis using s'(2) by blast
  qed
qed

lemma fire_conserves:
  assumes "csma_rep D s Q g"
  shows "\<exists>s' cs. csma_step (s, calls) (Fire n) = Some (s', calls @ cs) \<and> csma_rep D s' Q g \<and> owed s' + made cs = owed s"
proof (cases "nq_listed (nqs s n)")
  case True
  obtain ns qs where inv: "csma_inv D {} s ns qs g" and Q: "queue_at s ns qs = Q" using assms by (auto simp: csma_rep_def)
  let ?s = "nq_ctimer_stop n s"
  have "csma_inv D {} ?s ns qs g" unfolding nq_ctimer_stop_def using inv by (intro csma_inv_upd_nq) simp_all
  moreover have "queue_at ?s ns qs = Q" using queue_at_same [of ns ?s s qs] Q by (simp add: nq_ctimer_stop_def)
  ultimately have "csma_rep D ?s Q g" by (auto simp: csma_rep_def)
  moreover have "owed ?s = owed s" by (intro owed_eq) (simp_all add: nq_ctimer_stop_def)
  moreover have "made (transmit_packet_list n ?s) = {#}" by (simp add: transmit_packet_list_def made_def Let_def)
  ultimately show ?thesis using True by (simp add: csma_step_def timer_fires_def Let_def)
next
  case False
  then show ?thesis using assms by (simp add: csma_step_def made_def)
qed

lemma report_conserves:
  assumes rep: "csma_rep D s Q g" and iv: "unat interval < 8192"
  shows "\<exists>s' cs Q' g'. csma_step (s, calls) (Report now interval r pb n st num) = Some (s', calls @ cs) \<and> csma_rep D s' Q' g' \<and>
    owed s' + made cs = owed s"
proof (cases "n \<in> memb_live (neighbor_memb s)")
  case n: True
  let ?Q = "Q (nq_addr (nqs s n))" and ?s = "upd_nq n (count_status st num) s" and ?c = "count_status st num (nqs s n)"
  note ok = packet_sent_ok [OF rep n iv refl, where pb = pb and now = now and r = r and st = st and num = num]
  have step: "csma_step (s, calls) (Report now interval r pb n st num) = Some (s', calls @ cs)"
    if "packet_sent now interval r pb n st num s = Some (s', cs)" for s' cs using that n by (simp add: csma_step_def)
  show ?thesis
  proof (cases "sent_packet_of pb s ?Q")
    case None
    then have "packet_sent now interval r pb n st num s = Some (?s, [])" "csma_rep D ?s Q g" using ok by simp_all
    moreover have "owed ?s = owed s" by (intro owed_eq) simp_all
    ultimately show ?thesis using step [of ?s "[]"] by (auto simp: made_def)
  next
    case (Some q)
    let ?md = "mds (pks s) (pk_ptr (pks s) q)"
    note ok' = ok [unfolded Some option.case report_result_def Let_def]
    show ?thesis
    proof (cases "(st = MAC_TX_COLLISION \<or> st = MAC_TX_NOACK) \<and> transmissions ?c < max_transmissions ?md")
      case True
      from ok' [unfolded if_P [OF True]] obtain s' g' where k: "packet_sent now interval r pb n st num s = Some (s', [])" "csma_rep D s' Q g'"
        "rbs (pks s') = rbs (pks s)" "mds (pks s') = mds (pks s)" "memb_live (packet_memb (pks s')) = memb_live (packet_memb (pks s))" by blast
      show ?thesis using step [OF k(1)] k(2) owed_eq [OF k(3-5)] by (auto simp: made_def)
    next
      case False
      define cs where "cs = mac_call_sent_callback (md_sent ?md) (md_cptr ?md) st (ucast (transmissions ?c))"
      from ok' [unfolded if_not_P [OF False]] obtain s' g' where k: "packet_sent now interval r pb n st num s = Some (s', cs)"
        "csma_rep D s' (Q(nq_addr (nqs s n) := remove1 q ?Q)) g'" "rbs (pks s') = rbs (pks s)" "mds (pks s') = mds (pks s)"
        "q \<in> memb_live (packet_memb (pks s))" "memb_live (packet_memb (pks s')) = memb_live (packet_memb (pks s)) - {q}"
        unfolding cs_def by blast
      have "made cs = filter_mset (\<lambda>e. fst e \<noteq> NULL) {#callback_of (pks s) q#}" unfolding cs_def made_callback by (simp add: callback_of_def)
      then have "owed s' + made cs = owed s" using owed_remove [OF k(3-6)] by simp
      then show ?thesis using step [OF k(1)] k(2) by blast
    qed
  qed
next
  case False
  then show ?thesis using rep by (auto simp: csma_step_def made_def)
qed

lemma csma_run_conserves:
  "csma_rep D s Q g \<Longrightarrow> \<forall>c \<in> set cs. csma_op_ok c \<Longrightarrow>
    \<exists>s' ds Q' g'. csma_run (s, calls) cs = Some (s', calls @ ds) \<and> csma_rep D s' Q' g' \<and> owed s' + made ds = owed s + asked cs"
proof (induction cs arbitrary: s calls Q g)
  case Nil
  then show ?case by (auto simp: made_def asked_def)
next
  case (Cons c cs)
  have "\<exists>s1 ds Q1 g1. csma_step (s, calls) c = Some (s1, calls @ ds) \<and> csma_rep D s1 Q1 g1 \<and> owed s1 + made ds = owed s + asked [c]"
  proof (cases c)
    case (Send now r f p pb)
    then show ?thesis using send_conserves [OF Cons.prems(1), of pb calls now r f p] Cons.prems(2) by simp
  next
    case (Fire n)
    then show ?thesis using fire_conserves [OF Cons.prems(1), of calls n] by (auto simp: asked_def)
  next
    case (Report now interval r pb n st num)
    then show ?thesis using report_conserves [OF Cons.prems(1), of interval calls now r pb n st num] Cons.prems(2) by (simp add: asked_def)
  qed
  then obtain s1 ds Q1 g1 where 1: "csma_step (s, calls) c = Some (s1, calls @ ds)" "csma_rep D s1 Q1 g1" "owed s1 + made ds = owed s + asked [c]" by blast
  from Cons.IH [OF 1(2), of "calls @ ds"] Cons.prems(2) obtain s' es Q' g' where 2: "csma_run (s1, calls @ ds) cs = Some (s', (calls @ ds) @ es)"
    "csma_rep D s' Q' g'" "owed s' + made es = owed s1 + asked cs" by auto
  have "owed s' + made (ds @ es) = (owed s' + made es) + made ds" by (simp add: made_append)
  also have "\<dots> = owed s + asked (c # cs)" unfolding 2(3) asked_Cons [of c cs] using 1(3) by (simp add: union_ac)
  finally show ?case using 1(1) 2(1,2) by (intro exI [of _ s'] exI [of _ "ds @ es"]) auto
qed

section \<open>Correctness\<close>

text \<open>Before \<open>init\<close>: the pools as declared, no neighbor and no timer; \<open>g\<close> is what other modules have in queue buffers.\<close>

definition csma_boot :: "csma \<Rightarrow> (ptr \<Rightarrow> stored option) \<Rightarrow> bool" where
  "csma_boot s g \<longleftrightarrow> memb_wf (neighbor_memb s) \<and> memb_wf (packet_memb (pks s)) \<and> memb_wf (metadata_memb (pks s)) \<and>
     card (memb_blocks (packet_memb (pks s))) = card (memb_blocks (metadata_memb (pks s))) \<and>
     memb_blocks (neighbor_memb s) \<inter> memb_blocks (packet_memb (pks s)) = {} \<and> qb_rep (qbs (pks s)) g \<and>
     list_head (lists s) neighbor_list = NULL \<and> (\<forall>n. \<not> nq_listed (nqs s n))"

lemma memb_blocks_init [simp]: "memb_blocks (memb_init m) = memb_blocks m"
  by (simp add: memb_blocks_def memb_init_def block_ptr_def)

lemma csma_init_rep:
  assumes "csma_boot s g"
  shows "csma_rep (dom g) (csma_init s) (\<lambda>_. []) g"
proof -
  have "NULL \<notin> memb_blocks (neighbor_memb s)" "NULL \<notin> memb_blocks (packet_memb (pks s))"
    using assms mb.null_block by (simp_all add: csma_boot_def)
  then have "csma_inv (dom g) {} (csma_init s) [] (\<lambda>_. []) g"
    using assms memb_init_wf
    by (simp add: csma_boot_def csma_inv_def csma_init_def queues_ok_def packets_ok_def is_list_def list_head_def)
  moreover have "queue_at (csma_init s) [] (\<lambda>_. []) = (\<lambda>_. [])" by (simp add: queue_at_def fun_eq_iff)
  ultimately show ?thesis unfolding csma_rep_def by metis
qed

lemma csma_rep_facts:
  assumes "csma_rep D s Q g"
  shows "memb_live (packet_memb (pks s)) = (\<Union>a. set (Q a))" "nq_listed (nqs s n) \<Longrightarrow> n \<in> memb_live (neighbor_memb s)"
    "\<forall>a. Q a = [] \<Longrightarrow> memb_live (neighbor_memb s) = {} \<and> memb_live (packet_memb (pks s)) = {} \<and>
       memb_live (metadata_memb (pks s)) = {} \<and> dom g = D"
    "packets_ok D (pks s) (memb_live (packet_memb (pks s))) g"
proof -
  obtain ns qs where inv: "csma_inv D {} s ns qs g" and Q: "\<And>a. queue_at s ns qs a = Q a" using assms by (auto simp: csma_rep_def)
  note lp = live_packets [OF inv]
  show l: "memb_live (packet_memb (pks s)) = (\<Union>a. set (Q a))"
    unfolding lp Q [symmetric] by (auto simp: queue_at_def)
  show "nq_listed (nqs s n) \<Longrightarrow> n \<in> memb_live (neighbor_memb s)" using inv by (auto simp: csma_inv_def)
  show pk: "packets_ok D (pks s) (memb_live (packet_memb (pks s))) g" using inv lp by (simp add: csma_inv_def)
  show "memb_live (neighbor_memb s) = {} \<and> memb_live (packet_memb (pks s)) = {} \<and> memb_live (metadata_memb (pks s)) = {} \<and> dom g = D"
    if "\<forall>a. Q a = []"
  proof -
    have e: "memb_live (packet_memb (pks s)) = {}" using l that by simp
    moreover have "qs n = []" if "n \<in> set ns" for n using e that unfolding lp by auto
    then have "ns = []" using inv by (cases ns) (auto simp: csma_inv_def)
    moreover have "memb_live (neighbor_memb s) = set ns" using inv by (simp add: csma_inv_def)
    ultimately show ?thesis using pk by (simp add: packets_ok_def)
  qed
qed

lemma queued_attr:
  assumes "csma_rep D s Q g" "q \<in> memb_live (packet_memb (pks s))" "g (pk_buf (pks s) q) = Some (Copied bs a)"
  shows "queuebuf_attr (pk_buf (pks s) q) t (qbs (pks s)) = fst a t"
proof -
  have "qb_rep (qbs (pks s)) g" using csma_rep_facts(4) [OF assms(1)] by (simp add: packets_ok_def)
  then have "holds (qbs (pks s)) (pk_buf (pks s) q) (Copied bs a)" using assms(3) by (simp add: qb_rep_def)
  then show ?thesis by (auto simp: holds_def Let_def queuebuf_attr_def queuebuf_load_to_ram_def)
qed

text \<open>
  C31. Every packet handed to the layer is answered exactly once. After initialization and any sequence of calls from
  above, timers and reports from below, no call fails, and the sent callbacks made so far together with
  those of the packets still queued are exactly the callbacks that were asked for, with their arguments. The packets in use are exactly
  those queued for some neighbor; no timer can fire for a neighbor that was freed; and when no packet is queued,
  every neighbor, packet, metadata and queue buffer is free again.
\<close>

theorem csma_answers_once:
  assumes "csma_boot s0 g0" and "\<forall>c \<in> set cs. csma_op_ok c"
  shows "\<exists>s calls Q g. csma_run (csma_init s0, []) cs = Some (s, calls) \<and> owed s + made calls = asked cs \<and>
    csma_rep (dom g0) s Q g \<and> memb_live (packet_memb (pks s)) = (\<Union>a. set (Q a)) \<and>
    (\<forall>n. nq_listed (nqs s n) \<longrightarrow> n \<in> memb_live (neighbor_memb s)) \<and>
    ((\<forall>a. Q a = []) \<longrightarrow> memb_live (neighbor_memb s) = {} \<and> memb_live (packet_memb (pks s)) = {} \<and>
       memb_live (metadata_memb (pks s)) = {} \<and> dom g = dom g0)"
proof -
  note rep = csma_init_rep [OF assms(1)]
  have "owed (csma_init s0) = {#}" using csma_rep_facts(1) [OF rep] by (simp add: owed_def)
  then obtain s calls Q g where r: "csma_run (csma_init s0, []) cs = Some (s, calls)" "csma_rep (dom g0) s Q g"
    "owed s + made calls = asked cs" using csma_run_conserves [OF rep assms(2), of "[]"] by auto
  note f = csma_rep_facts [OF r(2)]
  have "\<forall>n. nq_listed (nqs s n) \<longrightarrow> n \<in> memb_live (neighbor_memb s)" using f(2) by blast
  then show ?thesis using r f(1,3) by (intro exI [of _ s] exI [of _ calls] exI [of _ Q] exI [of _ g]) simp
qed

text \<open>
  C32. A packet is taken exactly when the neighbor's queue has room, a neighbor can be made if there is none, and a
  packet and a queue buffer are free. Then it is the last of its queue, or the first when it
  is an acknowledgement, with a sequence number that is not 0, a copy of the packet buffer and the limit on its transmissions; the other packets keep theirs, no callback is made, and
  the transmission is due at once when it is first, with the counters of a new neighbor at 0. Otherwise nothing is queued or lost and the callback reports the error.
\<close>

theorem csma_send_or_refuse:
  assumes "csma_rep D s Q g" and "storable pb" and "\<not> packetbuf_is_reference pb"
    and "a = packetbuf_addr ADDR_RECEIVER pb" and "pb' = packetbuf_set_attr ATTR_MAC_SEQNO (seqno_of r s) pb"
  shows "seqno_of r s \<noteq> 0 \<and>
    (if length (Q a) < 8 \<and> (Q a = [] \<longrightarrow> memb_numfree (neighbor_memb s) \<noteq> 0) \<and>
        memb_numfree (packet_memb (pks s)) \<noteq> 0 \<and> queuebuf_numfree pb (qbs (pks s)) \<noteq> 0
     then \<exists>s' q. send_packet now r sent p pb s = Some (s', pb', []) \<and> q \<notin> memb_live (packet_memb (pks s)) \<and>
        csma_rep D s' (Q(a := if packetbuf_attr ATTR_PACKET_TYPE pb = 1 then q # Q a else Q a @ [q])) (g(pk_buf (pks s') q \<mapsto> packet_of pb')) \<and>
        mds (pks s') (pk_ptr (pks s') q) = \<lparr>md_sent = sent, md_cptr = p, max_transmissions =
          (if packetbuf_attr ATTR_MAX_MAC_TRANSMISSIONS pb = 0 then 3 else ucast (packetbuf_attr ATTR_MAX_MAC_TRANSMISSIONS pb))\<rparr> \<and>
        (\<forall>b x. x \<in> set (Q b) \<longrightarrow> rbs (pks s') x = rbs (pks s) x \<and> mds (pks s') (pk_ptr (pks s) x) = mds (pks s) (pk_ptr (pks s) x)) \<and>
        (packetbuf_attr ATTR_PACKET_TYPE pb = 1 \<or> Q a = [] \<longrightarrow> (\<exists>n \<in> memb_live (neighbor_memb s'). nq_addr (nqs s' n) = a \<and>
           nq_listed (nqs s' n) \<and> nq_timer (nqs s' n) = \<lparr>t_start = now, t_interval = 0\<rparr> \<and> (Q a = [] \<longrightarrow> transmissions (nqs s' n) = 0)))
     else \<exists>s'. send_packet now r sent p pb s = Some (s', pb', mac_call_sent_callback sent p MAC_TX_ERR 1) \<and> csma_rep D s' Q g)"
proof -
  note ok = send_packet_ok [OF assms, of now sent p, unfolded send_result_def]
  have nz: "seqno_of r s \<noteq> 0" by (simp add: seqno_of_def Let_def)
  have hd: "packetbuf_attr ATTR_PACKET_TYPE pb = 1 \<or> Q a = [] \<Longrightarrow> hd (queued_next pb q (Q a)) = q" for q by (auto simp: queued_next_def)
  have room: "(length (Q a) < 8 \<and> (Q a = [] \<longrightarrow> memb_numfree (neighbor_memb s) \<noteq> 0) \<and>
      memb_numfree (packet_memb (pks s)) \<noteq> 0 \<and> queuebuf_numfree pb (qbs (pks s)) \<noteq> 0) = send_room pb Q s"
    by (simp only: send_room_def assms(4))
  show ?thesis
  proof (cases "send_room pb Q s")
    case True
    with ok obtain s' q where s': "send_packet now r sent p pb s = Some (s', pb', [])" "q \<notin> memb_live (packet_memb (pks s))"
      "same_packets (memb_live (packet_memb (pks s))) (pks s) (pks s')"
      "csma_rep D s' (Q(a := queued_next pb q (Q a))) (g(pk_buf (pks s') q \<mapsto> packet_of pb'))"
      "mds (pks s') (pk_ptr (pks s') q) = metadata_of sent p pb"
      "hd (queued_next pb q (Q a)) = q \<longrightarrow> (\<exists>n \<in> memb_live (neighbor_memb s'). nq_addr (nqs s' n) = a \<and>
         nq_listed (nqs s' n) \<and> nq_timer (nqs s' n) = \<lparr>t_start = now, t_interval = 0\<rparr> \<and> (Q a = [] \<longrightarrow> transmissions (nqs s' n) = 0))" by (simp only: if_True) blast
    have "\<forall>b x. x \<in> set (Q b) \<longrightarrow> rbs (pks s') x = rbs (pks s) x \<and> mds (pks s') (pk_ptr (pks s) x) = mds (pks s) (pk_ptr (pks s) x)"
      using s'(3) csma_rep_facts(1) [OF assms(1)] unfolding same_packets_def by blast
    moreover have "packetbuf_attr ATTR_PACKET_TYPE pb = 1 \<or> Q a = [] \<longrightarrow> (\<exists>n \<in> memb_live (neighbor_memb s'). nq_addr (nqs s' n) = a \<and>
        nq_listed (nqs s' n) \<and> nq_timer (nqs s' n) = \<lparr>t_start = now, t_interval = 0\<rparr> \<and> (Q a = [] \<longrightarrow> transmissions (nqs s' n) = 0))" using s'(6) hd [of q] by blast
    ultimately show ?thesis unfolding room if_P [OF True]
      using nz s'(1,2,4,5) unfolding queued_next_def metadata_of_def by blast
  next
    case False
    with ok obtain s' where "send_packet now r sent p pb s = Some (s', pb', mac_call_sent_callback sent p MAC_TX_ERR 1)" "csma_rep D s' Q g"
      by (simp only: if_False) blast
    then show ?thesis unfolding room if_not_P [OF False] using nz by blast
  qed
qed

text \<open>
  C33. What a report from below does. The packet it refers to is the first of the neighbor's queue with the sequence number
  in the packet buffer; when there is none, only the counters change. After a collision or a missing acknowledgement it
  stays where it is until its transmissions are used up, and is due again after a random time between the
  base time and the base time plus that time doubled for each transmission, at most three times. In every other case it is
  removed and the callback gets the status and the number of transmissions; the next
  packet of the queue starts with fresh counters after the base time.
\<close>

theorem csma_report_outcome:
  assumes "csma_rep D s Q g" and "n \<in> memb_live (neighbor_memb s)" and "unat interval \<le> 7281" and "a = nq_addr (nqs s n)"
    and "tx = (if st = MAC_TX_OK \<or> st = MAC_TX_NOACK then ucast (ucast (transmissions (nqs s n)) + num) else transmissions (nqs s n))"
  shows "case find (\<lambda>q. queuebuf_attr (pk_buf (pks s) q) ATTR_MAC_SEQNO (qbs (pks s)) = packetbuf_attr ATTR_MAC_SEQNO pb) (Q a) of
      None \<Rightarrow> \<exists>s'. packet_sent now interval r pb n st num s = Some (s', []) \<and> csma_rep D s' Q g
    | Some q \<Rightarrow> let md = mds (pks s) (pk_ptr (pks s) q); base = default_timebase interval in
        if (st = MAC_TX_COLLISION \<or> st = MAC_TX_NOACK) \<and> tx < max_transmissions md then
          \<exists>s' g' time. packet_sent now interval r pb n st num s = Some (s', []) \<and> csma_rep D s' Q g' \<and>
            nq_listed (nqs s' n) \<and> nq_timer (nqs s' n) = \<lparr>t_start = now, t_interval = time\<rparr> \<and> transmissions (nqs s' n) = tx \<and>
            unat base \<le> unat time \<and> unat time < unat base + 2 ^ min 3 (unat tx) * unat base
        else
          \<exists>s' g'. packet_sent now interval r pb n st num s = Some (s', mac_call_sent_callback (md_sent md) (md_cptr md) st (ucast tx)) \<and>
            csma_rep D s' (Q(a := remove1 q (Q a))) g' \<and>
            (remove1 q (Q a) \<noteq> [] \<longrightarrow> nq_listed (nqs s' n) \<and> nq_timer (nqs s' n) = \<lparr>t_start = now, t_interval = base\<rparr> \<and>
               transmissions (nqs s' n) = 0 \<and> collisions (nqs s' n) = 0 \<and> deferrals (nqs s' n) = 0)"
proof -
  let ?c = "count_status st num (nqs s n)"
  have iv: "unat interval < 8192" using assms(3) by simp
  have tx: "transmissions ?c = tx" using assms(5) by (simp add: count_status_def split: mac_status.split)
  note ok = packet_sent_ok [OF assms(1,2) iv refl, where pb = pb and now = now and r = r and st = st and num = num,
      unfolded sent_packet_of_def report_result_def tx, folded assms(4)]
  have b: "unat (default_timebase interval) \<le> unat time \<and>
      unat time < unat (default_timebase interval) + 2 ^ min 3 (unat tx) * unat (default_timebase interval)"
    if "backoff interval r (ucast tx) = Some time" for time
    using backoff_ok [OF iv, of r "ucast tx"] that assms(3) by auto
  show ?thesis
  proof (cases "find (\<lambda>q. queuebuf_attr (pk_buf (pks s) q) ATTR_MAC_SEQNO (qbs (pks s)) = packetbuf_attr ATTR_MAC_SEQNO pb) (Q a)")
    case None
    then show ?thesis using ok by auto
  next
    case (Some q)
    let ?md = "mds (pks s) (pk_ptr (pks s) q)"
    show ?thesis
    proof (cases "(st = MAC_TX_COLLISION \<or> st = MAC_TX_NOACK) \<and> tx < max_transmissions ?md")
      case True
      from ok [unfolded Some option.case Let_def if_P [OF True]] obtain s' g' time where s': "packet_sent now interval r pb n st num s = Some (s', [])"
        "csma_rep D s' Q g'" "backoff interval r (ucast tx) = Some time" "nqs s' n = ?c\<lparr>nq_timer := timer_set now time (nq_timer ?c), nq_listed := True\<rparr>"
        by blast
      then show ?thesis unfolding Some option.case Let_def if_P [OF True] using b [OF s'(3)] tx
        by (intro exI [of _ s'] exI [of _ g'] exI [of _ time]) (simp add: timer_set_def)
    next
      case False
      from ok [unfolded Some option.case Let_def if_not_P [OF False]] obtain s' g' where
        "packet_sent now interval r pb n st num s = Some (s', mac_call_sent_callback (md_sent ?md) (md_cptr ?md) st (ucast tx))"
        "csma_rep D s' (Q(a := remove1 q (Q a))) g'" "remove1 q (Q a) \<noteq> [] \<longrightarrow> nqs s' n = after_free now interval ?c" by blast
      then show ?thesis unfolding Some option.case Let_def if_not_P [OF False]
        by (intro exI [of _ s'] exI [of _ g']) (simp add: after_free_def timer_set_def)
    qed
  qed
qed

text \<open>One collision leaves everything but the timer as it is; the attributes of the packet are those of the packet buffer.\<close>

lemma collision_step:
  assumes rep: "csma_rep D s Q g" and n: "n \<in> memb_live (neighbor_memb s)" and iv: "unat interval \<le> 7281"
    and q: "sent_packet_of pb s (Q (nq_addr (nqs s n))) = Some q"
    and tx: "transmissions (nqs s n) = 0" and lim: "0 < max_transmissions (mds (pks s) (pk_ptr (pks s) q))"
  shows "\<exists>s' g' bs. csma_step (s, []) (Report now interval r pb n MAC_TX_COLLISION 1) = Some (s', []) \<and> csma_rep D s' Q g' \<and>
    rbs (pks s') = rbs (pks s) \<and> mds (pks s') = mds (pks s) \<and> q \<in> memb_live (packet_memb (pks s)) \<and>
    memb_live (packet_memb (pks s')) = memb_live (packet_memb (pks s)) \<and> neighbor_memb s' = neighbor_memb s \<and>
    g' = g(pk_buf (pks s) q \<mapsto> Copied bs (packetbuf_attr_copyto pb)) \<and> nq_addr (nqs s' n) = nq_addr (nqs s n) \<and> transmissions (nqs s' n) = 0 \<and>
    nq_listed (nqs s' n) \<and> unat (t_interval (nq_timer (nqs s' n))) < 2 * unat (default_timebase interval)"
proof -
  have iv': "unat interval < 8192" using iv by simp
  let ?c = "count_status MAC_TX_COLLISION 1 (nqs s n)"
  have c: "transmissions ?c = 0" using tx by (simp add: count_status_def)
  note ok = packet_sent_ok [OF rep n iv' refl, where pb = pb and now = now and r = r and st = MAC_TX_COLLISION and num = 1,
      unfolded q option.case report_result_def Let_def c]
  have l: "(MAC_TX_COLLISION = MAC_TX_COLLISION \<or> MAC_TX_COLLISION = MAC_TX_NOACK) \<and> 0 < max_transmissions (mds (pks s) (pk_ptr (pks s) q))"
    using lim by simp
  from ok [unfolded if_P [OF l]] obtain s' g' time bs where s': "rbs (pks s') = rbs (pks s)" "mds (pks s') = mds (pks s)"
    "q \<in> memb_live (packet_memb (pks s))" "packet_sent now interval r pb n MAC_TX_COLLISION 1 s = Some (s', [])" "csma_rep D s' Q g'"
    "memb_live (packet_memb (pks s')) = memb_live (packet_memb (pks s))" "neighbor_memb s' = neighbor_memb s"
    "g' = g(pk_buf (pks s) q \<mapsto> Copied bs (packetbuf_attr_copyto pb))" "backoff interval r (ucast (0::u8)) = Some time"
    "nqs s' n = ?c\<lparr>nq_timer := timer_set now time (nq_timer ?c), nq_listed := True\<rparr>" by blast
  have "csma_step (s, []) (Report now interval r pb n MAC_TX_COLLISION 1) = Some (s', [])" using s'(4) n by (simp add: csma_step_def)
  moreover have "unat (t_interval (nq_timer (nqs s' n))) < 2 * unat (default_timebase interval)"
    using backoff_ok [OF iv', of r "ucast (0::u8)"] s'(9,10) iv by (simp add: timer_set_def)
  moreover have "nq_addr (nqs s' n) = nq_addr (nqs s n)" "transmissions (nqs s' n) = 0" "nq_listed (nqs s' n)" using s'(10) c by simp_all
  ultimately show ?thesis using s'(1-3,5-8) by blast
qed

lemma sent_packet_after_update:
  assumes rep: "csma_rep D s Q g" "csma_rep D s' Q g'" and q: "sent_packet_of pb s (Q a) = Some q"
    and s': "rbs (pks s') = rbs (pks s)" "memb_live (packet_memb (pks s')) = memb_live (packet_memb (pks s))"
      "g' = g(pk_buf (pks s) q \<mapsto> Copied bs (packetbuf_attr_copyto pb))"
  shows "sent_packet_of pb s' (Q a) = Some q"
proof -
  have live: "y \<in> memb_live (packet_memb (pks s))" if "y \<in> set (Q a)" for y using csma_rep_facts(1) [OF rep(1)] that by blast
  have ql: "q \<in> memb_live (packet_memb (pks s))" using live sent_packet_of_in [OF q] .
  have match: "queuebuf_attr (pk_buf (pks s) q) ATTR_MAC_SEQNO (qbs (pks s)) = packetbuf_attr ATTR_MAC_SEQNO pb"
    using q by (auto simp: sent_packet_of_def find_Some_iff)
  have attr: "queuebuf_attr (pk_buf (pks s') y) ATTR_MAC_SEQNO (qbs (pks s')) = queuebuf_attr (pk_buf (pks s) y) ATTR_MAC_SEQNO (qbs (pks s))"
    if y: "y \<in> memb_live (packet_memb (pks s))" for y
  proof (cases "y = q")
    case True
    then show ?thesis using queued_attr [OF rep(2), of q bs "packetbuf_attr_copyto pb" ATTR_MAC_SEQNO] s' ql match
      by (simp add: packetbuf_attr_copyto_def packetbuf_attr_def)
  next
    case False
    have p: "packets_ok D (pks s) (memb_live (packet_memb (pks s))) g" by (rule csma_rep_facts(4) [OF rep(1)])
    then obtain cs at where g: "g (pk_buf (pks s) y) = Some (Copied cs at)" using y by (auto simp: packets_ok_def)
    have "pk_buf (pks s) y \<noteq> pk_buf (pks s) q" using p y ql False by (auto simp: packets_ok_def dest: inj_onD)
    then have "g' (pk_buf (pks s') y) = Some (Copied cs at)" using g s' by simp
    then show ?thesis using queued_attr [OF rep(2)] queued_attr [OF rep(1) y g] y s' by simp
  qed
  have "sent_packet_of pb s' (Q a) = sent_packet_of pb s (Q a)"
    unfolding sent_packet_of_def using attr live by (intro find_cong) simp_all
  then show ?thesis using q by simp
qed

text \<open>
  C34. Collisions are counted but never looked at: however often a packet collides, it stays queued
  and no callback is made, whatever limit it has on its transmissions, and the interval it waits does not grow.
\<close>

theorem csma_collisions_unlimited:
  assumes "csma_rep D s Q g" and "n \<in> memb_live (neighbor_memb s)" and "unat interval \<le> 7281" and "a = nq_addr (nqs s n)"
    and "find (\<lambda>q. queuebuf_attr (pk_buf (pks s) q) ATTR_MAC_SEQNO (qbs (pks s)) = packetbuf_attr ATTR_MAC_SEQNO pb) (Q a) = Some q"
    and "transmissions (nqs s n) = 0" and "0 < max_transmissions (mds (pks s) (pk_ptr (pks s) q))"
  shows "\<exists>s' g'. csma_run (s, []) (map (\<lambda>(now, r). Report now interval r pb n MAC_TX_COLLISION 1) xs) = Some (s', []) \<and>
    csma_rep D s' Q g' \<and> (xs \<noteq> [] \<longrightarrow> nq_listed (nqs s' n) \<and> unat (t_interval (nq_timer (nqs s' n))) < 2 * unat (default_timebase interval))"
  using assms
proof (induction xs arbitrary: s g)
  case Nil
  then show ?case by auto
next
  case (Cons x xs)
  obtain now r where x: "x = (now, r)" by fastforce
  have q: "sent_packet_of pb s (Q (nq_addr (nqs s n))) = Some q" using Cons.prems(4,5) by (simp add: sent_packet_of_def)
  from collision_step [OF Cons.prems(1-3) q Cons.prems(6,7), of now r] obtain s' g' bs where
    s': "csma_step (s, []) (Report now interval r pb n MAC_TX_COLLISION 1) = Some (s', [])" "csma_rep D s' Q g'"
    "rbs (pks s') = rbs (pks s)" "mds (pks s') = mds (pks s)" "memb_live (packet_memb (pks s')) = memb_live (packet_memb (pks s))"
    "neighbor_memb s' = neighbor_memb s" "g' = g(pk_buf (pks s) q \<mapsto> Copied bs (packetbuf_attr_copyto pb))"
    "nq_addr (nqs s' n) = nq_addr (nqs s n)" "transmissions (nqs s' n) = 0"
    "nq_listed (nqs s' n) \<and> unat (t_interval (nq_timer (nqs s' n))) < 2 * unat (default_timebase interval)" by blast
  have f: "find (\<lambda>q. queuebuf_attr (pk_buf (pks s') q) ATTR_MAC_SEQNO (qbs (pks s')) = packetbuf_attr ATTR_MAC_SEQNO pb) (Q a) = Some q"
    using sent_packet_after_update [OF Cons.prems(1) s'(2) q s'(3,5,7)] Cons.prems(4) by (simp add: sent_packet_of_def)
  from Cons.IH [OF s'(2) _ Cons.prems(3) _ f s'(9)] Cons.prems(2,4,7) s'(3,4,6,8) obtain s2 g2 where
    2: "csma_run (s', []) (map (\<lambda>(now, r). Report now interval r pb n MAC_TX_COLLISION 1) xs) = Some (s2, [])" "csma_rep D s2 Q g2"
    "xs \<noteq> [] \<longrightarrow> nq_listed (nqs s2 n) \<and> unat (t_interval (nq_timer (nqs s2 n))) < 2 * unat (default_timebase interval)" by auto
  then show ?case using s'(1,10) x by (cases xs) auto
qed

section \<open>A concrete layer\<close>

definition boot_csma :: csma where
  "boot_csma = \<lparr>lists = empty_heap, neighbor_memb = \<lparr>msize = 20, mnum = 2, mcount = [0, 0], mmem = 2000, mbytes = []\<rparr>,
     nqs = (\<lambda>_. \<lparr>nq_addr = linkaddr_null, nq_timer = \<lparr>t_start = 0, t_interval = 0\<rparr>, nq_listed = False, transmissions = 0, collisions = 0, deferrals = 0\<rparr>),
     pks = \<lparr>packet_memb = \<lparr>msize = 6, mnum = 1, mcount = [0], mmem = 3000, mbytes = []\<rparr>,
       metadata_memb = \<lparr>msize = 5, mnum = 1, mcount = [0], mmem = 4000, mbytes = []\<rparr>,
       rbs = (\<lambda>_. \<lparr>rb_buf = 0, rb_ptr = 0\<rparr>), mds = (\<lambda>_. \<lparr>md_sent = 0, md_cptr = 0, max_transmissions = 0\<rparr>),
       qbs = queuebuf_init raw_queuebufs\<rparr>,
     initialized = False, seqno = 0\<rparr>"

lemma boot_csma_boots: "csma_boot boot_csma Map.empty"
proof -
  have w: "memb_wf (neighbor_memb boot_csma)" "memb_wf (packet_memb (pks boot_csma))" "memb_wf (metadata_memb (pks boot_csma))"
    by (simp_all add: memb_wf_def boot_csma_def)
  have "x < 2040" "2000 \<le> x" if "x \<in> memb_blocks (neighbor_memb boot_csma)" for x
    using block_inmemb [OF w(1) that] by (simp_all add: memb_inmemb_def boot_csma_def)
  moreover have "3000 \<le> x" if "x \<in> memb_blocks (packet_memb (pks boot_csma))" for x
    using block_inmemb [OF w(2) that] by (simp_all add: memb_inmemb_def boot_csma_def)
  ultimately have "memb_blocks (neighbor_memb boot_csma) \<inter> memb_blocks (packet_memb (pks boot_csma)) = {}" by fastforce
  moreover have "card (memb_blocks (packet_memb (pks boot_csma))) = card (memb_blocks (metadata_memb (pks boot_csma)))"
    unfolding card_memb_blocks [OF w(2)] card_memb_blocks [OF w(3)] by (simp add: boot_csma_def)
  ultimately show ?thesis using w init_rep [OF raw_queuebufs_pools]
    by (simp add: csma_boot_def) (simp add: boot_csma_def list_head_def empty_heap_def)
qed

lemma fresh_ok: "storable fresh_packetbuf" "\<not> packetbuf_is_reference fresh_packetbuf" "packetbuf_attr t fresh_packetbuf = 0"
    "packetbuf_addr ADDR_RECEIVER fresh_packetbuf = linkaddr_null"
  using fresh_packetbuf_wf
  by (simp_all add: storable_def packetbuf_is_reference_def fresh_packetbuf_def packetbuf_clear_def packetbuf_attr_clear_def
      packetbuf_attr_def packetbuf_addr_def)

lemma boot_room:
  "memb_numfree (neighbor_memb (csma_init boot_csma)) \<noteq> 0" "memb_numfree (packet_memb (pks (csma_init boot_csma))) \<noteq> 0"
  "queuebuf_numfree fresh_packetbuf (qbs (pks (csma_init boot_csma))) \<noteq> 0"
proof -
  have "replicate 2 (0 :: u8) = [0, 0]" by (simp add: numeral_2_eq_2)
  then show "memb_numfree (neighbor_memb (csma_init boot_csma)) \<noteq> 0" by (simp add: csma_init_def boot_csma_def memb_numfree_def memb_init_def)
  show "memb_numfree (packet_memb (pks (csma_init boot_csma))) \<noteq> 0" "queuebuf_numfree fresh_packetbuf (qbs (pks (csma_init boot_csma))) \<noteq> 0"
    using fresh_ok(2) by (simp_all add: csma_init_def boot_csma_def memb_numfree_def memb_init_def queuebuf_numfree_def queuebuf_init_def raw_queuebufs_def)
qed

theorem csma_answers_once_witness:
  "\<exists>s calls. csma_run (csma_init boot_csma, []) [Send 100 7 50 60 fresh_packetbuf, Send 101 7 51 61 fresh_packetbuf] = Some (s, calls) \<and>
     owed s + made calls = {#(50, 60), (51, 61)#}"
  using csma_answers_once [OF boot_csma_boots, of "[Send 100 7 50 60 fresh_packetbuf, Send 101 7 51 61 fresh_packetbuf]"] fresh_ok(1,2)
  by (auto simp: asked_def)

theorem csma_send_or_refuse_witness:
  "\<exists>s' q n. send_packet 100 7 50 60 fresh_packetbuf (csma_init boot_csma) = Some (s', packetbuf_set_attr ATTR_MAC_SEQNO 7 fresh_packetbuf, []) \<and>
     mds (pks s') (pk_ptr (pks s') q) = \<lparr>md_sent = 50, md_cptr = 60, max_transmissions = 3\<rparr> \<and> nq_listed (nqs s' n)"
proof -
  have no: "seqno_of 7 (csma_init boot_csma) = 7" by (simp add: seqno_of_def csma_init_def boot_csma_def)
  show ?thesis
    using csma_send_or_refuse [OF csma_init_rep [OF boot_csma_boots] fresh_ok(1,2) refl refl, of 7 100 50 60] boot_room
    unfolding no fresh_ok(3,4) by auto
qed

text \<open>A packet queued on the fresh layer, and its neighbor.\<close>

lemma one_packet:
  obtains s q n g where "csma_rep {} s ((\<lambda>_. [])(linkaddr_null := [q])) g" "n \<in> memb_live (neighbor_memb s)" "nq_addr (nqs s n) = linkaddr_null"
    "find (\<lambda>q. queuebuf_attr (pk_buf (pks s) q) ATTR_MAC_SEQNO (qbs (pks s)) = packetbuf_attr ATTR_MAC_SEQNO (packetbuf_set_attr ATTR_MAC_SEQNO 7 fresh_packetbuf)) [q] = Some q"
    "transmissions (nqs s n) = 0" "mds (pks s) (pk_ptr (pks s) q) = \<lparr>md_sent = 50, md_cptr = 60, max_transmissions = 3\<rparr>"
proof -
  let ?pb = "packetbuf_set_attr ATTR_MAC_SEQNO 7 fresh_packetbuf"
  have no: "seqno_of 7 (csma_init boot_csma) = 7" by (simp add: seqno_of_def csma_init_def boot_csma_def)
  have room: "send_room fresh_packetbuf (\<lambda>_. []) (csma_init boot_csma)" using boot_room by (simp add: send_room_def)
  have sn: "queued_next fresh_packetbuf q [] = [q]" for q by (simp add: queued_next_def)
  obtain s q where s: "csma_rep {} s ((\<lambda>_. [])(linkaddr_null := [q])) (Map.empty(pk_buf (pks s) q \<mapsto> packet_of ?pb))"
    "mds (pks s) (pk_ptr (pks s) q) = metadata_of 50 60 fresh_packetbuf"
    "memb_live (packet_memb (pks s)) = insert q (memb_live (packet_memb (pks (csma_init boot_csma))))"
    "\<exists>n \<in> memb_live (neighbor_memb s). nq_addr (nqs s n) = linkaddr_null \<and> transmissions (nqs s n) = 0"
    using send_packet_ok [OF csma_init_rep [OF boot_csma_boots] fresh_ok(1,2) refl refl, where r = 7 and now = 100 and sent = 50 and p = 60]
    unfolding send_result_def if_P [OF room] fresh_ok(4) no sn by auto
  obtain n where n: "n \<in> memb_live (neighbor_memb s)" "nq_addr (nqs s n) = linkaddr_null" "transmissions (nqs s n) = 0" using s(4) by blast
  have "packet_of ?pb = Copied (snd (packetbuf_copyto ?pb)) (packetbuf_attr_copyto ?pb)" using fresh_ok(2) by (simp add: packet_of_def)
  then have "queuebuf_attr (pk_buf (pks s) q) ATTR_MAC_SEQNO (qbs (pks s)) = packetbuf_attr ATTR_MAC_SEQNO ?pb"
    using queued_attr [OF s(1), of q] s(3) by (simp add: packetbuf_attr_copyto_def packetbuf_attr_def)
  then show ?thesis using that [OF s(1) n(1,2)] n(3) s(2) by (simp add: metadata_of_def fresh_ok(3))
qed

theorem csma_report_outcome_witness:
  "\<exists>s s' n q time. nq_timer (nqs s' n) = \<lparr>t_start = 200, t_interval = time\<rparr> \<and> 16 \<le> unat time \<and> unat time < 48 \<and>
     packet_sent 200 0 9 (packetbuf_set_attr ATTR_MAC_SEQNO 7 fresh_packetbuf) n MAC_TX_NOACK 1 s = Some (s', []) \<and>
     md_sent (mds (pks s) (pk_ptr (pks s) q)) = 50"
proof (rule one_packet)
  fix s q n g
  assume s: "csma_rep {} s ((\<lambda>_. [])(linkaddr_null := [q])) g" "n \<in> memb_live (neighbor_memb s)" "nq_addr (nqs s n) = linkaddr_null"
    "find (\<lambda>q. queuebuf_attr (pk_buf (pks s) q) ATTR_MAC_SEQNO (qbs (pks s)) = packetbuf_attr ATTR_MAC_SEQNO (packetbuf_set_attr ATTR_MAC_SEQNO 7 fresh_packetbuf)) [q] = Some q"
    "transmissions (nqs s n) = 0" "mds (pks s) (pk_ptr (pks s) q) = \<lparr>md_sent = 50, md_cptr = 60, max_transmissions = 3\<rparr>"
  have f: "find (\<lambda>q. queuebuf_attr (pk_buf (pks s) q) ATTR_MAC_SEQNO (qbs (pks s)) = packetbuf_attr ATTR_MAC_SEQNO (packetbuf_set_attr ATTR_MAC_SEQNO 7 fresh_packetbuf))
      (((\<lambda>_. [])(linkaddr_null := [q])) linkaddr_null) = Some q" using s(4) by simp
  have lim: "(MAC_TX_NOACK = MAC_TX_COLLISION \<or> MAC_TX_NOACK = MAC_TX_NOACK) \<and> (1 :: u8) < max_transmissions (mds (pks s) (pk_ptr (pks s) q))"
    using s(6) by (simp add: word_less_nat_alt)
  have tx: "(1 :: u8) = (if MAC_TX_NOACK = MAC_TX_OK \<or> MAC_TX_NOACK = MAC_TX_NOACK then ucast (ucast (transmissions (nqs s n)) + (1 :: u16)) else transmissions (nqs s n))"
    using s(5) by simp
  have iv: "unat (0 :: u16) \<le> 7281" by simp
  have t: "unat (default_timebase 0) = 16" "min 3 (unat (1 :: u8)) = 1" by (simp_all add: default_timebase_def)
  from csma_report_outcome [OF s(1,2) iv s(3) [symmetric] tx, where pb = "packetbuf_set_attr ATTR_MAC_SEQNO 7 fresh_packetbuf" and now = 200 and r = 9,
      unfolded f option.case Let_def if_P [OF lim] t]
  obtain s' g' time where "packet_sent 200 0 9 (packetbuf_set_attr ATTR_MAC_SEQNO 7 fresh_packetbuf) n MAC_TX_NOACK 1 s = Some (s', [])"
    "nq_timer (nqs s' n) = \<lparr>t_start = 200, t_interval = time\<rparr>" "16 \<le> unat time \<and> unat time < 16 + 2 ^ 1 * 16" by blast
  then show ?thesis using s(6) by (intro exI [of _ s] exI [of _ s'] exI [of _ n] exI [of _ q] exI [of _ time]) simp
qed

theorem csma_collisions_unlimited_witness:
  "\<exists>s s' n q g. csma_run (s, []) (map (\<lambda>(now, r). Report now 0 r (packetbuf_set_attr ATTR_MAC_SEQNO 7 fresh_packetbuf) n MAC_TX_COLLISION 1) (replicate 1000 (5, 6))) = Some (s', []) \<and>
     csma_rep {} s' ((\<lambda>_. [])(linkaddr_null := [q])) g \<and> nq_listed (nqs s' n)"
proof (rule one_packet)
  fix s q n g
  assume s: "csma_rep {} s ((\<lambda>_. [])(linkaddr_null := [q])) g" "n \<in> memb_live (neighbor_memb s)" "nq_addr (nqs s n) = linkaddr_null"
    "find (\<lambda>q. queuebuf_attr (pk_buf (pks s) q) ATTR_MAC_SEQNO (qbs (pks s)) = packetbuf_attr ATTR_MAC_SEQNO (packetbuf_set_attr ATTR_MAC_SEQNO 7 fresh_packetbuf)) [q] = Some q"
    "transmissions (nqs s n) = 0" "mds (pks s) (pk_ptr (pks s) q) = \<lparr>md_sent = 50, md_cptr = 60, max_transmissions = 3\<rparr>"
  have f: "find (\<lambda>q. queuebuf_attr (pk_buf (pks s) q) ATTR_MAC_SEQNO (qbs (pks s)) = packetbuf_attr ATTR_MAC_SEQNO (packetbuf_set_attr ATTR_MAC_SEQNO 7 fresh_packetbuf))
      (((\<lambda>_. [])(linkaddr_null := [q])) linkaddr_null) = Some q" using s(4) by simp
  have iv: "unat (0 :: u16) \<le> 7281" by simp
  have "0 < max_transmissions (mds (pks s) (pk_ptr (pks s) q))" using s(6) by simp
  from csma_collisions_unlimited [OF s(1,2) iv s(3) [symmetric] f s(5) this, of "replicate 1000 (5, 6)"]
  obtain s' g' where "csma_run (s, []) (map (\<lambda>(now, r). Report now 0 r (packetbuf_set_attr ATTR_MAC_SEQNO 7 fresh_packetbuf) n MAC_TX_COLLISION 1) (replicate 1000 (5, 6))) = Some (s', [])"
    "csma_rep {} s' ((\<lambda>_. [])(linkaddr_null := [q])) g'" "replicate 1000 (5 :: u16, 6 :: u16) \<noteq> [] \<longrightarrow> nq_listed (nqs s' n)" by blast
  then show ?thesis by (intro exI [of _ s] exI [of _ s'] exI [of _ n] exI [of _ q] exI [of _ g']) simp
qed

end
