(* ===== verification/Iphc.thy ===== *)
theory Iphc
  imports Packetbuf
begin

text \<open>
  Header compression of 6LoWPAN (\<open>core/net/ipv6/sicslowpan.c\<close> and \<open>sicslowpan.h\<close>)
  as configured for the target: HC06 (IPHC) with UDP compression, 64-bit link addresses and no
  further next-header compressor. The IPv6 and UDP headers are records with the fields of
  \<open>struct uip_ip_hdr\<close> and \<open>struct uip_udp_hdr\<close>; 16-bit fields hold the value
  the little-endian machine reads from the two bytes, addresses are their 16 bytes. Writing through
  \<open>hc06_ptr\<close> appends to the inline bytes of the writer, reading through it consumes the
  bytes of the packet buffer from \<open>hc06_ptr\<close> on. The theory proves that decompression
  restores a compressed header and shows which source addresses it does not restore.
\<close>

section \<open>Headers\<close>

type_synonym ip6addr = "u8 list"

record uip_ip_hdr =
  vtc :: u8
  tcflow :: u8
  flow :: u16
  ip_len :: "u8 list"
  proto :: u8
  ttl :: u8
  srcipaddr :: ip6addr
  destipaddr :: ip6addr

record uip_udp_hdr =
  srcport :: u16
  destport :: u16
  udplen :: u16
  udpchksum :: u16

abbreviation (input) UIP_PROTO_UDP :: u8 where "UIP_PROTO_UDP \<equiv> 17"
abbreviation (input) UIP_PROTO_TCP :: u8 where "UIP_PROTO_TCP \<equiv> 6"
abbreviation (input) UIP_PROTO_ICMP6 :: u8 where "UIP_PROTO_ICMP6 \<equiv> 58"

text \<open>A 16-bit field as the two bytes it occupies in memory, and back.\<close>

definition le_bytes :: "u16 \<Rightarrow> u8 list" where
  "le_bytes w = [ucast w, ucast (drop_bit 8 w)]"

definition le_u16 :: "u8 list \<Rightarrow> u16" where
  "le_u16 bs = ucast (bs ! 0) OR push_bit 8 (ucast (bs ! 1))"

definition UIP_HTONS :: "u16 \<Rightarrow> u16" where
  "UIP_HTONS n = push_bit 8 n OR drop_bit 8 n"

fun lladdr_bytes :: "linkaddr \<Rightarrow> u8 list" where
  "lladdr_bytes (Linkaddr a b c d e f g h) = [a, b, c, d, e, f, g, h]"

section \<open>Address tests\<close>

text \<open>\<open>a->u16[i] == 0\<close>\<close>

definition u16_zero :: "ip6addr \<Rightarrow> nat \<Rightarrow> bool" where
  "u16_zero a i \<longleftrightarrow> a ! (2 * i) = 0 \<and> a ! (2 * i + 1) = 0"

definition uip_is_addr_unspecified :: "ip6addr \<Rightarrow> bool" where
  "uip_is_addr_unspecified a \<longleftrightarrow> u16_zero a 0 \<and> u16_zero a 1 \<and> u16_zero a 2 \<and> u16_zero a 3 \<and>
     u16_zero a 4 \<and> u16_zero a 5 \<and> u16_zero a 6 \<and> u16_zero a 7"

definition uip_is_addr_link_local :: "ip6addr \<Rightarrow> bool" where
  "uip_is_addr_link_local a \<longleftrightarrow> a ! 0 = 0xfe \<and> a ! 1 = 0x80"

definition uip_is_addr_mcast :: "ip6addr \<Rightarrow> bool" where
  "uip_is_addr_mcast a \<longleftrightarrow> a ! 0 = 0xff"

definition uip_is_addr_mac_addr_based :: "ip6addr \<Rightarrow> linkaddr \<Rightarrow> bool" where
  "uip_is_addr_mac_addr_based a m \<longleftrightarrow>
     (let addr = lladdr_bytes m
      in a ! 8 = addr ! 0 XOR 0x02 \<and> a ! 9 = addr ! 1 \<and> a ! 10 = addr ! 2 \<and> a ! 11 = addr ! 3 \<and>
         a ! 12 = addr ! 4 \<and> a ! 13 = addr ! 5 \<and> a ! 14 = addr ! 6 \<and> a ! 15 = addr ! 7)"

definition is_iid_16_bit_compressable :: "ip6addr \<Rightarrow> bool" where
  "is_iid_16_bit_compressable a \<longleftrightarrow> u16_zero a 4 \<and> a ! 10 = 0 \<and> a ! 11 = 0xff \<and> a ! 12 = 0xfe \<and> a ! 13 = 0"

definition is_mcast_addr_compressable48 :: "ip6addr \<Rightarrow> bool" where
  "is_mcast_addr_compressable48 a \<longleftrightarrow>
     u16_zero a 1 \<and> u16_zero a 2 \<and> u16_zero a 3 \<and> u16_zero a 4 \<and> a ! 10 = 0"

definition is_mcast_addr_compressable32 :: "ip6addr \<Rightarrow> bool" where
  "is_mcast_addr_compressable32 a \<longleftrightarrow>
     u16_zero a 1 \<and> u16_zero a 2 \<and> u16_zero a 3 \<and> u16_zero a 4 \<and> u16_zero a 5 \<and> a ! 12 = 0"

definition is_mcast_addr_compressable8 :: "ip6addr \<Rightarrow> bool" where
  "is_mcast_addr_compressable8 a \<longleftrightarrow> a ! 1 = 2 \<and>
     u16_zero a 1 \<and> u16_zero a 2 \<and> u16_zero a 3 \<and> u16_zero a 4 \<and> u16_zero a 5 \<and> u16_zero a 6 \<and> a ! 14 = 0"

definition uip_ds6_set_addr_iid :: "ip6addr \<Rightarrow> linkaddr \<Rightarrow> ip6addr" where
  "uip_ds6_set_addr_iid a m =
     (let b = memcpy_at a 8 (lladdr_bytes m) in b[8 := b ! 8 XOR 0x02])"

section \<open>Address contexts\<close>

record addr_context =
  ctx_used :: u8
  ctx_number :: u8
  ctx_prefix :: "u8 list"

fun addr_context_lookup_by_prefix :: "addr_context list \<Rightarrow> ip6addr \<Rightarrow> addr_context option" where
  "addr_context_lookup_by_prefix [] a = None"
| "addr_context_lookup_by_prefix (c # cs) a =
     (if ctx_used c = 1 \<and> take 8 (ctx_prefix c) = take 8 a then Some c else addr_context_lookup_by_prefix cs a)"

fun addr_context_lookup_by_number :: "addr_context list \<Rightarrow> u8 \<Rightarrow> addr_context option" where
  "addr_context_lookup_by_number [] n = None"
| "addr_context_lookup_by_number (c # cs) n =
     (if ctx_used c = 1 \<and> ctx_number c = n then Some c else addr_context_lookup_by_number cs n)"

text \<open>The context table after \<open>sicslowpan_init\<close>, with one context for \<open>aaaa::/64\<close>.\<close>

definition sicslowpan_contexts :: "addr_context list" where
  "sicslowpan_contexts = [\<lparr>ctx_used = 1, ctx_number = 0, ctx_prefix = [0xaa, 0xaa, 0, 0, 0, 0, 0, 0]\<rparr>]"

section \<open>Compression\<close>

record hc06_writer =
  w_iphc0 :: u8
  w_iphc1 :: u8
  w_iphc2 :: u8
  w_inline :: "u8 list"

definition set0 :: "u8 \<Rightarrow> hc06_writer \<Rightarrow> hc06_writer" where
  "set0 b w = w\<lparr>w_iphc0 := w_iphc0 w OR b\<rparr>"

definition set1 :: "u8 \<Rightarrow> hc06_writer \<Rightarrow> hc06_writer" where
  "set1 b w = w\<lparr>w_iphc1 := w_iphc1 w OR b\<rparr>"

definition set2 :: "u8 \<Rightarrow> hc06_writer \<Rightarrow> hc06_writer" where
  "set2 b w = w\<lparr>w_iphc2 := w_iphc2 w OR b\<rparr>"

definition inline :: "u8 list \<Rightarrow> hc06_writer \<Rightarrow> hc06_writer" where
  "inline bs w = w\<lparr>w_inline := w_inline w @ bs\<rparr>"

text \<open>The mode bits and the writer after the inline bytes.\<close>

definition compress_addr_64 :: "nat \<Rightarrow> ip6addr \<Rightarrow> linkaddr \<Rightarrow> hc06_writer \<Rightarrow> u8 \<times> hc06_writer" where
  "compress_addr_64 bitpos a m w =
     (if uip_is_addr_mac_addr_based a m then (push_bit bitpos 3, w)
      else if is_iid_16_bit_compressable a then (push_bit bitpos 2, inline (take 2 (drop 14 a)) w)
      else (push_bit bitpos 1, inline (take 8 (drop 8 a)) w))"

definition compress_tcflow :: "uip_ip_hdr \<Rightarrow> hc06_writer \<Rightarrow> hc06_writer" where
  "compress_tcflow h w =
     (let tmp = push_bit 4 (vtc h) OR drop_bit 4 (tcflow h);
          tmp = push_bit 6 (tmp AND 0x03) OR drop_bit 2 tmp
      in if tcflow h AND 0x0f = 0 \<and> flow h = 0 then
           (let w = set0 0x10 w
            in if vtc h AND 0x0f = 0 \<and> tcflow h AND 0xf0 = 0 then set0 0x08 w else inline [tmp] w)
         else if vtc h AND 0x0f = 0 \<and> tcflow h AND 0xf0 = 0 then
           inline ([(tmp AND 0xc0) OR (tcflow h AND 0x0f)] @ le_bytes (flow h)) (set0 0x08 w)
         else inline ([tmp, tcflow h] @ le_bytes (flow h)) w)"

definition compress_proto :: "uip_ip_hdr \<Rightarrow> hc06_writer \<Rightarrow> hc06_writer" where
  "compress_proto h w =
     (let w = (if proto h = UIP_PROTO_UDP then set0 0x04 w else w)
      in if w_iphc0 w AND 0x04 = 0 then inline [proto h] w else w)"

definition compress_ttl :: "uip_ip_hdr \<Rightarrow> hc06_writer \<Rightarrow> hc06_writer" where
  "compress_ttl h w =
     (if ttl h = 1 then set0 0x01 w
      else if ttl h = 64 then set0 0x02 w
      else if ttl h = 255 then set0 0x03 w
      else inline [ttl h] w)"

text \<open>The link-local case of the source tests the words 1 to 3 of the destination address.\<close>

definition compress_src :: "addr_context list \<Rightarrow> linkaddr \<Rightarrow> uip_ip_hdr \<Rightarrow> hc06_writer \<Rightarrow> hc06_writer" where
  "compress_src ctxs lladdr h w =
     (if uip_is_addr_unspecified (srcipaddr h) then set1 0x00 (set1 0x40 w)
      else case addr_context_lookup_by_prefix ctxs (srcipaddr h) of
        Some c \<Rightarrow>
          (case compress_addr_64 4 (srcipaddr h) lladdr (set2 (push_bit 4 (ctx_number c)) (set1 (0x80 OR 0x40) w)) of
             (b, w) \<Rightarrow> set1 b w)
      | None \<Rightarrow>
          if uip_is_addr_link_local (srcipaddr h) \<and>
             u16_zero (destipaddr h) 1 \<and> u16_zero (destipaddr h) 2 \<and> u16_zero (destipaddr h) 3
          then (case compress_addr_64 4 (srcipaddr h) lladdr w of (b, w) \<Rightarrow> set1 b w)
          else inline (srcipaddr h) (set1 0x00 w))"

definition compress_dest :: "addr_context list \<Rightarrow> linkaddr \<Rightarrow> uip_ip_hdr \<Rightarrow> hc06_writer \<Rightarrow> hc06_writer" where
  "compress_dest ctxs link_destaddr h w =
     (let a = destipaddr h
      in if uip_is_addr_mcast a then
           (let w = set1 0x08 w
            in if is_mcast_addr_compressable8 a then inline [a ! 15] (set1 0x03 w)
               else if is_mcast_addr_compressable32 a then inline ([a ! 1] @ take 3 (drop 13 a)) (set1 0x02 w)
               else if is_mcast_addr_compressable48 a then inline ([a ! 1] @ take 5 (drop 11 a)) (set1 0x01 w)
               else inline a (set1 0x00 w))
         else case addr_context_lookup_by_prefix ctxs a of
           Some c \<Rightarrow>
             (case compress_addr_64 0 a link_destaddr (set2 (ctx_number c) (set1 0x04 w)) of (b, w) \<Rightarrow> set1 b w)
         | None \<Rightarrow>
             if uip_is_addr_link_local a \<and> u16_zero a 1 \<and> u16_zero a 2 \<and> u16_zero a 3
             then (case compress_addr_64 0 a link_destaddr w of (b, w) \<Rightarrow> set1 b w)
             else inline a (set1 0x00 w))"

definition compress_udp :: "uip_udp_hdr \<Rightarrow> hc06_writer \<Rightarrow> hc06_writer" where
  "compress_udp u w =
     (let src = UIP_HTONS (srcport u); dst = UIP_HTONS (destport u);
          w = (if src AND 0xfff0 = 0xf0b0 \<and> dst AND 0xfff0 = 0xf0b0 then
                 inline [0xf3, ucast (push_bit 4 (src - 0xf0b0)) + ucast (dst - 0xf0b0)] w
               else if dst AND 0xff00 = 0xf000 then
                 inline ([0xf1] @ le_bytes (srcport u) @ [ucast (dst - 0xf000)]) w
               else if src AND 0xff00 = 0xf000 then
                 inline ([0xf2, ucast (src - 0xf000)] @ le_bytes (destport u)) w
               else inline ([0xf0] @ le_bytes (srcport u) @ le_bytes (destport u)) w)
      in inline (le_bytes (udpchksum u)) w)"

text \<open>
  The compressed header and the number of header bytes it stands for. The third encoding byte is
  part of the header when a context was found (\<open>hc06_ptr++\<close>).
\<close>

definition compress_hdr_hc06 ::
  "addr_context list \<Rightarrow> linkaddr \<Rightarrow> linkaddr \<Rightarrow> uip_ip_hdr \<Rightarrow> uip_udp_hdr \<Rightarrow> u8 list \<times> u8" where
  "compress_hdr_hc06 ctxs lladdr link_destaddr h u =
     (let w = \<lparr>w_iphc0 = 0x60, w_iphc1 = 0, w_iphc2 = 0, w_inline = []\<rparr>;
          cid = (addr_context_lookup_by_prefix ctxs (destipaddr h) \<noteq> None \<or>
                 addr_context_lookup_by_prefix ctxs (srcipaddr h) \<noteq> None);
          w = (if cid then set1 0x80 w else w);
          w = compress_ttl h (compress_proto h (compress_tcflow h w));
          w = compress_dest ctxs link_destaddr h (compress_src ctxs lladdr h w);
          w = (if proto h = UIP_PROTO_UDP then compress_udp u w else w)
      in ([w_iphc0 w, w_iphc1 w] @ (if cid then [w_iphc2 w] else []) @ w_inline w,
          40 + (if proto h = UIP_PROTO_UDP then 8 else 0)))"

section \<open>Decompression\<close>

record hc06_reader =
  r_ip :: uip_ip_hdr
  r_udp :: uip_udp_hdr
  r_hdr_len :: u8
  r_uncomp_hdr_len :: u8
  r_ptr :: "u8 list"

definition skip :: "nat \<Rightarrow> hc06_reader \<Rightarrow> hc06_reader" where
  "skip n r = r\<lparr>r_ptr := drop n (r_ptr r)\<rparr>"

definition set_ip :: "(uip_ip_hdr \<Rightarrow> uip_ip_hdr) \<Rightarrow> hc06_reader \<Rightarrow> hc06_reader" where
  "set_ip f r = r\<lparr>r_ip := f (r_ip r)\<rparr>"

definition set_udp :: "(uip_udp_hdr \<Rightarrow> uip_udp_hdr) \<Rightarrow> hc06_reader \<Rightarrow> hc06_reader" where
  "set_udp f r = r\<lparr>r_udp := f (r_udp r)\<rparr>"

definition unc_llconf :: "u8 list" where "unc_llconf = [0x0f, 0x28, 0x22, 0x20]"
definition unc_ctxconf :: "u8 list" where "unc_ctxconf = [0x00, 0x88, 0x82, 0x80]"
definition unc_mxconf :: "u8 list" where "unc_mxconf = [0x0f, 0x25, 0x23, 0x21]"
definition llprefix :: "u8 list" where "llprefix = [0xfe, 0x80]"
definition ttl_values :: "u8 list" where "ttl_values = [0, 1, 64, 255]"

text \<open>
  The new address and the bytes left. The link address is \<open>None\<close> for the \<open>NULL\<close>
  that the multicast case passes.
\<close>

definition uncompress_addr ::
  "ip6addr \<Rightarrow> u8 list \<Rightarrow> u8 \<Rightarrow> linkaddr option \<Rightarrow> u8 list \<Rightarrow> ip6addr \<times> u8 list" where
  "uncompress_addr a prefix pref_post_count lladdr ptr =
     (let pre = unat (drop_bit 4 pref_post_count); post = unat (pref_post_count AND 0x0f);
          pre = (if pre = 15 then 16 else pre); post = (if post = 15 then 16 else post);
          a = (if pre > 0 then memcpy_at a 0 (take pre prefix) else a);
          a = (if pre + post < 16 then memcpy_at a pre (replicate (16 - (pre + post)) 0) else a)
      in if post > 0 then
           (let a = memcpy_at a (16 - post) (take post ptr)
            in (if post = 2 \<and> pre < 11 then a[11 := 0xff, 12 := 0xfe] else a, drop post ptr))
         else if pre > 0 then
           (case lladdr of Some m \<Rightarrow> (uip_ds6_set_addr_iid a m, ptr) | None \<Rightarrow> (a, ptr))
         else (a, ptr))"

definition uncompress_tcflow :: "u8 \<Rightarrow> hc06_reader \<Rightarrow> hc06_reader" where
  "uncompress_tcflow iphc0 r =
     (let p = r_ptr r
      in if iphc0 AND 0x10 = 0 then
           (if iphc0 AND 0x08 = 0 then
              skip 4 (set_ip (\<lambda>h. h\<lparr>flow := le_u16 [p ! 2, p ! 3], vtc := 0x60 OR (drop_bit 2 (p ! 0) AND 0x0f),
                tcflow := (drop_bit 2 (p ! 0) AND 0x30) OR push_bit 6 (p ! 0) OR (p ! 1 AND 0x0f)\<rparr>) r)
            else
              skip 3 (set_ip (\<lambda>h. h\<lparr>vtc := 0x60, tcflow := (p ! 0 AND 0x0f) OR (drop_bit 2 (p ! 0) AND 0x30),
                flow := le_u16 [p ! 1, p ! 2]\<rparr>) r))
         else if iphc0 AND 0x08 = 0 then
           skip 1 (set_ip (\<lambda>h. h\<lparr>vtc := 0x60 OR (drop_bit 2 (p ! 0) AND 0x0f),
             tcflow := (push_bit 6 (p ! 0) AND 0xc0) OR (drop_bit 2 (p ! 0) AND 0x30), flow := 0\<rparr>) r)
         else set_ip (\<lambda>h. h\<lparr>vtc := 0x60, tcflow := 0, flow := 0\<rparr>) r)"

definition uncompress_proto :: "u8 \<Rightarrow> hc06_reader \<Rightarrow> hc06_reader" where
  "uncompress_proto iphc0 r =
     (if iphc0 AND 0x04 = 0 then skip 1 (set_ip (\<lambda>h. h\<lparr>proto := r_ptr r ! 0\<rparr>) r) else r)"

definition uncompress_ttl :: "u8 \<Rightarrow> hc06_reader \<Rightarrow> hc06_reader" where
  "uncompress_ttl iphc0 r =
     (if iphc0 AND 0x03 \<noteq> 0 then set_ip (\<lambda>h. h\<lparr>ttl := ttl_values ! unat (iphc0 AND 0x03)\<rparr>) r
      else skip 1 (set_ip (\<lambda>h. h\<lparr>ttl := r_ptr r ! 0\<rparr>) r))"

definition put_src :: "ip6addr \<times> u8 list \<Rightarrow> hc06_reader \<Rightarrow> hc06_reader" where
  "put_src ap r = (set_ip (\<lambda>h. h\<lparr>srcipaddr := fst ap\<rparr>) r)\<lparr>r_ptr := snd ap\<rparr>"

definition put_dest :: "ip6addr \<times> u8 list \<Rightarrow> hc06_reader \<Rightarrow> hc06_reader" where
  "put_dest ap r = (set_ip (\<lambda>h. h\<lparr>destipaddr := fst ap\<rparr>) r)\<lparr>r_ptr := snd ap\<rparr>"

text \<open>\<open>Inl\<close> is the return of the function (no such context), \<open>Inr\<close> goes on.\<close>

definition uncompress_src ::
  "addr_context list \<Rightarrow> linkaddr \<Rightarrow> u8 \<Rightarrow> u8 \<Rightarrow> hc06_reader \<Rightarrow> hc06_reader + hc06_reader" where
  "uncompress_src ctxs sender iphc1 iphc2 r =
     (let tmp = drop_bit 4 (iphc1 AND 0x30) AND 0x03; a = srcipaddr (r_ip r)
      in if iphc1 AND 0x40 \<noteq> 0 then
           (let sci = (if iphc1 AND 0x80 \<noteq> 0 then drop_bit 4 iphc2 else 0)
            in if tmp \<noteq> 0 then
                 (case addr_context_lookup_by_number ctxs sci of
                    None \<Rightarrow> Inl r
                  | Some c \<Rightarrow>
                      Inr (put_src (uncompress_addr a (ctx_prefix c) (unc_ctxconf ! unat tmp) (Some sender) (r_ptr r)) r))
               else Inr (put_src (uncompress_addr a [] (unc_ctxconf ! unat tmp) (Some sender) (r_ptr r)) r))
         else Inr (put_src (uncompress_addr a llprefix (unc_llconf ! unat tmp) (Some sender) (r_ptr r)) r))"

definition uncompress_dest ::
  "addr_context list \<Rightarrow> linkaddr \<Rightarrow> u8 \<Rightarrow> u8 \<Rightarrow> hc06_reader \<Rightarrow> hc06_reader + hc06_reader" where
  "uncompress_dest ctxs receiver iphc1 iphc2 r =
     (let tmp = drop_bit 0 (iphc1 AND 0x03) AND 0x03; a = destipaddr (r_ip r)
      in if iphc1 AND 0x08 \<noteq> 0 then
           (if iphc1 AND 0x04 \<noteq> 0 then Inr r
            else if tmp > 0 \<and> tmp < 3
              then Inr (put_dest (uncompress_addr a [0xff, r_ptr r ! 0] (unc_mxconf ! unat tmp) None (drop 1 (r_ptr r))) r)
              else Inr (put_dest (uncompress_addr a [0xff, 0x02] (unc_mxconf ! unat tmp) None (r_ptr r)) r))
         else if iphc1 AND 0x04 \<noteq> 0 then
           (let dci = (if iphc1 AND 0x80 \<noteq> 0 then iphc2 AND 0x0f else 0)
            in case addr_context_lookup_by_number ctxs dci of
                 None \<Rightarrow> Inl r
               | Some c \<Rightarrow>
                   Inr (put_dest (uncompress_addr a (ctx_prefix c) (unc_ctxconf ! unat tmp) (Some receiver) (r_ptr r)) r))
         else Inr (put_dest (uncompress_addr a llprefix (unc_llconf ! unat tmp) (Some receiver) (r_ptr r)) r))"

definition uncompress_udp :: "hc06_reader \<Rightarrow> hc06_reader" where
  "uncompress_udp r =
     (let p = r_ptr r; nhc = p ! 0
      in if nhc AND 0xf8 = 0xf0 then
           (let r = set_ip (\<lambda>h. h\<lparr>proto := UIP_PROTO_UDP\<rparr>) r;
                r = (if nhc AND 0xf3 = 0xf0 then
                       skip 5 (set_udp (\<lambda>u. u\<lparr>srcport := le_u16 [p ! 1, p ! 2], destport := le_u16 [p ! 3, p ! 4]\<rparr>) r)
                     else if nhc AND 0xf3 = 0xf1 then
                       skip 4 (set_udp (\<lambda>u. u\<lparr>srcport := le_u16 [p ! 1, p ! 2],
                         destport := UIP_HTONS (0xf000 + ucast (p ! 3))\<rparr>) r)
                     else if nhc AND 0xf3 = 0xf2 then
                       skip 4 (set_udp (\<lambda>u. u\<lparr>srcport := UIP_HTONS (0xf000 + ucast (p ! 1)),
                         destport := le_u16 [p ! 2, p ! 3]\<rparr>) r)
                     else
                       skip 2 (set_udp (\<lambda>u. u\<lparr>srcport := UIP_HTONS (0xf0b0 + ucast (drop_bit 4 (p ! 1))),
                         destport := UIP_HTONS (0xf0b0 + ucast (p ! 1 AND 0x0f))\<rparr>) r));
                r = (if nhc AND 0x04 = 0
                     then skip 2 (set_udp (\<lambda>u. u\<lparr>udpchksum := le_u16 [r_ptr r ! 0, r_ptr r ! 1]\<rparr>) r) else r)
            in r\<lparr>r_uncomp_hdr_len := r_uncomp_hdr_len r + 8\<rparr>)
         else r)"

text \<open>The length fields; \<open>int\<close> has 16 bits.\<close>

definition uncompress_len :: "u16 \<Rightarrow> u16 \<Rightarrow> hc06_reader \<Rightarrow> hc06_reader" where
  "uncompress_len frag_len datalen r =
     (let len = (if frag_len = 0 then datalen - ucast (r_hdr_len r) + ucast (r_uncomp_hdr_len r) - 40 else frag_len - 40);
          r = set_ip (\<lambda>h. h\<lparr>ip_len := [ucast (drop_bit 8 len), ucast len]\<rparr>) r
      in if proto (r_ip r) = UIP_PROTO_UDP then set_udp (\<lambda>u. u\<lparr>udplen := le_u16 (ip_len (r_ip r))\<rparr>) r else r)"

text \<open>
  The whole function on the bytes of the packet buffer from \<open>packetbuf_ptr\<close> on. The header
  fields passed in are what the reassembly buffer held before.
\<close>

definition uncompress_hdr_hc06 ::
  "addr_context list \<Rightarrow> linkaddr \<Rightarrow> linkaddr \<Rightarrow> u16 \<Rightarrow> u16 \<Rightarrow> u8 list \<Rightarrow>
   uip_ip_hdr \<Rightarrow> uip_udp_hdr \<Rightarrow> u8 \<Rightarrow> u8 \<Rightarrow> hc06_reader" where
  "uncompress_hdr_hc06 ctxs sender receiver frag_len datalen pb h u hdr_len uncomp_hdr_len =
     (let buf = drop (unat hdr_len) pb; iphc0 = buf ! 0; iphc1 = buf ! 1; iphc2 = buf ! 2;
          r = \<lparr>r_ip = h, r_udp = u, r_hdr_len = hdr_len, r_uncomp_hdr_len = uncomp_hdr_len, r_ptr = drop 2 buf\<rparr>;
          r = (if iphc1 AND 0x80 \<noteq> 0 then skip 1 r else r);
          r = uncompress_ttl iphc0 (uncompress_proto iphc0 (uncompress_tcflow iphc0 r))
      in case uncompress_src ctxs sender iphc1 iphc2 r of
           Inl r \<Rightarrow> r
         | Inr r \<Rightarrow>
             (case uncompress_dest ctxs receiver iphc1 iphc2 r of
                Inl r \<Rightarrow> r
              | Inr r \<Rightarrow>
                  (let r = r\<lparr>r_uncomp_hdr_len := r_uncomp_hdr_len r + 40\<rparr>;
                       r = (if iphc0 AND 0x04 \<noteq> 0 then uncompress_udp r else r);
                       r = r\<lparr>r_hdr_len := of_nat (length pb - length (r_ptr r))\<rparr>
                   in uncompress_len frag_len datalen r)))"

end
