(* ===== verification/IphcCorrect.thy ===== *)
theory IphcCorrect
  imports Iphc
begin

text \<open>
  Correctness of HC06 header compression (\<open>core/net/ipv6/sicslowpan.c\<close>). Each writing step of
  the compressor is shown to append the bytes and to set the mode bits of a wire format
  (\<open>tf_bytes\<close>, \<open>nh_bytes\<close>, \<open>ttl_bytes\<close>, \<open>src_mode\<close>,
  \<open>dest_mode\<close>, \<open>udp_bytes\<close>), each reading step of the decompressor to consume
  exactly these bytes; \<open>uncompress_compress\<close> composes them. The two properties say when the
  composition is the identity and for which source addresses it is not.
\<close>

section \<open>Traffic class, flow label, next header, hop limit\<close>

lemma bits_below_8: "(\<And>i. i < 8 \<Longrightarrow> bit x i = bit y i) \<Longrightarrow> x = (y :: u8)"
  by (rule bit_word_eqI) simp

lemma vtc_bits:
  assumes "drop_bit 4 (v :: u8) = 6"
  shows "bit v 4 = False" "bit v 5 = True" "bit v 6 = True" "bit v 7 = False"
proof -
  have *: "bit v (4 + k) = bit (6 :: u8) k" for k using assms by (metis bit_drop_bit_eq comp_apply)
  show "bit v 4 = False" "bit v 5 = True" "bit v 6 = True" "bit v 7 = False"
    using * [of 0] * [of 1] * [of 2] * [of 3] by simp_all
qed

lemma nibble_zero:
  "(v AND 0x0f = (0 :: u8)) \<longleftrightarrow> \<not> bit v 0 \<and> \<not> bit v 1 \<and> \<not> bit v 2 \<and> \<not> bit v 3"
  "(v AND 0xf0 = (0 :: u8)) \<longleftrightarrow> \<not> bit v 4 \<and> \<not> bit v 5 \<and> \<not> bit v 6 \<and> \<not> bit v 7"
proof -
  have "(v AND 0x0f = 0) \<longleftrightarrow> (\<forall>i<8. \<not> (bit v i \<and> bit (0x0f :: u8) i))"
    "(v AND 0xf0 = 0) \<longleftrightarrow> (\<forall>i<8. \<not> (bit v i \<and> bit (0xf0 :: u8) i))"
    by (auto simp: bit_eq_iff bit_simps)
  then show "(v AND 0x0f = 0) \<longleftrightarrow> \<not> bit v 0 \<and> \<not> bit v 1 \<and> \<not> bit v 2 \<and> \<not> bit v 3"
    "(v AND 0xf0 = 0) \<longleftrightarrow> \<not> bit v 4 \<and> \<not> bit v 5 \<and> \<not> bit v 6 \<and> \<not> bit v 7"
    by (auto simp: eval_nat_numeral less_Suc_eq)
qed

definition ecn_dscp :: "uip_ip_hdr \<Rightarrow> u8" where
  "ecn_dscp h = (let tmp = push_bit 4 (vtc h) OR drop_bit 4 (tcflow h) in push_bit 6 (tmp AND 0x03) OR drop_bit 2 tmp)"

lemma ecn_dscp_bits:
  "i < 8 \<Longrightarrow> bit (ecn_dscp h) i = 
    (if i < 2 then bit (tcflow h) (i + 6) else if i < 6 then bit (vtc h) (i - 2) else bit (tcflow h) (i - 2))"
  unfolding ecn_dscp_def Let_def
  by (drule below_8) (auto simp: bit_simps)

lemma ecn_dscp_decode:
  assumes "drop_bit 4 (vtc h) = 6"
  shows "0x60 OR (drop_bit 2 (ecn_dscp h) AND 0x0f) = vtc h"
    "(drop_bit 2 (ecn_dscp h) AND 0x30) OR push_bit 6 (ecn_dscp h) OR (tcflow h AND 0x0f) = tcflow h"
  by (rule bits_below_8, drule below_8, auto simp: bit_simps ecn_dscp_bits vtc_bits [OF assms])+


definition tc_zero :: "uip_ip_hdr \<Rightarrow> bool" where
  "tc_zero h \<longleftrightarrow> vtc h AND 0x0f = 0 \<and> tcflow h AND 0xf0 = 0"

definition flow_zero :: "uip_ip_hdr \<Rightarrow> bool" where
  "flow_zero h \<longleftrightarrow> tcflow h AND 0x0f = 0 \<and> flow h = 0"

definition tf_bits :: "uip_ip_hdr \<Rightarrow> u8" where
  "tf_bits h = (if flow_zero h then 0x10 else 0) OR (if tc_zero h then 0x08 else 0)"

definition tf_bytes :: "uip_ip_hdr \<Rightarrow> u8 list" where
  "tf_bytes h =
     (if flow_zero h then (if tc_zero h then [] else [ecn_dscp h])
      else if tc_zero h then [(ecn_dscp h AND 0xc0) OR (tcflow h AND 0x0f)] @ le_bytes (flow h)
      else [ecn_dscp h, tcflow h] @ le_bytes (flow h))"

lemma set0_0 [simp]: "set0 0 w = w" by (simp add: set0_def)
lemma set1_0 [simp]: "set1 0 w = w" by (simp add: set1_def)
lemma inline_Nil [simp]: "inline [] w = w" by (simp add: inline_def)

lemma compress_tcflow_eq: "compress_tcflow h w = inline (tf_bytes h) (set0 (tf_bits h) w)"
  unfolding compress_tcflow_def tf_bytes_def tf_bits_def Let_def ecn_dscp_def flow_zero_def [symmetric] tc_zero_def [symmetric]
  by (simp add: set0_def inline_def or.assoc)

lemma le_u16_bytes: "le_u16 [ucast w, ucast (drop_bit 8 w)] = w"
proof (rule bit_word_eqI)
  fix i :: nat
  assume "i < LENGTH(16)"
  then show "bit (le_u16 [ucast w, ucast (drop_bit 8 w)]) i = bit w i"
    by (cases "i < 8") (auto simp: le_u16_def bit_simps)
qed

lemma zero_parts:
  assumes "drop_bit 4 (vtc h) = 6"
  shows "tc_zero h \<Longrightarrow> vtc h = 0x60" "flow_zero h \<Longrightarrow> tc_zero h \<Longrightarrow> tcflow h = 0"
    "flow_zero h \<Longrightarrow> (push_bit 6 (ecn_dscp h) AND 0xc0) OR (drop_bit 2 (ecn_dscp h) AND 0x30) = tcflow h"
    "tc_zero h \<Longrightarrow> (((ecn_dscp h AND 0xc0) OR (tcflow h AND 0x0f)) AND 0x0f) OR
       (drop_bit 2 ((ecn_dscp h AND 0xc0) OR (tcflow h AND 0x0f)) AND 0x30) = tcflow h"
     by (rule bits_below_8, drule below_8,
        auto simp: tc_zero_def flow_zero_def nibble_zero bit_simps ecn_dscp_bits vtc_bits [OF assms])+

lemma uncompress_tcflow_eq:
  assumes "drop_bit 4 (vtc h) = 6" "r_ptr r = tf_bytes h @ rest" "iphc0 AND 0x10 = tf_bits h AND 0x10" "iphc0 AND 0x08 = tf_bits h AND 0x08"
  shows "uncompress_tcflow iphc0 r = (set_ip (\<lambda>x. x\<lparr>vtc := vtc h, tcflow := tcflow h, flow := flow h\<rparr>) r)\<lparr>r_ptr := rest\<rparr>"
proof (cases "flow_zero h")
  case True
  then have "flow h = 0" by (simp add: flow_zero_def)
  then show ?thesis using True zero_parts [OF assms(1)] ecn_dscp_decode [OF assms(1)] assms(2-)
    by (cases "tc_zero h") (simp_all add: uncompress_tcflow_def tf_bytes_def tf_bits_def skip_def set_ip_def Let_def)
next
  case False
  then show ?thesis using zero_parts [OF assms(1)] ecn_dscp_decode [OF assms(1)] assms(2-)
    by (cases "tc_zero h") (simp_all add: uncompress_tcflow_def tf_bytes_def tf_bits_def skip_def set_ip_def Let_def le_bytes_def le_u16_bytes)
qed

definition nh_bits :: "uip_ip_hdr \<Rightarrow> u8" where "nh_bits h = (if proto h = UIP_PROTO_UDP then 0x04 else 0)"
definition nh_bytes :: "uip_ip_hdr \<Rightarrow> u8 list" where "nh_bytes h = (if proto h = UIP_PROTO_UDP then [] else [proto h])"

lemma compress_proto_eq:
  "w_iphc0 w AND 0x04 = 0 \<Longrightarrow> compress_proto h w = inline (nh_bytes h) (set0 (nh_bits h) w)"
  by (simp add: compress_proto_def nh_bytes_def nh_bits_def set0_def inline_def bit.conj_disj_distrib2)

lemma uncompress_proto_eq:
  assumes "r_ptr r = nh_bytes h @ rest" "iphc0 AND 0x04 = nh_bits h AND 0x04"
  shows "uncompress_proto iphc0 r = (set_ip (\<lambda>x. if proto h = UIP_PROTO_UDP then x else x\<lparr>proto := proto h\<rparr>) r)\<lparr>r_ptr := rest\<rparr>"
  using assms by (cases "proto h = UIP_PROTO_UDP") (auto simp add: uncompress_proto_def nh_bytes_def nh_bits_def skip_def set_ip_def)

definition ttl_bits :: "uip_ip_hdr \<Rightarrow> u8" where
  "ttl_bits h = (if ttl h = 1 then 1 else if ttl h = 64 then 2 else if ttl h = 255 then 3 else 0)"
definition ttl_bytes :: "uip_ip_hdr \<Rightarrow> u8 list" where
  "ttl_bytes h = (if ttl_bits h = 0 then [ttl h] else [])"

lemma compress_ttl_eq: "compress_ttl h w = inline (ttl_bytes h) (set0 (ttl_bits h) w)"
  by (auto simp add: compress_ttl_def ttl_bytes_def ttl_bits_def set0_def inline_def)

lemma uncompress_ttl_eq:
  assumes "r_ptr r = ttl_bytes h @ rest" "iphc0 AND 0x03 = ttl_bits h"
  shows "uncompress_ttl iphc0 r = (set_ip (\<lambda>x. x\<lparr>ttl := ttl h\<rparr>) r)\<lparr>r_ptr := rest\<rparr>"
  using assms by (auto simp add: uncompress_ttl_def ttl_bytes_def ttl_bits_def skip_def set_ip_def ttl_values_def split: if_splits)



section \<open>Addresses\<close>

lemma length16:
  assumes "length (a :: 'a list) = 16"
  obtains a0 a1 a2 a3 a4 a5 a6 a7 a8 a9 a10 a11 a12 a13 a14 a15
  where "a = [a0, a1, a2, a3, a4, a5, a6, a7, a8, a9, a10, a11, a12, a13, a14, a15]"
proof -
  have "a = map (\<lambda>i. a ! i) [0..<16]" using assms map_nth [of a] by simp
  then have "a = [a ! 0, a ! 1, a ! 2, a ! 3, a ! 4, a ! 5, a ! 6, a ! 7,
     a ! 8, a ! 9, a ! 10, a ! 11, a ! 12, a ! 13, a ! 14, a ! 15]"
    by (simp add: upt_rec numeral_eq_Suc)
  then show ?thesis by (rule that)
qed

lemma length8:
  assumes "length (a :: 'a list) = 8"
  obtains a0 a1 a2 a3 a4 a5 a6 a7 where "a = [a0, a1, a2, a3, a4, a5, a6, a7]"
proof -
  have "a = map (\<lambda>i. a ! i) [0..<8]" using assms map_nth [of a] by simp
  then have "a = [a ! 0, a ! 1, a ! 2, a ! 3, a ! 4, a ! 5, a ! 6, a ! 7]" by (simp add: upt_rec numeral_eq_Suc)
  then show ?thesis by (rule that)
qed

definition iid_mode :: "ip6addr \<Rightarrow> linkaddr \<Rightarrow> nat" where
  "iid_mode a m = (if uip_is_addr_mac_addr_based a m then 3 else if is_iid_16_bit_compressable a then 2 else 1)"

definition iid_bytes :: "ip6addr \<Rightarrow> linkaddr \<Rightarrow> u8 list" where
  "iid_bytes a m = (if uip_is_addr_mac_addr_based a m then []
     else if is_iid_16_bit_compressable a then take 2 (drop 14 a) else take 8 (drop 8 a))"

lemma iid_mode_cases: "iid_mode a m = 1 \<or> iid_mode a m = 2 \<or> iid_mode a m = 3"
  by (simp add: iid_mode_def)

lemma compress_addr_64_eq:
  "compress_addr_64 k a m w = (push_bit k (of_nat (iid_mode a m)), inline (iid_bytes a m) w)"
  by (simp add: compress_addr_64_def iid_mode_def iid_bytes_def inline_def)

lemma lladdr_explicit: obtains m0 m1 m2 m3 m4 m5 m6 m7 where "m = Linkaddr m0 m1 m2 m3 m4 m5 m6 m7"
  by (cases m)

lemma six_zeros: "replicate 6 x = [x, x, x, x, x, x]" by (simp add: numeral_eq_Suc)
lemma twelve_zeros: "replicate 12 x = [x, x, x, x, x, x, x, x, x, x, x, x]" by (simp add: numeral_eq_Suc)

lemma uncompress_iid_ll:
  assumes "length a0 = 16" "length a = 16"
  shows "uncompress_addr a0 llprefix (unc_llconf ! iid_mode a m) (Some m) (iid_bytes a m @ rest) =
    ([0xfe, 0x80, 0, 0, 0, 0, 0, 0] @ drop 8 a, rest)"
proof -
  obtain b0 b1 b2 b3 b4 b5 b6 b7 b8 b9 b10 b11 b12 b13 b14 b15
    where a0: "a0 = [b0, b1, b2, b3, b4, b5, b6, b7, b8, b9, b10, b11, b12, b13, b14, b15]"
    using assms(1) by (rule length16)
  obtain c0 c1 c2 c3 c4 c5 c6 c7 c8 c9 c10 c11 c12 c13 c14 c15
    where a: "a = [c0, c1, c2, c3, c4, c5, c6, c7, c8, c9, c10, c11, c12, c13, c14, c15]"
    using assms(2) by (rule length16)
  obtain m0 m1 m2 m3 m4 m5 m6 m7 where m: "m = Linkaddr m0 m1 m2 m3 m4 m5 m6 m7" by (rule lladdr_explicit)
  consider "uip_is_addr_mac_addr_based a m" | "\<not> uip_is_addr_mac_addr_based a m" "is_iid_16_bit_compressable a"
    | "\<not> uip_is_addr_mac_addr_based a m" "\<not> is_iid_16_bit_compressable a" by blast
  then show ?thesis
  proof cases
    case 1
    then show ?thesis
      by (simp add: iid_mode_def iid_bytes_def unc_llconf_def llprefix_def uncompress_addr_def uip_ds6_set_addr_iid_def memcpy_at_def
        uip_is_addr_mac_addr_based_def a0 a m Let_def six_zeros twelve_zeros)
  next
    case 2
    then show ?thesis
      by (simp add: iid_mode_def iid_bytes_def unc_llconf_def llprefix_def uncompress_addr_def memcpy_at_def
        is_iid_16_bit_compressable_def u16_zero_def a0 a m Let_def six_zeros twelve_zeros)
  next
    case 3
    then show ?thesis
      by (simp add: iid_mode_def iid_bytes_def unc_llconf_def llprefix_def uncompress_addr_def memcpy_at_def a0 a m Let_def six_zeros twelve_zeros)
  qed
qed

lemma uncompress_iid_ctx:
  assumes "length a0 = 16" "length a = 16" "length p = 8"
  shows "uncompress_addr a0 p (unc_ctxconf ! iid_mode a m) (Some m) (iid_bytes a m @ rest) = (p @ drop 8 a, rest)"
proof -
  obtain b0 b1 b2 b3 b4 b5 b6 b7 b8 b9 b10 b11 b12 b13 b14 b15
    where a0: "a0 = [b0, b1, b2, b3, b4, b5, b6, b7, b8, b9, b10, b11, b12, b13, b14, b15]"
    using assms(1) by (rule length16)
  obtain c0 c1 c2 c3 c4 c5 c6 c7 c8 c9 c10 c11 c12 c13 c14 c15
    where a: "a = [c0, c1, c2, c3, c4, c5, c6, c7, c8, c9, c10, c11, c12, c13, c14, c15]"
    using assms(2) by (rule length16)
  obtain m0 m1 m2 m3 m4 m5 m6 m7 where m: "m = Linkaddr m0 m1 m2 m3 m4 m5 m6 m7" by (rule lladdr_explicit)
  obtain p0 p1 p2 p3 p4 p5 p6 p7 where p: "p = [p0, p1, p2, p3, p4, p5, p6, p7]" using assms(3) by (rule length8)
  consider "uip_is_addr_mac_addr_based a m" | "\<not> uip_is_addr_mac_addr_based a m" "is_iid_16_bit_compressable a"
    | "\<not> uip_is_addr_mac_addr_based a m" "\<not> is_iid_16_bit_compressable a" by blast
  then show ?thesis
  proof cases
    case 1
    then show ?thesis
      by (simp add: iid_mode_def iid_bytes_def unc_ctxconf_def uncompress_addr_def uip_ds6_set_addr_iid_def memcpy_at_def
        uip_is_addr_mac_addr_based_def a0 a m p Let_def six_zeros twelve_zeros)
  next
    case 2
    then show ?thesis
      by (simp add: iid_mode_def iid_bytes_def unc_ctxconf_def uncompress_addr_def memcpy_at_def
        is_iid_16_bit_compressable_def u16_zero_def a0 a m p Let_def six_zeros twelve_zeros)
  next
    case 3
    then show ?thesis
      by (simp add: iid_mode_def iid_bytes_def unc_ctxconf_def uncompress_addr_def memcpy_at_def a0 a m p Let_def six_zeros twelve_zeros)
  qed
qed

lemma uncompress_full:
  assumes "length a0 = 16" "length a = 16"
  shows "uncompress_addr a0 p 0x0f m (a @ rest) = (a, rest)"
  using assms by (simp add: uncompress_addr_def memcpy_at_def Let_def)

lemma uncompress_none:
  assumes "length a0 = 16"
  shows "uncompress_addr a0 p 0 m rest = (replicate 16 0, rest)"
  using assms by (simp add: uncompress_addr_def memcpy_at_def Let_def)



definition ctxs_wf :: "addr_context list \<Rightarrow> bool" where
  "ctxs_wf ctxs \<longleftrightarrow>
     (\<forall>c \<in> set ctxs. ctx_used c = 1 \<longrightarrow> unat (ctx_number c) < 16 \<and> length (ctx_prefix c) = 8) \<and>
     distinct (map ctx_number (filter (\<lambda>c. ctx_used c = 1) ctxs))"

lemma lookup_by_prefix_Some:
  "addr_context_lookup_by_prefix ctxs a = Some c \<Longrightarrow> c \<in> set ctxs \<and> ctx_used c = 1 \<and> take 8 (ctx_prefix c) = take 8 a"
  by (induction ctxs) (auto split: if_splits)

lemma lookup_by_number_used:
  "c \<in> set ctxs \<Longrightarrow> ctx_used c = 1 \<Longrightarrow> distinct (map ctx_number (filter (\<lambda>c. ctx_used c = 1) ctxs)) \<Longrightarrow>
   addr_context_lookup_by_number ctxs (ctx_number c) = Some c"
  by (induction ctxs) (auto split: if_splits)

lemma ctx_by_number:
  assumes "ctxs_wf ctxs" "addr_context_lookup_by_prefix ctxs a = Some c" "length a = 16"
  shows "addr_context_lookup_by_number ctxs (ctx_number c) = Some c" "unat (ctx_number c) < 16"
    "length (ctx_prefix c) = 8" "ctx_prefix c @ drop 8 a = a"
proof -
  note c = lookup_by_prefix_Some [OF assms(2)]
  then show "addr_context_lookup_by_number ctxs (ctx_number c) = Some c" "unat (ctx_number c) < 16"
    "length (ctx_prefix c) = 8"
    using assms(1) lookup_by_number_used [of c ctxs] by (auto simp: ctxs_wf_def)
  then have "ctx_prefix c = take 8 a" using c by (metis order_refl take_all)
  then show "ctx_prefix c @ drop 8 a = a" by simp
qed

definition src_mode :: "addr_context list \<Rightarrow> linkaddr \<Rightarrow> uip_ip_hdr \<Rightarrow> u8 \<times> u8 \<times> u8 list" where
  "src_mode ctxs m h =
     (let a = srcipaddr h
      in if uip_is_addr_unspecified a then (0x40, 0, [])
         else case addr_context_lookup_by_prefix ctxs a of
           Some c \<Rightarrow> (0xc0 OR push_bit 4 (of_nat (iid_mode a m)), push_bit 4 (ctx_number c), iid_bytes a m)
         | None \<Rightarrow>
             if uip_is_addr_link_local a \<and> u16_zero (destipaddr h) 1 \<and> u16_zero (destipaddr h) 2 \<and> u16_zero (destipaddr h) 3
             then (push_bit 4 (of_nat (iid_mode a m)), 0, iid_bytes a m) else (0, 0, a))"

definition src_restored :: "addr_context list \<Rightarrow> uip_ip_hdr \<Rightarrow> ip6addr" where
  "src_restored ctxs h =
     (let a = srcipaddr h
      in if \<not> uip_is_addr_unspecified a \<and> addr_context_lookup_by_prefix ctxs a = None \<and> uip_is_addr_link_local a \<and>
            u16_zero (destipaddr h) 1 \<and> u16_zero (destipaddr h) 2 \<and> u16_zero (destipaddr h) 3
         then [0xfe, 0x80, 0, 0, 0, 0, 0, 0] @ drop 8 a else a)"

lemma writer_simps:
  "set1 a (set1 b w) = set1 (b OR a) w" "set2 b (set1 a w) = set1 a (set2 b w)"
  "inline x (set1 a w) = set1 a (inline x w)" "inline x (set2 a w) = set2 a (inline x w)" 
  "inline y (inline x w) = inline (x @ y) w" "set2 0 w = w"
  by (simp_all add: set1_def set2_def inline_def or.assoc)

lemma compress_src_eq:
  "compress_src ctxs m h w =
     (case src_mode ctxs m h of (b1, b2, bs) \<Rightarrow> set1 b1 (set2 b2 (inline bs w)))"
  by (simp add: compress_src_def src_mode_def Let_def compress_addr_64_eq writer_simps split: option.split)

lemma unspecified_zero:
  assumes "length a = 16" "uip_is_addr_unspecified a"
  shows "a = replicate 16 0"
proof -
  obtain c0 c1 c2 c3 c4 c5 c6 c7 c8 c9 c10 c11 c12 c13 c14 c15
    where a: "a = [c0, c1, c2, c3, c4, c5, c6, c7, c8, c9, c10, c11, c12, c13, c14, c15]"
    using assms(1) by (rule length16)
  then show ?thesis using assms(2) by (simp add: uip_is_addr_unspecified_def u16_zero_def numeral_eq_Suc)
qed

lemma drop_number_nibble:
  assumes "unat (n :: u8) < 16"
  shows "drop_bit 4 (push_bit 4 n OR d) = n OR drop_bit 4 d"
proof (rule bits_below_8)
  fix i :: nat
  assume i: "i < 8"
  have hi: "\<not> bit n j" if "4 \<le> j" for j using small_bits [of n 4 j] assms that by simp
  show "bit (drop_bit 4 (push_bit 4 n OR d)) i = bit (n OR drop_bit 4 d) i"
    using below_8 [OF i] hi by (auto simp: bit_simps)
qed

lemma drop_small_nibble:
  assumes "unat (n :: u8) < 16"
  shows "drop_bit 4 n = 0" "n AND 0x0f = n"
proof -
  have hi: "\<not> bit n j" if "4 \<le> j" for j using small_bits [of n 4 j] assms that by simp
  show "drop_bit 4 n = 0" by (rule bit_eqI) (auto simp: bit_simps hi)
  show "n AND 0x0f = n" using and_mask_small [of "0x0f :: u8" 4 n] assms by simp
qed

lemma uncompress_src_eq:
  assumes wf: "ctxs_wf ctxs" and len: "length (srcipaddr h) = 16" "length (srcipaddr (r_ip r)) = 16"
    and sm: "src_mode ctxs m h = (b1, b2, bs)"
    and ptr: "r_ptr r = bs @ rest"
    and bits: "iphc1 AND 0x30 = b1 AND 0x30" "iphc1 AND 0x40 = b1 AND 0x40"
    and cid: "b1 AND 0x80 \<noteq> 0 \<Longrightarrow> iphc1 AND 0x80 \<noteq> 0 \<and> drop_bit 4 iphc2 = drop_bit 4 b2"
  shows "uncompress_src ctxs m iphc1 iphc2 r = Inr (put_src (src_restored ctxs h, rest) r)"
proof (cases "uip_is_addr_unspecified (srcipaddr h)")
  case True
  then have "b1 = 0x40" "bs = []" using sm by (auto simp: src_mode_def Let_def)
  then show ?thesis
    using True unspecified_zero [OF len(1) True] bits ptr uncompress_none [OF len(2)]
    by (simp add: uncompress_src_def Let_def src_restored_def unc_ctxconf_def)
next
  case False
  note spec = False
  show ?thesis
  proof (cases "addr_context_lookup_by_prefix ctxs (srcipaddr h)")
    case (Some c)
    note ctx = ctx_by_number [OF wf Some len(1)]
    have sm': "b1 = 0xc0 OR push_bit 4 (of_nat (iid_mode (srcipaddr h) m))" "b2 = push_bit 4 (ctx_number c)"
      "bs = iid_bytes (srcipaddr h) m" using sm spec Some by (auto simp: src_mode_def Let_def)
    have num: "drop_bit 4 b2 = ctx_number c" using drop_number_nibble [OF ctx(2), of 0] sm'(2) by simp
    have "b1 AND 0x80 \<noteq> 0" "b1 AND 0x40 \<noteq> 0" "unat (drop_bit 4 (b1 AND 0x30) AND 0x03) = iid_mode (srcipaddr h) m"
      "drop_bit 4 (b1 AND 0x30) AND 0x03 \<noteq> 0"
      using iid_mode_cases [of "srcipaddr h" m] by (auto simp: sm'(1))
    then show ?thesis
      using cid bits num ctx ptr uncompress_iid_ctx [OF len(2,1) ctx(3)] spec Some sm'(3)
      by (simp add: uncompress_src_def Let_def src_restored_def)
  next
    case None
    note nctx = None
    show ?thesis
    proof (cases "uip_is_addr_link_local (srcipaddr h) \<and> u16_zero (destipaddr h) 1 \<and> u16_zero (destipaddr h) 2 \<and> u16_zero (destipaddr h) 3")
      case True
      then have sm': "b1 = push_bit 4 (of_nat (iid_mode (srcipaddr h) m))" "bs = iid_bytes (srcipaddr h) m"
        using sm spec None by (auto simp: src_mode_def Let_def)
      have "b1 AND 0x40 = 0" "unat (drop_bit 4 (b1 AND 0x30) AND 0x03) = iid_mode (srcipaddr h) m"
        using iid_mode_cases [of "srcipaddr h" m] by (auto simp: sm'(1))
      then show ?thesis
        using bits ptr uncompress_iid_ll [OF len(2,1)] spec None sm'(2) True
        by (simp add: uncompress_src_def Let_def src_restored_def)
    next
      case False
      then have sm': "b1 = 0" "bs = srcipaddr h" using sm spec None by (auto simp: src_mode_def Let_def)
      then show ?thesis
        using bits ptr uncompress_full [OF len(2,1)] spec None False
        by (auto simp add: uncompress_src_def Let_def src_restored_def unc_llconf_def)
    qed
  qed
qed


definition dest_mode :: "addr_context list \<Rightarrow> linkaddr \<Rightarrow> uip_ip_hdr \<Rightarrow> u8 \<times> u8 \<times> u8 list" where
  "dest_mode ctxs m h =
     (let a = destipaddr h
      in if uip_is_addr_mcast a then
           (if is_mcast_addr_compressable8 a then (0x0b, 0, [a ! 15])
            else if is_mcast_addr_compressable32 a then (0x0a, 0, [a ! 1] @ take 3 (drop 13 a))
            else if is_mcast_addr_compressable48 a then (0x09, 0, [a ! 1] @ take 5 (drop 11 a))
            else (0x08, 0, a))
         else case addr_context_lookup_by_prefix ctxs a of
           Some c \<Rightarrow> (0x04 OR of_nat (iid_mode a m), ctx_number c, iid_bytes a m)
         | None \<Rightarrow>
             if uip_is_addr_link_local a \<and> u16_zero a 1 \<and> u16_zero a 2 \<and> u16_zero a 3
             then (of_nat (iid_mode a m), 0, iid_bytes a m) else (0, 0, a))"

lemma compress_dest_eq:
  "compress_dest ctxs m h w =
     (case dest_mode ctxs m h of (b1, b2, bs) \<Rightarrow> set1 b1 (set2 b2 (inline bs w)))"
  by (simp add: compress_dest_def dest_mode_def Let_def compress_addr_64_eq writer_simps split: option.split)

lemma five_zeros:
  "replicate 15 x = [x, x, x, x, x, x, x, x, x, x, x, x, x, x, x]"
  "replicate 13 x = [x, x, x, x, x, x, x, x, x, x, x, x, x]"
  "replicate 11 x = [x, x, x, x, x, x, x, x, x, x, x]"
  "replicate 9 x = [x, x, x, x, x, x, x, x, x]"
  by (simp_all add: numeral_eq_Suc)

lemma uncompress_mcast:
  assumes len: "length a0 = 16" "length a = 16" and mc: "uip_is_addr_mcast a"
  shows "is_mcast_addr_compressable8 a \<Longrightarrow> uncompress_addr a0 [0xff, 0x02] 0x21 m ([a ! 15] @ rest) = (a, rest)"
    "is_mcast_addr_compressable32 a \<Longrightarrow> uncompress_addr a0 [0xff, a ! 1] 0x23 m (take 3 (drop 13 a) @ rest) = (a, rest)"
    "is_mcast_addr_compressable48 a \<Longrightarrow> uncompress_addr a0 [0xff, a ! 1] 0x25 m (take 5 (drop 11 a) @ rest) = (a, rest)"
proof -
  obtain b0 b1 b2 b3 b4 b5 b6 b7 b8 b9 b10 b11 b12 b13 b14 b15
    where a0: "a0 = [b0, b1, b2, b3, b4, b5, b6, b7, b8, b9, b10, b11, b12, b13, b14, b15]"
    using len(1) by (rule length16)
  obtain c0 c1 c2 c3 c4 c5 c6 c7 c8 c9 c10 c11 c12 c13 c14 c15
    where a: "a = [c0, c1, c2, c3, c4, c5, c6, c7, c8, c9, c10, c11, c12, c13, c14, c15]"
    using len(2) by (rule length16)
  show "is_mcast_addr_compressable8 a \<Longrightarrow> uncompress_addr a0 [0xff, 0x02] 0x21 m ([a ! 15] @ rest) = (a, rest)"
    using mc by (simp add: is_mcast_addr_compressable8_def uip_is_addr_mcast_def u16_zero_def uncompress_addr_def memcpy_at_def
      Let_def a0 a five_zeros)
  show "is_mcast_addr_compressable32 a \<Longrightarrow> uncompress_addr a0 [0xff, a ! 1] 0x23 m (take 3 (drop 13 a) @ rest) = (a, rest)"
    using mc by (simp add: is_mcast_addr_compressable32_def uip_is_addr_mcast_def u16_zero_def uncompress_addr_def memcpy_at_def
      Let_def a0 a five_zeros)
  show "is_mcast_addr_compressable48 a \<Longrightarrow> uncompress_addr a0 [0xff, a ! 1] 0x25 m (take 5 (drop 11 a) @ rest) = (a, rest)"
    using mc by (simp add: is_mcast_addr_compressable48_def uip_is_addr_mcast_def u16_zero_def uncompress_addr_def memcpy_at_def
      Let_def a0 a five_zeros)
qed

lemma link_local_prefix:
  assumes "length a = 16" "uip_is_addr_link_local a" "u16_zero a 1" "u16_zero a 2" "u16_zero a 3"
  shows "[0xfe, 0x80, 0, 0, 0, 0, 0, 0] @ drop 8 a = a"
proof -
  obtain c0 c1 c2 c3 c4 c5 c6 c7 c8 c9 c10 c11 c12 c13 c14 c15
    where "a = [c0, c1, c2, c3, c4, c5, c6, c7, c8, c9, c10, c11, c12, c13, c14, c15]"
    using assms(1) by (rule length16)
  then show ?thesis using assms(2-) by (simp add: uip_is_addr_link_local_def u16_zero_def)
qed

lemma uncompress_dest_eq:
  assumes wf: "ctxs_wf ctxs" and len: "length (destipaddr h) = 16" "length (destipaddr (r_ip r)) = 16"
    and dm: "dest_mode ctxs m h = (b1, b2, bs)"
    and ptr: "r_ptr r = bs @ rest"
    and bits: "iphc1 AND 0x03 = b1 AND 0x03" "iphc1 AND 0x04 = b1 AND 0x04" "iphc1 AND 0x08 = b1 AND 0x08"
    and cid: "b1 AND 0x08 = 0 \<Longrightarrow> b1 AND 0x04 \<noteq> 0 \<Longrightarrow> iphc1 AND 0x80 \<noteq> 0 \<and> iphc2 AND 0x0f = b2"
  shows "uncompress_dest ctxs m iphc1 iphc2 r = Inr (put_dest (destipaddr h, rest) r)"
proof (cases "uip_is_addr_mcast (destipaddr h)")
  case True
  note mc = uncompress_mcast [OF len(2,1) True, where m = None]
  consider "is_mcast_addr_compressable8 (destipaddr h)"
    | "\<not> is_mcast_addr_compressable8 (destipaddr h)" "is_mcast_addr_compressable32 (destipaddr h)"
    | "\<not> is_mcast_addr_compressable8 (destipaddr h)" "\<not> is_mcast_addr_compressable32 (destipaddr h)" "is_mcast_addr_compressable48 (destipaddr h)"
    | "\<not> is_mcast_addr_compressable8 (destipaddr h)" "\<not> is_mcast_addr_compressable32 (destipaddr h)" "\<not> is_mcast_addr_compressable48 (destipaddr h)" by blast
  then show ?thesis
  proof cases
    case 1
    then have b: "b1 = 0x0b" "bs = [destipaddr h ! 15]" using dm True by (auto simp: dest_mode_def Let_def)
    show ?thesis using bits ptr mc(1) [OF 1, of rest] unfolding b
      by (simp add: uncompress_dest_def Let_def unc_mxconf_def)
  next
    case 2
    then have b: "b1 = 0x0a" "bs = [destipaddr h ! 1] @ take 3 (drop 13 (destipaddr h))" using dm True by (auto simp: dest_mode_def Let_def)
    show ?thesis using bits ptr mc(2) [OF 2(2), of rest] unfolding b
      by (simp add: uncompress_dest_def Let_def unc_mxconf_def)
  next
    case 3
    then have b: "b1 = 0x09" "bs = [destipaddr h ! 1] @ take 5 (drop 11 (destipaddr h))" using dm True by (auto simp: dest_mode_def Let_def)
    show ?thesis using bits ptr mc(3) [OF 3(3), of rest] unfolding b
      by (simp add: uncompress_dest_def Let_def unc_mxconf_def)
  next
    case 4
    then have b: "b1 = 0x08" "bs = destipaddr h" using dm True by (auto simp: dest_mode_def Let_def)
    show ?thesis using bits ptr uncompress_full [OF len(2,1)] unfolding b
      by (simp add: uncompress_dest_def Let_def unc_mxconf_def)
  qed
next
  case False
  note uni = False
  let ?a = "destipaddr h"
  show ?thesis
  proof (cases "addr_context_lookup_by_prefix ctxs ?a")
    case (Some c)
    note ctx = ctx_by_number [OF wf Some len(1)]
    have dm': "b1 = 0x04 OR of_nat (iid_mode ?a m)" "b2 = ctx_number c" "bs = iid_bytes ?a m"
      using dm uni Some by (auto simp: dest_mode_def Let_def)
    have b: "b1 AND 0x08 = 0" "b1 AND 0x04 \<noteq> 0" "unat (b1 AND 0x03) = iid_mode ?a m" "b1 AND 0x03 AND 0x03 = b1 AND 0x03"
      using iid_mode_cases [of ?a m] by (auto simp: dm'(1))
    show ?thesis
      using cid bits b ctx ptr uncompress_iid_ctx [OF len(2,1) ctx(3)] dm'(2,3)
      by (simp add: uncompress_dest_def Let_def)
  next
    case None
    show ?thesis
    proof (cases "uip_is_addr_link_local ?a \<and> u16_zero ?a 1 \<and> u16_zero ?a 2 \<and> u16_zero ?a 3")
      case True
      then have dm': "b1 = of_nat (iid_mode ?a m)" "bs = iid_bytes ?a m"
        using dm uni None by (auto simp: dest_mode_def Let_def)
      have b: "b1 AND 0x08 = 0" "b1 AND 0x04 = 0" "unat (b1 AND 0x03) = iid_mode ?a m" "b1 AND 0x03 AND 0x03 = b1 AND 0x03"
        using iid_mode_cases [of ?a m] by (auto simp: dm'(1))
      show ?thesis
        using bits b ptr uncompress_iid_ll [OF len(2,1)] dm'(2) link_local_prefix [OF len(1)] True
        by (simp add: uncompress_dest_def Let_def)
    next
      case False
      then have dm': "b1 = 0" "bs = ?a" using dm uni None by (auto simp: dest_mode_def Let_def)
      then show ?thesis
        using bits ptr uncompress_full [OF len(2,1)]
        by (simp add: uncompress_dest_def Let_def unc_llconf_def)
    qed
  qed
qed



section \<open>UDP header\<close>

lemma HTONS_HTONS: "UIP_HTONS (UIP_HTONS x) = x"
proof (rule bit_word_eqI)
  fix i :: nat
  assume "i < LENGTH(16)"
  then show "bit (UIP_HTONS (UIP_HTONS x)) i = bit x i"
    by (cases "i < 8") (auto simp: UIP_HTONS_def bit_simps)
qed

lemma masked_split: "(x :: u16) = (x AND m) + (x AND NOT m)"
proof -
  have "(x AND m) AND (x AND NOT m) = 0" by (rule bit_word_eqI) (auto simp: bit_simps)
  then have "(x AND m) + (x AND NOT m) = (x AND m) OR (x AND NOT m)" by (rule disjunctive_add_eq_or)
  also have "\<dots> = x" by (rule bit_word_eqI) (auto simp: bit_simps)
  finally show ?thesis by simp
qed

lemma port_nibble:
  assumes "(x :: u16) AND 0xfff0 = 0xf0b0"
  obtains n where "n < 16" "x = 0xf0b0 + of_nat n"
proof -
  have N: "NOT (0xfff0 :: u16) = 0x000f" by simp
  have "x = 0xf0b0 + (x AND 0x000f)" using masked_split [of x "0xfff0"] unfolding assms N .
  moreover have "unat (x AND 0x000f) < 16" using unat_and_mask [of "0x000f :: u16" 4 x] by simp
  ultimately show ?thesis using that [of "unat (x AND 0x000f)"] by simp
qed

lemma port_byte:
  assumes "(x :: u16) AND 0xff00 = 0xf000"
  shows "0xf000 + ucast (ucast (x - 0xf000) :: u8) = x"
proof -
  have N: "NOT (0xff00 :: u16) = 0x00ff" by simp
  have m: "(0x00ff :: u16) = mask 8" by (rule word_eq_mask) simp
  have x: "x = 0xf000 + (x AND 0x00ff)" using masked_split [of x "0xff00"] unfolding assms N .
  then have "x - 0xf000 = x AND 0x00ff" by (simp add: algebra_simps)
  moreover have "ucast (ucast (x AND 0x00ff) :: u8) = x AND 0x00ff"
    unfolding m by (rule bit_word_eqI) (auto simp: bit_simps)
  ultimately show ?thesis using x by simp
qed

lemma nibbles_byte:
  assumes "n < 16" "k < 16"
  shows "drop_bit 4 (ucast (push_bit 4 (of_nat n :: u16)) + ucast (of_nat k :: u16) :: u8) = of_nat n"
    "(ucast (push_bit 4 (of_nat n :: u16)) + ucast (of_nat k :: u16) :: u8) AND 0x0f = of_nat k"
proof -
  let ?b = "ucast (push_bit 4 (of_nat n :: u16)) + ucast (of_nat k :: u16) :: u8"
  have "?b = of_nat (16 * n + k)"
    using assms by (simp add: word_unat_eq_iff unat_word_ariths unsigned_ucast_eq unsigned_push_bit_eq unsigned_of_nat take_bit_nat_def push_bit_eq_mult)
  then have u: "unat ?b = 16 * n + k"
    using assms by (simp only: unsigned_of_nat) (simp add: take_bit_nat_eq_self)
  show "drop_bit 4 ?b = of_nat n"
    using u assms by (simp only: word_unat_eq_iff unsigned_drop_bit_eq) (simp add: drop_bit_eq_div unsigned_of_nat take_bit_nat_def)
  show "?b AND 0x0f = of_nat k"
    using u assms unat_and_mask [of "0x0f :: u8" 4 ?b] by (simp add: word_unat_eq_iff unsigned_of_nat take_bit_nat_def)
qed


definition udp_bytes :: "uip_udp_hdr \<Rightarrow> u8 list" where
  "udp_bytes u = w_inline (compress_udp u \<lparr>w_iphc0 = 0, w_iphc1 = 0, w_iphc2 = 0, w_inline = []\<rparr>)"

lemma compress_udp_eq: "compress_udp u w = inline (udp_bytes u) w"
  by (simp add: compress_udp_def udp_bytes_def inline_def Let_def)

lemma uncompress_udp_eq:
  assumes "r_ptr r = udp_bytes u @ rest"
  shows "uncompress_udp r = (set_udp (\<lambda>x. x\<lparr>srcport := srcport u, destport := destport u, udpchksum := udpchksum u\<rparr>)
     (set_ip (\<lambda>x. x\<lparr>proto := UIP_PROTO_UDP\<rparr>) r))\<lparr>r_uncomp_hdr_len := r_uncomp_hdr_len r + 8, r_ptr := rest\<rparr>"
proof -
  let ?s = "UIP_HTONS (srcport u)" and ?d = "UIP_HTONS (destport u)"
  consider "?s AND 0xfff0 = 0xf0b0" "?d AND 0xfff0 = 0xf0b0"
    | "\<not> (?s AND 0xfff0 = 0xf0b0 \<and> ?d AND 0xfff0 = 0xf0b0)" "?d AND 0xff00 = 0xf000"
    | "\<not> (?s AND 0xfff0 = 0xf0b0 \<and> ?d AND 0xfff0 = 0xf0b0)" "?d AND 0xff00 \<noteq> 0xf000" "?s AND 0xff00 = 0xf000"
    | "\<not> (?s AND 0xfff0 = 0xf0b0 \<and> ?d AND 0xfff0 = 0xf0b0)" "?d AND 0xff00 \<noteq> 0xf000" "?s AND 0xff00 \<noteq> 0xf000"
    by blast
  then show ?thesis
  proof cases
    case 1
    obtain n where n: "n < 16" "?s = 0xf0b0 + of_nat n" using 1(1) by (rule port_nibble)
    obtain k where k: "k < 16" "?d = 0xf0b0 + of_nat k" using 1(2) by (rule port_nibble)
    have "udp_bytes u = [0xf3, ucast (push_bit 4 (of_nat n :: u16)) + ucast (of_nat k :: u16)] @ le_bytes (udpchksum u)"
      using 1 n(2) k(2) by (simp add: udp_bytes_def compress_udp_def Let_def inline_def)
    moreover have "ucast (of_nat n :: u8) = (of_nat n :: u16)" "ucast (of_nat k :: u8) = (of_nat k :: u16)"
      using n(1) k(1) by (simp_all add: word_unat_eq_iff unsigned_of_nat take_bit_nat_eq_self)
    moreover have "UIP_HTONS (0xf0b0 + of_nat n) = srcport u" "UIP_HTONS (0xf0b0 + of_nat k) = destport u"
      using n(2) k(2) HTONS_HTONS by metis+
    ultimately show ?thesis
      using assms nibbles_byte [OF n(1) k(1)]
      by (simp add: uncompress_udp_def Let_def skip_def set_ip_def set_udp_def le_bytes_def le_u16_bytes)
  next
    case 2
    then have "udp_bytes u = [0xf1] @ le_bytes (srcport u) @ [ucast (?d - 0xf000)] @ le_bytes (udpchksum u)"
      by (simp add: udp_bytes_def compress_udp_def Let_def inline_def)
    then show ?thesis using assms port_byte [OF 2(2)]
      by (simp add: uncompress_udp_def Let_def skip_def set_ip_def set_udp_def le_bytes_def le_u16_bytes HTONS_HTONS)
  next
    case 3
    then have "udp_bytes u = [0xf2, ucast (?s - 0xf000)] @ le_bytes (destport u) @ le_bytes (udpchksum u)"
      by (simp add: udp_bytes_def compress_udp_def Let_def inline_def)
    then show ?thesis using assms port_byte [OF 3(3)]
      by (simp add: uncompress_udp_def Let_def skip_def set_ip_def set_udp_def le_bytes_def le_u16_bytes HTONS_HTONS)
  next
    case 4
    then have "udp_bytes u = [0xf0] @ le_bytes (srcport u) @ le_bytes (destport u) @ le_bytes (udpchksum u)"
      by (auto simp add: udp_bytes_def compress_udp_def Let_def inline_def)
    then show ?thesis using assms
      by (simp add: uncompress_udp_def Let_def skip_def set_ip_def set_udp_def le_bytes_def le_u16_bytes)
  qed
qed


section \<open>The whole header\<close>

definition hdr_wf :: "uip_ip_hdr \<Rightarrow> bool" where
  "hdr_wf h \<longleftrightarrow> drop_bit 4 (vtc h) = 6 \<and> length (srcipaddr h) = 16 \<and> length (destipaddr h) = 16"

definition has_cid :: "addr_context list \<Rightarrow> uip_ip_hdr \<Rightarrow> bool" where
  "has_cid ctxs h \<longleftrightarrow> addr_context_lookup_by_prefix ctxs (destipaddr h) \<noteq> None \<or>
     addr_context_lookup_by_prefix ctxs (srcipaddr h) \<noteq> None"

lemma compress_wire:
  assumes "src_mode ctxs sender h = (s1, s2, ss)" "dest_mode ctxs receiver h = (d1, d2, ds)"
  shows "compress_hdr_hc06 ctxs sender receiver h u =
    ([0x60 OR tf_bits h OR nh_bits h OR ttl_bits h, (if has_cid ctxs h then 0x80 else 0) OR s1 OR d1] @
     (if has_cid ctxs h then [s2 OR d2] else []) @ tf_bytes h @ nh_bytes h @ ttl_bytes h @ ss @ ds @
     (if proto h = UIP_PROTO_UDP then udp_bytes u else []), 40 + (if proto h = UIP_PROTO_UDP then 8 else 0))"
proof -
  have p: "compress_proto h (inline (tf_bytes h) (set0 (tf_bits h) \<lparr>w_iphc0 = 0x60, w_iphc1 = x, w_iphc2 = 0, w_inline = []\<rparr>)) =
      \<lparr>w_iphc0 = 0x60 OR tf_bits h OR nh_bits h, w_iphc1 = x, w_iphc2 = 0, w_inline = tf_bytes h @ nh_bytes h\<rparr>" for x
  proof -
    have c: "w_iphc0 (inline (tf_bytes h) (set0 (tf_bits h) \<lparr>w_iphc0 = 0x60, w_iphc1 = x, w_iphc2 = 0, w_inline = []\<rparr>)) AND 0x04 = 0"
      by (simp add: inline_def set0_def tf_bits_def)
    show ?thesis by (simp only: compress_proto_eq [OF c]) (simp add: inline_def set0_def or.assoc)
  qed
  have "set1 0x80 \<lparr>w_iphc0 = 0x60, w_iphc1 = 0, w_iphc2 = 0, w_inline = []\<rparr> =
      \<lparr>w_iphc0 = 0x60, w_iphc1 = 0x80, w_iphc2 = 0, w_inline = []\<rparr>" by (simp add: set1_def)
  then show ?thesis
    unfolding compress_hdr_hc06_def Let_def has_cid_def [symmetric] compress_tcflow_eq compress_ttl_eq compress_src_eq
      compress_dest_eq assms compress_udp_eq
    by (cases "has_cid ctxs h") (simp_all only: p if_True if_False split, simp_all add: inline_def set0_def set1_def set2_def or.assoc)
qed

lemma push_nibble_low: "push_bit 4 (k :: u8) AND 0x0f = 0"
  by (rule bits_below_8, drule below_8) (auto simp: bit_simps)

lemma src_mode_bits:
  assumes "src_mode ctxs m h = (b1, b2, bs)" "ctxs_wf ctxs" "length (srcipaddr h) = 16"
  shows "b1 AND 0x03 = 0" "b1 AND 0x04 = 0" "b1 AND 0x08 = 0" "b1 AND 0x80 \<noteq> 0 \<Longrightarrow> has_cid ctxs h" "b2 AND 0x0f = 0"
  using assms(1) iid_mode_cases [of "srcipaddr h" m] push_nibble_low
  by (auto simp: src_mode_def has_cid_def Let_def split: if_splits option.splits)

lemma dest_mode_bits:
  assumes "dest_mode ctxs m h = (b1, b2, bs)" "ctxs_wf ctxs" "length (destipaddr h) = 16"
  shows "b1 AND 0x30 = 0" "b1 AND 0x40 = 0" "b1 AND 0x80 = 0" 
    "b1 AND 0x08 = 0 \<Longrightarrow> b1 AND 0x04 \<noteq> 0 \<Longrightarrow> has_cid ctxs h" "drop_bit 4 b2 = 0" "b2 AND 0x0f = b2"
proof -
  have n: "addr_context_lookup_by_prefix ctxs (destipaddr h) = Some c \<Longrightarrow> unat (ctx_number c) < 16" for c
    using ctx_by_number(2) [OF assms(2) _ assms(3)] .
  show "b1 AND 0x30 = 0" "b1 AND 0x40 = 0" "b1 AND 0x80 = 0" 
    "b1 AND 0x08 = 0 \<Longrightarrow> b1 AND 0x04 \<noteq> 0 \<Longrightarrow> has_cid ctxs h"
    using assms(1) iid_mode_cases [of "destipaddr h" m]
    by (auto simp: dest_mode_def has_cid_def Let_def split: if_splits option.splits)
  show "drop_bit 4 b2 = 0" "b2 AND 0x0f = b2"
    using assms(1) drop_small_nibble n by (auto simp: dest_mode_def Let_def split: if_splits option.splits)
qed

lemma iphc0_fields:
  "(0x60 OR tf_bits h OR nh_bits h OR ttl_bits h) AND 0x10 = tf_bits h AND 0x10"
  "(0x60 OR tf_bits h OR nh_bits h OR ttl_bits h) AND 0x08 = tf_bits h AND 0x08"
  "(0x60 OR tf_bits h OR nh_bits h OR ttl_bits h) AND 0x04 = nh_bits h AND 0x04"
  "(0x60 OR tf_bits h OR nh_bits h OR ttl_bits h) AND 0x03 = ttl_bits h"
  by (simp_all add: tf_bits_def nh_bits_def ttl_bits_def)


lemma udp_bytes_length: "length (udp_bytes u) \<le> 7"
  by (simp add: udp_bytes_def compress_udp_def Let_def inline_def le_bytes_def)

lemma mode_bytes_length:
  "src_mode ctxs m h = (b1, b2, bs) \<Longrightarrow> length (srcipaddr h) = 16 \<Longrightarrow> length bs \<le> 16"
  "dest_mode ctxs m h = (b1, b2, bs) \<Longrightarrow> length (destipaddr h) = 16 \<Longrightarrow> length bs \<le> 16"
  by (auto simp: src_mode_def dest_mode_def iid_bytes_def Let_def split: if_splits option.splits)

lemma compress_length:
  assumes "hdr_wf h" "compress_hdr_hc06 ctxs sender receiver h u = (c, n)"
  shows "2 \<le> length c" "length c \<le> 48"
proof -
  obtain s1 s2 ss where s: "src_mode ctxs sender h = (s1, s2, ss)" by (cases "src_mode ctxs sender h")
  obtain d1 d2 ds where d: "dest_mode ctxs receiver h = (d1, d2, ds)" by (cases "dest_mode ctxs receiver h")
  have len: "length (srcipaddr h) = 16" "length (destipaddr h) = 16" using assms(1) by (simp_all add: hdr_wf_def)
  have "length (tf_bytes h) \<le> 4" by (simp add: tf_bytes_def le_bytes_def)
  moreover have "length (nh_bytes h) + (if proto h = UIP_PROTO_UDP then length (udp_bytes u) else 0) \<le> 7"
    using udp_bytes_length [of u] by (simp add: nh_bytes_def)
  moreover have "length (ttl_bytes h) \<le> 1" by (simp add: ttl_bytes_def)
  ultimately show "2 \<le> length c" "length c \<le> 48"
    using assms(2) mode_bytes_length(1) [OF s len(1)] mode_bytes_length(2) [OF d len(2)]
    unfolding compress_wire [OF s d] by (auto split: if_splits)
qed

definition len_bytes :: "u16 \<Rightarrow> u8 list" where
  "len_bytes l = [ucast (drop_bit 8 l), ucast l]"

definition decoded_len :: "u16 \<Rightarrow> u16 \<Rightarrow> u8 \<Rightarrow> u8 \<Rightarrow> u16" where
  "decoded_len frag_len datalen hl n = (if frag_len = 0 then datalen - ucast hl + ucast n - 40 else frag_len - 40)"

text \<open>
  What decompression makes of any compressed header: everything but the source address is what was
  compressed, with the length fields computed from the frame.
\<close>

lemma uncompress_compress:
  assumes wf: "ctxs_wf ctxs" "hdr_wf h" and len0: "length (srcipaddr h0) = 16" "length (destipaddr h0) = 16"
    and c: "compress_hdr_hc06 ctxs sender receiver h u = (c, n)"
    and hl: "length pre = unat hl" "unat hl < 128"
  shows "uncompress_hdr_hc06 ctxs sender receiver frag_len datalen (pre @ c @ rest) h0 u0 hl 0 =
    (let hl' = hl + of_nat (length c); L = len_bytes (decoded_len frag_len datalen hl' n)
     in \<lparr>r_ip = h\<lparr>srcipaddr := src_restored ctxs h, ip_len := L\<rparr>,
         r_udp = (if proto h = UIP_PROTO_UDP then u\<lparr>udplen := le_u16 L\<rparr> else u0),
         r_hdr_len = hl', r_uncomp_hdr_len = n, r_ptr = rest\<rparr>)"
proof -
  obtain s1 s2 ss where s: "src_mode ctxs sender h = (s1, s2, ss)" by (cases "src_mode ctxs sender h")
  obtain d1 d2 ds where d: "dest_mode ctxs receiver h = (d1, d2, ds)" by (cases "dest_mode ctxs receiver h")
  have len: "length (srcipaddr h) = 16" "length (destipaddr h) = 16" and v: "drop_bit 4 (vtc h) = 6"
    using wf(2) by (simp_all add: hdr_wf_def)
  note sb = src_mode_bits [OF s wf(1) len(1)]
  note db = dest_mode_bits [OF d wf(1) len(2)]
  let ?i0 = "0x60 OR tf_bits h OR nh_bits h OR ttl_bits h"
  let ?i1 = "(if has_cid ctxs h then 0x80 else 0) OR s1 OR d1"
  let ?i2 = "s2 OR d2"
  let ?ub = "if proto h = UIP_PROTO_UDP then udp_bytes u else []"
  define body where "body = tf_bytes h @ nh_bytes h @ ttl_bytes h @ ss @ ds @ ?ub @ rest"
  have cw: "c @ rest = [?i0, ?i1] @ (if has_cid ctxs h then [?i2] else []) @ body"
    using c unfolding compress_wire [OF s d] body_def by auto
  have i1: "?i1 AND 0x30 = s1 AND 0x30" "?i1 AND 0x40 = s1 AND 0x40" "?i1 AND 0x03 = d1 AND 0x03"
    "?i1 AND 0x04 = d1 AND 0x04" "?i1 AND 0x08 = d1 AND 0x08" "?i1 AND 0x80 \<noteq> 0 \<longleftrightarrow> has_cid ctxs h"
    using sb db by (auto simp: bit.conj_disj_distrib2)
  let ?R = "\<lambda>p x. \<lparr>r_ip = x, r_udp = u0, r_hdr_len = hl, r_uncomp_hdr_len = 0, r_ptr = p\<rparr>"
  let ?x1 = "h0\<lparr>vtc := vtc h, tcflow := tcflow h, flow := flow h\<rparr>"
  let ?x2 = "if proto h = UIP_PROTO_UDP then ?x1 else ?x1\<lparr>proto := proto h\<rparr>"
  let ?x3 = "?x2\<lparr>ttl := ttl h\<rparr>"
  let ?x4 = "?x3\<lparr>srcipaddr := src_restored ctxs h\<rparr>"
  let ?x5 = "?x4\<lparr>destipaddr := destipaddr h\<rparr>"
  define buf where "buf = c @ rest"
  have buf: "buf ! 0 = ?i0" "buf ! 1 = ?i1" "has_cid ctxs h \<Longrightarrow> buf ! 2 = ?i2"
    "drop 2 buf = (if has_cid ctxs h then [?i2] else []) @ body"
    unfolding buf_def cw by auto
  have 0: "(if ?i1 AND 0x80 \<noteq> 0 then skip 1 (?R (drop 2 buf) h0) else ?R (drop 2 buf) h0) = ?R body h0"
    using buf i1(6) by (simp add: skip_def)
  have 1: "uncompress_tcflow ?i0 (?R body h0) = ?R (nh_bytes h @ ttl_bytes h @ ss @ ds @ ?ub @ rest) ?x1"
    using uncompress_tcflow_eq [OF v, of "?R body h0" _ ?i0] iphc0_fields [of h] by (simp add: body_def set_ip_def)
  have 2: "uncompress_proto ?i0 (?R (nh_bytes h @ ttl_bytes h @ ss @ ds @ ?ub @ rest) ?x1) = ?R (ttl_bytes h @ ss @ ds @ ?ub @ rest) ?x2"
    using uncompress_proto_eq [of "?R (nh_bytes h @ ttl_bytes h @ ss @ ds @ ?ub @ rest) ?x1" h _ ?i0] iphc0_fields [of h]
    by (simp add: set_ip_def)
  have 3: "uncompress_ttl ?i0 (?R (ttl_bytes h @ ss @ ds @ ?ub @ rest) ?x2) = ?R (ss @ ds @ ?ub @ rest) ?x3"
    using uncompress_ttl_eq [of "?R (ttl_bytes h @ ss @ ds @ ?ub @ rest) ?x2" h _ ?i0] iphc0_fields [of h]
    by (simp add: set_ip_def)
  have l3: "length (srcipaddr ?x3) = 16" using len0 by simp
  have 4: "uncompress_src ctxs sender ?i1 (buf ! 2) (?R (ss @ ds @ ?ub @ rest) ?x3) = Inr (?R (ds @ ?ub @ rest) ?x4)"
  proof (subst uncompress_src_eq [OF wf(1) len(1) _ s])
    show "s1 AND 0x80 \<noteq> 0 \<Longrightarrow> ?i1 AND 0x80 \<noteq> 0 \<and> drop_bit 4 (buf ! 2) = drop_bit 4 s2"
      using sb(4) i1(6) buf(3) db(5) by (simp only: drop_bit_or) simp
  qed (use l3 i1 in \<open>simp_all add: put_src_def set_ip_def\<close>)
  have l4: "length (destipaddr ?x4) = 16" using len0 by simp
  have 5: "uncompress_dest ctxs receiver ?i1 (buf ! 2) (?R (ds @ ?ub @ rest) ?x4) = Inr (?R (?ub @ rest) ?x5)"
  proof (subst uncompress_dest_eq [OF wf(1) len(2) _ d])
    show "d1 AND 0x08 = 0 \<Longrightarrow> d1 AND 0x04 \<noteq> 0 \<Longrightarrow> ?i1 AND 0x80 \<noteq> 0 \<and> buf ! 2 AND 0x0f = d2"
      using db(4,6) i1(6) buf(3) sb(5) by (simp add: bit.conj_disj_distrib2)
  qed (use l4 i1 in \<open>simp_all add: put_dest_def set_ip_def\<close>)
  have pb: "drop (unat hl) (pre @ c @ rest) = buf" using hl(1) by (simp add: buf_def)
  have n: "n = 40 + (if proto h = UIP_PROTO_UDP then 8 else 0)" using c unfolding compress_wire [OF s d] by simp
  have hlen: "of_nat (length (pre @ c @ rest) - length rest) = hl + of_nat (length c)" using hl(1) by simp
  let ?S = "\<lparr>r_ip = ?x5, r_udp = u0, r_hdr_len = hl, r_uncomp_hdr_len = 40, r_ptr = ?ub @ rest\<rparr>"
  have 6: "(if ?i0 AND 0x04 \<noteq> 0 then uncompress_udp ?S else ?S) =
     \<lparr>r_ip = h\<lparr>srcipaddr := src_restored ctxs h, ip_len := ip_len h0\<rparr>,
      r_udp = (if proto h = UIP_PROTO_UDP then u\<lparr>udplen := udplen u0\<rparr> else u0), r_hdr_len = hl, r_uncomp_hdr_len = n, r_ptr = rest\<rparr>"
  proof (cases "proto h = UIP_PROTO_UDP")
    case True
    have x: "?x5\<lparr>proto := UIP_PROTO_UDP\<rparr> = h\<lparr>srcipaddr := src_restored ctxs h, ip_len := ip_len h0\<rparr>"
      "u0\<lparr>srcport := srcport u, destport := destport u, udpchksum := udpchksum u\<rparr> = u\<lparr>udplen := udplen u0\<rparr>"
      using True by (cases h, cases h0, simp) (cases u, cases u0, simp)
    have "?i0 AND 0x04 \<noteq> 0" using iphc0_fields(3) [of h] True by (simp add: nh_bits_def)
    then have "(if ?i0 AND 0x04 \<noteq> 0 then uncompress_udp ?S else ?S) = uncompress_udp ?S" by (rule if_P)
    also have "\<dots> = \<lparr>r_ip = ?x5\<lparr>proto := UIP_PROTO_UDP\<rparr>,
        r_udp = u0\<lparr>srcport := srcport u, destport := destport u, udpchksum := udpchksum u\<rparr>, r_hdr_len = hl, r_uncomp_hdr_len = 48, r_ptr = rest\<rparr>"
      using uncompress_udp_eq [of ?S u rest] True by (simp add: set_ip_def set_udp_def)
    finally show ?thesis unfolding x using True by (simp add: n)
  next
    case False
    have "?x5 = h\<lparr>srcipaddr := src_restored ctxs h, ip_len := ip_len h0\<rparr>"
      using False by (cases h, cases h0) simp
    moreover have "?i0 AND 0x04 = 0" using iphc0_fields(3) [of h] False by (simp add: nh_bits_def)
    ultimately show ?thesis using False by (simp add: n)
  qed
  have u: "uncompress_hdr_hc06 ctxs sender receiver frag_len datalen (pre @ c @ rest) h0 u0 hl 0 =
     (let r = (if ?i0 AND 0x04 \<noteq> 0 then uncompress_udp ?S else ?S)
      in uncompress_len frag_len datalen (r\<lparr>r_hdr_len := of_nat (length (pre @ c @ rest) - length (r_ptr r))\<rparr>))"
    unfolding uncompress_hdr_hc06_def Let_def pb by (simp only: buf(1,2) 0 1 2 3 4 5 sum.case) simp
  show ?thesis
    unfolding u 6 by (simp add: Let_def hl(1) uncompress_len_def decoded_len_def len_bytes_def set_ip_def set_udp_def)
qed



section \<open>When the header comes back\<close>

text \<open>
  The source addresses that do not come back: link-local ones without a context and with bits set
  between the \<open>fe80\<close> and the interface identifier, sent to a destination whose words 1 to 3
  are zero (the compressor tests these words of the destination instead of the source).
\<close>

definition source_lossy :: "addr_context list \<Rightarrow> uip_ip_hdr \<Rightarrow> bool" where
  "source_lossy ctxs h \<longleftrightarrow>
     \<not> uip_is_addr_unspecified (srcipaddr h) \<and> addr_context_lookup_by_prefix ctxs (srcipaddr h) = None \<and>
     uip_is_addr_link_local (srcipaddr h) \<and> u16_zero (destipaddr h) 1 \<and> u16_zero (destipaddr h) 2 \<and> u16_zero (destipaddr h) 3 \<and>
     \<not> (u16_zero (srcipaddr h) 1 \<and> u16_zero (srcipaddr h) 2 \<and> u16_zero (srcipaddr h) 3)"

lemma src_restored_iff:
  assumes "length (srcipaddr h) = 16"
  shows "src_restored ctxs h = srcipaddr h \<longleftrightarrow> \<not> source_lossy ctxs h"
proof -
  obtain c0 c1 c2 c3 c4 c5 c6 c7 c8 c9 c10 c11 c12 c13 c14 c15
    where "srcipaddr h = [c0, c1, c2, c3, c4, c5, c6, c7, c8, c9, c10, c11, c12, c13, c14, c15]"
    using assms by (rule length16)
  then show ?thesis
    by (auto simp: src_restored_def source_lossy_def Let_def uip_is_addr_link_local_def u16_zero_def)
qed

text \<open>
  C35. Decompression restores a compressed header. Whatever IPv6 header of version 6 is compressed,
  with or without UDP, whatever contexts are in use and whatever the fields held before, if its
  length fields are the true ones and its source address is not of the lossy kind, then the receiver
  that knows both link addresses gets every field of the IPv6 header back, and of the UDP header if
  there is one; it counts the header bytes as the sender did, and they are at most 48.
\<close>

theorem hc06_roundtrip:
  assumes "ctxs_wf ctxs" "hdr_wf h" "\<not> source_lossy ctxs h"
    and "compress_hdr_hc06 ctxs sender receiver h u = (c, n)"
    and "ip_len h = len_bytes (of_nat (unat n - 40 + k))" "unat n + k < 2048"
    and "proto h = UIP_PROTO_UDP \<Longrightarrow> udplen u = le_u16 (ip_len h)"
    and "length (srcipaddr h0) = 16" "length (destipaddr h0) = 16"
    and "length pre = unat hl" "unat hl < 128"
    and "frag_len = 0 \<and> datalen = of_nat (length pre + length c + k) \<or> frag_len = of_nat (unat n + k)"
  shows "let r = uncompress_hdr_hc06 ctxs sender receiver frag_len datalen (pre @ c @ rest) h0 u0 hl 0
    in r_ip r = h \<and> r_udp r = (if proto h = UIP_PROTO_UDP then u else u0) \<and>
       unat (r_hdr_len r) = length pre + length c \<and> r_uncomp_hdr_len r = n \<and> length c \<le> 48"
proof -
  note cl = compress_length [OF assms(2,4)]
  have "n = 40 + (if proto h = UIP_PROTO_UDP then 8 else 0)" using assms(4) by (auto simp: compress_hdr_hc06_def Let_def)
  then have n: "unat n = 40 \<or> unat n = 48" by auto
  have hl: "unat (hl + of_nat (length c)) = length pre + length c"
    using assms(10,11) cl(2) by (simp add: unat_word_ariths unat_of_nat)
  have nw: "ucast n = (of_nat (unat n) :: u16)" by (simp add: word_unat_eq_iff unat_of_nat unat_less_u8 order_less_trans [OF unat_less_u8])
  have hw: "ucast (hl + of_nat (length c)) = (of_nat (length pre + length c) :: u16)"
    using hl assms(10,11) cl(2) by (simp add: word_unat_eq_iff unat_of_nat del: of_nat_add)
  have "decoded_len frag_len datalen (hl + of_nat (length c)) n = of_nat (unat n - 40 + k)"
    using assms(12)
  proof
    assume f: "frag_len = 0 \<and> datalen = of_nat (length pre + length c + k)"
    have "decoded_len frag_len datalen (hl + of_nat (length c)) n = of_nat (unat n) + of_nat k - 40"
      unfolding decoded_len_def nw hw using f by simp
    then show ?thesis using n by (elim disjE) simp_all
  next
    assume f: "frag_len = of_nat (unat n + k)"
    have "unat (of_nat (unat n + k) :: u16) = unat n + k" using assms(6) by (simp add: unat_of_nat del: of_nat_add)
    then have "frag_len \<noteq> 0" using f n by auto
    then have "decoded_len frag_len datalen (hl + of_nat (length c)) n = of_nat (unat n) + of_nat k - 40"
      using f by (simp add: decoded_len_def)
    then show ?thesis using n by (elim disjE) simp_all
  qed
  then have L: "len_bytes (decoded_len frag_len datalen (hl + of_nat (length c)) n) = ip_len h" using assms(5) by simp
  have "src_restored ctxs h = srcipaddr h" using src_restored_iff assms(2,3) by (simp add: hdr_wf_def)
  then show ?thesis
    using uncompress_compress [OF assms(1,2,8,9,4,10,11), of frag_len datalen rest u0] assms(7) hl cl(2)
    by (simp add: Let_def L)
qed

text \<open>
  C36. The source address comes back exactly when it is not of the lossy kind. The restored address
  differs from the one sent for every link-local source without a context that has a bit set between
  \<open>fe80\<close> and the interface identifier, if the words 1 to 3 of the destination are zero.
\<close>

theorem hc06_source_restored_iff:
  assumes "ctxs_wf ctxs" "hdr_wf h" "compress_hdr_hc06 ctxs sender receiver h u = (c, n)"
    and "length (srcipaddr h0) = 16" "length (destipaddr h0) = 16" "length pre = unat hl" "unat hl < 128"
  shows "srcipaddr (r_ip (uncompress_hdr_hc06 ctxs sender receiver frag_len datalen (pre @ c @ rest) h0 u0 hl 0)) = srcipaddr h
    \<longleftrightarrow> \<not> source_lossy ctxs h"
  using uncompress_compress [OF assms(1,2,4,5,3,6,7), of frag_len datalen rest u0] src_restored_iff assms(2)
  by (simp add: hdr_wf_def Let_def)

section \<open>Examples\<close>

definition example_sender :: linkaddr where "example_sender = Linkaddr 2 0 0 0 0 0 0 1"
definition example_receiver :: linkaddr where "example_receiver = Linkaddr 2 0 0 0 0 0 0 2"

definition example_ip :: uip_ip_hdr where
  "example_ip = \<lparr>vtc = 0x60, tcflow = 0, flow = 0, ip_len = [0, 12], proto = 17, ttl = 64,
     srcipaddr = [0xfe, 0x80, 0, 0, 0, 0, 0, 0, 0, 0, 0, 0, 0, 0, 0, 1],
     destipaddr = [0xaa, 0xaa, 0, 0, 0, 0, 0, 0, 0, 0, 0, 0xff, 0xfe, 0, 0, 7]\<rparr>"

definition example_udp :: uip_udp_hdr where
  "example_udp = \<lparr>srcport = UIP_HTONS 0xf0b1, destport = UIP_HTONS 0xf0b2, udplen = le_u16 [0, 12], udpchksum = 0x1234\<rparr>"

definition lossy_ip :: uip_ip_hdr where
  "lossy_ip = example_ip\<lparr>srcipaddr := [0xfe, 0x80, 0, 0, 0, 0, 0, 5, 0, 0, 0, 0, 0, 0, 0, 1]\<rparr>"

lemma example_wf: "ctxs_wf sicslowpan_contexts" "hdr_wf example_ip" "hdr_wf lossy_ip"
  by (simp_all add: ctxs_wf_def sicslowpan_contexts_def hdr_wf_def example_ip_def lossy_ip_def)

lemma example_lossy: "\<not> source_lossy sicslowpan_contexts example_ip" "source_lossy sicslowpan_contexts lossy_ip"
  by (simp_all add: source_lossy_def sicslowpan_contexts_def example_ip_def lossy_ip_def uip_is_addr_unspecified_def
    uip_is_addr_link_local_def u16_zero_def)

theorem hc06_roundtrip_witness:
  "\<exists>c n. compress_hdr_hc06 sicslowpan_contexts example_sender example_receiver example_ip example_udp = (c, n) \<and>
     r_ip (uncompress_hdr_hc06 sicslowpan_contexts example_sender example_receiver 0 (of_nat (length c + 4)) (c @ [1, 2, 3, 4])
       lossy_ip (example_udp\<lparr>udplen := 0, udpchksum := 0\<rparr>) 0 0) = example_ip"
proof -
  obtain c n where c: "compress_hdr_hc06 sicslowpan_contexts example_sender example_receiver example_ip example_udp = (c, n)" by fastforce
  have n: "n = 48" using c by (auto simp: compress_hdr_hc06_def Let_def example_ip_def)
  have "ip_len example_ip = len_bytes (of_nat (unat n - 40 + 4))" by (simp add: n example_ip_def len_bytes_def)
  moreover have "udplen example_udp = le_u16 (ip_len example_ip)" by (simp add: example_udp_def example_ip_def)
  ultimately show ?thesis
    using hc06_roundtrip [OF example_wf(1,2) example_lossy(1) c, where k = 4 and ?h0.0 = lossy_ip and pre = "[]" and hl = 0 and frag_len = 0
      and datalen = "of_nat (length c + 4)" and rest = "[1, 2, 3, 4]" and ?u0.0 = "example_udp\<lparr>udplen := 0, udpchksum := 0\<rparr>"]
      example_wf(3) c n
    by (simp add: Let_def hdr_wf_def)
qed

theorem hc06_source_restored_iff_witness:
  "srcipaddr (r_ip (uncompress_hdr_hc06 sicslowpan_contexts example_sender example_receiver 0 100
     (fst (compress_hdr_hc06 sicslowpan_contexts example_sender example_receiver lossy_ip example_udp) @ [1, 2, 3, 4])
     example_ip example_udp 0 0)) \<noteq> srcipaddr lossy_ip"
  using hc06_source_restored_iff [OF example_wf(1,3) prod.collapse [symmetric], where ?h0.0 = example_ip and pre = "[]" and hl = 0
      and sender = example_sender and receiver = example_receiver and u = example_udp and frag_len = 0 and datalen = 100
      and rest = "[1, 2, 3, 4]" and ?u0.0 = example_udp] example_lossy(2) example_wf(2)
  by (simp add: hdr_wf_def)

end
