(* ===== verification/Sicslowpan.thy ===== *)
theory Sicslowpan
  imports Iphc Csma
begin

text \<open>
  Output, fragmentation, reassembly and input of 6LoWPAN (\<open>core/net/ipv6/sicslowpan.c\<close>,
  with \<open>SICSLOWPAN_CONF_FRAG\<close> set and \<open>PRIORITIZE_NEW_PACKETS\<close>). The state is that of
  the file's static variables that survive a call, the IP packet in \<open>uip_buf\<close>, the packet
  buffer and the queue buffers. The link layer below (\<open>NETSTACK_FRAMER\<close> and
  \<open>NETSTACK_LLSEC\<close>, selected by the build) is a parameter: what \<open>send\<close> makes of the
  buffers and the statuses with which it calls \<open>packet_sent\<close> before it returns. Calls to
  other components (frames handed down, datagrams handed up, callbacks) are appended to a trace.
\<close>

section \<open>State\<close>

datatype call =
    Llsec_send packetbuf
  | Link_neighbor_callback mac_status int
  | Sniffer_output mac_status
  | Sniffer_input
  | Tcpip_input "u8 list"

record 'm link =
  framer_length :: "packetbuf \<Rightarrow> 'm \<Rightarrow> int \<times> packetbuf \<times> 'm"
  llsec_overhead :: int
  llsec_send :: "packetbuf \<Rightarrow> queuebufs \<Rightarrow> 'm \<Rightarrow> (mac_status \<times> int) list \<times> packetbuf \<times> queuebufs \<times> 'm"

record 'm sicslowpan =
  uip_buf :: "u8 list"
  uip_len :: u16
  uip_lladdr :: linkaddr
  pbuf :: packetbuf
  qbufs :: queuebufs
  link_state :: 'm
  addr_contexts :: "addr_context list"
  last_tx_status :: mac_status
  sicslowpan_buf :: "u8 list"
  sicslowpan_len :: u16
  processed_ip_in_len :: u16
  my_tag :: u16
  reass_tag :: u16
  frag_sender :: linkaddr
  reass_timer :: timer
  sniffer :: bool
  last_rssi :: u16
  trace :: "call list"

abbreviation (input) UIP_BUFSIZE :: nat where "UIP_BUFSIZE \<equiv> 240"
abbreviation (input) MAC_MAX_PAYLOAD :: int where "MAC_MAX_PAYLOAD \<equiv> 125"
abbreviation (input) COMPRESSION_THRESHOLD :: u16 where "COMPRESSION_THRESHOLD \<equiv> 0"

definition call :: "call \<Rightarrow> 'm sicslowpan \<Rightarrow> 'm sicslowpan" where
  "call c s = s\<lparr>trace := trace s @ [c]\<rparr>"

text \<open>The headers at the start of a buffer, as the struct pointers of the code see them.\<close>

definition ip_hdr_of :: "u8 list \<Rightarrow> uip_ip_hdr" where
  "ip_hdr_of b = \<lparr>vtc = b ! 0, tcflow = b ! 1, flow = le_u16 [b ! 2, b ! 3], ip_len = take 2 (drop 4 b),
     proto = b ! 6, ttl = b ! 7, srcipaddr = take 16 (drop 8 b), destipaddr = take 16 (drop 24 b)\<rparr>"

definition udp_hdr_of :: "u8 list \<Rightarrow> uip_udp_hdr" where
  "udp_hdr_of b = \<lparr>srcport = le_u16 [b ! 40, b ! 41], destport = le_u16 [b ! 42, b ! 43],
     udplen = le_u16 [b ! 44, b ! 45], udpchksum = le_u16 [b ! 46, b ! 47]\<rparr>"

definition ip_hdr_bytes :: "uip_ip_hdr \<Rightarrow> u8 list" where
  "ip_hdr_bytes h = [vtc h, tcflow h] @ le_bytes (flow h) @ ip_len h @ [proto h, ttl h] @ srcipaddr h @ destipaddr h"

definition udp_hdr_bytes :: "uip_udp_hdr \<Rightarrow> u8 list" where
  "udp_hdr_bytes u = le_bytes (srcport u) @ le_bytes (destport u) @ le_bytes (udplen u) @ le_bytes (udpchksum u)"

definition put_hdrs :: "uip_ip_hdr \<Rightarrow> uip_udp_hdr \<Rightarrow> u8 list \<Rightarrow> u8 list" where
  "put_hdrs h u b = memcpy_at b 0 (ip_hdr_bytes h @ udp_hdr_bytes u)"

section \<open>Sniffer\<close>

definition rime_sniffer_add :: "'m sicslowpan \<Rightarrow> 'm sicslowpan" where
  "rime_sniffer_add s = s\<lparr>sniffer := True\<rparr>"

definition rime_sniffer_remove :: "'m sicslowpan \<Rightarrow> 'm sicslowpan" where
  "rime_sniffer_remove s = s\<lparr>sniffer := False\<rparr>"

text \<open>The port comparison is on the fields as they lie in the packet.\<close>

definition set_packet_attrs :: "'m sicslowpan \<Rightarrow> 'm sicslowpan" where
  "set_packet_attrs s =
     (let b = uip_buf s; h = ip_hdr_of b; u = udp_hdr_of b;
          p = packetbuf_set_attr ATTR_NETWORK_ID (ucast (proto h)) (pbuf s);
          c = (if proto h = UIP_PROTO_UDP \<or> proto h = UIP_PROTO_TCP
               then (if destport u < srcport u then destport u else srcport u)
               else if proto h = UIP_PROTO_ICMP6 then push_bit 8 (ucast (b ! 40)) OR ucast (b ! 41)
               else 0)
      in s\<lparr>pbuf := packetbuf_set_attr ATTR_CHANNEL c p\<rparr>)"

section \<open>Output\<close>

definition packet_sent :: "mac_status \<times> int \<Rightarrow> 'm sicslowpan \<Rightarrow> 'm sicslowpan" where
  "packet_sent st s =
     (let s = call (Link_neighbor_callback (fst st) (snd st)) s;
          s = (if sniffer s then call (Sniffer_output (fst st)) s else s)
      in s\<lparr>last_tx_status := fst st\<rparr>)"

definition send_packet :: "'m link \<Rightarrow> linkaddr \<Rightarrow> 'm sicslowpan \<Rightarrow> 'm sicslowpan" where
  "send_packet L dest s =
     (let p = packetbuf_set_addr ADDR_RECEIVER dest (pbuf s)
      in case llsec_send L p (qbufs s) (link_state s) of
           (sts, p', q', m') \<Rightarrow>
             fold packet_sent sts (call (Llsec_send p) (s\<lparr>pbuf := p', qbufs := q', link_state := m'\<rparr>)))"

definition tx_failed :: "'m sicslowpan \<Rightarrow> bool" where
  "tx_failed s \<longleftrightarrow> last_tx_status s = MAC_TX_COLLISION \<or> last_tx_status s = MAC_TX_ERR \<or> last_tx_status s = MAC_TX_ERR_FATAL"

text \<open>Writing to the packet buffer relative to \<open>packetbuf_ptr\<close>, which \<open>packetbuf_clear\<close> fixes.\<close>

definition poke :: "nat \<Rightarrow> u8 list \<Rightarrow> 'm sicslowpan \<Rightarrow> 'm sicslowpan" where
  "poke off bs s = s\<lparr>pbuf := (pbuf s)\<lparr>pb_mem := memcpy_at (pb_mem (pbuf s)) (PACKETBUF_HDR_SIZE + off) bs\<rparr>\<rparr>"

definition SET16 :: "nat \<Rightarrow> u16 \<Rightarrow> 'm sicslowpan \<Rightarrow> 'm sicslowpan" where
  "SET16 off v s = poke off [ucast (drop_bit 8 v), ucast v] s"

definition compress_hdr_ipv6 :: "u8 list \<Rightarrow> u8 list \<times> u8" where
  "compress_hdr_ipv6 b = (0x41 # take 40 b, 40)"

definition stream_attr :: "'m sicslowpan \<Rightarrow> 'm sicslowpan" where
  "stream_attr s =
     (let h = ip_hdr_of (uip_buf s); flags = uip_buf s ! 53
      in if proto h = UIP_PROTO_TCP \<and> flags AND 0x01 = 0 \<and> flags AND 0x3f \<noteq> 0x10
         then s\<lparr>pbuf := packetbuf_set_attr ATTR_PACKET_TYPE 2 (pbuf s)\<rparr>
         else if proto h = UIP_PROTO_TCP \<and> flags AND 0x01 = 0x01
         then s\<lparr>pbuf := packetbuf_set_attr ATTR_PACKET_TYPE 3 (pbuf s)\<rparr>
         else s)"

text \<open>The part common to the first and the following fragments: copy the payload, store, send, restore.\<close>

definition send_fragment :: "'m link \<Rightarrow> linkaddr \<Rightarrow> nat \<Rightarrow> nat \<Rightarrow> int \<Rightarrow> 'm sicslowpan \<Rightarrow> bool \<times> 'm sicslowpan" where
  "send_fragment L dest hdr_len pos payload_len s =
     (let s = poke hdr_len (take (nat payload_len) (drop pos (uip_buf s))) s;
          s = s\<lparr>pbuf := packetbuf_set_datalen (word_of_int (payload_len + int hdr_len)) (pbuf s)\<rparr>
      in case queuebuf_new_from_packetbuf (pbuf s) (qbufs s) of
           (q, qs) \<Rightarrow>
             (let s = s\<lparr>qbufs := qs\<rparr>
              in if q = NULL then (False, s)
                 else
                   (let s = send_packet L dest s;
                        s = s\<lparr>pbuf := queuebuf_to_packetbuf q (qbufs s) (pbuf s)\<rparr>
                    in (True, s\<lparr>qbufs := queuebuf_free q (qbufs s)\<rparr>))))"

text \<open>The loop over the following fragments ends only if every fragment carries payload.\<close>

partial_function (option) fragn_loop ::
  "'m link \<Rightarrow> linkaddr \<Rightarrow> int \<Rightarrow> u16 \<Rightarrow> 'm sicslowpan \<Rightarrow> (u8 \<times> 'm sicslowpan) option" where
  "fragn_loop L dest payload_len processed s =
     (if processed < uip_len s then
        (let s = poke 4 [ucast (drop_bit 3 processed)] s;
             payload_len = (if uip_len s - processed < word_of_int payload_len then uint (uip_len s - processed) else payload_len);
             sent = send_fragment L dest 5 (unat processed) payload_len s;
             s = snd sent
         in if \<not> fst sent then Some (0, s)
            else if tx_failed s then Some (0, s)
            else fragn_loop L dest payload_len (processed + word_of_int payload_len) s)
      else Some (1, s))"

text \<open>The first fragment, from the compressed header of \<open>hdr_len\<close> bytes in the packet buffer.\<close>

definition output_fragments ::
  "'m link \<Rightarrow> linkaddr \<Rightarrow> int \<Rightarrow> nat \<Rightarrow> u8 \<Rightarrow> 'm sicslowpan \<Rightarrow> (u8 \<times> 'm sicslowpan) option" where
  "output_fragments L dest max_payload hdr_len uncomp_hdr_len s =
     (let estimated_fragments = uint (uip_len s) div (MAC_MAX_PAYLOAD - 5) + 1;
          freebuf = uint (queuebuf_numfree (pbuf s) (qbufs s)) - 1
      in if freebuf < estimated_fragments then Some (0, s)
         else
           (let s = poke 4 (take hdr_len (drop PACKETBUF_HDR_SIZE (pb_mem (pbuf s)))) s;
                s = SET16 0 (0xc000 OR uip_len s) s;
                s = SET16 2 (my_tag s) s;
                s = s\<lparr>my_tag := my_tag s + 1\<rparr>;
                hdr_len = hdr_len + 4;
                payload_len = (max_payload - int hdr_len) AND (- 8)
            in case send_fragment L dest hdr_len (unat uncomp_hdr_len) payload_len s of
                 (False, s) \<Rightarrow> Some (0, s)
               | (True, s) \<Rightarrow>
                   if tx_failed s then Some (0, s)
                   else
                     (let processed = word_of_int (payload_len + uint uncomp_hdr_len);
                          s = SET16 0 (0xe000 OR uip_len s) s
                      in fragn_loop L dest ((max_payload - 5) AND (- 8)) processed s)))"

definition sicslowpan_output :: "'m link \<Rightarrow> linkaddr option \<Rightarrow> 'm sicslowpan \<Rightarrow> (u8 \<times> 'm sicslowpan) option" where
  "sicslowpan_output L localdest s =
     (let s = s\<lparr>pbuf := packetbuf_set_attr ATTR_MAX_MAC_TRANSMISSIONS 4 (packetbuf_clear (pbuf s))\<rparr>;
          s = (if sniffer s then set_packet_attrs s else s);
          s = stream_attr s;
          dest = (case localdest of None \<Rightarrow> linkaddr_copy linkaddr_null linkaddr_null | Some d \<Rightarrow> linkaddr_copy linkaddr_null d);
          (hdr, uncomp_hdr_len) =
            (if uip_len s \<ge> COMPRESSION_THRESHOLD
             then compress_hdr_hc06 (addr_contexts s) (uip_lladdr s) dest (ip_hdr_of (uip_buf s)) (udp_hdr_of (uip_buf s))
             else compress_hdr_ipv6 (uip_buf s));
          hdr_len = length hdr;
          s = poke 0 hdr s;
          s = s\<lparr>pbuf := packetbuf_set_addr ADDR_RECEIVER dest (pbuf s)\<rparr>
      in case framer_length L (pbuf s) (link_state s) of
           (fl, p, m) \<Rightarrow>
             (let s = s\<lparr>pbuf := p, link_state := m\<rparr>;
                  framer_hdrlen = (if fl < 0 then 21 else fl);
                  max_payload = MAC_MAX_PAYLOAD - framer_hdrlen - llsec_overhead L
              in if uint (uip_len s) - uint uncomp_hdr_len > max_payload - int hdr_len then
                   output_fragments L dest max_payload hdr_len uncomp_hdr_len s
                 else
                   (let s = poke hdr_len (take (unat (uip_len s - ucast uncomp_hdr_len)) (drop (unat uncomp_hdr_len) (uip_buf s))) s;
                        s = s\<lparr>pbuf := packetbuf_set_datalen (uip_len s - ucast uncomp_hdr_len + of_nat hdr_len) (pbuf s)\<rparr>
                    in Some (1, send_packet L dest s))))"

section \<open>Input\<close>

definition GET16 :: "u8 list \<Rightarrow> nat \<Rightarrow> u16" where
  "GET16 pb i = push_bit 8 (ucast (pb ! i)) OR ucast (pb ! (i + 1))"

record fragment =
  frag_size :: u16
  frag_offset :: u8
  frag_tag :: u16
  frag_hdr_len :: u8
  is_fragment :: bool
  first_fragment :: bool
  last_fragment :: bool

definition parse_fragment :: "u8 list \<Rightarrow> u16 \<Rightarrow> u16 \<Rightarrow> fragment" where
  "parse_fragment pb datalen processed =
     (let none = \<lparr>frag_size = 0, frag_offset = 0, frag_tag = 0, frag_hdr_len = 0,
            is_fragment = False, first_fragment = False, last_fragment = False\<rparr>;
          dispatch = drop_bit 8 (GET16 pb 0 AND 0xf800)
      in if dispatch = 0xc0 then
           none\<lparr>frag_size := GET16 pb 0 AND 0x07ff, frag_tag := GET16 pb 2, frag_hdr_len := 4,
             first_fragment := True, is_fragment := True\<rparr>
         else if dispatch = 0xe0 then
           none\<lparr>frag_offset := pb ! 4, frag_tag := GET16 pb 2, frag_size := GET16 pb 0 AND 0x07ff, frag_hdr_len := 5,
             last_fragment := (processed + datalen - 5 \<ge> GET16 pb 0 AND 0x07ff), is_fragment := True\<rparr>
         else none)"

definition drop_reassembly :: "'m sicslowpan \<Rightarrow> 'm sicslowpan" where
  "drop_reassembly s = s\<lparr>sicslowpan_len := 0, processed_ip_in_len := 0\<rparr>"

text \<open>Whether input goes on with the frame, and the reassembly state.\<close>

definition reassembly_step :: "clock_time \<Rightarrow> linkaddr \<Rightarrow> fragment \<Rightarrow> 'm sicslowpan \<Rightarrow> bool \<times> 'm sicslowpan" where
  "reassembly_step now sender f s =
     (let s = (if \<not> is_fragment f then drop_reassembly s
               else if processed_ip_in_len s > 0 \<and> first_fragment f \<and> \<not> linkaddr_cmp (frag_sender s) sender
               then drop_reassembly s else s)
      in if processed_ip_in_len s > 0 then
           (if frag_size f > 0 \<and> (frag_size f \<noteq> sicslowpan_len s \<or> reass_tag s \<noteq> frag_tag f \<or>
                \<not> linkaddr_cmp (frag_sender s) sender) \<or> frag_size f = 0
            then (False, s) else (True, s))
         else if frag_size f > 0 \<and> unat (frag_size f) \<le> UIP_BUFSIZE then
           (if is_fragment f \<and> \<not> first_fragment f then (False, s)
            else (True, s\<lparr>sicslowpan_len := frag_size f, reass_tag := frag_tag f,
                  reass_timer := timer_set now (3 * 128) (reass_timer s),
                  frag_sender := linkaddr_copy (frag_sender s) sender\<rparr>))
         else (True, s))"

text \<open>
  The headers put into the reassembly buffer: the new state, \<open>packetbuf_hdr_len\<close> and
  \<open>uncomp_hdr_len\<close>, or \<open>None\<close> for an unknown dispatch.
\<close>

definition input_headers :: "u8 list \<Rightarrow> fragment \<Rightarrow> 'm sicslowpan \<Rightarrow> ('m sicslowpan \<times> u8 \<times> u8) option" where
  "input_headers pb f s =
     (let hl = frag_hdr_len f; b = sicslowpan_buf s; d = pb ! unat hl; p = pbuf s
      in if hl = 5 then Some (s, hl, 0)
         else if d AND 0xe0 = 0x60 then
           (let r = uncompress_hdr_hc06 (addr_contexts s) (packetbuf_addr ADDR_SENDER p) (packetbuf_addr ADDR_RECEIVER p)
                  (frag_size f) (packetbuf_datalen p) pb (ip_hdr_of b) (udp_hdr_of b) hl 0
            in Some (s\<lparr>sicslowpan_buf := put_hdrs (r_ip r) (r_udp r) b\<rparr>, r_hdr_len r, r_uncomp_hdr_len r))
         else if d = 0x41 then
           Some (s\<lparr>sicslowpan_buf := memcpy_at b 0 (take 40 (drop (unat hl + 1) pb))\<rparr>, hl + 1 + 40, 40)
         else None)"

text \<open>The length of the datagram so far.\<close>

definition count_payload :: "fragment \<Rightarrow> u8 \<Rightarrow> u16 \<Rightarrow> 'm sicslowpan \<Rightarrow> 'm sicslowpan" where
  "count_payload f uncomp_hdr_len payload_len s =
     (if frag_size f > 0 then
        (let s = (if first_fragment f then s\<lparr>processed_ip_in_len := processed_ip_in_len s + ucast uncomp_hdr_len\<rparr> else s)
         in if last_fragment f then s\<lparr>processed_ip_in_len := frag_size f\<rparr>
            else s\<lparr>processed_ip_in_len := processed_ip_in_len s + payload_len\<rparr>)
      else s\<lparr>sicslowpan_len := payload_len + ucast uncomp_hdr_len\<rparr>)"

definition deliver :: "'m sicslowpan \<Rightarrow> 'm sicslowpan" where
  "deliver s =
     (if processed_ip_in_len s = 0 \<or> processed_ip_in_len s = sicslowpan_len s then
        (let s = s\<lparr>uip_buf := memcpy_at (uip_buf s) 0 (take (unat (sicslowpan_len s)) (sicslowpan_buf s)), uip_len := sicslowpan_len s,
               sicslowpan_len := 0, processed_ip_in_len := 0\<rparr>;
             s = (if sniffer s then call Sniffer_input (set_packet_attrs s) else s)
         in call (Tcpip_input (take (unat (uip_len s)) (uip_buf s))) s)
      else s)"

definition sicslowpan_input :: "clock_time \<Rightarrow> 'm sicslowpan \<Rightarrow> 'm sicslowpan" where
  "sicslowpan_input now s =
     (let p = pbuf s; pb = drop (packetbuf_dataptr p) (pb_mem p); sender = packetbuf_addr ADDR_SENDER p;
          s = s\<lparr>last_rssi := packetbuf_attr ATTR_RSSI p\<rparr>;
          s = (if timer_expired now (reass_timer s) then drop_reassembly s else s);
          f = parse_fragment pb (packetbuf_datalen p) (processed_ip_in_len s)
      in case reassembly_step now sender f s of
           (False, s) \<Rightarrow> s
         | (True, s) \<Rightarrow>
             (case input_headers pb f s of
                None \<Rightarrow> s
              | Some (s, hdr_len, uncomp_hdr_len) \<Rightarrow>
                  if packetbuf_datalen p < ucast hdr_len then s
                  else
                    (let payload_len = packetbuf_datalen p - ucast hdr_len;
                         off = push_bit 3 (unat (frag_offset f));
                         req_size = unat uncomp_hdr_len + off + unat payload_len
                     in if req_size > UIP_BUFSIZE then s
                        else deliver (count_payload f uncomp_hdr_len payload_len
                          (s\<lparr>sicslowpan_buf := memcpy_at (sicslowpan_buf s) (unat uncomp_hdr_len + off)
                             (take (unat payload_len) (drop (unat hdr_len) pb))\<rparr>)))))"

definition sicslowpan_init :: "'m sicslowpan \<Rightarrow> 'm sicslowpan" where
  "sicslowpan_init s = s\<lparr>addr_contexts := sicslowpan_contexts\<rparr>"

definition sicslowpan_get_last_rssi :: "'m sicslowpan \<Rightarrow> u16" where
  "sicslowpan_get_last_rssi s = last_rssi s"

end
