(* ===== verification/Reassembly.thy ===== *)
theory Reassembly
  imports IphcCorrect Sicslowpan
begin

text \<open>
  The receiving side of 6LoWPAN (\<open>input\<close> of \<open>core/net/ipv6/sicslowpan.c\<close>).
  \<open>frames\<close> lists the frames that carry a datagram; \<open>receive_frames\<close> shows that a
  receiver that gets them in order hands exactly this datagram up, by the invariant
  \<open>reassembling\<close>: the first \<open>pos\<close> bytes of the datagram are in the reassembly buffer and
  are counted.
\<close>

section \<open>Buffers and headers\<close>

lemma le_bytes_u16: "le_bytes (le_u16 [a, b]) = [a, b]"
proof -
  have "ucast (le_u16 [a, b]) = a" by (rule bits_below_8) (auto simp: le_u16_def bit_simps)
  moreover have "ucast (drop_bit 8 (le_u16 [a, b])) = b" by (rule bits_below_8) (auto simp: le_u16_def bit_simps)
  ultimately show ?thesis by (simp add: le_bytes_def)
qed

lemma take_nths: "n \<le> length b \<Longrightarrow> take n b = map (\<lambda>i. b ! i) [0..<n]"
  by (rule nth_equalityI) auto

lemma take_8_bytes:
  "8 \<le> length b \<Longrightarrow> take 8 b = [b ! 0, b ! 1, b ! 2, b ! 3, b ! 4, b ! 5, b ! 6, b ! 7]"
  using take_nths [of 8 b] by (simp add: upt_rec numeral_eq_Suc)

lemma drop_split: "drop a b = take k (drop a b) @ drop (a + k) b"
  by (metis append_take_drop_id drop_drop add.commute)

lemma ip_hdr_bytes_of:
  assumes "40 \<le> length b"
  shows "ip_hdr_bytes (ip_hdr_of b) = take 40 b"
proof -
  have t: "take 8 b = [b ! 0, b ! 1, b ! 2, b ! 3, b ! 4, b ! 5, b ! 6, b ! 7]"
    using take_8_bytes [of b] assms by simp
  moreover have "take 2 (drop 4 b) = [b ! 4, b ! 5]"
    using arg_cong [OF t, of "\<lambda>x. take 2 (drop 4 x)"] by (simp add: drop_take)
  ultimately have "ip_hdr_bytes (ip_hdr_of b) = take 8 b @ take 16 (drop 8 b) @ take 16 (drop 24 b)"
    by (simp add: ip_hdr_bytes_def ip_hdr_of_def le_bytes_u16)
  also have "\<dots> = take 40 b" 
    using take_add [of 8 16 b] take_add [of 24 16 b] by simp
  finally show ?thesis .
qed

lemma udp_hdr_bytes_of:
  assumes "48 \<le> length b"
  shows "udp_hdr_bytes (udp_hdr_of b) = take 8 (drop 40 b)"
proof -
  have "take 8 (drop 40 b) = [drop 40 b ! 0, drop 40 b ! 1, drop 40 b ! 2, drop 40 b ! 3,
      drop 40 b ! 4, drop 40 b ! 5, drop 40 b ! 6, drop 40 b ! 7]"
    using take_8_bytes [of "drop 40 b"] assms by simp
  then show ?thesis using assms by (simp add: udp_hdr_bytes_def udp_hdr_of_def le_bytes_u16)
qed

lemma hdr_bytes_of:
  assumes "48 \<le> length b"
  shows "ip_hdr_bytes (ip_hdr_of b) @ udp_hdr_bytes (udp_hdr_of b) = take 48 b"
  using ip_hdr_bytes_of [of b] udp_hdr_bytes_of [OF assms] assms take_add [of 40 8 b] by simp

lemma ip_hdr_of_lengths:
  assumes "40 \<le> length b"
  shows "length (srcipaddr (ip_hdr_of b)) = 16" "length (destipaddr (ip_hdr_of b)) = 16" "length (ip_len (ip_hdr_of b)) = 2"
  using assms by (simp_all add: ip_hdr_of_def)

lemma hdr_bytes_lengths:
  assumes "length (srcipaddr h) = 16" "length (destipaddr h) = 16" "length (ip_len h) = 2"
  shows "length (ip_hdr_bytes h) = 40" "length (udp_hdr_bytes u) = 8"
  using assms by (simp_all add: ip_hdr_bytes_def udp_hdr_bytes_def le_bytes_def)

section \<open>Datagrams\<close>

definition uncompressed_len :: "u8 list \<Rightarrow> nat" where
  "uncompressed_len D = (if proto (ip_hdr_of D) = UIP_PROTO_UDP then 48 else 40)"

text \<open>
  A datagram that fits the buffers, of version 6, whose length fields agree with its length and whose
  source address survives compression.
\<close>

definition datagram_wf :: "addr_context list \<Rightarrow> u8 list \<Rightarrow> bool" where
  "datagram_wf ctxs D \<longleftrightarrow>
     uncompressed_len D \<le> length D \<and> length D \<le> UIP_BUFSIZE \<and> drop_bit 4 (vtc (ip_hdr_of D)) = 6 \<and>
     \<not> source_lossy ctxs (ip_hdr_of D) \<and> ip_len (ip_hdr_of D) = len_bytes (of_nat (length D - 40)) \<and>
     (proto (ip_hdr_of D) = UIP_PROTO_UDP \<longrightarrow> udplen (udp_hdr_of D) = le_u16 (ip_len (ip_hdr_of D)))"

definition compressed :: "addr_context list \<Rightarrow> linkaddr \<Rightarrow> linkaddr \<Rightarrow> u8 list \<Rightarrow> u8 list" where
  "compressed ctxs lladdr dest D = fst (compress_hdr_hc06 ctxs lladdr dest (ip_hdr_of D) (udp_hdr_of D))"

definition be_bytes :: "u16 \<Rightarrow> u8 list" where
  "be_bytes v = [ucast (drop_bit 8 v), ucast v]"

function following_frames :: "u16 \<Rightarrow> u8 list \<Rightarrow> nat \<Rightarrow> nat \<Rightarrow> u8 list list" where
  "following_frames tag D p pos =
     (if pos < length D \<and> 0 < p
      then (be_bytes (0xe000 OR of_nat (length D)) @ be_bytes tag @ [of_nat (pos div 8)] @ take p (drop pos D))
           # following_frames tag D p (pos + p)
      else [])"
  by pat_completeness auto
termination by (relation "measure (\<lambda>(tag, D, p, pos). length D - pos)") auto

declare following_frames.simps [simp del]

text \<open>The frames of a datagram for frames of at most \<open>mp\<close> bytes.\<close>

definition frames :: "addr_context list \<Rightarrow> linkaddr \<Rightarrow> linkaddr \<Rightarrow> nat \<Rightarrow> u16 \<Rightarrow> u8 list \<Rightarrow> u8 list list" where
  "frames ctxs lladdr dest mp tag D =
     (let c = compressed ctxs lladdr dest D; n = uncompressed_len D
      in if length c + (length D - n) \<le> mp then [c @ drop n D]
         else (let p = (mp - (length c + 4)) div 8 * 8
               in (be_bytes (0xc000 OR of_nat (length D)) @ be_bytes tag @ c @ take p (drop n D))
                  # following_frames tag D ((mp - 5) div 8 * 8) (n + p)))"

lemma compressed_eq:
  "compress_hdr_hc06 ctxs lladdr dest (ip_hdr_of D) (udp_hdr_of D) = (compressed ctxs lladdr dest D, of_nat (uncompressed_len D))"
  by (cases "compress_hdr_hc06 ctxs lladdr dest (ip_hdr_of D) (udp_hdr_of D)")
    (auto simp: compressed_def uncompressed_len_def compress_hdr_hc06_def Let_def split: if_splits)

lemma datagram_hdr_wf:
  assumes "datagram_wf ctxs D"
  shows "hdr_wf (ip_hdr_of D)" "40 \<le> length D"
proof -
  show "40 \<le> length D" using assms by (auto simp: datagram_wf_def uncompressed_len_def split: if_splits)
  then show "hdr_wf (ip_hdr_of D)" using assms ip_hdr_of_lengths [of D] by (simp add: hdr_wf_def datagram_wf_def)
qed

text \<open>Decompressing the header of a datagram puts the datagram's own header into the buffer.\<close>

lemma headers_restored:
  assumes ctx: "ctxs_wf ctxs" and dg: "datagram_wf ctxs D" and b: "length b = UIP_BUFSIZE"
    and pre: "length pre = unat hl" "unat hl < 128"
    and len: "frag_len = of_nat (length D) \<or> frag_len = 0 \<and> 
      datalen = of_nat (length pre + length (compressed ctxs sender receiver D) + (length D - uncompressed_len D))"
    and r: "r = uncompress_hdr_hc06 ctxs sender receiver frag_len datalen (pre @ compressed ctxs sender receiver D @ rest)
      (ip_hdr_of b) (udp_hdr_of b) hl 0"
  shows "put_hdrs (r_ip r) (r_udp r) b = memcpy_at b 0 (take (uncompressed_len D) D)"
    "r_hdr_len r = hl + of_nat (length (compressed ctxs sender receiver D))" "r_uncomp_hdr_len r = of_nat (uncompressed_len D)"
proof -
  let ?c = "compressed ctxs sender receiver D" and ?n = "uncompressed_len D"
  note hw = datagram_hdr_wf [OF dg]
  note cl = compress_length [OF hw(1) compressed_eq [of ctxs sender receiver]]
  have n: "?n \<le> length D" "length D \<le> 240" "?n = 40 \<or> ?n = 48"
    using dg by (auto simp: datagram_wf_def uncompressed_len_def)
  let ?L = "decoded_len frag_len datalen (hl + of_nat (length ?c)) (of_nat ?n)"
  have L: "?L = of_nat (length D - 40)"
  proof (cases "frag_len = of_nat (length D)")
    case True
    have "length D \<noteq> 0" using hw(2) by auto
    then have "\<not> 65536 dvd length D" using n(2) by (auto dest: dvd_imp_le)
    then have "(of_nat (length D) :: u16) \<noteq> 0" by (simp add: word_of_nat_eq_0_iff)
    then show ?thesis using True hw(2) by (simp add: decoded_len_def of_nat_diff)
  next
    case False
    have "ucast (hl + of_nat (length ?c)) = (of_nat (length pre + length ?c) :: u16)"
      using pre cl by (simp add: word_unat_eq_iff unsigned_of_nat take_bit_nat_eq_self unat_word_ariths unsigned_ucast_eq)
    moreover have "ucast (of_nat ?n :: u8) = (of_nat ?n :: u16)"
      using n(3) by auto
    ultimately show ?thesis using False len n hw(2) by (auto simp: decoded_len_def of_nat_diff)
  qed
  have r': "r = \<lparr>r_ip = ip_hdr_of D, r_udp = (if proto (ip_hdr_of D) = UIP_PROTO_UDP then udp_hdr_of D else udp_hdr_of b),
      r_hdr_len = hl + of_nat (length ?c), r_uncomp_hdr_len = of_nat ?n, r_ptr = rest\<rparr>"
  proof -
    have s: "src_restored ctxs (ip_hdr_of D) = srcipaddr (ip_hdr_of D)"
      using src_restored_iff ip_hdr_of_lengths(1) [OF hw(2)] dg by (simp add: datagram_wf_def)
    have i: "(ip_hdr_of D)\<lparr>srcipaddr := srcipaddr (ip_hdr_of D), ip_len := ip_len (ip_hdr_of D)\<rparr> = ip_hdr_of D" by simp
    have u: "proto (ip_hdr_of D) = UIP_PROTO_UDP \<Longrightarrow> (udp_hdr_of D)\<lparr>udplen := le_u16 (ip_len (ip_hdr_of D))\<rparr> = udp_hdr_of D"
      using dg by (simp add: datagram_wf_def)
    have l: "len_bytes ?L = ip_len (ip_hdr_of D)" using dg L by (simp add: datagram_wf_def)
    show ?thesis
      using uncompress_compress [where ?h0.0 = "ip_hdr_of b" and ?u0.0 = "udp_hdr_of b" and frag_len = frag_len
          and datalen = datalen and rest = rest, OF ctx hw(1) _ _ compressed_eq pre, of sender receiver]
        ip_hdr_of_lengths [of b] b u
      by (simp add: r Let_def l s)
  qed
  then show "r_hdr_len r = hl + of_nat (length ?c)" "r_uncomp_hdr_len r = of_nat ?n" by simp_all
  show "put_hdrs (r_ip r) (r_udp r) b = memcpy_at b 0 (take ?n D)"
  proof (cases "proto (ip_hdr_of D) = UIP_PROTO_UDP")
    case True
    then show ?thesis using r' n hdr_bytes_of [of D] by (simp add: put_hdrs_def uncompressed_len_def)
  next
    case False
    have "memcpy_at b 0 (take 40 D @ take 8 (drop 40 b)) = memcpy_at b 0 (take 40 D)"
      using b hw(2) drop_split [of 40 b 8] by (simp add: memcpy_at_def)
    then show ?thesis
      using False r' ip_hdr_bytes_of [OF hw(2)] udp_hdr_bytes_of [of b] b by (simp add: put_hdrs_def uncompressed_len_def)
  qed
qed


section \<open>Frames at the receiver\<close>

definition carries :: "packetbuf \<Rightarrow> u8 list \<Rightarrow> linkaddr \<Rightarrow> linkaddr \<Rightarrow> bool" where
  "carries p bs sender receiver \<longleftrightarrow> pb_wf p \<and> pb_ref p = None \<and> data_bytes p = bs \<and>
     packetbuf_addr ADDR_SENDER p = sender \<and> packetbuf_addr ADDR_RECEIVER p = receiver"

lemma carries_bytes:
  assumes "carries p bs sender receiver"
  obtains rest where "drop (packetbuf_dataptr p) (pb_mem p) = bs @ rest" "unat (packetbuf_datalen p) = length bs" "length bs \<le> 128"
proof -
  have "take (unat (pb_buflen p)) (drop (packetbuf_dataptr p) (pb_mem p)) = bs"
    using assms by (auto simp: carries_def data_bytes_def packetbuf_dataptr_def add.commute)
  moreover have "length bs = unat (pb_buflen p)" "length bs \<le> 128"
    using assms length_data_bytes [of p] by (auto simp: carries_def pb_wf_def)
  ultimately show ?thesis
    using that [of "drop (unat (pb_buflen p)) (drop (packetbuf_dataptr p) (pb_mem p))"]
    by (metis append_take_drop_id packetbuf_datalen_def)
qed

definition delivered :: "call list \<Rightarrow> u8 list list" where
  "delivered cs = List.map_filter (\<lambda>c. case c of Tcpip_input b \<Rightarrow> Some b | _ \<Rightarrow> None) cs"

lemma delivered_append [simp]: "delivered (xs @ ys) = delivered xs @ delivered ys"
  by (simp add: delivered_def List.map_filter_def)

lemma delivered_Cons [simp]:
  "delivered [] = []" "delivered (Tcpip_input b # cs) = b # delivered cs" "delivered (Sniffer_input # cs) = delivered cs"
  "delivered (Llsec_send p # cs) = delivered cs" "delivered (Link_neighbor_callback st n # cs) = delivered cs"
  "delivered (Sniffer_output st # cs) = delivered cs"
  by (simp_all add: delivered_def List.map_filter_def)

lemma GET16_be:
  "GET16 (be_bytes v @ xs) 0 = v" "GET16 (be_bytes u @ be_bytes v @ xs) 2 = v" 
proof -
  have "push_bit 8 (ucast (ucast (drop_bit 8 v) :: u8)) OR ucast (ucast v :: u8) = v" for v :: u16
    by (rule bit_word_eqI) (auto simp: bit_simps)
  then show "GET16 (be_bytes v @ xs) 0 = v" "GET16 (be_bytes u @ be_bytes v @ xs) 2 = v" 
    by (simp_all add: GET16_def be_bytes_def)
qed

lemma length_be_bytes [simp]: "length (be_bytes v) = 2" by (simp add: be_bytes_def)

lemma size_field:
  assumes "unat (w :: u16) < 2048"
  shows "(0xc000 OR w) AND 0xf800 = 0xc000" "(0xe000 OR w) AND 0xf800 = 0xe000"
    "(0xc000 OR w) AND 0x07ff = w" "(0xe000 OR w) AND 0x07ff = w"
proof -
  have w: "w AND 0x07ff = w" using and_mask_small [of "0x07ff :: u16" 11 w] assms by simp
  then have "w AND 0xf800 = (w AND 0x07ff) AND 0xf800" by simp
  also have "\<dots> = 0" by (simp add: and.assoc)
  finally have z: "w AND 0xf800 = 0" .
  show "(0xc000 OR w) AND 0xf800 = 0xc000" "(0xe000 OR w) AND 0xf800 = 0xe000"
    "(0xc000 OR w) AND 0x07ff = w" "(0xe000 OR w) AND 0x07ff = w"
    using w z by (simp_all add: bit.conj_disj_distrib2)
qed

lemma dispatch_eq: "drop_bit 8 (GET16 pb 0 AND 0xf800) = (ucast (pb ! 0 AND 0xf8) :: u16)"
proof -
  have m: "(0xf800 :: u16) = push_bit 8 (ucast (0xf8 :: u8))" by simp
  show ?thesis unfolding GET16_def m
    by (rule bit_word_eqI) (auto simp: bit_simps)
qed

lemma compressed_dispatch:
  assumes "40 \<le> length D"
  shows "compressed ctxs lladdr dest D ! 0 AND 0xe0 = 0x60"
proof -
  let ?h = "ip_hdr_of D"
  obtain s1 s2 ss where s: "src_mode ctxs lladdr ?h = (s1, s2, ss)" by (cases "src_mode ctxs lladdr ?h")
  obtain d1 d2 ds where d: "dest_mode ctxs dest ?h = (d1, d2, ds)" by (cases "dest_mode ctxs dest ?h")
  have "compressed ctxs lladdr dest D ! 0 = 0x60 OR tf_bits ?h OR nh_bits ?h OR ttl_bits ?h"
    unfolding compressed_def compress_wire [OF s d] by simp
  then show ?thesis by (simp add: tf_bits_def nh_bits_def ttl_bits_def)
qed

text \<open>A reassembly of \<open>D\<close> with the first \<open>pos\<close> bytes in place.\<close>

definition reassembling :: "'m sicslowpan \<Rightarrow> u8 list \<Rightarrow> u16 \<Rightarrow> linkaddr \<Rightarrow> clock_time \<Rightarrow> nat \<Rightarrow> bool" where
  "reassembling s D tag sender t0 pos \<longleftrightarrow>
     processed_ip_in_len s = of_nat pos \<and> sicslowpan_len s = of_nat (length D) \<and> reass_tag s = tag \<and> frag_sender s = sender \<and>
     t_start (reass_timer s) = t0 \<and> t_interval (reass_timer s) = 384 \<and>
     length (sicslowpan_buf s) = UIP_BUFSIZE \<and> length (uip_buf s) = UIP_BUFSIZE \<and>
     take pos (sicslowpan_buf s) = take pos D \<and> 0 < pos \<and> pos < length D"

lemma take_memcpy:
  assumes "length b = 240" "pos + k \<le> 240" "take pos b = take pos D" "pos + k \<le> length D"
  shows "take (pos + k) (memcpy_at b pos (take k (drop pos D))) = take (pos + k) D"
proof -
  have "take (pos + k) (memcpy_at b pos (take k (drop pos D))) = take pos D @ take k (drop pos D)"
    using assms by (simp add: memcpy_at_def)
  then show ?thesis by (simp add: take_add)
qed

lemma of_nat_u16: "k < 65536 \<Longrightarrow> unat (of_nat k :: u16) = k"
  by (simp add: unat_of_nat)

lemma deliver_complete:
  assumes "processed_ip_in_len s = 0 \<or> processed_ip_in_len s = sicslowpan_len s"
    "sicslowpan_len s = of_nat (length D)" "length D \<le> 240" "length (sicslowpan_buf s) = 240" "length (uip_buf s) = 240"
    "take (length D) (sicslowpan_buf s) = D"
  shows "delivered (trace (deliver s)) = delivered (trace s) @ [D]"
    "take (unat (uip_len (deliver s))) (uip_buf (deliver s)) = D" "unat (uip_len (deliver s)) = length D"
proof -
  have u: "unat (sicslowpan_len s) = length D" using assms(2,3) of_nat_u16 [of "length D"] by simp
  then have "take (unat (sicslowpan_len s)) (memcpy_at (uip_buf s) 0 (take (unat (sicslowpan_len s)) (sicslowpan_buf s))) = D"
    using assms by (simp add: memcpy_at_def)
  then show "delivered (trace (deliver s)) = delivered (trace s) @ [D]"
    "take (unat (uip_len (deliver s))) (uip_buf (deliver s)) = D" "unat (uip_len (deliver s)) = length D"
    using assms(1) u by (auto simp: deliver_def Let_def call_def set_packet_attrs_def)
qed


lemma input_unfold:
  assumes pb: "drop (packetbuf_dataptr (pbuf s)) (pb_mem (pbuf s)) = pb"
    and s1: "s1 = (if timer_expired now (reass_timer s) then drop_reassembly (s\<lparr>last_rssi := packetbuf_attr ATTR_RSSI (pbuf s)\<rparr>)
      else s\<lparr>last_rssi := packetbuf_attr ATTR_RSSI (pbuf s)\<rparr>)"
    and f: "f = parse_fragment pb (packetbuf_datalen (pbuf s)) (processed_ip_in_len s1)"
    and st: "reassembly_step now (packetbuf_addr ADDR_SENDER (pbuf s)) f s1 = (True, s2)"
    and h: "input_headers pb f s2 = Some (s3, hl, uh)"
    and len: "unat (packetbuf_datalen (pbuf s)) = unat hl + k" "unat uh + 8 * unat (frag_offset f) + k \<le> UIP_BUFSIZE"
  shows "sicslowpan_input now s = deliver (count_payload f uh (of_nat k)
    (s3\<lparr>sicslowpan_buf := memcpy_at (sicslowpan_buf s3) (unat uh + 8 * unat (frag_offset f)) (take k (drop (unat hl) pb))\<rparr>))"
proof -
  let ?d = "packetbuf_datalen (pbuf s)" and ?s0 = "s\<lparr>last_rssi := packetbuf_attr ATTR_RSSI (pbuf s)\<rparr>"
  have s1': "(if timer_expired now (reass_timer ?s0) then drop_reassembly ?s0 else ?s0) = s1" by (simp add: s1)
  have hl: "unat (ucast hl :: u16) = unat hl" by simp
  have ge: "\<not> ?d < ucast hl" using len(1) hl by (simp add: word_less_nat_alt)
  have k: "?d - ucast hl = of_nat k"
  proof -
    have "?d = of_nat (unat ?d)" by simp
    also have "\<dots> = of_nat (unat hl) + of_nat k" using len(1) by simp
    also have "(of_nat (unat hl) :: u16) = ucast hl" by (simp add: word_unat_eq_iff of_nat_u16 unat_less_u8 order_less_trans [OF unat_less_u8])
    finally show ?thesis by simp
  qed
  have "k < 65536" using len(1) unat_less_u16 [of ?d] by linarith
  then have uk: "unat (of_nat k :: u16) = k" by (rule of_nat_u16)
  have off: "push_bit 3 (unat (frag_offset f)) = 8 * unat (frag_offset f)" by (simp add: push_bit_eq_mult)
  have "sicslowpan_input now s = (case (True, s2) of (False, s) \<Rightarrow> s | (True, s) \<Rightarrow>
      (case input_headers pb f s of None \<Rightarrow> s | Some (s, hdr_len, uncomp_hdr_len) \<Rightarrow>
         if ?d < ucast hdr_len then s
         else (let payload_len = ?d - ucast hdr_len; off = push_bit 3 (unat (frag_offset f));
                   req_size = unat uncomp_hdr_len + off + unat payload_len
               in if req_size > UIP_BUFSIZE then s
                  else deliver (count_payload f uncomp_hdr_len payload_len
                     (s\<lparr>sicslowpan_buf := memcpy_at (sicslowpan_buf s) (unat uncomp_hdr_len + off)
                       (take (unat payload_len) (drop (unat hdr_len) pb))\<rparr>)))))"
    unfolding sicslowpan_input_def Let_def pb s1' f [symmetric] st by (rule refl)
  then show ?thesis using h ge len(2) by (simp add: Let_def k uk off)
qed

lemma input_first:
  fixes s :: "'m sicslowpan"
  assumes ctx: "ctxs_wf ctxs" "addr_contexts s = ctxs" and dg: "datagram_wf ctxs D"
    and s: "processed_ip_in_len s = 0" "length (sicslowpan_buf s) = UIP_BUFSIZE" "length (uip_buf s) = UIP_BUFSIZE"
    and p: "carries (pbuf s) (be_bytes (0xc000 OR of_nat (length D)) @ be_bytes tag @ compressed ctxs sender receiver D
        @ take k (drop (uncompressed_len D) D)) sender receiver"
    and k: "uncompressed_len D + k < length D"
  shows "reassembling (sicslowpan_input now s) D tag sender now (uncompressed_len D + k)"
    "trace (sicslowpan_input now s) = trace s" "addr_contexts (sicslowpan_input now s) = ctxs"
proof -
  let ?c = "compressed ctxs sender receiver D" and ?n = "uncompressed_len D" and ?N = "of_nat (length D) :: u16"
  define pay where "pay = take k (drop ?n D)"
  obtain rest where pb: "drop (packetbuf_dataptr (pbuf s)) (pb_mem (pbuf s)) =
      (be_bytes (0xc000 OR ?N) @ be_bytes tag @ ?c @ pay) @ rest"
    and dl: "unat (packetbuf_datalen (pbuf s)) = 4 + length ?c + length pay" "4 + length ?c + length pay \<le> 128"
    by (rule carries_bytes [OF p]) (simp add: pay_def)
  let ?pb = "be_bytes (0xc000 OR ?N) @ be_bytes tag @ ?c @ pay @ rest"
  have n: "?n = 40 \<or> ?n = 48" "?n \<le> length D" "length D \<le> 240"
    using dg by (auto simp: datagram_wf_def uncompressed_len_def)
  have lp: "length pay = k" using k by (simp add: pay_def)
  have uN: "unat ?N = length D" using n(3) by (simp add: of_nat_u16)
  note sz = size_field [of ?N, unfolded uN]
  have N0: "?N \<noteq> 0" using uN n by (metis unat_0 not_numeral_le_zero)
  define s1 where "s1 = (if timer_expired now (reass_timer s) then drop_reassembly (s\<lparr>last_rssi := packetbuf_attr ATTR_RSSI (pbuf s)\<rparr>)
      else s\<lparr>last_rssi := packetbuf_attr ATTR_RSSI (pbuf s)\<rparr>)"
  have s1: "processed_ip_in_len s1 = 0" "sicslowpan_buf s1 = sicslowpan_buf s" "uip_buf s1 = uip_buf s" "pbuf s1 = pbuf s"
    "trace s1 = trace s" "addr_contexts s1 = ctxs"
    using s(1) ctx(2) by (simp_all add: s1_def drop_reassembly_def)
  define f where "f = parse_fragment ?pb (packetbuf_datalen (pbuf s)) (processed_ip_in_len s1)"
  have f: "f = \<lparr>frag_size = ?N, frag_offset = 0, frag_tag = tag, frag_hdr_len = 4, is_fragment = True, first_fragment = True, last_fragment = False\<rparr>"
    unfolding f_def parse_fragment_def Let_def GET16_be(1) GET16_be(2) using sz n(3) by simp
  define s2 where "s2 = s1\<lparr>sicslowpan_len := ?N, reass_tag := tag, reass_timer := timer_set now 384 (reass_timer s1), frag_sender := sender\<rparr>"
  have sd: "packetbuf_addr ADDR_SENDER (pbuf s) = sender" "packetbuf_addr ADDR_RECEIVER (pbuf s) = receiver"
    using p by (simp_all add: carries_def)
  have st: "reassembly_step now (packetbuf_addr ADDR_SENDER (pbuf s)) f s1 = (True, s2)"
    using s1(1) N0 uN n(3) unfolding f s2_def sd
    by (simp add: reassembly_step_def word_gt_0)
  define r where "r = uncompress_hdr_hc06 ctxs sender receiver ?N (packetbuf_datalen (pbuf s)) ?pb
     (ip_hdr_of (sicslowpan_buf s)) (udp_hdr_of (sicslowpan_buf s)) 4 0"
  have r: "put_hdrs (r_ip r) (r_udp r) (sicslowpan_buf s) = memcpy_at (sicslowpan_buf s) 0 (take ?n D)"
    "r_hdr_len r = 4 + of_nat (length ?c)" "r_uncomp_hdr_len r = of_nat ?n"
    using headers_restored [OF ctx(1) dg s(2), of "be_bytes (0xc000 OR ?N) @ be_bytes tag" 4 ?N _ sender receiver r "pay @ rest"]
    unfolding r_def by simp_all
  let ?s3 = "s2\<lparr>sicslowpan_buf := memcpy_at (sicslowpan_buf s) 0 (take ?n D)\<rparr>"
  have d: "?pb ! 4 = ?c ! 0"
  proof -
    have "0 < length ?c" using compress_length(1) [OF datagram_hdr_wf(1) [OF dg] compressed_eq [of ctxs sender receiver]]
      by (cases ?c) auto
    then show ?thesis by (simp add: nth_append be_bytes_def)
  qed
  have h: "input_headers ?pb f s2 = Some (?s3, r_hdr_len r, r_uncomp_hdr_len r)"
    using compressed_dispatch [OF datagram_hdr_wf(2) [OF dg], of ctxs sender receiver] d
    by (simp add: input_headers_def Let_def f s2_def s1 sd r_def [symmetric] r(1))
  have cl: "length ?c \<le> 48" using compress_length(2) [OF datagram_hdr_wf(1) [OF dg] compressed_eq] .
  have uhl: "unat (r_hdr_len r) = 4 + length ?c" using cl by (simp add: r(2) unat_word_ariths unat_of_nat)
  have uuh: "unat (r_uncomp_hdr_len r) = ?n" "ucast (r_uncomp_hdr_len r) = (of_nat ?n :: u16)" using n(1) by (auto simp: r(3))
  have dr: "take k (drop (unat (r_hdr_len r)) ?pb) = pay" using lp unfolding uhl by simp
  let ?b = "memcpy_at (memcpy_at (sicslowpan_buf s) 0 (take ?n D)) ?n pay"
  have b0: "length (memcpy_at (sicslowpan_buf s) 0 (take ?n D)) = 240" using s(2) n by simp
  have len3: "length ?b = 240" using b0 lp k n(3) by simp
  have "take ?n (memcpy_at (sicslowpan_buf s) 0 (take ?n D)) = take ?n D" using n(2) by (simp add: memcpy_at_def)
  then have tk: "take (?n + k) ?b = take (?n + k) D"
    using take_memcpy [OF b0, of ?n k D] k n(3) by (simp add: pay_def)
  have n0: "0 < ?n" using n(1) by auto
  let ?s4 = "?s3\<lparr>sicslowpan_buf := ?b, processed_ip_in_len := of_nat (?n + k)\<rparr>"
  have "sicslowpan_input now s = deliver (count_payload f (r_uncomp_hdr_len r) (of_nat k)
    (?s3\<lparr>sicslowpan_buf := memcpy_at (sicslowpan_buf ?s3) (unat (r_uncomp_hdr_len r) + 8 * unat (frag_offset f))
       (take k (drop (unat (r_hdr_len r)) ?pb))\<rparr>))"
    by (rule input_unfold [OF _ s1_def f_def st h]) (use pb dl lp uhl uuh k n in \<open>simp_all add: f\<close>)
  also have "\<dots> = deliver ?s4"
    unfolding dr using N0 by (simp add: count_payload_def f uuh word_gt_0 s2_def s1)
  also have "\<dots> = ?s4"
  proof -
    have u: "unat (of_nat (?n + k) :: u16) = ?n + k" by (rule of_nat_u16) (use k n in simp)
    then have "(of_nat (?n + k) :: u16) \<noteq> 0" "(of_nat (?n + k) :: u16) \<noteq> ?N"
      using n0 k uN by (auto simp del: of_nat_add)
    then show ?thesis by (simp add: deliver_def s2_def del: of_nat_add)
  qed
  finally have res: "sicslowpan_input now s = ?s4" .
  show "reassembling (sicslowpan_input now s) D tag sender now (?n + k)"
    "trace (sicslowpan_input now s) = trace s" "addr_contexts (sicslowpan_input now s) = ctxs"
    unfolding res by (simp_all add: s2_def s1 s reassembling_def timer_set_def len3 tk k n0)
qed


lemma not_expired:
  assumes "t_start t = t0" "t_interval t = 384" "unat (now - t0) < 384"
  shows "\<not> timer_expired now t"
proof -
  have "unat (now - t0 + 1) = unat (now - t0) + 1" using assms(3) by (simp add: unat_word_ariths)
  then show ?thesis using assms by (simp add: timer_expired_def word_less_nat_alt)
qed

lemma input_next:
  fixes s :: "'m sicslowpan"
  assumes r: "reassembling s D tag sender t0 pos" and t: "unat (now - t0) < 384"
    and D: "length D \<le> UIP_BUFSIZE" and pos: "pos mod 8 = 0" and k: "0 < k" "pos + k \<le> length D"
    and p: "carries (pbuf s) (be_bytes (0xe000 OR of_nat (length D)) @ be_bytes tag @ [of_nat (pos div 8)] @ take k (drop pos D)) sender receiver"
  shows "addr_contexts (sicslowpan_input now s) = addr_contexts s"
    "if pos + k = length D then delivered (trace (sicslowpan_input now s)) = delivered (trace s) @ [D]
     else reassembling (sicslowpan_input now s) D tag sender t0 (pos + k) \<and> trace (sicslowpan_input now s) = trace s"
proof -
  let ?N = "of_nat (length D) :: u16" and ?h = "be_bytes (0xe000 OR of_nat (length D)) @ be_bytes tag @ [of_nat (pos div 8)]"
  define pay where "pay = take k (drop pos D)"
  obtain rest where pb: "drop (packetbuf_dataptr (pbuf s)) (pb_mem (pbuf s)) = (?h @ pay) @ rest"
    and dl: "unat (packetbuf_datalen (pbuf s)) = 5 + length pay" "5 + length pay \<le> 128"
    by (rule carries_bytes [OF p]) (simp add: pay_def)
  let ?pb = "be_bytes (0xe000 OR of_nat (length D)) @ be_bytes tag @ of_nat (pos div 8) # pay @ rest"
  have lp: "length pay = k" using k by (simp add: pay_def)
  have uN: "unat ?N = length D" using D by (simp add: of_nat_u16)
  note sz = size_field [of ?N, unfolded uN]
  have N0: "?N \<noteq> 0" using uN k by auto
  have up: "unat (of_nat pos :: u16) = pos" using k D by (intro of_nat_u16) simp
  have upk: "unat (of_nat (pos + k) :: u16) = pos + k" using k D by (intro of_nat_u16) simp
  define s1 where "s1 = s\<lparr>last_rssi := packetbuf_attr ATTR_RSSI (pbuf s)\<rparr>"
  have s1: "s1 = (if timer_expired now (reass_timer s) then drop_reassembly (s\<lparr>last_rssi := packetbuf_attr ATTR_RSSI (pbuf s)\<rparr>)
      else s\<lparr>last_rssi := packetbuf_attr ATTR_RSSI (pbuf s)\<rparr>)"
    using not_expired [of "reass_timer s", OF _ _ t] r by (simp add: s1_def reassembling_def)
  have s1p: "processed_ip_in_len s1 = of_nat pos" "sicslowpan_len s1 = ?N" "reass_tag s1 = tag" "frag_sender s1 = sender"
    using r by (simp_all add: s1_def reassembling_def)
  define f where "f = parse_fragment ?pb (packetbuf_datalen (pbuf s)) (processed_ip_in_len s1)"
  have dlw: "packetbuf_datalen (pbuf s) = of_nat (5 + k)" 
    using dl lp of_nat_u16 [of "5 + k"] by (simp add: word_unat_eq_iff del: of_nat_add)
  have "(processed_ip_in_len s1 + packetbuf_datalen (pbuf s) - 5 \<ge> ?N) \<longleftrightarrow> pos + k = length D"
    unfolding s1p dlw using upk uN k(2) by (simp add: word_le_nat_alt del: of_nat_add) (auto simp: algebra_simps)
  then have f: "f = \<lparr>frag_size = ?N, frag_offset = of_nat (pos div 8), frag_tag = tag, frag_hdr_len = 5,
      is_fragment = True, first_fragment = False, last_fragment = (pos + k = length D)\<rparr>"
    unfolding f_def parse_fragment_def Let_def GET16_be(1) GET16_be(2) using sz D by (simp add: be_bytes_def)
  have sd: "packetbuf_addr ADDR_SENDER (pbuf s) = sender" using p by (simp add: carries_def)
  have pos0: "0 < pos" using r by (simp add: reassembling_def)
  then have p0: "(of_nat pos :: u16) \<noteq> 0" using up by auto
  have st: "reassembly_step now (packetbuf_addr ADDR_SENDER (pbuf s)) f s1 = (True, s1)"
    unfolding f sd by (simp add: reassembly_step_def s1p p0 word_gt_0 N0)
  have h: "input_headers ?pb f s1 = Some (s1, 5, 0)" by (simp add: input_headers_def f)
  have off: "8 * unat (of_nat (pos div 8) :: u8) = pos"
  proof -
    have "8 * (pos div 8) = pos" using pos by presburger
    moreover have "pos div 8 < 256" using k D by simp
    ultimately show ?thesis by (simp add: unat_of_nat)
  qed
  define b where "b = memcpy_at (sicslowpan_buf s) pos pay"
  have b: "length b = 240" "take (pos + k) b = take (pos + k) D"
    using r k D lp take_memcpy [of "sicslowpan_buf s" pos k D] by (simp_all add: b_def reassembling_def pay_def)
  let ?s2 = "s1\<lparr>sicslowpan_buf := b\<rparr>"
  have "sicslowpan_input now s = deliver (count_payload f 0 (of_nat k)
    (s1\<lparr>sicslowpan_buf := memcpy_at (sicslowpan_buf s1) (unat (0 :: u8) + 8 * unat (frag_offset f)) (take k (drop (unat (5 :: u8)) ?pb))\<rparr>))"
    by (rule input_unfold [OF _ s1 f_def st h]) (use pb dl lp off k D in \<open>simp_all add: f\<close>)
  also have "take k (drop (unat (5 :: u8)) ?pb) = pay" using lp by simp
  also have "memcpy_at (sicslowpan_buf s1) (unat (0 :: u8) + 8 * unat (frag_offset f)) pay = b"
    using off by (simp add: f b_def s1_def)
  also have "count_payload f 0 (of_nat k) ?s2 = ?s2\<lparr>processed_ip_in_len := of_nat (pos + k)\<rparr>"
    using N0 by (cases "pos + k = length D") (simp_all add: count_payload_def f word_gt_0 Let_def s1p(1) of_nat_add [symmetric] del: of_nat_add)
  finally have res: "sicslowpan_input now s = deliver (?s2\<lparr>processed_ip_in_len := of_nat (pos + k)\<rparr>)" .
  show "addr_contexts (sicslowpan_input now s) = addr_contexts s"
    unfolding res by (simp add: deliver_def Let_def s1_def call_def set_packet_attrs_def)
  show "if pos + k = length D then delivered (trace (sicslowpan_input now s)) = delivered (trace s) @ [D]
     else reassembling (sicslowpan_input now s) D tag sender t0 (pos + k) \<and> trace (sicslowpan_input now s) = trace s"
  proof (cases "pos + k = length D")
    case True
    then show ?thesis
      using deliver_complete(1) [of "?s2\<lparr>processed_ip_in_len := of_nat (pos + k)\<rparr>" D] r b D s1p(2)
      unfolding res by (simp add: reassembling_def s1_def del: of_nat_add)
  next
    case False
    have "(of_nat (pos + k) :: u16) \<noteq> 0" "(of_nat (pos + k) :: u16) \<noteq> ?N"
      using upk uN k False by (auto simp del: of_nat_add)
    then have "deliver (?s2\<lparr>processed_ip_in_len := of_nat (pos + k)\<rparr>) = ?s2\<lparr>processed_ip_in_len := of_nat (pos + k)\<rparr>"
      using s1p(2) by (simp add: deliver_def del: of_nat_add)
    then show ?thesis using r b k False unfolding res by (simp add: reassembling_def s1_def)
  qed
qed


lemma input_whole:
  fixes s :: "'m sicslowpan"
  assumes ctx: "ctxs_wf ctxs" "addr_contexts s = ctxs" and dg: "datagram_wf ctxs D"
    and s: "length (sicslowpan_buf s) = UIP_BUFSIZE" "length (uip_buf s) = UIP_BUFSIZE"
    and p: "carries (pbuf s) (compressed ctxs sender receiver D @ drop (uncompressed_len D) D) sender receiver"
  shows "delivered (trace (sicslowpan_input now s)) = delivered (trace s) @ [D]"
proof -
  let ?c = "compressed ctxs sender receiver D" and ?n = "uncompressed_len D" and ?N = "of_nat (length D) :: u16"
  define k where "k = length D - ?n"
  define pay where "pay = drop ?n D"
  obtain rest where pb: "drop (packetbuf_dataptr (pbuf s)) (pb_mem (pbuf s)) = (?c @ pay) @ rest"
    and dl: "unat (packetbuf_datalen (pbuf s)) = length ?c + length pay" "length ?c + length pay \<le> 128"
    by (rule carries_bytes [OF p]) (simp add: pay_def)
  let ?pb = "?c @ pay @ rest"
  have n: "?n = 40 \<or> ?n = 48" "?n \<le> length D" "length D \<le> 240"
    using dg by (auto simp: datagram_wf_def uncompressed_len_def)
  have lp: "length pay = k" by (simp add: pay_def k_def)
  define s1 where "s1 = (if timer_expired now (reass_timer s) then drop_reassembly (s\<lparr>last_rssi := packetbuf_attr ATTR_RSSI (pbuf s)\<rparr>)
      else s\<lparr>last_rssi := packetbuf_attr ATTR_RSSI (pbuf s)\<rparr>)"
  have s1: "sicslowpan_buf s1 = sicslowpan_buf s" "uip_buf s1 = uip_buf s" "pbuf s1 = pbuf s"
    "trace s1 = trace s" "addr_contexts s1 = ctxs"
    using ctx(2) by (simp_all add: s1_def drop_reassembly_def)
  have d0: "?pb ! 0 = ?c ! 0"
    using compress_length(1) [OF datagram_hdr_wf(1) [OF dg] compressed_eq [of ctxs sender receiver]] by (cases ?c) auto
  have c0: "?c ! 0 AND 0xe0 = 0x60" using compressed_dispatch [OF datagram_hdr_wf(2) [OF dg]] .
  have nf: "drop_bit 8 (GET16 ?pb 0 AND 0xf800) \<noteq> 0xc0 \<and> drop_bit 8 (GET16 ?pb 0 AND 0xf800) \<noteq> 0xe0"
  proof -
    have "(?c ! 0 AND 0xf8) AND 0xe0 = 0x60" using c0 by (simp add: and.assoc)
    then have "?c ! 0 AND 0xf8 \<noteq> 0xc0" "?c ! 0 AND 0xf8 \<noteq> 0xe0" by auto
    moreover have "ucast x = (ucast y :: u16) \<longleftrightarrow> x = y" for x y :: u8
      by (metis word_unat_eq_iff unat_ucast_u8_u16)
    note this [of _ "0xc0", simplified] this [of _ "0xe0", simplified]
    ultimately show ?thesis unfolding dispatch_eq d0 by simp
  qed
  define f where "f = parse_fragment ?pb (packetbuf_datalen (pbuf s)) (processed_ip_in_len s1)"
  have f: "f = \<lparr>frag_size = 0, frag_offset = 0, frag_tag = 0, frag_hdr_len = 0, is_fragment = False, first_fragment = False, last_fragment = False\<rparr>"
    unfolding f_def parse_fragment_def Let_def using nf by simp
  define s2 where "s2 = drop_reassembly s1"
  have st: "reassembly_step now (packetbuf_addr ADDR_SENDER (pbuf s)) f s1 = (True, s2)"
    by (simp add: reassembly_step_def f s2_def drop_reassembly_def)
  have sd: "packetbuf_addr ADDR_SENDER (pbuf s) = sender" "packetbuf_addr ADDR_RECEIVER (pbuf s) = receiver"
    using p by (simp_all add: carries_def)
  define r where "r = uncompress_hdr_hc06 ctxs sender receiver 0 (packetbuf_datalen (pbuf s)) ?pb
     (ip_hdr_of (sicslowpan_buf s)) (udp_hdr_of (sicslowpan_buf s)) 0 0"
  have dlw: "packetbuf_datalen (pbuf s) = of_nat (length ?c + k)"
    using dl lp of_nat_u16 [of "length ?c + k"] by (simp add: word_unat_eq_iff del: of_nat_add)
  have r: "put_hdrs (r_ip r) (r_udp r) (sicslowpan_buf s) = memcpy_at (sicslowpan_buf s) 0 (take ?n D)"
    "r_hdr_len r = of_nat (length ?c)" "r_uncomp_hdr_len r = of_nat ?n"
    using headers_restored [OF ctx(1) dg s(1), of "[]" 0 0 "packetbuf_datalen (pbuf s)" sender receiver r "pay @ rest"]
    unfolding r_def dlw by (simp_all add: k_def)
  let ?b1 = "memcpy_at (sicslowpan_buf s) 0 (take ?n D)"
  let ?s3 = "s2\<lparr>sicslowpan_buf := ?b1\<rparr>"
  have h: "input_headers ?pb f s2 = Some (?s3, r_hdr_len r, r_uncomp_hdr_len r)"
    using c0 d0 by (simp add: input_headers_def Let_def f s2_def drop_reassembly_def s1 sd r_def [symmetric] r(1))
  have cl: "length ?c \<le> 48" using compress_length(2) [OF datagram_hdr_wf(1) [OF dg] compressed_eq] .
  have uhl: "unat (r_hdr_len r) = length ?c" using cl by (simp add: r(2) unat_of_nat)
  have uuh: "unat (r_uncomp_hdr_len r) = ?n" "ucast (r_uncomp_hdr_len r) = (of_nat ?n :: u16)" using n(1) by (auto simp: r(3))
  have dr: "take k (drop (unat (r_hdr_len r)) ?pb) = pay" using lp unfolding uhl by simp
  let ?b = "memcpy_at ?b1 ?n pay"
  have b0: "length ?b1 = 240" using s(1) n by simp
  have len3: "length ?b = 240" using b0 lp k_def n by simp
  have "take ?n ?b1 = take ?n D" using n(2) by (simp add: memcpy_at_def)
  then have tk: "take (length D) ?b = D"
    using take_memcpy [OF b0, of ?n k D] k_def n by (simp add: pay_def)
  have N: "of_nat k + of_nat ?n = ?N" using n(2) by (simp add: k_def of_nat_add [symmetric] del: of_nat_add)
  have "sicslowpan_input now s = deliver (count_payload f (r_uncomp_hdr_len r) (of_nat k)
    (?s3\<lparr>sicslowpan_buf := memcpy_at (sicslowpan_buf ?s3) (unat (r_uncomp_hdr_len r) + 8 * unat (frag_offset f))
       (take k (drop (unat (r_hdr_len r)) ?pb))\<rparr>))"
    by (rule input_unfold [OF _ s1_def f_def st h]) (use pb dl lp uhl uuh n k_def in \<open>simp_all add: f\<close>)
  also have "\<dots> = deliver (s2\<lparr>sicslowpan_buf := ?b, sicslowpan_len := ?N\<rparr>)"
    unfolding dr by (simp add: count_payload_def f uuh N)
  finally show ?thesis
    using deliver_complete(1) [of "s2\<lparr>sicslowpan_buf := ?b, sicslowpan_len := ?N\<rparr>" D] n(3) len3 tk s(2)
    by (simp add: s2_def drop_reassembly_def s1)
qed

definition receive :: "(clock_time \<times> packetbuf) list \<Rightarrow> 'm sicslowpan \<Rightarrow> 'm sicslowpan" where
  "receive arrivals s = fold (\<lambda>(now, p) s. sicslowpan_input now (s\<lparr>pbuf := p\<rparr>)) arrivals s"

lemma receive_simps [simp]:
  "receive [] s = s" "receive ((now, p) # as) s = receive as (sicslowpan_input now (s\<lparr>pbuf := p\<rparr>))"
  by (simp_all add: receive_def)

text \<open>The frames arrive in order, all within three seconds of the first one.\<close>

definition arrive :: "(clock_time \<times> packetbuf) list \<Rightarrow> u8 list list \<Rightarrow> linkaddr \<Rightarrow> linkaddr \<Rightarrow> clock_time \<Rightarrow> bool" where
  "arrive as fs sender receiver t0 \<longleftrightarrow>
     list_all2 (\<lambda>(now, p) bs. carries p bs sender receiver \<and> unat (now - t0) < 384) as fs"

lemma receive_following:
  fixes s :: "'m sicslowpan"
  assumes "reassembling s D tag sender t0 pos" "length D \<le> UIP_BUFSIZE" "pos mod 8 = 0" "p mod 8 = 0" "0 < p"
    "arrive as (following_frames tag D p pos) sender receiver t0"
  shows "delivered (trace (receive as s)) = delivered (trace s) @ [D]"
  using assms
proof (induction tag D p pos arbitrary: s as rule: following_frames.induct)
  case (1 tag D p pos)
  have pos: "pos < length D" using "1.prems"(1) by (simp add: reassembling_def)
  let ?k = "min p (length D - pos)"
  have tk: "take p (drop pos D) = take ?k (drop pos D)" by (simp add: min_def)
  obtain now q as' where as: "as = (now, q) # as'"
    and q: "carries q (be_bytes (0xe000 OR of_nat (length D)) @ be_bytes tag @ [of_nat (pos div 8)] @ take ?k (drop pos D)) sender receiver"
    and t: "unat (now - t0) < 384" and rest: "arrive as' (following_frames tag D p (pos + p)) sender receiver t0"
    using "1.prems"(5,6) pos unfolding tk [symmetric]
    by (subst (asm) (2) following_frames.simps) (auto simp: arrive_def list_all2_Cons2)
  have r: "reassembling (s\<lparr>pbuf := q\<rparr>) D tag sender t0 pos" using "1.prems"(1) by (simp add: reassembling_def)
  note step = input_next(2) [OF r t "1.prems"(2,3), of ?k receiver]
  show ?case
  proof (cases "pos + p < length D")
    case True
    then have "?k = p" by simp
    then have "reassembling (sicslowpan_input now (s\<lparr>pbuf := q\<rparr>)) D tag sender t0 (pos + p)"
      "trace (sicslowpan_input now (s\<lparr>pbuf := q\<rparr>)) = trace s"
      using step q "1.prems"(5) True by simp_all
    then show ?thesis
      using "1.IH" [OF _ _ "1.prems"(2) _ "1.prems"(4,5) rest] pos "1.prems"(3,4,5) as by (simp add: mod_add_eq [symmetric])
  next
    case False
    then have k: "pos + ?k = length D" "0 < ?k" using pos "1.prems"(5) by auto
    have "following_frames tag D p (pos + p) = []" using False by (subst following_frames.simps) simp
    then have "as' = []" using rest by (simp add: arrive_def)
    then show ?thesis using step q k as by simp
  qed
qed


lemma receive_frames:
  fixes s :: "'m sicslowpan"
  assumes ctx: "ctxs_wf (addr_contexts s)" and dg: "datagram_wf (addr_contexts s) D" and mp: "60 \<le> mp"
    and s: "processed_ip_in_len s = 0" "length (sicslowpan_buf s) = UIP_BUFSIZE" "length (uip_buf s) = UIP_BUFSIZE"
    and as: "arrive as (frames (addr_contexts s) sender receiver mp tag D) sender receiver (fst (hd as))"
  shows "delivered (trace (receive as s)) = delivered (trace s) @ [D]"
proof -
  let ?ctxs = "addr_contexts s" and ?n = "uncompressed_len D"
  let ?c = "compressed ?ctxs sender receiver D"
  have n: "?n = 40 \<or> ?n = 48" "?n \<le> length D" "length D \<le> 240"
    using dg by (auto simp: datagram_wf_def uncompressed_len_def)
  show ?thesis
  proof (cases "length ?c + (length D - ?n) \<le> mp")
    case True
    then obtain now q where q: "as = [(now, q)]" "carries q (?c @ drop ?n D) sender receiver"
      using as by (auto simp: frames_def Let_def arrive_def list_all2_Cons2)
    then show ?thesis
      using input_whole [of ?ctxs "s\<lparr>pbuf := q\<rparr>" D sender receiver now] ctx dg s by simp
  next
    case False
    let ?p = "(mp - (length ?c + 4)) div 8 * 8" and ?p' = "(mp - 5) div 8 * 8"
    obtain now q as' where q: "as = (now, q) # as'"
      "carries q (be_bytes (0xc000 OR of_nat (length D)) @ be_bytes tag @ ?c @ take ?p (drop ?n D)) sender receiver"
      "arrive as' (following_frames tag D ?p' (?n + ?p)) sender receiver now"
      using as False by (auto simp: frames_def Let_def arrive_def list_all2_Cons2)
    have "length ?c \<le> 48" using compress_length(2) [OF datagram_hdr_wf(1) [OF dg] compressed_eq] .
    moreover have "?p \<le> mp - (length ?c + 4)" by simp
    ultimately have lt: "?n + ?p < length D" using False n(2) mp by linarith
    let ?s = "sicslowpan_input now (s\<lparr>pbuf := q\<rparr>)"
    have f: "reassembling ?s D tag sender now (?n + ?p)" "trace ?s = trace s"
      using input_first [of ?ctxs "s\<lparr>pbuf := q\<rparr>" D tag sender receiver ?p now] ctx dg s q(2) lt by simp_all
    have "8 dvd ?n" using n(1) by (auto simp: dvd_def)
    then have "(?n + ?p) mod 8 = 0" "?p' mod 8 = 0" by presburger+
    moreover have "0 < ?p'" using mp by (simp add: div_greater_zero_iff)
    ultimately show ?thesis using receive_following [OF f(1) n(3) _ _ _ q(3)] f(2) q(1) by simp
  qed
qed


end
