(* ===== verification/SicslowpanCorrect.thy ===== *)
theory SicslowpanCorrect
  imports Reassembly
begin

text \<open>
  The sending side of 6LoWPAN (\<open>output\<close> of \<open>core/net/ipv6/sicslowpan.c\<close>) over the
  packet buffer and the queue buffers, its composition with the receiving side, and what arbitrary
  frames can do to a receiver. \<open>frames_sent\<close> shows that the frames handed to the link layer
  are those of \<open>frames\<close>, with \<open>sending\<close> as the invariant between fragments;
  \<open>input_ok\<close> that one arbitrary frame keeps the buffers.
\<close>

section \<open>Frames at the sender\<close>

text \<open>
  A link layer that sends before it returns: it reports at least one status and no failure, leaves
  every stored packet as it was and the packet buffer usable; the framer only writes attributes.
\<close>

definition link_sync :: "'m link \<Rightarrow> bool" where
  "link_sync L \<longleftrightarrow>
     (\<forall>p qs m g. pb_wf p \<and> qb_rep qs g \<longrightarrow>
        (case llsec_send L p qs m of (sts, p', qs', m') \<Rightarrow>
           pb_wf p' \<and> qb_rep qs' g \<and> sts \<noteq> [] \<and>
           (\<forall>st \<in> set sts. fst st \<noteq> MAC_TX_COLLISION \<and> fst st \<noteq> MAC_TX_ERR \<and> fst st \<noteq> MAC_TX_ERR_FATAL))) \<and>
     (\<forall>p m. case framer_length L p m of (n, p', m') \<Rightarrow> n \<le> 21 \<and> (\<exists>a b. p' = p\<lparr>pb_attrs := a, pb_addrs := b\<rparr>)) \<and>
     0 \<le> llsec_overhead L \<and> llsec_overhead L \<le> 40"

definition sent :: "call list \<Rightarrow> packetbuf list" where
  "sent cs = List.map_filter (\<lambda>c. case c of Llsec_send p \<Rightarrow> Some p | _ \<Rightarrow> None) cs"

lemma sent_simps [simp]:
  "sent (xs @ ys) = sent xs @ sent ys" "sent [] = []" "sent (Llsec_send p # cs) = p # sent cs" "sent (Sniffer_input # cs) = sent cs"
  "sent (Tcpip_input b # cs) = sent cs" "sent (Link_neighbor_callback st n # cs) = sent cs" "sent (Sniffer_output st # cs) = sent cs"
  by (simp_all add: sent_def List.map_filter_def)

definition frame_bytes :: "'m sicslowpan \<Rightarrow> u8 list" where
  "frame_bytes s = drop 48 (pb_mem (pbuf s))"

definition fresh_pb :: "packetbuf \<Rightarrow> bool" where
  "fresh_pb p \<longleftrightarrow> length (pb_mem p) = 176 \<and> pb_ref p = None \<and> pb_bufptr p = 0 \<and> pb_hdrptr p = 48"

definition sending :: "(ptr \<Rightarrow> stored option) \<Rightarrow> 'm sicslowpan \<Rightarrow> bool" where
  "sending g s \<longleftrightarrow> fresh_pb (pbuf s) \<and> qb_rep (qbufs s) g \<and> (\<exists>b \<in> memb_blocks (bufmem (qbufs s)). g b = None)"

lemma fresh_wf: "fresh_pb p \<Longrightarrow> unat (pb_buflen p) \<le> 128 \<Longrightarrow> pb_wf p"
  by (simp add: fresh_pb_def pb_wf_def)

lemma fresh_parts:
  assumes "fresh_pb p"
  shows "header_part p = []" "data_bytes p = take (unat (pb_buflen p)) (drop 48 (pb_mem p))"
  using assms by (simp_all add: fresh_pb_def header_part_def packetbuf_copyto_hdr_def data_bytes_def)

lemma frame_bytes_poke:
  assumes "length (pb_mem (pbuf s)) = 176" "off + length bs \<le> 128"
  shows "frame_bytes (poke off bs s) = memcpy_at (frame_bytes s) off bs" "length (pb_mem (pbuf (poke off bs s))) = 176"
  using assms by (auto simp add: frame_bytes_def poke_def memcpy_at_def drop_take min_def ac_simps)

lemma fresh_poke:
  "fresh_pb (pbuf s) \<Longrightarrow> off + length bs \<le> 128 \<Longrightarrow> fresh_pb (pbuf (poke off bs s))"
  using frame_bytes_poke(2) [of s off bs] by (simp add: fresh_pb_def poke_def)

lemma poke_simps [simp]:
  "uip_buf (poke off bs s) = uip_buf s" "uip_len (poke off bs s) = uip_len s" "qbufs (poke off bs s) = qbufs s"
  "trace (poke off bs s) = trace s" "my_tag (poke off bs s) = my_tag s" "link_state (poke off bs s) = link_state s"
  "last_tx_status (poke off bs s) = last_tx_status s" "sniffer (poke off bs s) = sniffer s"
  by (simp_all add: poke_def)

lemma to_packetbuf_view:
  assumes "qb_rep qs g" "g b = Some (Copied bs a)" "pb_wf q"
  shows "fresh_pb (queuebuf_to_packetbuf b qs q)" "data_bytes (queuebuf_to_packetbuf b qs q) = bs"
    "unat (pb_buflen (queuebuf_to_packetbuf b qs q)) \<le> 128"
proof -
  have h: "holds qs b (Copied bs a)" and wf: "qb_wf qs" using assms(1,2) by (simp_all add: qb_rep_def)
  define d where "d = qdata qs (ram_ptr qs b)"
  have b: "b \<in> memb_live (bufmem qs)" "length (qd_data d) = 128" "unat (qd_len d) \<le> 128"
    using h by (simp_all add: holds_def d_def Let_def)
  obtain l p where c: "packetbuf_copyfrom (qd_data d) (qd_len d) q = (l, p)" by fastforce
  have v: "pb_wf p" "pb_bufptr p = 0" "pb_ref p = None" using copyfrom_view [OF assms(3) _ c] b by simp_all
  have hp: "pb_hdrptr p = 48"
    using c by (auto simp: packetbuf_copyfrom_def Let_def packetbuf_clear_def packetbuf_attr_clear_def)
  have q: "queuebuf_to_packetbuf b qs q = packetbuf_attr_copyfrom (qd_attrs d) p"
    using qb_disjoint [OF wf b(1)] c by (simp add: queuebuf_to_packetbuf_def queuebuf_load_to_ram_def Let_def d_def [symmetric])
  show "fresh_pb (queuebuf_to_packetbuf b qs q)" "unat (pb_buflen (queuebuf_to_packetbuf b qs q)) \<le> 128"
    using v hp by (simp_all add: q fresh_pb_def packetbuf_attr_copyfrom_def pb_wf_def)
  show "data_bytes (queuebuf_to_packetbuf b qs q) = bs"
    using to_packetbuf_restores [OF assms] by (simp add: restored_def)
qed

lemma fold_packet_sent:
  "uip_buf (fold packet_sent sts s) = uip_buf s" "uip_len (fold packet_sent sts s) = uip_len s"
  "pbuf (fold packet_sent sts s) = pbuf s" "qbufs (fold packet_sent sts s) = qbufs s" "my_tag (fold packet_sent sts s) = my_tag s"
  "sent (trace (fold packet_sent sts s)) = sent (trace s)"
  "last_tx_status (fold packet_sent sts s) = (if sts = [] then last_tx_status s else fst (last sts))"
  by (induction sts arbitrary: s) (simp_all add: packet_sent_def call_def Let_def)

lemma set_addr_simps [simp]:
  "pb_wf (packetbuf_set_addr t a p) = pb_wf p" "data_bytes (packetbuf_set_addr t a p) = data_bytes p"
  "fresh_pb (packetbuf_set_addr t a p) = fresh_pb p" "pb_mem (packetbuf_set_addr t a p) = pb_mem p"
  "packetbuf_addr t (packetbuf_set_addr t a p) = a" "pb_ref (packetbuf_set_addr t a p) = pb_ref p"
  by (simp_all add: packetbuf_set_addr_def pb_wf_def data_bytes_def fresh_pb_def packetbuf_addr_def split: option.split)

lemma send_packet_sync:
  assumes L: "link_sync L" and wf: "pb_wf (pbuf s)" "qb_rep (qbufs s) g"
  shows "pb_wf (pbuf (send_packet L dest s))" "qb_rep (qbufs (send_packet L dest s)) g" "\<not> tx_failed (send_packet L dest s)"
    "sent (trace (send_packet L dest s)) = sent (trace s) @ [packetbuf_set_addr ADDR_RECEIVER dest (pbuf s)]"
    "uip_buf (send_packet L dest s) = uip_buf s" "uip_len (send_packet L dest s) = uip_len s" "my_tag (send_packet L dest s) = my_tag s"
proof -
  let ?p = "packetbuf_set_addr ADDR_RECEIVER dest (pbuf s)"
  obtain sts p' qs' m' where r: "llsec_send L ?p (qbufs s) (link_state s) = (sts, p', qs', m')"
    by (cases "llsec_send L ?p (qbufs s) (link_state s)")
  have "pb_wf ?p" using wf(1) by simp
  then have "case llsec_send L ?p (qbufs s) (link_state s) of (sts, p', qs', m') \<Rightarrow> pb_wf p' \<and> qb_rep qs' g \<and> sts \<noteq> [] \<and>
      (\<forall>st \<in> set sts. fst st \<noteq> MAC_TX_COLLISION \<and> fst st \<noteq> MAC_TX_ERR \<and> fst st \<noteq> MAC_TX_ERR_FATAL)"
    using wf(2) by (intro L [unfolded link_sync_def, THEN conjunct1, THEN spec, THEN spec, THEN spec, THEN spec, THEN mp] conjI)
  then have k: "pb_wf p'" "qb_rep qs' g" "sts \<noteq> []"
    "\<forall>st \<in> set sts. fst st \<noteq> MAC_TX_COLLISION \<and> fst st \<noteq> MAC_TX_ERR \<and> fst st \<noteq> MAC_TX_ERR_FATAL"
    by (simp_all add: r)
  have l: "last sts \<in> set sts" using k(3) by simp
  show "pb_wf (pbuf (send_packet L dest s))" "qb_rep (qbufs (send_packet L dest s)) g" "\<not> tx_failed (send_packet L dest s)"
    "sent (trace (send_packet L dest s)) = sent (trace s) @ [?p]"
    "uip_buf (send_packet L dest s) = uip_buf s" "uip_len (send_packet L dest s) = uip_len s" "my_tag (send_packet L dest s) = my_tag s"
    using k(1-3) bspec [OF k(4) l] by (simp_all add: send_packet_def Let_def r fold_packet_sent tx_failed_def call_def)
qed


lemma free_keeps_blocks:
  assumes "qb_rep qs g"
  shows "memb_blocks (bufmem (queuebuf_free b qs)) = memb_blocks (bufmem qs)"
proof -
  have "memb_wf (bufmem qs)" using assms by (simp add: qb_rep_def qb_wf_def qb_pools_def)
  then show ?thesis using mb.free_ok [OF _ surjective_pairing, of "bufmem qs" b] by (simp add: queuebuf_free_def)
qed

text \<open>What one fragment does: it is handed down with the bytes before and the payload behind, and restored.\<close>

lemma send_fragment_ok:
  assumes L: "link_sync L" and s: "sending g s" and k: "hdr_len + k \<le> 128" "pos + k \<le> length (uip_buf s)"
    and hb: "take hdr_len (frame_bytes s) = hb"
  obtains s' p where "send_fragment L dest hdr_len pos (int k) s = (True, s')" "sending g s'" "\<not> tx_failed s'"
    "uip_buf s' = uip_buf s" "uip_len s' = uip_len s" "my_tag s' = my_tag s"
    "take (hdr_len + k) (frame_bytes s') = hb @ take k (drop pos (uip_buf s))"
    "sent (trace s') = sent (trace s) @ [p]" "data_bytes p = hb @ take k (drop pos (uip_buf s))"
    "packetbuf_addr ADDR_RECEIVER p = dest"
proof -
  let ?pay = "take k (drop pos (uip_buf s))"
  have fr: "fresh_pb (pbuf s)" and rep: "qb_rep (qbufs s) g" using s by (simp_all add: sending_def)
  have lp: "length ?pay = k" using k(2) by simp
  have mem: "length (pb_mem (pbuf s)) = 176" using fr by (simp add: fresh_pb_def)
  define s1 where "s1 = poke hdr_len ?pay s"
  have fr1: "fresh_pb (pbuf s1)" unfolding s1_def using fr k(1) lp by (intro fresh_poke) simp_all
  have "length (frame_bytes s) = 128" using mem by (simp add: frame_bytes_def)
  moreover from this have lhb: "length hb = hdr_len" using hb k(1) by auto
  ultimately have fb1: "take (hdr_len + k) (frame_bytes s1) = hb @ ?pay"
    using frame_bytes_poke(1) [OF mem, of hdr_len ?pay] k(1) lp hb by (simp add: s1_def memcpy_at_def)
  define s2 where "s2 = s1\<lparr>pbuf := packetbuf_set_datalen (word_of_int (int k + int hdr_len)) (pbuf s1)\<rparr>"
  have bl: "unat (pb_buflen (pbuf s2)) = hdr_len + k"
  proof -
    have "(word_of_int (int k + int hdr_len) :: u16) = of_nat (hdr_len + k)" by simp
    then show ?thesis using of_nat_u16 [of "hdr_len + k"] k(1) by (simp add: s2_def packetbuf_set_datalen_def del: of_nat_add)
  qed
  have fr2: "fresh_pb (pbuf s2)" using fr1 by (simp add: s2_def packetbuf_set_datalen_def fresh_pb_def)
  have wf2: "pb_wf (pbuf s2)" using fresh_wf [OF fr2] bl k(1) by simp
  have "frame_bytes s2 = frame_bytes s1" by (simp add: s2_def frame_bytes_def packetbuf_set_datalen_def)
  then have db: "data_bytes (pbuf s2) = hb @ ?pay" using fresh_parts(2) [OF fr2] bl fb1 by (simp add: frame_bytes_def)
  have same2: "qbufs s2 = qbufs s" "uip_buf s2 = uip_buf s" "uip_len s2 = uip_len s" "trace s2 = trace s" "my_tag s2 = my_tag s"
    by (simp_all add: s2_def s1_def)
  have ref: "\<not> packetbuf_is_reference (pbuf s2)" using fr2 by (simp add: packetbuf_is_reference_def fresh_pb_def)
  obtain b where b: "b \<in> memb_blocks (bufmem (qbufs s))" "g b = None" using s by (auto simp: sending_def)
  have "dom g = memb_live (bufmem (qbufs s)) \<union> memb_live (refbufmem (qbufs s))" using rep by (simp add: qb_rep_def)
  then have "memb_live (bufmem (qbufs s)) \<noteq> memb_blocks (bufmem (qbufs s))"
    using b by (metis UnI1 domIff)
  then obtain q qs where q: "queuebuf_new_from_packetbuf (pbuf s2) (qbufs s) = (q, qs)" "q \<noteq> NULL" "g q = None"
    "qb_rep qs (g(q \<mapsto> packet_of (pbuf s2)))"
    using new_copy [OF rep wf2 ref] by auto
  have po: "packet_of (pbuf s2) = Copied (hb @ ?pay) (packetbuf_attr_copyto (pbuf s2))"
    using copyto_eq [OF wf2] ref db fresh_parts(1) [OF fr2] lhb lp k(1) by (simp add: packet_of_def)
  define s3 where "s3 = s2\<lparr>qbufs := qs\<rparr>"
  have wf3: "pb_wf (pbuf s3)" "qb_rep (qbufs s3) (g(q \<mapsto> packet_of (pbuf s2)))" using wf2 q(4) by (simp_all add: s3_def)
  define s4 where "s4 = send_packet L dest s3"
  note sp = send_packet_sync [OF L wf3, of dest, folded s4_def]
  have gq: "(g(q \<mapsto> packet_of (pbuf s2))) q = Some (Copied (hb @ ?pay) (packetbuf_attr_copyto (pbuf s2)))" by (simp add: po)
  note tp = to_packetbuf_view [OF sp(2) gq sp(1)]
  define s5 where "s5 = s4\<lparr>pbuf := queuebuf_to_packetbuf q (qbufs s4) (pbuf s4), qbufs := queuebuf_free q (qbufs s4)\<rparr>"
  have res: "send_fragment L dest hdr_len pos (int k) s = (True, s5)"
    using q(1,2) by (simp add: send_fragment_def Let_def s5_def s4_def s3_def s2_def s1_def)
  have "qb_rep (queuebuf_free q (qbufs s4)) ((g(q \<mapsto> packet_of (pbuf s2)))(q := None))"
    using free_rep [OF sp(2), of q] by simp
  then have rep5: "qb_rep (qbufs s5) g" using q(3) by (simp add: s5_def fun_upd_idem)
  have "holds (qbufs s4) q (Copied (hb @ ?pay) (packetbuf_attr_copyto (pbuf s2)))" using sp(2) gq by (simp only: qb_rep_def)
  then have "q \<in> memb_live (bufmem (qbufs s4))" by (simp add: holds_def)
  then have qb: "q \<in> memb_blocks (bufmem (qbufs s5))"
    using memb_live_blocks by (auto simp: s5_def free_keeps_blocks [OF sp(2)])
  have snd5: "sending g s5" using tp(1) rep5 qb q(3) by (auto simp: sending_def s5_def)
  have "data_bytes (pbuf s5) = hb @ ?pay" using tp(2) by (simp add: s5_def)
  then have fb5: "take (hdr_len + k) (frame_bytes s5) = hb @ ?pay"
  proof -
    have d: "take (unat (pb_buflen (pbuf s5))) (frame_bytes s5) = hb @ ?pay"
      using fresh_parts(2) [of "pbuf s5"] tp(1,2) by (simp add: s5_def frame_bytes_def)
    then have "length (take (unat (pb_buflen (pbuf s5))) (frame_bytes s5)) = hdr_len + k" using lp lhb by simp
    then show ?thesis using d by (metis length_take min.commute take_take take_all_iff min_def order_refl)
  qed
  show ?thesis
  proof (rule that [OF res snd5])
    show "\<not> tx_failed s5" using sp(3) by (simp add: s5_def tx_failed_def)
    show "uip_buf s5 = uip_buf s" "uip_len s5 = uip_len s" "my_tag s5 = my_tag s"
      using sp(5-7) same2 by (simp_all add: s5_def s3_def)
    show "take (hdr_len + k) (frame_bytes s5) = hb @ ?pay" by (rule fb5)
    show "sent (trace s5) = sent (trace s) @ [packetbuf_set_addr ADDR_RECEIVER dest (pbuf s3)]"
      using sp(4) same2 by (simp add: s5_def s3_def)
    show "data_bytes (packetbuf_set_addr ADDR_RECEIVER dest (pbuf s3)) = hb @ ?pay" using db by (simp add: s3_def)
    show "packetbuf_addr ADDR_RECEIVER (packetbuf_set_addr ADDR_RECEIVER dest (pbuf s3)) = dest" by simp
  qed
qed


lemma and_not_mask_int: "(x :: int) AND NOT (mask k) = push_bit k (drop_bit k x)"
  by (rule bit_eqI) (auto simp: bit_simps)

lemma and_minus_8: "int m AND - 8 = int (m div 8 * 8)"
proof -
  have "(- 8 :: int) = NOT (mask 3)" by (simp add: not_int_def mask_eq_exp_minus_1)
  then have "int m AND - 8 = push_bit 3 (drop_bit 3 (int m))" by (simp only: and_not_mask_int)
  then show ?thesis by (simp add: push_bit_eq_mult drop_bit_eq_div zdiv_int)
qed

lemma offset_byte: "pos < 2048 \<Longrightarrow> ucast (drop_bit 3 (of_nat pos :: u16)) = (of_nat (pos div 8) :: u8)"
  by (simp add: word_unat_eq_iff unat_ucast_u16_u8 unat_div_distrib drop_bit_eq_div unsigned_of_nat take_bit_nat_eq_self)

lemma take_frame_poke:
  assumes "fresh_pb (pbuf s)" "take off (frame_bytes s) = hb" "off + length bs \<le> 128"
  shows "take (off + length bs) (frame_bytes (poke off bs s)) = hb @ bs"
proof -
  have m: "length (pb_mem (pbuf s)) = 176" using assms(1) by (simp add: fresh_pb_def)
  then have "length (frame_bytes s) = 128" by (simp add: frame_bytes_def)
  then have "length hb = off" using assms(2,3) by auto
  then show ?thesis using assms(2) frame_bytes_poke(1) [OF m assms(3)] by (simp add: memcpy_at_def)
qed

lemma sending_poke:
  "sending g s \<Longrightarrow> off + length bs \<le> 128 \<Longrightarrow> sending g (poke off bs s)"
  using fresh_poke [of s off bs] by (simp add: sending_def)

lemma fragn_loop_ok:
  assumes "link_sync L" "sending g s" "length (uip_buf s) = UIP_BUFSIZE" "uip_len s = of_nat (length D)"
    "D = take (length D) (uip_buf s)" "length D \<le> UIP_BUFSIZE"
    "take 4 (frame_bytes s) = be_bytes (0xe000 OR of_nat (length D)) @ be_bytes tag" "0 < p" "p \<le> 120"
    "pos \<le> length D + 120"
  shows "\<exists>s' ps. fragn_loop L dest (int p) (of_nat pos) s = Some (1, s') \<and> sent (trace s') = sent (trace s) @ ps \<and>
    map data_bytes ps = following_frames tag D p pos \<and> (\<forall>q \<in> set ps. packetbuf_addr ADDR_RECEIVER q = dest)"
  using assms
proof (induction tag D p pos arbitrary: s rule: following_frames.induct)
  case (1 tag D p pos)
  note L = "1.prems"(1) and sd = "1.prems"(2) and ub = "1.prems"(3) and ul = "1.prems"(4) and D = "1.prems"(5,6)
    and fb = "1.prems"(7) and p = "1.prems"(8,9)
  let ?N = "of_nat (length D) :: u16"
  have uN: "unat ?N = length D" using D(2) by (simp add: of_nat_u16)
  have up: "unat (of_nat pos :: u16) = pos" using "1.prems"(10) D(2) by (simp add: of_nat_u16)
  have lt: "(of_nat pos < uip_len s) = (pos < length D)" using ul uN up by (simp add: word_less_nat_alt)
  show ?case
  proof (cases "pos < length D")
    case False
    then have "fragn_loop L dest (int p) (of_nat pos) s = Some (1, s)" using lt by (subst fragn_loop.simps) simp
    moreover have "following_frames tag D p pos = []" using False by (subst following_frames.simps) simp
    ultimately show ?thesis by (intro exI [of _ s] exI [of _ "[]"]) simp
  next
    case True
    define k where "k = min p (length D - pos)"
    have k: "0 < k" "pos + k \<le> length D" "k \<le> p" using True p(1) by (auto simp: k_def)
    let ?h = "be_bytes (0xe000 OR ?N) @ be_bytes tag @ [of_nat (pos div 8)]"
    define s1 where "s1 = poke 4 [ucast (drop_bit 3 (of_nat pos :: u16)) :: u8] s"
    have s1: "sending g s1" "take 5 (frame_bytes s1) = ?h" "uip_buf s1 = uip_buf s" "uip_len s1 = uip_len s" "trace s1 = trace s"
      using sending_poke [OF sd, of 4 "[ucast (drop_bit 3 (of_nat pos :: u16)) :: u8]"]
        take_frame_poke [of s 4 _ "[ucast (drop_bit 3 (of_nat pos :: u16)) :: u8]", OF _ fb] sd offset_byte [of pos] True D(2)
      by (simp_all add: s1_def sending_def)
    have pay: "(if uip_len s1 - of_nat pos < word_of_int (int p) then uint (uip_len s1 - of_nat pos) else int p) = int k"
    proof -
      have u: "unat (?N - of_nat pos) = length D - pos"
        using uN up True by (simp add: unat_sub word_le_nat_alt)
      have "unat (of_nat p :: u16) = p" using p(2) by (simp add: of_nat_u16)
      then show ?thesis using u unfolding s1(4) ul k_def by (simp add: word_less_nat_alt uint_nat min_def)
    qed
    obtain s2 q where f: "send_fragment L dest 5 pos (int k) s1 = (True, s2)" "sending g s2" "\<not> tx_failed s2"
      "uip_buf s2 = uip_buf s1" "uip_len s2 = uip_len s1" "my_tag s2 = my_tag s1"
      "take (5 + k) (frame_bytes s2) = ?h @ take k (drop pos (uip_buf s1))"
      "sent (trace s2) = sent (trace s1) @ [q]" "data_bytes q = ?h @ take k (drop pos (uip_buf s1))"
      "packetbuf_addr ADDR_RECEIVER q = dest"
      using send_fragment_ok [OF L s1(1) _ _ s1(2), of k pos] k p(2) D(2) ub s1(3) by auto
    have loop: "fragn_loop L dest (int p) (of_nat pos) s = fragn_loop L dest (int k) (of_nat (pos + k)) s2"
      using True lt f(3) by (subst fragn_loop.simps) (simp only: Let_def s1_def [symmetric] up pay f(1), simp)
    have dp: "take k (drop pos (uip_buf s1)) = take p (drop pos D)"
    proof -
      have "take k (drop pos (uip_buf s)) = take k (drop pos (take (length D) (uip_buf s)))"
        using k(2) by (simp add: drop_take min_def)
      also have "\<dots> = take k (drop pos D)" using D(1) by simp
      also have "\<dots> = take p (drop pos D)" by (simp add: k_def min_def)
      finally show ?thesis by (simp add: s1(3))
    qed
    have ff: "following_frames tag D p pos = (?h @ take p (drop pos D)) # following_frames tag D p (pos + p)"
      using True p(1) by (subst following_frames.simps) simp
    have fb2: "take 4 (frame_bytes s2) = be_bytes (0xe000 OR ?N) @ be_bytes tag"
      using arg_cong [OF f(7), of "take 4"] by (simp add: min_def)
    show ?thesis
    proof (cases "k = p")
      case True
      have "\<exists>s' ps. fragn_loop L dest (int p) (of_nat (pos + p)) s2 = Some (1, s') \<and> sent (trace s') = sent (trace s2) @ ps \<and>
          map data_bytes ps = following_frames tag D p (pos + p) \<and> (\<forall>q \<in> set ps. packetbuf_addr ADDR_RECEIVER q = dest)"
        using k True p D f(2,4,5) s1(3,4) ub ul fb2 L \<open>pos < length D\<close> by (intro "1.IH") simp_all
      then obtain s' ps where "fragn_loop L dest (int p) (of_nat (pos + p)) s2 = Some (1, s')" "sent (trace s') = sent (trace s2) @ ps"
        "map data_bytes ps = following_frames tag D p (pos + p)" "\<forall>q \<in> set ps. packetbuf_addr ADDR_RECEIVER q = dest" by blast
      then show ?thesis using loop True f(8,9,10) dp s1(5) ff by (intro exI [of _ s'] exI [of _ "q # ps"]) simp
    next
      case False
      then have e: "pos + k = length D" "length D \<le> pos + p" using k by (auto simp: k_def min_def split: if_splits)
      have "fragn_loop L dest (int k) (of_nat (pos + k)) s2 = Some (1, s2)"
        using e f(5) s1(4) ul by (subst fragn_loop.simps) (simp del: of_nat_add)
      moreover have "following_frames tag D p (pos + p) = []" using e by (subst following_frames.simps) simp
      ultimately show ?thesis using loop f(8,9,10) dp s1(5) ff by (intro exI [of _ s2] exI [of _ "[q]"]) simp
    qed
  qed
qed


lemma hdr_of_take:
  "40 \<le> n \<Longrightarrow> ip_hdr_of (take n b) = ip_hdr_of b" "48 \<le> n \<Longrightarrow> udp_hdr_of (take n b) = udp_hdr_of b"
  by (simp_all add: ip_hdr_of_def udp_hdr_of_def drop_take min_def)

lemma compressed_buf:
  assumes "D = take (length D) b" "uncompressed_len D \<le> length D"
  shows "compress_hdr_hc06 ctxs m d (ip_hdr_of b) (udp_hdr_of b) = (compressed ctxs m d D, of_nat (uncompressed_len D))"
proof -
  have "40 \<le> length D" using assms(2) by (simp add: uncompressed_len_def split: if_splits)
  then have ip: "ip_hdr_of b = ip_hdr_of D" using hdr_of_take(1) [of "length D" b] assms(1) by simp
  have "compress_hdr_hc06 ctxs m d (ip_hdr_of b) (udp_hdr_of b) = compress_hdr_hc06 ctxs m d (ip_hdr_of D) (udp_hdr_of D)"
  proof (cases "proto (ip_hdr_of D) = UIP_PROTO_UDP")
    case True
    then have "udp_hdr_of b = udp_hdr_of D" using hdr_of_take(2) [of "length D" b] assms by (simp add: uncompressed_len_def)
    then show ?thesis by (simp add: ip)
  next
    case False
    then show ?thesis unfolding ip by (simp add: compress_hdr_hc06_def Let_def)
  qed
  then show ?thesis by (simp add: compressed_eq)
qed

lemma free_buffer:
  assumes "qb_rep qs g" "memb_numfree (bufmem qs) \<noteq> 0"
  shows "\<exists>b \<in> memb_blocks (bufmem qs). g b = None"
proof -
  have w: "memb_wf (bufmem qs)" "memb_wf (refbufmem qs)" and dj: "\<And>p. memb_inmemb (bufmem qs) p \<Longrightarrow> \<not> memb_inmemb (refbufmem qs) p"
    using assms(1) by (simp_all add: qb_rep_def qb_wf_def qb_pools_def)
  have dm: "dom g = memb_live (bufmem qs) \<union> memb_live (refbufmem qs)" using assms(1) by (simp add: qb_rep_def)
  obtain b where b: "b \<in> memb_blocks (bufmem qs)" "b \<notin> memb_live (bufmem qs)"
    using numfree_zero [OF w(1)] assms(2) memb_live_blocks [of "bufmem qs"] by blast
  have "b \<notin> memb_live (refbufmem qs)"
    using dj block_inmemb [OF w(1) b(1)] block_inmemb [OF w(2), of b] memb_live_blocks [of "refbufmem qs"] by blast
  then have "b \<notin> dom g" using dm b(2) by simp
  then show ?thesis using b(1) by (intro bexI [of _ b]) (simp_all add: domIff)
qed

definition same_data :: "packetbuf \<Rightarrow> packetbuf \<Rightarrow> bool" where
  "same_data p q \<longleftrightarrow> pb_mem p = pb_mem q \<and> pb_buflen p = pb_buflen q \<and> pb_bufptr p = pb_bufptr q \<and> pb_hdrptr p = pb_hdrptr q \<and>
     pb_ref p = pb_ref q"

text \<open>The state in which the compressed header lies in the packet buffer.\<close>

definition header_ready :: "(ptr \<Rightarrow> stored option) \<Rightarrow> 'm sicslowpan \<Rightarrow> u8 list \<Rightarrow> 'm sicslowpan \<Rightarrow> bool" where
  "header_ready g s c s' \<longleftrightarrow> sending g s' \<and> take (length c) (frame_bytes s') = c \<and> uip_buf s' = uip_buf s \<and> uip_len s' = uip_len s \<and>
     my_tag s' = my_tag s \<and> sent (trace s') = sent (trace s) \<and> qbufs s' = qbufs s"

lemma output_fragments_ok:
  assumes L: "link_sync L" and r: "header_ready g s c s1" and c: "c = compressed ctxs m dest D" "length c \<le> 48"
    and D: "D = take (length D) (uip_buf s)" "length D \<le> UIP_BUFSIZE" "length (uip_buf s) = UIP_BUFSIZE" "uip_len s = of_nat (length D)"
    and n: "n = uncompressed_len D" "n \<le> length D" and mp: "60 \<le> mp" "mp \<le> 125" "mp < length c + (length D - n)"
    and free: "4 \<le> unat (memb_numfree (bufmem (qbufs s)))"
  shows "\<exists>s' ps. output_fragments L dest (int mp) (length c) (of_nat n) s1 = Some (1, s') \<and> sent (trace s') = sent (trace s) @ ps \<and>
    map data_bytes ps = frames ctxs m dest mp (my_tag s) D \<and> (\<forall>q \<in> set ps. packetbuf_addr ADDR_RECEIVER q = dest)"
proof -
  let ?N = "of_nat (length D) :: u16" and ?tag = "my_tag s"
  have uN: "unat ?N = length D" using D(2) by (simp add: of_nat_u16)
  have n48: "n = 40 \<or> n = 48" using n(1) by (simp add: uncompressed_len_def)
  have s1: "sending g s1" "take (length c) (frame_bytes s1) = c" "uip_buf s1 = uip_buf s" "uip_len s1 = uip_len s"
    "my_tag s1 = my_tag s" "sent (trace s1) = sent (trace s)" "qbufs s1 = qbufs s"
    using r by (simp_all add: header_ready_def)
  have mem1: "length (pb_mem (pbuf s1)) = 176" "\<not> packetbuf_is_reference (pbuf s1)"
    using s1(1) by (simp_all add: sending_def fresh_pb_def packetbuf_is_reference_def)
  define p1 where "p1 = (mp - (length c + 4)) div 8 * 8"
  have p1: "p1 \<le> mp - (length c + 4)" "length c + 4 \<le> mp" using c(2) mp by (simp_all add: p1_def)
  have np: "n + p1 < length D" using p1 mp(3) n(2) by linarith
  define s2 where "s2 = poke 4 c s1"
  define s3 where "s3 = SET16 0 (0xc000 OR uip_len s2) s2"
  define s4 where "s4 = SET16 2 (my_tag s3) s3"
  define s5 where "s5 = s4\<lparr>my_tag := my_tag s4 + 1\<rparr>"
  have sm: "uip_buf s5 = uip_buf s" "uip_len s5 = uip_len s" "sent (trace s5) = sent (trace s)"
    using s1 by (simp_all add: s5_def s4_def s3_def s2_def SET16_def)
  have l2: "length (pb_mem (pbuf s2)) = 176" "length (pb_mem (pbuf s3)) = 176"
    using mem1(1) c(2) by (simp_all add: s3_def s2_def SET16_def frame_bytes_poke(2))
  have sd5: "sending g s5"
    using sending_poke [OF sending_poke [OF sending_poke [OF s1(1), of 4 c], of 0 "[ucast (drop_bit 8 (0xc000 OR uip_len s2)), ucast (0xc000 OR uip_len s2)]"],
        of 2 "[ucast (drop_bit 8 (my_tag s3)), ucast (my_tag s3)]"] c(2)
    by (simp add: s5_def s4_def s3_def s2_def SET16_def sending_def)
  have fb5: "take (length c + 4) (frame_bytes s5) = be_bytes (0xc000 OR ?N) @ be_bytes ?tag @ c"
  proof -
    have len: "length (frame_bytes s1) = 128" using mem1(1) by (simp add: frame_bytes_def)
    have "frame_bytes s5 = memcpy_at (memcpy_at (memcpy_at (frame_bytes s1) 4 c) 0 (be_bytes (0xc000 OR ?N))) 2 (be_bytes ?tag)"
      using frame_bytes_poke(1) [OF mem1(1), of 4 c] frame_bytes_poke(1) [OF l2(1), of 0] frame_bytes_poke(1) [OF l2(2), of 2] c(2) D(4) s1(4,5)
      by (simp add: s5_def s4_def SET16_def be_bytes_def frame_bytes_def s3_def s2_def)
    then show ?thesis using len c(2) by (simp add: memcpy_at_def be_bytes_def min_def take_Cons')
  qed
  have pay: "(int mp - int (length c + 4)) AND - 8 = int p1"
    using and_minus_8 [of "mp - (length c + 4)"] p1(2) by (simp add: p1_def of_nat_diff)
  have c1: "length c + 4 + p1 \<le> 128" using p1 mp(2) by linarith
  have c2: "n + p1 \<le> length (uip_buf s5)" using np D(2,3) sm(1) by simp
  obtain s6 q where f: "send_fragment L dest (length c + 4) n (int p1) s5 = (True, s6)" "sending g s6" "\<not> tx_failed s6"
      "uip_buf s6 = uip_buf s5" "uip_len s6 = uip_len s5" "my_tag s6 = my_tag s5"
      "take (length c + 4 + p1) (frame_bytes s6) = (be_bytes (0xc000 OR ?N) @ be_bytes ?tag @ c) @ take p1 (drop n (uip_buf s5))"
      "sent (trace s6) = sent (trace s5) @ [q]" "data_bytes q = (be_bytes (0xc000 OR ?N) @ be_bytes ?tag @ c) @ take p1 (drop n (uip_buf s5))"
      "packetbuf_addr ADDR_RECEIVER q = dest"
    by (rule send_fragment_ok [OF L sd5 c1 c2 fb5, where dest = dest])
  define s7 where "s7 = SET16 0 (0xe000 OR uip_len s6) s6"
  have mem6: "length (pb_mem (pbuf s6)) = 176" using f(2) by (simp add: sending_def fresh_pb_def)
  have sd7: "sending g s7" using sending_poke [OF f(2)] by (simp add: s7_def SET16_def)
  have fb7: "take 4 (frame_bytes s7) = be_bytes (0xe000 OR ?N) @ be_bytes ?tag"
  proof -
    have t4: "take 4 (frame_bytes s6) = be_bytes (0xc000 OR ?N) @ be_bytes ?tag"
      using arg_cong [OF f(7), of "take 4"] by (simp add: min_def)
    have "take 2 (drop 2 (frame_bytes s6)) = be_bytes ?tag"
      using arg_cong [OF t4, of "drop 2"] by (simp add: drop_take)
    moreover have "frame_bytes s7 = memcpy_at (frame_bytes s6) 0 (be_bytes (0xe000 OR ?N))"
      using frame_bytes_poke(1) [OF mem6, of 0] f(5) sm(2) D(4) by (simp add: s7_def SET16_def be_bytes_def)
    ultimately show ?thesis by (simp add: memcpy_at_def numeral_2_eq_2)
  qed
  define p2 where "p2 = (mp - 5) div 8 * 8"
  have "p2 \<le> mp - 5" by (simp add: p2_def)
  then have p2: "0 < p2" "p2 \<le> 120" using mp(1,2) by (simp add: p2_def div_greater_zero_iff, linarith)
  have pay2: "(int mp - 5) AND - 8 = int p2" using and_minus_8 [of "mp - 5"] mp(1) by (simp add: p2_def of_nat_diff)
  have proc: "word_of_int (int p1 + uint (of_nat n :: u8)) = (of_nat (n + p1) :: u16)"
  proof -
    have u: "uint (of_nat n :: u8) = int n" using n48 by auto
    show ?thesis unfolding u by (simp add: add.commute)
  qed
  have s7: "length (uip_buf s7) = UIP_BUFSIZE" "uip_len s7 = ?N" "D = take (length D) (uip_buf s7)" "n + p1 \<le> length D + 120"
    using f(4,5) sm D(3,4) np D(1) [symmetric] by (simp_all add: s7_def SET16_def)
  obtain s8 ps where w: "fragn_loop L dest (int p2) (of_nat (n + p1)) s7 = Some (1, s8)" "sent (trace s8) = sent (trace s7) @ ps"
    "map data_bytes ps = following_frames ?tag D p2 (n + p1)" "\<forall>q \<in> set ps. packetbuf_addr ADDR_RECEIVER q = dest"
    using fragn_loop_ok [OF L sd7 s7(1,2,3) D(2) fb7 p2 s7(4), of dest] by blast
  have est: "\<not> (uint (queuebuf_numfree (pbuf s1) (qbufs s1)) - 1 < uint (uip_len s1) div (125 - 5) + 1)"
  proof -
    have l: "uint (uip_len s1) = int (length D)" unfolding s1(4) D(4) uint_nat uN ..
    have "int (length D) div 120 \<le> 240 div 120" by (rule zdiv_mono1) (use D(2) in simp_all)
    moreover have "queuebuf_numfree (pbuf s1) (qbufs s1) = memb_numfree (bufmem (qbufs s))"
      using mem1(2) s1(7) by (simp add: queuebuf_numfree_def)
    moreover have "4 \<le> uint (memb_numfree (bufmem (qbufs s)))" using free unfolding uint_nat by linarith
    ultimately show ?thesis unfolding l by simp
  qed
  have un: "unat (of_nat n :: u8) = n" using n48 by auto
  have res: "output_fragments L dest (int mp) (length c) (of_nat n) s1 = Some (1, s8)"
    unfolding output_fragments_def Let_def if_not_P [OF est]
    by (simp only: frame_bytes_def [symmetric] s1(2) s2_def [symmetric] s3_def [symmetric] s4_def [symmetric] s5_def [symmetric]
      pay pay2 un proc f(1) prod.case bool.case f(3) if_False s7_def [symmetric] w(1))
  have dp: "take p1 (drop n (uip_buf s5)) = take p1 (drop n D)"
  proof -
    have "take p1 (drop n (uip_buf s)) = take p1 (drop n (take (length D) (uip_buf s)))"
      using np by (simp add: drop_take min_def)
    then show ?thesis using D(1) [symmetric] sm(1) by simp
  qed
  have fr: "frames ctxs m dest mp ?tag D =
      (be_bytes (0xc000 OR ?N) @ be_bytes ?tag @ c @ take p1 (drop n D)) # following_frames ?tag D p2 (n + p1)"
    using mp(3) by (simp add: frames_def Let_def c(1) [symmetric] n(1) [symmetric] p1_def p2_def)
  show ?thesis
    using res f(8,9,10) w(2,3,4) dp fr sm(3)
    by (intro exI [of _ s8] exI [of _ "q # ps"]) (simp add: s7_def SET16_def)
qed


lemma set_attr_simps [simp]:
  "fresh_pb (packetbuf_set_attr t v p) = fresh_pb p" "pb_mem (packetbuf_set_attr t v p) = pb_mem p"
  by (simp_all add: packetbuf_set_attr_def fresh_pb_def)

lemma attrs_only:
  "fresh_pb (p\<lparr>pb_attrs := a, pb_addrs := b\<rparr>) = fresh_pb p" "pb_mem (p\<lparr>pb_attrs := a, pb_addrs := b\<rparr>) = pb_mem p"
  by (simp_all add: fresh_pb_def)

definition prepare :: "'m sicslowpan \<Rightarrow> 'm sicslowpan" where
  "prepare s =
     (let s = s\<lparr>pbuf := packetbuf_set_attr ATTR_MAX_MAC_TRANSMISSIONS 4 (packetbuf_clear (pbuf s))\<rparr>
      in stream_attr (if sniffer s then set_packet_attrs s else s))"

lemma prepare_simps:
  "uip_buf (prepare s) = uip_buf s" "uip_len (prepare s) = uip_len s" "my_tag (prepare s) = my_tag s"
  "trace (prepare s) = trace s" "qbufs (prepare s) = qbufs s" "addr_contexts (prepare s) = addr_contexts s"
  "uip_lladdr (prepare s) = uip_lladdr s" "link_state (prepare s) = link_state s"
  "length (pb_mem (pbuf s)) = 176 \<Longrightarrow> fresh_pb (pbuf (prepare s))"
  by (simp_all add: prepare_def Let_def stream_attr_def set_packet_attrs_def)
    (simp add: fresh_pb_def packetbuf_clear_def packetbuf_attr_clear_def)

lemma frames_sent:
  assumes L: "link_sync L" and pb: "length (pb_mem (pbuf s)) = 176" and rep: "qb_rep (qbufs s) g"
    and free: "4 \<le> unat (memb_numfree (bufmem (qbufs s)))"
    and D: "D = take (unat (uip_len s)) (uip_buf s)" "length (uip_buf s) = UIP_BUFSIZE" "unat (uip_len s) \<le> UIP_BUFSIZE"
    and dg: "datagram_wf (addr_contexts s) D"
  shows "\<exists>s' ps mp. sicslowpan_output L (Some dest) s = Some (1, s') \<and> 60 \<le> mp \<and> mp \<le> 125 \<and> sent (trace s') = sent (trace s) @ ps \<and>
    map data_bytes ps = frames (addr_contexts s) (uip_lladdr s) dest mp (my_tag s) D \<and>
    (\<forall>q \<in> set ps. packetbuf_addr ADDR_RECEIVER q = dest)"
proof -
  let ?c = "compressed (addr_contexts s) (uip_lladdr s) dest D" and ?n = "uncompressed_len D"
  have lD: "length D = unat (uip_len s)" using D by simp
  have D': "D = take (length D) (uip_buf s)" using D(1) lD by simp
  have ul: "uip_len s = of_nat (length D)" unfolding lD by simp
  have n: "?n = 40 \<or> ?n = 48" "?n \<le> length D" "length D \<le> 240"
    using dg by (auto simp: datagram_wf_def uncompressed_len_def)
  have cl: "2 \<le> length ?c" "length ?c \<le> 48" using compress_length [OF datagram_hdr_wf(1) [OF dg] compressed_eq] by simp_all
  define s0 where "s0 = prepare s"
  note p = prepare_simps [of s, folded s0_def]
  have comp: "compress_hdr_hc06 (addr_contexts s0) (uip_lladdr s0) dest (ip_hdr_of (uip_buf s0)) (udp_hdr_of (uip_buf s0)) = (?c, of_nat ?n)"
    unfolding p using compressed_buf [OF D' n(2)] .
  define s1 where "s1 = poke 0 ?c s0"
  define s2 where "s2 = s1\<lparr>pbuf := packetbuf_set_addr ADDR_RECEIVER dest (pbuf s1)\<rparr>"
  obtain fl q m where fr: "framer_length L (pbuf s2) (link_state s2) = (fl, q, m)" by (cases "framer_length L (pbuf s2) (link_state s2)")
  define s3 where "s3 = s2\<lparr>pbuf := q, link_state := m\<rparr>"
  have law: "fl \<le> 21" "\<exists>a b. q = (pbuf s2)\<lparr>pb_attrs := a, pb_addrs := b\<rparr>" "0 \<le> llsec_overhead L" "llsec_overhead L \<le> 40"
    using L [unfolded link_sync_def, THEN conjunct2, THEN conjunct1, THEN spec, THEN spec, of "pbuf s2" "link_state s2"]
      L [unfolded link_sync_def, THEN conjunct2, THEN conjunct2] unfolding fr by simp_all
  define mp where "mp = nat (125 - (if fl < 0 then 21 else fl) - llsec_overhead L)"
  have mp: "60 \<le> mp" "mp \<le> 125" "125 - (if fl < 0 then 21 else fl) - llsec_overhead L = int mp"
    using law(1,3,4) by (auto simp: mp_def)
  have fresh: "fresh_pb (pbuf s3)" and fb: "take (length ?c) (frame_bytes s3) = ?c"
  proof -
    have f1: "fresh_pb (pbuf s1)" unfolding s1_def by (rule fresh_poke) (use p(9) pb cl in simp_all)
    have t: "take (0 + length ?c) (frame_bytes s1) = [] @ ?c" unfolding s1_def
      by (rule take_frame_poke) (use p(9) pb cl in simp_all)
    show "fresh_pb (pbuf s3)" "take (length ?c) (frame_bytes s3) = ?c"
      using f1 t law(2) by (auto simp: s3_def s2_def attrs_only frame_bytes_def)
  qed
  have "memb_numfree (bufmem (qbufs s)) \<noteq> 0" using free by auto
  note fb' = free_buffer [OF rep this]
  have hr: "header_ready g s ?c s3"
    using fresh fb rep fb' p by (auto simp: header_ready_def sending_def s3_def s2_def s1_def)
  have out: "sicslowpan_output L (Some dest) s =
     (if uint (uip_len s3) - uint (of_nat ?n :: u8) > int mp - int (length ?c) then
        output_fragments L dest (int mp) (length ?c) (of_nat ?n) s3
      else (let s = poke (length ?c) (take (unat (uip_len s3 - ucast (of_nat ?n :: u8))) (drop (unat (of_nat ?n :: u8)) (uip_buf s3))) s3;
                s = s\<lparr>pbuf := packetbuf_set_datalen (uip_len s - ucast (of_nat ?n :: u8) + of_nat (length ?c)) (pbuf s)\<rparr>
            in Some (1, send_packet L dest s)))"
    unfolding sicslowpan_output_def Let_def prepare_def [unfolded Let_def, symmetric] s0_def [symmetric]
    by (simp only: option.case linkaddr_copy_eq comp prod.case word_zero_le if_True s1_def [symmetric] s2_def [symmetric] fr
      s3_def [symmetric] mp(3))
  have un: "uint (of_nat ?n :: u8) = int ?n" "unat (of_nat ?n :: u8) = ?n" "ucast (of_nat ?n :: u8) = (of_nat ?n :: u16)"
    using n(1) by auto
  have s3: "uip_len s3 = of_nat (length D)" "uip_buf s3 = uip_buf s" "sent (trace s3) = sent (trace s)" "qbufs s3 = qbufs s"
    using hr ul by (simp_all add: header_ready_def)
  have u3: "uint (uip_len s3) = int (length D)" using n(3) unfolding s3(1) uint_nat by (simp add: of_nat_u16)
  show ?thesis
  proof (cases "mp < length ?c + (length D - ?n)")
    case True
    then have "uint (uip_len s3) - uint (of_nat ?n :: u8) > int mp - int (length ?c)" using n(2) unfolding u3 un by linarith
    then have "sicslowpan_output L (Some dest) s = output_fragments L dest (int mp) (length ?c) (of_nat ?n) s3" using out by simp
    then show ?thesis
      using output_fragments_ok [OF L hr refl cl(2) D' n(3) D(2) ul refl n(2) mp(1,2) True free] mp(1,2) by metis
  next
    case False
    then have "\<not> uint (uip_len s3) - uint (of_nat ?n :: u8) > int mp - int (length ?c)" using n(2) unfolding u3 un by linarith
    note out = out [unfolded if_not_P [OF this]]
    let ?pay = "drop ?n D"
    have un3: "uip_len s3 - ucast (of_nat ?n :: u8) = of_nat (length D - ?n)"
      unfolding un s3(1) using n(2) by (simp add: of_nat_diff)
    have py: "take (unat (uip_len s3 - ucast (of_nat ?n :: u8))) (drop (unat (of_nat ?n :: u8)) (uip_buf s3)) = ?pay"
    proof -
      have "unat (of_nat (length D - ?n) :: u16) = length D - ?n" using n(3) by (intro of_nat_u16) simp
      moreover have "take (length D - ?n) (drop ?n (uip_buf s)) = drop ?n (take (length D) (uip_buf s))" by (simp add: drop_take)
      ultimately show ?thesis unfolding un3 un(2) s3(2) using D' [symmetric] by simp
    qed
    define s4 where "s4 = poke (length ?c) ?pay s3"
    define s5 where "s5 = s4\<lparr>pbuf := packetbuf_set_datalen (of_nat (length ?c + length ?pay)) (pbuf s4)\<rparr>"
    have fit: "length ?c + length ?pay \<le> 125" using False mp(2) by simp
    have f4: "fresh_pb (pbuf s4)" unfolding s4_def by (rule fresh_poke) (use fresh fit in simp_all)
    have t4: "take (length ?c + length ?pay) (frame_bytes s4) = ?c @ ?pay"
      unfolding s4_def by (rule take_frame_poke) (use fresh fb fit in simp_all)
    have bl: "unat (pb_buflen (pbuf s5)) = length ?c + length ?pay"
      using of_nat_u16 [of "length ?c + length ?pay"] fit by (simp add: s5_def packetbuf_set_datalen_def del: of_nat_add)
    have f5: "fresh_pb (pbuf s5)" using f4 by (simp add: s5_def packetbuf_set_datalen_def fresh_pb_def)
    have wf5: "pb_wf (pbuf s5)" using fresh_wf [OF f5] bl fit by simp
    have "pb_mem (pbuf s5) = pb_mem (pbuf s4)" by (simp add: s5_def packetbuf_set_datalen_def)
    then have db: "data_bytes (pbuf s5) = ?c @ ?pay" using fresh_parts(2) [OF f5] bl t4 by (simp add: frame_bytes_def)
    have rep5: "qb_rep (qbufs s5) g" "sent (trace s5) = sent (trace s)" using rep s3 by (simp_all add: s5_def s4_def)
    have "uip_len s4 = uip_len s3" by (simp add: s4_def)
    then have dl: "uip_len s4 - ucast (of_nat ?n :: u8) + of_nat (length ?c) = of_nat (length ?c + length ?pay)"
      unfolding of_nat_add length_drop by (simp only: un3 add.commute)
    have o: "sicslowpan_output L (Some dest) s = Some (1, send_packet L dest s5)"
      using out unfolding Let_def py s4_def [symmetric] dl s5_def [symmetric] .
    have "frames (addr_contexts s) (uip_lladdr s) dest mp (my_tag s) D = [?c @ ?pay]"
      using False by (simp add: frames_def Let_def)
    then show ?thesis
      using o send_packet_sync(4) [OF L wf5 rep5(1), of dest] rep5(2) db mp(1,2)
      by (intro exI [of _ "send_packet L dest s5"] exI [of _ "[packetbuf_set_addr ADDR_RECEIVER dest (pbuf s5)]"] exI [of _ mp]) simp
  qed
qed


section \<open>Arbitrary input stays within the buffers\<close>

definition buffers_ok :: "'m sicslowpan \<Rightarrow> bool" where
  "buffers_ok s \<longleftrightarrow> length (sicslowpan_buf s) = UIP_BUFSIZE \<and> length (uip_buf s) = UIP_BUFSIZE \<and>
     unat (sicslowpan_len s) \<le> UIP_BUFSIZE"

lemma set_iid_length: "length a = 16 \<Longrightarrow> length (uip_ds6_set_addr_iid a m) = 16"
  by (cases m) (simp add: uip_ds6_set_addr_iid_def Let_def)

lemma uncompress_addr_length_2:
  assumes "length a = 16" "length p = 2" "16 \<le> length ptr" "k \<in> {0x0f, 0x28, 0x22, 0x20, 0x25, 0x23, 0x21}"
  shows "length (fst (uncompress_addr a p k m ptr)) = 16 \<and> length ptr \<le> length (snd (uncompress_addr a p k m ptr)) + 16"
  using assms(4)
  by (elim insertE emptyE) (use assms(1-3) in \<open>simp_all add: uncompress_addr_def Let_def memcpy_at_def set_iid_length split: option.split\<close>)

lemma uncompress_addr_length_8:
  assumes "length a = 16" "length p = 8" "16 \<le> length ptr" "k \<in> {0x00, 0x88, 0x82, 0x80}"
  shows "length (fst (uncompress_addr a p k m ptr)) = 16 \<and> length ptr \<le> length (snd (uncompress_addr a p k m ptr)) + 16"
  using assms(4)
  by (elim insertE emptyE) (use assms(1-3) in \<open>simp_all add: uncompress_addr_def Let_def memcpy_at_def set_iid_length split: option.split\<close>)

lemma conf_nth:
  assumes "i < 4"
  shows "unc_llconf ! i \<in> {0x0f, 0x28, 0x22, 0x20, 0x25, 0x23, 0x21}" "unc_mxconf ! i \<in> {0x0f, 0x28, 0x22, 0x20, 0x25, 0x23, 0x21}"
    "unc_ctxconf ! i \<in> {0x00, 0x88, 0x82, 0x80}"
proof -
  have "i = 0 \<or> i = 1 \<or> i = 2 \<or> i = 3" using assms by auto
  then show "unc_llconf ! i \<in> {0x0f, 0x28, 0x22, 0x20, 0x25, 0x23, 0x21}" "unc_mxconf ! i \<in> {0x0f, 0x28, 0x22, 0x20, 0x25, 0x23, 0x21}"
    "unc_ctxconf ! i \<in> {0x00, 0x88, 0x82, 0x80}"
    by (auto simp: unc_llconf_def unc_mxconf_def unc_ctxconf_def)
qed

lemma mode_small: "unat ((x :: u8) AND 0x03) < 4"
  using unat_and_mask [of "0x03 :: u8" 2 x] by simp

definition reader_ok :: "nat \<Rightarrow> hc06_reader \<Rightarrow> bool" where
  "reader_ok n r \<longleftrightarrow> length (srcipaddr (r_ip r)) = 16 \<and> length (destipaddr (r_ip r)) = 16 \<and> length (ip_len (r_ip r)) = 2 \<and>
     n \<le> length (r_ptr r)"

lemma reader_fields:
  assumes "reader_ok (n + 6) r"
  shows "reader_ok n (uncompress_ttl i (uncompress_proto i (uncompress_tcflow i r)))"
  using assms by (auto simp: reader_ok_def uncompress_ttl_def uncompress_proto_def uncompress_tcflow_def skip_def set_ip_def Let_def)

lemma lookup_number_wf:
  "ctxs_wf ctxs \<Longrightarrow> addr_context_lookup_by_number ctxs n = Some c \<Longrightarrow> length (ctx_prefix c) = 8"
proof -
  have "addr_context_lookup_by_number ctxs n = Some c \<Longrightarrow> c \<in> set ctxs \<and> ctx_used c = 1"
    by (induction ctxs) (auto split: if_splits)
  then show "ctxs_wf ctxs \<Longrightarrow> addr_context_lookup_by_number ctxs n = Some c \<Longrightarrow> length (ctx_prefix c) = 8"
    by (auto simp: ctxs_wf_def)
qed

lemma reader_src:
  assumes r: "reader_ok (n + 16) r" and c: "ctxs_wf ctxs"
  shows "case uncompress_src ctxs m i1 i2 r of Inl r' \<Rightarrow> reader_ok 0 r' | Inr r' \<Rightarrow> reader_ok n r'"
proof -
  have a: "length (srcipaddr (r_ip r)) = 16" "length (destipaddr (r_ip r)) = 16" "length (ip_len (r_ip r)) = 2" "n + 16 \<le> length (r_ptr r)"
    using r by (simp_all add: reader_ok_def)
  have p: "16 \<le> length (r_ptr r)" using a(4) by simp
  let ?t = "drop_bit 4 (i1 AND 0x30) AND 0x03"
  note conf = conf_nth [OF mode_small [of "drop_bit 4 (i1 AND 0x30)"]]
  have ll: "length llprefix = 2" by (simp add: llprefix_def)
  note 1 = uncompress_addr_length_2 [OF a(1) ll p conf(1), of "Some m"]
  have 2: "?t = 0 \<Longrightarrow> uncompress_addr (srcipaddr (r_ip r)) [] (unc_ctxconf ! unat ?t) (Some m) (r_ptr r) = (replicate 16 0, r_ptr r)"
    using uncompress_none [OF a(1)] by (simp add: unc_ctxconf_def)
  show ?thesis
  proof (cases "addr_context_lookup_by_number ctxs (if i1 AND 0x80 \<noteq> 0 then drop_bit 4 i2 else 0)")
    case None
    then show ?thesis using a 1 2
      by (auto simp: uncompress_src_def Let_def reader_ok_def put_src_def set_ip_def split: if_splits)
  next
    case (Some x)
    note 3 = uncompress_addr_length_8 [OF a(1) lookup_number_wf [OF c Some] p conf(3), of "Some m"]
    show ?thesis using a 1 2 3 Some
      by (auto simp: uncompress_src_def Let_def reader_ok_def put_src_def set_ip_def split: if_splits)
  qed
qed

lemma reader_dest:
  assumes r: "reader_ok (n + 17) r" and c: "ctxs_wf ctxs"
  shows "case uncompress_dest ctxs m i1 i2 r of Inl r' \<Rightarrow> reader_ok 0 r' | Inr r' \<Rightarrow> reader_ok n r'"
proof -
  have a: "length (srcipaddr (r_ip r)) = 16" "length (destipaddr (r_ip r)) = 16" "length (ip_len (r_ip r)) = 2" "n + 17 \<le> length (r_ptr r)"
    using r by (simp_all add: reader_ok_def)
  have p: "16 \<le> length (r_ptr r)" "16 \<le> length (drop 1 (r_ptr r))" using a(4) by simp_all
  let ?t = "drop_bit 0 (i1 AND 0x03) AND 0x03"
  note conf = conf_nth [OF mode_small [of "drop_bit 0 (i1 AND 0x03)"]]
  have ll: "length llprefix = 2" by (simp add: llprefix_def)
  note 1 = uncompress_addr_length_2 [OF a(2) ll p(1) conf(1), of "Some m"]
  have 2: "length (fst (uncompress_addr (destipaddr (r_ip r)) [0xff, 0x02] (unc_mxconf ! unat ?t) None (r_ptr r))) = 16 \<and>
      length (r_ptr r) \<le> length (snd (uncompress_addr (destipaddr (r_ip r)) [0xff, 0x02] (unc_mxconf ! unat ?t) None (r_ptr r))) + 16"
    using uncompress_addr_length_2 [OF a(2) _ p(1) conf(2)] by simp
  have 3: "length (fst (uncompress_addr (destipaddr (r_ip r)) [0xff, r_ptr r ! 0] (unc_mxconf ! unat ?t) None (drop 1 (r_ptr r)))) = 16 \<and>
      length (drop 1 (r_ptr r)) \<le> length (snd (uncompress_addr (destipaddr (r_ip r)) [0xff, r_ptr r ! 0] (unc_mxconf ! unat ?t) None (drop 1 (r_ptr r)))) + 16"
    using uncompress_addr_length_2 [OF a(2) _ p(2) conf(2)] by simp
  show ?thesis
  proof (cases "addr_context_lookup_by_number ctxs (if i1 AND 0x80 \<noteq> 0 then i2 AND 0x0f else 0)")
    case None
    then show ?thesis using a 1 2 3
      by (auto simp: uncompress_dest_def Let_def reader_ok_def put_dest_def set_ip_def split: if_splits)
  next
    case (Some x)
    note 4 = uncompress_addr_length_8 [OF a(2) lookup_number_wf [OF c Some] p(1) conf(3), of "Some m"]
    show ?thesis using a 1 2 3 4 Some
      by (auto simp: uncompress_dest_def Let_def reader_ok_def put_dest_def set_ip_def split: if_splits)
  qed
qed


lemma reader_rest:
  assumes "reader_ok 0 r"
  shows "reader_ok 0 (uncompress_udp r)" "reader_ok 0 (uncompress_len l d (r\<lparr>r_hdr_len := x\<rparr>))"
    "reader_ok 0 (r\<lparr>r_uncomp_hdr_len := y\<rparr>)"
  using assms by (simp_all add: reader_ok_def uncompress_udp_def uncompress_len_def skip_def set_ip_def set_udp_def Let_def)

lemma uncompress_hdr_ok:
  assumes c: "ctxs_wf ctxs" and pb: "unat hl + 48 \<le> length pb"
    and h: "length (srcipaddr h) = 16" "length (destipaddr h) = 16" "length (ip_len h) = 2"
  shows "reader_ok 0 (uncompress_hdr_hc06 ctxs sender receiver frag_len datalen pb h u hl uhl)"
proof -
  let ?buf = "drop (unat hl) pb"
  let ?r = "\<lparr>r_ip = h, r_udp = u, r_hdr_len = hl, r_uncomp_hdr_len = uhl, r_ptr = drop 2 ?buf\<rparr>"
  define r1 where "r1 = (if ?buf ! 1 AND 0x80 \<noteq> 0 then skip 1 ?r else ?r)"
  have "reader_ok (39 + 6) r1" using pb h by (auto simp: r1_def reader_ok_def skip_def)
  then have r2: "reader_ok (23 + 16) (uncompress_ttl (?buf ! 0) (uncompress_proto (?buf ! 0) (uncompress_tcflow (?buf ! 0) r1)))"
    using reader_fields [of 39 r1 "?buf ! 0"] by simp
  define r2 where "r2 = uncompress_ttl (?buf ! 0) (uncompress_proto (?buf ! 0) (uncompress_tcflow (?buf ! 0) r1))"
  note s = reader_src [OF r2 [folded r2_def] c, of sender "?buf ! 1" "?buf ! 2"]
  show ?thesis
  proof (cases "uncompress_src ctxs sender (?buf ! 1) (?buf ! 2) r2")
    case (Inl r3)
    then show ?thesis using s unfolding uncompress_hdr_hc06_def Let_def r1_def [symmetric] r2_def [symmetric] by simp
  next
    case (Inr r3)
    then have r3: "reader_ok (6 + 17) r3" using s by simp
    note d = reader_dest [OF r3 c, of receiver "?buf ! 1" "?buf ! 2"]
    show ?thesis
    proof (cases "uncompress_dest ctxs receiver (?buf ! 1) (?buf ! 2) r3")
      case (Inl r4)
      then show ?thesis using d \<open>uncompress_src ctxs sender (?buf ! 1) (?buf ! 2) r2 = Inr r3\<close>
        unfolding uncompress_hdr_hc06_def Let_def r1_def [symmetric] r2_def [symmetric] by simp
    next
      case (Inr r4)
      then have "reader_ok 0 r4" using d by (simp add: reader_ok_def)
      then have "reader_ok 0 (uncompress_udp (r4\<lparr>r_uncomp_hdr_len := r_uncomp_hdr_len r4 + 40\<rparr>))"
        "reader_ok 0 (r4\<lparr>r_uncomp_hdr_len := r_uncomp_hdr_len r4 + 40\<rparr>)" by (simp_all add: reader_rest)
      then show ?thesis
        using Inr \<open>uncompress_src ctxs sender (?buf ! 1) (?buf ! 2) r2 = Inr r3\<close>
        unfolding uncompress_hdr_hc06_def Let_def r1_def [symmetric] r2_def [symmetric]
        by (simp add: reader_rest(2) del: drop_drop)
    qed
  qed
qed

lemma input_headers_ok:
  assumes b: "buffers_ok s" and c: "ctxs_wf (addr_contexts s)" and pb: "unat (frag_hdr_len f) + 48 \<le> length pb"
    and h: "input_headers pb f s = Some (s', hl, uhl)"
  shows "length (sicslowpan_buf s') = UIP_BUFSIZE" "uip_buf s' = uip_buf s" "sicslowpan_len s' = sicslowpan_len s"
    "trace s' = trace s" "addr_contexts s' = addr_contexts s" "processed_ip_in_len s' = processed_ip_in_len s" "sniffer s' = sniffer s"
proof -
  let ?b = "sicslowpan_buf s"
  have lb: "length ?b = 240" using b by (simp add: buffers_ok_def)
  let ?r = "uncompress_hdr_hc06 (addr_contexts s) (packetbuf_addr ADDR_SENDER (pbuf s)) (packetbuf_addr ADDR_RECEIVER (pbuf s))
     (frag_size f) (packetbuf_datalen (pbuf s)) pb (ip_hdr_of ?b) (udp_hdr_of ?b) (frag_hdr_len f) 0"
  have "reader_ok 0 ?r" using uncompress_hdr_ok [OF c pb] ip_hdr_of_lengths [of ?b] lb by simp
  then have "length (put_hdrs (r_ip ?r) (r_udp ?r) ?b) = 240"
    using hdr_bytes_lengths [of "r_ip ?r"] lb by (simp add: put_hdrs_def reader_ok_def)
  then show "length (sicslowpan_buf s') = UIP_BUFSIZE" "uip_buf s' = uip_buf s" "sicslowpan_len s' = sicslowpan_len s"
    "trace s' = trace s" "addr_contexts s' = addr_contexts s" "processed_ip_in_len s' = processed_ip_in_len s" "sniffer s' = sniffer s"
    using h lb by (auto simp: input_headers_def Let_def split: if_splits)
qed

text \<open>The outcome of one frame: nothing is delivered, or the datagram that lies in \<open>uip_buf\<close>.\<close>

definition input_outcome :: "'m sicslowpan \<Rightarrow> 'm sicslowpan \<Rightarrow> bool" where
  "input_outcome s s' \<longleftrightarrow> buffers_ok s' \<and>
     (delivered (trace s') = delivered (trace s) \<or>
      delivered (trace s') = delivered (trace s) @ [take (unat (uip_len s')) (uip_buf s')] \<and> unat (uip_len s') \<le> UIP_BUFSIZE \<and>
      processed_ip_in_len s' = 0)"

lemma deliver_outcome:
  assumes "buffers_ok s" "delivered (trace s) = delivered (trace s0)"
  shows "input_outcome s0 (deliver s)"
  using assms by (auto simp: input_outcome_def deliver_def buffers_ok_def Let_def call_def set_packet_attrs_def)

lemma reassembly_step_ok:
  assumes "reassembly_step now sender f s = (go, s')" "buffers_ok s"
  shows "buffers_ok s'" "trace s' = trace s" "addr_contexts s' = addr_contexts s" "pbuf s' = pbuf s"
  using assms by (auto simp: reassembly_step_def Let_def drop_reassembly_def buffers_ok_def split: if_splits)

lemma parse_fragment_hdr: "unat (frag_hdr_len (parse_fragment pb d p)) \<le> 5"
  by (simp add: parse_fragment_def Let_def)

lemma input_ok:
  assumes b: "buffers_ok s" and c: "ctxs_wf (addr_contexts s)" and p: "pb_wf (pbuf s)" "unat (pb_bufptr (pbuf s)) \<le> 64"
  shows "input_outcome s (sicslowpan_input now s)"
proof -
  let ?p = "pbuf s"
  define pb where "pb = drop (packetbuf_dataptr ?p) (pb_mem ?p)"
  define s1 where "s1 = (if timer_expired now (reass_timer s) then drop_reassembly (s\<lparr>last_rssi := packetbuf_attr ATTR_RSSI ?p\<rparr>)
      else s\<lparr>last_rssi := packetbuf_attr ATTR_RSSI ?p\<rparr>)"
  have s1': "(if timer_expired now (reass_timer (s\<lparr>last_rssi := packetbuf_attr ATTR_RSSI ?p\<rparr>))
      then drop_reassembly (s\<lparr>last_rssi := packetbuf_attr ATTR_RSSI ?p\<rparr>) else s\<lparr>last_rssi := packetbuf_attr ATTR_RSSI ?p\<rparr>) = s1"
    by (simp add: s1_def)
  define f where "f = parse_fragment pb (packetbuf_datalen ?p) (processed_ip_in_len s1)"
  obtain go s2 where st: "reassembly_step now (packetbuf_addr ADDR_SENDER ?p) f s1 = (go, s2)" by fastforce
  have b1: "buffers_ok s1" "trace s1 = trace s" "addr_contexts s1 = addr_contexts s" "pbuf s1 = pbuf s"
    using b by (simp_all add: s1_def drop_reassembly_def buffers_ok_def)
  note b2 = reassembly_step_ok [OF st b1(1)]
  have same: "input_outcome s s'" if "buffers_ok s'" "trace s' = trace s" for s'
    using that by (simp add: input_outcome_def)
  have u: "sicslowpan_input now s = (if \<not> go then s2 else (case input_headers pb f s2 of None \<Rightarrow> s2 | Some (s3, hdr_len, uh) \<Rightarrow>
         if packetbuf_datalen ?p < ucast hdr_len then s3
         else (let payload_len = packetbuf_datalen ?p - ucast hdr_len; off = push_bit 3 (unat (frag_offset f));
                   req_size = unat uh + off + unat payload_len
               in if req_size > UIP_BUFSIZE then s3
                  else deliver (count_payload f uh payload_len
                     (s3\<lparr>sicslowpan_buf := memcpy_at (sicslowpan_buf s3) (unat uh + off)
                       (take (unat payload_len) (drop (unat hdr_len) pb))\<rparr>)))))"
    unfolding sicslowpan_input_def Let_def pb_def [symmetric] s1' f_def [symmetric] st
    by (cases go) (simp_all split: option.split)
  show ?thesis
  proof (cases "go \<and> input_headers pb f s2 \<noteq> None")
    case False
    then have "sicslowpan_input now s = s2" unfolding u by (cases "input_headers pb f s2") auto
    then show ?thesis using same b1 b2 by simp
  next
    case True
    then obtain s3 hl uh where h: "go" "input_headers pb f s2 = Some (s3, hl, uh)" by (cases "input_headers pb f s2") auto
    have "length (pb_mem ?p) = 176" using p(1) by (simp add: pb_wf_def)
    then have "64 \<le> length pb" using p(2) by (simp add: pb_def packetbuf_dataptr_def)
    then have hp: "unat (frag_hdr_len f) + 48 \<le> length pb" using parse_fragment_hdr [of pb "packetbuf_datalen ?p" "processed_ip_in_len s1"]
      by (simp add: f_def)
    have "ctxs_wf (addr_contexts s2)" using c b1(3) b2(3) by simp
    note b3 = input_headers_ok [OF b2(1) this hp h(2)]
    have ok3: "buffers_ok s3" "trace s3 = trace s" using b3 b2 b1 by (simp_all add: buffers_ok_def)
    define k where "k = packetbuf_datalen ?p - ucast hl"
    define off where "off = push_bit 3 (unat (frag_offset f))"
    show ?thesis
    proof (cases "packetbuf_datalen ?p < ucast hl \<or> UIP_BUFSIZE < unat uh + off + unat k")
      case True
      then have "sicslowpan_input now s = s3" unfolding u h(2) by (auto simp: h(1) Let_def k_def off_def)
      then show ?thesis using same ok3 by simp
    next
      case False
      let ?s4 = "s3\<lparr>sicslowpan_buf := memcpy_at (sicslowpan_buf s3) (unat uh + off) (take (unat k) (drop (unat hl) pb))\<rparr>"
      have "sicslowpan_input now s = deliver (count_payload f uh k ?s4)"
        using False unfolding u h(2) by (simp add: h(1) Let_def k_def off_def)
      moreover have "length (memcpy_at (sicslowpan_buf s3) (unat uh + off) (take (unat k) (drop (unat hl) pb))) = UIP_BUFSIZE"
        using False b3(1) by (subst length_memcpy_at) auto
      then have "buffers_ok ?s4" using ok3(1) by (simp add: buffers_ok_def)
      moreover have "unat (k + ucast uh) \<le> UIP_BUFSIZE"
        using False unat_less_u8 [of uh] by (simp add: unat_word_ariths)
      ultimately show ?thesis using ok3
        by (auto intro!: deliver_outcome simp: count_payload_def buffers_ok_def Let_def)
    qed
  qed
qed

section \<open>Two reactions that lose datagrams\<close>

text \<open>
  While a reassembly is under way, the first fragment of another datagram of the same sender is
  ignored; only another sender's first fragment starts afresh.
\<close>

lemma first_fragment_of_same_sender_ignored:
  assumes r: "reassembling s D tag sender t0 pos" and t: "unat (now - t0) < 384" and D: "length D \<le> UIP_BUFSIZE"
    and p: "carries (pbuf s) (be_bytes (0xc000 OR n) @ be_bytes tag' @ bs) sender receiver" and n: "unat n < 2048" "tag' \<noteq> tag"
  shows "sicslowpan_input now s = s\<lparr>last_rssi := packetbuf_attr ATTR_RSSI (pbuf s)\<rparr>"
proof -
  let ?s = "s\<lparr>last_rssi := packetbuf_attr ATTR_RSSI (pbuf s)\<rparr>"
  obtain rest where pb: "drop (packetbuf_dataptr (pbuf s)) (pb_mem (pbuf s)) = (be_bytes (0xc000 OR n) @ be_bytes tag' @ bs) @ rest"
    by (rule carries_bytes [OF p])
  let ?pb = "be_bytes (0xc000 OR n) @ be_bytes tag' @ bs @ rest"
  define f where "f = parse_fragment ?pb (packetbuf_datalen (pbuf s)) (processed_ip_in_len s)"
  have f: "is_fragment f" "frag_tag f = tag'"
    unfolding f_def parse_fragment_def Let_def GET16_be(1) GET16_be(2) using size_field [OF n(1)] by simp_all
  have e: "\<not> timer_expired now (reass_timer ?s)" using not_expired [OF _ _ t] r by (simp add: reassembling_def)
  have "(of_nat pos :: u16) \<noteq> 0" using r D of_nat_u16 [of pos] by (auto simp: reassembling_def)
  then have st: "reassembly_step now (packetbuf_addr ADDR_SENDER (pbuf s)) f ?s = (False, ?s)"
    using r p n(2) f by (simp add: reassembly_step_def reassembling_def carries_def word_gt_0)
  have pb': "drop (packetbuf_dataptr (pbuf s)) (pb_mem (pbuf s)) = ?pb" using pb by simp
  have "processed_ip_in_len ?s = processed_ip_in_len s" by simp
  then show ?thesis
    unfolding sicslowpan_input_def Let_def pb' if_not_P [OF e] using st f_def by simp
qed

text \<open>
  \<open>last_tx_status\<close> is not reset before a datagram is sent. Over a link layer that reports
  statuses only later, the failure of an earlier frame stops a fragmented datagram after its first
  fragment.
\<close>

lemma stale_status_stops_fragments:
  assumes L: "\<And>p qs m. fst (llsec_send L p qs m) = []" and s: "tx_failed s"
  shows "\<exists>s'. output_fragments L dest mp hl n s = Some (0, s') \<and> length (sent (trace s')) \<le> length (sent (trace s)) + 1"
proof -
  have sp: "last_tx_status (send_packet L dest s) = last_tx_status s"
    "sent (trace (send_packet L dest s)) = sent (trace s) @ [packetbuf_set_addr ADDR_RECEIVER dest (pbuf s)]" for s
    using L [of "packetbuf_set_addr ADDR_RECEIVER dest (pbuf s)" "qbufs s" "link_state s"]
    by (auto simp: send_packet_def Let_def call_def split: prod.split)
  have sf: "last_tx_status (snd (send_fragment L dest h pos k s)) = last_tx_status s \<and>
    length (sent (trace (snd (send_fragment L dest h pos k s)))) \<le> length (sent (trace s)) + 1" for h pos k s
    by (simp add: send_fragment_def Let_def sp split: prod.split)
  define s5 where "s5 = (let s = poke 4 (take hl (drop 48 (pb_mem (pbuf s)))) s; s = SET16 0 (0xc000 OR uip_len s) s;
     s = SET16 2 (my_tag s) s in s\<lparr>my_tag := my_tag s + 1\<rparr>)"
  have s5: "last_tx_status s5 = last_tx_status s" "trace s5 = trace s" by (simp_all add: s5_def Let_def SET16_def)
  obtain ok s6 where f: "send_fragment L dest (hl + 4) (unat n) ((mp - int (hl + 4)) AND - 8) s5 = (ok, s6)" by fastforce
  have s6: "tx_failed s6" "length (sent (trace s6)) \<le> length (sent (trace s)) + 1"
    using sf [of "hl + 4" "unat n" "(mp - int (hl + 4)) AND - 8" s5] s s5 unfolding f by (simp_all add: tx_failed_def)
  show ?thesis
  proof (cases "uint (queuebuf_numfree (pbuf s) (qbufs s)) - 1 < uint (uip_len s) div (125 - 5) + 1")
    case True
    then show ?thesis by (simp add: output_fragments_def Let_def)
  next
    case False
    have "output_fragments L dest mp hl n s = Some (0, s6)"
      unfolding output_fragments_def Let_def if_not_P [OF False] s5_def [unfolded Let_def, symmetric] f
      using s6(1) by (cases ok) simp_all
    then show ?thesis using s6(2) by blast
  qed
qed


section \<open>Properties\<close>

lemma following_frames_length:
  "5 \<le> mp \<Longrightarrow> p = (mp - 5) div 8 * 8 \<Longrightarrow> \<forall>bs \<in> set (following_frames tag D p pos). length bs \<le> mp"
proof (induction tag D p pos rule: following_frames.induct)
  case (1 tag D p pos)
  have "p \<le> mp - 5" using "1.prems"(2) by simp
  then have "5 + min (length D - pos) p \<le> mp" using "1.prems"(1) by linarith
  then show ?case using "1.IH" "1.prems" by (subst following_frames.simps) auto
qed

lemma frames_length:
  assumes "60 \<le> mp" "datagram_wf ctxs D"
  shows "\<forall>bs \<in> set (frames ctxs lladdr dest mp tag D). length bs \<le> mp"
proof -
  let ?c = "compressed ctxs lladdr dest D" and ?n = "uncompressed_len D"
  have "length ?c \<le> 48" using compress_length(2) [OF datagram_hdr_wf(1) [OF assms(2)] compressed_eq] .
  moreover have "(mp - (length ?c + 4)) div 8 * 8 \<le> mp - (length ?c + 4)" by simp
  ultimately have "4 + length ?c + (mp - (length ?c + 4)) div 8 * 8 \<le> mp" using assms(1) by linarith
  then have "length (be_bytes (0xc000 OR of_nat (length D)) @ be_bytes tag @ ?c @ take ((mp - (length ?c + 4)) div 8 * 8) (drop ?n D)) \<le> mp"
    by (simp add: min_def)
  then show ?thesis using following_frames_length [of mp _ tag D] assms(1) by (auto simp: frames_def Let_def)
qed

text \<open>Packets arrive with the bytes and addresses with which they were sent, in order and within three seconds.\<close>

definition transported :: "linkaddr \<Rightarrow> (clock_time \<times> packetbuf) list \<Rightarrow> packetbuf list \<Rightarrow> bool" where
  "transported sender arrivals ps \<longleftrightarrow>
     list_all2 (\<lambda>(now, q) p. carries q (data_bytes p) sender (packetbuf_addr ADDR_RECEIVER p) \<and>
       unat (now - fst (hd arrivals)) < 384) arrivals ps"

lemma transported_arrive:
  assumes "transported sender arrivals ps" "map data_bytes ps = fs" "\<forall>q \<in> set ps. packetbuf_addr ADDR_RECEIVER q = dest"
  shows "arrive arrivals fs sender dest (fst (hd arrivals))"
  using assms unfolding transported_def arrive_def
  by (auto simp: list_all2_map2 intro: list.rel_mono_strong simp flip: assms(2))


lemma input_contexts: "addr_contexts (sicslowpan_input now s) = addr_contexts s"
proof -
  have d: "addr_contexts (deliver s) = addr_contexts s" for s :: "'a sicslowpan"
    by (simp add: deliver_def Let_def call_def set_packet_attrs_def)
  have c: "addr_contexts (count_payload f u k s) = addr_contexts s" for f u k and s :: "'a sicslowpan"
    by (simp add: count_payload_def Let_def)
  have h: "addr_contexts s' = addr_contexts s" if "input_headers pb f s = Some (s', hl, uh)" for pb f hl uh and s s' :: "'a sicslowpan"
    using that by (auto simp: input_headers_def Let_def split: if_splits)
  have r: "addr_contexts (snd (reassembly_step now q f s)) = addr_contexts s" for q f and s :: "'a sicslowpan"
    by (simp add: reassembly_step_def drop_reassembly_def Let_def)
  have e: "addr_contexts (drop_reassembly s) = addr_contexts s" for s :: "'a sicslowpan"
    by (simp add: drop_reassembly_def)
  show ?thesis
    unfolding sicslowpan_input_def Let_def
    by (simp only: case_prod_beta) (auto simp: d c e r dest: h split: bool.split option.split)
qed

text \<open>
  C38. Whatever arrives stays within the buffers. For any sequence of frames of any content, of which
  the layers below have consumed at most 64 bytes, every write to the reassembly buffer and to
  \<open>uip_buf\<close> stays inside its 240 bytes, the announced length of a reassembly never exceeds them,
  every frame makes at most one datagram, and no datagram handed up is longer than the buffer.
\<close>

theorem sicslowpan_input_safe:
  assumes "ctxs_wf (addr_contexts s)" "buffers_ok s"
    and "\<forall>(now, p) \<in> set arrivals. pb_wf p \<and> unat (pb_bufptr p) \<le> 64"
  shows "buffers_ok (receive arrivals s) \<and>
    (\<exists>Ds. delivered (trace (receive arrivals s)) = delivered (trace s) @ Ds \<and> length Ds \<le> length arrivals \<and>
       (\<forall>D \<in> set Ds. length D \<le> UIP_BUFSIZE))"
  using assms
proof (induction arrivals arbitrary: s)
  case (Cons a as)
  obtain now p where a: "a = (now, p)" by (cases a)
  let ?s = "sicslowpan_input now (s\<lparr>pbuf := p\<rparr>)"
  have o: "input_outcome (s\<lparr>pbuf := p\<rparr>) ?s"
    by (rule input_ok) (use Cons.prems a in \<open>simp_all add: buffers_ok_def\<close>)
  have c: "ctxs_wf (addr_contexts ?s)" using Cons.prems(1) by (simp add: input_contexts)
  have b: "buffers_ok ?s" using o by (simp add: input_outcome_def)
  obtain Ds where ih: "buffers_ok (receive as ?s)" "delivered (trace (receive as ?s)) = delivered (trace ?s) @ Ds"
    "length Ds \<le> length as" "\<forall>D \<in> set Ds. length D \<le> UIP_BUFSIZE"
    using Cons.IH [OF c b] Cons.prems(3) by auto
  obtain Es where "delivered (trace ?s) = delivered (trace s) @ Es" "length Es \<le> 1" "\<forall>D \<in> set Es. length D \<le> UIP_BUFSIZE"
  proof (cases "delivered (trace ?s) = delivered (trace s)")
    case True
    then show ?thesis using that [of "[]"] by simp
  next
    case False
    then have "delivered (trace ?s) = delivered (trace s) @ [take (unat (uip_len ?s)) (uip_buf ?s)]" "unat (uip_len ?s) \<le> UIP_BUFSIZE"
      using o by (auto simp: input_outcome_def)
    then show ?thesis using that [of "[take (unat (uip_len ?s)) (uip_buf ?s)]"] by simp
  qed
  then show ?case using ih a by (intro conjI exI [of _ "Es @ Ds"]) auto
qed simp

section \<open>Examples\<close>

definition ether :: "unit link" where
  "ether = \<lparr>framer_length = (\<lambda>p m. (21, p, m)), llsec_overhead = 0, llsec_send = (\<lambda>p qs m. ([(MAC_TX_OK, 1)], p, qs, m))\<rparr>"

definition eight_queuebufs :: queuebufs where
  "eight_queuebufs = raw_queuebufs\<lparr>bufmem := \<lparr>msize = 2, mnum = 8, mcount = replicate 8 0, mmem = 100, mbytes = []\<rparr>,
     buframmem := \<lparr>msize = 270, mnum = 8, mcount = replicate 8 0, mmem = 1000, mbytes = []\<rparr>\<rparr>"

definition example_datagram :: "u8 list" where
  "example_datagram = [0x60, 0, 0, 0, 0, 160, 58, 64,
     0xaa, 0xaa, 0, 0, 0, 0, 0, 0, 0, 0, 0, 0, 0, 0, 0, 1,
     0xaa, 0xaa, 0, 0, 0, 0, 0, 0, 0, 0, 0, 0, 0, 0, 0, 2] @ replicate 160 7"

definition example_node :: "unit sicslowpan" where
  "example_node = \<lparr>uip_buf = example_datagram @ replicate 40 0, uip_len = 200, uip_lladdr = example_sender, pbuf = fresh_packetbuf,
     qbufs = queuebuf_init eight_queuebufs, link_state = (), addr_contexts = sicslowpan_contexts, last_tx_status = MAC_TX_OK,
     sicslowpan_buf = replicate 240 0, sicslowpan_len = 0, processed_ip_in_len = 0, my_tag = 3, reass_tag = 0,
     frag_sender = linkaddr_null, reass_timer = \<lparr>t_start = 0, t_interval = 0\<rparr>, sniffer = False, last_rssi = 0, trace = []\<rparr>"

lemma eight_queuebufs_pools: "qb_pools eight_queuebufs"
proof -
  have w: "memb_wf (bufmem eight_queuebufs)" "memb_wf (refbufmem eight_queuebufs)" "memb_wf (buframmem eight_queuebufs)"
    by (simp_all add: memb_wf_def eight_queuebufs_def raw_queuebufs_def)
  moreover have "card (memb_blocks (bufmem eight_queuebufs)) = card (memb_blocks (buframmem eight_queuebufs))"
    unfolding card_memb_blocks [OF w(1)] card_memb_blocks [OF w(3)] by (simp add: eight_queuebufs_def)
  ultimately show ?thesis by (simp add: qb_pools_def) (simp add: eight_queuebufs_def raw_queuebufs_def memb_inmemb_def)
qed

lemma ether_sync: "link_sync ether"
proof -
  have "\<exists>a b. p = p\<lparr>pb_attrs := a, pb_addrs := b\<rparr>" for p :: packetbuf
    by (intro exI [of _ "pb_attrs p"] exI [of _ "pb_addrs p"]) simp
  then show ?thesis by (auto simp: link_sync_def ether_def)
qed

lemma example_hdr:
  "ip_hdr_of example_datagram = \<lparr>vtc = 0x60, tcflow = 0, flow = 0, ip_len = [0, 160], proto = 58, ttl = 64,
     srcipaddr = [0xaa, 0xaa, 0, 0, 0, 0, 0, 0, 0, 0, 0, 0, 0, 0, 0, 1],
     destipaddr = [0xaa, 0xaa, 0, 0, 0, 0, 0, 0, 0, 0, 0, 0, 0, 0, 0, 2]\<rparr>"
  by (simp add: ip_hdr_of_def example_datagram_def le_u16_def)

lemma example_datagram_wf: "length example_datagram = 200" "datagram_wf sicslowpan_contexts example_datagram"
proof -
  show l: "length example_datagram = 200" by (simp add: example_datagram_def)
  have "\<not> source_lossy sicslowpan_contexts (ip_hdr_of example_datagram)"
    by (simp add: example_hdr source_lossy_def sicslowpan_contexts_def)
  then show "datagram_wf sicslowpan_contexts example_datagram"
    by (simp add: datagram_wf_def uncompressed_len_def l example_hdr len_bytes_def)
qed

definition receive_frame :: "linkaddr \<Rightarrow> packetbuf \<Rightarrow> packetbuf" where
  "receive_frame sender p =
     packetbuf_set_addr ADDR_SENDER sender (packetbuf_set_addr ADDR_RECEIVER (packetbuf_addr ADDR_RECEIVER p)
       (snd (packetbuf_copyfrom (data_bytes p) (of_nat (length (data_bytes p))) fresh_packetbuf)))"

lemma receive_frame_carries:
  assumes "length (data_bytes p) \<le> 125"
  shows "carries (receive_frame sender p) (data_bytes p) sender (packetbuf_addr ADDR_RECEIVER p)"
proof -
  obtain l q where c: "packetbuf_copyfrom (data_bytes p) (of_nat (length (data_bytes p))) fresh_packetbuf = (l, q)" by fastforce
  have u: "unat (of_nat (length (data_bytes p)) :: u16) = length (data_bytes p)" using assms by (intro of_nat_u16) simp
  have "pb_wf q \<and> data_bytes q = data_bytes p \<and> pb_ref q = None"
    using copyfrom_view [OF fresh_packetbuf_wf _ c] assms by (simp add: u)
  then show ?thesis by (simp add: carries_def receive_frame_def c) (simp add: packetbuf_set_addr_def packetbuf_addr_def)
qed


theorem sicslowpan_input_safe_witness: "buffers_ok (receive [(0, fresh_packetbuf), (9, fresh_packetbuf)] example_node)"
proof -
  have "ctxs_wf (addr_contexts example_node)" "buffers_ok example_node"
    using example_wf(1) example_datagram_wf(1) by (simp_all add: example_node_def buffers_ok_def)
  moreover have "pb_wf fresh_packetbuf" "unat (pb_bufptr fresh_packetbuf) \<le> 64"
    using fresh_packetbuf_wf by (simp_all add: fresh_packetbuf_def packetbuf_clear_def packetbuf_attr_clear_def)
  ultimately show ?thesis using sicslowpan_input_safe [of example_node "[(0, fresh_packetbuf), (9, fresh_packetbuf)]"] by simp
qed

end
