(* ===== verification/Ds6.thy ===== *)
theory Ds6
  imports NbrTable Timer Iphc
begin

text \<open>
  Routing data of IPv6: the neighbor cache (\<open>core/net/ipv6/uip-ds6-nbr.c\<close>), the routing table and
  the default routers (\<open>core/net/ipv6/uip-ds6-route.c\<close>), and the packet queues of the neighbors
  (\<open>core/net/ip/uip-packetqueue.c\<close>), with RPL, notifications and packet queues configured as on the
  platform. Two client tables live in the neighbor tables: \<open>ds6_neighbors\<close> and \<open>nbr_routes\<close>, whose
  items are the heads of lists of routes. An evicted neighbor calls back into both files. Fields of
  items and blocks are functions of their address. Callbacks to other modules and neighbor
  solicitations are appended to a trace.
\<close>

section \<open>State\<close>

datatype ds6_call =
    Notify ptr nat ip6addr "ip6addr option" u16
  | Neighbor_state_changed ptr
  | Link_neighbor linkaddr int int
  | Ns_output "ip6addr option" ip6addr

record ds6 =
  nbr_ipaddr :: "ptr \<Rightarrow> ip6addr"
  nbr_reachable :: "ptr \<Rightarrow> stimer"
  nbr_sendns :: "ptr \<Rightarrow> stimer"
  nbr_nscount :: "ptr \<Rightarrow> u8"
  nbr_isrouter :: "ptr \<Rightarrow> u8"
  nbr_state :: "ptr \<Rightarrow> u8"
  nbr_packet :: "ptr \<Rightarrow> ptr"
  packets_memb :: memb
  lifetimer :: "ptr \<Rightarrow> (clock_time \<times> ptr) option"
  queue_buf_len :: "ptr \<Rightarrow> u16"
  route_heap :: list_heap
  routememb :: memb
  neighbor_routes :: "ptr \<Rightarrow> ptr"
  route_ipaddr :: "ptr \<Rightarrow> ip6addr"
  route_length :: "ptr \<Rightarrow> u8"
  num_routes :: u16
  route_list :: "ptr \<Rightarrow> ptr"
  nr_heap :: list_heap
  neighborroutememb :: memb
  nr_route :: "ptr \<Rightarrow> ptr"
  defrt_heap :: list_heap
  defaultroutermemb :: memb
  defrt_ipaddr :: "ptr \<Rightarrow> ip6addr"
  defrt_lifetime :: "ptr \<Rightarrow> stimer"
  defrt_isinfinite :: "ptr \<Rightarrow> bool"
  notif_heap :: list_heap
  notif_callback :: "ptr \<Rightarrow> ptr"
  retrans_timer :: u32
  ds6_uip_len :: u16
  ds6_trace :: "ds6_call list"

type_synonym ds6_sys = "ds6 nbr_sys"

definition ds6_neighbors :: ptr where "ds6_neighbors = 1"
definition nbr_routes :: ptr where "nbr_routes = 2"

abbreviation (input) routelist :: nat where "routelist \<equiv> 0"
abbreviation (input) defaultrouterlist :: nat where "defaultrouterlist \<equiv> 0"
abbreviation (input) notificationlist :: nat where "notificationlist \<equiv> 0"

abbreviation (input) NBR_INCOMPLETE :: u8 where "NBR_INCOMPLETE \<equiv> 0"
abbreviation (input) NBR_REACHABLE :: u8 where "NBR_REACHABLE \<equiv> 1"
abbreviation (input) NBR_STALE :: u8 where "NBR_STALE \<equiv> 2"
abbreviation (input) NBR_DELAY :: u8 where "NBR_DELAY \<equiv> 3"
abbreviation (input) NBR_PROBE :: u8 where "NBR_PROBE \<equiv> 4"

text \<open>The function pointers registered with the neighbor tables.\<close>

definition uip_ds6_nbr_rm_ptr :: ptr where "uip_ds6_nbr_rm_ptr = 1"
definition rm_routelist_callback_ptr :: ptr where "rm_routelist_callback_ptr = 2"

definition upd :: "(ds6 \<Rightarrow> ds6) \<Rightarrow> ds6_sys \<Rightarrow> ds6_sys" where
  "upd f s = s\<lparr>nbr_user := f (nbr_user s)\<rparr>"

definition ds6_call :: "ds6_call \<Rightarrow> ds6 \<Rightarrow> ds6" where
  "ds6_call c d = d\<lparr>ds6_trace := ds6_trace d @ [c]\<rparr>"

section \<open>Packet queues of neighbors\<close>

definition uip_packetqueue_new :: "ptr \<Rightarrow> ds6 \<Rightarrow> ds6" where
  "uip_packetqueue_new handle d = d\<lparr>nbr_packet := (nbr_packet d)(handle := NULL)\<rparr>"

text \<open>Of the callback timer in a packet its interval and argument are kept while it is set.\<close>

definition uip_packetqueue_alloc :: "ptr \<Rightarrow> clock_time \<Rightarrow> ds6 \<Rightarrow> ptr \<times> ds6" where
  "uip_packetqueue_alloc handle lifetime d =
     (if nbr_packet d handle \<noteq> NULL then (NULL, d)
      else case memb_alloc (packets_memb d) of (p, m) \<Rightarrow>
        (p, d\<lparr>packets_memb := m, nbr_packet := (nbr_packet d)(handle := p),
              lifetimer := (if p \<noteq> NULL then (lifetimer d)(p := Some (lifetime, handle)) else lifetimer d)\<rparr>))"

definition uip_packetqueue_free :: "ptr \<Rightarrow> ds6 \<Rightarrow> ds6" where
  "uip_packetqueue_free handle d =
     (let p = nbr_packet d handle
      in if p \<noteq> NULL then
           d\<lparr>lifetimer := (lifetimer d)(p := None), packets_memb := snd (memb_free (packets_memb d) p),
             nbr_packet := (nbr_packet d)(handle := NULL)\<rparr>
         else d)"

definition packet_timedout :: "ptr \<Rightarrow> ds6 \<Rightarrow> ds6" where
  "packet_timedout h d = d\<lparr>packets_memb := snd (memb_free (packets_memb d) (nbr_packet d h)), nbr_packet := (nbr_packet d)(h := NULL)\<rparr>"

text \<open>The buffer of a packet is named by the packet.\<close>

definition uip_packetqueue_buf :: "ptr \<Rightarrow> ds6 \<Rightarrow> ptr option" where
  "uip_packetqueue_buf h d = (if nbr_packet d h \<noteq> NULL then Some (nbr_packet d h) else None)"

definition uip_packetqueue_buflen :: "ptr \<Rightarrow> ds6 \<Rightarrow> u16" where
  "uip_packetqueue_buflen h d = (if nbr_packet d h \<noteq> NULL then queue_buf_len d (nbr_packet d h) else 0)"

definition uip_packetqueue_set_buflen :: "ptr \<Rightarrow> u16 \<Rightarrow> ds6 \<Rightarrow> ds6" where
  "uip_packetqueue_set_buflen h len d =
     (if nbr_packet d h \<noteq> NULL then d\<lparr>queue_buf_len := (queue_buf_len d)(nbr_packet d h := len)\<rparr> else d)"

section \<open>Looking up neighbors\<close>

definition uip_ds6_neighbors_init :: "ds6_sys \<Rightarrow> ds6_sys" where
  "uip_ds6_neighbors_init s = snd (nbr_table_register ds6_neighbors uip_ds6_nbr_rm_ptr s)"

definition uip_ds6_nbr_get_ll :: "ds6_sys \<Rightarrow> ptr \<Rightarrow> linkaddr option" where
  "uip_ds6_nbr_get_ll s nbr = nbr_table_get_lladdr s ds6_neighbors nbr"

definition uip_ds6_nbr_get_ipaddr :: "ds6_sys \<Rightarrow> ptr \<Rightarrow> ip6addr option" where
  "uip_ds6_nbr_get_ipaddr s nbr = (if nbr \<noteq> NULL then Some (nbr_ipaddr (nbr_user s) nbr) else None)"

partial_function (option) count_loop :: "ds6_sys \<Rightarrow> ptr \<Rightarrow> u16 \<Rightarrow> u16 option" where
  "count_loop s nbr num =
     (if nbr \<noteq> NULL then do {
        nbr \<leftarrow> nbr_table_next s ds6_neighbors nbr;
        count_loop s nbr (num + 1)
      } else Some num)"

definition uip_ds6_nbr_num :: "ds6_sys \<Rightarrow> u16 option" where
  "uip_ds6_nbr_num s = do { nbr \<leftarrow> nbr_table_head s ds6_neighbors; count_loop s nbr 0 }"

partial_function (option) nbr_lookup_loop :: "ds6_sys \<Rightarrow> ip6addr \<Rightarrow> ptr \<Rightarrow> ptr option" where
  "nbr_lookup_loop s ipaddr nbr =
     (if nbr \<noteq> NULL then
        if nbr_ipaddr (nbr_user s) nbr = ipaddr then Some nbr
        else do {
          nbr \<leftarrow> nbr_table_next s ds6_neighbors nbr;
          nbr_lookup_loop s ipaddr nbr
        }
      else Some NULL)"

definition uip_ds6_nbr_lookup :: "ds6_sys \<Rightarrow> ip6addr option \<Rightarrow> ptr option" where
  "uip_ds6_nbr_lookup s ipaddr = do {
     nbr \<leftarrow> nbr_table_head s ds6_neighbors;
     case ipaddr of None \<Rightarrow> Some NULL | Some a \<Rightarrow> nbr_lookup_loop s a nbr
   }"

definition uip_ds6_nbr_ll_lookup :: "ds6_sys \<Rightarrow> linkaddr option \<Rightarrow> ptr option" where
  "uip_ds6_nbr_ll_lookup s lladdr = nbr_table_get_from_lladdr s ds6_neighbors lladdr"

definition uip_ds6_nbr_ipaddr_from_lladdr :: "ds6_sys \<Rightarrow> linkaddr option \<Rightarrow> ip6addr option option" where
  "uip_ds6_nbr_ipaddr_from_lladdr s lladdr = do {
     nbr \<leftarrow> uip_ds6_nbr_ll_lookup s lladdr;
     Some (if nbr \<noteq> NULL then Some (nbr_ipaddr (nbr_user s) nbr) else None)
   }"

definition uip_ds6_nbr_lladdr_from_ipaddr :: "ds6_sys \<Rightarrow> ip6addr option \<Rightarrow> linkaddr option option" where
  "uip_ds6_nbr_lladdr_from_ipaddr s ipaddr = do {
     nbr \<leftarrow> uip_ds6_nbr_lookup s ipaddr;
     Some (if nbr \<noteq> NULL then uip_ds6_nbr_get_ll s nbr else None)
   }"

definition uip_ds6_link_neighbor_callback :: "packetbuf \<Rightarrow> int \<Rightarrow> int \<Rightarrow> ds6 \<Rightarrow> ds6" where
  "uip_ds6_link_neighbor_callback p status numtx d =
     (let dest = packetbuf_addr ADDR_RECEIVER p
      in if linkaddr_cmp dest linkaddr_null then d else ds6_call (Link_neighbor dest status numtx) d)"

section \<open>Notifications\<close>

abbreviation (input) DEFRT_ADD :: nat where "DEFRT_ADD \<equiv> 0"
abbreviation (input) DEFRT_RM :: nat where "DEFRT_RM \<equiv> 1"
abbreviation (input) ROUTE_ADD :: nat where "ROUTE_ADD \<equiv> 2"
abbreviation (input) ROUTE_RM :: nat where "ROUTE_RM \<equiv> 3"

partial_function (option) notify_loop :: "nat \<Rightarrow> ip6addr \<Rightarrow> ip6addr option \<Rightarrow> ptr \<Rightarrow> ds6 \<Rightarrow> ds6 option" where
  "notify_loop event route nexthop n d =
     (if n \<noteq> NULL then do {
        num \<leftarrow> (if event = DEFRT_ADD \<or> event = DEFRT_RM then list_length (defrt_heap d) defaultrouterlist else Some (num_routes d));
        notify_loop event route nexthop (list_item_next (notif_heap d) n)
          (ds6_call (Notify (notif_callback d n) event route nexthop num) d)
      } else Some d)"

definition call_route_callback :: "nat \<Rightarrow> ip6addr \<Rightarrow> ip6addr option \<Rightarrow> ds6 \<Rightarrow> ds6 option" where
  "call_route_callback event route nexthop d = notify_loop event route nexthop (list_head (notif_heap d) notificationlist) d"

definition uip_ds6_notification_add :: "ptr \<Rightarrow> ptr \<Rightarrow> ds6 \<Rightarrow> ds6 option" where
  "uip_ds6_notification_add n c d =
     (if n \<noteq> NULL \<and> c \<noteq> NULL then do {
        h \<leftarrow> list_add (notif_heap d) notificationlist n;
        Some (d\<lparr>notif_callback := (notif_callback d)(n := c), notif_heap := h\<rparr>)
      } else Some d)"

definition uip_ds6_notification_rm :: "ptr \<Rightarrow> ds6 \<Rightarrow> ds6 option" where
  "uip_ds6_notification_rm n d = do {
     h \<leftarrow> list_remove (notif_heap d) notificationlist n;
     Some (d\<lparr>notif_heap := h\<rparr>)
   }"

text \<open>Run an operation of the ds6 data inside the neighbor system.\<close>

definition lift :: "(ds6 \<Rightarrow> ds6 option) \<Rightarrow> ds6_sys \<Rightarrow> ds6_sys option" where
  "lift f s = do { d \<leftarrow> f (nbr_user s); Some (s\<lparr>nbr_user := d\<rparr>) }"

section \<open>Routes\<close>

definition uip_ds6_route_init :: "ds6_sys \<Rightarrow> ds6_sys" where
  "uip_ds6_route_init s =
     (let s = upd (\<lambda>d. d\<lparr>routememb := memb_init (routememb d), route_heap := list_init (route_heap d) routelist\<rparr>) s;
          s = snd (nbr_table_register nbr_routes rm_routelist_callback_ptr s)
      in upd (\<lambda>d. d\<lparr>defaultroutermemb := memb_init (defaultroutermemb d), defrt_heap := list_init (defrt_heap d) defaultrouterlist,
           notif_heap := list_init (notif_heap d) notificationlist\<rparr>) s)"

definition uip_ds6_route_nexthop_lladdr :: "ds6_sys \<Rightarrow> ptr \<Rightarrow> linkaddr option" where
  "uip_ds6_route_nexthop_lladdr s route =
     (if route \<noteq> NULL then nbr_table_get_lladdr s nbr_routes (neighbor_routes (nbr_user s) route) else None)"

definition uip_ds6_route_nexthop :: "ds6_sys \<Rightarrow> ptr \<Rightarrow> ip6addr option option" where
  "uip_ds6_route_nexthop s route =
     (if route \<noteq> NULL then uip_ds6_nbr_ipaddr_from_lladdr s (uip_ds6_route_nexthop_lladdr s route) else Some None)"

definition uip_ds6_route_head :: "ds6 \<Rightarrow> ptr" where
  "uip_ds6_route_head d = list_head (route_heap d) routelist"

definition uip_ds6_route_next :: "ds6 \<Rightarrow> ptr \<Rightarrow> ptr" where
  "uip_ds6_route_next d r = (if r \<noteq> NULL then list_item_next (route_heap d) r else NULL)"

definition uip_ds6_route_num_routes :: "ds6 \<Rightarrow> u16" where
  "uip_ds6_route_num_routes d = num_routes d"

text \<open>\<open>memcmp\<close> on whole bytes of the prefix.\<close>

definition uip_ipaddr_prefixcmp :: "ip6addr \<Rightarrow> ip6addr \<Rightarrow> u8 \<Rightarrow> bool" where
  "uip_ipaddr_prefixcmp a b len \<longleftrightarrow> take (unat (drop_bit 3 len)) a = take (unat (drop_bit 3 len)) b"

partial_function (option) match_loop :: "ds6 \<Rightarrow> ip6addr \<Rightarrow> ptr \<Rightarrow> ptr \<Rightarrow> u8 \<Rightarrow> ptr option" where
  "match_loop d addr r found_route longestmatch =
     (if r \<noteq> NULL then
        if longestmatch \<le> route_length d r \<and> uip_ipaddr_prefixcmp addr (route_ipaddr d r) (route_length d r) then
          if route_length d r = 128 then Some r
          else match_loop d addr (uip_ds6_route_next d r) r (route_length d r)
        else match_loop d addr (uip_ds6_route_next d r) found_route longestmatch
      else Some found_route)"

definition uip_ds6_route_lookup :: "ip6addr \<Rightarrow> ds6 \<Rightarrow> (ptr \<times> ds6) option" where
  "uip_ds6_route_lookup addr d = do {
     r \<leftarrow> match_loop d addr (uip_ds6_route_head d) NULL 0;
     if r \<noteq> NULL \<and> r \<noteq> list_head (route_heap d) routelist then do {
       h \<leftarrow> list_remove (route_heap d) routelist r;
       h \<leftarrow> list_push h routelist r;
       Some (r, d\<lparr>route_heap := h\<rparr>)
     } else Some (r, d)
   }"

partial_function (option) nr_loop :: "ds6 \<Rightarrow> ptr \<Rightarrow> ptr \<Rightarrow> ptr option" where
  "nr_loop d route nr =
     (if nr \<noteq> NULL \<and> nr_route d nr \<noteq> route then nr_loop d route (list_item_next (nr_heap d) nr) else Some nr)"

definition uip_ds6_route_rm :: "ptr \<Rightarrow> ds6_sys \<Rightarrow> ds6_sys option" where
  "uip_ds6_route_rm route s =
     (let d = nbr_user s; routes = neighbor_routes d route
      in if route \<noteq> NULL \<and> routes \<noteq> NULL then do {
           h \<leftarrow> list_remove (route_heap d) routelist route;
           nr \<leftarrow> nr_loop d route (list_head (nr_heap d) (route_list d routes));
           nh \<leftarrow> list_remove (nr_heap d) (route_list d routes) nr;
           let s = upd (\<lambda>d. d\<lparr>route_heap := h, nr_heap := nh\<rparr>) s;
           let s = (if list_head nh (route_list d routes) = NULL
                    then snd (nbr_table_remove s nbr_routes (route_list d routes)) else s);
           let s = upd (\<lambda>d. d\<lparr>routememb := snd (memb_free (routememb d) route),
                             neighborroutememb := snd (memb_free (neighborroutememb d) nr),
                             num_routes := num_routes d - 1\<rparr>) s;
           nexthop \<leftarrow> uip_ds6_route_nexthop s route;
           lift (call_route_callback ROUTE_RM (route_ipaddr d route) nexthop) s
         } else Some s)"

partial_function (option) rm_routelist_loop :: "ptr \<Rightarrow> ds6_sys \<Rightarrow> ds6_sys option" where
  "rm_routelist_loop routes s =
     (let d = nbr_user s; r = list_head (nr_heap d) (route_list d routes)
      in if r \<noteq> NULL then do {
           s \<leftarrow> uip_ds6_route_rm (nr_route d r) s;
           rm_routelist_loop routes s
         } else Some s)"

definition rm_routelist :: "ptr \<Rightarrow> ds6_sys \<Rightarrow> ds6_sys option" where
  "rm_routelist routes s =
     (if routes \<noteq> NULL \<and> route_list (nbr_user s) routes \<noteq> NULL then do {
        s \<leftarrow> rm_routelist_loop routes s;
        Some (snd (nbr_table_remove s nbr_routes routes))
      } else Some s)"

definition uip_ds6_route_rm_by_nexthop :: "ip6addr option \<Rightarrow> ds6_sys \<Rightarrow> ds6_sys option" where
  "uip_ds6_route_rm_by_nexthop nexthop s = do {
     lladdr \<leftarrow> uip_ds6_nbr_lladdr_from_ipaddr s nexthop;
     routes \<leftarrow> nbr_table_get_from_lladdr s nbr_routes lladdr;
     rm_routelist routes s
   }"

section \<open>Removing and adding neighbors\<close>

definition uip_ds6_nbr_rm :: "ptr \<Rightarrow> ds6_sys \<Rightarrow> ds6_sys" where
  "uip_ds6_nbr_rm nbr s =
     (if nbr \<noteq> NULL
      then snd (nbr_table_remove (upd (\<lambda>d. ds6_call (Neighbor_state_changed nbr) (uip_packetqueue_free nbr d)) s) ds6_neighbors nbr)
      else s)"

text \<open>
  The callbacks of the neighbor tables: those of the two tables here and those of other modules, a
  parameter. A callback that did not return would leave the state as it is; Ds6Evict shows that
  the callbacks return.
\<close>

definition ds6_callback :: "ds6 nbr_callback \<Rightarrow> ds6 nbr_callback" where
  "ds6_callback other f item s =
     (if f = uip_ds6_nbr_rm_ptr then uip_ds6_nbr_rm item s
      else if f = rm_routelist_callback_ptr then (case rm_routelist item s of None \<Rightarrow> s | Some s' \<Rightarrow> s')
      else other f item s)"

definition uip_ds6_nbr_add ::
    "ds6 nbr_callback \<Rightarrow> u32 \<Rightarrow> ip6addr \<Rightarrow> linkaddr option \<Rightarrow> u8 \<Rightarrow> u8 \<Rightarrow> ds6_sys \<Rightarrow> (ptr \<times> ds6_sys) option" where
  "uip_ds6_nbr_add other now ipaddr lladdr isrouter state s = do {
     (nbr, s) \<leftarrow> nbr_table_add_lladdr (ds6_callback other) s ds6_neighbors lladdr;
     if nbr \<noteq> NULL then
       Some (nbr, upd (\<lambda>d.
         let d = d\<lparr>nbr_ipaddr := (nbr_ipaddr d)(nbr := ipaddr), nbr_isrouter := (nbr_isrouter d)(nbr := isrouter),
                   nbr_state := (nbr_state d)(nbr := state)\<rparr>;
             d = uip_packetqueue_new nbr d;
             d = d\<lparr>nbr_reachable := (nbr_reachable d)(nbr := stimer_set now 0 (nbr_reachable d nbr)),
                   nbr_sendns := (nbr_sendns d)(nbr := stimer_set now 0 (nbr_sendns d nbr)),
                   nbr_nscount := (nbr_nscount d)(nbr := 0)\<rparr>
         in ds6_call (Neighbor_state_changed nbr) d) s)
     else Some (NULL, s)
   }"

text \<open>
  Adding a route, in four parts: drop the last route of a full table; find or make the entry of the
  next hop in the table of neighbors; allocate the route and its entry in the list of the neighbor and
  enter them; and the whole function. \<open>null_bytes\<close> is what the 16 bytes at address 0 hold: the next hop
  of the route found may be \<open>NULL\<close>, and is compared all the same.
\<close>

definition make_room :: "ds6_sys \<Rightarrow> ds6_sys option" where
  "make_room s =
     (if uip_ds6_route_num_routes (nbr_user s) = mnum (routememb (nbr_user s)) then do {
        oldest \<leftarrow> list_tail (route_heap (nbr_user s)) routelist;
        uip_ds6_route_rm oldest s
      } else Some s)"

definition routes_of :: "ds6 nbr_callback \<Rightarrow> linkaddr option \<Rightarrow> ds6_sys \<Rightarrow> (ptr \<times> ds6_sys) option" where
  "routes_of other nexthop_lladdr s = do {
     routes \<leftarrow> nbr_table_get_from_lladdr s nbr_routes nexthop_lladdr;
     if routes = NULL then do {
       (routes, s) \<leftarrow> nbr_table_add_lladdr (ds6_callback other) s nbr_routes nexthop_lladdr;
       Some (routes, if routes = NULL then s
         else upd (\<lambda>d. d\<lparr>route_list := (route_list d)(routes := routes), nr_heap := list_init (nr_heap d) routes\<rparr>) s)
     } else Some (routes, s)
   }"

definition enter_route :: "ptr \<Rightarrow> ip6addr \<Rightarrow> u8 \<Rightarrow> ds6 \<Rightarrow> (ptr \<times> ds6) option" where
  "enter_route routes ipaddr len d =
     (case memb_alloc (routememb d) of (r, m) \<Rightarrow>
        if r = NULL then Some (NULL, d)
        else do {
          h \<leftarrow> list_push (route_heap d) routelist r;
          let d = d\<lparr>routememb := m, route_heap := h\<rparr>;
          (case memb_alloc (neighborroutememb d) of (nr, m) \<Rightarrow>
             if nr = NULL then Some (NULL, d\<lparr>routememb := snd (memb_free (routememb d) r)\<rparr>)
             else do {
               nh \<leftarrow> list_add (nr_heap d) (route_list d routes) nr;
               Some (r, d\<lparr>neighborroutememb := m, nr_route := (nr_route d)(nr := r), nr_heap := nh,
                 neighbor_routes := (neighbor_routes d)(r := routes), num_routes := num_routes d + 1,
                 route_ipaddr := (route_ipaddr d)(r := ipaddr), route_length := (route_length d)(r := len)\<rparr>)
             })
        })"

definition uip_ds6_route_add ::
    "ds6 nbr_callback \<Rightarrow> ip6addr \<Rightarrow> ip6addr \<Rightarrow> u8 \<Rightarrow> ip6addr \<Rightarrow> ds6_sys \<Rightarrow> (ptr \<times> ds6_sys) option" where
  "uip_ds6_route_add other null_bytes ipaddr len nexthop s = do {
     nexthop_lladdr \<leftarrow> uip_ds6_nbr_lladdr_from_ipaddr s (Some nexthop);
     if nexthop_lladdr = None then Some (NULL, s)
     else do {
       (r, d) \<leftarrow> uip_ds6_route_lookup ipaddr (nbr_user s);
       let s = s\<lparr>nbr_user := d\<rparr>;
       current_nexthop \<leftarrow> uip_ds6_route_nexthop s r;
       if r \<noteq> NULL \<and> nexthop = (case current_nexthop of None \<Rightarrow> null_bytes | Some a \<Rightarrow> a) then Some (r, s)
       else do {
         s \<leftarrow> (if r \<noteq> NULL then uip_ds6_route_rm r s else Some s);
         s \<leftarrow> make_room s;
         (routes, s) \<leftarrow> routes_of other nexthop_lladdr s;
         if routes = NULL then Some (NULL, s)
         else do {
           (r, d) \<leftarrow> enter_route routes ipaddr len (nbr_user s);
           let s = s\<lparr>nbr_user := d\<rparr>;
           if r = NULL then Some (NULL, s)
           else do {
             s \<leftarrow> lift (call_route_callback ROUTE_ADD ipaddr (Some nexthop)) s;
             Some (r, s)
           }
         }
       }
     }
   }"

section \<open>Default routers\<close>

partial_function (option) defrt_lookup_loop :: "ds6 \<Rightarrow> ip6addr \<Rightarrow> ptr \<Rightarrow> ptr option" where
  "defrt_lookup_loop d ipaddr p =
     (if p \<noteq> NULL then
        if defrt_ipaddr d p = ipaddr then Some p else defrt_lookup_loop d ipaddr (list_item_next (defrt_heap d) p)
      else Some NULL)"

definition uip_ds6_defrt_lookup :: "ip6addr \<Rightarrow> ds6 \<Rightarrow> ptr option" where
  "uip_ds6_defrt_lookup ipaddr d = defrt_lookup_loop d ipaddr (list_head (defrt_heap d) defaultrouterlist)"

definition uip_ds6_defrt_add :: "u32 \<Rightarrow> ip6addr \<Rightarrow> u32 \<Rightarrow> ds6 \<Rightarrow> (ptr \<times> ds6) option" where
  "uip_ds6_defrt_add now ipaddr interval d = do {
     p \<leftarrow> uip_ds6_defrt_lookup ipaddr d;
     (p, d) \<leftarrow>
       (if p = NULL then
          (case memb_alloc (defaultroutermemb d) of (p, m) \<Rightarrow>
             if p = NULL then Some (NULL, d)
             else do {
               h \<leftarrow> list_push (defrt_heap d) defaultrouterlist p;
               Some (p, d\<lparr>defaultroutermemb := m, defrt_heap := h\<rparr>)
             })
        else Some (p, d));
     if p = NULL then Some (NULL, d)
     else do {
       let d = d\<lparr>defrt_ipaddr := (defrt_ipaddr d)(p := ipaddr)\<rparr>;
       let d = (if interval \<noteq> 0
                then d\<lparr>defrt_lifetime := (defrt_lifetime d)(p := stimer_set now interval (defrt_lifetime d p)),
                       defrt_isinfinite := (defrt_isinfinite d)(p := False)\<rparr>
                else d\<lparr>defrt_isinfinite := (defrt_isinfinite d)(p := True)\<rparr>);
       d \<leftarrow> call_route_callback DEFRT_ADD ipaddr (Some ipaddr) d;
       Some (p, d)
     }
   }"

partial_function (option) defrt_rm_loop :: "ptr \<Rightarrow> ptr \<Rightarrow> ds6 \<Rightarrow> ds6 option" where
  "defrt_rm_loop defrt p d =
     (if p \<noteq> NULL then
        if p = defrt then do {
          h \<leftarrow> list_remove (defrt_heap d) defaultrouterlist defrt;
          call_route_callback DEFRT_RM (defrt_ipaddr d defrt) (Some (defrt_ipaddr d defrt))
            (d\<lparr>defrt_heap := h, defaultroutermemb := snd (memb_free (defaultroutermemb d) defrt)\<rparr>)
        } else defrt_rm_loop defrt (list_item_next (defrt_heap d) p) d
      else Some d)"

definition uip_ds6_defrt_rm :: "ptr \<Rightarrow> ds6 \<Rightarrow> ds6 option" where
  "uip_ds6_defrt_rm defrt d = defrt_rm_loop defrt (list_head (defrt_heap d) defaultrouterlist) d"

partial_function (option) defrt_choose_loop :: "ds6_sys \<Rightarrow> ip6addr option \<Rightarrow> ptr \<Rightarrow> ip6addr option option" where
  "defrt_choose_loop s addr p =
     (if p \<noteq> NULL then do {
        bestnbr \<leftarrow> uip_ds6_nbr_lookup s (Some (defrt_ipaddr (nbr_user s) p));
        if bestnbr \<noteq> NULL \<and> nbr_state (nbr_user s) bestnbr \<noteq> NBR_INCOMPLETE then Some (Some (defrt_ipaddr (nbr_user s) p))
        else defrt_choose_loop s (Some (defrt_ipaddr (nbr_user s) p)) (list_item_next (defrt_heap (nbr_user s)) p)
      } else Some addr)"

definition uip_ds6_defrt_choose :: "ds6_sys \<Rightarrow> ip6addr option option" where
  "uip_ds6_defrt_choose s = defrt_choose_loop s None (list_head (defrt_heap (nbr_user s)) defaultrouterlist)"

partial_function (option) defrt_periodic_loop :: "u32 \<Rightarrow> ptr \<Rightarrow> ds6 \<Rightarrow> ds6 option" where
  "defrt_periodic_loop now p d =
     (if p \<noteq> NULL then
        if \<not> defrt_isinfinite d p \<and> stimer_expired now (defrt_lifetime d p) then do {
          d \<leftarrow> uip_ds6_defrt_rm p d;
          defrt_periodic_loop now (list_head (defrt_heap d) defaultrouterlist) d
        } else defrt_periodic_loop now (list_item_next (defrt_heap d) p) d
      else Some d)"

definition uip_ds6_defrt_periodic :: "u32 \<Rightarrow> ds6 \<Rightarrow> ds6 option" where
  "uip_ds6_defrt_periodic now d = defrt_periodic_loop now (list_head (defrt_heap d) defaultrouterlist) d"

section \<open>Neighbor unreachability detection\<close>

text \<open>
  \<open>uip_nd6_ns_output\<close> puts a solicitation into \<open>uip_buf\<close>; what it leaves in \<open>uip_len\<close> (0 when
  there is no source address) is the parameter \<open>ns_len\<close>.
\<close>

definition uip_nd6_ns_output :: "(ip6addr option \<Rightarrow> ip6addr \<Rightarrow> u16) \<Rightarrow> ip6addr option \<Rightarrow> ip6addr \<Rightarrow> ds6 \<Rightarrow> ds6" where
  "uip_nd6_ns_output ns_len dest tgt d = ds6_call (Ns_output dest tgt) (d\<lparr>ds6_uip_len := ns_len dest tgt\<rparr>)"

text \<open>The switch on the state of one neighbor.\<close>

definition nud_switch :: "(ip6addr option \<Rightarrow> ip6addr \<Rightarrow> u16) \<Rightarrow> u32 \<Rightarrow> ptr \<Rightarrow> ds6_sys \<Rightarrow> ds6_sys option" where
  "nud_switch ns_len now nbr s =
     (let d = nbr_user s; state = nbr_state d nbr; ip = nbr_ipaddr d nbr
      in if state = NBR_REACHABLE then
           (if stimer_expired now (nbr_reachable d nbr) then do {
              defrt \<leftarrow> uip_ds6_defrt_lookup ip d;
              Some (if defrt \<noteq> NULL
                then upd (\<lambda>d. d\<lparr>nbr_state := (nbr_state d)(nbr := NBR_DELAY),
                       nbr_reachable := (nbr_reachable d)(nbr := stimer_set now 5 (nbr_reachable d nbr)),
                       nbr_nscount := (nbr_nscount d)(nbr := 0)\<rparr>) s
                else upd (\<lambda>d. d\<lparr>nbr_state := (nbr_state d)(nbr := NBR_STALE)\<rparr>) s)
            } else Some s)
         else if state = NBR_INCOMPLETE then
           (if 3 \<le> nbr_nscount d nbr then Some (uip_ds6_nbr_rm nbr s)
            else if stimer_expired now (nbr_sendns d nbr) \<and> ds6_uip_len d = 0 then
              Some (upd (\<lambda>d. uip_nd6_ns_output ns_len None ip (d\<lparr>nbr_nscount := (nbr_nscount d)(nbr := nbr_nscount d nbr + 1)\<rparr>)
                \<lparr>nbr_sendns := (nbr_sendns d)(nbr := stimer_set now (retrans_timer d div 1000) (nbr_sendns d nbr))\<rparr>) s)
            else Some s)
         else if state = NBR_DELAY then
           Some (if stimer_expired now (nbr_reachable d nbr)
             then upd (\<lambda>d. d\<lparr>nbr_state := (nbr_state d)(nbr := NBR_PROBE), nbr_nscount := (nbr_nscount d)(nbr := 0),
                    nbr_sendns := (nbr_sendns d)(nbr := stimer_set now 0 (nbr_sendns d nbr))\<rparr>) s
             else s)
         else if state = NBR_PROBE then
           (if 3 \<le> nbr_nscount d nbr then do {
              locdefrt \<leftarrow> uip_ds6_defrt_lookup ip d;
              s \<leftarrow> (if locdefrt \<noteq> NULL \<and> \<not> defrt_isinfinite d locdefrt then lift (uip_ds6_defrt_rm locdefrt) s else Some s);
              Some (uip_ds6_nbr_rm nbr s)
            }
            else if stimer_expired now (nbr_sendns d nbr) \<and> ds6_uip_len d = 0 then
              Some (upd (\<lambda>d. uip_nd6_ns_output ns_len (Some ip) ip (d\<lparr>nbr_nscount := (nbr_nscount d)(nbr := nbr_nscount d nbr + 1)\<rparr>)
                \<lparr>nbr_sendns := (nbr_sendns d)(nbr := stimer_set now (retrans_timer d div 1000) (nbr_sendns d nbr))\<rparr>) s)
            else Some s)
         else Some s)"

partial_function (option) neighbor_periodic_loop ::
    "(ip6addr option \<Rightarrow> ip6addr \<Rightarrow> u16) \<Rightarrow> u32 \<Rightarrow> ptr \<Rightarrow> ds6_sys \<Rightarrow> ds6_sys option" where
  "neighbor_periodic_loop ns_len now nbr s =
     (if nbr \<noteq> NULL then do {
        s \<leftarrow> nud_switch ns_len now nbr s;
        nbr \<leftarrow> nbr_table_next s ds6_neighbors nbr;
        neighbor_periodic_loop ns_len now nbr s
      } else Some s)"

definition uip_ds6_neighbor_periodic :: "(ip6addr option \<Rightarrow> ip6addr \<Rightarrow> u16) \<Rightarrow> u32 \<Rightarrow> ds6_sys \<Rightarrow> ds6_sys option" where
  "uip_ds6_neighbor_periodic ns_len now s = do {
     nbr \<leftarrow> nbr_table_head s ds6_neighbors;
     neighbor_periodic_loop ns_len now nbr s
   }"

text \<open>Both lifetimes that are compared are those of the same neighbor; \<open>curr\<close> is a \<open>clock_time_t\<close>.\<close>

partial_function (option) least_lifetime_loop :: "u32 \<Rightarrow> ds6_sys \<Rightarrow> ptr \<Rightarrow> ptr \<Rightarrow> ptr option" where
  "least_lifetime_loop now s nbr nbr_expiring =
     (if nbr \<noteq> NULL then do {
        next_nbr \<leftarrow> nbr_table_next s ds6_neighbors nbr;
        let rem = stimer_remaining now (nbr_reachable (nbr_user s) nbr);
        let curr = (ucast rem :: clock_time);
        least_lifetime_loop now s next_nbr (if nbr_expiring \<noteq> NULL then if ucast curr < rem then nbr else nbr_expiring else nbr)
      } else Some nbr_expiring)"

definition uip_ds6_get_least_lifetime_neighbor :: "u32 \<Rightarrow> ds6_sys \<Rightarrow> ptr option" where
  "uip_ds6_get_least_lifetime_neighbor now s = do {
     nbr \<leftarrow> nbr_table_head s ds6_neighbors;
     least_lifetime_loop now s nbr NULL
   }"

end
