(* ===== verification/Ds6Routes.thy ===== *)
theory Ds6Routes
  imports Ds6 NbrLock
begin

text \<open>
  Lemmas on the routing table of Ds6: the representation of its lists and pools, one lemma per
  operation, and what each leaves alone.
\<close>

section \<open>Notifications\<close>

lemma upd_sel [simp]:
  "nbr_user (upd f s) = f (nbr_user s)" "used_map (upd f s) = used_map s" "locked_map (upd f s) = locked_map s"
  "all_tables (upd f s) = all_tables s" "num_tables (upd f s) = num_tables s" "tables (upd f s) = tables s"
  "neighbor_addr_mem (upd f s) = neighbor_addr_mem s" "nbr_heap (upd f s) = nbr_heap s" "key_lladdr (upd f s) = key_lladdr s"
  "item_mem (upd f s) = item_mem s"
  by (simp_all add: upd_def)

lemma ds6_call_eq: "ds6_call c d = d\<lparr>ds6_trace := ds6_trace d @ [c]\<rparr>"
  by (simp add: ds6_call_def)

lemma notify_loop_chain:
  assumes "lchain (lnext (notif_heap d)) n ns" "is_list (defrt_heap d) defaultrouterlist ds"
  shows "\<exists>tr. notify_loop event route nexthop n d = Some (d\<lparr>ds6_trace := tr\<rparr>)"
  using assms
proof (induction ns arbitrary: n d)
  case Nil
  then show ?case by (subst notify_loop.simps) (auto intro: exI [of _ "ds6_trace d"])
next
  case (Cons m ns)
  then have n: "n = m" "m \<noteq> NULL" "lchain (lnext (notif_heap d)) (lnext (notif_heap d) m) ns" by auto
  have "\<exists>num. (if event = DEFRT_ADD \<or> event = DEFRT_RM then list_length (defrt_heap d) defaultrouterlist else Some (num_routes d)) = Some num"
    using list_length_is_list [OF Cons.prems(2)] by simp
  then obtain num where num: "(if event = DEFRT_ADD \<or> event = DEFRT_RM then list_length (defrt_heap d) defaultrouterlist else Some (num_routes d)) = Some num" ..
  let ?d = "ds6_call (Notify (notif_callback d m) event route nexthop num) d"
  obtain tr where "notify_loop event route nexthop (lnext (notif_heap d) m) ?d = Some (?d\<lparr>ds6_trace := tr\<rparr>)"
    using Cons.IH [of ?d "lnext (notif_heap d) m"] n(3) Cons.prems(2) by (auto simp: ds6_call_eq)
  then show ?case using n num by (subst notify_loop.simps) (auto simp: ds6_call_eq list_item_next_def)
qed

text \<open>The default routers \<open>ds\<close>, and what every operation needs of the lists of default routers and of listeners.\<close>

definition routers_rep :: "ds6 \<Rightarrow> ptr list \<Rightarrow> bool" where
  "routers_rep d ds \<longleftrightarrow> is_list (defrt_heap d) defaultrouterlist ds \<and> memb_wf (defaultroutermemb d) \<and>
     memb_live (defaultroutermemb d) = set ds \<and> inj_on (defrt_ipaddr d) (set ds)"

definition lists_ok :: "ds6 \<Rightarrow> bool" where
  "lists_ok d \<longleftrightarrow> (\<exists>ns. is_list (notif_heap d) notificationlist ns) \<and> (\<exists>ds. routers_rep d ds)"

lemma call_route_callback_ok:
  assumes "lists_ok d"
  shows "\<exists>tr. call_route_callback event route nexthop d = Some (d\<lparr>ds6_trace := tr\<rparr>)"
  using assms notify_loop_chain unfolding lists_ok_def routers_rep_def call_route_callback_def is_list_def list_head_def by blast

section \<open>Routes and neighbors represented\<close>

text \<open>
  \<open>rs\<close> are the routes in the list, the last used first; \<open>nb\<close> gives the entry of a route in the list of
  its neighbor, \<open>rl\<close> the routes of a neighbor, \<open>I\<close> are the items of the table \<open>nbr_routes\<close>.
\<close>

definition routes_rep :: "ds6 \<Rightarrow> ptr set \<Rightarrow> ptr list \<Rightarrow> (ptr \<Rightarrow> ptr) \<Rightarrow> (ptr \<Rightarrow> ptr list) \<Rightarrow> bool" where
  "routes_rep d I rs nb rl \<longleftrightarrow>
     is_list (route_heap d) routelist rs \<and> memb_wf (routememb d) \<and> memb_live (routememb d) = set rs \<and>
     num_routes d = of_nat (length rs) \<and>
     memb_wf (neighborroutememb d) \<and> mnum (neighborroutememb d) = mnum (routememb d) \<and>
     memb_live (neighborroutememb d) = nb ` set rs \<and> (\<forall>r \<in> set rs. nr_route d (nb r) = r) \<and>
     (\<forall>r \<in> set rs. neighbor_routes d r \<in> I \<and> r \<in> set (rl (neighbor_routes d r))) \<and>
     (\<forall>i \<in> I. i \<noteq> NULL \<and> route_list d i = i \<and> is_list (nr_heap d) i (map nb (rl i)) \<and> rl i \<noteq> [] \<and>
        (\<forall>r \<in> set (rl i). r \<in> set rs \<and> neighbor_routes d r = i))"

lemma routes_repD:
  assumes "routes_rep d I rs nb rl"
  shows "is_list (route_heap d) routelist rs" "memb_wf (routememb d)" "memb_live (routememb d) = set rs"
    "num_routes d = of_nat (length rs)" "memb_wf (neighborroutememb d)" "mnum (neighborroutememb d) = mnum (routememb d)"
    "memb_live (neighborroutememb d) = nb ` set rs"
    and "\<And>r. r \<in> set rs \<Longrightarrow> nr_route d (nb r) = r"
    and "\<And>r. r \<in> set rs \<Longrightarrow> neighbor_routes d r \<in> I"
    and "\<And>r. r \<in> set rs \<Longrightarrow> r \<in> set (rl (neighbor_routes d r))"
    and "\<And>i. i \<in> I \<Longrightarrow> i \<noteq> NULL" "\<And>i. i \<in> I \<Longrightarrow> route_list d i = i" "\<And>i. i \<in> I \<Longrightarrow> is_list (nr_heap d) i (map nb (rl i))"
    and "\<And>i. i \<in> I \<Longrightarrow> rl i \<noteq> []" "\<And>i r. i \<in> I \<Longrightarrow> r \<in> set (rl i) \<Longrightarrow> r \<in> set rs"
    and "\<And>i r. i \<in> I \<Longrightarrow> r \<in> set (rl i) \<Longrightarrow> neighbor_routes d r = i"
  using assms unfolding routes_rep_def by blast+

lemma routes_rep_facts:
  assumes "routes_rep d I rs nb rl"
  shows "distinct rs" "NULL \<notin> set rs" "inj_on nb (set rs)" "\<And>i. i \<in> I \<Longrightarrow> distinct (rl i)"
    and "\<And>r. r \<in> set rs \<Longrightarrow> nb r \<noteq> NULL"
proof -
  note D = routes_repD [OF assms]
  show "distinct rs" by (rule is_list_distinct [OF D(1)])
  show "NULL \<notin> set rs" by (rule is_list_not_null [OF D(1)])
  show "inj_on nb (set rs)" using D(8) by (metis inj_onI)
  show "distinct (rl i)" if "i \<in> I" for i using is_list_distinct [OF D(13) [OF that]] by (simp add: distinct_map)
  show "nb r \<noteq> NULL" if "r \<in> set rs" for r
  proof -
    have "nb r \<in> set (map nb (rl (neighbor_routes d r)))" using D(10) [OF that] by simp
    then show ?thesis using is_list_not_null [OF D(13) [OF D(9) [OF that]]] by metis
  qed
qed

lemma routes_rep_length:
  assumes "routes_rep d I rs nb rl"
  shows "length rs \<le> unat (mnum (routememb d))"
proof -
  note D = routes_repD [OF assms]
  have "length rs = card (memb_live (routememb d))" using D(3) routes_rep_facts(1) [OF assms] by (simp add: distinct_card)
  also have "\<dots> \<le> card (memb_blocks (routememb d))" by (rule card_mono [OF mb.finite_blocks mb.live_blocks])
  also have "\<dots> \<le> unat (mnum (routememb d))" unfolding memb_blocks_def
    using card_image_le [of "{..<unat (mnum (routememb d))}" "block_ptr (routememb d)"] by simp
  finally show ?thesis .
qed

lemma nr_loop_chain:
  assumes "lchain (lnext (nr_heap d)) p (map nb xs)" "r \<in> set xs" "\<And>x. x \<in> set xs \<Longrightarrow> nr_route d (nb x) = x"
  shows "nr_loop d r p = Some (nb r)"
  using assms
proof (induction xs arbitrary: p)
  case (Cons x xs)
  then have p: "p = nb x" "nb x \<noteq> NULL" "lchain (lnext (nr_heap d)) (lnext (nr_heap d) (nb x)) (map nb xs)" by auto
  show ?case
  proof (cases "x = r")
    case True
    then show ?thesis using p Cons.prems(3) by (subst nr_loop.simps) simp
  next
    case False
    then have "nr_loop d r (lnext (nr_heap d) (nb x)) = Some (nb r)" using Cons.IH [OF p(3)] Cons.prems by simp
    then show ?thesis using p False Cons.prems(3) by (subst nr_loop.simps) (simp add: list_item_next_def)
  qed
qed simp

section \<open>Removing a route\<close>

lemma map_remove1_inj: "inj_on f (insert x (set xs)) \<Longrightarrow> map f (remove1 x xs) = remove1 (f x) (map f xs)"
proof (induction xs)
  case (Cons y ys)
  have "inj_on f (insert x (set ys))" by (rule inj_on_subset [OF Cons.prems]) auto
  moreover have "f x = f y \<longleftrightarrow> x = y" using Cons.prems by (auto simp: inj_on_def)
  ultimately show ?case using Cons.IH by auto
qed simp

text \<open>The state after \<open>uip_ds6_route_rm\<close> took \<open>r\<close> out of the lists and freed its two blocks.\<close>

definition route_removed :: "ptr \<Rightarrow> ptr \<Rightarrow> list_heap \<Rightarrow> list_heap \<Rightarrow> ds6 \<Rightarrow> ds6" where
  "route_removed r nr h nh d = d\<lparr>route_heap := h, nr_heap := nh, routememb := snd (memb_free (routememb d) r),
     neighborroutememb := snd (memb_free (neighborroutememb d) nr), num_routes := num_routes d - 1\<rparr>"

lemma memb_free_base:
  assumes "memb_wf m"
  shows "mnum (snd (memb_free m p)) = mnum m" "memb_wf (snd (memb_free m p))" "memb_live (snd (memb_free m p)) = memb_live m - {p}"
proof -
  show "memb_wf (snd (memb_free m p))" "memb_live (snd (memb_free m p)) = memb_live m - {p}"
    using mb.free_ok [OF assms, of p "fst (memb_free m p)"] by simp_all
  show "mnum (snd (memb_free m p)) = mnum m"
  proof (cases "p \<in> memb_blocks m")
    case True
    then show ?thesis using memb_free_block [OF assms] by (auto simp: memb_blocks_def)
  next
    case False
    then show ?thesis using memb_free_foreign [OF assms] by simp
  qed
qed

lemma route_rm_lists:
  assumes rep: "routes_rep d I rs nb rl" and r: "r \<in> set rs" and i: "i = neighbor_routes d r"
  shows "\<exists>h nh. list_remove (route_heap d) routelist r = Some h \<and>
    nr_loop d r (list_head (nr_heap d) i) = Some (nb r) \<and> list_remove (nr_heap d) i (nb r) = Some nh \<and>
    (list_head nh i = NULL \<longleftrightarrow> remove1 r (rl i) = []) \<and> is_list nh i (map nb (remove1 r (rl i))) \<and>
    routes_rep (route_removed r (nb r) h nh d) (if remove1 r (rl i) = [] then I - {i} else I) (remove1 r rs) nb
      (rl(i := remove1 r (rl i)))"
proof -
  note D = routes_repD [OF rep] and F = routes_rep_facts [OF rep]
  have iI: "i \<in> I" and ri: "r \<in> set (rl i)" using D(9,10) [OF r] i by simp_all
  have sub: "set (rl j) \<subseteq> set rs" if "j \<in> I" for j using D(15) [OF that] by blast
  obtain h where h: "list_remove (route_heap d) routelist r = Some h" "is_list h routelist (remove1 r rs)"
    using list_remove_is_list [OF D(1)] by blast
  have nrl: "nr_loop d r (list_head (nr_heap d) i) = Some (nb r)"
    using nr_loop_chain [of d "list_head (nr_heap d) i" nb "rl i" r] D(13) [OF iI] ri D(8) sub [OF iI]
    unfolding is_list_def list_head_def by blast
  obtain nh where nh: "list_remove (nr_heap d) i (nb r) = Some nh" "is_list nh i (remove1 (nb r) (map nb (rl i)))"
    "same_outside i (set (map nb (rl i))) (nr_heap d) nh"
    using list_remove_is_list [OF D(13) [OF iI]] by blast
  have "inj_on nb (insert r (set (rl i)))" by (rule inj_on_subset [OF F(3)]) (use sub [OF iI] r in simp)
  then have m: "remove1 (nb r) (map nb (rl i)) = map nb (remove1 r (rl i))" by (simp add: map_remove1_inj)
  have head: "list_head nh i = NULL \<longleftrightarrow> remove1 r (rl i) = []"
    using list_head_is_list [OF nh(2)] is_list_not_null [OF nh(2)] unfolding m by (cases "remove1 r (rl i)") auto
  have other: "is_list nh j (map nb (rl j))" if "j \<in> I" "j \<noteq> i" for j
  proof -
    have "set (map nb (rl j)) \<inter> set (map nb (rl i)) = {}"
    proof (rule ccontr)
      assume "set (map nb (rl j)) \<inter> set (map nb (rl i)) \<noteq> {}"
      then obtain x y where "x \<in> set (rl j)" "y \<in> set (rl i)" "nb x = nb y" by auto
      moreover from this have "x = y" using F(3) sub [OF that(1)] sub [OF iI] by (meson inj_onD subsetD)
      ultimately show False using D(16) [OF that(1)] D(16) [OF iI] that(2) by blast
    qed
    then show ?thesis using is_list_other [OF D(13) [OF that(1)] nh(3) that(2)] by blast
  qed
  have rm: "set (remove1 r rs) = set rs - {r}" "length rs = Suc (length (remove1 r rs))"
    using F(1) r by (simp_all add: length_remove1) (cases rs; simp)
  have rmi: "set (remove1 r (rl i)) = set (rl i) - {r}" using F(4) [OF iI] by simp
  have live: "memb_live (snd (memb_free (neighborroutememb d) (nb r))) = nb ` set (remove1 r rs)"
    using memb_free_base(3) [OF D(5)] D(7) rm(1) F(3) r by (auto simp: inj_on_def)
  let ?d = "route_removed r (nb r) h nh d" and ?rl = "rl(i := remove1 r (rl i))" and ?I = "if remove1 r (rl i) = [] then I - {i} else I"
  have e: "route_heap ?d = h" "nr_heap ?d = nh" "routememb ?d = snd (memb_free (routememb d) r)"
    "neighborroutememb ?d = snd (memb_free (neighborroutememb d) (nb r))" "num_routes ?d = num_routes d - 1"
    "nr_route ?d = nr_route d" "neighbor_routes ?d = neighbor_routes d" "route_list ?d = route_list d"
    by (simp_all add: route_removed_def)
  have "routes_rep ?d ?I (remove1 r rs) nb ?rl"
    unfolding routes_rep_def e
  proof (intro conjI ballI)
    show "memb_live (snd (memb_free (routememb d) r)) = set (remove1 r rs)" using memb_free_base(3) [OF D(2)] D(3) rm(1) by simp
    show "num_routes d - 1 = of_nat (length (remove1 r rs))" using D(4) unfolding rm(2) by simp
    show "mnum (snd (memb_free (neighborroutememb d) (nb r))) = mnum (snd (memb_free (routememb d) r))"
      using memb_free_base(1) D(2,5,6) by simp
    fix x assume x: "x \<in> set (remove1 r rs)"
    then have xs: "x \<in> set rs" "x \<noteq> r" using rm(1) by auto
    show "nr_route d (nb x) = x" by (rule D(8) [OF xs(1)])
    show in_rl: "x \<in> set (?rl (neighbor_routes d x))" using D(10) [OF xs(1)] rmi xs(2) by auto
    show "neighbor_routes d x \<in> ?I" using D(9) [OF xs(1)] in_rl by auto
  next
    fix j assume "j \<in> ?I"
    then have j: "j \<in> I" "j = i \<Longrightarrow> remove1 r (rl i) \<noteq> []" by (auto split: if_splits)
    show "j \<noteq> NULL" "route_list d j = j" using D(11,12) [OF j(1)] .
    show "is_list nh j (map nb (?rl j))" using other j nh(2) m by (cases "j = i") auto
    show "?rl j \<noteq> []" using j D(14) by auto
    fix x assume "x \<in> set (?rl j)"
    then have x: "x \<in> set (rl j)" "x \<noteq> r" using rmi D(16) [OF j(1), of r] i by (auto split: if_splits)
    show "x \<in> set (remove1 r rs)" using D(15) [OF j(1) x(1)] x(2) rm(1) by simp
    show "neighbor_routes d x = j" by (rule D(16) [OF j(1) x(1)])
  qed (use h memb_free_base D(2,5) live in simp_all)
  then show ?thesis using h(1) nrl nh(1) head nh(2) [unfolded m] by (intro exI conjI)
qed

section \<open>Giving up neighbors\<close>

text \<open>\<open>s'\<close> has given up neighbors of the table \<open>t\<close> and is otherwise as \<open>s\<close>, up to the client data.\<close>

definition trimmed :: "ptr \<Rightarrow> 'u nbr_sys \<Rightarrow> 'u nbr_sys \<Rightarrow> bool" where
  "trimmed t s s' \<longleftrightarrow> shrunk s s' \<and> item_mem s' = item_mem s \<and>
     (\<forall>i < length (used_map s). \<forall>n. n \<noteq> nt_index (tables s t) \<longrightarrow> bit (used_map s' ! i) n = bit (used_map s ! i) n)"

lemma trimmed_refl [simp]: "trimmed t s s"
  by (simp add: trimmed_def)

lemma trimmed_trans: "trimmed t s s1 \<Longrightarrow> trimmed t s1 s2 \<Longrightarrow> trimmed t s s2"
  unfolding trimmed_def
proof (elim conjE, intro conjI allI impI)
  assume sh: "shrunk s s1" "shrunk s1 s2" and i: "item_mem s1 = item_mem s" "item_mem s2 = item_mem s1"
    and a: "\<forall>i < length (used_map s). \<forall>n. n \<noteq> nt_index (tables s t) \<longrightarrow> bit (used_map s1 ! i) n = bit (used_map s ! i) n"
      "\<forall>i < length (used_map s1). \<forall>n. n \<noteq> nt_index (tables s1 t) \<longrightarrow> bit (used_map s2 ! i) n = bit (used_map s1 ! i) n"
  show "shrunk s s2" by (rule shrunk_trans [OF sh])
  show "item_mem s2 = item_mem s" using i by simp
  have e: "length (used_map s1) = length (used_map s)" "tables s1 = tables s" using sh(1) by (simp_all add: shrunk_def)
  show "bit (used_map s2 ! i) n = bit (used_map s ! i) n" if "i < length (used_map s)" "n \<noteq> nt_index (tables s t)" for i n
    using a(1) [rule_format, OF that] a(2) [unfolded e, rule_format, OF that] by simp
qed

lemma shrunk_upd [simp]: "shrunk s (upd f s')  = shrunk s s'" "shrunk s (s'\<lparr>nbr_user := d\<rparr>) = shrunk s s'"
  by (simp_all add: shrunk_def)

lemma trimmed_upd [simp]: "trimmed t s (upd f s') = trimmed t s s'" "trimmed t s (s'\<lparr>nbr_user := d\<rparr>) = trimmed t s s'"
  by (simp_all add: trimmed_def)

lemma set_bit_clears:
  "length (snd (nbr_set_bit m s t item False)) = length m"
  "i < length m \<Longrightarrow> bit (snd (nbr_set_bit m s t item False) ! i) n \<Longrightarrow> bit (m ! i) n"
  "n \<noteq> nt_index (tables s t) \<Longrightarrow> i < length m \<Longrightarrow> bit (snd (nbr_set_bit m s t item False) ! i) n = bit (m ! i) n"
proof -
  define j where "j = nat (index_from_item s t item)"
  have e: "snd (nbr_set_bit m s t item False) = m[j := m ! j AND NOT (push_bit (nt_index (tables s t)) 1)] \<or>
    snd (nbr_set_bit m s t item False) = m"
    by (simp add: nbr_set_bit_def Let_def j_def)
  then show "length (snd (nbr_set_bit m s t item False)) = length m" by auto
  show "bit (m ! i) n" if "i < length m" "bit (snd (nbr_set_bit m s t item False) ! i) n"
    using e that by (cases "i = j") (auto simp: bit_and_iff simp del: push_bit_of_1)
  show "bit (snd (nbr_set_bit m s t item False) ! i) n = bit (m ! i) n" if "n \<noteq> nt_index (tables s t)" "i < length m"
  proof -
    have "bit (push_bit (nt_index (tables s t)) 1 :: u8) n = False" using that(1) by (auto simp: bit_exp_iff)
    moreover have "bit (m ! i) n \<Longrightarrow> n < 8" using bit_imp_le_length [of "m ! i" n] by simp
    ultimately show ?thesis using e that by (cases "i = j") (auto simp: bit_and_iff bit_not_iff simp del: push_bit_of_1)
  qed
qed

lemma nbr_table_remove_eq:
  "snd (nbr_table_remove s t item) = s\<lparr>used_map := snd (nbr_set_bit (used_map s) s t item False),
     locked_map := snd (nbr_set_bit (locked_map s) s t item False)\<rparr>"
proof -
  have "nbr_set_bit m (s\<lparr>used_map := u\<rparr>) t item v = nbr_set_bit m s t item v" for m u v
    by (simp add: nbr_set_bit_def index_from_item_def)
  then show ?thesis by (simp add: nbr_table_remove_def case_prod_beta Let_def)
qed

lemma trimmed_remove: "trimmed t s (snd (nbr_table_remove s t item))"
proof -
  let ?s = "snd (nbr_table_remove s t item)"
  have "\<forall>i < length (used_map s). \<forall>n. bit (used_map ?s ! i) n \<longrightarrow> bit (used_map s ! i) n"
    "\<forall>i < length (locked_map s). \<forall>n. bit (locked_map ?s ! i) n \<longrightarrow> bit (locked_map s ! i) n"
    unfolding nbr_table_remove_eq using set_bit_clears(2) by (simp_all, blast+)
  then have "shrunk s ?s" unfolding shrunk_def by (simp add: nbr_table_remove_eq set_bit_clears(1))
  moreover have "\<forall>i < length (used_map s). \<forall>n. n \<noteq> nt_index (tables s t) \<longrightarrow> bit (used_map ?s ! i) n = bit (used_map s ! i) n"
    unfolding nbr_table_remove_eq by (simp add: set_bit_clears(3))
  ultimately show ?thesis unfolding trimmed_def by (simp add: nbr_table_remove_eq)
qed

lemma nbr_user_remove [simp]: "nbr_user (snd (nbr_table_remove s t item)) = nbr_user s"
  by (simp add: nbr_table_remove_eq)

lemma mem_items: "i \<in> set (items s t ks) \<longleftrightarrow> (\<exists>k \<in> set ks. in_table s t k \<and> i = item_at s t (kidx s k))"
  by (auto simp: items_def)

lemma item_at_inj:
  assumes "nbr_inv s ks" "table_ok s t" "k \<in> set ks" "k' \<in> set ks" "item_at s t (kidx s k) = item_at s t (kidx s k')"
  shows "k = k'"
proof -
  have "key_from_item s t (item_at s t (kidx s k)) = k" "key_from_item s t (item_at s t (kidx s k')) = k'"
    using item_from_key_live [OF assms(1,2)] assms(3,4) by blast+
  then show ?thesis using assms(5) by metis
qed

lemma distinct_items:
  assumes "nbr_inv s ks" "table_ok s t"
  shows "distinct (items s t ks)"
proof -
  have d: "distinct ks" using assms(1) is_list_distinct [of "nbr_heap s" nbr_table_keys ks] by (simp add: nbr_inv_def)
  have "inj_on (\<lambda>k. item_at s t (kidx s k)) (set (filter (in_table s t) ks))"
    by (rule inj_onI) (use item_at_inj [OF assms] in simp)
  then show ?thesis unfolding items_def using d by (simp add: distinct_map)
qed

lemma trimmed_inv:
  assumes "trimmed t s s'"
  shows "nbr_inv s ks \<Longrightarrow> nbr_inv s' ks" "table_ok s' t' = table_ok s t'" "key_lladdr s' = key_lladdr s" "tables s' = tables s"
    "kidx s' k = kidx s k" "key_from_item s' t' i = key_from_item s t' i"
proof -
  have sh: "shrunk s s'" using assms by (simp add: trimmed_def)
  show "nbr_inv s ks \<Longrightarrow> nbr_inv s' ks" by (rule shrunk_inv [OF sh])
  show "table_ok s' t' = table_ok s t'" by (rule table_ok_shrunk [OF sh])
  show "key_lladdr s' = key_lladdr s" "tables s' = tables s" using sh by (simp_all add: shrunk_def)
  show "kidx s' k = kidx s k" using index_from_key_shrunk [OF sh] by simp
  show "key_from_item s' t' i = key_from_item s t' i"
    using sh by (simp add: shrunk_def key_from_item_def index_from_item_def key_from_index_def)
qed

lemma trimmed_other:
  assumes "trimmed t s s'" "nbr_inv s ks" "nt_index (tables s t') \<noteq> nt_index (tables s t)"
  shows "items s' t' ks = items s t' ks"
proof -
  have "in_table s' t' k = in_table s t' k" if "k \<in> set ks" for k
  proof -
    have "kidx s k < nbrs s" by (rule live_index [OF assms(2) that]) simp
    then show ?thesis using assms trimmed_inv(4,5) [OF assms(1)]
      by (simp add: in_table_def trimmed_def nbr_inv_def)
  qed
  then have "filter (in_table s' t') ks = filter (in_table s t') ks" by (intro filter_cong) simp_all
  then show ?thesis unfolding items_def trimmed_inv(4,5) [OF assms(1)] by simp
qed

lemma image_except: "A = insert k B \<Longrightarrow> \<forall>x \<in> B. f x \<noteq> f k \<Longrightarrow> {f x |x. x \<in> B \<and> P x} = {f x |x. x \<in> A \<and> P x} - {f k}"
  by auto

lemma items_removed_key:
  assumes inv: "nbr_inv s ks" "table_ok s t" and k: "k \<in> set ks"
  shows "set (items (snd (nbr_table_remove s t (item_at s t (kidx s k)))) t ks) = set (items s t ks) - {item_at s t (kidx s k)}"
proof -
  obtain as bs where ks: "ks = as @ k # bs" using k by (meson split_list)
  define f where "f x = item_at s t (kidx s x)" for x
  have "distinct ks" using inv(1) is_list_distinct [of "nbr_heap s" nbr_table_keys ks] by (simp add: nbr_inv_def)
  then have A: "k \<notin> set (as @ bs)" "set ks = insert k (set (as @ bs))" using ks by auto
  then have "f x \<noteq> f k" if "x \<in> set (as @ bs)" for x
    using item_at_inj [OF inv, of x k] k that unfolding f_def by blast
  then have n: "\<forall>x \<in> set (as @ bs). f x \<noteq> f k" by blast
  have "set (items s t xs) = {f x |x. x \<in> set xs \<and> in_table s t x}" for xs
    unfolding f_def by (auto simp only: mem_items)
  then have "set (items s t (as @ bs)) = set (items s t ks) - {f k}" by (simp only: image_except [OF A(2) n])
  then show ?thesis using items_remove [OF inv ks] by (simp only: f_def)
qed

lemma items_removed:
  assumes "nbr_inv s ks" "table_ok s t" "i \<in> set (items s t ks)"
  shows "set (items (snd (nbr_table_remove s t i)) t ks) = set (items s t ks) - {i}"
proof -
  obtain k where "k \<in> set ks" "i = item_at s t (kidx s k)" using assms(3) unfolding mem_items by blast
  then show ?thesis using items_removed_key [OF assms(1,2)] by blast
qed

section \<open>Removing routes in the whole system\<close>

abbreviation route_items :: "ds6_sys \<Rightarrow> ptr list \<Rightarrow> ptr set" where
  "route_items s ks \<equiv> set (items s nbr_routes ks)"

lemma table_upd [simp]:
  "index_from_key (upd f s) k = index_from_key s k" "index_from_key (s\<lparr>nbr_user := d\<rparr>) k = index_from_key s k"
  "in_table (upd f s) t k = in_table s t k" "in_table (s\<lparr>nbr_user := d\<rparr>) t k = in_table s t k"
  by (simp_all add: in_table_def index_from_key_def)

lemma items_upd [simp]: "items (upd f s) t ks = items s t ks" "items (s\<lparr>nbr_user := d\<rparr>) t ks = items s t ks"
  by (induction ks) simp_all

lemma routes_rep_cong:
  assumes "routes_rep d I rs nb rl"
    and "route_heap d' = route_heap d" "routememb d' = routememb d" "num_routes d' = num_routes d" "nr_heap d' = nr_heap d"
      "neighborroutememb d' = neighborroutememb d" "nr_route d' = nr_route d" "neighbor_routes d' = neighbor_routes d"
      "route_list d' = route_list d"
  shows "routes_rep d' I rs nb rl"
  using assms(1) unfolding routes_rep_def assms(2-) .

lemma nexthop_total:
  assumes "nbr_inv s ks"
  shows "\<exists>x. uip_ds6_route_nexthop s r = Some x"
  using index_from_lladdr_eq [OF assms]
  by (simp add: uip_ds6_route_nexthop_def uip_ds6_nbr_ipaddr_from_lladdr_def uip_ds6_nbr_ll_lookup_def nbr_table_get_from_lladdr_def
      Let_def)

text \<open>What the operations on routes leave alone in the data of this module.\<close>

definition route_part :: "ds6 \<Rightarrow> ds6 \<Rightarrow> bool" where
  "route_part d d' \<longleftrightarrow>
     nbr_ipaddr d' = nbr_ipaddr d \<and> nbr_reachable d' = nbr_reachable d \<and>
     nbr_sendns d' = nbr_sendns d \<and> nbr_nscount d' = nbr_nscount d \<and>
     nbr_isrouter d' = nbr_isrouter d \<and> nbr_state d' = nbr_state d \<and> nbr_packet d' = nbr_packet d \<and>
     packets_memb d' = packets_memb d \<and> lifetimer d' = lifetimer d \<and>
     queue_buf_len d' = queue_buf_len d \<and> defrt_heap d' = defrt_heap d \<and>
     defaultroutermemb d' = defaultroutermemb d \<and> defrt_ipaddr d' = defrt_ipaddr d \<and>
     defrt_lifetime d' = defrt_lifetime d \<and> defrt_isinfinite d' = defrt_isinfinite d \<and>
     notif_heap d' = notif_heap d \<and> notif_callback d' = notif_callback d \<and>
     retrans_timer d' = retrans_timer d \<and> ds6_uip_len d' = ds6_uip_len d"

lemma route_part_refl [simp]: "route_part d d"
  by (simp add: route_part_def)

lemma route_part_trans: "route_part d d1 \<Longrightarrow> route_part d1 d2 \<Longrightarrow> route_part d d2"
  by (simp add: route_part_def)

lemma route_part_lists: "route_part d d' \<Longrightarrow> lists_ok d' = lists_ok d"
  by (simp add: route_part_def lists_ok_def routers_rep_def)

text \<open>The routes \<open>rs\<close> of one state became the routes \<open>rs'\<close> of another, each with its fields.\<close>

definition same_routes :: "ds6 \<Rightarrow> ds6 \<Rightarrow> bool" where
  "same_routes d d' \<longleftrightarrow> neighbor_routes d' = neighbor_routes d \<and> route_ipaddr d' = route_ipaddr d \<and> route_length d' = route_length d \<and>
     mnum (routememb d') = mnum (routememb d)"

lemma same_routes_refl [simp]: "same_routes d d"
  by (simp add: same_routes_def)

lemma same_routes_trans: "same_routes d d1 \<Longrightarrow> same_routes d1 d2 \<Longrightarrow> same_routes d d2"
  by (simp add: same_routes_def)

lemma route_rm_ok:
  assumes inv: "nbr_inv s ks" "table_ok s nbr_routes" and rep: "routes_rep (nbr_user s) (route_items s ks) rs nb rl"
    and lists: "lists_ok (nbr_user s)" and r: "r \<in> set rs" and i: "i = neighbor_routes (nbr_user s) r"
  shows "\<exists>s'. uip_ds6_route_rm r s = Some s' \<and> trimmed nbr_routes s s' \<and> route_part (nbr_user s) (nbr_user s') \<and>
    same_routes (nbr_user s) (nbr_user s') \<and>
    routes_rep (nbr_user s') (route_items s' ks) (remove1 r rs) nb (rl(i := remove1 r (rl i))) \<and>
    route_list (nbr_user s') = route_list (nbr_user s) \<and> is_list (nr_heap (nbr_user s')) i (map nb (remove1 r (rl i)))"
proof -
  let ?d = "nbr_user s"
  note D = routes_repD [OF rep] and F = routes_rep_facts [OF rep]
  have iI: "i \<in> route_items s ks" using D(9) [OF r] i by simp
  have i0: "i \<noteq> NULL" "route_list ?d i = i" using D(11,12) [OF iI] by simp_all
  have r0: "r \<noteq> NULL" using r F(2) by metis
  obtain h nh where l: "list_remove (route_heap ?d) routelist r = Some h"
    "nr_loop ?d r (list_head (nr_heap ?d) i) = Some (nb r)" "list_remove (nr_heap ?d) i (nb r) = Some nh"
    "list_head nh i = NULL \<longleftrightarrow> remove1 r (rl i) = []" "is_list nh i (map nb (remove1 r (rl i)))"
    "routes_rep (route_removed r (nb r) h nh ?d) (if remove1 r (rl i) = [] then route_items s ks - {i} else route_items s ks)
      (remove1 r rs) nb (rl(i := remove1 r (rl i)))"
    using route_rm_lists [OF rep r i] by (elim exE conjE) (rule that)
  define s1 where "s1 = upd (\<lambda>d. d\<lparr>route_heap := h, nr_heap := nh\<rparr>) s"
  define s2 where "s2 = (if list_head nh i = NULL then snd (nbr_table_remove s1 nbr_routes i) else s1)"
  define s3 where "s3 = upd (\<lambda>d. d\<lparr>routememb := snd (memb_free (routememb d) r),
    neighborroutememb := snd (memb_free (neighborroutememb d) (nb r)), num_routes := num_routes d - 1\<rparr>) s2"
  have t1: "trimmed nbr_routes s s1" by (simp add: s1_def)
  have t2: "trimmed nbr_routes s s2" unfolding s2_def using t1 trimmed_trans [OF t1 trimmed_remove] by simp
  have t3: "trimmed nbr_routes s s3" using t2 by (simp add: s3_def)
  have inv3: "nbr_inv s3 ks" by (rule trimmed_inv(1) [OF t3 inv(1)])
  have it1: "items s1 t ks = items s t ks" for t by (simp add: s1_def)
  have inv1: "nbr_inv s1 ks" "table_ok s1 nbr_routes" using trimmed_inv(1,2) [OF t1] inv by simp_all
  have "route_items s2 ks = (if remove1 r (rl i) = [] then route_items s ks - {i} else route_items s ks)"
    using items_removed [OF inv1, of i] iI l(4) by (simp add: s2_def it1)
  moreover have "items s3 nbr_routes ks = items s2 nbr_routes ks"
    by (simp add: s3_def)
  ultimately have it3: "route_items s3 ks = (if remove1 r (rl i) = [] then route_items s ks - {i} else route_items s ks)" by simp
  have d3: "nbr_user s3 = route_removed r (nb r) h nh ?d"
    by (simp add: s3_def s2_def s1_def route_removed_def)
  obtain x where x: "uip_ds6_route_nexthop s3 r = Some x" using nexthop_total [OF inv3] by blast
  have "lists_ok (nbr_user s3)" using lists by (simp add: d3 route_removed_def lists_ok_def routers_rep_def)
  then obtain tr where tr: "call_route_callback ROUTE_RM (route_ipaddr ?d r) x (nbr_user s3) = Some ((nbr_user s3)\<lparr>ds6_trace := tr\<rparr>)"
    using call_route_callback_ok by blast
  define s4 where "s4 = s3\<lparr>nbr_user := (nbr_user s3)\<lparr>ds6_trace := tr\<rparr>\<rparr>"
  have "uip_ds6_route_rm r s = Some s4"
    unfolding uip_ds6_route_rm_def Let_def i [symmetric] i0(2) l(1,2,3)
    by (simp only: r0 i0(1) simp_thms if_True l(1,2,3) s1_def [symmetric] s2_def [symmetric] s3_def [symmetric] x lift_def tr
      s4_def Option.bind.simps)
  moreover have "trimmed nbr_routes s s4" using t3 by (simp add: s4_def)
  moreover have "route_part ?d (nbr_user s4)" by (simp add: s4_def d3 route_removed_def route_part_def)
  moreover have "same_routes ?d (nbr_user s4)"
    using memb_free_base(1) [OF D(2)] by (simp add: s4_def d3 route_removed_def same_routes_def)
  moreover have "routes_rep (nbr_user s4) (route_items s4 ks) (remove1 r rs) nb (rl(i := remove1 r (rl i)))"
  proof -
    have d4: "nbr_user s4 = (route_removed r (nb r) h nh ?d)\<lparr>ds6_trace := tr\<rparr>" by (simp add: s4_def d3)
    have it4: "route_items s4 ks = route_items s3 ks" by (simp add: s4_def)
    show ?thesis unfolding it4 it3 by (rule routes_rep_cong [OF l(6)]) (simp_all add: d4)
  qed
  moreover have "route_list (nbr_user s4) = route_list ?d" "nr_heap (nbr_user s4) = nh" by (simp_all add: s4_def d3 route_removed_def)
  ultimately show ?thesis using l(5) by metis
qed

lemma rm_routelist_loop_ok:
  assumes "nbr_inv s ks" "table_ok s nbr_routes" "routes_rep (nbr_user s) (route_items s ks) rs nb rl"
    and "lists_ok (nbr_user s)" "i \<in> route_items s ks" "rl i = xs"
  shows "\<exists>s' rl'. rm_routelist_loop i s = Some s' \<and> trimmed nbr_routes s s' \<and> route_part (nbr_user s) (nbr_user s') \<and>
    same_routes (nbr_user s) (nbr_user s') \<and> route_list (nbr_user s') = route_list (nbr_user s) \<and> i \<notin> route_items s' ks \<and>
    routes_rep (nbr_user s') (route_items s' ks) (filter (\<lambda>r. neighbor_routes (nbr_user s) r \<noteq> i) rs) nb rl'"
  using assms
proof (induction xs arbitrary: s rs rl)
  case Nil
  then show ?case using routes_repD(14) [OF Nil.prems(3,5)] by simp
next
  case (Cons x xs)
  let ?d = "nbr_user s"
  note D = routes_repD [OF Cons.prems(3)]
  have x: "x \<in> set rs" "neighbor_routes ?d x = i" using D(15,16) [OF Cons.prems(5), of x] Cons.prems(6) by simp_all
  obtain s1 where s1: "uip_ds6_route_rm x s = Some s1" "trimmed nbr_routes s s1" "route_part ?d (nbr_user s1)" "same_routes ?d (nbr_user s1)"
    "routes_rep (nbr_user s1) (route_items s1 ks) (remove1 x rs) nb (rl(i := remove1 x (rl i)))"
    "route_list (nbr_user s1) = route_list ?d" "is_list (nr_heap (nbr_user s1)) i (map nb (remove1 x (rl i)))"
    using route_rm_ok [OF Cons.prems(1-4) x(1) x(2) [symmetric]] by blast
  have xs: "remove1 x (rl i) = xs" using Cons.prems(6) by simp
  have "nb x = list_head (nr_heap ?d) (route_list ?d i)" "nb x \<noteq> NULL" "nr_route ?d (nb x) = x"
    using list_head_is_list [OF D(13) [OF Cons.prems(5)]] D(12) [OF Cons.prems(5)] Cons.prems(6)
      routes_rep_facts(5) [OF Cons.prems(3) x(1)] D(8) [OF x(1)] by simp_all
  then have loop: "rm_routelist_loop i s = rm_routelist_loop i s1"
    using s1(1) by (subst rm_routelist_loop.simps) (simp add: Let_def)
  have inv1: "nbr_inv s1 ks" "table_ok s1 nbr_routes" using trimmed_inv(1,2) [OF s1(2)] Cons.prems(1,2) by simp_all
  have l1: "lists_ok (nbr_user s1)" using route_part_lists [OF s1(3)] Cons.prems(4) by simp
  have nr1: "neighbor_routes (nbr_user s1) = neighbor_routes ?d" using s1(4) by (simp add: same_routes_def)
  have flt: "filter (\<lambda>r. neighbor_routes ?d r \<noteq> i) (remove1 x rs) = filter (\<lambda>r. neighbor_routes ?d r \<noteq> i) rs"
    using x(2) by (simp add: filter_remove1 remove1_idem)
  show ?case
  proof (cases xs)
    case Nil
    have i1: "i \<notin> route_items s1 ks" using routes_repD(14) [OF s1(5), of i] xs Nil by auto
    have "list_head (nr_heap (nbr_user s1)) (route_list (nbr_user s1) i) = NULL"
      using list_head_is_list [OF s1(7)] D(12) [OF Cons.prems(5)] s1(6) xs Nil by simp
    then have "rm_routelist_loop i s1 = Some s1" by (subst rm_routelist_loop.simps) (simp add: Let_def)
    moreover have "filter (\<lambda>r. neighbor_routes ?d r \<noteq> i) rs = remove1 x rs"
    proof -
      have "neighbor_routes ?d r \<noteq> i" if "r \<in> set (remove1 x rs)" for r
        using routes_repD(9) [OF s1(5) that] i1 nr1 by metis
      then show ?thesis unfolding flt [symmetric] by simp
    qed
    ultimately show ?thesis using loop s1(2-6) i1
      by (intro exI [of _ s1] exI [of _ "rl(i := remove1 x (rl i))"]) (simp del: fun_upd_apply)
  next
    case (Cons y ys)
    have "i \<in> route_items s1 ks"
    proof -
      have "y \<in> set (rl i)" using Cons.prems(6) Cons by simp
      then have y: "y \<in> set rs" "neighbor_routes ?d y = i" using D(15,16) [OF Cons.prems(5)] by simp_all
      have "y \<noteq> x" using routes_rep_facts(4) [OF Cons.prems(3,5)] Cons.prems(6) Cons by auto
      then have "y \<in> set (remove1 x rs)" using y(1) routes_rep_facts(1) [OF Cons.prems(3)] by simp
      then show ?thesis using routes_repD(9) [OF s1(5)] nr1 y(2) by metis
    qed
    then obtain s' rl' where s': "rm_routelist_loop i s1 = Some s'" "trimmed nbr_routes s1 s'" "route_part (nbr_user s1) (nbr_user s')"
      "same_routes (nbr_user s1) (nbr_user s')" "route_list (nbr_user s') = route_list (nbr_user s1)" "i \<notin> route_items s' ks"
      "routes_rep (nbr_user s') (route_items s' ks) (filter (\<lambda>r. neighbor_routes (nbr_user s1) r \<noteq> i) (remove1 x rs)) nb rl'"
      using Cons.IH [OF inv1 s1(5) l1] xs by auto
    then show ?thesis using loop trimmed_trans [OF s1(2) s'(2)] route_part_trans [OF s1(3) s'(3)] same_routes_trans [OF s1(4) s'(4)]
        s1(6) flt nr1
      by (intro exI [of _ s'] exI [of _ rl']) simp
  qed
qed

lemma rm_routelist_ok:
  assumes inv: "nbr_inv s ks" "table_ok s nbr_routes" and rep: "routes_rep (nbr_user s) (route_items s ks) rs nb rl"
    and lists: "lists_ok (nbr_user s)" and i: "i \<in> route_items s ks"
  shows "\<exists>s' rl'. rm_routelist i s = Some s' \<and> trimmed nbr_routes s s' \<and> route_part (nbr_user s) (nbr_user s') \<and>
    same_routes (nbr_user s) (nbr_user s') \<and> route_items s' ks = route_items s' ks - {i} \<and>
    routes_rep (nbr_user s') (route_items s' ks) (filter (\<lambda>r. neighbor_routes (nbr_user s) r \<noteq> i) rs) nb rl'"
proof -
  note D = routes_repD [OF rep]
  obtain s1 rl' where s1: "rm_routelist_loop i s = Some s1" "trimmed nbr_routes s s1" "route_part (nbr_user s) (nbr_user s1)"
    "same_routes (nbr_user s) (nbr_user s1)" "i \<notin> route_items s1 ks"
    "routes_rep (nbr_user s1) (route_items s1 ks) (filter (\<lambda>r. neighbor_routes (nbr_user s) r \<noteq> i) rs) nb rl'"
    using rm_routelist_loop_ok [OF inv rep lists i refl] by blast
  let ?s = "snd (nbr_table_remove s1 nbr_routes i)"
  obtain k where k: "k \<in> set ks" "i = item_at s nbr_routes (kidx s k)" using i by (auto simp: mem_items)
  have "i = item_at s1 nbr_routes (kidx s1 k)" using k(2) trimmed_inv(4,5) [OF s1(2)] by simp
  then have it: "route_items ?s ks = route_items s1 ks"
    using items_removed_key [OF trimmed_inv(1) [OF s1(2) inv(1)], of nbr_routes k] trimmed_inv(2) [OF s1(2)] inv(2) k(1) s1(5) by auto
  have "rm_routelist i s = Some ?s" using s1(1) D(11,12) [OF i] by (simp add: rm_routelist_def)
  moreover have "trimmed nbr_routes s ?s" by (rule trimmed_trans [OF s1(2) trimmed_remove])
  ultimately show ?thesis using s1(3-6) it by (intro exI [of _ ?s] exI [of _ rl']) simp
qed

section \<open>Looking up a route\<close>

definition route_matches :: "ds6 \<Rightarrow> ip6addr \<Rightarrow> ptr \<Rightarrow> bool" where
  "route_matches d addr r \<longleftrightarrow> uip_ipaddr_prefixcmp addr (route_ipaddr d r) (route_length d r)"

text \<open>\<open>r\<close> matches and no route of \<open>xs\<close> that matches has a longer prefix.\<close>

definition best_route :: "ds6 \<Rightarrow> ip6addr \<Rightarrow> ptr \<Rightarrow> ptr list \<Rightarrow> bool" where
  "best_route d addr r xs \<longleftrightarrow> route_matches d addr r \<and> (\<forall>x \<in> set xs. route_matches d addr x \<longrightarrow> route_length d x \<le> route_length d r)"

lemma match_loop_chain:
  assumes "lchain (lnext (route_heap d)) p xs" "\<forall>x \<in> set xs. route_length d x \<le> 128"
  shows "\<exists>r. match_loop d addr p f l = Some r \<and>
    ((r = f \<and> (\<forall>x \<in> set xs. route_matches d addr x \<longrightarrow> route_length d x < l)) \<or>
     (r \<in> set xs \<and> l \<le> route_length d r \<and> best_route d addr r xs))"
  using assms
proof (induction xs arbitrary: p f l)
  case Nil
  then show ?case by (subst match_loop.simps) simp
next
  case (Cons x xs)
  let ?n = "route_length d x"
  have p: "p = x" "x \<noteq> NULL" "lchain (lnext (route_heap d)) (lnext (route_heap d) x) xs" and
    b: "\<forall>x \<in> set xs. route_length d x \<le> 128" "?n \<le> 128" using Cons.prems by auto
  have nx: "uip_ds6_route_next d x = lnext (route_heap d) x" using p(2) by (simp add: uip_ds6_route_next_def list_item_next_def)
  show ?case
  proof (cases "l \<le> ?n \<and> route_matches d addr x")
    case False
    then have e: "match_loop d addr p f l = match_loop d addr (lnext (route_heap d) x) f l"
      using p(1,2) nx by (subst match_loop.simps) (auto simp: route_matches_def)
    obtain r where r: "match_loop d addr (lnext (route_heap d) x) f l = Some r"
      "(r = f \<and> (\<forall>x \<in> set xs. route_matches d addr x \<longrightarrow> route_length d x < l)) \<or>
       (r \<in> set xs \<and> l \<le> route_length d r \<and> best_route d addr r xs)"
      using Cons.IH [OF p(3) b(1), of f l] by blast
    have "route_matches d addr x \<Longrightarrow> ?n < l" using False by auto
    then show ?thesis using r by (intro exI [of _ r]) (auto simp: e best_route_def)
  next
    case True
    show ?thesis
    proof (cases "?n = 128")
      case full: True
      then have "match_loop d addr p f l = Some x"
        using True p(1,2) by (subst match_loop.simps) (simp add: route_matches_def)
      then show ?thesis using True full b by (intro exI [of _ x]) (auto simp: best_route_def)
    next
      case False
      then have e: "match_loop d addr p f l = match_loop d addr (lnext (route_heap d) x) x ?n"
        using True p(1,2) nx by (subst match_loop.simps) (simp add: route_matches_def)
      obtain r where r: "match_loop d addr (lnext (route_heap d) x) x ?n = Some r"
        "(r = x \<and> (\<forall>y \<in> set xs. route_matches d addr y \<longrightarrow> route_length d y < ?n)) \<or>
         (r \<in> set xs \<and> ?n \<le> route_length d r \<and> best_route d addr r xs)"
        using Cons.IH [OF p(3) b(1), of x ?n] by blast
      then show ?thesis using True by (intro exI [of _ r]) (auto simp: e best_route_def)
    qed
  qed
qed

text \<open>The routes after a lookup: the one found is first.\<close>

definition route_found :: "ds6 \<Rightarrow> ip6addr \<Rightarrow> ptr list \<Rightarrow> ptr \<Rightarrow> ptr list \<Rightarrow> bool" where
  "route_found d addr rs r rs' \<longleftrightarrow>
     (if r = NULL then rs' = rs \<and> (\<forall>x \<in> set rs. \<not> route_matches d addr x)
      else r \<in> set rs \<and> best_route d addr r rs \<and> rs' = r # remove1 r rs)"

lemma route_lookup_ok:
  assumes rep: "routes_rep d I rs nb rl" and len: "\<forall>x \<in> set rs. route_length d x \<le> 128"
  shows "\<exists>r h rs'. uip_ds6_route_lookup addr d = Some (r, d\<lparr>route_heap := h\<rparr>) \<and> route_found d addr rs r rs' \<and>
    routes_rep (d\<lparr>route_heap := h\<rparr>) I rs' nb rl"
proof -
  note D = routes_repD [OF rep] and F = routes_rep_facts [OF rep]
  have ch: "lchain (lnext (route_heap d)) (uip_ds6_route_head d) rs" using D(1) by (simp add: is_list_def uip_ds6_route_head_def list_head_def)
  obtain r where r: "match_loop d addr (uip_ds6_route_head d) NULL 0 = Some r"
    "(r = NULL \<and> (\<forall>x \<in> set rs. route_matches d addr x \<longrightarrow> route_length d x < 0)) \<or> (r \<in> set rs \<and> best_route d addr r rs)"
    using match_loop_chain [OF ch len, of addr NULL 0] by auto
  have move: "routes_rep (d\<lparr>route_heap := h\<rparr>) I (r # remove1 r rs) nb rl"
    if "is_list h routelist (r # remove1 r rs)" "r \<in> set rs" for h
  proof -
    have s: "set (r # remove1 r rs) = set rs" "length (r # remove1 r rs) = length rs"
      using F(1) that(2) by (auto simp: length_remove1) (cases rs; simp)
    show ?thesis using rep that(1) unfolding routes_rep_def s by simp
  qed
  consider (none) "r = NULL" | (head) "r \<noteq> NULL" "r = list_head (route_heap d) routelist" | (tail) "r \<noteq> NULL" "r \<noteq> list_head (route_heap d) routelist" by blast
  then show ?thesis
  proof cases
    case none
    have "NULL \<notin> set rs" by (rule F(2))
    then have "\<forall>x \<in> set rs. \<not> route_matches d addr x" using r(2) none by auto
    then show ?thesis using none r(1) rep
      by (intro exI [of _ NULL] exI [of _ "route_heap d"] exI [of _ rs]) (simp add: uip_ds6_route_lookup_def route_found_def)
  next
    case head
    then have b: "r \<in> set rs" "best_route d addr r rs" using r(2) by auto
    have "hd rs = r" "rs \<noteq> []" using head list_head_is_list [OF D(1)] by (cases rs; simp)+
    then have e: "r # remove1 r rs = rs" by (cases rs) auto
    then show ?thesis using head r(1) rep b
      by (intro exI [of _ r] exI [of _ "route_heap d"] exI [of _ rs]) (simp add: uip_ds6_route_lookup_def route_found_def)
  next
    case tail
    then have b: "r \<in> set rs" "best_route d addr r rs" using r(2) by auto
    obtain h1 where h1: "list_remove (route_heap d) routelist r = Some h1" "is_list h1 routelist (remove1 r rs)"
      using list_remove_is_list [OF D(1)] by blast
    obtain h where h: "list_push h1 routelist r = Some h" "is_list h routelist (r # remove1 r (remove1 r rs))"
      using list_push_is_list [OF h1(2) tail(1)] by blast
    have "remove1 r (remove1 r rs) = remove1 r rs" using F(1) by (simp add: remove1_not_in)
    then have "routes_rep (d\<lparr>route_heap := h\<rparr>) I (r # remove1 r rs) nb rl" using move h(2) b(1) by simp
    then show ?thesis using tail r(1) h1(1) h(1) b
      by (intro exI [of _ r] exI [of _ h] exI [of _ "r # remove1 r rs"]) (simp add: uip_ds6_route_lookup_def route_found_def)
  qed
qed

section \<open>Inserting a route\<close>

lemma alloc_fresh:
  assumes "memb_wf m" "card (memb_live m) < unat (mnum m)"
  shows "\<exists>b m'. memb_alloc m = (b, m') \<and> b \<noteq> NULL \<and> b \<notin> memb_live m \<and> memb_live m' = insert b (memb_live m) \<and>
    memb_wf m' \<and> mnum m' = mnum m"
proof -
  have "card (memb_blocks m) = unat (mnum m)"
    unfolding memb_blocks_def using block_ptr_inj [OF assms(1)] by (subst card_image) (auto intro!: inj_onI)
  then have "memb_live m \<noteq> memb_blocks m" using assms(2) by auto
  then obtain b m' where b: "memb_alloc m = (b, m')" "b \<noteq> NULL" "b \<notin> memb_live m" "memb_live m' = insert b (memb_live m)" "memb_wf m'"
    by (cases rule: mb.alloc_cases [OF assms(1)]) auto
  moreover have "mnum m' = mnum m" by (cases rule: memb_alloc_cases [of m]) (use b(1,2) in auto)
  ultimately show ?thesis by blast
qed

text \<open>The state when a new route is in all lists.\<close>

definition route_inserted ::
    "ptr \<Rightarrow> ptr \<Rightarrow> ptr \<Rightarrow> ip6addr \<Rightarrow> u8 \<Rightarrow> memb \<Rightarrow> memb \<Rightarrow> list_heap \<Rightarrow> list_heap \<Rightarrow> ds6 \<Rightarrow> ds6" where
  "route_inserted r nr i a l m m2 h nh d = d\<lparr>routememb := m, route_heap := h, neighborroutememb := m2,
     nr_route := (nr_route d)(nr := r), nr_heap := nh, neighbor_routes := (neighbor_routes d)(r := i),
     num_routes := num_routes d + 1, route_ipaddr := (route_ipaddr d)(r := a), route_length := (route_length d)(r := l)\<rparr>"

lemma route_insert_lists:
  assumes rep: "routes_rep d I rs nb rl" and room: "length rs < unat (mnum (routememb d))"
    and i: "i \<noteq> NULL" "route_list d i = i" "is_list (nr_heap d) i (map nb xs)" "xs = (if i \<in> I then rl i else [])"
  shows "\<exists>r m h nr m2 nh. memb_alloc (routememb d) = (r, m) \<and> r \<noteq> NULL \<and> r \<notin> set rs \<and> mnum m = mnum (routememb d) \<and>
    list_push (route_heap d) routelist r = Some h \<and>
    memb_alloc (neighborroutememb d) = (nr, m2) \<and> nr \<noteq> NULL \<and> list_add (nr_heap d) i nr = Some nh \<and>
    routes_rep (route_inserted r nr i a l m m2 h nh d) (insert i I) (r # rs) (nb(r := nr)) (rl(i := xs @ [r]))"
proof -
  note D = routes_repD [OF rep] and F = routes_rep_facts [OF rep]
  have card: "card (memb_live (routememb d)) = length rs" "card (memb_live (neighborroutememb d)) = length rs"
    using D(3,7) F(1,3) by (simp_all add: distinct_card card_image)
  obtain r m where r: "memb_alloc (routememb d) = (r, m)" "r \<noteq> NULL" "r \<notin> set rs" "memb_live m = insert r (set rs)" "memb_wf m"
    "mnum m = mnum (routememb d)"
    using alloc_fresh [OF D(2)] room card(1) D(3) by auto
  obtain nr m2 where nr: "memb_alloc (neighborroutememb d) = (nr, m2)" "nr \<noteq> NULL" "nr \<notin> nb ` set rs"
    "memb_live m2 = insert nr (nb ` set rs)" "memb_wf m2" "mnum m2 = mnum (neighborroutememb d)"
    using alloc_fresh [OF D(5)] room card(2) D(6,7) by auto
  obtain h where h: "list_push (route_heap d) routelist r = Some h" "is_list h routelist (r # rs)"
    using list_push_is_list [OF D(1) r(2)] r(3) by (auto simp: remove1_not_in)
  have xrs: "set xs \<subseteq> set rs" using i(4) D(15) by (auto split: if_splits)
  then have nx: "nr \<notin> set (map nb xs)" using nr(3) by auto
  obtain nh where nh: "list_add (nr_heap d) i nr = Some nh" "is_list nh i (map nb xs @ [nr])"
    "same_outside i (insert nr (set (map nb xs))) (nr_heap d) nh"
    using list_add_is_list [OF i(3) nr(2)] nx by (auto simp: remove1_not_in)
  let ?nb = "nb(r := nr)" and ?rl = "rl(i := xs @ [r])" and ?d = "route_inserted r nr i a l m m2 h nh d"
  have nbx: "map ?nb ys = map nb ys" if "set ys \<subseteq> set rs" for ys using that r(3) by (induction ys) auto
  have other: "is_list nh j (map nb (rl j))" if "j \<in> I" "j \<noteq> i" for j
  proof -
    have "set (map nb (rl j)) \<inter> insert nr (set (map nb xs)) = {}"
    proof (rule ccontr)
      assume "set (map nb (rl j)) \<inter> insert nr (set (map nb xs)) \<noteq> {}"
      moreover have "nr \<notin> set (map nb (rl j))" using nr(3) D(15) [OF that(1)] by auto
      ultimately obtain x y where xy: "x \<in> set (rl j)" "y \<in> set xs" "nb x = nb y" by auto
      then have "x = y" using F(3) xrs D(15) [OF that(1)] by (meson inj_onD subsetD)
      moreover have "i \<in> I" "xs = rl i" using xy(2) i(4) by (auto split: if_splits)
      ultimately show False using D(16) [OF that(1) xy(1)] D(16) [OF \<open>i \<in> I\<close>, of y] xy(2) that(2) by simp
    qed
    then show ?thesis using is_list_other [OF D(13) [OF that(1)] nh(3) that(2)] by blast
  qed
  have e: "route_heap ?d = h" "nr_heap ?d = nh" "routememb ?d = m" "neighborroutememb ?d = m2" "num_routes ?d = num_routes d + 1"
    "nr_route ?d = (nr_route d)(nr := r)" "neighbor_routes ?d = (neighbor_routes d)(r := i)" "route_list ?d = route_list d"
    by (simp_all add: route_inserted_def)
  have "routes_rep ?d (insert i I) (r # rs) ?nb ?rl"
    unfolding routes_rep_def e
  proof (intro conjI ballI)
    show "num_routes d + 1 = of_nat (length (r # rs))" using D(4) by simp
    show "memb_live m2 = ?nb ` set (r # rs)" using nr(4) nbx [of rs] by (metis fun_upd_same image_insert list.set_map list.simps(15) subset_refl)
    fix x assume x: "x \<in> set (r # rs)"
    show "((nr_route d)(nr := r)) (?nb x) = x" using x D(8) r(3) nr(3) by auto
    show "((neighbor_routes d)(r := i)) x \<in> insert i I" using x D(9) by auto
    show "x \<in> set (?rl (((neighbor_routes d)(r := i)) x))"
      using x r(3) D(9,10) i(4) by (auto split: if_splits)
  next
    fix j assume j: "j \<in> insert i I"
    show "j \<noteq> NULL" "route_list d j = j" using j D(11,12) i by auto
    show "?rl j \<noteq> []" using j D(14) by auto
    show "is_list nh j (map ?nb (?rl j))"
    proof (cases "j = i")
      case True
      have m: "map ?nb (?rl i) = map nb xs @ [nr]" using nbx [OF xrs] by (simp only: fun_upd_same map_append list.map)
      show ?thesis unfolding True m by (rule nh(2))
    next
      case False
      then have jI: "j \<in> I" "set (rl j) \<subseteq> set rs" using j D(15) by auto
      have m: "map ?nb (?rl j) = map nb (rl j)" unfolding fun_upd_other [OF False] by (rule nbx [OF jI(2)])
      show ?thesis unfolding m by (rule other [OF jI(1) False])
    qed
    fix x assume "x \<in> set (?rl j)"
    then have x: "x = r \<and> j = i \<or> x \<in> set (if j = i then xs else rl j)" by (auto split: if_splits)
    then show "x \<in> set (r # rs)" using xrs j D(15) by (auto split: if_splits)
    show "((neighbor_routes d)(r := i)) x = j"
    proof (cases "x = r")
      case True
      then show ?thesis using x r(3) xrs j D(15) by (auto split: if_splits)
    next
      case False
      then show ?thesis using x j D(16) i(4) by (auto split: if_splits)
    qed
  qed (use r h nr D(6) in simp_all)
  then show ?thesis using r h(1) nr(1,2) nh(1) by (intro exI conjI)
qed

section \<open>Adding a route\<close>

lemma key_item_facts:
  assumes "nbr_inv s ks" "table_ok s t" "k \<in> set ks"
  shows "nbr_table_get_lladdr s t (item_at s t (kidx s k)) = Some (key_lladdr s k)"
    "key_from_item s t (item_at s t (kidx s k)) = k" "item_at s t (kidx s k) \<noteq> NULL"
    "nbr_table_get_from_lladdr s t (Some (key_lladdr s k)) = Some (if in_table s t k then item_at s t (kidx s k) else NULL)"
proof -
  obtain i where i: "i < nbrs s" "k = kptr s i" "kidx s k = i" "index_from_key s k = int i" by (rule live_index [OF assms(1,3)])
  have "k \<noteq> NULL" using assms(1,3) is_list_not_null [of "nbr_heap s" nbr_table_keys ks] unfolding nbr_inv_def by metis
  then show "nbr_table_get_lladdr s t (item_at s t (kidx s k)) = Some (key_lladdr s k)"
    "key_from_item s t (item_at s t (kidx s k)) = k" "item_at s t (kidx s k) \<noteq> NULL"
    using item_from_key_live [OF assms] unfolding nbr_table_get_lladdr_def Let_def by metis+
  show "nbr_table_get_from_lladdr s t (Some (key_lladdr s k)) = Some (if in_table s t k then item_at s t (kidx s k) else NULL)"
    using get_from_lladdr_eq [OF assms(1,2) i(1)] assms(3) i(2,3) by (simp add: in_table_def)
qed

lemma next_item:
  assumes "nbr_inv s ks" "table_ok s t" "items s t ks = xs @ y # ys"
  shows "nbr_table_next s t y = Some (first ys)"
  using items_split [OF assms(3)] next_chain [OF assms(1,2)] by auto

lemma nbr_lookup_chain:
  assumes "nbr_inv s ks" "table_ok s ds6_neighbors" "items s ds6_neighbors ks = xs @ ys"
  shows "nbr_lookup_loop s a (first ys) = Some (case find (\<lambda>n. nbr_ipaddr (nbr_user s) n = a) ys of None \<Rightarrow> NULL | Some n \<Rightarrow> n)"
  using assms(3)
proof (induction ys arbitrary: xs)
  case Nil
  then show ?case by (subst nbr_lookup_loop.simps) simp
next
  case (Cons y ys)
  have "y \<in> set (items s ds6_neighbors ks)" using Cons.prems by simp
  then obtain k where k: "k \<in> set ks" "y = item_at s ds6_neighbors (kidx s k)" unfolding mem_items by blast
  have "y \<noteq> NULL" unfolding k(2) by (rule key_item_facts(3) [OF assms(1,2) k(1)])
  moreover have "nbr_lookup_loop s a (first ys) = Some (case find (\<lambda>n. nbr_ipaddr (nbr_user s) n = a) ys of None \<Rightarrow> NULL | Some n \<Rightarrow> n)"
    by (rule Cons.IH [of "xs @ [y]"]) (simp add: Cons.prems)
  ultimately show ?case using next_item [OF assms(1,2) Cons.prems] by (subst nbr_lookup_loop.simps) simp
qed

lemma nbr_lookup_eq:
  assumes "nbr_inv s ks" "table_ok s ds6_neighbors"
  shows "uip_ds6_nbr_lookup s (Some a) =
    Some (case find (\<lambda>n. nbr_ipaddr (nbr_user s) n = a) (items s ds6_neighbors ks) of None \<Rightarrow> NULL | Some n \<Rightarrow> n)"
  using nbr_lookup_chain [OF assms, of "[]" "items s ds6_neighbors ks" a] head_chain [OF assms] by (simp add: uip_ds6_nbr_lookup_def)

lemma resolve_ok:
  assumes "nbr_inv s ks" "table_ok s ds6_neighbors"
  shows "\<exists>x. uip_ds6_nbr_lladdr_from_ipaddr s (Some a) = Some x \<and> (\<forall>l. x = Some l \<longrightarrow> l \<in> key_lladdr s ` set ks)"
proof (cases "find (\<lambda>n. nbr_ipaddr (nbr_user s) n = a) (items s ds6_neighbors ks)")
  case None
  then show ?thesis using nbr_lookup_eq [OF assms, of a] by (simp add: uip_ds6_nbr_lladdr_from_ipaddr_def)
next
  case (Some n)
  then have "n \<in> set (items s ds6_neighbors ks)" unfolding find_Some_iff by auto
  then obtain k where k: "k \<in> set ks" "n = item_at s ds6_neighbors (kidx s k)" unfolding mem_items by blast
  then show ?thesis using nbr_lookup_eq [OF assms, of a] Some key_item_facts(1,3) [OF assms k(1)]
    by (simp add: uip_ds6_nbr_lladdr_from_ipaddr_def uip_ds6_nbr_get_ll_def)
qed

text \<open>\<open>s'\<close> differs from \<open>s\<close> in the neighbors that use the table \<open>t\<close>, in items and in locks only.\<close>

definition rebound :: "ptr \<Rightarrow> 'u nbr_sys \<Rightarrow> 'u nbr_sys \<Rightarrow> bool" where
  "rebound t s s' \<longleftrightarrow> all_tables s' = all_tables s \<and> num_tables s' = num_tables s \<and> tables s' = tables s \<and>
     neighbor_addr_mem s' = neighbor_addr_mem s \<and> nbr_heap s' = nbr_heap s \<and> key_lladdr s' = key_lladdr s \<and>
     length (used_map s') = length (used_map s) \<and>
     (\<forall>i < length (used_map s). \<forall>n. n \<noteq> nt_index (tables s t) \<longrightarrow> bit (used_map s' ! i) n = bit (used_map s ! i) n)"

lemma trimmed_rebound: "trimmed t s s' \<Longrightarrow> rebound t s s'"
  by (simp add: trimmed_def shrunk_def rebound_def)

lemma rebound_upd [simp]: "rebound t s (upd f s') = rebound t s s'" "rebound t s (s'\<lparr>nbr_user := d\<rparr>) = rebound t s s'"
  "rebound t (s\<lparr>nbr_user := d\<rparr>) s' = rebound t s s'"
  by (simp_all add: rebound_def)

lemma rebound_refl [simp]: "rebound t s s"
  by (simp add: rebound_def)

lemma rebound_trans: "rebound t s s1 \<Longrightarrow> rebound t s1 s2 \<Longrightarrow> rebound t s s2"
proof -
  assume r: "rebound t s s1" "rebound t s1 s2"
  have e: "length (used_map s1) = length (used_map s)" "tables s1 = tables s" using r(1) by (simp_all add: rebound_def)
  have "bit (used_map s2 ! i) n = bit (used_map s ! i) n" if "i < length (used_map s)" "n \<noteq> nt_index (tables s t)" for i n
    using r that e unfolding rebound_def by metis
  then show "rebound t s s2" using r by (simp add: rebound_def)
qed

lemma rebound_same:
  assumes "rebound t s s'"
  shows "table_ok s' t' = table_ok s t'" "key_lladdr s' = key_lladdr s" "tables s' = tables s"
    "kidx s' k = kidx s k" "key_from_item s' t' i = key_from_item s t' i" "index_from_key s' k = index_from_key s k"
    "nbrs s' = nbrs s" "kptr s' j = kptr s j"
  using assms by (simp_all add: rebound_def table_ok_def index_from_key_def key_from_item_def index_from_item_def key_from_index_def)

lemma rebound_other:
  assumes "rebound t s s'" "nbr_inv s ks" "nt_index (tables s t') \<noteq> nt_index (tables s t)"
  shows "items s' t' ks = items s t' ks" "k \<in> set ks \<Longrightarrow> in_table s' t' k = in_table s t' k"
proof -
  show it: "in_table s' t' k = in_table s t' k" if "k \<in> set ks" for k
  proof -
    have "kidx s k < nbrs s" by (rule live_index [OF assms(2) that]) simp
    then show ?thesis using assms rebound_same(3,4) [OF assms(1)]
      by (simp add: in_table_def rebound_def nbr_inv_def)
  qed
  have "filter (in_table s' t') ks = filter (in_table s t') ks" by (intro filter_cong) (simp_all add: it)
  then show "items s' t' ks = items s t' ks" unfolding items_def rebound_same(3,4) [OF assms(1)] by simp
qed

lemma fill_rebound:
  assumes inv: "nbr_inv s ks" "table_ok s t" and k: "k \<in> set ks"
  shows "rebound t s (fill_item s t (kidx s k))" "nbr_inv (fill_item s t (kidx s k)) ks"
    "set (items (fill_item s t (kidx s k)) t ks) = insert (item_at s t (kidx s k)) (set (items s t ks))"
    "nbr_user (fill_item s t (kidx s k)) = nbr_user s"
proof -
  obtain i where i: "i < nbrs s" "k = kptr s i" "kidx s k = i" "index_from_key s k = int i" by (rule live_index [OF inv(1) k])
  have len: "length (used_map s) = nbrs s" using inv(1) by (simp add: nbr_inv_def)
  have n8: "nt_index (tables s t) < 8" using inv(2) by (simp add: table_ok_def MAX_NUM_TABLES_def)
  have b: "bit (used_map (fill_item s t i) ! j) n \<longleftrightarrow> bit (used_map s ! j) n \<or> j = i \<and> n = nt_index (tables s t)" if "j < nbrs s" for j n
    using that len n8 i(1) by (auto simp: fill_item_def nth_list_update bit_or_iff bit_exp_iff)
  show rb: "rebound t s (fill_item s t (kidx s k))"
    unfolding rebound_def i(3) using b len by (simp add: fill_item_def)
  show "nbr_inv (fill_item s t (kidx s k)) ks" using fill_item_correct [OF inv i(1)] i(2,3) k by simp
  show "nbr_user (fill_item s t (kidx s k)) = nbr_user s" by (simp add: fill_item_def)
  have "in_table (fill_item s t i) t x \<longleftrightarrow> in_table s t x \<or> x = k" if x: "x \<in> set ks" for x
  proof -
    obtain j where j: "j < nbrs s" "x = kptr s j" "kidx s x = j" "index_from_key s x = int j" by (rule live_index [OF inv(1) x])
    have "x = k \<longleftrightarrow> j = i" using i j by auto
    then show ?thesis using b [OF j(1)] rebound_same(3,4) [OF rb] j(3) i(3) by (simp add: in_table_def)
  qed
  then have it: "in_table (fill_item s t (kidx s k)) t x \<longleftrightarrow> in_table s t x \<or> x = k" if "x \<in> set ks" for x using that i(3) by simp
  define f where "f x = item_at s t (kidx s x)" for x
  have e: "item_at (fill_item s t (kidx s k)) t (kidx (fill_item s t (kidx s k)) x) = f x" for x
    unfolding rebound_same(3,4) [OF rb] f_def ..
  have "(\<exists>x \<in> set ks. in_table (fill_item s t (kidx s k)) t x \<and> z = f x) \<longleftrightarrow> z = f k \<or> (\<exists>x \<in> set ks. in_table s t x \<and> z = f x)" for z
    using it k by blast
  then show "set (items (fill_item s t (kidx s k)) t ks) = insert (item_at s t (kidx s k)) (set (items s t ks))"
    unfolding set_eq_iff insert_iff mem_items e f_def [symmetric] by blast
qed

lemma add_known_key_eq:
  assumes inv: "nbr_inv s ks" "table_ok s t" and k: "k \<in> set ks"
  shows "nbr_table_add_lladdr cb s t (Some (key_lladdr s k)) = Some (item_at s t (kidx s k), fill_item s t (kidx s k))"
proof -
  obtain i where i: "i < nbrs s" "k = kptr s i" "kidx s k = i" "index_from_key s k = int i" by (rule live_index [OF inv(1) k])
  have inj: "inj_on (key_lladdr s) (set ks)" using inv(1) by (simp add: nbr_inv_def)
  have "index_from_lladdr s (Some (key_lladdr s k)) = Some (int i)"
    using index_from_lladdr_eq [OF inv(1)] key_of_key [OF inj k] i(4) by simp
  then show ?thesis unfolding nbr_table_add_lladdr_def using add_final [OF inv(2) i(1)] i(3) by (simp add: Let_def)
qed

section \<open>The whole state\<close>

definition tables_ok :: "ds6_sys \<Rightarrow> ptr list \<Rightarrow> bool" where
  "tables_ok s ks \<longleftrightarrow> nbr_inv s ks \<and> table_ok s ds6_neighbors \<and> table_ok s nbr_routes \<and>
     nt_index (tables s ds6_neighbors) \<noteq> nt_index (tables s nbr_routes)"

definition routes_ok :: "ds6_sys \<Rightarrow> ptr list \<Rightarrow> ptr list \<Rightarrow> bool" where
  "routes_ok s ks rs \<longleftrightarrow> tables_ok s ks \<and> lists_ok (nbr_user s) \<and>
     (\<exists>nb rl. routes_rep (nbr_user s) (route_items s ks) rs nb rl) \<and>
     (\<forall>r \<in> set rs. route_length (nbr_user s) r \<le> 128) \<and> mnum (routememb (nbr_user s)) \<noteq> 0"

text \<open>An entry of the routing table: prefix, length, link-layer address of the next hop.\<close>

type_synonym route_entry = "ip6addr \<times> u8 \<times> linkaddr"

definition route_entry :: "ds6_sys \<Rightarrow> ptr \<Rightarrow> route_entry" where
  "route_entry s r = (route_ipaddr (nbr_user s) r, route_length (nbr_user s) r,
     key_lladdr s (key_from_item s nbr_routes (neighbor_routes (nbr_user s) r)))"

text \<open>\<open>s'\<close> came from \<open>s\<close> by changes to the list of routes; routes still in it are as before.\<close>

definition route_step :: "ds6_sys \<Rightarrow> ds6_sys \<Rightarrow> bool" where
  "route_step s s' \<longleftrightarrow> rebound nbr_routes s s' \<and> route_part (nbr_user s) (nbr_user s') \<and> mnum (routememb (nbr_user s')) = mnum (routememb (nbr_user s))"

lemma route_step_refl [simp]: "route_step s s"
  by (simp add: route_step_def)

lemma route_step_trans: "route_step s s1 \<Longrightarrow> route_step s1 s2 \<Longrightarrow> route_step s s2"
  unfolding route_step_def using rebound_trans route_part_trans by metis

lemma tables_ok_rebound: "rebound nbr_routes s s' \<Longrightarrow> nbr_inv s' ks \<Longrightarrow> tables_ok s ks \<Longrightarrow> tables_ok s' ks"
  using rebound_same(1,3) [of nbr_routes s s'] by (simp add: tables_ok_def)

lemma route_entry_same:
  assumes "rebound t s s'" "same_routes (nbr_user s) (nbr_user s')"
  shows "route_entry s' = route_entry s"
  using assms(2) rebound_same(2,5) [OF assms(1)] by (simp add: route_entry_def same_routes_def fun_eq_iff)

lemma routes_ok_rm:
  assumes "routes_ok s ks rs" "r \<in> set rs"
  shows "\<exists>s'. uip_ds6_route_rm r s = Some s' \<and> routes_ok s' ks (remove1 r rs) \<and> route_step s s' \<and> same_routes (nbr_user s) (nbr_user s')"
proof -
  obtain nb rl where rep: "routes_rep (nbr_user s) (route_items s ks) rs nb rl" using assms(1) unfolding routes_ok_def by blast
  have t: "nbr_inv s ks" "table_ok s nbr_routes" "lists_ok (nbr_user s)" using assms(1) by (simp_all add: routes_ok_def tables_ok_def)
  obtain s' where s': "uip_ds6_route_rm r s = Some s'" "trimmed nbr_routes s s'" "route_part (nbr_user s) (nbr_user s')"
    "same_routes (nbr_user s) (nbr_user s')"
    "routes_rep (nbr_user s') (route_items s' ks) (remove1 r rs) nb (rl(neighbor_routes (nbr_user s) r := remove1 r (rl (neighbor_routes (nbr_user s) r))))"
    using route_rm_ok [OF t(1,2) rep t(3) assms(2) refl] by blast
  have rb: "rebound nbr_routes s s'" by (rule trimmed_rebound [OF s'(2)])
  have "tables_ok s' ks" using tables_ok_rebound [OF rb] trimmed_inv(1) [OF s'(2) t(1)] assms(1) by (simp add: routes_ok_def)
  moreover have "\<forall>x \<in> set (remove1 r rs). route_length (nbr_user s') x \<le> 128"
    using assms(1) s'(4) set_remove1_subset [of r rs] by (auto simp: routes_ok_def same_routes_def)
  moreover have "mnum (routememb (nbr_user s')) = mnum (routememb (nbr_user s))" using s'(4) by (simp add: same_routes_def)
  moreover have "lists_ok (nbr_user s')" using t(3) route_part_lists [OF s'(3)] by simp
  ultimately have "routes_ok s' ks (remove1 r rs)" "route_step s s'"
    using s'(3,5) assms(1) rb by (auto simp: routes_ok_def route_step_def simp del: fun_upd_apply)
  then show ?thesis using s'(1,4) by blast
qed

lemma routes_ok_facts:
  assumes "routes_ok s ks rs"
  shows "is_list (route_heap (nbr_user s)) routelist rs" "num_routes (nbr_user s) = of_nat (length rs)"
    "length rs \<le> unat (mnum (routememb (nbr_user s)))" "distinct rs" "NULL \<notin> set rs"
    "\<And>r. r \<in> set rs \<Longrightarrow> neighbor_routes (nbr_user s) r \<in> route_items s ks"
proof -
  obtain nb rl where rep: "routes_rep (nbr_user s) (route_items s ks) rs nb rl" using assms(1) unfolding routes_ok_def by blast
  show "is_list (route_heap (nbr_user s)) routelist rs" "num_routes (nbr_user s) = of_nat (length rs)"
    using routes_repD(1,4) [OF rep] .
  show "length rs \<le> unat (mnum (routememb (nbr_user s)))" by (rule routes_rep_length [OF rep])
  show "distinct rs" "NULL \<notin> set rs" using routes_rep_facts(1,2) [OF rep] .
  show "neighbor_routes (nbr_user s) r \<in> route_items s ks" if "r \<in> set rs" for r by (rule routes_repD(9) [OF rep that])
qed

definition dropped :: "nat \<Rightarrow> 'a list \<Rightarrow> 'a list" where
  "dropped n xs = (if length xs = n then butlast xs else xs)"

lemma make_room_ok:
  assumes ok: "routes_ok s ks rs"
  shows "\<exists>s'. make_room s = Some s' \<and> routes_ok s' ks (dropped (unat (mnum (routememb (nbr_user s)))) rs) \<and> route_step s s' \<and>
    same_routes (nbr_user s) (nbr_user s') \<and>
    length (dropped (unat (mnum (routememb (nbr_user s)))) rs) < unat (mnum (routememb (nbr_user s')))"
proof -
  let ?n = "mnum (routememb (nbr_user s))"
  note F = routes_ok_facts [OF ok]
  have n0: "?n \<noteq> 0" "0 < unat ?n" using ok by (simp_all add: routes_ok_def unat_gt_0)
  have lt: "length rs < 65536" using F(3) unat_less_u16 [of ?n] by linarith
  have full: "num_routes (nbr_user s) = ?n \<longleftrightarrow> length rs = unat ?n"
    unfolding F(2) using lt by (auto simp: word_unat_eq_iff unat_of_nat)
  show ?thesis
  proof (cases "length rs = unat ?n")
    case False
    then show ?thesis using full ok F(3) by (intro exI [of _ s]) (simp add: make_room_def uip_ds6_route_num_routes_def dropped_def)
  next
    case True
    then have ne: "rs \<noteq> []" using n0(2) by auto
    obtain s' where s': "uip_ds6_route_rm (last rs) s = Some s'" "routes_ok s' ks (remove1 (last rs) rs)" "route_step s s'"
      "same_routes (nbr_user s) (nbr_user s')"
      using routes_ok_rm [OF ok last_in_set [OF ne]] by blast
    moreover have "remove1 (last rs) rs = dropped (unat ?n) rs" using True butlast_remove1_last [OF F(4) ne] by (simp add: dropped_def)
    moreover have "list_tail (route_heap (nbr_user s)) routelist = Some (last rs)" using list_tail_is_list [OF F(1)] ne by simp
    moreover have "length (butlast rs) < unat ?n" using True n0(2) by (subst length_butlast) linarith
    ultimately show ?thesis using full True n0(2)
      by (intro exI [of _ s']) (simp add: make_room_def uip_ds6_route_num_routes_def dropped_def same_routes_def)
  qed
qed

text \<open>A route inserted in front: its fields, and nothing else, are new.\<close>

definition route_new :: "ds6 \<Rightarrow> ds6 \<Rightarrow> ptr \<Rightarrow> ptr \<Rightarrow> ip6addr \<Rightarrow> u8 \<Rightarrow> bool" where
  "route_new d d' r i a l \<longleftrightarrow> neighbor_routes d' = (neighbor_routes d)(r := i) \<and> route_ipaddr d' = (route_ipaddr d)(r := a) \<and>
     route_length d' = (route_length d)(r := l)"

lemma insert_ok:
  assumes ok: "routes_ok s ks rs" and room: "length rs < unat (mnum (routememb (nbr_user s)))" and k: "k \<in> set ks" and l: "l \<le> 128"
  shows "\<exists>s1 r d'. routes_of other (Some (key_lladdr s k)) s = Some (item_at s nbr_routes (kidx s k), s1) \<and>
    item_at s nbr_routes (kidx s k) \<noteq> NULL \<and>
    enter_route (item_at s nbr_routes (kidx s k)) a l (nbr_user s1) = Some (r, d') \<and> r \<noteq> NULL \<and> r \<notin> set rs \<and>
    routes_ok (s1\<lparr>nbr_user := d'\<rparr>) ks (r # rs) \<and> route_step s (s1\<lparr>nbr_user := d'\<rparr>) \<and>
    route_new (nbr_user s) d' r (item_at s nbr_routes (kidx s k)) a l"
proof -
  let ?d = "nbr_user s"
  define i where "i = item_at s nbr_routes (kidx s k)"
  obtain nb rl where rep: "routes_rep ?d (route_items s ks) rs nb rl" using ok unfolding routes_ok_def by blast
  note D = routes_repD [OF rep]
  have t: "nbr_inv s ks" "table_ok s nbr_routes" "tables_ok s ks" "lists_ok ?d" using ok by (simp_all add: routes_ok_def tables_ok_def)
  note kf = key_item_facts [OF t(1,2) k, folded i_def]
  have iI: "in_table s nbr_routes k \<longleftrightarrow> i \<in> route_items s ks"
    using k item_at_inj [OF t(1,2)] unfolding mem_items i_def by blast
  define xs where "xs = (if i \<in> route_items s ks then rl i else [])"
  define d1 where "d1 = (if i \<in> route_items s ks then ?d
    else ?d\<lparr>route_list := (route_list ?d)(i := i), nr_heap := list_init (nr_heap ?d) i\<rparr>)"
  obtain s1 where s1: "routes_of other (Some (key_lladdr s k)) s = Some (i, s1)" "nbr_user s1 = d1" "rebound nbr_routes s s1"
    "nbr_inv s1 ks" "route_items s1 ks = insert i (route_items s ks)"
  proof (cases "in_table s nbr_routes k")
    case True
    then have e: "routes_of other (Some (key_lladdr s k)) s = Some (i, s)" using kf(3,4) by (simp add: routes_of_def)
    have ii: "i \<in> route_items s ks" using True iI by simp
    show thesis by (rule that [OF e _ _ t(1)]) (simp_all only: d1_def ii if_True rebound_refl insert_absorb)
  next
    case False
    note fl = fill_rebound [OF t(1,2) k, folded i_def]
    let ?s = "fill_item s nbr_routes (kidx s k)"
    let ?s1 = "upd (\<lambda>d. d\<lparr>route_list := (route_list d)(i := i), nr_heap := list_init (nr_heap d) i\<rparr>) ?s"
    have "routes_of other (Some (key_lladdr s k)) s = Some (i, ?s1)"
      using kf(3,4) False by (simp add: routes_of_def add_known_key_eq [OF t(1,2) k, of "ds6_callback other", folded i_def])
    moreover have "nbr_user ?s1 = d1" using False iI fl(4) by (simp add: d1_def)
    moreover have "nbr_inv ?s1 ks" using fl(2) by (simp add: nbr_inv_def)
    ultimately show thesis using that [of ?s1] fl(1,3) by simp
  qed
  have rep1: "routes_rep d1 (route_items s ks) rs nb rl"
  proof (cases "i \<in> route_items s ks")
    case True
    then show ?thesis using rep by (simp add: d1_def)
  next
    case False
    have "is_list (list_init (nr_heap ?d) i) j ys = is_list (nr_heap ?d) j ys" if "j \<in> route_items s ks" for j ys
      using that False by (auto simp: is_list_def list_init_def)
    moreover have "((route_list ?d)(i := i)) j = route_list ?d j" if "j \<in> route_items s ks" for j using that False by auto
    ultimately show ?thesis using rep False unfolding routes_rep_def d1_def by (simp del: fun_upd_apply)
  qed
  have li: "route_list d1 i = i" "is_list (nr_heap d1) i (map nb xs)"
    using D(12,13) by (auto simp: d1_def xs_def list_init_def is_list_def)
  have m1: "mnum (routememb d1) = mnum (routememb ?d)" by (simp add: d1_def)
  obtain r m h nr m2 nh where n: "memb_alloc (routememb d1) = (r, m)" "r \<noteq> NULL" "r \<notin> set rs" "mnum m = mnum (routememb d1)"
    "list_push (route_heap d1) routelist r = Some h" "memb_alloc (neighborroutememb d1) = (nr, m2)" "nr \<noteq> NULL"
    "list_add (nr_heap d1) i nr = Some nh"
    "routes_rep (route_inserted r nr i a l m m2 h nh d1) (insert i (route_items s ks)) (r # rs) (nb(r := nr)) (rl(i := xs @ [r]))"
    using route_insert_lists [OF rep1 _ kf(3) li xs_def, of a l] room m1 by auto
  let ?d' = "route_inserted r nr i a l m m2 h nh d1"
  have er: "enter_route i a l (nbr_user s1) = Some (r, ?d')"
    using n(1,2,5-8) li(1) by (simp add: enter_route_def s1(2) Let_def route_inserted_def)
  have p: "route_part ?d ?d'" by (simp add: route_part_def route_inserted_def d1_def)
  have nw: "route_new ?d ?d' r i a l" by (simp add: route_new_def route_inserted_def d1_def)
  have mm: "mnum (routememb ?d') = mnum (routememb ?d)" using n(4) m1 by (simp add: route_inserted_def)
  have rb: "rebound nbr_routes s (s1\<lparr>nbr_user := ?d'\<rparr>)" using s1(3) by simp
  have "nbr_inv (s1\<lparr>nbr_user := ?d'\<rparr>) ks" using s1(4) by (simp add: nbr_inv_def)
  then have "tables_ok (s1\<lparr>nbr_user := ?d'\<rparr>) ks" by (rule tables_ok_rebound [OF rb _ t(3)])
  moreover have "lists_ok ?d'" using t(4) route_part_lists [OF p] by simp
  moreover have "\<forall>x \<in> set (r # rs). route_length ?d' x \<le> 128" using nw ok l by (auto simp: route_new_def routes_ok_def)
  moreover have "mnum (routememb ?d') \<noteq> 0" using mm ok by (simp add: routes_ok_def)
  ultimately have "routes_ok (s1\<lparr>nbr_user := ?d'\<rparr>) ks (r # rs)" using n(9) s1(5) unfolding routes_ok_def by (auto simp del: fun_upd_apply)
  moreover have "route_step s (s1\<lparr>nbr_user := ?d'\<rparr>)" using rb p mm by (simp add: route_step_def)
  ultimately show ?thesis using s1(1) kf(3) er n(2,3) nw unfolding i_def [symmetric]
    by (intro exI [of _ s1] exI [of _ r] exI [of _ ?d'] conjI)
qed

end
