(* ===== verification/Ds6Table.thy ===== *)
theory Ds6Table
  imports Ds6Routes
begin

text \<open>
  The routing table of \<open>core/net/ipv6/uip-ds6-route.c\<close> as a list of entries, the last used first. A
  lookup finds a longest match and moves it to the front; adding a route replaces the route in its way
  or drops the last entry of a full table; removals take out what they name. Below this interface are
  the list of routes, the lists of the neighbors' routes, two pools and the neighbor tables (Ds6Routes).
\<close>

section \<open>The routing table as a list of entries\<close>

definition entry_matches :: "ip6addr \<Rightarrow> route_entry \<Rightarrow> bool" where
  "entry_matches a e = (case e of (p, l, _) \<Rightarrow> take (unat l div 8) a = take (unat l div 8) p)"

definition entry_length :: "route_entry \<Rightarrow> u8" where
  "entry_length e = fst (snd e)"

text \<open>A lookup finds a longest match and moves it to the front, or finds that there is none.\<close>

definition lookup_spec :: "ip6addr \<Rightarrow> route_entry list \<Rightarrow> route_entry option \<Rightarrow> route_entry list \<Rightarrow> bool" where
  "lookup_spec a T found T' \<longleftrightarrow> (case found of
       None \<Rightarrow> T' = T \<and> (\<forall>e \<in> set T. \<not> entry_matches a e)
     | Some e \<Rightarrow> entry_matches a e \<and> (\<forall>x \<in> set T. entry_matches a x \<longrightarrow> entry_length x \<le> entry_length e) \<and>
         (\<exists>as bs. T = as @ e # bs \<and> T' = e # as @ bs))"

text \<open>
  Adding: a found entry with this next hop stays; another found entry is replaced; otherwise the last
  entry makes room when \<open>n\<close> entries are there.
\<close>

definition add_spec :: "nat \<Rightarrow> ip6addr \<Rightarrow> u8 \<Rightarrow> linkaddr \<Rightarrow> (route_entry \<Rightarrow> bool) \<Rightarrow> route_entry list \<Rightarrow> route_entry list \<Rightarrow> bool" where
  "add_spec n a l nh same T T' \<longleftrightarrow> (\<exists>found T1. lookup_spec a T found T1 \<and>
     T' = (case found of
         None \<Rightarrow> (a, l, nh) # dropped n T1
       | Some e \<Rightarrow> if same e then T1 else (a, l, nh) # tl T1))"

text \<open>The address of the next hop of an entry, as \<open>uip_ds6_route_nexthop\<close> finds it.\<close>

definition hop_address :: "ds6_sys \<Rightarrow> ip6addr \<Rightarrow> route_entry \<Rightarrow> ip6addr" where
  "hop_address s null_bytes e = (case uip_ds6_nbr_ipaddr_from_lladdr s (Some (snd (snd e))) of Some (Some a) \<Rightarrow> a | _ \<Rightarrow> null_bytes)"

lemma route_found_spec:
  assumes "route_found (nbr_user s) a rs r rs'" "NULL \<notin> set rs"
  shows "lookup_spec a (map (route_entry s) rs) (if r = NULL then None else Some (route_entry s r)) (map (route_entry s) rs')"
proof -
  have m: "entry_matches a (route_entry s x) = route_matches (nbr_user s) a x" "entry_length (route_entry s x) = route_length (nbr_user s) x" for x
    by (simp_all add: entry_matches_def route_entry_def route_matches_def uip_ipaddr_prefixcmp_def entry_length_def drop_bit_eq_div unat_div)
  show ?thesis
  proof (cases "r = NULL")
    case True
    then show ?thesis using assms(1) by (auto simp: lookup_spec_def route_found_def m)
  next
    case False
    then have f: "r \<in> set rs" "best_route (nbr_user s) a r rs" "rs' = r # remove1 r rs" using assms(1) by (simp_all add: route_found_def)
    obtain as bs where rs: "rs = as @ r # bs" "r \<notin> set as" using split_list_first [OF f(1)] by blast
    then have "rs' = r # as @ bs" using f(3) by (simp add: remove1_append)
    then have "map (route_entry s) rs = map (route_entry s) as @ route_entry s r # map (route_entry s) bs \<and>
        map (route_entry s) rs' = route_entry s r # map (route_entry s) as @ map (route_entry s) bs" using rs(1) by simp
    then have "\<exists>as bs. map (route_entry s) rs = as @ route_entry s r # bs \<and> map (route_entry s) rs' = route_entry s r # as @ bs"
      by (intro exI)
    then show ?thesis using False f(2) by (simp add: lookup_spec_def m best_route_def)
  qed
qed

lemma routes_ok_lookup:
  assumes "routes_ok s ks rs"
  shows "\<exists>r d rs'. uip_ds6_route_lookup a (nbr_user s) = Some (r, d) \<and> routes_ok (s\<lparr>nbr_user := d\<rparr>) ks rs' \<and>
    route_found (nbr_user s) a rs r rs' \<and> route_step s (s\<lparr>nbr_user := d\<rparr>) \<and> same_routes (nbr_user s) d"
proof -
  obtain nb rl where rep: "routes_rep (nbr_user s) (route_items s ks) rs nb rl" using assms(1) unfolding routes_ok_def by blast
  have len: "\<forall>x \<in> set rs. route_length (nbr_user s) x \<le> 128" using assms by (simp add: routes_ok_def)
  obtain r h rs' where r: "uip_ds6_route_lookup a (nbr_user s) = Some (r, (nbr_user s)\<lparr>route_heap := h\<rparr>)"
    "route_found (nbr_user s) a rs r rs'" "routes_rep ((nbr_user s)\<lparr>route_heap := h\<rparr>) (route_items s ks) rs' nb rl"
    using route_lookup_ok [OF rep len, of a] by blast
  let ?d = "(nbr_user s)\<lparr>route_heap := h\<rparr>"
  have "set rs' = set rs" using r(2) routes_ok_facts(4) [OF assms] by (auto simp: route_found_def split: if_splits)
  moreover have "route_step s (s\<lparr>nbr_user := ?d\<rparr>)" by (simp add: route_step_def route_part_def)
  moreover have "tables_ok (s\<lparr>nbr_user := ?d\<rparr>) ks"
    by (rule tables_ok_rebound [of s]) (use assms in \<open>simp_all add: routes_ok_def tables_ok_def nbr_inv_def\<close>)
  ultimately have "routes_ok (s\<lparr>nbr_user := ?d\<rparr>) ks rs'" using assms r(3) unfolding routes_ok_def
    by (auto simp: lists_ok_def routers_rep_def)
  moreover have "same_routes (nbr_user s) ?d" by (simp add: same_routes_def)
  ultimately show ?thesis using r(1,2) \<open>route_step s (s\<lparr>nbr_user := ?d\<rparr>)\<close> by blast
qed

lemma nexthop_eq:
  assumes ok: "routes_ok s ks rs" and r: "r \<in> set rs"
  shows "\<exists>x. uip_ds6_route_nexthop s r = Some x \<and> hop_address s null_bytes (route_entry s r) = (case x of None \<Rightarrow> null_bytes | Some a \<Rightarrow> a)"
proof -
  have t: "nbr_inv s ks" "table_ok s nbr_routes" using ok by (simp_all add: routes_ok_def tables_ok_def)
  have "neighbor_routes (nbr_user s) r \<in> route_items s ks" "r \<noteq> NULL" using routes_ok_facts(5,6) [OF ok] r by metis+
  then obtain k where k: "k \<in> set ks" "neighbor_routes (nbr_user s) r = item_at s nbr_routes (kidx s k)" unfolding mem_items by blast
  note kf = key_item_facts(1,2) [OF t k(1), folded k(2)]
  obtain x where x: "uip_ds6_route_nexthop s r = Some x" using nexthop_total [OF t(1)] by blast
  then have "uip_ds6_nbr_ipaddr_from_lladdr s (Some (key_lladdr s k)) = Some x"
    using kf(1) \<open>r \<noteq> NULL\<close> by (simp add: uip_ds6_route_nexthop_def uip_ds6_route_nexthop_lladdr_def)
  then show ?thesis using x kf(2) by (intro exI [of _ x]) (simp add: hop_address_def route_entry_def split: option.split)
qed

lemma unknown_lladdr:
  assumes "nbr_inv s ks"
  shows "nbr_table_get_from_lladdr s t None = nbr_table_get_from_lladdr s t (Some linkaddr_null)"
  by (simp add: nbr_table_get_from_lladdr_def index_from_lladdr_eq [OF assms])

lemma get_from_lladdr_step:
  assumes "rebound nbr_routes s s'" "tables_ok s ks" "tables_ok s' ks"
  shows "nbr_table_get_from_lladdr s' ds6_neighbors (Some a) = nbr_table_get_from_lladdr s ds6_neighbors (Some a)"
proof -
  have t: "nbr_inv s ks" "table_ok s ds6_neighbors" "nbr_inv s' ks" "table_ok s' ds6_neighbors"
    "nt_index (tables s ds6_neighbors) \<noteq> nt_index (tables s nbr_routes)" using assms(2,3) by (simp_all add: tables_ok_def)
  note sm = rebound_same(2-4) [OF assms(1)]
  show ?thesis
  proof (cases "a \<in> key_lladdr s ` set ks")
    case True
    then obtain k where k: "k \<in> set ks" "a = key_lladdr s k" by blast
    have "nbr_table_get_from_lladdr s' ds6_neighbors (Some (key_lladdr s' k)) =
        Some (if in_table s' ds6_neighbors k then item_at s' ds6_neighbors (kidx s' k) else NULL)"
      by (rule key_item_facts(4) [OF t(3,4) k(1)])
    then show ?thesis using key_item_facts(4) [OF t(1,2) k(1)] k(2) rebound_other(2) [OF assms(1) t(1,5) k(1)] unfolding sm by simp
  next
    case False
    then have "a \<notin> key_lladdr s' ` set ks" by (simp add: sm)
    then show ?thesis using get_from_lladdr_unknown [OF t(1) False] get_from_lladdr_unknown [OF t(3)] by simp
  qed
qed

lemma hop_address_step:
  assumes "route_step s s'" "tables_ok s ks" "tables_ok s' ks"
  shows "hop_address s' nb = hop_address s nb"
proof
  fix e
  have rb: "rebound nbr_routes s s'" and ip: "nbr_ipaddr (nbr_user s') = nbr_ipaddr (nbr_user s)"
    using assms(1) by (simp_all add: route_step_def route_part_def)
  show "hop_address s' nb e = hop_address s nb e"
    unfolding hop_address_def uip_ds6_nbr_ipaddr_from_lladdr_def uip_ds6_nbr_ll_lookup_def get_from_lladdr_step [OF rb assms(2,3)] ip ..
qed

lemma map_dropped: "map f (dropped n xs) = dropped n (map f xs)"
  by (simp add: dropped_def map_butlast)

lemma set_dropped: "set (dropped n xs) \<subseteq> set xs"
  by (auto simp: dropped_def dest: in_set_butlastD)

lemma routes_ok_trace:
  assumes "routes_ok s ks rs"
  shows "routes_ok (s\<lparr>nbr_user := (nbr_user s)\<lparr>ds6_trace := tr\<rparr>\<rparr>) ks rs"
    "route_step s (s\<lparr>nbr_user := (nbr_user s)\<lparr>ds6_trace := tr\<rparr>\<rparr>)"
proof -
  show "route_step s (s\<lparr>nbr_user := (nbr_user s)\<lparr>ds6_trace := tr\<rparr>\<rparr>)" by (simp add: route_step_def route_part_def)
  have "tables_ok (s\<lparr>nbr_user := (nbr_user s)\<lparr>ds6_trace := tr\<rparr>\<rparr>) ks"
    by (rule tables_ok_rebound [of s]) (use assms in \<open>simp_all add: routes_ok_def tables_ok_def nbr_inv_def\<close>)
  then show "routes_ok (s\<lparr>nbr_user := (nbr_user s)\<lparr>ds6_trace := tr\<rparr>\<rparr>) ks rs"
    using assms by (simp add: routes_ok_def lists_ok_def routers_rep_def routes_rep_def)
qed

lemma route_entry_new:
  assumes "rebound nbr_routes s s'" "route_new (nbr_user s) (nbr_user s') r (item_at s nbr_routes (kidx s k)) a l"
    "nbr_inv s ks" "table_ok s nbr_routes" "k \<in> set ks"
  shows "route_entry s' r = (a, l, key_lladdr s k)" "x \<noteq> r \<Longrightarrow> route_entry s' x = route_entry s x"
  using assms(2) key_item_facts(2) [OF assms(3-5)] unfolding route_entry_def rebound_same(2,5) [OF assms(1)]
  by (simp_all add: route_new_def)

text \<open>What \<open>uip_ds6_route_add\<close> does once no route is in the way.\<close>

definition add_tail :: "ds6 nbr_callback \<Rightarrow> ip6addr \<Rightarrow> u8 \<Rightarrow> ip6addr \<Rightarrow> linkaddr \<Rightarrow> ds6_sys \<Rightarrow> (ptr \<times> ds6_sys) option" where
  "add_tail other ipaddr len nexthop nh s = do {
     s \<leftarrow> make_room s;
     (routes, s) \<leftarrow> routes_of other (Some nh) s;
     if routes = NULL then Some (NULL, s)
     else do {
       (r, d) \<leftarrow> enter_route routes ipaddr len (nbr_user s);
       let s = s\<lparr>nbr_user := d\<rparr>;
       if r = NULL then Some (NULL, s)
       else do {
         s \<leftarrow> lift (call_route_callback ROUTE_ADD ipaddr (Some nexthop)) s;
         Some (r, s)
       }
     }
   }"

lemma add_tail_ok:
  assumes ok: "routes_ok s ks rs" and k: "k \<in> set ks" and l: "l \<le> 128"
  shows "\<exists>r s3. add_tail other a l nexthop (key_lladdr s k) s = Some (r, s3) \<and> r \<noteq> NULL \<and>
    routes_ok s3 ks (r # dropped (unat (mnum (routememb (nbr_user s)))) rs) \<and> route_step s s3 \<and>
    map (route_entry s3) (r # dropped (unat (mnum (routememb (nbr_user s)))) rs) =
      (a, l, key_lladdr s k) # dropped (unat (mnum (routememb (nbr_user s)))) (map (route_entry s) rs)"
proof -
  define n where "n = unat (mnum (routememb (nbr_user s)))"
  obtain s1 where s1: "make_room s = Some s1" "routes_ok s1 ks (dropped n rs)" "route_step s s1"
    "same_routes (nbr_user s) (nbr_user s1)" "length (dropped n rs) < unat (mnum (routememb (nbr_user s1)))"
    using make_room_ok [OF ok, folded n_def] by blast
  have rb: "rebound nbr_routes s s1" using s1(3) by (simp add: route_step_def)
  have kl: "key_lladdr s1 k = key_lladdr s k" by (simp add: rebound_same(2) [OF rb])
  define i where "i = item_at s1 nbr_routes (kidx s1 k)"
  obtain s2 r d where n: "routes_of other (Some (key_lladdr s k)) s1 = Some (i, s2)" "i \<noteq> NULL"
    "enter_route i a l (nbr_user s2) = Some (r, d)" "r \<noteq> NULL" "r \<notin> set (dropped n rs)"
    "routes_ok (s2\<lparr>nbr_user := d\<rparr>) ks (r # dropped n rs)" "route_step s1 (s2\<lparr>nbr_user := d\<rparr>)" "route_new (nbr_user s1) d r i a l"
    using insert_ok [OF s1(2,5) k l, folded i_def, unfolded kl] by blast
  have "lists_ok d" using n(6) by (simp add: routes_ok_def)
  then obtain tr where tr: "call_route_callback ROUTE_ADD a (Some nexthop) d = Some (d\<lparr>ds6_trace := tr\<rparr>)"
    using call_route_callback_ok by blast
  let ?s3 = "s2\<lparr>nbr_user := d\<lparr>ds6_trace := tr\<rparr>\<rparr>"
  have ok3: "routes_ok ?s3 ks (r # dropped n rs)" "route_step (s2\<lparr>nbr_user := d\<rparr>) ?s3"
    using routes_ok_trace [OF n(6), of tr] by simp_all
  have rb3: "rebound nbr_routes s1 ?s3" using n(7) by (simp add: route_step_def)
  have nw: "route_new (nbr_user s1) (nbr_user ?s3) r (item_at s1 nbr_routes (kidx s1 k)) a l" using n(8) by (simp add: route_new_def i_def)
  have t1: "nbr_inv s1 ks" "table_ok s1 nbr_routes" using s1(2) by (simp_all add: routes_ok_def tables_ok_def)
  note en = route_entry_new [OF rb3 nw t1 k]
  have "map (route_entry ?s3) (dropped n rs) = map (route_entry s) (dropped n rs)"
    using n(5) en(2) route_entry_same [OF rb s1(4)] by (intro map_cong refl) metis
  then have "map (route_entry ?s3) (r # dropped n rs) = (a, l, key_lladdr s k) # dropped n (map (route_entry s) rs)"
    using en(1) kl by (simp add: map_dropped)
  moreover have "route_step s ?s3" using route_step_trans [OF route_step_trans [OF s1(3) n(7)] ok3(2)] .
  moreover have "add_tail other a l nexthop (key_lladdr s k) s = Some (r, ?s3)"
    using s1(1) n(1-4) tr by (simp add: add_tail_def lift_def)
  ultimately show ?thesis using n(4) ok3(1) unfolding n_def [symmetric] by (intro exI conjI)
qed

lemma add_specI:
  assumes "lookup_spec a T found T1"
    "T' = (case found of None \<Rightarrow> (a, l, nh) # dropped n T1 | Some e \<Rightarrow> if same e then T1 else (a, l, nh) # tl T1)"
  shows "add_spec n a l nh same T T'"
  using assms unfolding add_spec_def by blast

text \<open>The route a lookup found is first.\<close>

lemma found_first:
  assumes "route_found d a rs r rs'" "r \<noteq> NULL"
  shows "rs' = r # tl rs'" "r \<in> set rs'" "remove1 r rs' = tl rs'" "length (tl rs') < length rs"
proof -
  have "r \<in> set rs" "rs' = r # remove1 r rs" using assms by (simp_all add: route_found_def)
  moreover have "0 < length rs" using \<open>r \<in> set rs\<close> by (cases rs) simp_all
  ultimately show "rs' = r # tl rs'" "r \<in> set rs'" "remove1 r rs' = tl rs'" "length (tl rs') < length rs"
    by (simp_all add: length_remove1)
qed

text \<open>The search for a route that is in the way.\<close>

lemma add_search_ok:
  assumes ok: "routes_ok s ks rs" and res: "uip_ds6_nbr_lladdr_from_ipaddr s (Some nexthop) = Some (Some nh)"
  shows "\<exists>r s1 rs1. route_found (nbr_user s) a rs r rs1 \<and> routes_ok s1 ks rs1 \<and> route_step s s1 \<and> route_entry s1 = route_entry s \<and>
    uip_ds6_route_add other nb a l nexthop s =
      (if r \<noteq> NULL \<and> nexthop = hop_address s nb (route_entry s r) then Some (r, s1)
       else do {
         s \<leftarrow> (if r \<noteq> NULL then uip_ds6_route_rm r s1 else Some s1);
         add_tail other a l nexthop nh s
       })"
proof -
  have t: "tables_ok s ks" using ok by (simp add: routes_ok_def)
  obtain r d rs1 where r: "uip_ds6_route_lookup a (nbr_user s) = Some (r, d)" "routes_ok (s\<lparr>nbr_user := d\<rparr>) ks rs1"
    "route_found (nbr_user s) a rs r rs1" "route_step s (s\<lparr>nbr_user := d\<rparr>)" "same_routes (nbr_user s) d"
    using routes_ok_lookup [OF ok, of a] by blast
  define s1 where "s1 = s\<lparr>nbr_user := d\<rparr>"
  have ok1: "routes_ok s1 ks rs1" "route_step s s1" "nbr_user s1 = d" using r(2,4) by (simp_all add: s1_def)
  have "rebound nbr_routes s s1" using ok1(2) by (simp add: route_step_def)
  then have e1: "route_entry s1 = route_entry s" by (rule route_entry_same) (use r(5) ok1(3) in simp)
  have t1: "tables_ok s1 ks" using ok1(1) by (simp add: routes_ok_def)
  have "\<exists>x. uip_ds6_route_nexthop s1 r = Some x \<and> (r \<noteq> NULL \<longrightarrow>
      hop_address s nb (route_entry s r) = (case x of None \<Rightarrow> nb | Some a \<Rightarrow> a))"
  proof (cases "r = NULL")
    case True
    then show ?thesis by (simp add: uip_ds6_route_nexthop_def)
  next
    case False
    then show ?thesis using nexthop_eq [OF ok1(1) found_first(2) [OF r(3) False], of nb] e1 hop_address_step [OF ok1(2) t t1, of nb]
      by simp
  qed
  then obtain x where x: "uip_ds6_route_nexthop s1 r = Some x"
    "r \<noteq> NULL \<Longrightarrow> hop_address s nb (route_entry s r) = (case x of None \<Rightarrow> nb | Some a \<Rightarrow> a)" by blast
  have "uip_ds6_route_add other nb a l nexthop s =
      (if r \<noteq> NULL \<and> nexthop = (case x of None \<Rightarrow> nb | Some a \<Rightarrow> a) then Some (r, s1)
       else do { s \<leftarrow> (if r \<noteq> NULL then uip_ds6_route_rm r s1 else Some s1); add_tail other a l nexthop nh s })"
    unfolding uip_ds6_route_add_def res r(1) Option.bind.simps prod.case Let_def s1_def [symmetric] x(1) add_tail_def
    by (simp only: option.distinct if_False)
  also have "(r \<noteq> NULL \<and> nexthop = (case x of None \<Rightarrow> nb | Some a \<Rightarrow> a)) = (r \<noteq> NULL \<and> nexthop = hop_address s nb (route_entry s r))"
    using x(2) by auto
  finally show ?thesis using r(3) ok1(1,2) e1 by (intro exI conjI)
qed

lemma route_add_ok:
  assumes ok: "routes_ok s ks rs" and l: "l \<le> 128" and res: "uip_ds6_nbr_lladdr_from_ipaddr s (Some nexthop) = Some (Some nh)"
  shows "\<exists>r s' rs'. uip_ds6_route_add other nb a l nexthop s = Some (r, s') \<and> r \<noteq> NULL \<and> routes_ok s' ks (r # rs') \<and> route_step s s' \<and>
    add_spec (unat (mnum (routememb (nbr_user s)))) a l nh (\<lambda>e. nexthop = hop_address s nb e)
      (map (route_entry s) rs) (map (route_entry s') (r # rs'))"
proof -
  define n where "n = unat (mnum (routememb (nbr_user s)))"
  have "nbr_inv s ks" "table_ok s ds6_neighbors" using ok by (simp_all add: routes_ok_def tables_ok_def)
  from resolve_ok [OF this, of nexthop] obtain k where k: "k \<in> set ks" "nh = key_lladdr s k" using res by auto
  note F = routes_ok_facts [OF ok]
  obtain r s1 rs1 where s1: "route_found (nbr_user s) a rs r rs1" "routes_ok s1 ks rs1" "route_step s s1" "route_entry s1 = route_entry s"
    and eq: "uip_ds6_route_add other nb a l nexthop s =
      (if r \<noteq> NULL \<and> nexthop = hop_address s nb (route_entry s r) then Some (r, s1)
       else do { s \<leftarrow> (if r \<noteq> NULL then uip_ds6_route_rm r s1 else Some s1); add_tail other a l nexthop nh s })"
    using add_search_ok [OF ok res, of a other nb l] by blast
  have n1: "unat (mnum (routememb (nbr_user s1))) = n" "key_lladdr s1 k = nh"
    using s1(3) rebound_same(2) [of nbr_routes s s1] k(2) by (simp_all add: route_step_def n_def)
  have spec: "lookup_spec a (map (route_entry s) rs) (if r = NULL then None else Some (route_entry s r)) (map (route_entry s) rs1)"
    by (rule route_found_spec [OF s1(1) F(5)])
  consider (keep) "r \<noteq> NULL" "nexthop = hop_address s nb (route_entry s r)"
    | (replace) "r \<noteq> NULL" "nexthop \<noteq> hop_address s nb (route_entry s r)" | (new) "r = NULL" by blast
  then show ?thesis
  proof cases
    case keep
    have "add_spec n a l nh (\<lambda>e. nexthop = hop_address s nb e) (map (route_entry s) rs) (map (route_entry s1) rs1)"
      by (rule add_specI [OF spec]) (use keep s1(4) in simp)
    moreover have "uip_ds6_route_add other nb a l nexthop s = Some (r, s1)" unfolding eq using keep by (simp only: simp_thms if_True)
    ultimately show ?thesis using s1(2,3) keep(1) found_first(1) [OF s1(1) keep(1)] unfolding n_def by metis
  next
    case replace
    note ff = found_first [OF s1(1) replace(1)]
    obtain s2 where s2: "uip_ds6_route_rm r s1 = Some s2" "routes_ok s2 ks (tl rs1)" "route_step s1 s2"
      "same_routes (nbr_user s1) (nbr_user s2)" using routes_ok_rm [OF s1(2) ff(2)] ff(3) by auto
    have rb2: "rebound nbr_routes s1 s2" using s2(3) by (simp add: route_step_def)
    have n2: "key_lladdr s2 k = nh" "unat (mnum (routememb (nbr_user s2))) = n"
      using rebound_same(2) [OF rb2] s2(3) n1 by (simp_all add: route_step_def)
    have e2: "route_entry s2 = route_entry s" using route_entry_same [OF rb2 s2(4)] s1(4) by simp
    have "length (tl rs1) < n" using ff(4) F(3) unfolding n_def by linarith
    then have dr: "dropped n (tl rs1) = tl rs1" "dropped n (tl (map (route_entry s) rs1)) = tl (map (route_entry s) rs1)"
      by (auto simp add: dropped_def)
    obtain r' s5 where a: "add_tail other a l nexthop nh s2 = Some (r', s5)" "r' \<noteq> NULL" "routes_ok s5 ks (r' # tl rs1)" "route_step s2 s5"
      "map (route_entry s5) (r' # tl rs1) = (a, l, nh) # tl (map (route_entry s) rs1)"
      using add_tail_ok [OF s2(2) k(1) l, of other a nexthop, unfolded n2 e2 dr] by (auto simp: map_tl dr)
    have "add_spec n a l nh (\<lambda>e. nexthop = hop_address s nb e) (map (route_entry s) rs) (map (route_entry s5) (r' # tl rs1))"
      by (rule add_specI [OF spec]) (use replace a(5) in simp)
    moreover have "uip_ds6_route_add other nb a l nexthop s = Some (r', s5)" unfolding eq using replace a(1) s2(1) by simp
    moreover have "route_step s s5" by (rule route_step_trans [OF route_step_trans [OF s1(3) s2(3)] a(4)])
    ultimately show ?thesis using a(2,3) unfolding n_def by (intro exI conjI)
  next
    case new
    obtain r' s5 where a: "add_tail other a l nexthop nh s1 = Some (r', s5)" "r' \<noteq> NULL" "routes_ok s5 ks (r' # dropped n rs1)" "route_step s1 s5"
      "map (route_entry s5) (r' # dropped n rs1) = (a, l, nh) # dropped n (map (route_entry s) rs1)"
      using add_tail_ok [OF s1(2) k(1) l, of other a nexthop, unfolded n1 s1(4)] by (elim exE conjE) (rule that; assumption)
    have "add_spec n a l nh (\<lambda>e. nexthop = hop_address s nb e) (map (route_entry s) rs) (map (route_entry s5) (r' # dropped n rs1))"
      by (rule add_specI [OF spec]) (use new a(5) in simp)
    moreover have "uip_ds6_route_add other nb a l nexthop s = Some (r', s5)" unfolding eq using new a(1) by simp
    moreover have "route_step s s5" by (rule route_step_trans [OF s1(3) a(4)])
    ultimately show ?thesis using a(2,3) unfolding n_def by (intro exI conjI)
  qed
qed

section \<open>Removing routes\<close>

lemma route_entry_step: "route_step s s' \<Longrightarrow> same_routes (nbr_user s) (nbr_user s') \<Longrightarrow> route_entry s' = route_entry s"
  by (rule route_entry_same [of nbr_routes]) (simp_all add: route_step_def)

lemma route_key:
  assumes ok: "routes_ok s ks rs" and r: "r \<in> set rs"
  obtains k where "k \<in> set ks" "in_table s nbr_routes k" "neighbor_routes (nbr_user s) r = item_at s nbr_routes (kidx s k)"
    "snd (snd (route_entry s r)) = key_lladdr s k"
proof -
  have t: "nbr_inv s ks" "table_ok s nbr_routes" using ok by (simp_all add: routes_ok_def tables_ok_def)
  obtain k where k: "k \<in> set ks" "in_table s nbr_routes k" "neighbor_routes (nbr_user s) r = item_at s nbr_routes (kidx s k)"
    using routes_ok_facts(6) [OF ok r] unfolding mem_items by blast
  then show thesis using that key_item_facts(2) [OF t k(1)] by (simp add: route_entry_def)
qed

lemma routes_ok_rm_routelist:
  assumes ok: "routes_ok s ks rs" and i: "i \<in> route_items s ks"
  shows "\<exists>s'. rm_routelist i s = Some s' \<and> routes_ok s' ks (filter (\<lambda>r. neighbor_routes (nbr_user s) r \<noteq> i) rs) \<and>
    route_step s s' \<and> shrunk s s' \<and> same_routes (nbr_user s) (nbr_user s') \<and> i \<notin> route_items s' ks"
proof -
  obtain nb rl where rep: "routes_rep (nbr_user s) (route_items s ks) rs nb rl" using ok unfolding routes_ok_def by blast
  have t: "nbr_inv s ks" "table_ok s nbr_routes" "lists_ok (nbr_user s)" using ok by (simp_all add: routes_ok_def tables_ok_def)
  obtain s' rl' where s': "rm_routelist i s = Some s'" "trimmed nbr_routes s s'" "route_part (nbr_user s) (nbr_user s')"
    "same_routes (nbr_user s) (nbr_user s')" "route_items s' ks = route_items s' ks - {i}"
    "routes_rep (nbr_user s') (route_items s' ks) (filter (\<lambda>r. neighbor_routes (nbr_user s) r \<noteq> i) rs) nb rl'"
    using rm_routelist_ok [OF t(1,2) rep t(3) i] by blast
  have rb: "rebound nbr_routes s s'" by (rule trimmed_rebound [OF s'(2)])
  have "tables_ok s' ks" using tables_ok_rebound [OF rb] trimmed_inv(1) [OF s'(2) t(1)] ok by (simp add: routes_ok_def)
  moreover have "lists_ok (nbr_user s')" using t(3) route_part_lists [OF s'(3)] by simp
  ultimately have "routes_ok s' ks (filter (\<lambda>r. neighbor_routes (nbr_user s) r \<noteq> i) rs)" "route_step s s'"
    using s'(3,4,6) ok rb by (auto simp: routes_ok_def route_step_def same_routes_def)
  moreover have "shrunk s s'" using s'(2) by (simp add: trimmed_def)
  moreover have "i \<notin> route_items s' ks" by (subst s'(5)) simp
  ultimately show ?thesis using s'(1,4) by blast
qed

text \<open>The routes through a neighbor, by its item and by its address.\<close>

lemma filter_hops:
  assumes ok: "routes_ok s ks rs" and k: "k \<in> set ks"
  shows "map (route_entry s) (filter (\<lambda>r. neighbor_routes (nbr_user s) r \<noteq> item_at s nbr_routes (kidx s k)) rs) =
    filter (\<lambda>e. snd (snd e) \<noteq> key_lladdr s k) (map (route_entry s) rs)"
proof -
  have t: "nbr_inv s ks" "table_ok s nbr_routes" using ok by (simp_all add: routes_ok_def tables_ok_def)
  have inj: "inj_on (key_lladdr s) (set ks)" using t(1) by (simp add: nbr_inv_def)
  have "neighbor_routes (nbr_user s) r \<noteq> item_at s nbr_routes (kidx s k) \<longleftrightarrow> snd (snd (route_entry s r)) \<noteq> key_lladdr s k"
    if r: "r \<in> set rs" for r
  proof -
    obtain k' where k': "k' \<in> set ks" "neighbor_routes (nbr_user s) r = item_at s nbr_routes (kidx s k')"
      "snd (snd (route_entry s r)) = key_lladdr s k'" by (rule route_key [OF ok r])
    have "item_at s nbr_routes (kidx s k') = item_at s nbr_routes (kidx s k) \<longleftrightarrow> k' = k" using item_at_inj [OF t k'(1) k] by blast
    moreover have "key_lladdr s k' = key_lladdr s k \<longleftrightarrow> k' = k" using inj_on_eq_iff [OF inj k'(1) k] .
    ultimately show ?thesis unfolding k'(2,3) by simp
  qed
  then show ?thesis by (simp add: filter_map o_def cong: filter_cong)
qed

text \<open>\<open>uip_ds6_route_rm_by_nexthop\<close> looks an unknown address up as the null address.\<close>

lemma route_rm_by_nexthop_ok:
  assumes ok: "routes_ok s ks rs" and res: "uip_ds6_nbr_lladdr_from_ipaddr s nexthop = Some x"
  shows "\<exists>s' rs'. uip_ds6_route_rm_by_nexthop nexthop s = Some s' \<and> routes_ok s' ks rs' \<and> route_step s s' \<and>
    map (route_entry s') rs' = filter (\<lambda>e. snd (snd e) \<noteq> (case x of None \<Rightarrow> linkaddr_null | Some l \<Rightarrow> l)) (map (route_entry s) rs)"
proof -
  define a where "a = (case x of None \<Rightarrow> linkaddr_null | Some l \<Rightarrow> l)"
  have t: "nbr_inv s ks" "table_ok s nbr_routes" using ok by (simp_all add: routes_ok_def tables_ok_def)
  have inj: "inj_on (key_lladdr s) (set ks)" using t(1) by (simp add: nbr_inv_def)
  have g: "nbr_table_get_from_lladdr s nbr_routes x = nbr_table_get_from_lladdr s nbr_routes (Some a)"
    using unknown_lladdr [OF t(1)] by (simp add: a_def split: option.split)
  show ?thesis
  proof (cases "\<exists>k \<in> set ks. key_lladdr s k = a \<and> in_table s nbr_routes k")
    case True
    then obtain k where k: "k \<in> set ks" "key_lladdr s k = a" "in_table s nbr_routes k" by blast
    define i where "i = item_at s nbr_routes (kidx s k)"
    have "i \<in> route_items s ks" using k unfolding mem_items i_def by blast
    then obtain s' where s': "rm_routelist i s = Some s'" "routes_ok s' ks (filter (\<lambda>r. neighbor_routes (nbr_user s) r \<noteq> i) rs)"
      "route_step s s'" "same_routes (nbr_user s) (nbr_user s')" using routes_ok_rm_routelist [OF ok] by blast
    have "route_entry s' = route_entry s" by (rule route_entry_step [OF s'(3,4)])
    moreover have "nbr_table_get_from_lladdr s nbr_routes x = Some i"
      using g key_item_facts(4) [OF t k(1)] k(2,3) by (simp add: i_def)
    ultimately show ?thesis using s' filter_hops [OF ok k(1), folded i_def] k(2) res
      unfolding uip_ds6_route_rm_by_nexthop_def a_def [symmetric] by (intro exI conjI) (assumption | simp)+
  next
    case False
    have "nbr_table_get_from_lladdr s nbr_routes (Some a) = Some NULL"
    proof (cases "a \<in> key_lladdr s ` set ks")
      case True
      then show ?thesis using False key_item_facts(4) [OF t] by auto
    next
      case False
      then show ?thesis by (rule get_from_lladdr_unknown [OF t(1)])
    qed
    then have "uip_ds6_route_rm_by_nexthop nexthop s = Some s"
      using g res by (simp add: uip_ds6_route_rm_by_nexthop_def rm_routelist_def)
    moreover have "\<forall>e \<in> set (map (route_entry s) rs). snd (snd e) \<noteq> a" using False route_key [OF ok] by (metis (no_types, lifting) imageE list.set_map)
    ultimately show ?thesis using ok unfolding a_def [symmetric] by (intro exI [of _ s] exI [of _ rs]) simp
  qed
qed

lemma route_rm_entries:
  assumes ok: "routes_ok s ks rs" and rs: "rs = as @ r # bs"
  shows "\<exists>s'. uip_ds6_route_rm r s = Some s' \<and> routes_ok s' ks (as @ bs) \<and> route_step s s' \<and> map (route_entry s') (as @ bs) = map (route_entry s) (as @ bs)"
proof -
  have "remove1 r rs = as @ bs" using routes_ok_facts(4) [OF ok] rs by (simp add: remove1_append)
  then obtain s' where s': "uip_ds6_route_rm r s = Some s'" "routes_ok s' ks (as @ bs)" "route_step s s'" "same_routes (nbr_user s) (nbr_user s')"
    using routes_ok_rm [OF ok, of r] rs by auto
  then show ?thesis using route_entry_step [OF s'(3,4)] by simp
qed

end
