(* ===== verification/Ds6Evict.thy ===== *)
theory Ds6Evict
  imports Ds6Table
begin

text \<open>
  Neighbors and routes together: when the neighbor table evicts a neighbor for a new one, the callback
  of the table \<open>nbr_routes\<close> removes the routes through it, so that the routing table loses exactly these
  routes and every route has a neighbor as its next hop.
\<close>

section \<open>Callbacks\<close>

lemma route_rm_shrunk: "uip_ds6_route_rm r s = Some s' \<Longrightarrow> shrunk s s'"
proof -
  have sh: "shrunk s (snd (nbr_table_remove s t i))" for s :: ds6_sys and t i using trimmed_remove [of t s i] by (simp add: trimmed_def)
  have up: "shrunk (upd f s) x = shrunk s x" for f s x by (simp add: shrunk_def upd_def)
  have li: "lift f x = Some y \<Longrightarrow> shrunk s y = shrunk s x" for f x y by (auto simp: lift_def bind_eq_Some_conv)
  assume "uip_ds6_route_rm r s = Some s'"
  then show ?thesis
    unfolding uip_ds6_route_rm_def Let_def
    by (auto simp: bind_eq_Some_conv li split: if_splits intro: sh [of "upd f s" for f s, unfolded up])
qed

lemma rm_routelist_shrunk: "rm_routelist i s = Some s' \<Longrightarrow> shrunk s s'"
proof -
  have l: "shrunk s s'" if "rm_routelist_loop i s = Some s'" for i s s'
    using that
  proof (induction rule: rm_routelist_loop.raw_induct [rotated, consumes 1])
    case (1 loop i s s')
    then show ?case by (auto simp: Let_def bind_eq_Some_conv split: if_splits dest: route_rm_shrunk intro: shrunk_trans)
  qed
  have r: "shrunk s (snd (nbr_table_remove s t i))" for s :: ds6_sys and t i using trimmed_remove [of t s i] by (simp add: trimmed_def)
  assume "rm_routelist i s = Some s'"
  then show ?thesis by (auto simp: rm_routelist_def bind_eq_Some_conv split: if_splits intro: shrunk_trans [OF l r])
qed

text \<open>What a change must leave alone so that the routes stay as they are.\<close>

definition same_route_data :: "ds6 \<Rightarrow> ds6 \<Rightarrow> bool" where
  "same_route_data d d' \<longleftrightarrow>
     route_heap d' = route_heap d \<and> routememb d' = routememb d \<and> neighbor_routes d' = neighbor_routes d \<and>
     route_ipaddr d' = route_ipaddr d \<and> route_length d' = route_length d \<and> num_routes d' = num_routes d \<and>
     route_list d' = route_list d \<and> nr_heap d' = nr_heap d \<and> neighborroutememb d' = neighborroutememb d \<and>
     nr_route d' = nr_route d \<and> (lists_ok d \<longrightarrow> lists_ok d')"

definition spares_routes :: "ds6_sys \<Rightarrow> ds6_sys \<Rightarrow> bool" where
  "spares_routes s s' \<longleftrightarrow> shrunk s s' \<and> same_route_data (nbr_user s) (nbr_user s') \<and>
     (\<forall>i < length (used_map s). bit (used_map s' ! i) (nt_index (tables s nbr_routes)) = bit (used_map s ! i) (nt_index (tables s nbr_routes)))"

lemma spares_items:
  assumes "spares_routes s s'" "nbr_inv s ks"
  shows "items s' nbr_routes ks = items s nbr_routes ks"
proof -
  have sh: "shrunk s s'" using assms(1) by (simp add: spares_routes_def)
  have e: "tables s' = tables s" "kidx s' k = kidx s k" for k using sh index_from_key_shrunk [OF sh] by (simp_all add: shrunk_def)
  have "in_table s' nbr_routes k = in_table s nbr_routes k" if "k \<in> set ks" for k
  proof -
    have "kidx s k < nbrs s" by (rule live_index [OF assms(2) that]) simp
    then show ?thesis using assms e by (simp add: in_table_def spares_routes_def nbr_inv_def)
  qed
  then have "filter (in_table s' nbr_routes) ks = filter (in_table s nbr_routes) ks" by (intro filter_cong) simp_all
  then show ?thesis unfolding items_def e by simp
qed

lemma spares_routes_ok:
  assumes "spares_routes s s'" "routes_ok s ks rs"
  shows "routes_ok s' ks rs" "route_entry s' = route_entry s" "neighbor_routes (nbr_user s') = neighbor_routes (nbr_user s)"
proof -
  have sh: "shrunk s s'" and sd: "same_route_data (nbr_user s) (nbr_user s')" using assms(1) by (simp_all add: spares_routes_def)
  have t: "nbr_inv s ks" using assms(2) by (simp add: routes_ok_def tables_ok_def)
  have e: "tables s' = tables s" "key_lladdr s' = key_lladdr s" "key_from_item s' t i = key_from_item s t i" for t i
    using sh by (simp_all add: shrunk_def key_from_item_def index_from_item_def key_from_index_def)
  have "tables_ok s' ks" using assms(2) shrunk_inv [OF sh] table_ok_shrunk [OF sh] e(1) by (simp add: routes_ok_def tables_ok_def)
  moreover have "routes_rep (nbr_user s') I rs nb rl = routes_rep (nbr_user s) I rs nb rl" for I nb rl
    using sd by (simp add: routes_rep_def same_route_data_def)
  ultimately show "routes_ok s' ks rs" using assms(2) sd spares_items [OF assms(1) t] by (simp add: routes_ok_def same_route_data_def)
  show "route_entry s' = route_entry s" using sd e by (simp add: route_entry_def same_route_data_def fun_eq_iff)
  show "neighbor_routes (nbr_user s') = neighbor_routes (nbr_user s)" using sd by (simp add: same_route_data_def)
qed

lemma nbr_rm_trimmed: "trimmed ds6_neighbors s (uip_ds6_nbr_rm nbr s)"
proof -
  have "trimmed ds6_neighbors s (snd (nbr_table_remove (upd f s) ds6_neighbors nbr))" for f
    using trimmed_remove [of ds6_neighbors "upd f s" nbr] by (simp add: trimmed_def shrunk_def upd_def)
  then show ?thesis by (simp add: uip_ds6_nbr_rm_def)
qed

lemma nbr_rm_spares:
  assumes "nt_index (tables s ds6_neighbors) \<noteq> nt_index (tables s nbr_routes)"
  shows "spares_routes s (uip_ds6_nbr_rm nbr s)"
proof -
  have "same_route_data (nbr_user s) (nbr_user (uip_ds6_nbr_rm nbr s))"
    by (simp add: uip_ds6_nbr_rm_def same_route_data_def lists_ok_def routers_rep_def ds6_call_eq uip_packetqueue_free_def Let_def)
  then show ?thesis using nbr_rm_trimmed [of s nbr] assms by (auto simp: spares_routes_def trimmed_def)
qed

section \<open>The callbacks registered\<close>

text \<open>
  Both tables of this module are registered, each with its callback, and no other table has one of
  these callbacks; the callbacks of other modules spare the routes.
\<close>

definition callbacks_registered :: "ds6_sys \<Rightarrow> bool" where
  "callbacks_registered s \<longleftrightarrow> (\<exists>i < MAX_NUM_TABLES. all_tables s ! i = nbr_routes) \<and>
     (\<forall>i < MAX_NUM_TABLES. all_tables s ! i \<noteq> NULL \<longrightarrow>
        (nt_callback (tables s (all_tables s ! i)) = rm_routelist_callback_ptr \<longleftrightarrow> all_tables s ! i = nbr_routes) \<and>
        (nt_callback (tables s (all_tables s ! i)) = uip_ds6_nbr_rm_ptr \<longleftrightarrow> all_tables s ! i = ds6_neighbors))"

definition others_ok :: "ds6 nbr_callback \<Rightarrow> bool" where
  "others_ok other \<longleftrightarrow> (\<forall>f item s. spares_routes s (other f item s))"

lemma ds6_callbacks_ok:
  assumes "others_ok other"
  shows "callbacks_ok (ds6_callback other)"
proof -
  have "shrunk s (uip_ds6_nbr_rm item s)" for item s using nbr_rm_trimmed [of s item] by (simp add: trimmed_def)
  then show ?thesis using assms rm_routelist_shrunk
    by (auto simp: callbacks_ok_def ds6_callback_def others_ok_def spares_routes_def split: option.split)
qed

text \<open>
  While the tables are told of an eviction, the routes through the item \<open>i\<close> are there until the table
  \<open>nbr_routes\<close> has heard of it.
\<close>

definition told :: "ds6_sys \<Rightarrow> ptr list \<Rightarrow> ptr list \<Rightarrow> ptr \<Rightarrow> ds6_sys \<Rightarrow> bool" where
  "told s ks rs i s' \<longleftrightarrow> shrunk s s' \<and> route_entry s' = route_entry s \<and>
     neighbor_routes (nbr_user s') = neighbor_routes (nbr_user s) \<and>
     routes_ok s' ks (if i \<in> route_items s' ks then rs else filter (\<lambda>r. neighbor_routes (nbr_user s) r \<noteq> i) rs)"

lemma told_refl:
  assumes "routes_ok s ks rs"
  shows "told s ks rs i s"
proof -
  have "filter (\<lambda>r. neighbor_routes (nbr_user s) r \<noteq> i) rs = rs" if "i \<notin> route_items s ks"
    using routes_ok_facts(6) [OF assms] that by (auto intro!: filter_True)
  then show ?thesis using assms by (simp add: told_def)
qed

lemma told_spares:
  assumes "told s ks rs i s1" "spares_routes s1 s2"
  shows "told s ks rs i s2 \<and> route_items s2 ks = route_items s1 ks"
proof -
  obtain rs1 where r1: "routes_ok s1 ks rs1" using assms(1) unfolding told_def by blast
  then have "nbr_inv s1 ks" by (auto simp: routes_ok_def tables_ok_def)
  then have it: "items s2 nbr_routes ks = items s1 nbr_routes ks" by (rule spares_items [OF assms(2)])
  moreover have "shrunk s s2" using assms shrunk_trans [of s s1 s2] by (simp add: told_def spares_routes_def)
  ultimately show ?thesis using assms(1) spares_routes_ok(1) [OF assms(2)] spares_routes_ok(2,3) [OF assms(2) r1]
    unfolding told_def by (simp only: simp_thms)
qed

lemma told_rm_routelist:
  assumes "told s ks rs i s1" "i \<in> route_items s1 ks"
  shows "\<exists>s2. rm_routelist i s1 = Some s2 \<and> told s ks rs i s2 \<and> i \<notin> route_items s2 ks"
proof -
  have t: "shrunk s s1" "route_entry s1 = route_entry s" "neighbor_routes (nbr_user s1) = neighbor_routes (nbr_user s)" "routes_ok s1 ks rs"
    using assms by (simp_all add: told_def)
  obtain s2 where s2: "rm_routelist i s1 = Some s2" "routes_ok s2 ks (filter (\<lambda>r. neighbor_routes (nbr_user s1) r \<noteq> i) rs)"
    "route_step s1 s2" "shrunk s1 s2" "same_routes (nbr_user s1) (nbr_user s2)" "i \<notin> route_items s2 ks"
    using routes_ok_rm_routelist [OF t(4) assms(2)] by blast
  have "told s ks rs i s2" using t s2(2,6) shrunk_trans [OF t(1) s2(4)] route_entry_step [OF s2(3,5)] s2(5)
    by (simp add: told_def same_routes_def)
  then show ?thesis using s2(1,6) by blast
qed

lemma item_in_table:
  assumes "nbr_inv s ks" "table_ok s t" "k \<in> set ks"
  shows "item_at s t (kidx s k) \<in> set (items s t ks) \<longleftrightarrow> in_table s t k"
  unfolding mem_items using item_at_inj [OF assms(1,2)] assms(3) by blast

lemma told_notify:
  assumes t: "told s ks rs (item_at s nbr_routes (kidx s v)) s1" and reg: "callbacks_registered s" and v: "v \<in> set ks"
    and o: "others_ok other" and n: "n < MAX_NUM_TABLES"
  shows "told s ks rs (item_at s nbr_routes (kidx s v)) (notify (ds6_callback other) v n s1)"
    "all_tables s ! n = nbr_routes \<or> item_at s nbr_routes (kidx s v) \<notin> route_items s1 ks \<Longrightarrow>
       item_at s nbr_routes (kidx s v) \<notin> route_items (notify (ds6_callback other) v n s1) ks"
proof -
  define i where "i = item_at s nbr_routes (kidx s v)"
  define s2 where "s2 = notify (ds6_callback other) v n s1"
  have sh: "shrunk s s1" using t by (simp add: told_def)
  have e: "tables s1 = tables s" "all_tables s1 = all_tables s" "kidx s1 v = kidx s v"
    using sh index_from_key_shrunk [OF sh] by (simp_all add: shrunk_def)
  have tb: "nbr_inv s1 ks" "table_ok s1 nbr_routes" "nt_index (tables s1 ds6_neighbors) \<noteq> nt_index (tables s1 nbr_routes)"
    using t by (auto simp: told_def routes_ok_def tables_ok_def)
  have live: "item_from_key s1 nbr_routes v = i" "nbr_get_bit (used_map s1) s1 nbr_routes i \<longleftrightarrow> i \<in> route_items s1 ks"
    using item_from_key_live [OF tb(1,2) v] item_in_table [OF tb(1,2) v] unfolding i_def e by simp_all
  have cb: "nt_callback (tables s (all_tables s ! n)) = rm_routelist_callback_ptr \<longleftrightarrow> all_tables s ! n = nbr_routes"
    "nt_callback (tables s (all_tables s ! n)) = uip_ds6_nbr_rm_ptr \<longleftrightarrow> all_tables s ! n = ds6_neighbors" if "all_tables s ! n \<noteq> NULL"
    using reg n that unfolding callbacks_registered_def by blast+
  have ptrs: "rm_routelist_callback_ptr \<noteq> NULL" "rm_routelist_callback_ptr \<noteq> uip_ds6_nbr_rm_ptr" "nbr_routes \<noteq> NULL"
    by (simp_all add: rm_routelist_callback_ptr_def uip_ds6_nbr_rm_ptr_def nbr_routes_def)
  have "told s ks rs i s2 \<and> (all_tables s ! n = nbr_routes \<or> i \<notin> route_items s1 ks \<longrightarrow> i \<notin> route_items s2 ks)"
  proof (cases "all_tables s ! n = nbr_routes")
    case True
    then have c: "nt_callback (tables s nbr_routes) = rm_routelist_callback_ptr" using cb(1) ptrs by simp
    show ?thesis
    proof (cases "i \<in> route_items s1 ks")
      case True
      then obtain s3 where s3: "rm_routelist i s1 = Some s3" "told s ks rs i s3" "i \<notin> route_items s3 ks"
        using told_rm_routelist [OF t [folded i_def]] by blast
      have "s2 = s3" unfolding s2_def notify_def Let_def e \<open>all_tables s ! n = nbr_routes\<close> live(1) c
        using ptrs live(2) True s3(1) by (simp add: ds6_callback_def)
      then show ?thesis using s3(2,3) by simp
    next
      case False
      then have "s2 = s1" unfolding s2_def notify_def Let_def e \<open>all_tables s ! n = nbr_routes\<close> live(1) using live(2) by simp
      then show ?thesis using t False unfolding i_def by simp
    qed
  next
    case False
    have "spares_routes s1 s2"
    proof (cases "all_tables s ! n = NULL")
      case True
      then show ?thesis by (simp add: s2_def notify_def e spares_routes_def same_route_data_def)
    next
      case False
      show ?thesis
        using cb [OF False] \<open>all_tables s ! n \<noteq> nbr_routes\<close> nbr_rm_spares [OF tb(3)] o
        by (simp add: s2_def notify_def Let_def e ds6_callback_def others_ok_def) (simp add: spares_routes_def same_route_data_def)
    qed
    then show ?thesis using told_spares [OF t [folded i_def]] False by simp
  qed
  then show "told s ks rs (item_at s nbr_routes (kidx s v)) (notify (ds6_callback other) v n s1)"
    "all_tables s ! n = nbr_routes \<or> item_at s nbr_routes (kidx s v) \<notin> route_items s1 ks \<Longrightarrow>
       item_at s nbr_routes (kidx s v) \<notin> route_items (notify (ds6_callback other) v n s1) ks"
    unfolding i_def s2_def by blast+
qed

section \<open>Eviction\<close>

lemma evict_told:
  assumes ok: "routes_ok s ks rs" and reg: "callbacks_registered s" and v: "v \<in> set ks" and o: "others_ok other"
  shows "m \<le> MAX_NUM_TABLES \<Longrightarrow> told s ks rs (item_at s nbr_routes (kidx s v)) (fold (notify (ds6_callback other) v) [0..<m] s) \<and>
    ((\<exists>n < m. all_tables s ! n = nbr_routes) \<longrightarrow>
      item_at s nbr_routes (kidx s v) \<notin> route_items (fold (notify (ds6_callback other) v) [0..<m] s) ks)"
proof (induction m)
  case 0
  then show ?case using told_refl [OF ok] by simp
next
  case (Suc m)
  define s1 where "s1 = fold (notify (ds6_callback other) v) [0..<m] s"
  define i where "i = item_at s nbr_routes (kidx s v)"
  have m: "m < MAX_NUM_TABLES" using Suc.prems by simp
  have IH: "told s ks rs i s1" "(\<exists>n < m. all_tables s ! n = nbr_routes) \<longrightarrow> i \<notin> route_items s1 ks"
    using Suc m unfolding s1_def i_def by simp_all
  have f: "fold (notify (ds6_callback other) v) [0..<Suc m] s = notify (ds6_callback other) v m s1"
    by (simp add: s1_def)
  note n = told_notify [OF IH(1) [unfolded i_def] reg v o m, folded i_def]
  show ?case unfolding f i_def [symmetric] using n IH(2) by (auto simp: less_Suc_eq)
qed

lemma evict_ok:
  assumes "routes_ok s ks rs" "callbacks_registered s" "v \<in> set ks" "others_ok other"
  shows "shrunk s (fold (notify (ds6_callback other) v) [0..<MAX_NUM_TABLES] s)"
    "route_entry (fold (notify (ds6_callback other) v) [0..<MAX_NUM_TABLES] s) = route_entry s"
    "routes_ok (fold (notify (ds6_callback other) v) [0..<MAX_NUM_TABLES] s) ks
       (filter (\<lambda>r. neighbor_routes (nbr_user s) r \<noteq> item_at s nbr_routes (kidx s v)) rs)"
    "\<not> in_table (fold (notify (ds6_callback other) v) [0..<MAX_NUM_TABLES] s) nbr_routes v"
proof -
  define sf where "sf = fold (notify (ds6_callback other) v) [0..<MAX_NUM_TABLES] s"
  define i where "i = item_at s nbr_routes (kidx s v)"
  have "\<exists>n < MAX_NUM_TABLES. all_tables s ! n = nbr_routes" using assms(2) by (simp add: callbacks_registered_def)
  then have t: "told s ks rs i sf" "i \<notin> route_items sf ks" using evict_told [OF assms order_refl] unfolding sf_def i_def by blast+
  then show "shrunk s sf" "route_entry sf = route_entry s" and ok: "routes_ok sf ks (filter (\<lambda>r. neighbor_routes (nbr_user s) r \<noteq> i) rs)"
    by (simp_all add: told_def)
  have tb: "nbr_inv sf ks" "table_ok sf nbr_routes" using ok by (simp_all add: routes_ok_def tables_ok_def)
  have e: "tables sf = tables s" "kidx sf v = kidx s v"
    using \<open>shrunk s sf\<close> index_from_key_shrunk [of s sf v] by (simp_all add: shrunk_def)
  show "\<not> in_table sf nbr_routes v" using item_in_table [OF tb assms(3)] t(2) unfolding i_def e by simp
qed

text \<open>The neighbors changed, but none that has routes.\<close>

lemma routes_ok_neighbors:
  assumes ok: "routes_ok s ks rs" and inv: "nbr_inv s' ks'" and same: "tables s' = tables s" "nbr_user s' = nbr_user s"
      "mmem (neighbor_addr_mem s') = mmem (neighbor_addr_mem s)" "msize (neighbor_addr_mem s') = msize (neighbor_addr_mem s)"
      "mnum (neighbor_addr_mem s') = mnum (neighbor_addr_mem s)"
    and keep: "\<And>k. k \<in> set ks \<Longrightarrow> in_table s nbr_routes k \<Longrightarrow> k \<in> set ks' \<and> in_table s' nbr_routes k \<and> key_lladdr s' k = key_lladdr s k"
    and new: "\<And>k. k \<in> set ks' \<Longrightarrow> in_table s' nbr_routes k \<Longrightarrow> k \<in> set ks \<and> in_table s nbr_routes k"
  shows "routes_ok s' ks' rs" "map (route_entry s') rs = map (route_entry s) rs"
proof -
  have e: "kidx s' k = kidx s k" "table_ok s' t = table_ok s t" "key_from_item s' t i = key_from_item s t i" for k t i
    using same by (simp_all add: index_from_key_def table_ok_def key_from_item_def key_from_index_def index_from_item_def)
  define f where "f k = item_at s nbr_routes (kidx s k)" for k
  have "(\<exists>k \<in> set ks'. in_table s' nbr_routes k \<and> i = f k) \<longleftrightarrow> (\<exists>k \<in> set ks. in_table s nbr_routes k \<and> i = f k)" for i
    using keep new by blast
  then have it: "route_items s' ks' = route_items s ks" unfolding set_eq_iff mem_items same(1) e(1) f_def [symmetric] by blast
  show "routes_ok s' ks' rs" using ok inv unfolding routes_ok_def tables_ok_def it same(1,2) e(2) by blast
  show "map (route_entry s') rs = map (route_entry s) rs"
  proof (intro map_cong refl)
    fix r assume "r \<in> set rs"
    then obtain k where k: "k \<in> set ks" "in_table s nbr_routes k" "neighbor_routes (nbr_user s) r = item_at s nbr_routes (kidx s k)"
      by (rule route_key [OF ok])
    have t: "nbr_inv s ks" "table_ok s nbr_routes" using ok by (simp_all add: routes_ok_def tables_ok_def)
    have "key_from_item s nbr_routes (neighbor_routes (nbr_user s) r) = k" unfolding k(3) by (rule key_item_facts(2) [OF t k(1)])
    then show "route_entry s' r = route_entry s r" using keep [OF k(1,2)] by (simp add: route_entry_def same(2) e(3))
  qed
qed

lemma fill_neighbor_ok:
  assumes ok: "routes_ok s ks rs" and k: "k \<in> set ks"
  shows "routes_ok (fill_item s ds6_neighbors (kidx s k)) ks rs"
    "map (route_entry (fill_item s ds6_neighbors (kidx s k))) rs = map (route_entry s) rs"
proof -
  have t: "nbr_inv s ks" "table_ok s ds6_neighbors" "nt_index (tables s nbr_routes) \<noteq> nt_index (tables s ds6_neighbors)"
    using ok by (simp_all add: routes_ok_def tables_ok_def)
  note fr = fill_rebound [OF t(1,2) k]
  have it: "in_table (fill_item s ds6_neighbors (kidx s k)) nbr_routes x = in_table s nbr_routes x" if "x \<in> set ks" for x
    by (rule rebound_other(2) [OF fr(1) t(1,3) that])
  define s' where "s' = fill_item s ds6_neighbors (kidx s k)"
  have fs: "tables s' = tables s" "neighbor_addr_mem s' = neighbor_addr_mem s" "key_lladdr s' = key_lladdr s"
    by (simp_all add: s'_def fill_item_def)
  note rn = routes_ok_neighbors [OF ok fr(2) _ fr(4), folded s'_def]
  show "routes_ok (fill_item s ds6_neighbors (kidx s k)) ks rs"
    unfolding s'_def [symmetric] by (rule rn(1)) (simp_all add: it [folded s'_def] fs)
  show "map (route_entry (fill_item s ds6_neighbors (kidx s k))) rs = map (route_entry s) rs"
    unfolding s'_def [symmetric] by (rule rn(2)) (simp_all add: it [folded s'_def] fs)
qed

lemma new_neighbor_ok:
  assumes ok: "routes_ok sf ks rs" and sh: "shrunk s sf" and t: "table_ok s ds6_neighbors" and inv: "nbr_inv s ks"
    and al: "nbr_table_allocate cb s = Some (k, s1)" "k \<noteq> NULL" "evicted s1 ks1 k" "same_base s s1" "nbr_user s1 = nbr_user sf"
    and a: "a \<notin> key_lladdr s ` set ks" "set ks1 \<subseteq> set ks"
    and tab: "\<forall>x \<in> set ks1. in_table s1 nbr_routes x = in_table sf nbr_routes x" "\<not> in_table s1 nbr_routes k"
    and keep: "\<forall>x \<in> set ks. in_table sf nbr_routes x \<longrightarrow> x \<in> set ks1"
  shows "\<exists>item s'. nbr_table_add_lladdr cb s ds6_neighbors (Some a) = Some (item, s') \<and> item \<noteq> NULL \<and> routes_ok s' (ks1 @ [k]) rs \<and>
    map (route_entry s') rs = map (route_entry sf) rs \<and> tables s' = tables s \<and> all_tables s' = all_tables s \<and>
    key_lladdr s' = (key_lladdr s)(k := a) \<and> nbr_table_get_from_lladdr s' ds6_neighbors (Some a) = Some item"
proof -
  have un: "index_from_lladdr s (Some a) = Some (- 1)"
    using index_from_lladdr_eq [OF inv] a(1) by (simp add: key_of_None [symmetric])
  have a': "a \<notin> key_lladdr s ` set ks1" using a by blast
  obtain h s2 where s2: "s2 = s1\<lparr>nbr_heap := h, key_lladdr := (key_lladdr s)(k := a)\<rparr>" "nbr_inv s2 (ks1 @ [k])" "table_ok s2 ds6_neighbors"
    "nbr_table_add_lladdr cb s ds6_neighbors (Some a) = Some (item_at s2 ds6_neighbors (kidx s2 k), fill_item s2 ds6_neighbors (kidx s2 k))"
    using add_new_key_eq [OF al(3,4,2) a' t al(1) un] by blast
  have nk: "k \<notin> set ks1" using al(3) by (simp add: evicted_def)
  have b: "tables s2 = tables sf" "nbr_user s2 = nbr_user sf" "mmem (neighbor_addr_mem s2) = mmem (neighbor_addr_mem sf)"
    "msize (neighbor_addr_mem s2) = msize (neighbor_addr_mem sf)" "mnum (neighbor_addr_mem s2) = mnum (neighbor_addr_mem sf)"
    using al(4,5) sh by (simp_all add: s2(1) same_base_def shrunk_def)
  have kl: "key_lladdr sf = key_lladdr s" using sh by (simp add: shrunk_def)
  have it: "in_table s2 nbr_routes x = in_table s1 nbr_routes x" for x by (simp add: s2(1) in_table_def)
  have kp: "x \<in> set (ks1 @ [k]) \<and> in_table s2 nbr_routes x \<and> key_lladdr s2 x = key_lladdr sf x" if x: "x \<in> set ks" "in_table sf nbr_routes x" for x
  proof -
    have "x \<in> set ks1" using keep x by blast
    moreover from this nk have "x \<noteq> k" by blast
    ultimately show ?thesis using tab(1) x(2) it kl by (simp add: s2(1))
  qed
  have nw: "x \<in> set ks \<and> in_table sf nbr_routes x" if x: "x \<in> set (ks1 @ [k])" "in_table s2 nbr_routes x" for x
  proof -
    have "x \<noteq> k" using x(2) tab(2) it by blast
    then have "x \<in> set ks1" using x(1) by simp
    then show ?thesis using a(2) x(2) tab(1) it by blast
  qed
  have ok2: "routes_ok s2 (ks1 @ [k]) rs" "map (route_entry s2) rs = map (route_entry sf) rs"
    using routes_ok_neighbors [OF ok s2(2) b kp nw] by blast+
  have kin: "k \<in> set (ks1 @ [k])" by simp
  define s' where "s' = fill_item s2 ds6_neighbors (kidx s2 k)"
  note fn = fill_neighbor_ok [OF ok2(1) kin, folded s'_def]
  have e: "tables s' = tables s2" "key_lladdr s' = key_lladdr s2" "kidx s' x = kidx s2 x" "all_tables s' = all_tables s2" for x
    by (simp_all add: s'_def fill_item_def)
  have t': "nbr_inv s' (ks1 @ [k])" "table_ok s' ds6_neighbors" using fn(1) by (simp_all add: routes_ok_def tables_ok_def)
  have "item_at s2 ds6_neighbors (kidx s2 k) \<in> set (items s' ds6_neighbors (ks1 @ [k]))"
    using fill_rebound(3) [OF s2(2,3) kin, folded s'_def] by simp
  then have it': "in_table s' ds6_neighbors k" using item_in_table [OF t' kin] by (simp only: e)
  note kf = key_item_facts(3,4) [OF t' kin, unfolded if_P [OF it'] e]
  have "tables s2 = tables s" "all_tables s2 = all_tables s" "key_lladdr s2 = (key_lladdr s)(k := a)"
    using al(4) by (simp_all add: s2(1) same_base_def)
  then show ?thesis using s2(4) [folded s'_def] kf fn ok2(2) e(1,2,4) by (intro exI conjI; (assumption | simp))
qed

lemma hop_known:
  assumes "routes_ok s ks rs" "e \<in> set (map (route_entry s) rs)"
  shows "snd (snd e) \<in> key_lladdr s ` set ks"
  using assms(2) route_key [OF assms(1)] by (metis (no_types, lifting) imageE image_eqI list.set_map)

lemma known_neighbor_ok:
  assumes ok: "routes_ok s ks rs" and k: "k \<in> set ks"
  shows "\<exists>item s'. nbr_table_add_lladdr cb s ds6_neighbors (Some (key_lladdr s k)) = Some (item, s') \<and> item \<noteq> NULL \<and> routes_ok s' ks rs \<and>
    map (route_entry s') rs = map (route_entry s) rs \<and> tables s' = tables s \<and> all_tables s' = all_tables s \<and>
    key_lladdr s' = key_lladdr s \<and> nbr_table_get_from_lladdr s' ds6_neighbors (Some (key_lladdr s k)) = Some item"
proof -
  have t: "nbr_inv s ks" "table_ok s ds6_neighbors" using ok by (simp_all add: routes_ok_def tables_ok_def)
  define s' where "s' = fill_item s ds6_neighbors (kidx s k)"
  note fn = fill_neighbor_ok [OF ok k, folded s'_def]
  have e: "tables s' = tables s" "key_lladdr s' = key_lladdr s" "kidx s' x = kidx s x" "all_tables s' = all_tables s" for x
    by (simp_all add: s'_def fill_item_def)
  have t': "nbr_inv s' ks" "table_ok s' ds6_neighbors" using fn(1) by (simp_all add: routes_ok_def tables_ok_def)
  have "item_at s ds6_neighbors (kidx s k) \<in> set (items s' ds6_neighbors ks)"
    using fill_rebound(3) [OF t k, folded s'_def] by simp
  then have it': "in_table s' ds6_neighbors k" using item_in_table [OF t' k] by (simp only: e)
  note kf = key_item_facts(3,4) [OF t' k, unfolded if_P [OF it'] e]
  show ?thesis using add_known_key_eq [OF t k, of cb, folded s'_def] kf fn e(1,2,4) by (intro exI conjI; (assumption | simp))
qed

lemma evicted_unused:
  assumes "evicted s ks k"
  shows "\<not> in_table s t k"
proof -
  have wf: "memb_wf (neighbor_addr_mem s)" and "k \<in> memb_live (neighbor_addr_mem s)" using assms by (auto simp: evicted_def)
  then obtain i where i: "i < nbrs s" "k = kptr s i" using mb.live_blocks [of "neighbor_addr_mem s"] by (auto simp: memb_blocks_def)
  have "index_from_key s k = int i" unfolding i(2) by (rule index_of_kptr [OF wf i(1)])
  moreover have "used_map s ! i = 0" using assms i unfolding evicted_def by metis
  ultimately show ?thesis by (simp add: in_table_def)
qed

lemma full_neighbor_ok:
  assumes ok: "routes_ok s ks rs" and reg: "callbacks_registered s" and o: "others_ok other" and a: "a \<notin> key_lladdr s ` set ks"
    and k: "nbr_table_allocate (ds6_callback other) s = Some (v, s1)" "v \<noteq> NULL" "ks = as @ v # bs" "victim s as v bs"
      "evicted s1 (as @ bs) v" "same_base s s1"
      "nbr_user s1 = nbr_user (fold (notify (ds6_callback other) v) [0..<MAX_NUM_TABLES] s)"
      "used_map s1 = (used_map (fold (notify (ds6_callback other) v) [0..<MAX_NUM_TABLES] s))[kidx s v := 0]"
  shows "\<exists>item s' rs'. nbr_table_add_lladdr (ds6_callback other) s ds6_neighbors (Some a) = Some (item, s') \<and> item \<noteq> NULL \<and>
    routes_ok s' (as @ bs @ [v]) rs' \<and> tables s' = tables s \<and> all_tables s' = all_tables s \<and>
    nbr_table_get_from_lladdr s' ds6_neighbors (Some a) = Some item \<and>
    map (route_entry s') rs' = filter (\<lambda>e. snd (snd e) \<in> key_lladdr s' ` set (as @ bs @ [v])) (map (route_entry s) rs)"
proof -
  have vk: "v \<in> set ks" using k(3) by simp
  define sf where "sf = fold (notify (ds6_callback other) v) [0..<MAX_NUM_TABLES] s"
  note ev = evict_ok [OF ok reg vk o, folded sf_def]
  have t: "nbr_inv s ks" "table_ok s ds6_neighbors" using ok by (simp_all add: routes_ok_def tables_ok_def)
  have d: "distinct ks" using t(1) is_list_distinct [of "nbr_heap s" nbr_table_keys ks] by (simp add: nbr_inv_def)
  have vn: "v \<notin> set (as @ bs)" using d k(3) by auto
  have e: "tables sf = tables s" "kidx sf x = kidx s x" "tables s1 = tables s" "kidx s1 x = kidx s x" for x
    using ev(1) index_from_key_shrunk [OF ev(1)] k(6) by (simp_all add: shrunk_def same_base_def index_from_key_def)
  have sub: "set (as @ bs) \<subseteq> set ks" using k(3) by auto
  have it: "\<forall>x \<in> set (as @ bs). in_table s1 nbr_routes x = in_table sf nbr_routes x"
  proof
    fix x assume x: "x \<in> set (as @ bs)"
    have "x \<noteq> v" "x \<in> set ks" using x vn sub by blast+
    then have "kidx s x \<noteq> kidx s v"
      by (cases rule: live_index [OF t(1), of x]; cases rule: live_index [OF t(1) vk]) auto
    then show "in_table s1 nbr_routes x = in_table sf nbr_routes x" using e k(8) by (simp add: in_table_def sf_def)
  qed
  have keep: "\<forall>x \<in> set ks. in_table sf nbr_routes x \<longrightarrow> x \<in> set (as @ bs)" using ev(4) k(3) by auto
  obtain item s' where s': "nbr_table_add_lladdr (ds6_callback other) s ds6_neighbors (Some a) = Some (item, s')" "item \<noteq> NULL"
    "routes_ok s' ((as @ bs) @ [v]) (filter (\<lambda>r. neighbor_routes (nbr_user s) r \<noteq> item_at s nbr_routes (kidx s v)) rs)"
    "map (route_entry s') (filter (\<lambda>r. neighbor_routes (nbr_user s) r \<noteq> item_at s nbr_routes (kidx s v)) rs) =
      map (route_entry sf) (filter (\<lambda>r. neighbor_routes (nbr_user s) r \<noteq> item_at s nbr_routes (kidx s v)) rs)"
    "tables s' = tables s" "all_tables s' = all_tables s" "key_lladdr s' = (key_lladdr s)(v := a)"
    "nbr_table_get_from_lladdr s' ds6_neighbors (Some a) = Some item"
    using new_neighbor_ok [OF ev(3,1) t(2,1) k(1,2,5,6) k(7) [folded sf_def] a sub it evicted_unused [OF k(5)] keep]
    by (elim exE conjE) (rule that; assumption)
  have hop: "snd (snd e) \<noteq> key_lladdr s v \<longleftrightarrow> snd (snd e) \<in> key_lladdr s' ` set (as @ bs @ [v])"
    if e: "e \<in> set (map (route_entry s) rs)" for e
  proof -
    obtain x where x: "x \<in> set ks" "snd (snd e) = key_lladdr s x" using hop_known [OF ok e] by blast
    have inj: "inj_on (key_lladdr s) (set ks)" using t(1) by (simp add: nbr_inv_def)
    have "key_lladdr s' ` set (as @ bs @ [v]) = insert a (key_lladdr s ` set (as @ bs))" unfolding s'(7) using vn by auto
    moreover have "key_lladdr s x \<noteq> a" using a x(1) by blast
    moreover have "key_lladdr s x \<in> key_lladdr s ` set (as @ bs) \<longleftrightarrow> x \<in> set (as @ bs)" by (rule inj_on_image_mem_iff [OF inj x(1) sub])
    moreover have "key_lladdr s x = key_lladdr s v \<longleftrightarrow> x = v" by (rule inj_on_eq_iff [OF inj x(1) vk])
    moreover have "x \<in> set (as @ bs) \<longleftrightarrow> x \<noteq> v" using x(1) vn k(3) by auto
    ultimately show ?thesis using x(2) by simp
  qed
  have "map (route_entry s') (filter (\<lambda>r. neighbor_routes (nbr_user s) r \<noteq> item_at s nbr_routes (kidx s v)) rs) =
      filter (\<lambda>e. snd (snd e) \<noteq> key_lladdr s v) (map (route_entry s) rs)"
    unfolding s'(4) ev(2) by (rule filter_hops [OF ok vk])
  also have "\<dots> = filter (\<lambda>e. snd (snd e) \<in> key_lladdr s' ` set (as @ bs @ [v])) (map (route_entry s) rs)"
    by (rule filter_cong [OF refl hop])
  finally show ?thesis using s'(1-3,5,6,8) by (intro exI conjI; (assumption | simp))
qed

text \<open>Of the routes those through known neighbors are left.\<close>

definition routes_through :: "ds6_sys \<Rightarrow> ptr list \<Rightarrow> route_entry list \<Rightarrow> route_entry list" where
  "routes_through s ks = filter (\<lambda>e. snd (snd e) \<in> key_lladdr s ` set ks)"

lemma add_neighbor_ok:
  assumes ok: "routes_ok s ks rs" and reg: "callbacks_registered s" and o: "others_ok other"
  shows "(nbr_table_add_lladdr (ds6_callback other) s ds6_neighbors (Some a) = Some (NULL, s) \<and> unlocked s ks = [] \<and> length ks = nbrs s) \<or>
    (\<exists>item s' ks' rs'. nbr_table_add_lladdr (ds6_callback other) s ds6_neighbors (Some a) = Some (item, s') \<and> item \<noteq> NULL \<and>
       routes_ok s' ks' rs' \<and> add_order s ks a ks' \<and> tables s' = tables s \<and> all_tables s' = all_tables s \<and>
       nbr_table_get_from_lladdr s' ds6_neighbors (Some a) = Some item \<and>
       map (route_entry s') rs' = routes_through s' ks' (map (route_entry s) rs))"
proof -
  have t: "nbr_inv s ks" "table_ok s ds6_neighbors" "table_ok s nbr_routes" using ok by (simp_all add: routes_ok_def tables_ok_def)
  consider (known) k where "k \<in> set ks" "a = key_lladdr s k"
    | (room) "a \<notin> key_lladdr s ` set ks" "length ks < nbrs s"
    | (full) "a \<notin> key_lladdr s ` set ks" "\<not> length ks < nbrs s" by blast
  then show ?thesis
  proof cases
    case known
    obtain item s' where s': "nbr_table_add_lladdr (ds6_callback other) s ds6_neighbors (Some a) = Some (item, s')" "item \<noteq> NULL"
      "routes_ok s' ks rs" "map (route_entry s') rs = map (route_entry s) rs" "tables s' = tables s" "all_tables s' = all_tables s"
      "key_lladdr s' = key_lladdr s" "nbr_table_get_from_lladdr s' ds6_neighbors (Some a) = Some item"
      using known_neighbor_ok [OF ok known(1), of "ds6_callback other", folded known(2)] by blast
    have "routes_through s' ks (map (route_entry s) rs) = map (route_entry s) rs"
      unfolding routes_through_def s'(7) using hop_known [OF ok] by (intro filter_True) blast
    moreover have "add_order s ks a ks" using known by (simp add: add_order_def)
    ultimately show ?thesis using s' by (intro disjI2 exI conjI) (assumption | simp only:)+
  next
    case room
    obtain k s1 where k: "nbr_table_allocate (ds6_callback other) s = Some (k, s1)" "k \<noteq> NULL" "evicted s1 ks k" "same_base s s1"
      "used_map s1 = used_map s" "nbr_user s1 = nbr_user s"
      using allocate_room [OF t(1) room(2), of "ds6_callback other"] by blast
    have nk: "k \<notin> set ks" using k(3) by (simp add: evicted_def)
    have it: "\<forall>x \<in> set ks. in_table s1 nbr_routes x = in_table s nbr_routes x"
      using k(4,5) by (simp add: in_table_def same_base_def index_from_key_def)
    have keep: "\<forall>x \<in> set ks. in_table s nbr_routes x \<longrightarrow> x \<in> set ks" by blast
    obtain item s' where s': "nbr_table_add_lladdr (ds6_callback other) s ds6_neighbors (Some a) = Some (item, s')" "item \<noteq> NULL"
      "routes_ok s' (ks @ [k]) rs" "map (route_entry s') rs = map (route_entry s) rs" "tables s' = tables s" "all_tables s' = all_tables s"
      "key_lladdr s' = (key_lladdr s)(k := a)" "nbr_table_get_from_lladdr s' ds6_neighbors (Some a) = Some item"
      using new_neighbor_ok [OF ok shrunk_refl t(2,1) k(1-4,6) room(1) subset_refl it evicted_unused [OF k(3)] keep] by blast
    have "key_lladdr s ` set ks \<subseteq> key_lladdr s' ` set (ks @ [k])"
      unfolding s'(7) using nk by auto
    then have "routes_through s' (ks @ [k]) (map (route_entry s) rs) = map (route_entry s) rs"
      unfolding routes_through_def using hop_known [OF ok] by (intro filter_True) blast
    moreover have "add_order s ks a (ks @ [k])" using room nk by (simp add: add_order_def)
    ultimately show ?thesis using s' by (intro disjI2 exI conjI) (assumption | simp only:)+
  next
    case full
    have len: "length ks = nbrs s" using full(2) length_keys [OF t(1)] by linarith
    from allocate_full [OF t(1) full(2) ds6_callbacks_ok [OF o]] show ?thesis unfolding Let_def
    proof (elim disjE exE conjE)
      assume "unlocked s ks = []" "nbr_table_allocate (ds6_callback other) s = Some (NULL, s)"
      then show ?thesis using add_no_key [OF t(1) full(1)] len by simp
    next
      fix v s1 as bs
      assume k: "nbr_table_allocate (ds6_callback other) s = Some (v, s1)" "v \<noteq> NULL" "ks = as @ v # bs" "victim s as v bs"
        "evicted s1 (as @ bs) v" "same_base s s1"
        "nbr_user s1 = nbr_user (fold (notify (ds6_callback other) v) [0..<MAX_NUM_TABLES] s)"
        "used_map s1 = (used_map (fold (notify (ds6_callback other) v) [0..<MAX_NUM_TABLES] s))[kidx s v := 0]"
      obtain item s' rs' where s': "nbr_table_add_lladdr (ds6_callback other) s ds6_neighbors (Some a) = Some (item, s')" "item \<noteq> NULL"
        "routes_ok s' (as @ bs @ [v]) rs'" "tables s' = tables s" "all_tables s' = all_tables s"
        "nbr_table_get_from_lladdr s' ds6_neighbors (Some a) = Some item"
        "map (route_entry s') rs' = routes_through s' (as @ bs @ [v]) (map (route_entry s) rs)"
        using full_neighbor_ok [OF ok reg o full(1) k] unfolding routes_through_def by blast
      have "add_order s ks a (as @ bs @ [v])" using full k(3,4) by (auto simp: add_order_def)
      then show ?thesis using s' by (intro disjI2 exI conjI; (assumption | simp))
    qed
  qed
qed

end
