(* ===== verification/Ds6Routers.thy ===== *)
theory Ds6Routers
  imports Ds6Evict
begin

text \<open>
  The default routers of \<open>core/net/ipv6/uip-ds6-route.c\<close> as a table of addresses and lifetimes: lookup,
  addition with replacement or refusal, removal, and the removal of those whose lifetime is over.
\<close>

section \<open>Default routers\<close>

type_synonym router_entry = "ip6addr \<times> stimer option"

definition router_entry :: "ds6 \<Rightarrow> ptr \<Rightarrow> router_entry" where
  "router_entry d p = (defrt_ipaddr d p, if defrt_isinfinite d p then None else Some (defrt_lifetime d p))"

lemma routers_facts:
  assumes "routers_rep d ds"
  shows "lchain (lnext (defrt_heap d)) (list_head (defrt_heap d) defaultrouterlist) ds" "distinct ds" "NULL \<notin> set ds"
    "length ds \<le> unat (mnum (defaultroutermemb d))"
proof -
  have l: "is_list (defrt_heap d) defaultrouterlist ds" and w: "memb_wf (defaultroutermemb d)" and v: "memb_live (defaultroutermemb d) = set ds"
    using assms by (simp_all add: routers_rep_def)
  show "lchain (lnext (defrt_heap d)) (list_head (defrt_heap d) defaultrouterlist) ds" using l by (simp add: is_list_def list_head_def)
  show d: "distinct ds" and "NULL \<notin> set ds" using is_list_distinct [OF l] is_list_not_null [OF l] by auto
  have "length ds = card (memb_live (defaultroutermemb d))" using d v by (simp add: distinct_card)
  also have "\<dots> \<le> card (memb_blocks (defaultroutermemb d))" by (rule card_mono [OF mb.finite_blocks mb.live_blocks])
  also have "\<dots> = unat (mnum (defaultroutermemb d))"
    unfolding memb_blocks_def using block_ptr_inj [OF w] by (subst card_image) (auto intro!: inj_onI)
  finally show "length ds \<le> unat (mnum (defaultroutermemb d))" .
qed

lemma defrt_lookup_chain:
  "lchain (lnext (defrt_heap d)) p ds \<Longrightarrow>
     defrt_lookup_loop d a p = Some (case find (\<lambda>p. defrt_ipaddr d p = a) ds of None \<Rightarrow> NULL | Some p \<Rightarrow> p)"
  by (induction ds arbitrary: p) (subst defrt_lookup_loop.simps; auto simp: list_item_next_def)+

lemma defrt_lookup_eq:
  "routers_rep d ds \<Longrightarrow> uip_ds6_defrt_lookup a d = Some (case find (\<lambda>p. defrt_ipaddr d p = a) ds of None \<Rightarrow> NULL | Some p \<Rightarrow> p)"
  using defrt_lookup_chain [OF routers_facts(1)] by (simp add: uip_ds6_defrt_lookup_def)

text \<open>What the operations on default routers leave alone.\<close>

definition router_step :: "ds6 \<Rightarrow> ds6 \<Rightarrow> bool" where
  "router_step d d' \<longleftrightarrow> same_route_data d d' \<and>
     nbr_ipaddr d' = nbr_ipaddr d \<and> nbr_reachable d' = nbr_reachable d \<and> nbr_sendns d' = nbr_sendns d \<and>
     nbr_nscount d' = nbr_nscount d \<and> nbr_isrouter d' = nbr_isrouter d \<and> nbr_state d' = nbr_state d \<and> nbr_packet d' = nbr_packet d \<and>
     packets_memb d' = packets_memb d \<and> lifetimer d' = lifetimer d \<and> notif_heap d' = notif_heap d \<and>
     retrans_timer d' = retrans_timer d \<and> ds6_uip_len d' = ds6_uip_len d \<and> mnum (defaultroutermemb d') = mnum (defaultroutermemb d)"

lemma router_step_refl [simp]: "router_step d d"
  by (simp add: router_step_def same_route_data_def)

lemma router_step_trans: "router_step d d1 \<Longrightarrow> router_step d1 d2 \<Longrightarrow> router_step d d2"
  unfolding router_step_def same_route_data_def by metis

lemma remove1_filter: "distinct xs \<Longrightarrow> remove1 x xs = filter (\<lambda>y. y \<noteq> x) xs"
  by (induction xs) (auto intro: filter_True [symmetric])

lemma defrt_rm_chain:
  assumes "lchain (lnext (defrt_heap d)) q qs" "p \<in> set qs"
  shows "defrt_rm_loop p q d = do {
     h \<leftarrow> list_remove (defrt_heap d) defaultrouterlist p;
     call_route_callback DEFRT_RM (defrt_ipaddr d p) (Some (defrt_ipaddr d p))
       (d\<lparr>defrt_heap := h, defaultroutermemb := snd (memb_free (defaultroutermemb d) p)\<rparr>)
   }"
  using assms by (induction qs arbitrary: q) (simp, subst defrt_rm_loop.simps, auto simp: list_item_next_def)

lemma defrt_rm_ok:
  assumes rep: "routers_rep d ds" and lists: "lists_ok d" and p: "p \<in> set ds"
  shows "\<exists>d'. uip_ds6_defrt_rm p d = Some d' \<and> routers_rep d' (remove1 p ds) \<and> router_step d d' \<and> router_entry d' = router_entry d"
proof -
  have l: "is_list (defrt_heap d) defaultrouterlist ds" and w: "memb_wf (defaultroutermemb d)" and v: "memb_live (defaultroutermemb d) = set ds"
    and inj: "inj_on (defrt_ipaddr d) (set ds)" using rep by (simp_all add: routers_rep_def)
  obtain h where h: "list_remove (defrt_heap d) defaultrouterlist p = Some h" "is_list h defaultrouterlist (remove1 p ds)"
    using list_remove_is_list [OF l, of p] by blast
  let ?d = "d\<lparr>defrt_heap := h, defaultroutermemb := snd (memb_free (defaultroutermemb d) p)\<rparr>"
  note mf = memb_free_base [OF w, of p]
  have "set (remove1 p ds) = set ds - {p}" using routers_facts(2) [OF rep] by simp
  then have r: "routers_rep ?d (remove1 p ds)"
    using h(2) mf v inj_on_subset [OF inj, of "set ds - {p}"] by (auto simp: routers_rep_def)
  then have "lists_ok ?d" using lists by (auto simp: lists_ok_def)
  then obtain tr where tr: "call_route_callback DEFRT_RM (defrt_ipaddr d p) (Some (defrt_ipaddr d p)) ?d = Some (?d\<lparr>ds6_trace := tr\<rparr>)"
    using call_route_callback_ok by blast
  have "uip_ds6_defrt_rm p d = Some (?d\<lparr>ds6_trace := tr\<rparr>)"
    unfolding uip_ds6_defrt_rm_def defrt_rm_chain [OF routers_facts(1) [OF rep] p] h(1) using tr by simp
  moreover have "routers_rep (?d\<lparr>ds6_trace := tr\<rparr>) (remove1 p ds)" using r by (simp add: routers_rep_def)
  moreover have "router_step d (?d\<lparr>ds6_trace := tr\<rparr>)" using \<open>lists_ok ?d\<close> mf(1)
    by (simp add: router_step_def same_route_data_def lists_ok_def routers_rep_def)
  moreover have "router_entry (?d\<lparr>ds6_trace := tr\<rparr>) = router_entry d" by (simp add: router_entry_def fun_eq_iff)
  ultimately show ?thesis by blast
qed

text \<open>The router of an address.\<close>

lemma find_router:
  assumes "inj_on (defrt_ipaddr d) (set ds)"
  shows "find (\<lambda>p. defrt_ipaddr d p = a) ds = Some p \<longleftrightarrow> p \<in> set ds \<and> defrt_ipaddr d p = a"
proof
  assume "find (\<lambda>p. defrt_ipaddr d p = a) ds = Some p"
  then show "p \<in> set ds \<and> defrt_ipaddr d p = a" unfolding find_Some_iff by auto
next
  assume p: "p \<in> set ds \<and> defrt_ipaddr d p = a"
  then have "find (\<lambda>p. defrt_ipaddr d p = a) ds \<noteq> None" unfolding find_None_iff by blast
  then obtain q where q: "find (\<lambda>p. defrt_ipaddr d p = a) ds = Some q" by blast
  then have "q \<in> set ds \<and> defrt_ipaddr d q = a" unfolding find_Some_iff by auto
  then have "q = p" using p inj_onD [OF assms, of q p] by simp
  then show "find (\<lambda>p. defrt_ipaddr d p = a) ds = Some p" using q by simp
qed

lemma remove_router:
  assumes "inj_on (defrt_ipaddr d) (set ds)" "distinct ds" "p \<in> set ds"
  shows "map (router_entry d) (remove1 p ds) = filter (\<lambda>e. fst e \<noteq> defrt_ipaddr d p) (map (router_entry d) ds)"
proof -
  have "filter (\<lambda>x. x \<noteq> p) ds = filter (\<lambda>x. fst (router_entry d x) \<noteq> defrt_ipaddr d p) ds"
    using inj_onD [OF assms(1)] assms(3) by (intro filter_cong refl) (auto simp: router_entry_def)
  then show ?thesis by (simp add: remove1_filter [OF assms(2)] filter_map o_def)
qed

text \<open>Adding a router: an address that is there gets the new lifetime, a new one comes first while there is room.\<close>

definition router_lifetime :: "u32 \<Rightarrow> u32 \<Rightarrow> stimer option" where
  "router_lifetime now interval = (if interval \<noteq> 0 then Some \<lparr>s_start = now, s_interval = interval\<rparr> else None)"

definition defrt_add_spec :: "nat \<Rightarrow> ip6addr \<Rightarrow> stimer option \<Rightarrow> router_entry list \<Rightarrow> router_entry list" where
  "defrt_add_spec n a l D =
     (if a \<in> fst ` set D then map (\<lambda>e. if fst e = a then (a, l) else e) D
      else if length D < n then (a, l) # D else D)"

definition set_router :: "u32 \<Rightarrow> ip6addr \<Rightarrow> u32 \<Rightarrow> ptr \<Rightarrow> ds6 \<Rightarrow> ds6" where
  "set_router now ipaddr interval p d =
     (let d = d\<lparr>defrt_ipaddr := (defrt_ipaddr d)(p := ipaddr)\<rparr>
      in if interval \<noteq> 0
         then d\<lparr>defrt_lifetime := (defrt_lifetime d)(p := stimer_set now interval (defrt_lifetime d p)),
                defrt_isinfinite := (defrt_isinfinite d)(p := False)\<rparr>
         else d\<lparr>defrt_isinfinite := (defrt_isinfinite d)(p := True)\<rparr>)"

lemma set_router_entry:
  "router_entry (set_router now a interval p d) x =
     (if x = p then (a, router_lifetime now interval) else router_entry d x)"
  by (simp add: set_router_def router_entry_def stimer_set_def router_lifetime_def)

lemma set_router_step:
  assumes "\<exists>ns. is_list (notif_heap d) notificationlist ns" "\<exists>ds. routers_rep (set_router now a interval p d) ds"
  shows "router_step d (set_router now a interval p d)"
  using assms by (simp add: router_step_def same_route_data_def lists_ok_def) (simp add: set_router_def Let_def)

lemma set_router_rep:
  assumes "is_list (defrt_heap d) defaultrouterlist ds" "memb_wf (defaultroutermemb d)" "memb_live (defaultroutermemb d) = set ds"
    and "inj_on (defrt_ipaddr d) (set ds - {p})" "\<forall>q \<in> set ds - {p}. defrt_ipaddr d q \<noteq> a"
  shows "routers_rep (set_router now a interval p d) ds"
proof -
  have "defrt_ipaddr (set_router now a interval p d) = (defrt_ipaddr d)(p := a)" by (simp add: set_router_def Let_def)
  moreover have "inj_on ((defrt_ipaddr d)(p := a)) (set ds)"
    using assms(4,5) by (auto simp: inj_on_def)
  ultimately show ?thesis using assms(1-3) by (simp add: routers_rep_def) (simp add: set_router_def Let_def)
qed

lemma defrt_add_eq:
  "uip_ds6_defrt_add now a interval d = do {
     p \<leftarrow> uip_ds6_defrt_lookup a d;
     (p, d) \<leftarrow>
       (if p = NULL then
          (case memb_alloc (defaultroutermemb d) of (p, m) \<Rightarrow>
             if p = NULL then Some (NULL, d)
             else do {
               h \<leftarrow> list_push (defrt_heap d) defaultrouterlist p;
               Some (p, d\<lparr>defaultroutermemb := m, defrt_heap := h\<rparr>)
             })
        else Some (p, d));
     if p = NULL then Some (NULL, d)
     else do {
       d \<leftarrow> call_route_callback DEFRT_ADD a (Some a) (set_router now a interval p d);
       Some (p, d)
     }
   }"
  unfolding uip_ds6_defrt_add_def set_router_def Let_def ..

text \<open>What follows when the entry \<open>p\<close> is there: the callbacks.\<close>

lemma defrt_enter_ok:
  assumes r: "routers_rep d1 ds" and st: "router_step d d1" and lists: "lists_ok d"
  shows "\<exists>d'. call_route_callback DEFRT_ADD a (Some a) d1 = Some d' \<and> routers_rep d' ds \<and> router_step d d' \<and> router_entry d' = router_entry d1"
proof -
  have ok: "lists_ok d1" using st lists by (simp add: router_step_def same_route_data_def)
  then obtain tr where tr: "call_route_callback DEFRT_ADD a (Some a) d1 = Some (d1\<lparr>ds6_trace := tr\<rparr>)" using call_route_callback_ok by blast
  have "router_step d (d1\<lparr>ds6_trace := tr\<rparr>)" using st ok
    by (simp add: router_step_def same_route_data_def lists_ok_def routers_rep_def)
  moreover have "routers_rep (d1\<lparr>ds6_trace := tr\<rparr>) ds" using r by (simp add: routers_rep_def)
  moreover have "router_entry (d1\<lparr>ds6_trace := tr\<rparr>) = router_entry d1" by (simp add: router_entry_def fun_eq_iff)
  ultimately show ?thesis using tr by blast
qed

lemma pool_exhausted:
  assumes "memb_wf m" "card (memb_live m) = unat (mnum m)"
  shows "memb_live m = memb_blocks m"
proof -
  have "card (memb_blocks m) = unat (mnum m)"
    unfolding memb_blocks_def using block_ptr_inj [OF assms(1)] by (subst card_image) (auto intro!: inj_onI)
  then show ?thesis using assms(2) by (intro card_subset_eq mb.finite_blocks mb.live_blocks) simp
qed

lemma router_ips:
  "fst ` set (map (router_entry d) ds) = defrt_ipaddr d ` set ds"
  by (force simp: router_entry_def)

lemma defrt_add_ok:
  assumes rep: "routers_rep d ds" and lists: "lists_ok d"
  shows "\<exists>p d' ds'. uip_ds6_defrt_add now a interval d = Some (p, d') \<and> routers_rep d' ds' \<and> router_step d d' \<and>
    (p = NULL \<longleftrightarrow> a \<notin> fst ` set (map (router_entry d) ds) \<and> \<not> length ds < unat (mnum (defaultroutermemb d))) \<and>
    map (router_entry d') ds' = defrt_add_spec (unat (mnum (defaultroutermemb d))) a (router_lifetime now interval) (map (router_entry d) ds)"
proof -
  have l: "is_list (defrt_heap d) defaultrouterlist ds" and w: "memb_wf (defaultroutermemb d)" and v: "memb_live (defaultroutermemb d) = set ds"
    and inj: "inj_on (defrt_ipaddr d) (set ds)" using rep by (simp_all add: routers_rep_def)
  note F = routers_facts [OF rep]
  note lk = defrt_lookup_eq [OF rep, of a]
  consider (known) p where "p \<in> set ds" "defrt_ipaddr d p = a"
    | (room) "a \<notin> defrt_ipaddr d ` set ds" "length ds < unat (mnum (defaultroutermemb d))"
    | (full) "a \<notin> defrt_ipaddr d ` set ds" "\<not> length ds < unat (mnum (defaultroutermemb d))" by blast
  then show ?thesis
  proof cases
    case known
    have same: "x = p" if "x \<in> set ds" "defrt_ipaddr d x = a" for x using inj_onD [OF inj _ that(1) known(1)] that(2) known(2) by simp
    have r: "routers_rep (set_router now a interval p d) ds"
      by (rule set_router_rep [OF l w v inj_on_subset [OF inj Diff_subset]]) (use same in blast)
    have "\<exists>ns. is_list (notif_heap d) notificationlist ns" using lists by (simp add: lists_ok_def)
    then have "router_step d (set_router now a interval p d)" by (rule set_router_step) (use r in blast)
    from defrt_enter_ok [OF r this lists, of a]
    obtain d' where d': "call_route_callback DEFRT_ADD a (Some a) (set_router now a interval p d) = Some d'" "routers_rep d' ds"
      "router_step d d'" "router_entry d' = router_entry (set_router now a interval p d)" by blast
    have fp: "find (\<lambda>p. defrt_ipaddr d p = a) ds = Some p" using find_router [OF inj] known by simp
    have p0: "p \<noteq> NULL" using known(1) F(3) by metis
    have "uip_ds6_defrt_add now a interval d = Some (p, d')" using lk fp p0 d'(1) by (simp add: defrt_add_eq)
    moreover have "fst (router_entry d x) = a \<longleftrightarrow> x = p" if "x \<in> set ds" for x
      using same [OF that] known(2) by (auto simp: router_entry_def)
    then have "map (router_entry d') ds = map (\<lambda>e. if fst e = a then (a, router_lifetime now interval) else e) (map (router_entry d) ds)"
      unfolding d'(4) map_map o_def by (intro map_cong refl) (simp add: set_router_entry)
    moreover have "a \<in> fst ` set (map (router_entry d) ds)" unfolding router_ips using known by blast
    ultimately show ?thesis using d'(2,3) p0 by (intro exI [of _ p] exI [of _ d'] exI [of _ ds]) (simp only: defrt_add_spec_def if_True simp_thms)
  next
    case room
    have "card (memb_live (defaultroutermemb d)) < unat (mnum (defaultroutermemb d))" using room(2) v F(2) by (simp add: distinct_card)
    then obtain p m where p: "memb_alloc (defaultroutermemb d) = (p, m)" "p \<noteq> NULL" "p \<notin> set ds" "memb_live m = insert p (set ds)"
      "memb_wf m" "mnum m = mnum (defaultroutermemb d)" using alloc_fresh [OF w] v by metis
    obtain h where h: "list_push (defrt_heap d) defaultrouterlist p = Some h" "is_list h defaultrouterlist (p # ds)"
      using list_push_is_list [OF l p(2)] p(3) by (auto simp: remove1_idem)
    define d1 where "d1 = d\<lparr>defaultroutermemb := m, defrt_heap := h\<rparr>"
    have s: "defrt_heap d1 = h" "defaultroutermemb d1 = m" "defrt_ipaddr d1 = defrt_ipaddr d" "router_entry d1 = router_entry d"
      by (simp_all add: d1_def router_entry_def fun_eq_iff)
    have r: "routers_rep (set_router now a interval p d1) (p # ds)"
    proof (rule set_router_rep)
      show "inj_on (defrt_ipaddr d1) (set (p # ds) - {p})" unfolding s(3) by (rule inj_on_subset [OF inj]) auto
      show "\<forall>q \<in> set (p # ds) - {p}. defrt_ipaddr d1 q \<noteq> a" using room(1) s(3) by auto
    qed (use h(2) p s in simp_all)
    have rs: "router_step d (set_router now a interval p d1)"
      using r lists p(6) by (auto simp: router_step_def same_route_data_def lists_ok_def) (auto simp: set_router_def Let_def d1_def)
    obtain d' where d': "call_route_callback DEFRT_ADD a (Some a) (set_router now a interval p d1) = Some d'" "routers_rep d' (p # ds)"
      "router_step d d'" "router_entry d' = router_entry (set_router now a interval p d1)"
      using defrt_enter_ok [OF r rs lists] by blast
    have fp: "find (\<lambda>p. defrt_ipaddr d p = a) ds = None" using room(1) by (auto simp: find_None_iff)
    have "uip_ds6_defrt_add now a interval d = Some (p, d')" using lk fp p(1,2) h(1) d'(1) by (simp add: defrt_add_eq d1_def)
    moreover have "map (router_entry d') (p # ds) = (a, router_lifetime now interval) # map (router_entry d) ds"
      unfolding d'(4) using p(3) s(4) by (auto simp: set_router_entry)
    moreover have "a \<notin> fst ` set (map (router_entry d) ds)" unfolding router_ips using room(1) .
    ultimately show ?thesis using d'(2,3) p(2) room(2)
      by (intro exI [of _ p] exI [of _ d'] exI [of _ "p # ds"]) (simp add: defrt_add_spec_def del: list.map)
  next
    case full
    have "length ds = unat (mnum (defaultroutermemb d))" using F(4) full(2) by linarith
    then have "memb_live (defaultroutermemb d) = memb_blocks (defaultroutermemb d)"
      using pool_exhausted [OF w] v F(2) by (simp add: distinct_card)
    then have "memb_alloc (defaultroutermemb d) = (NULL, defaultroutermemb d)" by (rule mb.alloc_full [OF w])
    moreover have "find (\<lambda>p. defrt_ipaddr d p = a) ds = None" using full(1) by (auto simp: find_None_iff)
    ultimately have "uip_ds6_defrt_add now a interval d = Some (NULL, d)" using lk by (simp add: defrt_add_eq)
    moreover have "a \<notin> fst ` set (map (router_entry d) ds)" unfolding router_ips using full(1) .
    ultimately show ?thesis using rep full(2) by (intro exI [of _ NULL] exI [of _ d] exI [of _ ds]) (simp add: defrt_add_spec_def)
  qed
qed

text \<open>Routers whose lifetime is over are removed.\<close>

definition router_expired :: "u32 \<Rightarrow> router_entry \<Rightarrow> bool" where
  "router_expired now e = (case snd e of None \<Rightarrow> False | Some t \<Rightarrow> stimer_expired now t)"

lemma router_expired_entry:
  "router_expired now (router_entry d p) \<longleftrightarrow> \<not> defrt_isinfinite d p \<and> stimer_expired now (defrt_lifetime d p)"
  by (simp add: router_expired_def router_entry_def)

lemma router_first:
  assumes "routers_rep d (as @ p # bs)"
  shows "list_item_next (defrt_heap d) p = first bs" "p \<noteq> NULL"
  using assms by (cases bs; auto simp: routers_rep_def is_list_def lseg_append list_item_next_def)+

lemma defrt_periodic_chain:
  assumes "routers_rep d (as @ bs)" "lists_ok d" "\<forall>p \<in> set as. \<not> router_expired now (router_entry d p)"
  shows "\<exists>d'. defrt_periodic_loop now (first bs) d = Some d' \<and>
    routers_rep d' (filter (\<lambda>p. \<not> router_expired now (router_entry d p)) (as @ bs)) \<and> router_step d d' \<and> router_entry d' = router_entry d"
  using assms
proof (induction "length (as @ bs)" arbitrary: as bs d rule: less_induct)
  case less
  note outer = less.hyps
  show ?case using less.prems outer
  proof (induction bs arbitrary: as)
    case Nil
    then have "filter (\<lambda>p. \<not> router_expired now (router_entry d p)) as = as" by (intro filter_True) simp
    then show ?case using Nil.prems(1) by (subst defrt_periodic_loop.simps) (auto intro!: exI [of _ d])
  next
    case (Cons p bs)
    note nx = router_first [OF Cons.prems(1)]
    show ?case
    proof (cases "router_expired now (router_entry d p)")
      case False
      have "defrt_periodic_loop now (first (p # bs)) d = defrt_periodic_loop now (first bs) d"
        using False nx by (subst defrt_periodic_loop.simps) (auto simp: router_expired_entry)
      moreover have "\<exists>d'. defrt_periodic_loop now (first bs) d = Some d' \<and>
          routers_rep d' (filter (\<lambda>p. \<not> router_expired now (router_entry d p)) ((as @ [p]) @ bs)) \<and> router_step d d' \<and> router_entry d' = router_entry d"
        by (rule Cons.IH) (use Cons.prems False in auto)
      ultimately show ?thesis by simp
    next
      case True
      obtain d1 where d1: "uip_ds6_defrt_rm p d = Some d1" "routers_rep d1 (remove1 p (as @ p # bs))" "router_step d d1"
        "router_entry d1 = router_entry d" using defrt_rm_ok [OF Cons.prems(1,2), of p] by auto
      have rm: "remove1 p (as @ p # bs) = as @ bs" using routers_facts(2) [OF Cons.prems(1)] by (simp add: remove1_append)
      have l1: "lists_ok d1" using d1(3) Cons.prems(2) by (simp add: router_step_def same_route_data_def)
      have hd: "list_head (defrt_heap d1) defaultrouterlist = first (as @ bs)"
        using routers_facts(1) [OF d1(2)] unfolding rm by (cases "as @ bs") auto
      obtain d' where d': "defrt_periodic_loop now (first (as @ bs)) d1 = Some d'"
        "routers_rep d' (filter (\<lambda>p. \<not> router_expired now (router_entry d1 p)) ([] @ (as @ bs)))" "router_step d1 d'" "router_entry d' = router_entry d1"
        using Cons.prems(4) [of "[]" "as @ bs" d1] d1(2) l1 unfolding rm by auto
      have "defrt_periodic_loop now (first (p # bs)) d = Some d'"
        using True nx d1(1) hd d'(1) by (subst defrt_periodic_loop.simps) (auto simp: router_expired_entry)
      then show ?thesis using d' d1(3,4) True router_step_trans by (intro exI [of _ d']) auto
    qed
  qed
qed

lemma defrt_periodic_ok:
  assumes "routers_rep d ds" "lists_ok d"
  shows "\<exists>d'. uip_ds6_defrt_periodic now d = Some d' \<and> routers_rep d' (filter (\<lambda>p. \<not> router_expired now (router_entry d p)) ds) \<and>
    router_step d d' \<and> router_entry d' = router_entry d"
proof -
  have "list_head (defrt_heap d) defaultrouterlist = first ds" using routers_facts(1) [OF assms(1)] by (cases ds) auto
  then show ?thesis using defrt_periodic_chain [of d "[]" ds now] assms by (simp add: uip_ds6_defrt_periodic_def)
qed

text \<open>The default routers, as a client sees them that goes through the list.\<close>

fun nth_router :: "ds6 \<Rightarrow> nat \<Rightarrow> ptr" where
  "nth_router d 0 = list_head (defrt_heap d) defaultrouterlist"
| "nth_router d (Suc n) = list_item_next (defrt_heap d) (nth_router d n)"

definition router_table :: "ds6 \<Rightarrow> router_entry list" where
  "router_table d = (case list_length (defrt_heap d) defaultrouterlist of None \<Rightarrow> []
     | Some c \<Rightarrow> map (\<lambda>n. router_entry d (nth_router d n)) [0..<unat c])"

lemma nth_router_eq:
  assumes "routers_rep d ds" "n < length ds"
  shows "nth_router d n = ds ! n"
  using assms(2)
proof (induction n)
  case 0
  then show ?case using routers_facts(1) [OF assms(1)] by (cases ds) auto
next
  case (Suc n)
  have ds: "ds = take n ds @ ds ! n # drop (Suc n) ds" using Suc.prems by (intro id_take_nth_drop) simp
  have "list_item_next (defrt_heap d) (ds ! n) = first (drop (Suc n) ds)"
    by (rule router_first(1) [of _ "take n ds"]) (use assms(1) ds in simp)
  also have "\<dots> = ds ! Suc n" using Suc.prems by (simp add: Cons_nth_drop_Suc [symmetric])
  finally show ?case using Suc by simp
qed

lemma router_table_eq:
  assumes "routers_rep d ds"
  shows "router_table d = map (router_entry d) ds"
proof -
  have "list_length (defrt_heap d) defaultrouterlist = Some (of_nat (length ds))"
    using assms list_length_is_list by (simp add: routers_rep_def)
  moreover have "unat (of_nat (length ds) :: u16) = length ds"
    using routers_facts(4) [OF assms] unat_less_u16 [of "mnum (defaultroutermemb d)"] by (simp add: unat_of_nat)
  moreover have "map (\<lambda>n. router_entry d (nth_router d n)) [0..<length ds] = map (\<lambda>n. router_entry d (ds ! n)) [0..<length ds]"
    using nth_router_eq [OF assms] by (intro map_cong refl) simp
  moreover have "map (\<lambda>n. router_entry d (ds ! n)) [0..<length ds] = map (router_entry d) (map ((!) ds) [0..<length ds])" by (simp add: o_def)
  ultimately show ?thesis by (simp add: router_table_def map_nth del: map_map)
qed

end
