(* ===== verification/Ds6Nud.thy ===== *)
theory Ds6Nud
  imports Ds6Routers
begin

text \<open>
  The neighbor cache of \<open>core/net/ipv6/uip-ds6-nbr.c\<close> as a list of entries, and neighbor unreachability
  detection on it: the periodic check visits every neighbor once, also when it removes neighbors and
  default routers on its way.
\<close>


section \<open>Neighbors\<close>

record nbr_view =
  v_lladdr :: linkaddr
  v_ipaddr :: ip6addr
  v_isrouter :: u8
  v_state :: u8
  v_nscount :: u8
  v_reachable :: stimer
  v_sendns :: stimer

definition nbr_entry :: "ds6_sys \<Rightarrow> ptr \<Rightarrow> nbr_view" where
  "nbr_entry s n = (let d = nbr_user s in \<lparr>v_lladdr = key_lladdr s (key_from_item s ds6_neighbors n), v_ipaddr = nbr_ipaddr d n,
     v_isrouter = nbr_isrouter d n, v_state = nbr_state d n, v_nscount = nbr_nscount d n,
     v_reachable = nbr_reachable d n, v_sendns = nbr_sendns d n\<rparr>)"

text \<open>The neighbor cache, as a client sees it that goes through the table.\<close>

fun nth_nbr :: "ds6_sys \<Rightarrow> nat \<Rightarrow> ptr option" where
  "nth_nbr s 0 = nbr_table_head s ds6_neighbors"
| "nth_nbr s (Suc n) = do { nbr \<leftarrow> nth_nbr s n; nbr_table_next s ds6_neighbors nbr }"

definition neighbor_cache :: "ds6_sys \<Rightarrow> nbr_view list" where
  "neighbor_cache s = (case uip_ds6_nbr_num s of None \<Rightarrow> []
     | Some c \<Rightarrow> map (\<lambda>n. nbr_entry s (case nth_nbr s n of None \<Rightarrow> NULL | Some nbr \<Rightarrow> nbr)) [0..<unat c])"

text \<open>One neighbor in the periodic check, on entries; the default routers and \<open>uip_len\<close> may change.\<close>

definition nud_entry :: "(ip6addr option \<Rightarrow> ip6addr \<Rightarrow> u16) \<Rightarrow> u32 \<Rightarrow> u32 \<Rightarrow> nbr_view \<Rightarrow> router_entry list \<Rightarrow> u16 \<Rightarrow>
    nbr_view option \<times> router_entry list \<times> u16" where
  "nud_entry ns_len now retrans e D len =
     (let solicit = (\<lambda>dest. (Some (e\<lparr>v_nscount := v_nscount e + 1, v_sendns := stimer_set now (retrans div 1000) (v_sendns e)\<rparr>),
            D, ns_len dest (v_ipaddr e)))
      in if v_state e = NBR_REACHABLE then
           (Some (if \<not> stimer_expired now (v_reachable e) then e
             else if v_ipaddr e \<in> fst ` set D
             then e\<lparr>v_state := NBR_DELAY, v_reachable := stimer_set now 5 (v_reachable e), v_nscount := 0\<rparr>
             else e\<lparr>v_state := NBR_STALE\<rparr>), D, len)
         else if v_state e = NBR_INCOMPLETE then
           (if 3 \<le> v_nscount e then (None, D, len)
            else if stimer_expired now (v_sendns e) \<and> len = 0 then solicit None
            else (Some e, D, len))
         else if v_state e = NBR_DELAY then
           (Some (if stimer_expired now (v_reachable e)
             then e\<lparr>v_state := NBR_PROBE, v_nscount := 0, v_sendns := stimer_set now 0 (v_sendns e)\<rparr> else e), D, len)
         else if v_state e = NBR_PROBE then
           (if 3 \<le> v_nscount e then (None, filter (\<lambda>r. fst r \<noteq> v_ipaddr e \<or> snd r = None) D, len)
            else if stimer_expired now (v_sendns e) \<and> len = 0 then solicit (Some (v_ipaddr e))
            else (Some e, D, len))
         else (Some e, D, len))"

fun nud_entries :: "(ip6addr option \<Rightarrow> ip6addr \<Rightarrow> u16) \<Rightarrow> u32 \<Rightarrow> u32 \<Rightarrow> nbr_view list \<Rightarrow> router_entry list \<Rightarrow> u16 \<Rightarrow>
    nbr_view list \<times> router_entry list \<times> u16" where
  "nud_entries ns_len now retrans [] D len = ([], D, len)"
| "nud_entries ns_len now retrans (e # es) D len =
     (case nud_entry ns_len now retrans e D len of (e', D, len) \<Rightarrow>
      case nud_entries ns_len now retrans es D len of (es', D, len) \<Rightarrow>
        (case e' of None \<Rightarrow> es' | Some e' \<Rightarrow> e' # es', D, len))"

lemma nth_nbr_eq:
  assumes "nbr_inv s ks" "table_ok s ds6_neighbors" "n < length (items s ds6_neighbors ks)"
  shows "nth_nbr s n = Some (items s ds6_neighbors ks ! n)"
  using assms(3)
proof (induction n)
  case 0
  then show ?case using head_chain [OF assms(1,2)] by (cases "items s ds6_neighbors ks") auto
next
  case (Suc n)
  let ?xs = "items s ds6_neighbors ks"
  have xs: "?xs = take n ?xs @ ?xs ! n # drop (Suc n) ?xs" using Suc.prems by (intro id_take_nth_drop) simp
  have "nbr_table_next s ds6_neighbors (?xs ! n) = Some (first (drop (Suc n) ?xs))" by (rule next_item [OF assms(1,2) xs])
  also have "first (drop (Suc n) ?xs) = ?xs ! Suc n" using Suc.prems by (simp add: Cons_nth_drop_Suc [symmetric])
  finally show ?case using Suc by simp
qed

lemma count_chain:
  assumes "nbr_inv s ks" "table_ok s ds6_neighbors" "items s ds6_neighbors ks = xs @ ys"
  shows "count_loop s (first ys) c = Some (c + of_nat (length ys))"
  using assms(3)
proof (induction ys arbitrary: xs c)
  case Nil
  then show ?case by (subst count_loop.simps) simp
next
  case (Cons y ys)
  have "y \<in> set (items s ds6_neighbors ks)" using Cons.prems by simp
  then obtain k where k: "k \<in> set ks" "y = item_at s ds6_neighbors (kidx s k)" unfolding mem_items by blast
  have "y \<noteq> NULL" unfolding k(2) by (rule key_item_facts(3) [OF assms(1,2) k(1)])
  moreover have "count_loop s (first ys) (c + 1) = Some (c + 1 + of_nat (length ys))"
    by (rule Cons.IH [of "xs @ [y]"]) (simp add: Cons.prems)
  ultimately show ?case using next_item [OF assms(1,2) Cons.prems] by (subst count_loop.simps) (simp add: add_ac)
qed

lemma neighbor_cache_eq:
  assumes "nbr_inv s ks" "table_ok s ds6_neighbors"
  shows "neighbor_cache s = map (nbr_entry s) (items s ds6_neighbors ks)"
proof -
  let ?xs = "items s ds6_neighbors ks"
  have "uip_ds6_nbr_num s = Some (of_nat (length ?xs))"
    using count_chain [OF assms, of "[]" ?xs 0] head_chain [OF assms] by (simp add: uip_ds6_nbr_num_def)
  moreover have "length ?xs \<le> length ks" unfolding items_def by (simp add: length_filter_le)
  then have "length ?xs < 65536" using length_keys [OF assms(1)] unat_less_u16 [of "mnum (neighbor_addr_mem s)"] by linarith
  then have "unat (of_nat (length ?xs) :: u16) = length ?xs" by (simp add: unat_of_nat)
  moreover have "map (\<lambda>n. nbr_entry s (case nth_nbr s n of None \<Rightarrow> NULL | Some nbr \<Rightarrow> nbr)) [0..<length ?xs] =
      map (\<lambda>n. nbr_entry s (?xs ! n)) [0..<length ?xs]"
    using nth_nbr_eq [OF assms] by (intro map_cong refl) simp
  moreover have "map (\<lambda>n. nbr_entry s (?xs ! n)) [0..<length ?xs] = map (nbr_entry s) (map ((!) ?xs) [0..<length ?xs])" by (simp add: o_def)
  ultimately show ?thesis by (simp add: neighbor_cache_def map_nth del: map_map)
qed

lemma spares_user:
  assumes "same_route_data (nbr_user s) (f (nbr_user s))"
  shows "spares_routes s (upd f s)"
  using assms by (simp add: spares_routes_def upd_def)

section \<open>Neighbor unreachability detection\<close>

text \<open>What the check of the neighbor \<open>k\<close> has done.\<close>

definition nud_done :: "ds6_sys \<Rightarrow> ptr list \<Rightarrow> ptr \<Rightarrow> ds6_sys \<Rightarrow> nbr_view option \<times> router_entry list \<times> u16 \<Rightarrow> bool" where
  "nud_done s ks k s1 r \<longleftrightarrow> (case r of (e', D', len') \<Rightarrow> spares_routes s s1 \<and>
     (\<exists>ds. routers_rep (nbr_user s1) ds \<and> map (router_entry (nbr_user s1)) ds = D') \<and>
     ds6_uip_len (nbr_user s1) = len' \<and> retrans_timer (nbr_user s1) = retrans_timer (nbr_user s) \<and>
     (in_table s1 ds6_neighbors k \<longleftrightarrow> e' \<noteq> None) \<and>
     (\<forall>e. e' = Some e \<longrightarrow> nbr_entry s1 (item_at s ds6_neighbors (kidx s k)) = e) \<and>
     (\<forall>x \<in> set ks. x \<noteq> k \<longrightarrow> in_table s1 ds6_neighbors x = in_table s ds6_neighbors x) \<and>
     (\<forall>n. n \<noteq> item_at s ds6_neighbors (kidx s k) \<longrightarrow> nbr_entry s1 n = nbr_entry s n))"

text \<open>A change of the fields of the neighbor \<open>y\<close> only.\<close>

definition nud_upd :: "ptr \<Rightarrow> ds6 \<Rightarrow> ds6 \<Rightarrow> bool" where
  "nud_upd y d d' \<longleftrightarrow> same_route_data d d' \<and> defrt_heap d' = defrt_heap d \<and> defaultroutermemb d' = defaultroutermemb d \<and>
     defrt_ipaddr d' = defrt_ipaddr d \<and> defrt_lifetime d' = defrt_lifetime d \<and> defrt_isinfinite d' = defrt_isinfinite d \<and>
     retrans_timer d' = retrans_timer d \<and>
     (\<forall>n. n \<noteq> y \<longrightarrow> nbr_ipaddr d' n = nbr_ipaddr d n \<and> nbr_reachable d' n = nbr_reachable d n \<and> nbr_sendns d' n = nbr_sendns d n \<and>
        nbr_nscount d' n = nbr_nscount d n \<and> nbr_isrouter d' n = nbr_isrouter d n \<and> nbr_state d' n = nbr_state d n)"

lemma nud_upd_routers:
  assumes "nud_upd y d d'"
  shows "routers_rep d' ds = routers_rep d ds" "router_entry d' = router_entry d"
proof -
  show "routers_rep d' ds = routers_rep d ds" using assms by (simp add: nud_upd_def routers_rep_def)
  show "router_entry d' = router_entry d" using assms by (simp add: nud_upd_def router_entry_def [abs_def] cong: if_cong)
qed

lemma nud_done_upd:
  assumes rep: "routers_rep (nbr_user s) ds" and it: "in_table s ds6_neighbors k"
    and u: "nud_upd (item_at s ds6_neighbors (kidx s k)) (nbr_user s) (f (nbr_user s))"
  shows "nud_done s ks k (upd f s) (Some (nbr_entry (upd f s) (item_at s ds6_neighbors (kidx s k))),
     map (router_entry (nbr_user s)) ds, ds6_uip_len (f (nbr_user s)))"
proof -
  have "spares_routes s (upd f s)" using u by (intro spares_user) (simp add: nud_upd_def)
  moreover have "nbr_entry (upd f s) n = nbr_entry s n" if "n \<noteq> item_at s ds6_neighbors (kidx s k)" for n
    using u that by (simp add: nbr_entry_def nud_upd_def Let_def key_from_item_def index_from_item_def key_from_index_def)
  ultimately show ?thesis using it rep u nud_upd_routers [OF u] by (auto simp: nud_done_def nud_upd_def)
qed

lemma nud_done_same:
  assumes "routers_rep (nbr_user s) ds" "in_table s ds6_neighbors k"
  shows "nud_done s ks k s (Some (nbr_entry s (item_at s ds6_neighbors (kidx s k))),
     map (router_entry (nbr_user s)) ds, ds6_uip_len (nbr_user s))"
  using nud_done_upd [of s ds k "\<lambda>d. d"] assms by (simp add: upd_def nud_upd_def same_route_data_def)

text \<open>Removing the neighbor.\<close>

lemma nbr_rm_cache:
  assumes inv: "nbr_inv s ks" "table_ok s ds6_neighbors" and k: "k \<in> set ks"
  shows "\<not> in_table (uip_ds6_nbr_rm (item_at s ds6_neighbors (kidx s k)) s) ds6_neighbors k"
    "x \<in> set ks \<Longrightarrow> x \<noteq> k \<Longrightarrow>
      in_table (uip_ds6_nbr_rm (item_at s ds6_neighbors (kidx s k)) s) ds6_neighbors x = in_table s ds6_neighbors x"
    "nbr_entry (uip_ds6_nbr_rm (item_at s ds6_neighbors (kidx s k)) s) = nbr_entry s"
proof -
  define y where "y = item_at s ds6_neighbors (kidx s k)"
  define s0 where "s0 = upd (\<lambda>d. ds6_call (Neighbor_state_changed y) (uip_packetqueue_free y d)) s"
  define s1 where "s1 = uip_ds6_nbr_rm y s"
  have y0: "y \<noteq> NULL" unfolding y_def by (rule key_item_facts(3) [OF inv k])
  then have s1: "s1 = snd (nbr_table_remove s0 ds6_neighbors y)" by (simp add: s1_def uip_ds6_nbr_rm_def s0_def)
  have inv0: "nbr_inv s0 ks" "table_ok s0 ds6_neighbors" using inv by (simp_all add: s0_def nbr_inv_def table_ok_def)
  have e0: "item_at s0 ds6_neighbors (kidx s0 x) = item_at s ds6_neighbors (kidx s x)" "in_table s0 ds6_neighbors x = in_table s ds6_neighbors x" for x
    by (simp_all add: s0_def)
  have tr: "trimmed ds6_neighbors s s1" unfolding s1_def by (rule nbr_rm_trimmed)
  have inv1: "nbr_inv s1 ks" "table_ok s1 ds6_neighbors" using trimmed_inv(1,2) [OF tr] inv by simp_all
  have e1: "item_at s1 ds6_neighbors (kidx s1 x) = item_at s ds6_neighbors (kidx s x)" for x using trimmed_inv(4,5) [OF tr] by simp
  have it: "set (items s1 ds6_neighbors ks) = set (items s0 ds6_neighbors ks) - {y}"
    using items_removed_key [OF inv0 k] unfolding e0(1) s1 y_def .
  have in1: "in_table s1 ds6_neighbors x \<longleftrightarrow> in_table s ds6_neighbors x \<and> item_at s ds6_neighbors (kidx s x) \<noteq> y" if x: "x \<in> set ks" for x
    using item_in_table [OF inv1 x] item_in_table [OF inv0 x] it unfolding e0 e1 by blast
  show "\<not> in_table (uip_ds6_nbr_rm (item_at s ds6_neighbors (kidx s k)) s) ds6_neighbors k"
    unfolding y_def [symmetric] s1_def [symmetric] using in1 [OF k] by (simp add: y_def)
  show "in_table (uip_ds6_nbr_rm (item_at s ds6_neighbors (kidx s k)) s) ds6_neighbors x = in_table s ds6_neighbors x"
    if x: "x \<in> set ks" "x \<noteq> k"
    unfolding y_def [symmetric] s1_def [symmetric] using in1 [OF x(1)] item_at_inj [OF inv x(1) k] x(2) unfolding y_def by blast
  have u: "nbr_user s1 = ds6_call (Neighbor_state_changed y) (uip_packetqueue_free y (nbr_user s))" by (simp add: s1 s0_def)
  show "nbr_entry (uip_ds6_nbr_rm (item_at s ds6_neighbors (kidx s k)) s) = nbr_entry s"
    unfolding y_def [symmetric] s1_def [symmetric] nbr_entry_def u trimmed_inv(3,6) [OF tr]
    by (simp add: fun_eq_iff ds6_call_eq uip_packetqueue_free_def Let_def)
qed

lemma nbr_rm_user:
  "routers_rep (nbr_user (uip_ds6_nbr_rm n s)) ds = routers_rep (nbr_user s) ds"
  "router_entry (nbr_user (uip_ds6_nbr_rm n s)) = router_entry (nbr_user s)"
  "ds6_uip_len (nbr_user (uip_ds6_nbr_rm n s)) = ds6_uip_len (nbr_user s)"
  "retrans_timer (nbr_user (uip_ds6_nbr_rm n s)) = retrans_timer (nbr_user s)"
  by (simp_all add: uip_ds6_nbr_rm_def ds6_call_eq uip_packetqueue_free_def Let_def routers_rep_def router_entry_def fun_eq_iff)

lemma nud_done_rm:
  assumes ok: "routes_ok s ks rs" and rep: "routers_rep (nbr_user s) ds" and k: "k \<in> set ks"
  shows "nud_done s ks k (uip_ds6_nbr_rm (item_at s ds6_neighbors (kidx s k)) s)
    (None, map (router_entry (nbr_user s)) ds, ds6_uip_len (nbr_user s))"
proof -
  have t: "nbr_inv s ks" "table_ok s ds6_neighbors" "nt_index (tables s ds6_neighbors) \<noteq> nt_index (tables s nbr_routes)"
    using ok by (simp_all add: routes_ok_def tables_ok_def)
  show ?thesis using nbr_rm_cache [OF t(1,2) k] nbr_rm_spares [OF t(3)] rep by (auto simp: nud_done_def nbr_rm_user)
qed

lemma spares_routes_trans:
  assumes "spares_routes s s1" "spares_routes s1 s2"
  shows "spares_routes s s2"
proof -
  have sh: "shrunk s s1" "shrunk s1 s2" using assms by (simp_all add: spares_routes_def)
  have sd: "same_route_data (nbr_user s) (nbr_user s2)" using assms unfolding spares_routes_def same_route_data_def by (elim conjE) simp
  have e: "tables s1 = tables s" "length (used_map s1) = length (used_map s)" using sh(1) by (simp_all add: shrunk_def)
  have "\<forall>i < length (used_map s). bit (used_map s2 ! i) (nt_index (tables s nbr_routes)) = bit (used_map s ! i) (nt_index (tables s nbr_routes))"
    using assms e unfolding spares_routes_def by simp
  then show ?thesis using shrunk_trans [OF sh] sd by (simp add: spares_routes_def)
qed

lemma router_step_spares: "router_step (nbr_user s) d \<Longrightarrow> spares_routes s (s\<lparr>nbr_user := d\<rparr>)"
  by (simp add: router_step_def spares_routes_def)

lemma router_step_entry: "router_step (nbr_user s) d \<Longrightarrow> nbr_entry (s\<lparr>nbr_user := d\<rparr>) = nbr_entry s"
  by (simp add: router_step_def nbr_entry_def Let_def fun_eq_iff key_from_item_def index_from_item_def key_from_index_def)

lemma nud_done_after:
  assumes st: "router_step (nbr_user s) d" and dn: "nud_done (s\<lparr>nbr_user := d\<rparr>) ks k s1 r"
  shows "nud_done s ks k s1 r"
proof -
  have "spares_routes s s1" if "spares_routes (s\<lparr>nbr_user := d\<rparr>) s1"
    by (rule spares_routes_trans [OF router_step_spares [OF st] that])
  moreover have "retrans_timer d = retrans_timer (nbr_user s)" using st by (simp add: router_step_def)
  ultimately show ?thesis using dn by (auto simp: nud_done_def router_step_entry [OF st])
qed

lemma nbr_entry_sel [simp]:
  "v_ipaddr (nbr_entry s n) = nbr_ipaddr (nbr_user s) n" "v_state (nbr_entry s n) = nbr_state (nbr_user s) n"
  "v_nscount (nbr_entry s n) = nbr_nscount (nbr_user s) n" "v_reachable (nbr_entry s n) = nbr_reachable (nbr_user s) n"
  "v_sendns (nbr_entry s n) = nbr_sendns (nbr_user s) n"
  by (simp_all add: nbr_entry_def Let_def)

text \<open>The default router with the address of the neighbor.\<close>

lemma router_known:
  assumes "routers_rep d ds"
  shows "\<exists>p. uip_ds6_defrt_lookup a d = Some p \<and> (p = NULL \<longleftrightarrow> a \<notin> fst ` set (map (router_entry d) ds)) \<and>
    (p \<noteq> NULL \<longrightarrow> p \<in> set ds \<and> defrt_ipaddr d p = a)"
proof (cases "find (\<lambda>p. defrt_ipaddr d p = a) ds")
  case None
  then have "a \<notin> defrt_ipaddr d ` set ds" by (auto simp: find_None_iff)
  then show ?thesis using defrt_lookup_eq [OF assms, of a] None unfolding router_ips by simp
next
  case (Some p)
  then have "p \<in> set ds" "defrt_ipaddr d p = a" unfolding find_Some_iff by auto
  then show ?thesis using defrt_lookup_eq [OF assms, of a] Some routers_facts(3) [OF assms] unfolding router_ips by auto
qed

lemma finite_router_removed:
  assumes rep: "routers_rep d ds" and p: "p \<in> set ds" and fin: "\<not> defrt_isinfinite d p"
  shows "map (router_entry d) (remove1 p ds) = filter (\<lambda>r. fst r \<noteq> defrt_ipaddr d p \<or> snd r = None) (map (router_entry d) ds)"
proof -
  have inj: "inj_on (defrt_ipaddr d) (set ds)" using rep by (simp add: routers_rep_def)
  have "snd r \<noteq> None" if r: "r \<in> set (map (router_entry d) ds)" "fst r = defrt_ipaddr d p" for r
  proof -
    obtain q where q: "q \<in> set ds" "r = router_entry d q" using r(1) by auto
    then have "q = p" using inj_onD [OF inj _ q(1) p] r(2) by (simp add: router_entry_def)
    then show ?thesis using q(2) fin by (simp add: router_entry_def)
  qed
  then have "filter (\<lambda>r. fst r \<noteq> defrt_ipaddr d p \<or> snd r = None) (map (router_entry d) ds) =
      filter (\<lambda>r. fst r \<noteq> defrt_ipaddr d p) (map (router_entry d) ds)" by (intro filter_cong refl) blast
  then show ?thesis using remove_router [OF inj routers_facts(2) [OF rep] p] by simp
qed

lemma other_router_kept:
  assumes rep: "routers_rep d ds" and p: "p \<in> set ds \<longrightarrow> defrt_ipaddr d p = a \<longrightarrow> defrt_isinfinite d p"
    and n: "a \<in> fst ` set (map (router_entry d) ds) \<Longrightarrow> p \<in> set ds \<and> defrt_ipaddr d p = a"
  shows "filter (\<lambda>r. fst r \<noteq> a \<or> snd r = None) (map (router_entry d) ds) = map (router_entry d) ds"
proof (intro filter_True ballI)
  fix r assume r: "r \<in> set (map (router_entry d) ds)"
  show "fst r \<noteq> a \<or> snd r = None"
  proof (cases "fst r = a")
    case True
    then have pa: "p \<in> set ds" "defrt_ipaddr d p = a" using n r by force+
    obtain q where q: "q \<in> set ds" "r = router_entry d q" using r by auto
    have inj: "inj_on (defrt_ipaddr d) (set ds)" using rep by (simp add: routers_rep_def)
    have "q = p" using inj_onD [OF inj _ q(1) pa(1)] q(2) True pa(2) by (simp add: router_entry_def)
    then show ?thesis using p pa q(2) by (simp add: router_entry_def)
  qed simp
qed

text \<open>The probes of a neighbor are over: its default router entry goes, then the neighbor.\<close>

lemma nud_probe_end:
  assumes ok: "routes_ok s ks rs" and rep: "routers_rep (nbr_user s) ds" and k: "k \<in> set ks"
  defines "y \<equiv> item_at s ds6_neighbors (kidx s k)"
  shows "\<exists>s1. (do {
      locdefrt \<leftarrow> uip_ds6_defrt_lookup (nbr_ipaddr (nbr_user s) y) (nbr_user s);
      s \<leftarrow> (if locdefrt \<noteq> NULL \<and> \<not> defrt_isinfinite (nbr_user s) locdefrt then lift (uip_ds6_defrt_rm locdefrt) s else Some s);
      Some (uip_ds6_nbr_rm y s)
    }) = Some s1 \<and>
    nud_done s ks k s1 (None, filter (\<lambda>r. fst r \<noteq> nbr_ipaddr (nbr_user s) y \<or> snd r = None) (map (router_entry (nbr_user s)) ds), ds6_uip_len (nbr_user s))"
proof -
  have lists: "lists_ok (nbr_user s)" using ok by (simp add: routes_ok_def)
  obtain p where p: "uip_ds6_defrt_lookup (nbr_ipaddr (nbr_user s) y) (nbr_user s) = Some p"
    "p = NULL \<longleftrightarrow> nbr_ipaddr (nbr_user s) y \<notin> fst ` set (map (router_entry (nbr_user s)) ds)"
    "p \<noteq> NULL \<Longrightarrow> p \<in> set ds \<and> defrt_ipaddr (nbr_user s) p = nbr_ipaddr (nbr_user s) y"
    using router_known [OF rep] by blast
  show ?thesis
  proof (cases "p \<noteq> NULL \<and> \<not> defrt_isinfinite (nbr_user s) p")
    case True
    then have pd: "p \<in> set ds" "defrt_ipaddr (nbr_user s) p = nbr_ipaddr (nbr_user s) y" using p(3) by simp_all
    obtain d where d: "uip_ds6_defrt_rm p (nbr_user s) = Some d" "routers_rep d (remove1 p ds)" "router_step (nbr_user s) d"
      "router_entry d = router_entry (nbr_user s)" using defrt_rm_ok [OF rep lists pd(1)] by blast
    let ?s = "s\<lparr>nbr_user := d\<rparr>"
    have ok0: "routes_ok ?s ks rs" by (rule spares_routes_ok(1) [OF router_step_spares [OF d(3)] ok])
    have y0: "item_at ?s ds6_neighbors (kidx ?s k) = y" by (simp add: y_def)
    have "nud_done ?s ks k (uip_ds6_nbr_rm y ?s) (None, map (router_entry d) (remove1 p ds), ds6_uip_len d)"
      using nud_done_rm [OF ok0 _ k, of "remove1 p ds"] d(2) unfolding y0 by simp
    from nud_done_after [OF d(3) this]
    have "nud_done s ks k (uip_ds6_nbr_rm y ?s) (None, map (router_entry d) (remove1 p ds), ds6_uip_len d)" .
    moreover have "ds6_uip_len d = ds6_uip_len (nbr_user s)" using d(3) by (simp add: router_step_def)
    moreover have "map (router_entry d) (remove1 p ds) = filter (\<lambda>r. fst r \<noteq> nbr_ipaddr (nbr_user s) y \<or> snd r = None) (map (router_entry (nbr_user s)) ds)"
      using finite_router_removed [OF rep pd(1)] True pd(2) unfolding d(4) by simp
    ultimately show ?thesis using p(1) True d(1) by (intro exI [of _ "uip_ds6_nbr_rm y ?s"]) (simp add: lift_def)
  next
    case False
    have "filter (\<lambda>r. fst r \<noteq> nbr_ipaddr (nbr_user s) y \<or> snd r = None) (map (router_entry (nbr_user s)) ds) = map (router_entry (nbr_user s)) ds"
      by (rule other_router_kept [OF rep, of p]) (use False p routers_facts(3) [OF rep] in metis)+
    then show ?thesis using p(1) False nud_done_rm [OF ok rep k, folded y_def] by (intro exI [of _ "uip_ds6_nbr_rm y s"]) auto
  qed
qed

lemma nud_switch_ok:
  assumes ok: "routes_ok s ks rs" and rep: "routers_rep (nbr_user s) ds" and k: "k \<in> set ks" and it: "in_table s ds6_neighbors k"
  defines "y \<equiv> item_at s ds6_neighbors (kidx s k)"
  shows "\<exists>s1. nud_switch ns_len now y s = Some s1 \<and>
    nud_done s ks k s1 (nud_entry ns_len now (retrans_timer (nbr_user s)) (nbr_entry s y) (map (router_entry (nbr_user s)) ds) (ds6_uip_len (nbr_user s)))"
proof -
  let ?d = "nbr_user s"
  note same = nud_done_same [OF rep it, folded y_def]
  note up = nud_done_upd [OF rep it, folded y_def]
  note sd = nud_upd_def same_route_data_def lists_ok_def routers_rep_def
  obtain p where p: "uip_ds6_defrt_lookup (nbr_ipaddr ?d y) ?d = Some p"
    "p = NULL \<longleftrightarrow> nbr_ipaddr ?d y \<notin> fst ` set (map (router_entry ?d) ds)" using router_known [OF rep] by blast
  consider (reach) "nbr_state ?d y = NBR_REACHABLE" | (inc) "nbr_state ?d y = NBR_INCOMPLETE" | (delay) "nbr_state ?d y = NBR_DELAY"
    | (probe) "nbr_state ?d y = NBR_PROBE"
    | (other) "nbr_state ?d y \<notin> {NBR_REACHABLE, NBR_INCOMPLETE, NBR_DELAY, NBR_PROBE}" by blast
  then show ?thesis
  proof cases
    case reach
    let ?f = "\<lambda>d. d\<lparr>nbr_state := (nbr_state d)(y := NBR_DELAY),
                       nbr_reachable := (nbr_reachable d)(y := stimer_set now 5 (nbr_reachable d y)), nbr_nscount := (nbr_nscount d)(y := 0)\<rparr>"
    let ?g = "\<lambda>d. d\<lparr>nbr_state := (nbr_state d)(y := NBR_STALE)\<rparr>"
    have "nud_done s ks k (upd ?f s) (Some (nbr_entry (upd ?f s) y), map (router_entry ?d) ds, ds6_uip_len ?d)"
      "nud_done s ks k (upd ?g s) (Some (nbr_entry (upd ?g s) y), map (router_entry ?d) ds, ds6_uip_len ?d)"
      using up [of ?f] up [of ?g] by (simp_all add: sd)
    moreover have "nbr_entry (upd ?f s) y = (nbr_entry s y)\<lparr>v_state := NBR_DELAY, v_reachable := stimer_set now 5 (nbr_reachable ?d y), v_nscount := 0\<rparr>"
      "nbr_entry (upd ?g s) y = (nbr_entry s y)\<lparr>v_state := NBR_STALE\<rparr>"
      by (simp_all add: nbr_entry_def Let_def key_from_item_def index_from_item_def key_from_index_def)
    ultimately show ?thesis using reach p same by (auto simp: nud_switch_def nud_entry_def Let_def)
  next
    case inc
    let ?f = "\<lambda>d. uip_nd6_ns_output ns_len None (nbr_ipaddr ?d y) (d\<lparr>nbr_nscount := (nbr_nscount d)(y := nbr_nscount d y + 1)\<rparr>)
                \<lparr>nbr_sendns := (nbr_sendns d)(y := stimer_set now (retrans_timer d div 1000) (nbr_sendns d y))\<rparr>"
    have "nud_done s ks k (upd ?f s) (Some (nbr_entry (upd ?f s) y), map (router_entry ?d) ds, ns_len None (nbr_ipaddr ?d y))"
      using up [of ?f] by (simp add: sd uip_nd6_ns_output_def ds6_call_eq)
    moreover have "nbr_entry (upd ?f s) y = (nbr_entry s y)\<lparr>v_nscount := nbr_nscount ?d y + 1,
        v_sendns := stimer_set now (retrans_timer ?d div 1000) (nbr_sendns ?d y)\<rparr>"
      by (simp add: nbr_entry_def Let_def key_from_item_def index_from_item_def key_from_index_def uip_nd6_ns_output_def ds6_call_eq)
    ultimately show ?thesis using inc same nud_done_rm [OF ok rep k, folded y_def] by (auto simp: nud_switch_def nud_entry_def Let_def)
  next
    case delay
    let ?f = "\<lambda>d. d\<lparr>nbr_state := (nbr_state d)(y := NBR_PROBE), nbr_nscount := (nbr_nscount d)(y := 0),
                    nbr_sendns := (nbr_sendns d)(y := stimer_set now 0 (nbr_sendns d y))\<rparr>"
    have "nud_done s ks k (upd ?f s) (Some (nbr_entry (upd ?f s) y), map (router_entry ?d) ds, ds6_uip_len ?d)"
      using up [of ?f] by (simp add: sd)
    moreover have "nbr_entry (upd ?f s) y = (nbr_entry s y)\<lparr>v_state := NBR_PROBE, v_nscount := 0, v_sendns := stimer_set now 0 (nbr_sendns ?d y)\<rparr>"
      by (simp add: nbr_entry_def Let_def key_from_item_def index_from_item_def key_from_index_def)
    ultimately show ?thesis using delay same by (auto simp: nud_switch_def nud_entry_def Let_def)
  next
    case probe
    let ?f = "\<lambda>d. uip_nd6_ns_output ns_len (Some (nbr_ipaddr ?d y)) (nbr_ipaddr ?d y) (d\<lparr>nbr_nscount := (nbr_nscount d)(y := nbr_nscount d y + 1)\<rparr>)
                \<lparr>nbr_sendns := (nbr_sendns d)(y := stimer_set now (retrans_timer d div 1000) (nbr_sendns d y))\<rparr>"
    have "nud_done s ks k (upd ?f s) (Some (nbr_entry (upd ?f s) y), map (router_entry ?d) ds, ns_len (Some (nbr_ipaddr ?d y)) (nbr_ipaddr ?d y))"
      using up [of ?f] by (simp add: sd uip_nd6_ns_output_def ds6_call_eq)
    moreover have "nbr_entry (upd ?f s) y = (nbr_entry s y)\<lparr>v_nscount := nbr_nscount ?d y + 1,
        v_sendns := stimer_set now (retrans_timer ?d div 1000) (nbr_sendns ?d y)\<rparr>"
      by (simp add: nbr_entry_def Let_def key_from_item_def index_from_item_def key_from_index_def uip_nd6_ns_output_def ds6_call_eq)
    ultimately show ?thesis using probe same nud_probe_end [OF ok rep k, folded y_def] by (auto simp: nud_switch_def nud_entry_def Let_def)
  next
    case other
    then show ?thesis using same by (simp add: nud_switch_def nud_entry_def Let_def)
  qed
qed

text \<open>Going on with the neighbors \<open>bs\<close>; those of \<open>as\<close> stay as they are.\<close>

definition nud_rest :: "(ip6addr option \<Rightarrow> ip6addr \<Rightarrow> u16) \<Rightarrow> u32 \<Rightarrow> ds6_sys \<Rightarrow> ptr list \<Rightarrow> ptr list \<Rightarrow> ptr list \<Rightarrow> ds6_sys \<Rightarrow> bool" where
  "nud_rest ns_len now s ds as bs s' \<longleftrightarrow> spares_routes s s' \<and> retrans_timer (nbr_user s') = retrans_timer (nbr_user s) \<and>
     (\<exists>ds'. routers_rep (nbr_user s') ds' \<and>
        nud_entries ns_len now (retrans_timer (nbr_user s)) (map (nbr_entry s) (items s ds6_neighbors bs))
            (map (router_entry (nbr_user s)) ds) (ds6_uip_len (nbr_user s)) =
          (map (nbr_entry s') (items s' ds6_neighbors bs), map (router_entry (nbr_user s')) ds', ds6_uip_len (nbr_user s'))) \<and>
     (\<forall>x \<in> set as. in_table s' ds6_neighbors x = in_table s ds6_neighbors x \<and>
        nbr_entry s' (item_at s ds6_neighbors (kidx s x)) = nbr_entry s (item_at s ds6_neighbors (kidx s x)))"

lemma spares_same:
  assumes "spares_routes s s'"
  shows "item_at s' t (kidx s' x) = item_at s t (kidx s x)" "nbr_inv s ks \<Longrightarrow> nbr_inv s' ks" "table_ok s' t = table_ok s t"
proof -
  have sh: "shrunk s s'" using assms by (simp add: spares_routes_def)
  show "item_at s' t (kidx s' x) = item_at s t (kidx s x)" using index_from_key_shrunk [OF sh] sh by (simp add: shrunk_def)
  show "nbr_inv s ks \<Longrightarrow> nbr_inv s' ks" "table_ok s' t = table_ok s t" by (rule shrunk_inv [OF sh], assumption) (rule table_ok_shrunk [OF sh])
qed

lemma items_same:
  assumes "spares_routes s s'" "\<forall>x \<in> set xs. in_table s' t x = in_table s t x"
  shows "items s' t xs = items s t xs"
proof -
  have "filter (in_table s' t) xs = filter (in_table s t) xs" using assms(2) by (intro filter_cong) simp_all
  then show ?thesis unfolding items_def spares_same(1) [OF assms(1)] by simp
qed

lemma nud_rest_skip:
  assumes "\<not> in_table s ds6_neighbors k" "nud_rest ns_len now s ds (as @ [k]) bs s'"
  shows "nud_rest ns_len now s ds as (k # bs) s'"
  using assms by (simp add: nud_rest_def)

lemma nud_rest_step:
  assumes it: "in_table s ds6_neighbors k" and k: "k \<in> set ks" "set as \<subseteq> set ks - {k}" "set bs \<subseteq> set ks - {k}"
    and inv: "nbr_inv s ks" "table_ok s ds6_neighbors" and rep: "routers_rep (nbr_user s) ds"
    and dn: "nud_done s ks k s1 (nud_entry ns_len now (retrans_timer (nbr_user s)) (nbr_entry s (item_at s ds6_neighbors (kidx s k)))
       (map (router_entry (nbr_user s)) ds) (ds6_uip_len (nbr_user s)))"
    and ds1: "routers_rep (nbr_user s1) ds1"
    and rest: "nud_rest ns_len now s1 ds1 (as @ [k]) bs s'"
  shows "nud_rest ns_len now s ds as (k # bs) s'"
proof -
  define y where "y = item_at s ds6_neighbors (kidx s k)"
  obtain e' D1 len1 where r: "nud_entry ns_len now (retrans_timer (nbr_user s)) (nbr_entry s y)
       (map (router_entry (nbr_user s)) ds) (ds6_uip_len (nbr_user s)) = (e', D1, len1)" by (metis prod_cases3)
  note dn' = dn [folded y_def, unfolded r nud_done_def prod.case, folded y_def]
  have sp: "spares_routes s s1" and rt: "retrans_timer (nbr_user s1) = retrans_timer (nbr_user s)" and len: "ds6_uip_len (nbr_user s1) = len1"
    and ik: "in_table s1 ds6_neighbors k \<longleftrightarrow> e' \<noteq> None" and ek: "\<And>e. e' = Some e \<Longrightarrow> nbr_entry s1 y = e"
    and ix: "\<forall>x \<in> set ks. x \<noteq> k \<longrightarrow> in_table s1 ds6_neighbors x = in_table s ds6_neighbors x"
    and ex: "\<And>n. n \<noteq> y \<Longrightarrow> nbr_entry s1 n = nbr_entry s n" using dn' by blast+
  obtain ds' where ds': "routers_rep (nbr_user s1) ds'" "map (router_entry (nbr_user s1)) ds' = D1" using dn' by blast
  have "ds' = ds1" using is_list_unique ds' ds1 unfolding routers_rep_def by blast
  then have D1: "map (router_entry (nbr_user s1)) ds1 = D1" using ds'(2) by simp
  have at: "item_at s1 ds6_neighbors (kidx s1 x) = item_at s ds6_neighbors (kidx s x)" for x by (rule spares_same(1) [OF sp])
  have ny: "item_at s ds6_neighbors (kidx s x) \<noteq> y" if "x \<in> set ks - {k}" for x
    unfolding y_def using item_at_inj [OF inv, of x k] that k(1) by blast
  have ibs: "items s1 ds6_neighbors bs = items s ds6_neighbors bs" by (rule items_same [OF sp]) (use ix k(3) in blast)
  have "n \<noteq> y" if "n \<in> set (items s ds6_neighbors bs)" for n using that ny k(3) unfolding mem_items by blast
  then have mbs: "map (nbr_entry s1) (items s1 ds6_neighbors bs) = map (nbr_entry s) (items s ds6_neighbors bs)"
    unfolding ibs using ex by (intro map_cong refl) blast
  have R: "spares_routes s1 s'" "retrans_timer (nbr_user s') = retrans_timer (nbr_user s1)"
    "\<forall>x \<in> set (as @ [k]). in_table s' ds6_neighbors x = in_table s1 ds6_neighbors x \<and>
        nbr_entry s' (item_at s1 ds6_neighbors (kidx s1 x)) = nbr_entry s1 (item_at s1 ds6_neighbors (kidx s1 x))"
    using rest by (simp_all add: nud_rest_def)
  obtain ds2 where ds2: "routers_rep (nbr_user s') ds2"
    "nud_entries ns_len now (retrans_timer (nbr_user s)) (map (nbr_entry s) (items s ds6_neighbors bs)) D1 len1 =
      (map (nbr_entry s') (items s' ds6_neighbors bs), map (router_entry (nbr_user s')) ds2, ds6_uip_len (nbr_user s'))"
    using rest unfolding nud_rest_def mbs rt D1 len by blast
  have at': "item_at s' ds6_neighbors (kidx s' k) = y" using spares_same(1) [OF R(1), of ds6_neighbors k] at [of k] by (simp add: y_def)
  have yk: "in_table s' ds6_neighbors k \<longleftrightarrow> e' \<noteq> None" "nbr_entry s' y = nbr_entry s1 y"
    using R(3) ik at [of k] by (simp_all add: y_def)
  have "map (nbr_entry s') (items s' ds6_neighbors (k # bs)) =
      (case e' of None \<Rightarrow> map (nbr_entry s') (items s' ds6_neighbors bs) | Some e \<Rightarrow> e # map (nbr_entry s') (items s' ds6_neighbors bs))"
  proof (cases e')
    case None
    then have "\<not> in_table s' ds6_neighbors k" using yk(1) by simp
    then show ?thesis using None by simp
  next
    case (Some e)
    then have "in_table s' ds6_neighbors k" "nbr_entry s' y = e" using yk ek by simp_all
    then show ?thesis using Some unfolding items_simps at' by simp
  qed
  moreover have "items s ds6_neighbors (k # bs) = y # items s ds6_neighbors bs" using it by (simp add: y_def)
  ultimately have nd: "nud_entries ns_len now (retrans_timer (nbr_user s)) (map (nbr_entry s) (items s ds6_neighbors (k # bs)))
      (map (router_entry (nbr_user s)) ds) (ds6_uip_len (nbr_user s)) =
      (map (nbr_entry s') (items s' ds6_neighbors (k # bs)), map (router_entry (nbr_user s')) ds2, ds6_uip_len (nbr_user s'))"
    using r ds2(2) by (simp only: list.map nud_entries.simps prod.case)
  have ss: "spares_routes s s'" by (rule spares_routes_trans [OF sp R(1)])
  have fr: "in_table s' ds6_neighbors x = in_table s ds6_neighbors x \<and>
      nbr_entry s' (item_at s ds6_neighbors (kidx s x)) = nbr_entry s (item_at s ds6_neighbors (kidx s x))" if x: "x \<in> set as" for x
  proof -
    have "x \<in> set ks - {k}" using x k(2) by blast
    then show ?thesis using R(3) x ix ny [of x] ex [of "item_at s ds6_neighbors (kidx s x)"] at [of x] by auto
  qed
  show ?thesis unfolding nud_rest_def
    by (intro conjI exI [of _ ds2] ballI ss nd ds2(1) fr [THEN conjunct1] fr [THEN conjunct2]) (simp_all only: R(2) rt)
qed

lemma periodic_chain:
  assumes "routes_ok s ks rs" "routers_rep (nbr_user s) ds" "ks = as @ bs"
  shows "\<exists>s'. neighbor_periodic_loop ns_len now (first (items s ds6_neighbors bs)) s = Some s' \<and> nud_rest ns_len now s ds as bs s'"
  using assms
proof (induction bs arbitrary: as s ds)
  case Nil
  have "spares_routes s s" by (simp add: spares_routes_def same_route_data_def)
  then have "nud_rest ns_len now s ds as [] s" using Nil.prems(2) by (auto simp: nud_rest_def)
  then show ?case by (subst neighbor_periodic_loop.simps) simp
next
  case (Cons k bs)
  have t: "nbr_inv s ks" "table_ok s ds6_neighbors" using Cons.prems(1) by (simp_all add: routes_ok_def tables_ok_def)
  have ks: "ks = (as @ [k]) @ bs" using Cons.prems(3) by simp
  have kk: "k \<in> set ks" using Cons.prems(3) by simp
  have "distinct ks" using t(1) is_list_distinct [of "nbr_heap s" nbr_table_keys ks] by (simp add: nbr_inv_def)
  then have sub: "set as \<subseteq> set ks - {k}" "set bs \<subseteq> set ks - {k}" using Cons.prems(3) by auto
  show ?case
  proof (cases "in_table s ds6_neighbors k")
    case False
    obtain s' where "neighbor_periodic_loop ns_len now (first (items s ds6_neighbors bs)) s = Some s'" "nud_rest ns_len now s ds (as @ [k]) bs s'"
      using Cons.IH [OF Cons.prems(1,2) ks] by blast
    then show ?thesis using nud_rest_skip [OF False] False by (intro exI [of _ s']) simp
  next
    case True
    define y where "y = item_at s ds6_neighbors (kidx s k)"
    have y0: "y \<noteq> NULL" unfolding y_def by (rule key_item_facts(3) [OF t kk])
    obtain s1 where s1: "nud_switch ns_len now y s = Some s1"
      "nud_done s ks k s1 (nud_entry ns_len now (retrans_timer (nbr_user s)) (nbr_entry s y) (map (router_entry (nbr_user s)) ds) (ds6_uip_len (nbr_user s)))"
      using nud_switch_ok [OF Cons.prems(1,2) kk True, of ns_len now] unfolding y_def by blast
    then have sp: "spares_routes s s1" by (auto simp: nud_done_def)
    obtain ds1 where ds1: "routers_rep (nbr_user s1) ds1" using s1(2) by (auto simp: nud_done_def split: prod.splits)
    have ok1: "routes_ok s1 ks rs" by (rule spares_routes_ok(1) [OF sp Cons.prems(1)])
    have t1: "nbr_inv s1 ks" "table_ok s1 ds6_neighbors" using ok1 by (simp_all add: routes_ok_def tables_ok_def)
    have nx: "nbr_table_next s1 ds6_neighbors y = Some (first (items s1 ds6_neighbors bs))"
      using next_chain [OF t1 Cons.prems(3)] spares_same(1) [OF sp] by (simp add: y_def)
    obtain s' where s': "neighbor_periodic_loop ns_len now (first (items s1 ds6_neighbors bs)) s1 = Some s'"
      "nud_rest ns_len now s1 ds1 (as @ [k]) bs s'"
      using Cons.IH [OF ok1 ds1 ks] by blast
    have "first (items s ds6_neighbors (k # bs)) = y" using True by (simp add: y_def)
    then have "neighbor_periodic_loop ns_len now (first (items s ds6_neighbors (k # bs))) s = Some s'"
      using y0 s1(1) nx s'(1) by (subst neighbor_periodic_loop.simps) (simp only: if_not_P if_True simp_thms Option.bind.simps)
    then show ?thesis using nud_rest_step [OF True kk sub t Cons.prems(2) s1(2) [unfolded y_def] ds1 s'(2)] by blast
  qed
qed

lemma neighbor_periodic_ok:
  assumes "routes_ok s ks rs" "routers_rep (nbr_user s) ds"
  shows "\<exists>s'. uip_ds6_neighbor_periodic ns_len now s = Some s' \<and> nud_rest ns_len now s ds [] ks s'"
proof -
  have t: "nbr_inv s ks" "table_ok s ds6_neighbors" using assms(1) by (simp_all add: routes_ok_def tables_ok_def)
  show ?thesis using periodic_chain [OF assms, of "[]" ks ns_len now] head_chain [OF t] by (simp add: uip_ds6_neighbor_periodic_def)
qed

text \<open>Removing the neighbor with an address: the first entry with it goes.\<close>

definition without_first :: "('a \<Rightarrow> bool) \<Rightarrow> 'a list \<Rightarrow> 'a list" where
  "without_first P xs = takeWhile (\<lambda>x. \<not> P x) xs @ tl (dropWhile (\<lambda>x. \<not> P x) xs)"

lemma without_first_split: "\<forall>x \<in> set xs. \<not> P x \<Longrightarrow> P y \<Longrightarrow> without_first P (xs @ y # ys) = xs @ ys"
  by (simp add: without_first_def takeWhile_tail dropWhile_append)

lemma without_first_none: "\<forall>x \<in> set xs. \<not> P x \<Longrightarrow> without_first P xs = xs"
  by (simp add: without_first_def takeWhile_eq_all_conv [THEN iffD2] dropWhile_eq_Nil_conv [THEN iffD2])

lemma nbr_rm_by_address:
  assumes ok: "routes_ok s ks rs"
  shows "\<exists>nbr. uip_ds6_nbr_lookup s (Some a) = Some nbr \<and>
    neighbor_cache (uip_ds6_nbr_rm nbr s) = without_first (\<lambda>e. v_ipaddr e = a) (neighbor_cache s)"
proof -
  have t: "nbr_inv s ks" "table_ok s ds6_neighbors" "nt_index (tables s ds6_neighbors) \<noteq> nt_index (tables s nbr_routes)"
    using ok by (simp_all add: routes_ok_def tables_ok_def)
  let ?xs = "items s ds6_neighbors ks"
  note lk = nbr_lookup_eq [OF t(1,2), of a]
  show ?thesis
  proof (cases "find (\<lambda>n. nbr_ipaddr (nbr_user s) n = a) ?xs")
    case None
    then have "\<forall>e \<in> set (map (nbr_entry s) ?xs). v_ipaddr e \<noteq> a" by (auto simp: find_None_iff)
    from without_first_none [OF this] show ?thesis
      using lk None neighbor_cache_eq [OF t(1,2)] by (intro exI [of _ NULL]) (simp add: uip_ds6_nbr_rm_def)
  next
    case (Some n)
    then obtain i where i: "i < length ?xs" "nbr_ipaddr (nbr_user s) (?xs ! i) = a" "n = ?xs ! i" "\<forall>j < i. nbr_ipaddr (nbr_user s) (?xs ! j) \<noteq> a"
      unfolding find_Some_iff by auto
    have "n \<in> set ?xs" using i(1,3) by simp
    then obtain k where k: "k \<in> set ks" "in_table s ds6_neighbors k" "n = item_at s ds6_neighbors (kidx s k)" unfolding mem_items by blast
    obtain as bs where ks: "ks = as @ k # bs" using k(1) by (meson split_list)
    have d: "distinct ks" using t(1) is_list_distinct [of "nbr_heap s" nbr_table_keys ks] by (simp add: nbr_inv_def)
    have sp: "spares_routes s (uip_ds6_nbr_rm n s)" by (rule nbr_rm_spares [OF t(3)])
    note rc = nbr_rm_cache [OF t(1,2) k(1), folded k(3)]
    have keep: "items (uip_ds6_nbr_rm n s) ds6_neighbors zs = items s ds6_neighbors zs" if "set zs \<subseteq> set ks" "k \<notin> set zs" for zs
      by (rule items_same [OF sp]) (use rc(2) that in blast)
    have "items (uip_ds6_nbr_rm n s) ds6_neighbors as = items s ds6_neighbors as"
      "items (uip_ds6_nbr_rm n s) ds6_neighbors bs = items s ds6_neighbors bs" using d unfolding ks by (auto intro!: keep simp: ks)
    then have it: "items (uip_ds6_nbr_rm n s) ds6_neighbors ks = items s ds6_neighbors as @ items s ds6_neighbors bs"
      using rc(1) unfolding ks by simp
    have xs: "?xs = items s ds6_neighbors as @ n # items s ds6_neighbors bs" using k(2,3) unfolding ks by simp
    have dx: "distinct ?xs" by (rule distinct_items [OF t(1,2)])
    define u where "u = items s ds6_neighbors as"
    have "?xs ! length u = n" using xs by (simp add: u_def)
    moreover have "length u < length ?xs" using xs by (simp add: u_def)
    ultimately have "length u = i" using nth_eq_iff_index_eq [OF dx] i(1,3) by blast
    then have nu: "\<forall>m \<in> set u. nbr_ipaddr (nbr_user s) m \<noteq> a" using i(4) xs
      by (metis in_set_conv_nth nth_append u_def)
    have "neighbor_cache (uip_ds6_nbr_rm n s) = map (nbr_entry s) (u @ items s ds6_neighbors bs)"
      using neighbor_cache_eq [OF spares_same(2) [OF sp t(1)]] spares_same(3) [OF sp] t(2) it rc(3) by (simp add: u_def)
    also have "\<dots> = without_first (\<lambda>e. v_ipaddr e = a) (map (nbr_entry s) u @ nbr_entry s n # map (nbr_entry s) (items s ds6_neighbors bs))"
      using nu i(2,3) by (subst without_first_split) auto
    also have "\<dots> = without_first (\<lambda>e. v_ipaddr e = a) (neighbor_cache s)"
      unfolding neighbor_cache_eq [OF t(1,2)] xs u_def by simp
    finally show ?thesis using lk Some by (intro exI [of _ n]) simp
  qed
qed

text \<open>The choice of a default router, on entries.\<close>

definition choose_router :: "nbr_view list \<Rightarrow> router_entry list \<Rightarrow> ip6addr option" where
  "choose_router N D =
     (case find (\<lambda>r. case find (\<lambda>e. v_ipaddr e = fst r) N of None \<Rightarrow> False | Some e \<Rightarrow> v_state e \<noteq> NBR_INCOMPLETE) D of
        Some r \<Rightarrow> Some (fst r) | None \<Rightarrow> if D = [] then None else Some (fst (last D)))"

lemma find_map: "find P (map f xs) = map_option f (find (P \<circ> f) xs)"
  by (induction xs) auto

lemma defrt_choose_chain:
  assumes "nbr_inv s ks" "table_ok s ds6_neighbors" "lchain (lnext (defrt_heap (nbr_user s))) p ds"
  shows "defrt_choose_loop s addr p = Some
    (case find (\<lambda>r. case find (\<lambda>e. v_ipaddr e = fst r) (neighbor_cache s) of None \<Rightarrow> False | Some e \<Rightarrow> v_state e \<noteq> NBR_INCOMPLETE)
        (map (router_entry (nbr_user s)) ds) of
      Some r \<Rightarrow> Some (fst r) | None \<Rightarrow> if ds = [] then addr else Some (defrt_ipaddr (nbr_user s) (last ds)))"
  using assms(3)
proof (induction ds arbitrary: p addr)
  case Nil
  then show ?case by (subst defrt_choose_loop.simps) simp
next
  case (Cons q ds)
  let ?a = "defrt_ipaddr (nbr_user s) q"
  have p: "p = q" "q \<noteq> NULL" "lchain (lnext (defrt_heap (nbr_user s))) (lnext (defrt_heap (nbr_user s)) q) ds" using Cons.prems by auto
  have a: "fst (router_entry (nbr_user s) q) = ?a" by (simp add: router_entry_def)
  have f: "find (\<lambda>e. v_ipaddr e = ?a) (neighbor_cache s) =
      map_option (nbr_entry s) (find (\<lambda>n. nbr_ipaddr (nbr_user s) n = ?a) (items s ds6_neighbors ks))"
    unfolding neighbor_cache_eq [OF assms(1,2)] by (simp add: find_map o_def)
  have nz: "n \<noteq> NULL" if "find (\<lambda>n. nbr_ipaddr (nbr_user s) n = ?a) (items s ds6_neighbors ks) = Some n" for n
  proof -
    have "n \<in> set (items s ds6_neighbors ks)" using that unfolding find_Some_iff by auto
    then show ?thesis unfolding mem_items using key_item_facts(3) [OF assms(1,2)] by metis
  qed
  note IH = Cons.IH [OF p(3), of "Some ?a"]
  show ?case using IH p nbr_lookup_eq [OF assms(1,2), of ?a] f nz
    by (subst defrt_choose_loop.simps) (auto simp: a list_item_next_def split: option.splits)
qed

lemma defrt_choose_ok:
  assumes "routes_ok s ks rs" "routers_rep (nbr_user s) ds"
  shows "uip_ds6_defrt_choose s = Some (choose_router (neighbor_cache s) (router_table (nbr_user s)))"
proof -
  have t: "nbr_inv s ks" "table_ok s ds6_neighbors" using assms(1) by (simp_all add: routes_ok_def tables_ok_def)
  have l: "(if map (router_entry (nbr_user s)) ds = [] then None else Some (fst (last (map (router_entry (nbr_user s)) ds)))) =
      (if ds = [] then None else Some (defrt_ipaddr (nbr_user s) (last ds)))"
    by (cases "ds = []") (simp_all add: last_map router_entry_def)
  show ?thesis
    unfolding uip_ds6_defrt_choose_def defrt_choose_chain [OF t routers_facts(1) [OF assms(2)]] router_table_eq [OF assms(2)] choose_router_def l ..
qed

end
