(* ===== verification/Ds6Correct.thy ===== *)
theory Ds6Correct
  imports Ds6Nud
begin

text \<open>
  Correctness of the routing table, the neighbor cache and the default routers
  (\<open>core/net/ipv6/uip-ds6-route.c\<close>, \<open>core/net/ipv6/uip-ds6-nbr.c\<close>): every operation refines its
  specification on the tables of entries, and what holds after any sequence of operations from the
  initial state.
\<close>

section \<open>Operations\<close>

text \<open>
  The operations on routes, neighbors and default routers that other modules call: \<open>Route_rm\<close> names a
  route by its place in the iteration with \<open>uip_ds6_route_head\<close> and \<open>uip_ds6_route_next\<close>, \<open>Nbr_rm\<close> and
  \<open>Defrt_rm\<close> name their arguments by address; \<open>Uip_len\<close> is an assignment of the stack to \<open>uip_len\<close>.
  Parameters are the callbacks of other modules, the lengths of solicitations and the bytes at address 0.
\<close>

datatype ds6_op =
    Route_lookup ip6addr
  | Route_add ip6addr u8 ip6addr
  | Route_rm nat
  | Route_rm_by_nexthop "ip6addr option"
  | Nbr_add u32 ip6addr linkaddr u8 u8
  | Nbr_rm "ip6addr option"
  | Nbr_periodic u32
  | Defrt_add u32 ip6addr u32
  | Defrt_rm ip6addr
  | Defrt_periodic u32
  | Uip_len u16

fun nth_route :: "ds6 \<Rightarrow> nat \<Rightarrow> ptr" where
  "nth_route d 0 = uip_ds6_route_head d"
| "nth_route d (Suc n) = uip_ds6_route_next d (nth_route d n)"

fun ds6_exec :: "ds6 nbr_callback \<Rightarrow> (ip6addr option \<Rightarrow> ip6addr \<Rightarrow> u16) \<Rightarrow> ip6addr \<Rightarrow> ds6_op \<Rightarrow> ds6_sys \<Rightarrow> ds6_sys option" where
  "ds6_exec other ns_len null_bytes (Route_lookup a) s = do { (r, d) \<leftarrow> uip_ds6_route_lookup a (nbr_user s); Some (s\<lparr>nbr_user := d\<rparr>) }"
| "ds6_exec other ns_len null_bytes (Route_add a l nexthop) s = do { (r, s) \<leftarrow> uip_ds6_route_add other null_bytes a l nexthop s; Some s }"
| "ds6_exec other ns_len null_bytes (Route_rm n) s = uip_ds6_route_rm (nth_route (nbr_user s) n) s"
| "ds6_exec other ns_len null_bytes (Route_rm_by_nexthop nexthop) s = uip_ds6_route_rm_by_nexthop nexthop s"
| "ds6_exec other ns_len null_bytes (Nbr_add now a lladdr isrouter state) s =
     do { (nbr, s) \<leftarrow> uip_ds6_nbr_add other now a (Some lladdr) isrouter state s; Some s }"
| "ds6_exec other ns_len null_bytes (Nbr_rm a) s = do { nbr \<leftarrow> uip_ds6_nbr_lookup s a; Some (uip_ds6_nbr_rm nbr s) }"
| "ds6_exec other ns_len null_bytes (Nbr_periodic now) s = uip_ds6_neighbor_periodic ns_len now s"
| "ds6_exec other ns_len null_bytes (Defrt_add now a interval) s =
     lift (\<lambda>d. do { (p, d) \<leftarrow> uip_ds6_defrt_add now a interval d; Some d }) s"
| "ds6_exec other ns_len null_bytes (Defrt_rm a) s = lift (\<lambda>d. do { p \<leftarrow> uip_ds6_defrt_lookup a d; uip_ds6_defrt_rm p d }) s"
| "ds6_exec other ns_len null_bytes (Defrt_periodic now) s = lift (uip_ds6_defrt_periodic now) s"
| "ds6_exec other ns_len null_bytes (Uip_len len) s = Some (upd (\<lambda>d. d\<lparr>ds6_uip_len := len\<rparr>) s)"

fun ds6_op_ok :: "ds6_op \<Rightarrow> bool" where
  "ds6_op_ok (Route_add a l nexthop) \<longleftrightarrow> l \<le> 128"
| "ds6_op_ok _ \<longleftrightarrow> True"

text \<open>The routing table, as a client sees it that goes through the routes.\<close>

definition route_table :: "ds6_sys \<Rightarrow> route_entry list" where
  "route_table s = map (\<lambda>n. route_entry s (nth_route (nbr_user s) n)) [0..<unat (uip_ds6_route_num_routes (nbr_user s))]"

definition routers :: "ds6_sys \<Rightarrow> router_entry list" where
  "routers s = router_table (nbr_user s)"

definition known_lladdr :: "ds6_sys \<Rightarrow> linkaddr \<Rightarrow> bool" where
  "known_lladdr s a \<longleftrightarrow> index_from_lladdr s (Some a) \<noteq> Some (- 1)"

text \<open>What an operation does to the routing table, the neighbor cache and the default routers.\<close>

fun ds6_spec :: "(ip6addr option \<Rightarrow> ip6addr \<Rightarrow> u16) \<Rightarrow> ip6addr \<Rightarrow> ds6_sys \<Rightarrow> ds6_op \<Rightarrow> ds6_sys \<Rightarrow> bool" where
  "ds6_spec ns_len null_bytes s (Route_lookup a) s' \<longleftrightarrow>
     (\<exists>found. lookup_spec a (route_table s) found (route_table s')) \<and> neighbor_cache s' = neighbor_cache s \<and> routers s' = routers s"
| "ds6_spec ns_len null_bytes s (Route_add a l nexthop) s' \<longleftrightarrow>
     (case uip_ds6_nbr_lladdr_from_ipaddr s (Some nexthop) of
        Some (Some nh) \<Rightarrow> add_spec (unat (mnum (routememb (nbr_user s)))) a l nh (\<lambda>e. nexthop = hop_address s null_bytes e)
          (route_table s) (route_table s')
      | _ \<Rightarrow> route_table s' = route_table s) \<and> neighbor_cache s' = neighbor_cache s \<and> routers s' = routers s"
| "ds6_spec ns_len null_bytes s (Route_rm n) s' \<longleftrightarrow>
     route_table s' = take n (route_table s) @ drop (Suc n) (route_table s) \<and> neighbor_cache s' = neighbor_cache s \<and> routers s' = routers s"
| "ds6_spec ns_len null_bytes s (Route_rm_by_nexthop nexthop) s' \<longleftrightarrow>
     route_table s' = filter (\<lambda>e. snd (snd e) \<noteq>
       (case uip_ds6_nbr_lladdr_from_ipaddr s nexthop of Some (Some nh) \<Rightarrow> nh | _ \<Rightarrow> linkaddr_null)) (route_table s) \<and>
     neighbor_cache s' = neighbor_cache s \<and> routers s' = routers s"
| "ds6_spec ns_len null_bytes s (Nbr_add now a lladdr isrouter state) s' \<longleftrightarrow>
     route_table s' = filter (\<lambda>e. known_lladdr s' (snd (snd e))) (route_table s) \<and>
     (s' = s \<or> uip_ds6_nbr_ipaddr_from_lladdr s' (Some lladdr) = Some (Some a))"
| "ds6_spec ns_len null_bytes s (Nbr_rm a) s' \<longleftrightarrow>
     route_table s' = route_table s \<and> routers s' = routers s \<and>
     neighbor_cache s' = (case a of None \<Rightarrow> neighbor_cache s | Some a \<Rightarrow> without_first (\<lambda>e. v_ipaddr e = a) (neighbor_cache s))"
| "ds6_spec ns_len null_bytes s (Nbr_periodic now) s' \<longleftrightarrow>
     route_table s' = route_table s \<and>
     (neighbor_cache s', routers s', ds6_uip_len (nbr_user s')) =
       nud_entries ns_len now (retrans_timer (nbr_user s)) (neighbor_cache s) (routers s) (ds6_uip_len (nbr_user s))"
| "ds6_spec ns_len null_bytes s (Defrt_add now a interval) s' \<longleftrightarrow>
     route_table s' = route_table s \<and> neighbor_cache s' = neighbor_cache s \<and>
     routers s' = defrt_add_spec (unat (mnum (defaultroutermemb (nbr_user s)))) a (router_lifetime now interval) (routers s)"
| "ds6_spec ns_len null_bytes s (Defrt_rm a) s' \<longleftrightarrow>
     route_table s' = route_table s \<and> neighbor_cache s' = neighbor_cache s \<and> routers s' = filter (\<lambda>r. fst r \<noteq> a) (routers s)"
| "ds6_spec ns_len null_bytes s (Defrt_periodic now) s' \<longleftrightarrow>
     route_table s' = route_table s \<and> neighbor_cache s' = neighbor_cache s \<and>
     routers s' = filter (\<lambda>r. \<not> router_expired now r) (routers s)"
| "ds6_spec ns_len null_bytes s (Uip_len len) s' \<longleftrightarrow>
     route_table s' = route_table s \<and> neighbor_cache s' = neighbor_cache s \<and> routers s' = routers s \<and> ds6_uip_len (nbr_user s') = len"

section \<open>Neighbors\<close>

lemma get_from_lladdr_upd:
  assumes "nbr_inv s ks"
  shows "nbr_table_get_from_lladdr (upd f s) t a = nbr_table_get_from_lladdr s t a"
proof -
  have i: "nbr_inv (upd f s) ks" using assms by (simp add: nbr_inv_def upd_def)
  have "index_from_lladdr (upd f s) a = index_from_lladdr s a"
    unfolding index_from_lladdr_eq [OF i] index_from_lladdr_eq [OF assms] by (simp add: key_of_def upd_def split: option.split)
  moreover have "tables (upd f s) = tables s" "used_map (upd f s) = used_map s" by (simp_all add: upd_def)
  ultimately show ?thesis unfolding nbr_table_get_from_lladdr_def nbr_get_bit_def index_from_item_def item_from_index_def by (simp only:)
qed

lemma nbr_add_ok:
  assumes ok: "routes_ok s ks rs" and reg: "callbacks_registered s" and o: "others_ok other"
  shows "\<exists>nbr s' ks' rs'. uip_ds6_nbr_add other now ip (Some a) isrouter st s = Some (nbr, s') \<and> routes_ok s' ks' rs' \<and>
    callbacks_registered s' \<and> map (route_entry s') rs' = routes_through s' ks' (map (route_entry s) rs) \<and>
    (if nbr = NULL then s' = s \<and> unlocked s ks = [] \<and> length ks = nbrs s
     else add_order s ks a ks' \<and> nbr_table_get_from_lladdr s' ds6_neighbors (Some a) = Some nbr \<and> nbr_ipaddr (nbr_user s') nbr = ip)"
  using add_neighbor_ok [OF ok reg o, of a]
proof (elim disjE exE conjE)
  assume n: "nbr_table_add_lladdr (ds6_callback other) s ds6_neighbors (Some a) = Some (NULL, s)" "unlocked s ks = []" "length ks = nbrs s"
  have "routes_through s ks (map (route_entry s) rs) = map (route_entry s) rs"
    unfolding routes_through_def using hop_known [OF ok] by (intro filter_True) blast
  then show ?thesis using n ok reg by (intro exI [of _ NULL] exI [of _ s] exI [of _ ks] exI [of _ rs]) (simp add: uip_ds6_nbr_add_def)
next
  fix item s1 ks' rs'
  assume n: "nbr_table_add_lladdr (ds6_callback other) s ds6_neighbors (Some a) = Some (item, s1)" "item \<noteq> NULL"
    "routes_ok s1 ks' rs'" "add_order s ks a ks'" "tables s1 = tables s" "all_tables s1 = all_tables s"
    "nbr_table_get_from_lladdr s1 ds6_neighbors (Some a) = Some item" "map (route_entry s1) rs' = routes_through s1 ks' (map (route_entry s) rs)"
  define f where "f d = (let d = d\<lparr>nbr_ipaddr := (nbr_ipaddr d)(item := ip), nbr_isrouter := (nbr_isrouter d)(item := isrouter),
                   nbr_state := (nbr_state d)(item := st)\<rparr>;
             d = uip_packetqueue_new item d;
             d = d\<lparr>nbr_reachable := (nbr_reachable d)(item := stimer_set now 0 (nbr_reachable d item)),
                   nbr_sendns := (nbr_sendns d)(item := stimer_set now 0 (nbr_sendns d item)),
                   nbr_nscount := (nbr_nscount d)(item := 0)\<rparr>
         in ds6_call (Neighbor_state_changed item) d)" for d
  have "uip_ds6_nbr_add other now ip (Some a) isrouter st s = Some (item, upd f s1)"
    using n(1,2) by (simp add: uip_ds6_nbr_add_def f_def [abs_def])
  moreover have "same_route_data d (f d)" for d
    by (simp add: f_def same_route_data_def lists_ok_def routers_rep_def ds6_call_eq uip_packetqueue_new_def)
  then have "spares_routes s1 (upd f s1)" by (rule spares_user)
  from spares_routes_ok [OF this n(3)] have "routes_ok (upd f s1) ks' rs'" "route_entry (upd f s1) = route_entry s1" by simp_all
  moreover have "callbacks_registered (upd f s1)" using reg n(5,6) by (simp add: callbacks_registered_def upd_def)
  moreover have "nbr_ipaddr (nbr_user (upd f s1)) item = ip" by (simp add: f_def ds6_call_eq uip_packetqueue_new_def)
  moreover have "nbr_inv s1 ks'" using n(3) by (simp add: routes_ok_def tables_ok_def)
  from get_from_lladdr_upd [OF this, of f ds6_neighbors "Some a"]
  have "nbr_table_get_from_lladdr (upd f s1) ds6_neighbors (Some a) = Some item" using n(7) by simp
  moreover have "routes_through (upd f s1) = routes_through s1" by (simp add: upd_def routes_through_def fun_eq_iff)
  ultimately show ?thesis using n(2,4,8) by (intro exI [of _ item] exI [of _ "upd f s1"] exI [of _ ks'] exI [of _ rs']) simp
qed

lemma nbr_rm_ok:
  assumes ok: "routes_ok s ks rs"
  shows "routes_ok (uip_ds6_nbr_rm nbr s) ks rs" "route_entry (uip_ds6_nbr_rm nbr s) = route_entry s"
    "shrunk s (uip_ds6_nbr_rm nbr s)"
proof -
  have "nt_index (tables s ds6_neighbors) \<noteq> nt_index (tables s nbr_routes)" using ok by (simp add: routes_ok_def tables_ok_def)
  then have sp: "spares_routes s (uip_ds6_nbr_rm nbr s)" by (rule nbr_rm_spares)
  then show "routes_ok (uip_ds6_nbr_rm nbr s) ks rs" "route_entry (uip_ds6_nbr_rm nbr s) = route_entry s"
    "shrunk s (uip_ds6_nbr_rm nbr s)" using spares_routes_ok [OF sp ok] by (simp_all add: spares_routes_def)
qed

section \<open>Every operation\<close>

lemma registered_rebound: "rebound t s s' \<Longrightarrow> callbacks_registered s \<Longrightarrow> callbacks_registered s'"
  by (simp add: rebound_def callbacks_registered_def)

lemma registered_shrunk: "shrunk s s' \<Longrightarrow> callbacks_registered s \<Longrightarrow> callbacks_registered s'"
  by (simp add: shrunk_def callbacks_registered_def)

lemma lookup_all:
  assumes "nbr_inv s ks" "table_ok s ds6_neighbors"
  shows "\<exists>nbr. uip_ds6_nbr_lookup s a = Some nbr"
  using nbr_lookup_eq [OF assms] head_chain [OF assms] by (cases a) (auto simp: uip_ds6_nbr_lookup_def)

lemma resolve_all:
  assumes "nbr_inv s ks" "table_ok s ds6_neighbors"
  shows "\<exists>x. uip_ds6_nbr_lladdr_from_ipaddr s a = Some x"
  using lookup_all [OF assms, of a] by (auto simp: uip_ds6_nbr_lladdr_from_ipaddr_def)

lemma nth_route_chain:
  "lchain nx p rs \<Longrightarrow> nx = lnext (route_heap d) \<Longrightarrow> nth_route d k = p \<Longrightarrow>
     nth_route d (n + k) = (if n < length rs then rs ! n else NULL)"
proof (induction rs arbitrary: p k n)
  case Nil
  then have "nth_route d (n + k) = NULL" by (induction n) (simp_all add: uip_ds6_route_next_def)
  then show ?case by simp
next
  case (Cons r rs)
  show ?case
  proof (cases n)
    case 0
    then show ?thesis using Cons.prems by simp
  next
    case (Suc m)
    have "nth_route d (Suc k) = nx r" using Cons.prems by (simp add: uip_ds6_route_next_def list_item_next_def)
    then have "nth_route d (m + Suc k) = (if m < length rs then rs ! m else NULL)"
      using Cons.prems by (intro Cons.IH [of "nx r"]) simp_all
    then show ?thesis using Suc by simp
  qed
qed

lemma nth_route_eq:
  assumes "routes_ok s ks rs"
  shows "nth_route (nbr_user s) n = (if n < length rs then rs ! n else NULL)"
proof -
  have "lchain (lnext (route_heap (nbr_user s))) (uip_ds6_route_head (nbr_user s)) rs"
    using routes_ok_facts(1) [OF assms] by (simp add: is_list_def list_head_def uip_ds6_route_head_def)
  from nth_route_chain [OF this refl, of 0 n] show ?thesis by simp
qed

lemma route_table_eq:
  assumes "routes_ok s ks rs"
  shows "route_table s = map (route_entry s) rs"
proof -
  have n: "unat (num_routes (nbr_user s)) = length rs"
    using routes_ok_facts(2,3) [OF assms] unat_less_u16 [of "mnum (routememb (nbr_user s))"] by (simp add: unat_of_nat)
  have "map (\<lambda>n. route_entry s (nth_route (nbr_user s) n)) [0..<length rs] = map (\<lambda>n. route_entry s (rs ! n)) [0..<length rs]"
    using nth_route_eq [OF assms] by (intro map_cong refl) simp
  also have "\<dots> = map (route_entry s) (map ((!) rs) [0..<length rs])" by (simp add: o_def)
  finally show ?thesis by (simp add: route_table_def uip_ds6_route_num_routes_def n map_nth)
qed

lemma known_lladdr_iff:
  assumes "nbr_inv s ks"
  shows "known_lladdr s a \<longleftrightarrow> a \<in> key_lladdr s ` set ks"
proof (cases "key_of s ks a")
  case None
  then show ?thesis using key_of_None [of s ks a] index_from_lladdr_eq [OF assms] by (simp add: known_lladdr_def)
next
  case (Some k)
  then have k: "k \<in> set ks" "key_lladdr s k = a" using key_of_Some [of s ks a k] by simp_all
  obtain i where "index_from_key s k = int i" by (rule live_index [OF assms k(1)])
  then show ?thesis using Some k index_from_lladdr_eq [OF assms] by (auto simp: known_lladdr_def)
qed

lemma routes_through_known:
  assumes "routes_ok s ks rs"
  shows "routes_through s ks = filter (\<lambda>e. known_lladdr s (snd (snd e)))"
  using known_lladdr_iff [of s ks] assms by (simp add: routes_through_def routes_ok_def tables_ok_def fun_eq_iff)

lemma rm_nth_ok:
  assumes ok: "routes_ok s ks rs"
  shows "\<exists>s'. uip_ds6_route_rm (nth_route (nbr_user s) n) s = Some s' \<and> routes_ok s' ks (take n rs @ drop (Suc n) rs) \<and> route_step s s' \<and>
    map (route_entry s') (take n rs @ drop (Suc n) rs) = take n (map (route_entry s) rs) @ drop (Suc n) (map (route_entry s) rs)"
proof (cases "n < length rs")
  case True
  have "rs = take n rs @ rs ! n # drop (Suc n) rs" by (rule id_take_nth_drop [OF True])
  from route_rm_entries [OF ok this] show ?thesis using True nth_route_eq [OF ok, of n] by (simp add: take_map drop_map)
next
  case False
  then have "uip_ds6_route_rm (nth_route (nbr_user s) n) s = Some s" using nth_route_eq [OF ok, of n] by (simp add: uip_ds6_route_rm_def Let_def)
  then show ?thesis using ok False by (intro exI [of _ s]) simp
qed

text \<open>The lemmas on routes give the other tables, those on neighbors and routers give the routes.\<close>

lemma routers_exist:
  assumes "routes_ok s ks rs"
  obtains ds where "routers_rep (nbr_user s) ds"
  using assms by (auto simp: routes_ok_def lists_ok_def)

lemma route_step_tables:
  assumes "routes_ok s ks rs" "routes_ok s' ks rs'" "route_step s s'"
  shows "neighbor_cache s' = neighbor_cache s" "routers s' = routers s"
proof -
  have t: "nbr_inv s ks" "table_ok s ds6_neighbors" "nt_index (tables s ds6_neighbors) \<noteq> nt_index (tables s nbr_routes)"
    and t': "nbr_inv s' ks" "table_ok s' ds6_neighbors" using assms(1,2) by (simp_all add: routes_ok_def tables_ok_def)
  have rb: "rebound nbr_routes s s'" and rp: "route_part (nbr_user s) (nbr_user s')" using assms(3) by (simp_all add: route_step_def)
  have "nbr_entry s' n = nbr_entry s n" for n
    using rp rebound_same(2,5) [OF rb] by (simp add: nbr_entry_def route_part_def Let_def)
  then show "neighbor_cache s' = neighbor_cache s"
    unfolding neighbor_cache_eq [OF t(1,2)] neighbor_cache_eq [OF t'] rebound_other(1) [OF rb t(1,3)] by simp
  obtain ds where ds: "routers_rep (nbr_user s) ds" by (rule routers_exist [OF assms(1)])
  have "routers_rep (nbr_user s') ds" using ds rp by (simp add: routers_rep_def route_part_def)
  moreover have "router_entry (nbr_user s') p = router_entry (nbr_user s) p" for p
    using rp by (simp add: router_entry_def route_part_def)
  ultimately show "routers s' = routers s" using router_table_eq [OF ds] router_table_eq [of "nbr_user s'" ds] by (simp add: routers_def)
qed

lemma spares_tables:
  assumes "routes_ok s ks rs" "spares_routes s s'"
  shows "routes_ok s' ks rs" "route_table s' = route_table s"
proof -
  show ok: "routes_ok s' ks rs" by (rule spares_routes_ok(1) [OF assms(2,1)])
  show "route_table s' = route_table s"
    unfolding route_table_eq [OF ok] route_table_eq [OF assms(1)] spares_routes_ok(2) [OF assms(2,1)] ..
qed

lemma router_step_tables:
  assumes ok: "routes_ok s ks rs" and st: "router_step (nbr_user s) d"
  shows "routes_ok (s\<lparr>nbr_user := d\<rparr>) ks rs" "route_table (s\<lparr>nbr_user := d\<rparr>) = route_table s"
    "neighbor_cache (s\<lparr>nbr_user := d\<rparr>) = neighbor_cache s"
proof -
  note sp = router_step_spares [OF st]
  show "routes_ok (s\<lparr>nbr_user := d\<rparr>) ks rs" "route_table (s\<lparr>nbr_user := d\<rparr>) = route_table s" using spares_tables [OF ok sp] .
  have t: "nbr_inv s ks" "table_ok s ds6_neighbors" using ok by (simp_all add: routes_ok_def tables_ok_def)
  show "neighbor_cache (s\<lparr>nbr_user := d\<rparr>) = neighbor_cache s"
    using neighbor_cache_eq [OF t] neighbor_cache_eq [OF spares_same(2) [OF sp t(1)]] spares_same(3) [OF sp] t(2) router_step_entry [OF st] by simp
qed

text \<open>An operation that returns a consistent state and meets its specification.\<close>

definition ds6_ok :: "ds6_sys \<Rightarrow> bool" where
  "ds6_ok s \<longleftrightarrow> (\<exists>ks rs. routes_ok s ks rs) \<and> callbacks_registered s"

definition step_ok :: "ds6 nbr_callback \<Rightarrow> (ip6addr option \<Rightarrow> ip6addr \<Rightarrow> u16) \<Rightarrow> ip6addr \<Rightarrow> ds6_op \<Rightarrow> ds6_sys \<Rightarrow> bool" where
  "step_ok other ns_len null_bytes op s \<longleftrightarrow>
     (\<exists>s'. ds6_exec other ns_len null_bytes op s = Some s' \<and> ds6_ok s' \<and> ds6_spec ns_len null_bytes s op s')"

lemma step_okI:
  assumes "ds6_exec other ns_len null_bytes op s = Some s'" "routes_ok s' ks' rs'" "callbacks_registered s'" "ds6_spec ns_len null_bytes s op s'"
  shows "step_ok other ns_len null_bytes op s"
  using assms by (auto simp: step_ok_def ds6_ok_def)

lemma registered_step: "route_step s s' \<Longrightarrow> callbacks_registered s \<Longrightarrow> callbacks_registered s'"
  by (rule registered_rebound [of nbr_routes]) (simp_all add: route_step_def)

lemma route_op_ok:
  assumes ok: "routes_ok s ks rs" and reg: "callbacks_registered s" and op: "ds6_op_ok op"
    and o: "op = Route_lookup a \<or> op = Route_add a l nexthop \<or> op = Route_rm n \<or> op = Route_rm_by_nexthop hop"
  shows "step_ok other ns_len nb op s"
  using o
proof (elim disjE)
  have t: "nbr_inv s ks" "table_ok s ds6_neighbors" using ok by (simp_all add: routes_ok_def tables_ok_def)
  {
    assume o: "op = Route_lookup a"
    obtain r d rs' where r: "uip_ds6_route_lookup a (nbr_user s) = Some (r, d)" "routes_ok (s\<lparr>nbr_user := d\<rparr>) ks rs'"
      "route_found (nbr_user s) a rs r rs'" "route_step s (s\<lparr>nbr_user := d\<rparr>)" "same_routes (nbr_user s) d"
      using routes_ok_lookup [OF ok, of a] by blast
    have "route_entry (s\<lparr>nbr_user := d\<rparr>) = route_entry s" by (rule route_entry_step [OF r(4)]) (use r(5) in simp)
    then have "\<exists>found. lookup_spec a (route_table s) found (route_table (s\<lparr>nbr_user := d\<rparr>))"
      using route_found_spec [OF r(3) routes_ok_facts(5) [OF ok]] route_table_eq [OF ok] route_table_eq [OF r(2)] by auto
    then show ?thesis using r(1) route_step_tables [OF ok r(2,4)] o
      by (intro step_okI [OF _ r(2) registered_step [OF r(4) reg]]) simp_all
  next
    assume o: "op = Route_add a l nexthop"
    then have l: "l \<le> 128" using op by simp
    obtain x where x: "uip_ds6_nbr_lladdr_from_ipaddr s (Some nexthop) = Some x" using resolve_ok [OF t, of nexthop] by blast
    show ?thesis
    proof (cases x)
      case None
      then have "uip_ds6_route_add other nb a l nexthop s = Some (NULL, s)" using x by (simp add: uip_ds6_route_add_def)
      then show ?thesis using o x None by (intro step_okI [OF _ ok reg]) simp_all
    next
      case (Some nh)
      obtain r s' rs' where s': "uip_ds6_route_add other nb a l nexthop s = Some (r, s')" "routes_ok s' ks (r # rs')" "route_step s s'"
        "add_spec (unat (mnum (routememb (nbr_user s)))) a l nh (\<lambda>e. nexthop = hop_address s nb e) (map (route_entry s) rs) (map (route_entry s') (r # rs'))"
        using route_add_ok [OF ok l x [unfolded Some], of other nb a] by blast
      show ?thesis using s'(1,4) o x Some route_step_tables [OF ok s'(2,3)] unfolding route_table_eq [OF ok, symmetric] route_table_eq [OF s'(2), symmetric]
        by (intro step_okI [OF _ s'(2) registered_step [OF s'(3) reg]]) simp_all
    qed
  next
    assume o: "op = Route_rm n"
    obtain s' where s': "uip_ds6_route_rm (nth_route (nbr_user s) n) s = Some s'" "routes_ok s' ks (take n rs @ drop (Suc n) rs)" "route_step s s'"
      "map (route_entry s') (take n rs @ drop (Suc n) rs) = take n (map (route_entry s) rs) @ drop (Suc n) (map (route_entry s) rs)"
      using rm_nth_ok [OF ok] by blast
    show ?thesis using s'(1,4) o route_step_tables [OF ok s'(2,3)] unfolding route_table_eq [OF ok, symmetric] route_table_eq [OF s'(2), symmetric]
      by (intro step_okI [OF _ s'(2) registered_step [OF s'(3) reg]]) simp_all
  next
    assume o: "op = Route_rm_by_nexthop hop"
    obtain x where x: "uip_ds6_nbr_lladdr_from_ipaddr s hop = Some x" using resolve_all [OF t, of hop] by blast
    obtain s' rs' where s': "uip_ds6_route_rm_by_nexthop hop s = Some s'" "routes_ok s' ks rs'" "route_step s s'"
      "map (route_entry s') rs' = filter (\<lambda>e. snd (snd e) \<noteq> (case x of None \<Rightarrow> linkaddr_null | Some l \<Rightarrow> l)) (map (route_entry s) rs)"
      using route_rm_by_nexthop_ok [OF ok x] by blast
    show ?thesis using s'(1,4) o x route_step_tables [OF ok s'(2,3)] unfolding route_table_eq [OF ok, symmetric] route_table_eq [OF s'(2), symmetric]
      by (intro step_okI [OF _ s'(2) registered_step [OF s'(3) reg]]) (simp_all split: option.splits)
  }
qed

lemma router_op_ok:
  assumes ok: "routes_ok s ks rs" and reg: "callbacks_registered s"
    and o: "op = Defrt_add now a interval \<or> op = Defrt_rm a \<or> op = Defrt_periodic now \<or> op = Uip_len len"
  shows "step_ok other ns_len nb op s"
proof -
  obtain ds where ds: "routers_rep (nbr_user s) ds" by (rule routers_exist [OF ok])
  have lists: "lists_ok (nbr_user s)" using ok by (simp add: routes_ok_def)
  have inj: "inj_on (defrt_ipaddr (nbr_user s)) (set ds)" using ds by (simp add: routers_rep_def)
  have rt: "routers s = map (router_entry (nbr_user s)) ds" using router_table_eq [OF ds] by (simp add: routers_def)
  have rtd: "routers (s\<lparr>nbr_user := d\<rparr>) = map (router_entry d) ds'" if "routers_rep d ds'" for d ds'
    using router_table_eq [OF that] by (simp add: routers_def)
  have reg': "callbacks_registered (s\<lparr>nbr_user := d\<rparr>)" for d using reg by (simp add: callbacks_registered_def)
  have fin: "step_ok other ns_len nb op s"
    if "ds6_exec other ns_len nb op s = Some (s\<lparr>nbr_user := d\<rparr>)" "router_step (nbr_user s) d" "ds6_spec ns_len nb s op (s\<lparr>nbr_user := d\<rparr>)" for d
    by (rule step_okI [OF that(1) router_step_tables(1) [OF ok that(2)] reg' that(3)])
  from o show ?thesis
  proof (elim disjE)
    assume o: "op = Defrt_add now a interval"
    obtain p d ds' where d: "uip_ds6_defrt_add now a interval (nbr_user s) = Some (p, d)" "routers_rep d ds'" "router_step (nbr_user s) d"
      "map (router_entry d) ds' = defrt_add_spec (unat (mnum (defaultroutermemb (nbr_user s)))) a (router_lifetime now interval) (map (router_entry (nbr_user s)) ds)"
      using defrt_add_ok [OF ds lists, of now a interval] by blast
    show ?thesis using d(1,4) rt rtd [OF d(2)] router_step_tables(2,3) [OF ok d(3)] by (intro fin [OF _ d(3)]) (simp_all add: o lift_def)
  next
    assume o: "op = Defrt_rm a"
    show ?thesis
    proof (cases "find (\<lambda>p. defrt_ipaddr (nbr_user s) p = a) ds")
      case None
      have e: "routers s = filter (\<lambda>r. fst r \<noteq> a) (routers s)"
        unfolding rt by (rule filter_True [symmetric]) (use None in \<open>auto simp: find_None_iff router_entry_def\<close>)
      have "uip_ds6_defrt_rm NULL (nbr_user s) = Some (nbr_user s)"
      proof -
        have "defrt_rm_loop NULL q (nbr_user s) = Some (nbr_user s)" if "lchain (lnext (defrt_heap (nbr_user s))) q qs" for q qs
          using that by (induction qs arbitrary: q) (subst defrt_rm_loop.simps; auto simp: list_item_next_def)+
        then show ?thesis using routers_facts(1) [OF ds] by (simp add: uip_ds6_defrt_rm_def)
      qed
      then have "ds6_exec other ns_len nb op s = Some s" using defrt_lookup_eq [OF ds, of a] None by (simp add: o lift_def)
      then show ?thesis using e by (intro step_okI [OF _ ok reg]) (simp_all add: o)
    next
      case (Some p)
      then have p: "p \<in> set ds" "defrt_ipaddr (nbr_user s) p = a" using find_router [OF inj] by simp_all
      obtain d where d: "uip_ds6_defrt_rm p (nbr_user s) = Some d" "routers_rep d (remove1 p ds)" "router_step (nbr_user s) d"
        "router_entry d = router_entry (nbr_user s)" using defrt_rm_ok [OF ds lists p(1)] by blast
      have "routers (s\<lparr>nbr_user := d\<rparr>) = filter (\<lambda>r. fst r \<noteq> a) (routers s)"
        unfolding rtd [OF d(2)] d(4) rt remove_router [OF inj routers_facts(2) [OF ds] p(1)] p(2) ..
      then show ?thesis using d(1) defrt_lookup_eq [OF ds, of a] Some router_step_tables(2,3) [OF ok d(3)]
        by (intro fin [OF _ d(3)]) (simp_all add: o lift_def)
    qed
  next
    assume o: "op = Defrt_periodic now"
    obtain d where d: "uip_ds6_defrt_periodic now (nbr_user s) = Some d"
      "routers_rep d (filter (\<lambda>p. \<not> router_expired now (router_entry (nbr_user s) p)) ds)" "router_step (nbr_user s) d"
      "router_entry d = router_entry (nbr_user s)" using defrt_periodic_ok [OF ds lists] by blast
    have "routers (s\<lparr>nbr_user := d\<rparr>) = filter (\<lambda>r. \<not> router_expired now r) (routers s)"
      unfolding rtd [OF d(2)] d(4) rt filter_map o_def ..
    then show ?thesis using d(1) router_step_tables(2,3) [OF ok d(3)] by (intro fin [OF _ d(3)]) (simp_all add: o lift_def)
  next
    assume o: "op = Uip_len len"
    define f where "f d = d\<lparr>ds6_uip_len := len\<rparr>" for d :: ds6
    have f: "routers_rep (f d) ds = routers_rep d ds" "router_entry (f d) = router_entry d" "same_route_data d (f d)" for d ds
      by (simp_all add: f_def routers_rep_def router_entry_def fun_eq_iff same_route_data_def lists_ok_def)
    have sp: "spares_routes s (upd f s)" by (rule spares_user) (rule f(3))
    have t: "nbr_inv s ks" "table_ok s ds6_neighbors" using ok by (simp_all add: routes_ok_def tables_ok_def)
    have it: "items (upd f s) ds6_neighbors ks = items s ds6_neighbors ks" by simp
    have "nbr_entry (upd f s) n = nbr_entry s n" for n
      by (simp add: nbr_entry_def f_def Let_def upd_def key_from_item_def index_from_item_def key_from_index_def)
    then have nc: "neighbor_cache (upd f s) = neighbor_cache s"
      using neighbor_cache_eq [OF t] neighbor_cache_eq [OF spares_same(2) [OF sp t(1)]] spares_same(3) [OF sp] t(2) it by simp
    have "routers (upd f s) = routers s" using rtd [of "f (nbr_user s)" ds] ds f rt by (simp add: upd_def)
    then show ?thesis using nc spares_tables [OF ok sp] reg' [of "f (nbr_user s)"]
      by (intro step_okI [of _ _ _ _ _ "upd f s"]) (simp_all add: o f_def upd_def)
  qed
qed

lemma neighbor_op_ok:
  assumes ok: "routes_ok s ks rs" and reg: "callbacks_registered s" and oth: "others_ok other"
    and o: "op = Nbr_add now ip a isrouter st \<or> op = Nbr_rm ipo \<or> op = Nbr_periodic now"
  shows "step_ok other ns_len nb op s"
proof -
  have t: "nbr_inv s ks" "table_ok s ds6_neighbors" "nt_index (tables s ds6_neighbors) \<noteq> nt_index (tables s nbr_routes)"
    using ok by (simp_all add: routes_ok_def tables_ok_def)
  obtain ds where ds: "routers_rep (nbr_user s) ds" by (rule routers_exist [OF ok])
  have reg': "callbacks_registered s'" if "spares_routes s s'" for s'
    by (rule registered_shrunk [OF _ reg]) (use that in \<open>simp add: spares_routes_def\<close>)
  from o show ?thesis
  proof (elim disjE)
    assume o: "op = Nbr_add now ip a isrouter st"
    obtain nbr s' ks' rs' where n: "uip_ds6_nbr_add other now ip (Some a) isrouter st s = Some (nbr, s')" "routes_ok s' ks' rs'"
      "callbacks_registered s'" "map (route_entry s') rs' = routes_through s' ks' (map (route_entry s) rs)"
      "if nbr = NULL then s' = s \<and> unlocked s ks = [] \<and> length ks = nbrs s
       else add_order s ks a ks' \<and> nbr_table_get_from_lladdr s' ds6_neighbors (Some a) = Some nbr \<and> nbr_ipaddr (nbr_user s') nbr = ip"
      using nbr_add_ok [OF ok reg oth, of now ip a isrouter st] by (elim exE conjE) (rule that; assumption)
    have "s' = s \<or> uip_ds6_nbr_ipaddr_from_lladdr s' (Some a) = Some (Some ip)"
      using n(5) by (auto simp: uip_ds6_nbr_ipaddr_from_lladdr_def uip_ds6_nbr_ll_lookup_def split: if_splits)
    then show ?thesis using n(1,4) route_table_eq [OF ok] route_table_eq [OF n(2)] routes_through_known [OF n(2)]
      by (intro step_okI [OF _ n(2,3)]) (simp_all add: o)
  next
    assume o: "op = Nbr_rm ipo"
    obtain nbr where nbr: "uip_ds6_nbr_lookup s ipo = Some nbr" using lookup_all [OF t(1,2), of ipo] by blast
    have sp: "spares_routes s (uip_ds6_nbr_rm nbr s)" by (rule nbr_rm_spares [OF t(3)])
    have "neighbor_cache (uip_ds6_nbr_rm nbr s) = (case ipo of None \<Rightarrow> neighbor_cache s | Some a \<Rightarrow> without_first (\<lambda>e. v_ipaddr e = a) (neighbor_cache s))"
    proof (cases ipo)
      case None
      then have "nbr = NULL" using nbr by (auto simp: uip_ds6_nbr_lookup_def bind_eq_Some_conv)
      then show ?thesis using None by (simp add: uip_ds6_nbr_rm_def)
    next
      case (Some a)
      then show ?thesis using nbr nbr_rm_by_address [OF ok, of a] by auto
    qed
    moreover have "routers (uip_ds6_nbr_rm nbr s) = routers s"
      using router_table_eq [OF ds] router_table_eq [of "nbr_user (uip_ds6_nbr_rm nbr s)" ds] ds by (simp add: routers_def nbr_rm_user)
    ultimately show ?thesis using nbr spares_tables [OF ok sp] reg' [OF sp]
      by (intro step_okI [of _ _ _ _ _ "uip_ds6_nbr_rm nbr s"]) (simp_all add: o)
  next
    assume o: "op = Nbr_periodic now"
    obtain s' where s': "uip_ds6_neighbor_periodic ns_len now s = Some s'" "nud_rest ns_len now s ds [] ks s'"
      using neighbor_periodic_ok [OF ok ds] by blast
    have sp: "spares_routes s s'" using s'(2) by (simp add: nud_rest_def)
    have t': "nbr_inv s' ks" "table_ok s' ds6_neighbors" using spares_same(2,3) [OF sp] t by simp_all
    obtain ds' where ds': "routers_rep (nbr_user s') ds'"
      "nud_entries ns_len now (retrans_timer (nbr_user s)) (map (nbr_entry s) (items s ds6_neighbors ks))
            (map (router_entry (nbr_user s)) ds) (ds6_uip_len (nbr_user s)) =
          (map (nbr_entry s') (items s' ds6_neighbors ks), map (router_entry (nbr_user s')) ds', ds6_uip_len (nbr_user s'))"
      using s'(2) unfolding nud_rest_def by blast
    have "(neighbor_cache s', routers s', ds6_uip_len (nbr_user s')) =
       nud_entries ns_len now (retrans_timer (nbr_user s)) (neighbor_cache s) (routers s) (ds6_uip_len (nbr_user s))"
      unfolding neighbor_cache_eq [OF t'] neighbor_cache_eq [OF t(1,2)] routers_def router_table_eq [OF ds] router_table_eq [OF ds'(1)]
      by (rule ds'(2) [symmetric])
    then show ?thesis using s'(1) spares_tables [OF ok sp] reg' [OF sp]
      by (intro step_okI [of _ _ _ _ _ s']) (simp_all add: o)
  qed
qed

lemma every_op_ok:
  assumes "ds6_ok s" "others_ok other" "ds6_op_ok op"
  shows "step_ok other ns_len nb op s"
proof -
  obtain ks rs where s: "routes_ok s ks rs" "callbacks_registered s" using assms(1) by (auto simp: ds6_ok_def)
  show ?thesis
    by (cases op; (rule route_op_ok [OF s assms(3)], blast | rule router_op_ok [OF s], blast | rule neighbor_op_ok [OF s assms(2)], blast))
qed

section \<open>From the start\<close>

text \<open>
  Memory before \<open>uip_ds6_neighbors_init\<close> and \<open>uip_ds6_route_init\<close>: no neighbor, two registrations
  free, the memory of both tables laid out, the pools of routes of the same size.
\<close>

definition ds6_boot :: "ds6_sys \<Rightarrow> bool" where
  "ds6_boot s \<longleftrightarrow> nbr_inv s [] \<and> num_tables s + 2 \<le> MAX_NUM_TABLES \<and> length (all_tables s) = MAX_NUM_TABLES \<and>
     (\<forall>t \<in> {ds6_neighbors, nbr_routes}. nt_data (tables s t) \<noteq> NULL \<and> nt_item_size (tables s t) \<noteq> 0 \<and>
        nbrs s * nt_item_size (tables s t) < 32768) \<and>
     (\<forall>i < MAX_NUM_TABLES. all_tables s ! i \<notin> {ds6_neighbors, nbr_routes} \<and> (all_tables s ! i \<noteq> NULL \<longrightarrow>
        nt_callback (tables s (all_tables s ! i)) \<notin> {uip_ds6_nbr_rm_ptr, rm_routelist_callback_ptr})) \<and>
     memb_wf (routememb (nbr_user s)) \<and> memb_wf (neighborroutememb (nbr_user s)) \<and> memb_live (neighborroutememb (nbr_user s)) = {} \<and>
     mnum (neighborroutememb (nbr_user s)) = mnum (routememb (nbr_user s)) \<and> mnum (routememb (nbr_user s)) \<noteq> 0 \<and>
     num_routes (nbr_user s) = 0 \<and> memb_wf (defaultroutermemb (nbr_user s))"

definition ds6_start :: "ds6_sys \<Rightarrow> ds6_sys" where
  "ds6_start s = uip_ds6_route_init (uip_ds6_neighbors_init s)"

lemma ds6_start_ok:
  assumes "ds6_boot s"
  shows "routes_ok (ds6_start s) [] []" "callbacks_registered (ds6_start s)"
proof -
  define n where "n = num_tables s"
  have n: "n < MAX_NUM_TABLES" "n + 1 < MAX_NUM_TABLES" "length (all_tables s) = MAX_NUM_TABLES" "num_tables s = n"
    using assms by (simp_all add: ds6_boot_def n_def)
  have ne: "nbr_routes \<noteq> ds6_neighbors" "ds6_neighbors \<noteq> NULL" "nbr_routes \<noteq> NULL" "uip_ds6_nbr_rm_ptr \<noteq> rm_routelist_callback_ptr"
    by (simp_all add: nbr_routes_def ds6_neighbors_def uip_ds6_nbr_rm_ptr_def rm_routelist_callback_ptr_def)
  define T where "T = (tables s)
    (ds6_neighbors := (tables s ds6_neighbors)\<lparr>nt_index := n, nt_callback := uip_ds6_nbr_rm_ptr\<rparr>,
     nbr_routes := (tables s nbr_routes)\<lparr>nt_index := n + 1, nt_callback := rm_routelist_callback_ptr\<rparr>)"
  define A where "A = (all_tables s)[n := ds6_neighbors, n + 1 := nbr_routes]"
  define d where "d = (nbr_user s)\<lparr>routememb := memb_init (routememb (nbr_user s)), route_heap := list_init (route_heap (nbr_user s)) routelist,
    defaultroutermemb := memb_init (defaultroutermemb (nbr_user s)), defrt_heap := list_init (defrt_heap (nbr_user s)) defaultrouterlist,
    notif_heap := list_init (notif_heap (nbr_user s)) notificationlist\<rparr>"
  have st: "ds6_start s = s\<lparr>tables := T, all_tables := A, num_tables := n + 2, nbr_user := d\<rparr>"
    using n ne by (simp add: ds6_start_def uip_ds6_neighbors_init_def uip_ds6_route_init_def nbr_table_register_def upd_def Let_def T_def A_def d_def)
  have T: "T ds6_neighbors = (tables s ds6_neighbors)\<lparr>nt_index := n, nt_callback := uip_ds6_nbr_rm_ptr\<rparr>"
    "T nbr_routes = (tables s nbr_routes)\<lparr>nt_index := n + 1, nt_callback := rm_routelist_callback_ptr\<rparr>"
    "x \<noteq> ds6_neighbors \<Longrightarrow> x \<noteq> nbr_routes \<Longrightarrow> T x = tables s x" for x
    using ne(1) by (simp_all add: T_def)
  have "nbr_inv (ds6_start s) []" using assms by (simp add: ds6_boot_def st nbr_inv_def)
  moreover have "table_ok (ds6_start s) ds6_neighbors" "table_ok (ds6_start s) nbr_routes"
    using assms n(1,2) ne(2,3) by (simp_all add: table_ok_def st T ds6_boot_def)
  ultimately have "tables_ok (ds6_start s) []" by (simp add: tables_ok_def st T)
  moreover have "routes_rep d {} [] nb rl" for nb rl
    using assms memb_init_wf [of "routememb (nbr_user s)"]
    by (simp add: routes_rep_def d_def ds6_boot_def is_list_def list_init_def) (simp add: memb_init_def)
  moreover have "routers_rep d []"
    using assms memb_init_wf [of "defaultroutermemb (nbr_user s)"] by (simp add: routers_rep_def d_def ds6_boot_def is_list_def list_init_def)
  then have "lists_ok d" by (auto simp: lists_ok_def d_def is_list_def list_init_def intro: exI [of _ "[]"])
  moreover have "mnum (routememb d) \<noteq> 0" using assms by (simp add: d_def memb_init_def ds6_boot_def)
  ultimately show "routes_ok (ds6_start s) [] []" by (auto simp: routes_ok_def st)
  have "A ! (n + 1) = nbr_routes" using n by (simp add: A_def)
  moreover have "(nt_callback (T (A ! i)) = rm_routelist_callback_ptr \<longleftrightarrow> A ! i = nbr_routes) \<and>
      (nt_callback (T (A ! i)) = uip_ds6_nbr_rm_ptr \<longleftrightarrow> A ! i = ds6_neighbors)" if i: "i < MAX_NUM_TABLES" "A ! i \<noteq> NULL" for i
  proof -
    have "A ! i = (if i = n then ds6_neighbors else if i = n + 1 then nbr_routes else all_tables s ! i)"
      using n i(1) by (simp add: A_def nth_list_update)
    moreover have "all_tables s ! i \<notin> {ds6_neighbors, nbr_routes}" using assms i(1) by (simp add: ds6_boot_def)
    moreover have "all_tables s ! i \<noteq> NULL \<longrightarrow> nt_callback (tables s (all_tables s ! i)) \<notin> {uip_ds6_nbr_rm_ptr, rm_routelist_callback_ptr}"
      using assms i(1) by (simp add: ds6_boot_def)
    ultimately show ?thesis using ne i(2) T by (auto split: if_splits)
  qed
  ultimately show "callbacks_registered (ds6_start s)" using n(2) unfolding callbacks_registered_def st by auto
qed

fun ds6_run :: "ds6 nbr_callback \<Rightarrow> (ip6addr option \<Rightarrow> ip6addr \<Rightarrow> u16) \<Rightarrow> ip6addr \<Rightarrow> ds6_op list \<Rightarrow> ds6_sys \<Rightarrow> ds6_sys option" where
  "ds6_run other ns_len null_bytes [] s = Some s"
| "ds6_run other ns_len null_bytes (op # ops) s = do { s \<leftarrow> ds6_exec other ns_len null_bytes op s; ds6_run other ns_len null_bytes ops s }"

lemma run_ok:
  assumes "ds6_ok s" "others_ok other" "\<forall>op \<in> set ops. ds6_op_ok op"
  shows "\<exists>s'. ds6_run other ns_len nb ops s = Some s' \<and> ds6_ok s'"
  using assms(1,3)
proof (induction ops arbitrary: s)
  case (Cons op ops)
  then have "step_ok other ns_len nb op s" using every_op_ok [OF Cons.prems(1) assms(2)] by simp
  then obtain s1 where "ds6_exec other ns_len nb op s = Some s1" "ds6_ok s1" by (auto simp: step_ok_def)
  then show ?case using Cons.IH [of s1] Cons.prems(2) by simp
qed simp

section \<open>Correctness\<close>


lemma consistent_routes:
  assumes ok: "routes_ok s ks rs"
  shows "length (route_table s) \<le> unat (mnum (routememb (nbr_user s))) \<and> (\<forall>e \<in> set (route_table s). known_lladdr s (snd (snd e))) \<and>
    (\<exists>r d. uip_ds6_route_lookup a (nbr_user s) = Some (r, d) \<and>
       (if r = NULL then \<forall>e \<in> set (route_table s). \<not> entry_matches a e
        else route_entry s r \<in> set (route_table s) \<and> entry_matches a (route_entry s r) \<and>
          uip_ds6_route_nexthop_lladdr s r = Some (snd (snd (route_entry s r))) \<and>
          (\<forall>e \<in> set (route_table s). entry_matches a e \<longrightarrow> entry_length e \<le> entry_length (route_entry s r))))"
proof -
  have t: "nbr_inv s ks" "table_ok s nbr_routes" using ok by (simp_all add: routes_ok_def tables_ok_def)
  note rt = route_table_eq [OF ok]
  obtain r d rs' where r: "uip_ds6_route_lookup a (nbr_user s) = Some (r, d)" "route_found (nbr_user s) a rs r rs'"
    using routes_ok_lookup [OF ok, of a] by blast
  note spec = route_found_spec [OF r(2) routes_ok_facts(5) [OF ok], unfolded lookup_spec_def]
  have "r \<noteq> NULL \<Longrightarrow> r \<in> set rs" using r(2) by (simp add: route_found_def)
  moreover have "uip_ds6_route_nexthop_lladdr s r = Some (snd (snd (route_entry s r)))" if m: "r \<in> set rs" "r \<noteq> NULL"
  proof -
    obtain k where k: "k \<in> set ks" "neighbor_routes (nbr_user s) r = item_at s nbr_routes (kidx s k)"
      "snd (snd (route_entry s r)) = key_lladdr s k" by (rule route_key [OF ok m(1)])
    show ?thesis using key_item_facts(1) [OF t k(1)] k m(2) by (simp add: uip_ds6_route_nexthop_lladdr_def)
  qed
  ultimately have "if r = NULL then \<forall>e \<in> set (route_table s). \<not> entry_matches a e
        else route_entry s r \<in> set (route_table s) \<and> entry_matches a (route_entry s r) \<and>
          uip_ds6_route_nexthop_lladdr s r = Some (snd (snd (route_entry s r))) \<and>
          (\<forall>e \<in> set (route_table s). entry_matches a e \<longrightarrow> entry_length e \<le> entry_length (route_entry s r))"
    using spec unfolding rt by (auto split: if_splits)
  moreover have "length (route_table s) \<le> unat (mnum (routememb (nbr_user s)))" using routes_ok_facts(3) [OF ok] by (simp add: rt)
  moreover have "\<forall>e \<in> set (route_table s). known_lladdr s (snd (snd e))"
    unfolding rt using hop_known [OF ok] known_lladdr_iff [OF t(1)] by blast
  ultimately show ?thesis using r(1) by blast
qed

lemma consistent_routers:
  assumes ok: "routes_ok s ks rs"
  shows "distinct (map fst (routers s)) \<and> length (routers s) \<le> unat (mnum (defaultroutermemb (nbr_user s))) \<and>
    uip_ds6_defrt_choose s = Some (choose_router (neighbor_cache s) (routers s))"
proof -
  obtain ds where ds: "routers_rep (nbr_user s) ds" by (rule routers_exist [OF ok])
  have "map fst (map (router_entry (nbr_user s)) ds) = map (defrt_ipaddr (nbr_user s)) ds" by (simp add: router_entry_def)
  moreover have "inj_on (defrt_ipaddr (nbr_user s)) (set ds)" using ds by (simp add: routers_rep_def)
  ultimately show ?thesis
    using routers_facts(2,4) [OF ds] defrt_choose_ok [OF ok ds] router_table_eq [OF ds]
    by (simp add: routers_def distinct_map del: map_map)
qed

text \<open>
  C40. After \<open>uip_ds6_neighbors_init\<close> and \<open>uip_ds6_route_init\<close>, whatever routes, neighbors and default
  routers are added, looked up, evicted, removed and found unreachable, every operation returns; there
  are never more routes than the pool holds; the next hop of every route is a neighbor that the neighbor
  tables know, so no route is left behind by an evicted neighbor; a lookup finds a longest match among
  the routes and its next hop, or no route matches; no two default routers have the same address; and
  the default router chosen for a packet is the first whose neighbor is resolved, or else the last one.
\<close>

theorem routes_reachable:
  assumes "ds6_boot s0" "others_ok other" "\<forall>op \<in> set ops. ds6_op_ok op"
  shows "\<exists>s. ds6_run other ns_len null_bytes ops (ds6_start s0) = Some s \<and>
    length (route_table s) \<le> unat (mnum (routememb (nbr_user s))) \<and> (\<forall>e \<in> set (route_table s). known_lladdr s (snd (snd e))) \<and>
    (\<forall>a. \<exists>r d. uip_ds6_route_lookup a (nbr_user s) = Some (r, d) \<and>
       (if r = NULL then \<forall>e \<in> set (route_table s). \<not> entry_matches a e
        else route_entry s r \<in> set (route_table s) \<and> entry_matches a (route_entry s r) \<and>
          uip_ds6_route_nexthop_lladdr s r = Some (snd (snd (route_entry s r))) \<and>
          (\<forall>e \<in> set (route_table s). entry_matches a e \<longrightarrow> entry_length e \<le> entry_length (route_entry s r)))) \<and>
    distinct (map fst (routers s)) \<and> length (routers s) \<le> unat (mnum (defaultroutermemb (nbr_user s))) \<and>
    uip_ds6_defrt_choose s = Some (choose_router (neighbor_cache s) (routers s))"
proof -
  have "ds6_ok (ds6_start s0)" using ds6_start_ok [OF assms(1)] by (auto simp: ds6_ok_def)
  from run_ok [OF this assms(2,3), of ns_len null_bytes]
  obtain s ks rs where s: "ds6_run other ns_len null_bytes ops (ds6_start s0) = Some s" "routes_ok s ks rs" by (auto simp: ds6_ok_def)
  show ?thesis using s(1) consistent_routes [OF s(2)] consistent_routers [OF s(2)] by (intro exI [of _ s] conjI allI) blast+
qed

section \<open>An example\<close>

definition demo_memb :: "ptr \<Rightarrow> memb" where
  "demo_memb p = \<lparr>msize = 10, mnum = 2, mcount = [0, 0], mmem = p, mbytes = []\<rparr>"

definition demo_heap :: list_heap where
  "demo_heap = \<lparr>lhd = (\<lambda>_. NULL), lnext = (\<lambda>_. NULL)\<rparr>"

definition demo_ds6 :: ds6 where
  "demo_ds6 = \<lparr>nbr_ipaddr = (\<lambda>_. []), nbr_reachable = (\<lambda>_. \<lparr>s_start = 0, s_interval = 0\<rparr>), nbr_sendns = (\<lambda>_. \<lparr>s_start = 0, s_interval = 0\<rparr>),
     nbr_nscount = (\<lambda>_. 0), nbr_isrouter = (\<lambda>_. 0), nbr_state = (\<lambda>_. 0), nbr_packet = (\<lambda>_. NULL), packets_memb = demo_memb 300,
     lifetimer = (\<lambda>_. None), queue_buf_len = (\<lambda>_. 0), route_heap = demo_heap, routememb = demo_memb 400, neighbor_routes = (\<lambda>_. NULL),
     route_ipaddr = (\<lambda>_. []), route_length = (\<lambda>_. 0), num_routes = 0, route_list = (\<lambda>_. NULL), nr_heap = demo_heap,
     neighborroutememb = demo_memb 500, nr_route = (\<lambda>_. NULL), defrt_heap = demo_heap, defaultroutermemb = demo_memb 600,
     defrt_ipaddr = (\<lambda>_. []), defrt_lifetime = (\<lambda>_. \<lparr>s_start = 0, s_interval = 0\<rparr>), defrt_isinfinite = (\<lambda>_. False),
     notif_heap = demo_heap, notif_callback = (\<lambda>_. NULL), retrans_timer = 1000, ds6_uip_len = 0, ds6_trace = []\<rparr>"

definition demo_sys :: ds6_sys where
  "demo_sys = \<lparr>used_map = [0, 0], locked_map = [0, 0], all_tables = [0, 0, 0, 0, 0, 0, 0, 0], num_tables = 0,
     neighbor_addr_mem = demo_memb 100, nbr_heap = demo_heap, key_lladdr = (\<lambda>_. linkaddr_null),
     tables = (\<lambda>t. \<lparr>nt_index = 0, nt_item_size = 4, nt_callback = NULL, nt_data = (if t = ds6_neighbors then 700 else 800)\<rparr>),
     item_mem = (\<lambda>_. 0), nbr_user = demo_ds6\<rparr>"

abbreviation (input) demo_ll :: "u8 \<Rightarrow> linkaddr" where "demo_ll n \<equiv> Linkaddr 2 0 0 0 0 0 0 n"

definition demo_ops :: "ds6_op list" where
  "demo_ops = [Nbr_add 0 [254, 1] (demo_ll 1) 0 1, Nbr_add 0 [254, 2] (demo_ll 2) 0 1,
     Route_add [32, 1, 7] 24 [254, 1], Route_add [32, 1, 8] 24 [254, 2], Route_lookup [32, 1, 7, 9],
     Nbr_add 0 [254, 3] (demo_ll 3) 0 1, Defrt_add 0 [254, 3] 60, Defrt_add 0 [254, 2] 0, Nbr_periodic 30, Defrt_periodic 90]"

lemma demo_boot: "ds6_boot demo_sys"
proof -
  have "[0, 0 :: u8] ! i = 0" if "i < 2" for i using that by (auto simp: less_2_cases_iff)
  then have z: "memb_live (demo_memb p) = {}" for p by (simp add: memb_live_def demo_memb_def)
  have wf: "memb_wf (demo_memb 100)" "memb_wf (demo_memb 400)" "memb_wf (demo_memb 500)" "memb_wf (demo_memb 600)" by (simp_all add: memb_wf_def demo_memb_def)
  have "nbr_inv demo_sys []" using z [of 100] wf(1)
    by (simp add: nbr_inv_def demo_sys_def is_list_def demo_heap_def less_2_cases_iff) (auto simp: demo_memb_def less_2_cases_iff)
  moreover have "\<forall>i < MAX_NUM_TABLES. all_tables demo_sys ! i = 0"
    by (simp add: demo_sys_def MAX_NUM_TABLES_def nth_Cons split: nat.split)
  ultimately show ?thesis using z [of 500] wf(2-4)
    by (simp add: ds6_boot_def ds6_neighbors_def nbr_routes_def) (simp add: demo_sys_def demo_ds6_def demo_memb_def MAX_NUM_TABLES_def)
qed

lemma demo_others: "others_ok (\<lambda>_ _ s. s)"
  by (simp add: others_ok_def spares_routes_def same_route_data_def)

text \<open>The only neighbor is found.\<close>

lemma only_neighbor:
  assumes ok: "routes_ok s [k] rs" and n: "nbr_table_get_from_lladdr s ds6_neighbors (Some a) = Some nbr" "nbr \<noteq> NULL"
    and ip: "nbr_ipaddr (nbr_user s) nbr = ip"
  shows "uip_ds6_nbr_lladdr_from_ipaddr s (Some ip) = Some (Some a)"
proof -
  have t: "nbr_inv s [k]" "table_ok s ds6_neighbors" using ok by (simp_all add: routes_ok_def tables_ok_def)
  have a: "a = key_lladdr s k" using get_from_lladdr_unknown [OF t(1), of a ds6_neighbors] n by auto
  note kf = key_item_facts [OF t, of k]
  have nb: "in_table s ds6_neighbors k" "nbr = item_at s ds6_neighbors (kidx s k)" using kf(4) n by (simp_all add: a split: if_splits)
  have "items s ds6_neighbors [k] = [nbr]" using nb by (simp add: items_def)
  then have "uip_ds6_nbr_lookup s (Some ip) = Some nbr" using nbr_lookup_eq [OF t, of ip] ip by simp
  moreover have "nbr_table_get_lladdr s ds6_neighbors nbr = Some a" using kf(1) nb(2) a by simp
  ultimately show ?thesis using n(2) by (simp add: uip_ds6_nbr_lladdr_from_ipaddr_def uip_ds6_nbr_get_ll_def)
qed

lemma demo_routers:
  "routers (ds6_start demo_sys) = []" "mnum (defaultroutermemb (nbr_user (ds6_start demo_sys))) = 2"
proof -
  define d where "d = nbr_user (ds6_start demo_sys)"
  have d: "lhd (defrt_heap d) defaultrouterlist = NULL" "mnum (defaultroutermemb d) = 2"
    by (simp_all add: d_def ds6_start_def uip_ds6_route_init_def uip_ds6_neighbors_init_def upd_def nbr_table_register_def Let_def
      demo_sys_def demo_ds6_def demo_memb_def demo_heap_def memb_init_def list_init_def)
  have "is_list (defrt_heap d) defaultrouterlist []" using d(1) by (simp add: is_list_def)
  from list_length_is_list [OF this] show "routers (ds6_start demo_sys) = []" "mnum (defaultroutermemb (nbr_user (ds6_start demo_sys))) = 2"
    using d(2) by (simp_all add: routers_def router_table_def d_def)
qed


theorem routes_reachable_witness:
  "\<exists>s. ds6_run (\<lambda>_ _ s. s) (\<lambda>_ _. 0) [] demo_ops (ds6_start demo_sys) = Some s \<and>
    length (route_table s) \<le> unat (mnum (routememb (nbr_user s))) \<and> (\<forall>e \<in> set (route_table s). known_lladdr s (snd (snd e)))"
proof -
  have "\<forall>op \<in> set demo_ops. ds6_op_ok op" by (simp add: demo_ops_def)
  from routes_reachable [OF demo_boot demo_others this, of "\<lambda>_ _. 0" "[]"] show ?thesis by blast
qed

end
