(* ===== verification/Spec2Isabelle.thy ===== *)
theory Spec2Isabelle
  imports LinkedList Memb Mmem Ringbuf Codes Aes
    Timer Process Etimer Ctimer Trickle
    Frame802154 Packetbuf Queuebuf NbrTable MacSequence AntiReplay CcmStar NbrLock Noncoresec
    Csma CsmaCorrect Iphc IphcCorrect Sicslowpan Reassembly SicslowpanCorrect
    Ds6 Ds6Routes Ds6Table Ds6Evict Ds6Routers Ds6Nud Ds6Correct
begin

text \<open>
  Contiki OS for the AVR: a verification development of the operating system core under \<open>core/\<close>.

  \<^bold>\<open>The program.\<close> Contiki is an event-driven operating system for 8-bit microcontrollers with radios. A kernel
  (\<open>core/sys\<close>) runs protothreads that react to events and polls; timers post events or call functions. Libraries
  (\<open>core/lib\<close>) supply intrusive lists, pools of equal blocks, managed memory, byte queues, codes, checksums,
  a block cipher and the Trickle algorithm. The network code (\<open>core/net\<close>) works on one global packet buffer with attributes:
  headers are pushed in front of the data, frames are built and parsed, secured, filtered for duplicates
  and replays, and queued; per-neighbor tables belong to all layers. Above it are 6LoWPAN, IPv6, RPL, the Rime stack, file
  systems and applications.

  \<^bold>\<open>How code becomes HOL.\<close> The target is the ATmega256RFR2: \<open>int\<close> and \<open>short\<close> have 16
  bits, \<open>char\<close> 8, \<open>long\<close> 32, \<open>clock_time_t\<close> 16, addresses eight bytes; machine integers are words of these
  widths (theory Prelude). A pointer is a number, \<open>NULL\<close> is 0. Static variables of a file are the fields of a record that
  every operation takes and returns. Loops over pointer chains and other loops that might not end are
  \<^theory_text>\<open>partial_function (option)\<close>s: None is a call that does not return, and the theorems show that the calls return.
  Code outside a component (protothread bodies, callbacks, the radio, other drivers) is a parameter; calls upward into other
  layers are results. Compile-time settings are the defaults of the repository unless a theory says otherwise.

  \<^bold>\<open>Theories and sources.\<close>
  \<^item> Prelude: machine types, the collections \<open>chain_simps\<close> and \<open>wf_intros\<close>, lemmas on lists and words.
  \<^item> LinkedList (\<open>lib/list.c\<close>): the chains of \<open>next\<close> pointers in an explicit store; \<open>is_list\<close> says that a list head
    represents a HOL list. The locale of linked lists states what clients use and is interpreted on the code's operations.
  \<^item> Memb (\<open>lib/memb.c\<close>): block pools; locale \<open>block_pool\<close>, interpreted as \<open>mb\<close>.
  \<^item> Mmem (\<open>lib/mmem.c\<close>): managed memory on the lists; compaction keeps all contents.
  \<^item> Fifo, Ringbuf (\<open>lib/ringbuf.c\<close>): the contract of a bounded queue, shared with the event queue, and the byte ring.
  \<^item> Codes (\<open>lib/crc16.c\<close>, \<open>lib/gcr.c\<close>, \<open>lib/me.c\<close>, \<open>lib/me_tabs.c\<close>): checksum and line codes.
  \<^item> Aes (\<open>lib/aes-128.c\<close>): the cipher against FIPS 197, the S-box against its algebraic definition.
  \<^item> Timer (\<open>sys/timer.c\<close>, \<open>sys/stimer.c\<close>): passive timers and their wrap-around.
  \<^item> Process (\<open>sys/process.c\<close>): the kernel. A protothread is a parameter: given an event it yields a tree of kernel calls; an
    interpreter runs the nested calls with fuel, and the theorems hold for every fuel that suffices, or show that one does.
  \<^item> Etimer (\<open>sys/etimer.c\<close>), Ctimer (\<open>sys/ctimer.c\<close>): event timers posting into the kernel's queue, callback timers on both.
  \<^item> Trickle (\<open>lib/trickle-timer.c\<close>): intervals, transmissions and suppression; of the callback timer inside it
    keeps what \<open>ctimer_set\<close> writes.
  \<^item> Frame802154 (\<open>net/mac/frame802154.c\<close>): building and parsing of frame headers.
  \<^item> Packetbuf (\<open>net/packetbuf.c\<close>, \<open>net/linkaddr.c\<close>): the packet buffer as header and data.
  \<^item> Queuebuf (\<open>net/queuebuf.c\<close>): stored copies of packets, on the pools.
  \<^item> NbrTable, NbrLock (\<open>net/nbr-table.c\<close>): neighbor tables on lists and pools, eviction, and what locking preserves.
  \<^item> MacSequence (\<open>net/mac/mac-sequence.c\<close>), AntiReplay (\<open>net/llsec/anti-replay.c\<close>): filters for duplicates and replays.
  \<^item> CcmStar (\<open>net/llsec/ccm-star.c\<close>): integrity codes and encryption of the packet buffer against RFC 3610.
  \<^item> Noncoresec (\<open>net/llsec/noncoresec/noncoresec.c\<close>): the security driver, on Packetbuf, CcmStar, AntiReplay, NbrLock and Aes.
  \<^item> Csma, CsmaCorrect (\<open>net/mac/csma.c\<close>, \<open>net/mac/mac.c\<close>): the queues of the MAC layer, on lists, pools and queue buffers;
    its invariant, and the accounting of packets and callbacks over histories.
  \<^item> Iphc, IphcCorrect (\<open>net/ipv6/sicslowpan.c\<close>, \<open>sicslowpan.h\<close>, macros of \<open>net/ip/uip.h\<close>): HC06 header compression as a
    writer and a reader of bytes; every encoding is decoded again.
  \<^item> Sicslowpan, Reassembly, SicslowpanCorrect (\<open>net/ipv6/sicslowpan.c\<close>): output with fragmentation, input with reassembly, on
    Packetbuf, Queuebuf and Timer; the frames of a datagram as a list, sent by one side and put together by the other.
  \<^item> Ds6 (\<open>net/ipv6/uip-ds6-nbr.c\<close>, \<open>net/ipv6/uip-ds6-route.c\<close>, \<open>net/ip/uip-packetqueue.c\<close>): neighbor cache, routes, default
    routers and packet queues, two clients of the neighbor tables that call back into each other when a neighbor is evicted.
    Ds6Routes: routes, the lists of a neighbor's routes and two pools kept in step by every operation. Ds6Table: the routes as
    a table of entries, looked up by longest match. Ds6Evict: an eviction takes the routes through its victim and no others.
    Ds6Routers: default routers as a table of addresses and lifetimes. Ds6Nud: the neighbor cache as a list of entries, and
    neighbor unreachability detection that goes through it while it removes neighbors and default routers.
    Ds6Correct: all operations against the specifications of the three tables, and histories from initialisation.

  \<^bold>\<open>What the lemmas show.\<close> In every theory the definitions come first, in the order of the code; then an invariant or a
  representation predicate that relates the state to an abstract value (a list, a map, a byte string, a set of live blocks);
  then one lemma per operation: it returns, keeps the invariant and does on the abstract value what it
  should; then the properties C1 to C40, over arbitrary histories of calls where the state allows it. Equivalences compare with
  independent definitions: bit-serial division (CRC), FIPS 197, RFC 3610. Where the code refuses a request, the theorems
  say exactly when. Some theorems state misbehaviour: C28, a short frame makes the security
  driver run forever; C34, collisions are not limited; C36, a compressed source address is lost; and the lemma on \<open>gcr_valid\<close> in Codes, which looks at half of a code word only.

  \<^bold>\<open>Bounds and fuel.\<close> Sizes that the code fixes at compile time are parameters where they can be (pools, tables, ring buffers),
  with the bounds the declarations give them as well-formedness predicates (\<open>memb_wf\<close>, \<open>table_ok\<close>, \<open>qb_pools\<close>). Fuel occurs only
  in the interpreter of nested kernel calls (Process): it bounds the depth of nesting, every theorem about a result
  holds for any fuel that yields one, and C15 gives the amount that suffices for one scheduler iteration.

  \<^bold>\<open>Not modelled.\<close> Optional code that the default configuration leaves out (statistics, debugging output, swapping of queue
  buffers to files, addresses of two bytes in the security driver). The clock is an argument of the operations that read it. Of
  6LoWPAN the compression HC1, which the platform does not select, is left out, and the layers below it are a parameter with the
  law \<open>link_sync\<close> where delivery is claimed. Of IPv6 the data on neighbors, routes and default routers is modelled; callbacks of
  other modules into it are a parameter that leaves routes alone (\<open>others_ok\<close>), and the queues of packets that wait for a
  neighbor have definitions but no properties. Its packet processing and address lists, RPL, the duty-cycling drivers and framers, the Rime primitives, the file
  systems and the IPv4 stack are not modelled yet. Device drivers, platform start-up code and interrupt handlers are register-level code whose behaviour is the
  hardware's. Applications, examples and the graphical toolkit are clients of the modelled
  interfaces; tools and tests are not part of the system.
\<close>

end
